(* ===== verification/Prelude.thy ===== *)
theory Prelude
  imports Main "HOL-Library.Word" "HOL-Library.Monad_Syntax"
begin

text \<open>
  Shared vocabulary of the development: the machine integers of the Rust sources, the
  arithmetic of the default (\<^verbatim>\<open>dev\<close>) build profile, in which an overflowing
  \<^verbatim>\<open>+\<close>, \<^verbatim>\<open>-\<close>, \<^verbatim>\<open>*\<close> or \<^verbatim>\<open><<\<close> panics, little-endian byte encodings, the flat
  byte memory that raw pointers of the kernel point into, and byte buffers.

  A Rust function that can panic returns an \<open>option\<close>. The panic handler of the kernel
  (\<^verbatim>\<open>main.rs\<close>: \<^verbatim>\<open>panic\<close>, \<^verbatim>\<open>abort\<close>) prints a message and spins in
  \<^verbatim>\<open>wfi\<close> forever, so \<open>None\<close> reads "this call never returns": it panicked, or it
  loops. Recoverable errors (\<^verbatim>\<open>Result\<close>, \<^verbatim>\<open>Option\<close>, null pointers) are values inside
  the \<open>Some\<close>.
\<close>

unbundle bit_operations_syntax

named_theorems checked_simps \<open>when a checked operation returns, and what\<close>
named_theorems region_simps \<open>membership and disjointness of memory regions\<close>

section \<open>Machine integers and checked arithmetic\<close>

type_synonym u8 = "8 word"
type_synonym u16 = "16 word"
type_synonym u32 = "32 word"
type_synonym u64 = "64 word"
type_synonym usize = "64 word"

definition uadd :: "'l::len word \<Rightarrow> 'l word \<Rightarrow> 'l word option" where
  "uadd a b = (if unat a + unat b < 2 ^ LENGTH('l) then Some (a + b) else None)"

definition usub :: "'l::len word \<Rightarrow> 'l word \<Rightarrow> 'l word option" where
  "usub a b = (if b \<le> a then Some (a - b) else None)"

definition umul :: "'l::len word \<Rightarrow> 'l word \<Rightarrow> 'l word option" where
  "umul a b = (if unat a * unat b < 2 ^ LENGTH('l) then Some (a * b) else None)"

definition ushl :: "'l::len word \<Rightarrow> usize \<Rightarrow> 'l word option" where
  "ushl a k = (if unat k < LENGTH('l) then Some (push_bit (unat k) a) else None)"

text \<open>\<^verbatim>\<open>assert!(b)\<close>\<close>

definition assert_that :: "bool \<Rightarrow> unit option" where
  "assert_that b = (if b then Some () else None)"

lemma assert_that_simps [simp]:
  "assert_that True = Some ()" "assert_that False = None"
  "assert_that b = Some u \<longleftrightarrow> b"
  by (simp_all add: assert_that_def)

lemma uadd_eq_Some [checked_simps]:
  "uadd (a :: 'l::len word) b = Some c \<longleftrightarrow> unat a + unat b < 2 ^ LENGTH('l) \<and> c = a + b"
  by (auto simp: uadd_def)

lemma usub_eq_Some [checked_simps]: "usub a b = Some c \<longleftrightarrow> b \<le> a \<and> c = a - b"
  by (auto simp: usub_def)

lemma umul_eq_Some [checked_simps]:
  "umul (a :: 'l::len word) b = Some c \<longleftrightarrow> unat a * unat b < 2 ^ LENGTH('l) \<and> c = a * b"
  by (auto simp: umul_def)

lemma umul_commute: "umul a b = umul b a"
  by (simp add: umul_def mult.commute)

lemma unat_add_no_wrap:
  "unat (a :: 'l::len word) + unat b < 2 ^ LENGTH('l) \<Longrightarrow> unat (a + b) = unat a + unat b"
  by (simp add: unat_word_ariths)

lemma unat_mult_no_wrap:
  "unat (a :: 'l::len word) * unat b < 2 ^ LENGTH('l) \<Longrightarrow> unat (a * b) = unat a * unat b"
  by (simp add: unat_word_ariths)

lemma unat_of_nat_small:
  "n < 2 ^ LENGTH('l) \<Longrightarrow> unat (of_nat n :: 'l::len word) = n"
  by (simp add: unat_of_nat take_bit_nat_eq_self)

lemma uadd_unat: "uadd a b = Some c \<Longrightarrow> unat c = unat a + unat b"
  by (simp add: uadd_eq_Some unat_add_no_wrap)

lemma usub_unat: "usub a b = Some c \<Longrightarrow> unat c = unat a - unat b"
  by (simp add: usub_eq_Some unat_sub)

lemma umul_unat: "umul a b = Some c \<Longrightarrow> unat c = unat a * unat b"
  by (simp add: umul_eq_Some unat_mult_no_wrap)

text \<open>An address \<open>k\<close> bytes after \<open>a\<close>, when that does not leave the address space.\<close>

lemma unat_add_of_nat:
  "unat (a :: usize) + k < 2 ^ 64 \<Longrightarrow> unat (a + of_nat k) = unat a + k"
  using unat_add_no_wrap [of a "of_nat k"] unat_of_nat_small [of k, where 'l = 64] by simp

lemma unat_lt_2p64: "unat (a :: 64 word) < 2 ^ 64"
  using unsigned_less [of a, where 'a = nat] by simp

lemma unat_sub_of_nat:
  "unat ((a + of_nat i) - a :: usize) = i" if "i < 2 ^ 64"
  using that unat_of_nat_small [of i, where 'l = 64] by simp

section \<open>Little-endian encodings\<close>

text \<open>
  Structures are \<^verbatim>\<open>repr(C)\<close> on a little-endian target: a field is the word its bytes
  spell, least significant byte first.
\<close>

fun le_word :: "u8 list \<Rightarrow> 'l::len word" where
  "le_word [] = 0"
| "le_word (b # bs) = ucast b OR push_bit 8 (le_word bs)"

fun to_le :: "nat \<Rightarrow> 'l::len word \<Rightarrow> u8 list" where
  "to_le 0 v = []"
| "to_le (Suc n) v = ucast v # to_le n (drop_bit 8 v)"

lemma length_to_le [simp]: "length (to_le n v) = n"
  by (induction n arbitrary: v) simp_all

lemma le_word_to_le: "le_word (to_le n v) = take_bit (8 * n) v"
proof (induction n arbitrary: v)
  case (Suc n)
  show ?case
    by (rule bit_word_eqI) (auto simp: Suc bit_simps)
qed simp

lemma bit_le_word: "bit (le_word bs :: 'l::len word) k \<Longrightarrow> k < 8 * length bs"
proof (induction bs arbitrary: k)
  case (Cons b bs)
  show ?case
  proof (cases "k < 8")
    case False
    with Cons.prems bit_imp_le_length [of b k] have "bit (le_word bs :: 'l word) (k - 8)"
      by (auto simp: bit_simps)
    from Cons.IH [OF this] show ?thesis by simp
  qed simp
qed simp

lemma to_le_le_word:
  "length bs = n \<Longrightarrow> 8 * n \<le> LENGTH('l) \<Longrightarrow> to_le n (le_word bs :: 'l::len word) = bs"
proof (induction n arbitrary: bs)
  case (Suc n)
  then obtain b cs where bs: "bs = b # cs" and len: "length cs = n" by (cases bs) auto
  have hd: "(ucast (ucast b OR push_bit 8 (le_word cs) :: 'l word) :: u8) = b"
    using Suc.prems(2) by (intro bit_word_eqI) (auto simp: bit_simps)
  have fits: "8 + k < LENGTH('l)" if "bit (le_word cs :: 'l word) k" for k
    using bit_le_word [OF that] len Suc.prems(2) by simp
  have "drop_bit 8 (ucast b OR push_bit 8 (le_word cs) :: 'l word) = le_word cs"
    by (rule bit_word_eqI) (auto simp: bit_simps dest: fits bit_imp_le_length)
  with bs hd Suc.IH [of cs] Suc.prems len show ?case by simp
qed simp

lemma le_word_to_le_64 [simp]: "le_word (to_le 8 (v :: u64)) = v"
  by (simp add: le_word_to_le take_bit_word_eq_self)

lemma le_word_to_le_32 [simp]: "le_word (to_le 4 (v :: u32)) = v"
  by (simp add: le_word_to_le take_bit_word_eq_self)

lemma le_word_to_le_16 [simp]: "le_word (to_le 2 (v :: u16)) = v"
  by (simp add: le_word_to_le take_bit_word_eq_self)

section \<open>Byte memory\<close>

text \<open>
  The kernel runs in machine mode with the MMU off, so a raw pointer is a physical
  address. Memory is a total function from addresses to bytes; an access of several
  bytes wraps around the address space as the address arithmetic of the hardware does.
\<close>

type_synonym mem = "usize \<Rightarrow> u8"

definition in_region :: "usize \<Rightarrow> nat \<Rightarrow> usize \<Rightarrow> bool" where
  "in_region a n x \<longleftrightarrow> unat (x - a) < n"

definition load_bytes :: "mem \<Rightarrow> usize \<Rightarrow> nat \<Rightarrow> u8 list" where
  "load_bytes m a n = map (\<lambda>i. m (a + of_nat i)) [0..<n]"

definition store_bytes :: "mem \<Rightarrow> usize \<Rightarrow> u8 list \<Rightarrow> mem" where
  "store_bytes m a bs = (\<lambda>x. if in_region a (length bs) x then bs ! unat (x - a) else m x)"

definition load64 :: "mem \<Rightarrow> usize \<Rightarrow> u64" where
  "load64 m a = le_word (load_bytes m a 8)"

definition store64 :: "mem \<Rightarrow> usize \<Rightarrow> u64 \<Rightarrow> mem" where
  "store64 m a v = store_bytes m a (to_le 8 v)"

text \<open>Two regions of the given sizes share no address.\<close>

definition disjoint_regions :: "usize \<Rightarrow> nat \<Rightarrow> usize \<Rightarrow> nat \<Rightarrow> bool" where
  "disjoint_regions a n b k \<longleftrightarrow>
     unat a + n \<le> 2 ^ 64 \<and> unat b + k \<le> 2 ^ 64 \<and> (unat a + n \<le> unat b \<or> unat b + k \<le> unat a)"

lemma length_load_bytes [simp]: "length (load_bytes m a n) = n"
  by (simp add: load_bytes_def)

lemma nth_load_bytes [simp]: "i < n \<Longrightarrow> load_bytes m a n ! i = m (a + of_nat i)"
  by (simp add: load_bytes_def)

lemma in_region_offset: "i < n \<Longrightarrow> n \<le> 2 ^ 64 \<Longrightarrow> in_region a n (a + of_nat i)"
  by (simp add: in_region_def unat_of_nat_small)

lemma in_region_iff:
  assumes "unat a + n \<le> 2 ^ 64"
  shows "in_region a n x \<longleftrightarrow> unat a \<le> unat x \<and> unat x < unat a + n"
proof (cases "a \<le> x")
  case True
  then show ?thesis
    using unat_sub [of a x] by (auto simp: in_region_def word_le_nat_alt)
next
  case False
  then have lt: "unat x < unat a" by (simp add: word_le_nat_alt)
  have "unat (x - a) = unat x + 2 ^ 64 - unat a"
    using unat_sub_if_size [of x a] lt by (simp add: word_size)
  then show ?thesis
    using lt assms unat_lt_2p64 [of a] by (auto simp: in_region_def)
qed

lemma in_regionE:
  assumes "in_region a n x" obtains i where "i < n" and "x = a + of_nat i"
  using that [of "unat (x - a)"] assms by (simp add: in_region_def)

lemma disjoint_regionsD:
  "disjoint_regions a n b k \<Longrightarrow> in_region a n x \<Longrightarrow> \<not> in_region b k x"
  by (auto simp: disjoint_regions_def in_region_iff)

lemma disjoint_regions_sym: "disjoint_regions a n b k \<Longrightarrow> disjoint_regions b k a n"
  by (auto simp: disjoint_regions_def)

lemma disjoint_regions_mono:
  "disjoint_regions a n b k \<Longrightarrow> n' \<le> n \<Longrightarrow> k' \<le> k \<Longrightarrow> disjoint_regions a n' b k'"
  by (auto simp: disjoint_regions_def)

lemma store_bytes_outside [region_simps]:
  "\<not> in_region a (length bs) x \<Longrightarrow> store_bytes m a bs x = m x"
  by (simp add: store_bytes_def)

lemma store_bytes_Nil [simp]: "store_bytes m a [] = m"
  by (rule ext) (simp add: store_bytes_def in_region_def)

lemma store_bytes_single: "store_bytes m a [v] = m(a := v)"
  by (rule ext) (auto simp: store_bytes_def in_region_def unat_eq_0)

lemma load_store_bytes:
  "length bs \<le> 2 ^ 64 \<Longrightarrow> load_bytes (store_bytes m a bs) a (length bs) = bs"
  by (rule nth_equalityI)
     (simp_all add: store_bytes_def in_region_offset unat_of_nat_small)

lemma store_bytes_same:
  "load_bytes m a (length bs) = bs \<Longrightarrow> store_bytes m a bs = m"
proof
  fix x assume eq: "load_bytes m a (length bs) = bs"
  show "store_bytes m a bs x = m x"
  proof (cases "in_region a (length bs) x")
    case True
    then have "bs ! unat (x - a) = m x"
      using arg_cong [OF eq, of "\<lambda>l. l ! unat (x - a)"] by (simp add: in_region_def)
    with True show ?thesis by (simp add: store_bytes_def)
  qed (simp add: store_bytes_def)
qed

lemma store_bytes_twice:
  "length bs = length cs \<Longrightarrow> store_bytes (store_bytes m a bs) a cs = store_bytes m a cs"
  by (rule ext) (simp add: store_bytes_def)

lemma load_bytes_cong:
  "(\<And>x. in_region a n x \<Longrightarrow> m x = m' x) \<Longrightarrow> n \<le> 2 ^ 64 \<Longrightarrow> load_bytes m a n = load_bytes m' a n"
  by (simp add: load_bytes_def in_region_offset)

lemma load_store_bytes_disjoint:
  "disjoint_regions a (length bs) b n \<Longrightarrow> load_bytes (store_bytes m a bs) b n = load_bytes m b n"
  by (rule load_bytes_cong)
     (auto simp: store_bytes_def disjoint_regions_def dest: disjoint_regionsD [rotated] disjoint_regions_sym)

lemma store_bytes_append:
  assumes "length bs + length cs \<le> 2 ^ 64"
  shows "store_bytes (store_bytes m a bs) (a + of_nat (length bs)) cs = store_bytes m a (bs @ cs)"
proof
  fix x
  let ?d = "unat (x - a)"
  have eq: "x - (a + of_nat (length bs)) = (x - a) - of_nat (length bs)" by simp
  show "store_bytes (store_bytes m a bs) (a + of_nat (length bs)) cs x = store_bytes m a (bs @ cs) x"
  proof (cases "cs = []")
    case True
    then show ?thesis by (simp add: store_bytes_def in_region_def)
  next
    case False
    with assms have lb: "length bs < 2 ^ 64" by (cases cs) auto
    then have ub: "unat (of_nat (length bs) :: usize) = length bs"
      using unat_of_nat_small [of "length bs", where 'l = 64] by simp
    have lt: "?d < 2 ^ 64" by (rule unat_lt_2p64)
    show ?thesis
    proof (cases "length bs \<le> ?d")
      case True
      then have "unat (x - (a + of_nat (length bs))) = ?d - length bs"
        unfolding eq using unat_sub [of "of_nat (length bs)" "x - a"] ub
        by (simp add: word_le_nat_alt)
      with True show ?thesis
        by (auto simp: store_bytes_def in_region_def nth_append)
    next
      case False
      have "unat (x - (a + of_nat (length bs))) = ?d + 2 ^ 64 - length bs"
        unfolding eq using unat_sub_if_size [of "x - a" "of_nat (length bs)"] ub False
        by (simp add: word_size)
      with False assms show ?thesis
        by (auto simp: store_bytes_def in_region_def nth_append)
    qed
  qed
qed

lemma load_bytes_append:
  "load_bytes m a (n + k) = load_bytes m a n @ load_bytes m (a + of_nat n) k"
  by (rule nth_equalityI) (auto simp: nth_append load_bytes_def add.assoc simp flip: of_nat_add)


lemma load_store64 [simp]: "load64 (store64 m a v) a = v"
  using load_store_bytes [of "to_le 8 v" m a] by (simp add: load64_def store64_def)

lemma load_store64_disjoint [region_simps]:
  "disjoint_regions a 8 b 8 \<Longrightarrow> load64 (store64 m a v) b = load64 m b"
  by (simp add: load64_def store64_def load_store_bytes_disjoint)

lemma load64_cong: "(\<And>x. in_region a 8 x \<Longrightarrow> m x = m' x) \<Longrightarrow> load64 m a = load64 m' a"
  by (simp add: load64_def load_bytes_cong [of a 8 m m'])

lemma store64_outside [region_simps]: "\<not> in_region a 8 x \<Longrightarrow> store64 m a v x = m x"
  by (simp add: store64_def store_bytes_outside)

lemma store64_store64 [simp]: "store64 (store64 m a v) a w = store64 m a w"
  by (rule ext) (simp add: store64_def store_bytes_def)

lemma take_load_bytes: "n \<le> k \<Longrightarrow> take n (load_bytes m a k) = load_bytes m a n"
  by (rule nth_equalityI) simp_all

section \<open>Loops that may not return\<close>

text \<open>A \<^verbatim>\<open>for\<close> loop over a list, whose body may panic.\<close>

fun for_each :: "('b \<Rightarrow> 's \<Rightarrow> 's option) \<Rightarrow> 'b list \<Rightarrow> 's \<Rightarrow> 's option" where
  "for_each f [] s = Some s"
| "for_each f (x # xs) s = Option.bind (f x s) (for_each f xs)"

text \<open>Rules for such a loop: what every step keeps holds at the end, and an invariant indexed by the position.\<close>

lemma for_each_keeps:
  assumes "for_each f xs s = Some s'" and "P s" and "\<And>x s s'. x \<in> set xs \<Longrightarrow> P s \<Longrightarrow> f x s = Some s' \<Longrightarrow> P s'"
  shows "P s'"
  using assms
proof (induction xs arbitrary: s)
  case (Cons x xs)
  then obtain s1 where s1: "f x s = Some s1" "for_each f xs s1 = Some s'" by (auto split: bind_splits)
  show ?case
  proof (rule Cons.IH [OF s1(2)])
    show "P s1" by (rule Cons.prems(3) [OF _ Cons.prems(2) s1(1)]) simp
  qed (rule Cons.prems(3), simp_all)
qed simp

lemma for_each_upt_invariant:
  assumes "P a s" and "a \<le> b"
    and "\<And>i s. a \<le> i \<Longrightarrow> i < b \<Longrightarrow> P i s \<Longrightarrow> \<exists>s'. f i s = Some s' \<and> P (Suc i) s'"
  shows "\<exists>s'. for_each f [a..<b] s = Some s' \<and> P b s'"
  using assms
proof (induction "b - a" arbitrary: a s)
  case (Suc n)
  then have "a < b" by simp
  then obtain s1 where s1: "f a s = Some s1" "P (Suc a) s1" using Suc.prems by blast
  have "\<exists>s'. for_each f [Suc a..<b] s1 = Some s' \<and> P b s'"
    using Suc s1 \<open>a < b\<close> by (intro Suc.hyps(1)) auto
  then show ?case using s1 \<open>a < b\<close> by (simp add: upt_conv_Cons)
qed simp

lemma le_word_zeros: "le_word (replicate n 0) = 0"
  by (induction n) simp_all

lemma unat_lt_2p32: "unat (x :: u32) < 2 ^ 32"
  using unsigned_less [of x, where 'a = nat] by simp

end
