(* ===== verification/Lock.thy ===== *)
theory Lock
  imports Prelude
begin

text \<open>
  \<^verbatim>\<open>lock.rs\<close>: the mutex, one 32-bit word that is swapped atomically. The operations are
  given first as one caller sees them, then as steps of several callers that share a mutex.
\<close>

section \<open>Operations\<close>

datatype MutexState = Unlocked | Locked

fun MutexState_val :: "MutexState \<Rightarrow> u32" where
  "MutexState_val Unlocked = 0"
| "MutexState_val Locked = 1"

record Mutex =
  mstate :: u32

definition Mutex_new :: Mutex where
  "Mutex_new = \<lparr>mstate = MutexState_val Unlocked\<rparr>"

text \<open>\<^verbatim>\<open>amoswap.w\<close>: store the new value, return the old one.\<close>

definition amoswap :: "u32 \<Rightarrow> Mutex \<Rightarrow> u32 \<times> Mutex" where
  "amoswap v mx = (mstate mx, mx\<lparr>mstate := v\<rparr>)"

definition try_lock :: "Mutex \<Rightarrow> (bool \<times> Mutex) option" where
  "try_lock mx =
     (let (st, mx) = amoswap 1 mx
      in if st = 1 then Some (False, mx) else if st = 0 then Some (True, mx) else None)"

definition unlock :: "Mutex \<Rightarrow> Mutex" where
  "unlock mx = snd (amoswap 0 mx)"

partial_function (option) spin_lock :: "Mutex \<Rightarrow> Mutex option" where
  "spin_lock mx = do {
     (got, mx) \<leftarrow> try_lock mx;
     if got then Some mx else spin_lock mx
   }"

text \<open>
  Between two attempts \<^verbatim>\<open>sleep_lock\<close> sleeps, and other processes run: \<open>others n\<close> is what they do to
  the mutex during the \<open>n\<close>-th sleep.
\<close>

partial_function (option) sleep_lock :: "(nat \<Rightarrow> Mutex \<Rightarrow> Mutex) \<Rightarrow> nat \<Rightarrow> Mutex \<Rightarrow> Mutex option" where
  "sleep_lock others n mx = do {
     (got, mx) \<leftarrow> try_lock mx;
     if got then Some mx else sleep_lock others (Suc n) (others n mx)
   }"

section \<open>One caller\<close>

lemma try_lock_simps [simp]:
  "mstate mx = 0 \<Longrightarrow> try_lock mx = Some (True, mx\<lparr>mstate := 1\<rparr>)"
  "mstate mx = 1 \<Longrightarrow> try_lock mx = Some (False, mx)"
  by (simp_all add: try_lock_def amoswap_def)

lemma unlock_state [simp]: "mstate (unlock mx) = 0"
  by (simp add: unlock_def amoswap_def)

lemma unlock_Mutex: "unlock mx = \<lparr>mstate = 0\<rparr>"
  by (simp add: unlock_def amoswap_def)

lemma spin_lock_free: "mstate mx = 0 \<Longrightarrow> spin_lock mx = Some (mx\<lparr>mstate := 1\<rparr>)"
  by (subst spin_lock.simps) simp

text \<open>Nothing else runs while a hart spins, so spinning on a held mutex never ends.\<close>

lemma spin_lock_result:
  assumes "spin_lock mx = Some y" shows "mstate mx \<noteq> 1"
proof (rule spin_lock.raw_induct [where P = "\<lambda>mx _. mstate mx \<noteq> 1", OF _ assms])
  fix f mx y
  assume ih: "\<And>mx y. f mx = Some y \<Longrightarrow> mstate mx \<noteq> 1"
    and r: "try_lock mx \<bind> (\<lambda>(got, mx). if got then Some mx else f mx) = Some y"
  show "mstate mx \<noteq> 1"
  proof
    assume "mstate mx = 1"
    with ih r show False by simp
  qed
qed

lemma spin_lock_held: "mstate mx = 1 \<Longrightarrow> spin_lock mx = None"
  using spin_lock_result by (cases "spin_lock mx") auto

text \<open>\<^verbatim>\<open>sleep_lock\<close> returns with the mutex held as soon as some sleep ends with the mutex free.\<close>

fun after_sleeps :: "(nat \<Rightarrow> Mutex \<Rightarrow> Mutex) \<Rightarrow> nat \<Rightarrow> nat \<Rightarrow> Mutex \<Rightarrow> Mutex" where
  "after_sleeps others n 0 mx = mx"
| "after_sleeps others n (Suc k) mx = after_sleeps others (Suc n) k (others n mx)"

lemma sleep_lock_returns:
  assumes "mstate (after_sleeps others n k mx) = 0"
    and "\<forall>i < k. mstate (after_sleeps others n i mx) = 1"
  shows "sleep_lock others n mx = Some \<lparr>mstate = 1\<rparr>"
  using assms
proof (induction k arbitrary: n mx)
  case 0
  then show ?case by (subst sleep_lock.simps) simp
next
  case (Suc k)
  have held: "mstate mx = 1" using Suc.prems(2) by force
  have "sleep_lock others (Suc n) (others n mx) = Some \<lparr>mstate = 1\<rparr>"
    using Suc.prems by (intro Suc.IH) force+
  then show ?case using held by (subst sleep_lock.simps) simp
qed

section \<open>Several callers\<close>

text \<open>
  Callers share one mutex. A caller outside may start waiting for it, a waiting caller makes an
  attempt with \<^verbatim>\<open>try_lock\<close>, and only a caller that holds the mutex calls \<^verbatim>\<open>unlock\<close>.
\<close>

datatype caller = Outside | Waiting_for | Holding

record lock_sys =
  mutex :: Mutex
  callers :: "nat \<Rightarrow> caller"

inductive lock_step :: "lock_sys \<Rightarrow> lock_sys \<Rightarrow> bool" where
  want: "callers s c = Outside \<Longrightarrow> lock_step s (s\<lparr>callers := (callers s)(c := Waiting_for)\<rparr>)"
| acquire: "callers s c = Waiting_for \<Longrightarrow> try_lock (mutex s) = Some (True, mx) \<Longrightarrow>
    lock_step s (s\<lparr>mutex := mx, callers := (callers s)(c := Holding)\<rparr>)"
| fail: "callers s c = Waiting_for \<Longrightarrow> try_lock (mutex s) = Some (False, mx) \<Longrightarrow> lock_step s (s\<lparr>mutex := mx\<rparr>)"
| release: "callers s c = Holding \<Longrightarrow>
    lock_step s (s\<lparr>mutex := unlock (mutex s), callers := (callers s)(c := Outside)\<rparr>)"

definition lock_init :: lock_sys where
  "lock_init = \<lparr>mutex = Mutex_new, callers = \<lambda>_. Outside\<rparr>"

inductive lock_reach :: "lock_sys \<Rightarrow> bool" where
  start: "lock_reach lock_init"
| step: "lock_reach s \<Longrightarrow> lock_step s s' \<Longrightarrow> lock_reach s'"

definition lock_inv :: "lock_sys \<Rightarrow> bool" where
  "lock_inv s \<longleftrightarrow> mstate (mutex s) \<in> {0, 1} \<and> (mstate (mutex s) = 0 \<longleftrightarrow> (\<forall>c. callers s c \<noteq> Holding))
     \<and> (\<forall>c d. callers s c = Holding \<longrightarrow> callers s d = Holding \<longrightarrow> c = d)"

lemma lock_inv_step: "lock_step s s' \<Longrightarrow> lock_inv s \<Longrightarrow> lock_inv s'"
proof (induction rule: lock_step.induct)
  case (want s c)
  then have "((callers s)(c := Waiting_for)) d = Holding \<longleftrightarrow> callers s d = Holding" for d by simp
  with want(2) show ?case by (simp add: lock_inv_def) blast
next
  case (acquire s c mx)
  then have "mstate (mutex s) = 0 \<and> mstate mx = 1"
    by (auto simp: try_lock_def amoswap_def split: if_splits)
  with acquire show ?case by (auto simp: lock_inv_def)
next
  case (fail s c mx)
  then have "mx = mutex s" by (auto simp: try_lock_def amoswap_def split: if_splits)
  with fail show ?case by simp
qed (auto simp: lock_inv_def)

lemma lock_inv_reach: "lock_reach s \<Longrightarrow> lock_inv s"
proof (induction rule: lock_reach.induct)
  case start
  show ?case by (simp add: lock_inv_def lock_init_def Mutex_new_def)
next
  case (step s s')
  then show ?case using lock_inv_step by blast
qed


section \<open>Properties\<close>

text \<open>
  C24: mutual exclusion. In every reachable state of any number of callers of a mutex, at most
  one of them holds it, the word in memory is 0 or 1, and it is 0 exactly when nobody
  holds the mutex, so that then a waiting caller can take it.
\<close>
theorem mutex_exclusion:
  assumes "lock_reach s"
  shows "(\<forall>c d. callers s c = Holding \<longrightarrow> callers s d = Holding \<longrightarrow> c = d)
    \<and> (mstate (mutex s) = 0 \<longleftrightarrow> (\<forall>c. callers s c \<noteq> Holding)) \<and> mstate (mutex s) \<in> {0, 1}
    \<and> (\<forall>c. callers s c = Waiting_for \<longrightarrow> (\<forall>d. callers s d \<noteq> Holding) \<longrightarrow>
         (\<exists>s'. lock_step s s' \<and> callers s' c = Holding))"
proof -
  have inv: "lock_inv s" using lock_inv_reach [OF assms] .
  have "\<exists>s'. lock_step s s' \<and> callers s' c = Holding" if "callers s c = Waiting_for" "\<forall>d. callers s d \<noteq> Holding" for c
  proof -
    have "mstate (mutex s) = 0" using inv that(2) by (auto simp: lock_inv_def)
    then show ?thesis using lock_step.acquire [OF that(1)] by fastforce
  qed
  with inv show ?thesis unfolding lock_inv_def by blast
qed

theorem mutex_exclusion_witness:
  "\<exists>s. lock_reach s \<and> callers s 1 = Holding \<and> (\<forall>c. callers s c = Holding \<longrightarrow> c = 1)"
proof -
  let ?s = "lock_init\<lparr>callers := (\<lambda>_. Outside)(1 := Waiting_for)\<rparr>"
  have "lock_step lock_init ?s" using lock_step.want [of lock_init 1] by (simp add: lock_init_def)
  then have r: "lock_reach ?s" by (rule lock_reach.step [OF lock_reach.start])
  have "\<forall>d. callers ?s d \<noteq> Holding" "callers ?s 1 = Waiting_for" by simp_all
  then obtain s' where s': "lock_step ?s s'" "callers s' 1 = Holding" using mutex_exclusion [OF r] by blast
  then show ?thesis using mutex_exclusion [OF lock_reach.step [OF r s'(1)]] lock_reach.step [OF r s'(1)] by blast
qed

text \<open>
  \<^verbatim>\<open>spin_lock\<close> returns exactly when the mutex is free, and then it holds it; spinning on a
  mutex that the same hart already holds never ends.
\<close>
lemma spin_lock_returns_iff_free:
  assumes "mstate mx = MutexState_val Unlocked \<or> mstate mx = MutexState_val Locked"
  shows "spin_lock mx = (if mstate mx = MutexState_val Unlocked then Some \<lparr>mstate = MutexState_val Locked\<rparr> else None)"
  using assms spin_lock_free [of mx] spin_lock_held [of mx] by auto

end
