(* ===== verification/Cpu.thy ===== *)
theory Cpu
  imports Prelude
begin

text \<open>
  \<^verbatim>\<open>cpu.rs\<close>: the enumerations of modes and registers, the memory layout of a
  \<^verbatim>\<open>TrapFrame\<close>, the contents of the \<^verbatim>\<open>satp\<close> register and the kernel's own
  \<^verbatim>\<open>memcpy\<close>. The accessors of control and status registers are in the theory \<open>Hart\<close>.
\<close>

section \<open>Modes and registers\<close>

datatype SatpMode = Off | Sv39 | Sv48

fun SatpMode_val :: "SatpMode \<Rightarrow> usize" where
  "SatpMode_val Off = 0"
| "SatpMode_val Sv39 = 8"
| "SatpMode_val Sv48 = 9"

datatype CpuMode = User | Supervisor | Machine

fun CpuMode_val :: "CpuMode \<Rightarrow> usize" where
  "CpuMode_val User = 0"
| "CpuMode_val Supervisor = 1"
| "CpuMode_val Machine = 3"

datatype Registers =
  Zero | Ra | Sp | Gp | Tp | T0 | T1 | T2 | S0 | S1
  | A0 | A1 | A2 | A3 | A4 | A5 | A6 | A7 | S2 | S3
  | S4 | S5 | S6 | S7 | S8 | S9 | S10 | S11 | T3 | T4
  | T5 | T6

fun gp :: "Registers \<Rightarrow> nat" where
  "gp Zero = 0" | "gp Ra = 1" | "gp Sp = 2" | "gp Gp = 3" | "gp Tp = 4" | "gp T0 = 5"
| "gp T1 = 6" | "gp T2 = 7" | "gp S0 = 8" | "gp S1 = 9" | "gp A0 = 10" | "gp A1 = 11"
| "gp A2 = 12" | "gp A3 = 13" | "gp A4 = 14" | "gp A5 = 15" | "gp A6 = 16" | "gp A7 = 17"
| "gp S2 = 18" | "gp S3 = 19" | "gp S4 = 20" | "gp S5 = 21" | "gp S6 = 22" | "gp S7 = 23"
| "gp S8 = 24" | "gp S9 = 25" | "gp S10 = 26" | "gp S11 = 27" | "gp T3 = 28" | "gp T4 = 29"
| "gp T5 = 30" | "gp T6 = 31"

section \<open>The trap frame\<close>

text \<open>
  A \<^verbatim>\<open>repr(C)\<close> structure of 64-bit fields. Frames live in pages of the page allocator
  and are read and written through a pointer, so a field is an offset from the frame's
  address.
\<close>

record TrapFrame =
  regs :: "usize list"
  fregs :: "usize list"
  satp :: usize
  pc :: usize
  hartid :: usize
  qm :: usize
  pid :: usize
  mode :: usize

definition TrapFrame_new :: TrapFrame where
  "TrapFrame_new =
     \<lparr>regs = replicate 32 0, fregs = replicate 32 0, satp = 0, pc = 0, hartid = 0,
      qm = 1, pid = 0, mode = 0\<rparr>"

definition frame_reg :: "usize \<Rightarrow> Registers \<Rightarrow> usize" where
  "frame_reg f r = f + 8 * of_nat (gp r)"

definition frame_satp :: "usize \<Rightarrow> usize" where "frame_satp f = f + 512"
definition frame_pc :: "usize \<Rightarrow> usize" where "frame_pc f = f + 520"
definition frame_pid :: "usize \<Rightarrow> usize" where "frame_pid f = f + 544"
definition frame_mode :: "usize \<Rightarrow> usize" where "frame_mode f = f + 552"

text \<open>A frame of 560 bytes that does not wrap around the address space.\<close>

definition frame_ok :: "usize \<Rightarrow> bool" where
  "frame_ok f \<longleftrightarrow> unat f + 560 \<le> 2 ^ 64"

section \<open>The satp register\<close>

definition build_satp :: "SatpMode \<Rightarrow> usize \<Rightarrow> usize \<Rightarrow> usize" where
  "build_satp md asid addr =
     push_bit 60 (SatpMode_val md) OR push_bit 44 (asid AND 0xffff)
       OR (drop_bit 12 addr AND 0xffffffffff)"

section \<open>memcpy\<close>

definition memcpy :: "mem \<Rightarrow> usize \<Rightarrow> usize \<Rightarrow> usize \<Rightarrow> mem" where
  "memcpy m dest src bytes =
     (let bytes_as_8 = bytes div 8;
          m = fold (\<lambda>i m. store64 m (dest + 8 * of_nat i) (load64 m (src + 8 * of_nat i)))
                [0..<unat bytes_as_8] m;
          bytes_completed = bytes_as_8 * 8;
          bytes_remaining = bytes - bytes_completed
      in fold (\<lambda>i m. m(dest + of_nat i := m (src + of_nat i)))
           [unat bytes_completed..<unat bytes_remaining] m)"

text \<open>
  How many bytes a call for \<open>n\<close> bytes really copies: the second loop runs from
  \<^verbatim>\<open>bytes_completed\<close> to \<^verbatim>\<open>bytes_remaining\<close>, which is empty as soon as the first loop
  has done anything.
\<close>

definition memcpy_len :: "nat \<Rightarrow> nat" where
  "memcpy_len n = (if n < 8 then n else 8 * (n div 8))"

lemma memcpy_len_le: "memcpy_len n \<le> n"
  by (simp add: memcpy_len_def)

lemma memcpy_len_whole: "n < 8 \<or> 8 dvd n \<Longrightarrow> memcpy_len n = n"
  by (auto simp: memcpy_len_def)

section \<open>What memcpy does\<close>

lemma store64_le_word: "length bs = 8 \<Longrightarrow> store64 m a (le_word bs) = store_bytes m a bs"
  by (simp add: store64_def to_le_le_word)

lemma copy_words_loop:
  assumes "disjoint_regions dest (8 * k) src (8 * k)"
  shows "fold (\<lambda>i m. store64 m (dest + 8 * of_nat i) (load64 m (src + 8 * of_nat i))) [0..<k] m
         = store_bytes m dest (load_bytes m src (8 * k))"
  using assms
proof (induction k)
  case 0
  show ?case by (simp add: load_bytes_def)
next
  case (Suc k)
  let ?m = "store_bytes m dest (load_bytes m src (8 * k))"
  have off: "8 * of_nat k = (of_nat (8 * k) :: usize)" by simp
  have bnd: "unat dest + (8 * k + 8) \<le> 2 ^ 64" "unat src + (8 * k + 8) \<le> 2 ^ 64"
    using Suc.prems by (simp_all add: disjoint_regions_def)
  have us: "unat (src + of_nat (8 * k)) = unat src + 8 * k"
    using bnd by (intro unat_add_of_nat) simp
  have disj: "disjoint_regions dest (8 * k) (src + of_nat (8 * k)) 8"
    using Suc.prems us by (auto simp: disjoint_regions_def)
  have ld: "load64 ?m (src + of_nat (8 * k)) = le_word (load_bytes m (src + of_nat (8 * k)) 8)"
    using load_store_bytes_disjoint [of dest "load_bytes m src (8 * k)" "src + of_nat (8 * k)" 8 m] disj
    by (simp add: load64_def)
  have IH: "fold (\<lambda>i m. store64 m (dest + 8 * of_nat i) (load64 m (src + 8 * of_nat i))) [0..<k] m = ?m"
    using Suc.IH disjoint_regions_mono [OF Suc.prems, of "8 * k" "8 * k"] by simp
  have "fold (\<lambda>i m. store64 m (dest + 8 * of_nat i) (load64 m (src + 8 * of_nat i))) [0..<Suc k] m
        = store64 ?m (dest + of_nat (8 * k)) (load64 ?m (src + of_nat (8 * k)))"
    using IH by (simp only: upt_Suc_append fold_append fold.simps comp_apply id_apply off zero_le)
  also have "\<dots> = store_bytes m dest (load_bytes m src (8 * k) @ load_bytes m (src + of_nat (8 * k)) 8)"
    unfolding ld using bnd store_bytes_append [of "load_bytes m src (8 * k)" "load_bytes m (src + of_nat (8 * k)) 8" m dest]
    by (simp add: store64_le_word)
  also have "\<dots> = store_bytes m dest (load_bytes m src (8 * Suc k))"
    using load_bytes_append [of m src "8 * k" 8] by (simp add: add.commute)
  finally show ?case .
qed

lemma copy_bytes_loop:
  assumes "disjoint_regions dest k src k"
  shows "fold (\<lambda>i m. m(dest + of_nat i := m (src + of_nat i))) [0..<k] m
         = store_bytes m dest (load_bytes m src k)"
  using assms
proof (induction k)
  case 0
  show ?case by (simp add: load_bytes_def)
next
  case (Suc k)
  let ?m = "store_bytes m dest (load_bytes m src k)"
  have bnd: "unat dest + Suc k \<le> 2 ^ 64" "unat src + Suc k \<le> 2 ^ 64"
    using Suc.prems by (simp_all add: disjoint_regions_def)
  have "in_region src (Suc k) (src + of_nat k)"
    using bnd by (intro in_region_offset) auto
  then have "\<not> in_region dest (Suc k) (src + of_nat k)"
    by (rule disjoint_regionsD [OF disjoint_regions_sym [OF Suc.prems]])
  then have "\<not> in_region dest k (src + of_nat k)" by (simp add: in_region_def)
  then have ld: "?m (src + of_nat k) = m (src + of_nat k)"
    by (simp add: store_bytes_outside)
  have IH: "fold (\<lambda>i m. m(dest + of_nat i := m (src + of_nat i))) [0..<k] m = ?m"
    by (rule Suc.IH) (rule disjoint_regions_mono [OF Suc.prems], simp_all)
  have "fold (\<lambda>i m. m(dest + of_nat i := m (src + of_nat i))) [0..<Suc k] m
        = store_bytes ?m (dest + of_nat k) (load_bytes m (src + of_nat k) 1)"
    using IH ld by (simp add: store_bytes_single load_bytes_def)
  also have "\<dots> = store_bytes m dest (load_bytes m src (Suc k))"
    using bnd store_bytes_append [of "load_bytes m src k" "load_bytes m (src + of_nat k) 1" m dest]
      load_bytes_append [of m src k 1] by simp
  finally show ?case .
qed

lemma memcpy_eq:
  assumes disj: "disjoint_regions dest (unat bytes) src (unat bytes)"
  shows "memcpy m dest src bytes = store_bytes m dest (load_bytes m src (memcpy_len (unat bytes)))"
proof -
  let ?n = "unat bytes"
  have q: "unat (bytes div 8) = ?n div 8" by (simp add: unat_div)
  have c: "unat (bytes div 8 * 8) = 8 * (?n div 8)"
    using unat_mult_no_wrap [of "bytes div 8" 8] unat_lt_2p64 [of bytes] q by simp
  then have le: "bytes div 8 * 8 \<le> bytes" by (simp add: word_le_nat_alt)
  have r: "unat (bytes - bytes div 8 * 8) = ?n mod 8"
    using unat_sub [OF le] c by (simp add: modulo_nat_def mult.commute)
  have words: "disjoint_regions dest (8 * (?n div 8)) src (8 * (?n div 8))"
    by (rule disjoint_regions_mono [OF disj]) simp_all
  show ?thesis
  proof (cases "?n < 8")
    case True
    then show ?thesis
      using copy_bytes_loop [OF disj, of m] q c r
      by (simp add: memcpy_def Let_def memcpy_len_def)
  next
    case False
    then have "8 \<le> 8 * (?n div 8)" by simp
    then have "?n mod 8 \<le> 8 * (?n div 8)"
      using mod_less_divisor [of 8 ?n] by linarith
    then have none: "[8 * (?n div 8)..<?n mod 8] = []" by simp
    show ?thesis
      unfolding memcpy_def Let_def q c r none
      using False by (simp add: copy_words_loop [OF words] memcpy_len_def)
  qed
qed

end
