(* ===== verification/Page_Alloc.thy ===== *)
theory Page_Alloc
  imports Prelude
begin

text \<open>
  \<^verbatim>\<open>page.rs\<close>, allocation routines: one descriptor byte per 4096-byte page at
  \<^verbatim>\<open>HEAP_START\<close>, the pages themselves from \<^verbatim>\<open>ALLOC_START\<close> on. The linker symbols
  \<^verbatim>\<open>HEAP_START\<close> and \<^verbatim>\<open>HEAP_SIZE\<close> are fields of the state that no operation
  changes.
\<close>

section \<open>State and constants\<close>

record page_st =
  memory :: mem
  HEAP_START :: usize
  HEAP_SIZE :: usize
  ALLOC_START :: usize

definition null_mut :: usize where "null_mut = 0"
definition PAGE_ORDER :: usize where "PAGE_ORDER = 12"
definition PAGE_SIZE :: usize where "PAGE_SIZE = push_bit 12 1"

definition align_val :: "usize \<Rightarrow> usize \<Rightarrow> usize option" where
  "align_val val order = do {
     one \<leftarrow> ushl 1 order;
     m \<leftarrow> usub one 1;
     v \<leftarrow> uadd val m;
     Some (v AND NOT m)
   }"

section \<open>Page descriptors\<close>

datatype PageBits = Empty | Taken | Last

fun PageBits_val :: "PageBits \<Rightarrow> u8" where
  "PageBits_val Empty = 0"
| "PageBits_val Taken = push_bit 0 1"
| "PageBits_val Last = push_bit 1 1"

record Page =
  flags :: u8

definition is_last :: "Page \<Rightarrow> bool" where
  "is_last p \<longleftrightarrow> flags p AND PageBits_val Last \<noteq> 0"

definition is_taken :: "Page \<Rightarrow> bool" where
  "is_taken p \<longleftrightarrow> flags p AND PageBits_val Taken \<noteq> 0"

definition is_free :: "Page \<Rightarrow> bool" where
  "is_free p \<longleftrightarrow> \<not> is_taken p"

definition clear :: "Page \<Rightarrow> Page" where
  "clear p = p\<lparr>flags := PageBits_val Empty\<rparr>"

definition set_flag :: "PageBits \<Rightarrow> Page \<Rightarrow> Page" where
  "set_flag f p = p\<lparr>flags := flags p OR PageBits_val f\<rparr>"

definition clear_flag :: "PageBits \<Rightarrow> Page \<Rightarrow> Page" where
  "clear_flag f p = p\<lparr>flags := flags p AND NOT (PageBits_val f)\<rparr>"

text \<open>Access through a \<^verbatim>\<open>*mut Page\<close>: \<^verbatim>\<open>size_of::<Page>()\<close> is 1.\<close>

definition page_at :: "mem \<Rightarrow> usize \<Rightarrow> Page" where
  "page_at m p = \<lparr>flags = m p\<rparr>"

definition page_update :: "(Page \<Rightarrow> Page) \<Rightarrow> usize \<Rightarrow> mem \<Rightarrow> mem" where
  "page_update f p m = m(p := flags (f (page_at m p)))"

section \<open>Operations\<close>

definition num_pages :: "'a page_st_scheme \<Rightarrow> nat" where
  "num_pages s = unat (HEAP_SIZE s div PAGE_SIZE)"

definition page_init :: "'a page_st_scheme \<Rightarrow> 'a page_st_scheme option" where
  "page_init s =
     (let ptr = HEAP_START s;
          m = fold (\<lambda>i. page_update clear (ptr + of_nat i)) [0..<num_pages s] (memory s)
      in do {
        e \<leftarrow> uadd ptr (HEAP_SIZE s div PAGE_SIZE);
        a \<leftarrow> align_val e PAGE_ORDER;
        Some (s\<lparr>memory := m, ALLOC_START := a\<rparr>)
      })"

text \<open>The loop over \<open>j\<close> in \<^verbatim>\<open>i..i + pages\<close>, left at the first taken page.\<close>

fun contiguous_free :: "mem \<Rightarrow> usize \<Rightarrow> nat \<Rightarrow> nat \<Rightarrow> bool" where
  "contiguous_free m ptr j 0 = True"
| "contiguous_free m ptr j (Suc n) =
     (if is_taken (page_at m (ptr + of_nat j)) then False else contiguous_free m ptr (Suc j) n)"

text \<open>Marking the pages of \<^verbatim>\<open>i..i + pages\<close>, the last of them with both bits.\<close>

definition mark_pages :: "usize \<Rightarrow> nat \<Rightarrow> nat \<Rightarrow> mem \<Rightarrow> mem" where
  "mark_pages ptr i pages m =
     (let m = fold (\<lambda>k. page_update (set_flag Taken) (ptr + of_nat k)) [i..<i + pages - 1] m;
          m = page_update (set_flag Taken) (ptr + of_nat (i + pages - 1)) m
      in page_update (set_flag Last) (ptr + of_nat (i + pages - 1)) m)"

text \<open>The loop over \<open>i\<close>, with the number of iterations left.\<close>

fun alloc_loop :: "nat \<Rightarrow> nat \<Rightarrow> nat \<Rightarrow> 'a page_st_scheme \<Rightarrow> (usize \<times> 'a page_st_scheme) option" where
  "alloc_loop pages i 0 s = Some (null_mut, s)"
| "alloc_loop pages i (Suc n) s =
     (let ptr = HEAP_START s;
          found = is_free (page_at (memory s) (ptr + of_nat i))
                    \<and> contiguous_free (memory s) ptr i pages
      in if found then do {
           off \<leftarrow> umul PAGE_SIZE (of_nat i);
           r \<leftarrow> uadd (ALLOC_START s) off;
           Some (r, s\<lparr>memory := mark_pages ptr i pages (memory s)\<rparr>)
         }
         else alloc_loop pages (Suc i) n s)"

definition alloc :: "usize \<Rightarrow> 'a page_st_scheme \<Rightarrow> (usize \<times> 'a page_st_scheme) option" where
  "alloc pages s = do {
     assert_that (pages > 0);
     n \<leftarrow> usub (HEAP_SIZE s div PAGE_SIZE) pages;
     alloc_loop (unat pages) 0 (unat n) s
   }"

definition zalloc :: "usize \<Rightarrow> 'a page_st_scheme \<Rightarrow> (usize \<times> 'a page_st_scheme) option" where
  "zalloc pages s = do {
     (ret, s) \<leftarrow> alloc pages s;
     if ret \<noteq> null_mut then do {
       bytes \<leftarrow> umul PAGE_SIZE pages;
       Some (ret, s\<lparr>memory := fold (\<lambda>i m. store64 m (ret + 8 * of_nat i) 0)
                               [0..<unat (bytes div 8)] (memory s)\<rparr>)
     }
     else Some (ret, s)
   }"

text \<open>
  The loop of \<^verbatim>\<open>dealloc\<close> follows the descriptors as far as it finds taken pages that are
  not last, even past the table. Each round clears a taken byte, and there are finitely
  many.
\<close>

function dealloc_loop :: "usize \<Rightarrow> mem \<Rightarrow> usize \<times> mem" where
  "dealloc_loop p m =
     (if is_taken (page_at m p) \<and> \<not> is_last (page_at m p)
      then dealloc_loop (p + 1) (page_update clear p m)
      else (p, m))"
  by pat_completeness auto
termination
proof (relation "measure (\<lambda>(p, m). card {a. is_taken (page_at m a)})", goal_cases)
  case (2 p m)
  have "{a. is_taken (page_at (page_update clear p m) a)} = {a. is_taken (page_at m a)} - {p}"
    by (auto simp: page_update_def page_at_def clear_def is_taken_def)
  moreover have "card ({a. is_taken (page_at m a)} - {p}) < card {a. is_taken (page_at m a)}"
    using 2 by (intro card_Diff1_less) simp_all
  ultimately show ?case by simp
qed simp

definition dealloc :: "usize \<Rightarrow> 'a page_st_scheme \<Rightarrow> 'a page_st_scheme option" where
  "dealloc ptr s = do {
     assert_that (ptr \<noteq> null_mut);
     d \<leftarrow> usub ptr (ALLOC_START s);
     addr \<leftarrow> uadd (HEAP_START s) (d div PAGE_SIZE);
     assert_that (addr \<ge> HEAP_START s \<and> addr < ALLOC_START s);
     assert_that (is_taken (page_at (memory s) addr));
     let (p, m) = dealloc_loop addr (memory s);
     assert_that (is_last (page_at m p));
     Some (s\<lparr>memory := page_update clear p m\<rparr>)
   }"

declare dealloc_loop.simps [simp del]

section \<open>The invariant and the blocks in use\<close>

definition flag_at :: "'a page_st_scheme \<Rightarrow> nat \<Rightarrow> u8" where
  "flag_at s i = memory s (HEAP_START s + of_nat i)"

definition page_addr :: "'a page_st_scheme \<Rightarrow> nat \<Rightarrow> usize" where
  "page_addr s i = ALLOC_START s + of_nat (4096 * i)"

text \<open>
  The descriptor table ends before \<^verbatim>\<open>ALLOC_START\<close>, the pages it describes do not leave
  the address space, every descriptor is free, taken, or taken and last, and a taken page
  that is not the last of its allocation is followed by another one.
\<close>

definition page_geometry :: "'a page_st_scheme \<Rightarrow> bool" where
  "page_geometry s \<longleftrightarrow>
     unat (HEAP_START s) + num_pages s \<le> unat (ALLOC_START s)
     \<and> unat (ALLOC_START s) + 4096 * num_pages s < 2 ^ 64
     \<and> 0 < unat (ALLOC_START s) \<and> 4096 dvd unat (ALLOC_START s)"

definition table_ok :: "'a page_st_scheme \<Rightarrow> bool" where
  "table_ok s \<longleftrightarrow>
     (\<forall>i < num_pages s. flag_at s i = 0 \<or> flag_at s i = 1 \<or> flag_at s i = 3)
     \<and> (\<forall>i < num_pages s. flag_at s i = 1 \<longrightarrow> Suc i < num_pages s \<and> flag_at s (Suc i) \<noteq> 0)"

definition page_inv :: "'a page_st_scheme \<Rightarrow> bool" where
  "page_inv s \<longleftrightarrow> page_geometry s \<and> table_ok s"

text \<open>The allocations in use: first page and number of pages.\<close>

definition run_at :: "'a page_st_scheme \<Rightarrow> nat \<Rightarrow> nat \<Rightarrow> bool" where
  "run_at s i len \<longleftrightarrow> 0 < len \<and> i + len \<le> num_pages s
     \<and> (\<forall>k. i \<le> k \<and> Suc k < i + len \<longrightarrow> flag_at s k = 1) \<and> flag_at s (i + len - 1) = 3"

definition blocks :: "'a page_st_scheme \<Rightarrow> (nat \<times> nat) set" where
  "blocks s = {(i, len). run_at s i len \<and> (i = 0 \<or> flag_at s (i - 1) \<noteq> 1)}"

definition free_run :: "'a page_st_scheme \<Rightarrow> nat \<Rightarrow> nat \<Rightarrow> bool" where
  "free_run s pages i \<longleftrightarrow> (\<forall>k. i \<le> k \<and> k < i + pages \<longrightarrow> flag_at s k = 0)"

section \<open>Basic facts\<close>

lemma unat_PAGE_SIZE [simp]: "unat PAGE_SIZE = 4096"
  by (simp add: PAGE_SIZE_def)

lemma num_pages_eq: "num_pages s = unat (HEAP_SIZE s) div 4096"
  by (simp add: num_pages_def unat_div)

lemma page_bits [simp]:
  "is_taken p \<longleftrightarrow> bit (flags p) 0" "is_last p \<longleftrightarrow> bit (flags p) 1" "is_free p \<longleftrightarrow> \<not> bit (flags p) 0"
proof -
  show t: "is_taken p \<longleftrightarrow> bit (flags p) 0"
    by (simp add: is_taken_def and_exp_eq_0_iff_not_bit flip: push_bit_eq_mult bit_iff_and_push_bit_not_eq_0)
       (metis bit_iff_and_push_bit_not_eq_0 push_bit_0_id id_apply)
  show "is_last p \<longleftrightarrow> bit (flags p) 1"
    by (simp add: is_last_def bit_iff_and_push_bit_not_eq_0)
  show "is_free p \<longleftrightarrow> \<not> bit (flags p) 0"
    by (simp add: is_free_def t)
qed

lemma page_fields [simp]:
  "flags (page_at m p) = m p" "flags (clear q) = 0"
  "flags (set_flag Taken q) = flags q OR 1" "flags (set_flag Last q) = flags q OR 2"
  by (simp_all add: page_at_def clear_def set_flag_def)

lemma flag_at_memory_update:
  assumes "page_geometry s" and "i + length bs \<le> num_pages s" and "k < num_pages s"
  shows "flag_at (s\<lparr>memory := store_bytes (memory s) (HEAP_START s + of_nat i) bs\<rparr>) k
         = (if i \<le> k \<and> k < i + length bs then bs ! (k - i) else flag_at s k)"
proof -
  have geo: "unat (HEAP_START s) + num_pages s < 2 ^ 64"
    using assms(1) by (auto simp: page_geometry_def)
  have ui: "bs \<noteq> [] \<Longrightarrow> unat (HEAP_START s + of_nat i) = unat (HEAP_START s) + i"
    using geo assms(2) by (intro unat_add_of_nat) simp
  have uk: "unat (HEAP_START s + of_nat k) = unat (HEAP_START s) + k"
    using geo assms(3) by (intro unat_add_of_nat) simp
  show ?thesis
  proof (cases "bs = []")
    case True
    then show ?thesis by (auto simp: flag_at_def)
  next
    case False
    have reg: "in_region (HEAP_START s + of_nat i) (length bs) (HEAP_START s + of_nat k)
               \<longleftrightarrow> i \<le> k \<and> k < i + length bs"
      using geo assms(2) ui [OF False] uk by (subst in_region_iff) auto
    have "i \<le> k \<Longrightarrow> unat ((HEAP_START s + of_nat k) - (HEAP_START s + of_nat i)) = k - i"
      using unat_sub [of "HEAP_START s + of_nat i" "HEAP_START s + of_nat k"] ui [OF False] uk
      by (simp add: word_le_nat_alt)
    with reg show ?thesis by (simp add: flag_at_def store_bytes_def)
  qed
qed

lemma num_pages_memory [simp]: "num_pages (s\<lparr>memory := m\<rparr>) = num_pages s"
  by (simp add: num_pages_def)

lemma page_geometry_memory [simp]: "page_geometry (s\<lparr>memory := m\<rparr>) = page_geometry s"
  by (simp add: page_geometry_def)

lemma page_addr_memory [simp]: "page_addr (s\<lparr>memory := m\<rparr>) = page_addr s"
  by (rule ext) (simp add: page_addr_def)

lemma page_geometry_heap: "page_geometry s \<Longrightarrow> unat (HEAP_START s) + num_pages s < 2 ^ 64"
  by (auto simp: page_geometry_def)

lemma taken_flag: "table_ok s \<Longrightarrow> i < num_pages s \<Longrightarrow> bit (flag_at s i) 0 \<longleftrightarrow> flag_at s i \<noteq> 0"
  by (auto simp: table_ok_def)

lemma contiguous_free_iff:
  "table_ok s \<Longrightarrow> j + n \<le> num_pages s \<Longrightarrow>
   contiguous_free (memory s) (HEAP_START s) j n \<longleftrightarrow> free_run s n j"
proof (induction n arbitrary: j)
  case 0
  then show ?case by (auto simp: free_run_def)
next
  case (Suc n)
  then have "contiguous_free (memory s) (HEAP_START s) j (Suc n)
             \<longleftrightarrow> flag_at s j = 0 \<and> free_run s n (Suc j)"
    using taken_flag [of s j] by (simp add: flag_at_def)
  also have "\<dots> \<longleftrightarrow> free_run s (Suc n) j"
    by (auto simp: free_run_def) (metis Suc_leI le_neq_implies_less)
  finally show ?case .
qed

lemma mark_taken_loop:
  assumes "\<And>k. k < n \<Longrightarrow> m (a + of_nat k) = 0" and "n \<le> 2 ^ 64"
  shows "fold (\<lambda>k. page_update (set_flag Taken) (a + of_nat k)) [0..<n] m = store_bytes m a (replicate n 1)"
  using assms
proof (induction n)
  case 0
  show ?case by simp
next
  case (Suc n)
  let ?m = "store_bytes m a (replicate n 1)"
  have z: "?m (a + of_nat n) = 0"
    using Suc.prems unat_of_nat_small [of n, where 'l = 64]
    by (simp add: store_bytes_def in_region_def)
  have "page_update (set_flag Taken) (a + of_nat n) ?m = store_bytes ?m (a + of_nat n) [1]"
    by (simp add: page_update_def z store_bytes_single)
  also have "\<dots> = store_bytes m a (replicate (Suc n) 1)"
    using Suc.prems(2) store_bytes_append [of "replicate n 1" "[1]" m a]
    by (simp add: replicate_append_same)
  finally show ?case
    using Suc.IH [OF Suc.prems(1)] Suc.prems(2) by simp
qed

lemma fold_shift: "fold (\<lambda>k. f (a + of_nat k)) [i..<i + n] = fold (\<lambda>k. f ((a + of_nat i) + of_nat k)) [0..<n]"
  for a :: usize
proof (induction n)
  case (Suc n)
  then show ?case by (simp add: add.assoc)
qed simp

lemma mark_pages_eq:
  assumes free: "\<And>k. k < pages \<Longrightarrow> m (ptr + of_nat (i + k)) = 0" and "0 < pages" and "pages \<le> 2 ^ 64"
  shows "mark_pages ptr i pages m
         = store_bytes m (ptr + of_nat i) (replicate (pages - 1) 1 @ [3])"
proof -
  obtain n where n: "pages = Suc n" using \<open>0 < pages\<close> by (cases pages) auto
  let ?a = "ptr + of_nat i" and ?m = "store_bytes m (ptr + of_nat i) (replicate n 1)"
  have free': "m (?a + of_nat k) = 0" if "k < Suc n" for k
    using free [of k] that n by (simp add: add.assoc)
  have z: "?m (?a + of_nat n) = 0"
    using free' [of n] unat_of_nat_small [of n, where 'l = 64] assms(3) n
    by (simp add: store_bytes_def in_region_def)
  have last: "ptr + of_nat (i + pages - 1) = ?a + of_nat n" using n by (simp add: add.assoc)
  have loop: "fold (\<lambda>k. page_update (set_flag Taken) (ptr + of_nat k)) [i..<i + pages - 1] m = ?m"
    using fold_shift [of "page_update (set_flag Taken)" ptr i n] mark_taken_loop [of n m ?a] free' assms(3) n
    by simp
  have three: "(1 :: u8) OR 2 = 3" by simp
  have "mark_pages ptr i pages m = store_bytes ?m (?a + of_nat n) [3]"
    unfolding mark_pages_def Let_def loop last
    by (simp add: page_update_def z three store_bytes_single)
  also have "\<dots> = store_bytes m ?a (replicate n 1 @ [3])"
    using assms(3) n store_bytes_append [of "replicate n 1" "[3]" m ?a] by simp
  finally show ?thesis using n by simp
qed

section \<open>What the operations do\<close>

lemma page_addr_checked:
  assumes "page_geometry s" and "i < num_pages s"
  shows "umul PAGE_SIZE (of_nat i) = Some (of_nat (4096 * i))"
    and "uadd (ALLOC_START s) (of_nat (4096 * i)) = Some (page_addr s i)"
    and "unat (page_addr s i) = unat (ALLOC_START s) + 4096 * i"
proof -
  have bnd: "unat (ALLOC_START s) + 4096 * i < 2 ^ 64"
    using assms by (auto simp: page_geometry_def)
  then have i: "unat (of_nat i :: usize) = i" and off: "unat (of_nat (4096 * i) :: usize) = 4096 * i"
    by (intro unat_of_nat_small; simp)+
  show "umul PAGE_SIZE (of_nat i) = Some (of_nat (4096 * i))"
    using bnd i by (simp add: umul_def) (simp add: PAGE_SIZE_def)
  show "uadd (ALLOC_START s) (of_nat (4096 * i)) = Some (page_addr s i)"
    using bnd unfolding uadd_def off page_addr_def by simp
  show "unat (page_addr s i) = unat (ALLOC_START s) + 4096 * i"
    unfolding page_addr_def by (rule unat_add_of_nat) (rule bnd)
qed

text \<open>What a successful search does to the state.\<close>

definition take_run :: "nat \<Rightarrow> nat \<Rightarrow> 'a page_st_scheme \<Rightarrow> 'a page_st_scheme" where
  "take_run i pages s =
     s\<lparr>memory := store_bytes (memory s) (HEAP_START s + of_nat i) (replicate (pages - 1) 1 @ [3])\<rparr>"

definition free_blk :: "nat \<Rightarrow> nat \<Rightarrow> 'a page_st_scheme \<Rightarrow> 'a page_st_scheme" where
  "free_blk i len s =
     s\<lparr>memory := store_bytes (memory s) (HEAP_START s + of_nat i) (replicate len 0)\<rparr>"

lemma alloc_loop_eq:
  assumes "page_inv s" and "0 < pages" and "i + n + pages \<le> num_pages s"
  shows "alloc_loop pages i n s =
           (case find (free_run s pages) [i..<i + n] of
              None \<Rightarrow> Some (null_mut, s)
            | Some j \<Rightarrow> Some (page_addr s j, take_run j pages s))"
  using assms(3)
proof (induction n arbitrary: i)
  case (Suc n)
  have geo: "page_geometry s" and tab: "table_ok s"
    using assms(1) by (simp_all add: page_inv_def)
  have lt: "i < num_pages s" using Suc.prems by simp
  have found: "(is_free (page_at (memory s) (HEAP_START s + of_nat i))
                \<and> contiguous_free (memory s) (HEAP_START s) i pages) \<longleftrightarrow> free_run s pages i"
    using contiguous_free_iff [OF tab, of i pages] Suc.prems assms(2) taken_flag [OF tab lt]
    by (auto simp: free_run_def flag_at_def)
  have step: "[i..<i + Suc n] = i # [Suc i..<Suc i + n]" by (simp add: upt_conv_Cons)
  show ?case
  proof (cases "free_run s pages i")
    case True
    then have "\<And>k. k < pages \<Longrightarrow> memory s (HEAP_START s + of_nat (i + k)) = 0"
      by (auto simp: free_run_def flag_at_def simp del: of_nat_add)
    moreover have "pages \<le> 2 ^ 64"
      using Suc.prems page_geometry_heap [OF geo] by simp
    ultimately have "mark_pages (HEAP_START s) i pages (memory s)
        = store_bytes (memory s) (HEAP_START s + of_nat i) (replicate (pages - 1) 1 @ [3])"
      using assms(2) by (intro mark_pages_eq)
    then show ?thesis
      unfolding step alloc_loop.simps Let_def found
      using True page_addr_checked(1,2) [OF geo lt] by (simp add: take_run_def)
  next
    case False
    then show ?thesis
      unfolding step alloc_loop.simps Let_def found
      using Suc.IH [of "Suc i"] Suc.prems by simp
  qed
qed simp

lemma alloc_eq:
  assumes "page_inv s" and "0 < pages" and "unat pages \<le> num_pages s"
  shows "alloc pages s =
           (case find (free_run s (unat pages)) [0..<num_pages s - unat pages] of
              None \<Rightarrow> Some (null_mut, s)
            | Some j \<Rightarrow> Some (page_addr s j, take_run j (unat pages) s))"
proof -
  have le: "pages \<le> HEAP_SIZE s div PAGE_SIZE"
    using assms(3) by (simp add: num_pages_def word_le_nat_alt)
  have pos: "0 < unat pages" using assms(2) by (simp add: word_less_nat_alt)
  have "unat (HEAP_SIZE s div PAGE_SIZE - pages) = num_pages s - unat pages"
    using unat_sub [OF le] by (simp add: num_pages_def)
  then show ?thesis
    using alloc_loop_eq [OF assms(1) pos, of 0 "num_pages s - unat pages"] le assms(2,3)
    by (simp add: alloc_def usub_def)
qed

lemma find_SomeD: "find P xs = Some x \<Longrightarrow> x \<in> set xs \<and> P x"
  by (induction xs) (auto split: if_splits)

lemma dealloc_loop_run:
  assumes "\<And>k. k < n \<Longrightarrow> m (p + of_nat k) = 1" and "bit (m (p + of_nat n)) 1" and "n < 2 ^ 64"
  shows "dealloc_loop p m = (p + of_nat n, store_bytes m p (replicate n 0))"
  using assms
proof (induction n arbitrary: p m)
  case 0
  then show ?case by (subst dealloc_loop.simps) simp
next
  case (Suc n)
  let ?m = "m(p := 0)"
  have ne: "p + of_nat (Suc k) \<noteq> p" if "k < 2 ^ 64 - 1" for k
    using that unat_of_nat_small [of "Suc k", where 'l = 64] by (auto simp: add_eq_self_zero)
  have m1: "m p = 1" using Suc.prems(1) [of 0] by simp
  have "dealloc_loop p m = dealloc_loop (p + 1) ?m"
    by (subst dealloc_loop.simps) (simp add: m1 page_update_def)
  also have "\<dots> = (p + 1 + of_nat n, store_bytes ?m (p + 1) (replicate n 0))"
  proof (rule Suc.IH)
    fix k assume "k < n"
    then show "?m (p + 1 + of_nat k) = 1"
      using Suc.prems(1) [of "Suc k"] ne [of k] Suc.prems(3) by (simp add: add.assoc)
  next
    show "bit (?m (p + 1 + of_nat n)) 1"
      using Suc.prems(2,3) ne [of n] by (simp add: add.assoc)
  next
    show "n < 2 ^ 64" using Suc.prems(3) by simp
  qed
  also have "store_bytes ?m (p + 1) (replicate n 0) = store_bytes m p (replicate (Suc n) 0)"
    using store_bytes_append [of "[0]" "replicate n 0" m p] Suc.prems(3)
    by (simp add: store_bytes_single)
  finally show ?case by (simp add: add.assoc)
qed

lemma page_index_of_addr:
  assumes geo: "page_geometry s" and i: "i < num_pages s"
  shows "(page_addr s i - ALLOC_START s) div PAGE_SIZE = of_nat i"
proof (rule word_unat_eq_iff [THEN iffD2])
  have "unat (page_addr s i - ALLOC_START s) = 4096 * i"
    using unat_sub [of "ALLOC_START s" "page_addr s i"] page_addr_checked(3) [OF geo i]
    by (simp add: word_le_nat_alt)
  then show "unat ((page_addr s i - ALLOC_START s) div PAGE_SIZE) = unat (of_nat i :: usize)"
    using i page_geometry_heap [OF geo] by (simp add: unat_div unat_of_nat_small)
qed

lemma dealloc_eq:
  assumes inv: "page_inv s" and run: "run_at s i len"
  shows "dealloc (page_addr s i) s = Some (free_blk i len s)"
proof -
  have geo: "page_geometry s" and tab: "table_ok s" using inv by (simp_all add: page_inv_def)
  have i: "i < num_pages s" and len: "0 < len" "i + len \<le> num_pages s"
    using run by (auto simp: run_at_def)
  have ua: "unat (page_addr s i) = unat (ALLOC_START s) + 4096 * i"
    by (rule page_addr_checked(3) [OF geo i])
  have heap: "unat (HEAP_START s) + num_pages s < 2 ^ 64" by (rule page_geometry_heap [OF geo])
  let ?d = "page_addr s i - ALLOC_START s" and ?h = "HEAP_START s + of_nat i"
  have d: "?d div PAGE_SIZE = of_nat i" by (rule page_index_of_addr [OF geo i])
  have uh: "unat ?h = unat (HEAP_START s) + i"
    using i heap by (intro unat_add_of_nat) simp
  have ui: "unat (of_nat i :: usize) = i" using i heap by (simp add: unat_of_nat_small)
  have flag: "flag_at s k = memory s (?h + of_nat (k - i))" if "i \<le> k" for k
    using that by (simp add: flag_at_def add.assoc flip: of_nat_add)
  have first: "bit (memory s ?h) 0"
    using run flag [of i] by (cases "len = 1") (auto simp: run_at_def)
  have "dealloc_loop ?h (memory s) = (?h + of_nat (len - 1), store_bytes (memory s) ?h (replicate (len - 1) 0))"
  proof (rule dealloc_loop_run)
    fix k assume "k < len - 1"
    then show "memory s (?h + of_nat k) = 1"
      using run flag [of "i + k"] by (auto simp: run_at_def)
  next
    show "bit (memory s (?h + of_nat (len - 1))) 1"
      using run flag [of "i + len - 1"] len by (auto simp: run_at_def)
  qed (use len heap in simp)
  moreover have "store_bytes (memory s) ?h (replicate (len - 1) 0) (?h + of_nat (len - 1)) = 3"
    using run flag [of "i + len - 1"] len heap unat_of_nat_small [of "len - 1", where 'l = 64]
    by (auto simp: run_at_def store_bytes_def in_region_def)
  moreover have "page_update clear (?h + of_nat (len - 1)) (store_bytes (memory s) ?h (replicate (len - 1) 0))
                 = store_bytes (memory s) ?h (replicate len 0)"
    using len heap store_bytes_append [of "replicate (len - 1) 0" "[0]" "memory s" ?h]
    by (simp add: page_update_def store_bytes_single replicate_append_same flip: replicate_Suc)
  moreover have "page_addr s i \<noteq> null_mut" "ALLOC_START s \<le> page_addr s i"
    using ua geo by (auto simp: page_geometry_def null_mut_def word_le_nat_alt)
  moreover have "HEAP_START s \<le> ?h" "?h < ALLOC_START s"
    using uh geo i by (auto simp: page_geometry_def word_le_nat_alt word_less_nat_alt)
  ultimately show ?thesis
    using first d ui i heap by (simp add: dealloc_def usub_def uadd_def free_blk_def)
qed

section \<open>The invariant is kept, blocks come and go whole\<close>

lemma flag_take_run:
  assumes "page_geometry s" and "0 < pages" and "i + pages \<le> num_pages s" and "k < num_pages s"
  shows "flag_at (take_run i pages s) k =
           (if i \<le> k \<and> k < i + pages then if k = i + pages - 1 then 3 else 1 else flag_at s k)"
  unfolding take_run_def
  by (subst flag_at_memory_update) (use assms in \<open>auto simp: nth_append\<close>)

lemma flag_free_blk:
  assumes "page_geometry s" and "i + len \<le> num_pages s" and "k < num_pages s"
  shows "flag_at (free_blk i len s) k = (if i \<le> k \<and> k < i + len then 0 else flag_at s k)"
  unfolding free_blk_def
  by (subst flag_at_memory_update) (use assms in auto)

lemma state_take_run [simp]:
  "num_pages (take_run i pages s) = num_pages s" "page_geometry (take_run i pages s) = page_geometry s"
  "page_addr (take_run i pages s) = page_addr s" "HEAP_START (take_run i pages s) = HEAP_START s"
  "ALLOC_START (take_run i pages s) = ALLOC_START s"
  by (simp_all add: take_run_def)

lemma state_free_blk [simp]:
  "num_pages (free_blk i len s) = num_pages s" "page_geometry (free_blk i len s) = page_geometry s"
  "page_addr (free_blk i len s) = page_addr s" "HEAP_START (free_blk i len s) = HEAP_START s"
  "ALLOC_START (free_blk i len s) = ALLOC_START s"
  by (simp_all add: free_blk_def)

lemma page_inv_take_run:
  assumes "page_inv s" and "0 < pages" and "i + pages \<le> num_pages s"
  shows "page_inv (take_run i pages s)"
  using assms
  by (auto simp: page_inv_def table_ok_def flag_take_run)

lemma page_inv_free_blk:
  assumes inv: "page_inv s" and blk: "(i, len) \<in> blocks s"
  shows "page_inv (free_blk i len s)"
proof -
  have geo: "page_geometry s" and le: "i + len \<le> num_pages s"
    using assms by (auto simp: page_inv_def blocks_def run_at_def)
  have prev: "flag_at s k \<noteq> 1" if "Suc k = i" for k
    using blk that by (auto simp: blocks_def)
  show ?thesis
    using inv geo le prev by (auto simp: page_inv_def table_ok_def flag_free_blk not_less_eq_eq)
qed

lemma run_at_cong:
  assumes "num_pages s = num_pages t"
    and "\<And>k. j \<le> k \<Longrightarrow> k < j + l \<Longrightarrow> k < num_pages t \<Longrightarrow> flag_at s k = flag_at t k"
  shows "run_at s j l \<longleftrightarrow> run_at t j l"
proof (cases "0 < l \<and> j + l \<le> num_pages t")
  case True
  then have "flag_at s (j + l - 1) = flag_at t (j + l - 1)"
    by (intro assms(2)) auto
  with True assms show ?thesis by (auto simp: run_at_def)
qed (use assms(1) in \<open>auto simp: run_at_def\<close>)

lemma run_at_unique: "run_at s i l \<Longrightarrow> run_at s i k \<Longrightarrow> l = k"
proof (induction l k rule: linorder_wlog)
  case (le l k)
  then have "flag_at s (i + l - 1) = 3" "0 < l"
    and "l < k \<Longrightarrow> flag_at s (i + l - 1) = 1"
    by (auto simp: run_at_def)
  with le show ?case by force
qed simp

lemma blocks_disjoint:
  assumes "(i, l) \<in> blocks s" and "(j, k) \<in> blocks s"
  shows "(i, l) = (j, k) \<or> i + l \<le> j \<or> j + k \<le> i"
proof -
  have inside: "j \<le> i \<or> i + l \<le> j" if "(i, l) \<in> blocks s" "(j, k) \<in> blocks s" for i l j k
  proof (rule ccontr)
    assume "\<not> (j \<le> i \<or> i + l \<le> j)"
    then have "i < j" "j < i + l" by auto
    then have "flag_at s (j - 1) = 1" using that(1) by (auto simp: blocks_def run_at_def)
    with that(2) \<open>i < j\<close> show False by (auto simp: blocks_def)
  qed
  show ?thesis
    using inside [OF assms] inside [OF assms(2,1)] run_at_unique [of s i l k] assms
    by (auto simp: blocks_def)
qed

lemma blocks_take_run:
  assumes inv: "page_inv s" and pos: "0 < pages" and le: "i + pages \<le> num_pages s"
    and free: "free_run s pages i"
  shows "blocks (take_run i pages s) = insert (i, pages) (blocks s)" (is "blocks ?t = _")
proof -
  have geo: "page_geometry s" and tab: "table_ok s" using inv by (simp_all add: page_inv_def)
  note fl = flag_take_run [OF geo pos le]
  have before: "flag_at s (i - 1) \<noteq> 1" if "i \<noteq> 0"
  proof
    assume "flag_at s (i - 1) = 1"
    moreover have "i - 1 < num_pages s" using le that pos by simp
    ultimately have "flag_at s (Suc (i - 1)) \<noteq> 0" using tab by (simp add: table_ok_def)
    moreover have "flag_at s i = 0" using free pos by (auto simp: free_run_def)
    ultimately show False using that by simp
  qed
  have new: "(i, pages) \<in> blocks ?t"
    using pos le before by (auto simp: blocks_def run_at_def fl)
  have same: "run_at ?t j l \<longleftrightarrow> run_at s j l" if "i + pages \<le> j \<or> j + l \<le> i" for j l
    by (rule run_at_cong) (use that le in \<open>auto simp: fl\<close>)
  have old: "j + l \<le> i \<or> i + pages \<le> j" if "(j, l) \<in> blocks s" for j l
  proof (rule ccontr)
    assume "\<not> (j + l \<le> i \<or> i + pages \<le> j)"
    then have "j \<le> max i j" "max i j < j + l" "i \<le> max i j" "max i j < i + pages"
      using that pos by (auto simp: blocks_def run_at_def)
    then obtain k where "j \<le> k" "k < j + l" "i \<le> k" "k < i + pages" by blast
    moreover from this have "flag_at s k = 1 \<or> flag_at s k = 3"
      using that by (cases "k = j + l - 1") (auto simp: blocks_def run_at_def)
    ultimately show False using free by (auto simp: free_run_def)
  qed
  have start: "(j = 0 \<or> flag_at ?t (j - 1) \<noteq> 1) \<longleftrightarrow> (j = 0 \<or> flag_at s (j - 1) \<noteq> 1)"
    if "run_at s j l" "i + pages \<le> j \<or> j + l \<le> i" for j l
  proof (cases "j = i + pages")
    case True
    then have "i \<le> j - 1" "j - 1 < i + pages" "j - 1 = i + pages - 1" using pos by auto
    then have "flag_at s (j - 1) = 0" "flag_at ?t (j - 1) = 3"
      using free le by (auto simp: fl free_run_def)
    then show ?thesis by simp
  next
    case False
    then have "0 < j \<Longrightarrow> flag_at ?t (j - 1) = flag_at s (j - 1)"
      using that le by (subst fl) (auto simp: run_at_def)
    then show ?thesis by auto
  qed
  show ?thesis
  proof (intro subset_antisym subsetI)
    fix b assume b: "b \<in> blocks ?t"
    obtain j l where jl: "b = (j, l)" by (cases b)
    with b new have "b = (i, pages) \<or> i + pages \<le> j \<or> j + l \<le> i"
      using blocks_disjoint [of j l ?t i pages] by auto
    with b jl show "b \<in> insert (i, pages) (blocks s)"
      using same [of j l] start [of j l] by (auto simp: blocks_def)
  next
    fix b assume b: "b \<in> insert (i, pages) (blocks s)"
    obtain j l where jl: "b = (j, l)" by (cases b)
    with b new old [of j l] show "b \<in> blocks ?t"
      using same [of j l] start [of j l] by (auto simp: blocks_def)
  qed
qed

lemma blocks_free_blk:
  assumes inv: "page_inv s" and blk: "(i, len) \<in> blocks s"
  shows "blocks (free_blk i len s) = blocks s - {(i, len)}" (is "blocks ?t = _")
proof -
  have geo: "page_geometry s" and le: "i + len \<le> num_pages s" and pos: "0 < len"
    and last: "flag_at s (i + len - 1) = 3"
    using assms by (auto simp: page_inv_def blocks_def run_at_def)
  note fl = flag_free_blk [OF geo le]
  have out: "i + len \<le> j \<or> j + l \<le> i" if "run_at ?t j l" for j l
  proof (rule ccontr)
    assume "\<not> (i + len \<le> j \<or> j + l \<le> i)"
    then have "j \<le> max i j" "max i j < j + l" "i \<le> max i j" "max i j < i + len"
      using that pos by (auto simp: run_at_def)
    then obtain k where "j \<le> k" "k < j + l" "i \<le> k" "k < i + len" by blast
    moreover from this have "flag_at ?t k = 1 \<or> flag_at ?t k = 3"
      using that by (cases "k = j + l - 1") (auto simp: run_at_def)
    ultimately show False using that le by (auto simp: fl run_at_def split: if_splits)
  qed
  have same: "run_at ?t j l \<longleftrightarrow> run_at s j l" if "i + len \<le> j \<or> j + l \<le> i" for j l
    by (rule run_at_cong) (use that le in \<open>auto simp: fl\<close>)
  have start: "(j = 0 \<or> flag_at ?t (j - 1) \<noteq> 1) \<longleftrightarrow> (j = 0 \<or> flag_at s (j - 1) \<noteq> 1)"
    if "run_at s j l" "i + len \<le> j \<or> j + l \<le> i" for j l
  proof (cases "j = i + len")
    case True
    then have "i \<le> j - 1" "j - 1 < i + len" "j - 1 = i + len - 1" using pos by auto
    then have "flag_at s (j - 1) = 3" "flag_at ?t (j - 1) = 0"
      using last le by (simp_all add: fl)
    then show ?thesis by simp
  next
    case False
    then have "0 < j \<Longrightarrow> flag_at ?t (j - 1) = flag_at s (j - 1)"
      using that le by (subst fl) (auto simp: run_at_def)
    then show ?thesis by auto
  qed
  show ?thesis
  proof (intro subset_antisym subsetI)
    fix b assume b: "b \<in> blocks ?t"
    obtain j l where jl: "b = (j, l)" by (cases b)
    with b out [of j l] show "b \<in> blocks s - {(i, len)}"
      using same [of j l] start [of j l] pos by (auto simp: blocks_def run_at_def)
  next
    fix b assume b: "b \<in> blocks s - {(i, len)}"
    obtain j l where jl: "b = (j, l)" by (cases b)
    with b have "i + len \<le> j \<or> j + l \<le> i"
      using blocks_disjoint [of j l s i len] blk by auto
    with b jl show "b \<in> blocks ?t"
      using same [of j l] start [of j l] by (auto simp: blocks_def)
  qed
qed

section \<open>Alignment and initialisation\<close>

lemma and_not_mask_unat:
  assumes "k < LENGTH('l)"
  shows "unat (v AND NOT (push_bit k 1 - 1) :: 'l::len word) = unat v div 2 ^ k * 2 ^ k"
proof -
  have "push_bit k 1 - 1 = (mask k :: 'l word)" by (simp add: mask_eq_decr_exp)
  moreover have "v AND NOT (mask k) = push_bit k (drop_bit k v)"
    by (rule bit_word_eqI) (auto simp: bit_simps)
  moreover have ud: "unat (drop_bit k v) = unat v div 2 ^ k"
    unfolding unat_drop_bit_eq by (rule drop_bit_eq_div)
  have "unat v div 2 ^ k * 2 ^ k < 2 ^ LENGTH('l)"
    by (rule le_less_trans [OF _ unsigned_less [of v]]) simp
  then have "unat (push_bit k (drop_bit k v)) = unat v div 2 ^ k * 2 ^ k"
    unfolding unsigned_push_bit_eq ud by (simp add: push_bit_eq_mult take_bit_nat_eq_self)
  ultimately show ?thesis by simp
qed

lemma align_val_eq:
  assumes "unat k < 64" and "unat v + (2 ^ unat k - 1) < 2 ^ 64"
  shows "\<exists>r. align_val v k = Some r \<and> unat r = (unat v + (2 ^ unat k - 1)) div 2 ^ unat k * 2 ^ unat k"
proof -
  let ?o = "push_bit (unat k) (1 :: usize)"
  have p: "unat ?o = 2 ^ unat k"
    unfolding unsigned_push_bit_eq using assms(1) by (simp add: push_bit_eq_mult take_bit_nat_eq_self)
  then have le: "1 \<le> ?o" by (simp add: word_le_nat_alt)
  have m: "unat (?o - 1) = 2 ^ unat k - 1" using unat_sub [OF le] p by simp
  have sum: "unat (v + (?o - 1)) = unat v + (2 ^ unat k - 1)"
    using unat_add_no_wrap [of v "?o - 1"] assms(2) m by simp
  have "align_val v k = Some ((v + (?o - 1)) AND NOT (?o - 1))"
    using assms le m by (simp add: align_val_def ushl_def usub_def uadd_def)
  moreover have "unat ((v + (?o - 1)) AND NOT (?o - 1)) = (unat v + (2 ^ unat k - 1)) div 2 ^ unat k * 2 ^ unat k"
    using and_not_mask_unat [of "unat k" "v + (?o - 1)"] assms(1) sum by simp
  ultimately show ?thesis by blast
qed

lemma clear_pages_loop:
  "n \<le> 2 ^ 64 \<Longrightarrow> fold (\<lambda>i. page_update clear (a + of_nat i)) [0..<n] m = store_bytes m a (replicate n 0)"
proof (induction n)
  case (Suc n)
  have upd: "page_update clear p M = store_bytes M p [0]" for p M
    by (simp add: page_update_def store_bytes_single)
  show ?case
    using Suc store_bytes_append [of "replicate n 0" "[0]" m a]
    by (simp add: upd replicate_append_same)
qed simp

lemma page_init_ok:
  assumes pos: "0 < HEAP_START s"
    and room: "unat (HEAP_START s) + num_pages s + 4096 + 4096 * num_pages s \<le> 2 ^ 64"
  shows "\<exists>s'. page_init s = Some s' \<and> page_inv s' \<and> blocks s' = {}
              \<and> HEAP_START s' = HEAP_START s \<and> HEAP_SIZE s' = HEAP_SIZE s
              \<and> unat (ALLOC_START s') < unat (HEAP_START s) + num_pages s + 4096"
proof -
  let ?n = "num_pages s" and ?h = "unat (HEAP_START s)"
  have n: "unat (HEAP_SIZE s div PAGE_SIZE) = ?n" by (simp add: num_pages_def)
  let ?e = "HEAP_START s + HEAP_SIZE s div PAGE_SIZE"
  have e: "uadd (HEAP_START s) (HEAP_SIZE s div PAGE_SIZE) = Some ?e" "unat ?e = ?h + ?n"
    using room n unat_add_no_wrap [of "HEAP_START s" "HEAP_SIZE s div PAGE_SIZE"]
    by (auto simp: uadd_def)
  obtain a where a: "align_val ?e PAGE_ORDER = Some a"
    and ua: "unat a = (?h + ?n + 4095) div 4096 * 4096"
    using align_val_eq [of PAGE_ORDER ?e] e(2) room by (auto simp: PAGE_ORDER_def)
  let ?m = "store_bytes (memory s) (HEAP_START s) (replicate ?n 0)"
  let ?s = "s\<lparr>memory := ?m, ALLOC_START := a\<rparr>"
  have bounds: "?h + ?n \<le> unat a" "unat a < ?h + ?n + 4096"
    unfolding ua using div_mult_mod_eq [of "?h + ?n + 4095" 4096] mod_less_divisor [of 4096 "?h + ?n + 4095"]
    by linarith+
  have eq: "page_init s = Some ?s"
    using e(1) a clear_pages_loop [of ?n "HEAP_START s" "memory s"] room
    by (simp add: page_init_def Let_def)
  have zero: "flag_at ?s i = 0" if "i < ?n" for i
    using that room unat_of_nat_small [of i, where 'l = 64]
    by (simp add: flag_at_def store_bytes_def in_region_def)
  have geo: "page_geometry ?s"
    using bounds room pos ua by (auto simp: page_geometry_def num_pages_def word_less_nat_alt)
  moreover have "table_ok ?s" and "blocks ?s = {}"
    using zero by (auto simp: table_ok_def num_pages_def blocks_def run_at_def)
  ultimately show ?thesis using eq bounds(2) by (simp add: page_inv_def)
qed

section \<open>Page contents\<close>

definition page_bytes :: "'a page_st_scheme \<Rightarrow> nat \<Rightarrow> u8 list" where
  "page_bytes s i = load_bytes (memory s) (page_addr s i) 4096"

definition zero_pages :: "nat \<Rightarrow> nat \<Rightarrow> 'a page_st_scheme \<Rightarrow> 'a page_st_scheme" where
  "zero_pages j n s = s\<lparr>memory := store_bytes (memory s) (page_addr s j) (replicate (4096 * n) 0)\<rparr>"

lemma zero_words_loop:
  assumes "8 * k \<le> 2 ^ 64"
  shows "fold (\<lambda>i m. store64 m (a + 8 * of_nat i) 0) [0..<k] m = store_bytes m a (replicate (8 * k) 0)"
  using assms
proof (induction k)
  case (Suc k)
  have z: "to_le 8 (0 :: u64) = replicate 8 0" by (simp add: numeral_eq_Suc)
  have "replicate (8 * Suc k) 0 = replicate (8 * k) 0 @ replicate 8 (0 :: u8)"
    by (simp add: add.commute flip: replicate_add)
  then show ?case
    using Suc store_bytes_append [of "replicate (8 * k) 0" "replicate 8 0" m a]
    by (simp add: store64_def z)
qed simp

lemma zalloc_eq:
  assumes "page_inv s" and "0 < pages" and "unat pages \<le> num_pages s"
  shows "zalloc pages s =
           (case find (free_run s (unat pages)) [0..<num_pages s - unat pages] of
              None \<Rightarrow> Some (null_mut, s)
            | Some j \<Rightarrow> Some (page_addr s j, zero_pages j (unat pages) (take_run j (unat pages) s)))"
proof (cases "find (free_run s (unat pages)) [0..<num_pages s - unat pages]")
  case None
  then show ?thesis using alloc_eq [OF assms] by (simp add: zalloc_def)
next
  case (Some j)
  have geo: "page_geometry s" using assms(1) by (simp add: page_inv_def)
  have j: "j + unat pages < num_pages s" using find_SomeD [OF Some] by auto
  then have "unat (page_addr s j) = unat (ALLOC_START s) + 4096 * j"
    by (intro page_addr_checked(3) [OF geo]) simp
  then have nn: "page_addr s j \<noteq> null_mut"
    using geo by (auto simp: page_geometry_def null_mut_def)
  have room: "4096 * unat pages < 2 ^ 64" using geo j by (auto simp: page_geometry_def)
  then have b: "umul PAGE_SIZE pages = Some (PAGE_SIZE * pages)"
    and ub: "unat (PAGE_SIZE * pages) = 4096 * unat pages"
    using unat_mult_no_wrap [of PAGE_SIZE pages] by (simp_all add: umul_def)
  then have "unat (PAGE_SIZE * pages div 8) = 512 * unat pages" by (simp add: unat_div)
  then show ?thesis
    using alloc_eq [OF assms] Some nn b room zero_words_loop [of "512 * unat pages" "page_addr s j" "memory (take_run j (unat pages) s)"]
    by (simp add: zalloc_def zero_pages_def)
qed

lemma state_zero_pages [simp]:
  "num_pages (zero_pages j n s) = num_pages s" "page_geometry (zero_pages j n s) = page_geometry s"
  "page_addr (zero_pages j n s) = page_addr s" "HEAP_START (zero_pages j n s) = HEAP_START s"
  "ALLOC_START (zero_pages j n s) = ALLOC_START s"
  by (simp_all add: zero_pages_def)

lemma flag_zero_pages:
  assumes geo: "page_geometry s" and le: "j + n \<le> num_pages s" and k: "k < num_pages s"
  shows "flag_at (zero_pages j n s) k = flag_at s k"
proof (cases "n = 0")
  case False
  then have ua: "unat (page_addr s j) = unat (ALLOC_START s) + 4096 * j"
    using le by (intro page_addr_checked(3) [OF geo]) simp
  have uk: "unat (HEAP_START s + of_nat k) = unat (HEAP_START s) + k"
    using page_geometry_heap [OF geo] k by (intro unat_add_of_nat) simp
  have "\<not> in_region (page_addr s j) (4096 * n) (HEAP_START s + of_nat k)"
    using geo le k ua uk by (subst in_region_iff) (auto simp: page_geometry_def)
  then show ?thesis by (simp add: flag_at_def zero_pages_def store_bytes_def)
qed (simp add: flag_at_def zero_pages_def)

lemma blocks_cong:
  assumes "num_pages s = num_pages t" and "\<And>k. k < num_pages t \<Longrightarrow> flag_at s k = flag_at t k"
  shows "blocks s = blocks t"
proof -
  have "run_at s i l \<longleftrightarrow> run_at t i l" for i l by (rule run_at_cong) (use assms in auto)
  moreover have "flag_at s (i - 1) = flag_at t (i - 1)" if "run_at t i l" for i l
    using that assms(2) [of "i - 1"] by (auto simp: run_at_def)
  ultimately show ?thesis by (fastforce simp: blocks_def)
qed

lemma page_inv_cong:
  assumes "num_pages s = num_pages t" and "\<And>k. k < num_pages t \<Longrightarrow> flag_at s k = flag_at t k"
    and "page_geometry s = page_geometry t"
  shows "page_inv s = page_inv t"
proof -
  have "table_ok s = table_ok t"
    unfolding table_ok_def assms(1)
    by (intro conj_cong all_cong1 imp_cong refl) (simp_all add: assms(2))
  then show ?thesis by (simp add: page_inv_def assms(3))
qed

lemma zero_pages_inv [simp]:
  assumes "page_geometry s" and "j + n \<le> num_pages s"
  shows "page_inv (zero_pages j n s) = page_inv s" "blocks (zero_pages j n s) = blocks s"
proof -
  show "page_inv (zero_pages j n s) = page_inv s"
    by (rule page_inv_cong) (simp_all add: flag_zero_pages assms)
  show "blocks (zero_pages j n s) = blocks s"
    by (rule blocks_cong) (simp_all add: flag_zero_pages assms)
qed

lemma page_bytes_zero_pages:
  assumes geo: "page_geometry s" and le: "j + n \<le> num_pages s" and i: "i < num_pages s"
  shows "page_bytes (zero_pages j n s) i =
           (if j \<le> i \<and> i < j + n then replicate 4096 0 else page_bytes s i)"
proof (cases "n = 0")
  case False
  have ui: "unat (page_addr s i) = unat (ALLOC_START s) + 4096 * i"
    by (rule page_addr_checked(3) [OF geo i])
  have uj: "unat (page_addr s j) = unat (ALLOC_START s) + 4096 * j"
    using le False by (intro page_addr_checked(3) [OF geo]) simp
  have top: "unat (ALLOC_START s) + 4096 * num_pages s < 2 ^ 64" using geo by (simp add: page_geometry_def)
  have byte: "unat (page_addr s i + of_nat b) = unat (ALLOC_START s) + 4096 * i + b" if "b < 4096" for b
    using unat_add_of_nat [of "page_addr s i" b] that ui top i by simp
  have reg: "in_region (page_addr s j) (4096 * n) (page_addr s i + of_nat b) \<longleftrightarrow> j \<le> i \<and> i < j + n"
    if "b < 4096" for b
  proof -
    have "unat (page_addr s j) + 4096 * n \<le> 2 ^ 64" using uj le top by simp
    then show ?thesis
      using that by (subst in_region_iff) (auto simp: byte uj)
  qed
  show ?thesis
  proof (rule nth_equalityI)
    fix b assume "b < length (page_bytes (zero_pages j n s) i)"
    then have b: "b < 4096" by (simp add: page_bytes_def)
    then show "page_bytes (zero_pages j n s) i ! b =
        (if j \<le> i \<and> i < j + n then replicate 4096 0 else page_bytes s i) ! b"
      using reg [OF b] uj byte [OF b]
      by (auto simp: page_bytes_def zero_pages_def store_bytes_def in_region_def)
  qed (simp add: page_bytes_def)
qed (auto simp: page_bytes_def zero_pages_def)

text \<open>Changing descriptors does not touch the pages.\<close>

lemma page_bytes_table:
  assumes geo: "page_geometry s" and le: "i + length bs \<le> num_pages s" and k: "k < num_pages s"
  shows "page_bytes (s\<lparr>memory := store_bytes (memory s) (HEAP_START s + of_nat i) bs\<rparr>) k = page_bytes s k"
proof (cases "bs = []")
  case False
  have uk: "unat (page_addr s k) = unat (ALLOC_START s) + 4096 * k"
    by (rule page_addr_checked(3) [OF geo k])
  have ui: "unat (HEAP_START s + of_nat i) = unat (HEAP_START s) + i"
    using page_geometry_heap [OF geo] le False by (intro unat_add_of_nat) simp
  have "disjoint_regions (HEAP_START s + of_nat i) (length bs) (page_addr s k) 4096"
    using geo le k uk ui by (auto simp: page_geometry_def disjoint_regions_def)
  then show ?thesis by (simp add: page_bytes_def load_store_bytes_disjoint)
qed (simp add: page_bytes_def)

lemma page_bytes_take_run:
  "page_geometry s \<Longrightarrow> 0 < pages \<Longrightarrow> i + pages \<le> num_pages s \<Longrightarrow> k < num_pages s \<Longrightarrow>
   page_bytes (take_run i pages s) k = page_bytes s k"
  unfolding take_run_def by (rule page_bytes_table) simp_all

lemma page_bytes_free_blk:
  "page_geometry s \<Longrightarrow> i + len \<le> num_pages s \<Longrightarrow> k < num_pages s \<Longrightarrow>
   page_bytes (free_blk i len s) k = page_bytes s k"
  unfolding free_blk_def by (rule page_bytes_table) simp_all

lemma run_end:
  assumes "table_ok s" and "i < num_pages s" and "flag_at s i \<noteq> 0"
  shows "\<exists>e. i \<le> e \<and> e < num_pages s \<and> flag_at s e = 3 \<and> (\<forall>k. i \<le> k \<and> k < e \<longrightarrow> flag_at s k = 1)"
  using assms(2,3)
proof (induction "num_pages s - i" arbitrary: i rule: less_induct)
  case less
  show ?case
  proof (cases "flag_at s i = 3")
    case True
    with less.prems show ?thesis by (intro exI [of _ i]) auto
  next
    case False
    with assms(1) less.prems have one: "flag_at s i = 1" by (auto simp: table_ok_def)
    with assms(1) less.prems have nxt: "Suc i < num_pages s" "flag_at s (Suc i) \<noteq> 0"
      by (auto simp: table_ok_def)
    moreover from nxt(1) have "num_pages s - Suc i < num_pages s - i" by linarith
    ultimately obtain e where "Suc i \<le> e" "e < num_pages s" "flag_at s e = 3"
      and "\<forall>k. Suc i \<le> k \<and> k < e \<longrightarrow> flag_at s k = 1"
      using less.hyps [of "Suc i"] by blast
    with one show ?thesis
      by (intro exI [of _ e]) (metis Suc_leD Suc_leI le_neq_implies_less)
  qed
qed

lemma run_start: "\<exists>j\<le>i. (j = 0 \<or> flag_at s (j - 1) \<noteq> 1) \<and> (\<forall>k. j \<le> k \<and> k < i \<longrightarrow> flag_at s k = 1)"
proof (induction i)
  case (Suc i)
  show ?case
  proof (cases "flag_at s i = 1")
    case True
    from Suc.IH obtain j where "j \<le> i" "j = 0 \<or> flag_at s (j - 1) \<noteq> 1"
      and "\<forall>k. j \<le> k \<and> k < i \<longrightarrow> flag_at s k = 1" by blast
    with True show ?thesis by (intro exI [of _ j]) (auto simp: less_Suc_eq)
  next
    case False
    then show ?thesis by (intro exI [of _ "Suc i"]) auto
  qed
qed simp

lemma taken_in_block:
  assumes "page_inv s" and "i < num_pages s" and "flag_at s i \<noteq> 0"
  shows "\<exists>j l. (j, l) \<in> blocks s \<and> j \<le> i \<and> i < j + l"
proof -
  have tab: "table_ok s" using assms(1) by (simp add: page_inv_def)
  obtain e where e: "i \<le> e" "e < num_pages s" "flag_at s e = 3"
    "\<forall>k. i \<le> k \<and> k < e \<longrightarrow> flag_at s k = 1"
    using run_end [OF tab assms(2,3)] by blast
  obtain j where j: "j \<le> i" "j = 0 \<or> flag_at s (j - 1) \<noteq> 1"
    "\<forall>k. j \<le> k \<and> k < i \<longrightarrow> flag_at s k = 1"
    using run_start [of i s] by blast
  have "flag_at s k = 1" if "j \<le> k" "k < e" for k
    using that j(3) e(4) by (cases "k < i") auto
  then have "(j, Suc e - j) \<in> blocks s"
    using e j by (auto simp: blocks_def run_at_def)
  moreover have "i < j + (Suc e - j)" using e(1) j(1) by simp
  ultimately show ?thesis using j(1) by blast
qed

text \<open>Writing into a page leaves the descriptor table alone.\<close>

lemma block_write_keeps_table:
  assumes inv: "page_inv s" and j: "j + n \<le> num_pages s" and n: "0 < n"
    and out: "\<And>x. \<not> in_region (page_addr s j) (4096 * n) x \<Longrightarrow> m x = memory s x"
  shows "page_inv (s\<lparr>memory := m\<rparr>) \<and> blocks (s\<lparr>memory := m\<rparr>) = blocks s"
proof -
  have geo: "page_geometry s" using inv by (simp add: page_inv_def)
  have ua: "unat (page_addr s j) = unat (ALLOC_START s) + 4096 * j" using j n by (intro page_addr_checked(3) [OF geo]) simp
  have fl: "flag_at (s\<lparr>memory := m\<rparr>) i = flag_at s i" if "i < num_pages s" for i
  proof -
    have "unat (HEAP_START s + of_nat i) = unat (HEAP_START s) + i"
      using page_geometry_heap [OF geo] that by (intro unat_add_of_nat) simp
    moreover have "4096 * j + 4096 * n \<le> 4096 * num_pages s" using j by simp
    ultimately have "\<not> in_region (page_addr s j) (4096 * n) (HEAP_START s + of_nat i)"
      using ua geo that by (subst in_region_iff) (auto simp: page_geometry_def)
    then show ?thesis using out by (simp add: flag_at_def)
  qed
  have "page_inv (s\<lparr>memory := m\<rparr>) = page_inv s" using fl by (intro page_inv_cong) simp_all
  moreover have "blocks (s\<lparr>memory := m\<rparr>) = blocks s" using fl by (intro blocks_cong) simp_all
  ultimately show ?thesis using inv by simp
qed

lemma page_write_keeps_table:
  assumes inv: "page_inv s" and j: "j < num_pages s"
    and out: "\<And>x. \<not> in_region (page_addr s j) 4096 x \<Longrightarrow> m x = memory s x"
  shows "page_inv (s\<lparr>memory := m\<rparr>) \<and> blocks (s\<lparr>memory := m\<rparr>) = blocks s"
  using block_write_keeps_table [OF inv, of j 1 m] j out by simp

section \<open>The contract of a page allocator\<close>

text \<open>
  What the heap, the page tables and the processes rely on: a request is refused with a
  null pointer or hands out zeroed pages that no live block uses, giving a block back
  ends it, and neither touches the contents of any other page.
\<close>

locale page_provider =
  fixes invar :: "'s \<Rightarrow> bool"
    and live :: "'s \<Rightarrow> (nat \<times> nat) set"
    and total :: "'s \<Rightarrow> nat"
    and addr_of :: "'s \<Rightarrow> nat \<Rightarrow> usize"
    and bytes_of :: "'s \<Rightarrow> nat \<Rightarrow> u8 list"
    and get_pages :: "usize \<Rightarrow> 's \<Rightarrow> (usize \<times> 's) option"
    and put_pages :: "usize \<Rightarrow> 's \<Rightarrow> 's option"
  assumes get_returns: "invar s \<Longrightarrow> 0 < n \<Longrightarrow> unat n \<le> total s \<Longrightarrow> \<exists>p s'. get_pages n s = Some (p, s')"
    and get_block: "invar s \<Longrightarrow> 0 < n \<Longrightarrow> unat n \<le> total s \<Longrightarrow> get_pages n s = Some (p, s') \<Longrightarrow>
      p \<noteq> 0 \<Longrightarrow> \<exists>j. p = addr_of s j \<and> j + unat n < total s \<and> invar s' \<and> live s' = insert (j, unat n) (live s)
        \<and> (\<forall>i l. (i, l) \<in> live s \<longrightarrow> i + l \<le> j \<or> j + unat n \<le> i)
        \<and> total s' = total s \<and> addr_of s' = addr_of s
        \<and> (\<forall>i < total s. bytes_of s' i =
             (if j \<le> i \<and> i < j + unat n then replicate 4096 0 else bytes_of s i))"
    and put_block: "invar s \<Longrightarrow> (j, l) \<in> live s \<Longrightarrow> \<exists>s'. put_pages (addr_of s j) s = Some s' \<and> invar s'
        \<and> live s' = live s - {(j, l)} \<and> total s' = total s \<and> addr_of s' = addr_of s
        \<and> (\<forall>i < total s. bytes_of s' i = bytes_of s i)"
    and live_apart: "(i, l) \<in> live s \<Longrightarrow> (j, k) \<in> live s \<Longrightarrow> (i, l) = (j, k) \<or> i + l \<le> j \<or> j + k \<le> i"
    and live_nonempty: "(i, l) \<in> live s \<Longrightarrow> 0 < l \<and> i + l \<le> total s"
begin

text \<open>A block just handed out can be given back at once, and then nothing has changed.\<close>

lemma get_then_put:
  assumes "invar s" and "0 < n" and "unat n \<le> total s" and "get_pages n s = Some (p, s')" and "p \<noteq> 0"
  shows "\<exists>s''. put_pages p s' = Some s'' \<and> invar s'' \<and> live s'' = live s"
proof -
  obtain j where p: "p = addr_of s' j" and "invar s'" and lv: "live s' = insert (j, unat n) (live s)"
    and apart: "\<forall>i l. (i, l) \<in> live s \<longrightarrow> i + l \<le> j \<or> j + unat n \<le> i"
    using get_block [OF assms] by auto
  have pos: "0 < unat n" using assms(2) by (simp add: word_less_nat_alt)
  have "(j, unat n) \<notin> live s"
    using apart pos by force
  then show ?thesis
    using put_block [OF \<open>invar s'\<close>, of j "unat n"] lv p by auto
qed

text \<open>A new block overlaps no live one, and live blocks keep their contents.\<close>

lemma get_keeps_live:
  assumes "invar s" and "0 < n" and "unat n \<le> total s" and "get_pages n s = Some (p, s')" and "p \<noteq> 0"
    and "(i, l) \<in> live s" and "i \<le> k" and "k < i + l"
  shows "(i, l) \<in> live s' \<and> bytes_of s' k = bytes_of s k"
proof -
  obtain j where "live s' = insert (j, unat n) (live s)" and "i + l \<le> j \<or> j + unat n \<le> i"
    and "\<forall>i < total s. bytes_of s' i = (if j \<le> i \<and> i < j + unat n then replicate 4096 0 else bytes_of s i)"
    using get_block [OF assms(1-5)] assms(6) by blast
  with assms(6-8) live_nonempty [OF assms(6)] show ?thesis by auto
qed

end

lemma page_addr_nonzero: "page_geometry s \<Longrightarrow> i < num_pages s \<Longrightarrow> page_addr s i \<noteq> 0"
  using page_addr_checked(3) [of s i] by (auto simp: page_geometry_def)

interpretation pages: page_provider page_inv blocks num_pages page_addr page_bytes zalloc dealloc
proof (unfold_locales, goal_cases)
  case (1 s n)
  then show ?case by (simp add: zalloc_eq split: option.split)
next
  case (2 s n p s')
  then have geo: "page_geometry s" and pos: "0 < unat n"
    by (simp_all add: page_inv_def word_less_nat_alt)
  from 2 obtain j where f: "find (free_run s (unat n)) [0..<num_pages s - unat n] = Some j"
    and p: "p = page_addr s j" and s': "s' = zero_pages j (unat n) (take_run j (unat n) s)"
    by (auto simp: zalloc_eq null_mut_def split: option.splits)
  have j: "j + unat n < num_pages s" and free: "free_run s (unat n) j"
    using find_SomeD [OF f] by auto
  have ins: "blocks s' = insert (j, unat n) (blocks s)" and "page_inv s'"
    using s' geo j pos free 2(1) by (simp_all add: blocks_take_run page_inv_take_run)
  moreover have "i + l \<le> j \<or> j + unat n \<le> i" if "(i, l) \<in> blocks s" for i l
  proof -
    have "(i, l) \<noteq> (j, unat n)"
      using that free pos by (auto simp: blocks_def run_at_def free_run_def)
    then show ?thesis
      using blocks_disjoint [of i l s' j "unat n"] that ins by auto
  qed
  moreover have "page_bytes s' i = (if j \<le> i \<and> i < j + unat n then replicate 4096 0 else page_bytes s i)"
    if "i < num_pages s" for i
    using s' geo j that pos by (simp add: page_bytes_zero_pages page_bytes_take_run)
  ultimately show ?case using p j s' by auto
next
  case (3 s j l)
  then have "run_at s j l" "j + l \<le> num_pages s" "page_geometry s"
    by (auto simp: blocks_def run_at_def page_inv_def)
  with 3 show ?case
    by (simp add: dealloc_eq page_inv_free_blk blocks_free_blk page_bytes_free_blk)
next
  case (4 i l s j k)
  then show ?case by (rule blocks_disjoint)
next
  case (5 i l s)
  then show ?case by (simp add: blocks_def run_at_def)
qed

section \<open>Properties\<close>

text \<open>A small heap of eight pages, for the examples.\<close>

definition example_heap :: page_st where
  "example_heap = \<lparr>memory = (\<lambda>_. 0), HEAP_START = 0x10000, HEAP_SIZE = 0x8000, ALLOC_START = 0x11000\<rparr>"

lemma example_heap_pages [simp]: "num_pages example_heap = 8"
  by (simp add: num_pages_eq example_heap_def)

lemma example_heap_flag [simp]: "flag_at example_heap i = 0"
  by (simp add: flag_at_def example_heap_def)

lemma example_heap_inv: "page_inv example_heap" "blocks example_heap = {}"
  by (auto simp: page_inv_def page_geometry_def table_ok_def blocks_def run_at_def)
     (simp_all add: example_heap_def)

text \<open>
  C3: \<^verbatim>\<open>page::alloc\<close> is first fit. In a well-formed heap a request for \<open>pages\<close> pages always
  returns. If some run of that many free pages starts below \<open>num_pages - pages\<close>, it
  returns the address of the lowest one and marks exactly these pages as one new block,
  which overlaps no block in use; otherwise it returns null and changes nothing.
\<close>
theorem alloc_first_fit:
  assumes "page_inv s" and "0 < pages" and "unat pages \<le> num_pages s"
  shows "\<exists>p s'. alloc pages s = Some (p, s') \<and> page_inv s' \<and>
    (if \<exists>i < num_pages s - unat pages. free_run s (unat pages) i
     then \<exists>j < num_pages s - unat pages. free_run s (unat pages) j
            \<and> (\<forall>i < j. \<not> free_run s (unat pages) i)
            \<and> p = page_addr s j \<and> p \<noteq> null_mut
            \<and> blocks s' = insert (j, unat pages) (blocks s)
            \<and> (\<forall>(i, l) \<in> blocks s. i + l \<le> j \<or> j + unat pages \<le> i)
     else p = null_mut \<and> s' = s)"
proof (cases "find (free_run s (unat pages)) [0..<num_pages s - unat pages]")
  case None
  then have "\<not> (\<exists>i < num_pages s - unat pages. free_run s (unat pages) i)"
    by (auto simp: find_None_iff)
  with None alloc_eq [OF assms] assms(1) show ?thesis by simp
next
  case (Some j)
  let ?n = "unat pages" and ?t = "take_run j (unat pages) s"
  have pos: "0 < ?n" using assms(2) by (simp add: word_less_nat_alt)
  have geo: "page_geometry s" using assms(1) by (simp add: page_inv_def)
  have j: "j < num_pages s - ?n" "free_run s ?n j" using find_SomeD [OF Some] by auto
  have least: "\<forall>i < j. \<not> free_run s ?n i"
    using Some by (auto simp: find_Some_iff)
  have ins: "blocks ?t = insert (j, ?n) (blocks s)"
    using blocks_take_run [OF assms(1) pos _ j(2)] j(1) by simp
  have apart: "i + l \<le> j \<or> j + ?n \<le> i" if "(i, l) \<in> blocks s" for i l
  proof -
    have "(i, l) \<noteq> (j, ?n)"
      using that j(2) pos by (auto simp: blocks_def run_at_def free_run_def)
    then show ?thesis using blocks_disjoint [of i l ?t j ?n] that ins by auto
  qed
  have inv: "page_inv ?t" and nn: "page_addr s j \<noteq> null_mut"
    using page_inv_take_run [OF assms(1) pos] page_addr_nonzero [OF geo] j(1) by (simp_all add: null_mut_def)
  have eq: "alloc pages s = Some (page_addr s j, ?t)" using alloc_eq [OF assms] Some by simp
  have ex: "\<exists>i < num_pages s - ?n. free_run s ?n i" using j by blast
  show ?thesis
    unfolding if_P [OF ex]
    using eq inv nn j least ins apart
    by (intro exI [of _ "page_addr s j"] exI [of _ ?t] conjI exI [of _ j]) auto
qed

theorem alloc_first_fit_witness:
  "\<exists>p s'. alloc 2 example_heap = Some (p, s') \<and> p = 0x11000 \<and> blocks s' = {(0, 2)}"
proof -
  have run: "free_run example_heap 2 0" by (simp add: free_run_def)
  obtain p s' j where "alloc 2 example_heap = Some (p, s')" "p = page_addr example_heap j"
    and "\<forall>i < j. \<not> free_run example_heap 2 i" and "blocks s' = insert (j, 2) (blocks example_heap)"
    using alloc_first_fit [of example_heap 2] run example_heap_inv by (auto split: if_splits)
  moreover from this run have "j = 0" by (metis gr0I)
  ultimately show ?thesis
    using example_heap_inv(2) by (simp add: page_addr_def example_heap_def)
qed

text \<open>
  C21: \<^verbatim>\<open>page::dealloc\<close> ends exactly the block it is given: called with the address of a
  block in use it returns, keeps the heap well formed, removes that block from the blocks
  in use and leaves the contents of every page alone; called a second time with the same
  address it panics instead of freeing anything.
\<close>
theorem dealloc_block:
  assumes "page_inv s" and "(j, l) \<in> blocks s"
  shows "\<exists>s'. dealloc (page_addr s j) s = Some s' \<and> page_inv s' \<and> blocks s' = blocks s - {(j, l)}
    \<and> (\<forall>i < num_pages s. page_bytes s' i = page_bytes s i)
    \<and> dealloc (page_addr s j) s' = None"
proof -
  have geo: "page_geometry s" and j: "j < num_pages s" and run: "run_at s j l"
    using assms by (auto simp: page_inv_def blocks_def run_at_def)
  let ?t = "free_blk j l s"
  have eq: "dealloc (page_addr s j) s = Some ?t" by (rule dealloc_eq [OF assms(1) run])
  have "flag_at ?t j = 0" using flag_free_blk [OF geo, of j l j] run j by (auto simp: run_at_def)
  then have "\<not> is_taken (page_at (memory ?t) (HEAP_START s + of_nat j))"
    by (simp add: flag_at_def)
  moreover have "dealloc (page_addr s j) ?t = None
      \<or> is_taken (page_at (memory ?t) (HEAP_START s + (page_addr s j - ALLOC_START s) div PAGE_SIZE))"
    by (auto simp: dealloc_def assert_that_def usub_def uadd_def split: if_splits)
  moreover have "(page_addr s j - ALLOC_START s) div PAGE_SIZE = of_nat j"
    by (rule page_index_of_addr [OF geo j])
  ultimately have "dealloc (page_addr s j) ?t = None" by simp
  with eq pages.put_block [OF assms] show ?thesis by auto
qed

theorem dealloc_block_witness:
  "\<exists>s'. dealloc 0x11000 (take_run 0 2 example_heap) = Some s' \<and> blocks s' = {}"
proof -
  let ?s = "take_run 0 2 example_heap"
  have "page_inv ?s" and b: "blocks ?s = {(0, 2)}"
    using page_inv_take_run [of example_heap 2 0] blocks_take_run [of example_heap 2 0] example_heap_inv
    by (simp_all add: free_run_def)
  moreover have "page_addr ?s 0 = 0x11000" by (simp add: page_addr_def example_heap_def)
  ultimately show ?thesis using dealloc_block [of ?s 0 2] by auto
qed

text \<open>
  \<^verbatim>\<open>alloc\<close> followed by \<^verbatim>\<open>dealloc\<close> of the pointer it returned restores the machine
  state bit for bit.
\<close>
lemma alloc_dealloc_roundtrip:
  assumes "page_inv s" and "0 < pages" and "unat pages \<le> num_pages s"
    and "alloc pages s = Some (p, s')" and "p \<noteq> null_mut"
  shows "dealloc p s' = Some s"
proof -
  obtain j where f: "find (free_run s (unat pages)) [0..<num_pages s - unat pages] = Some j"
    and p: "p = page_addr s j" and s': "s' = take_run j (unat pages) s"
    using assms alloc_eq [OF assms(1-3)] by (auto split: option.splits)
  have pos: "0 < unat pages" using assms(2) by (simp add: word_less_nat_alt)
  have j: "j + unat pages < num_pages s" "free_run s (unat pages) j" using find_SomeD [OF f] by auto
  have heap: "unat (HEAP_START s) + num_pages s < 2 ^ 64"
    using assms(1) by (simp add: page_inv_def page_geometry_heap del: power_numeral)
  have "(j, unat pages) \<in> blocks s'" and "page_inv s'"
    using blocks_take_run [OF assms(1) pos _ j(2)] page_inv_take_run [OF assms(1) pos] j(1) s' by auto
  then have "dealloc p s' = Some (free_blk j (unat pages) s')"
    using dealloc_eq [of s' j "unat pages"] p s' by (simp add: blocks_def)
  moreover have "load_bytes (memory s) (HEAP_START s + of_nat j) (unat pages) = replicate (unat pages) 0"
  proof (rule nth_equalityI)
    fix k assume "k < length (load_bytes (memory s) (HEAP_START s + of_nat j) (unat pages))"
    then show "load_bytes (memory s) (HEAP_START s + of_nat j) (unat pages) ! k = replicate (unat pages) 0 ! k"
      using spec [OF j(2) [unfolded free_run_def], of "j + k"] by (simp add: flag_at_def add.assoc)
  qed simp
  then have "free_blk j (unat pages) s' = s"
    using store_bytes_same [of "memory s" "HEAP_START s + of_nat j" "replicate (unat pages) 0"] pos
    by (simp add: s' free_blk_def take_run_def store_bytes_twice)
  ultimately show ?thesis by simp
qed

text \<open>
  \<^verbatim>\<open>page::zalloc\<close> hands out zeroed pages. When it returns a non-null pointer, the pages
  of the new block are zero, every other page keeps its contents, and the block is
  disjoint from all blocks in use.
\<close>
lemma zalloc_zeroed:
  assumes "page_inv s" and "0 < pages" and "unat pages \<le> num_pages s"
    and "zalloc pages s = Some (p, s')" and "p \<noteq> null_mut"
  shows "\<exists>j. p = page_addr s j \<and> j + unat pages < num_pages s
    \<and> page_inv s' \<and> blocks s' = insert (j, unat pages) (blocks s)
    \<and> (\<forall>(i, l) \<in> blocks s. i + l \<le> j \<or> j + unat pages \<le> i)
    \<and> (\<forall>i < num_pages s. page_bytes s' i =
          (if j \<le> i \<and> i < j + unat pages then replicate 4096 0 else page_bytes s i))"
proof -
  have "p \<noteq> 0" using assms(5) by (simp add: null_mut_def)
  from pages.get_block [OF assms(1-4) this] obtain j where
    "p = page_addr s j" "j + unat pages < num_pages s" "page_inv s'"
    "blocks s' = insert (j, unat pages) (blocks s)"
    "\<forall>i l. (i, l) \<in> blocks s \<longrightarrow> i + l \<le> j \<or> j + unat pages \<le> i"
    "\<forall>i < num_pages s. page_bytes s' i =
       (if j \<le> i \<and> i < j + unat pages then replicate 4096 0 else page_bytes s i)"
    by blast
  then show ?thesis by (intro exI [of _ j] conjI) auto
qed

text \<open>
  After \<^verbatim>\<open>page::init\<close> the allocator is well formed and no page is in use, for any heap
  that with its descriptors fits into the address space.
\<close>
lemma page_init_establishes:
  assumes "0 < HEAP_START s"
    and "unat (HEAP_START s) + num_pages s + 4096 + 4096 * num_pages s \<le> 2 ^ 64"
  shows "\<exists>s'. page_init s = Some s' \<and> page_inv s' \<and> blocks s' = {}
    \<and> HEAP_START s' = HEAP_START s \<and> HEAP_SIZE s' = HEAP_SIZE s"
  using page_init_ok [OF assms] by blast

text \<open>
  \<^verbatim>\<open>align_val\<close> rounds up to a multiple of \<open>2 ^ order\<close>: the result is the least such
  multiple that is not below the value, whenever the rounding does not overflow.
\<close>
lemma align_val_least_multiple:
  assumes "unat order < 64" and "unat val + (2 ^ unat order - 1) < 2 ^ 64"
  shows "\<exists>r. align_val val order = Some r \<and> 2 ^ unat order dvd unat r
    \<and> unat val \<le> unat r \<and> unat r < unat val + 2 ^ unat order"
proof -
  let ?k = "2 ^ unat order :: nat" and ?v = "unat val"
  obtain r where r: "align_val val order = Some r" and ur: "unat r = (?v + (?k - 1)) div ?k * ?k"
    using align_val_eq [OF assms] by blast
  have k: "0 < ?k" by simp
  have "(?v + (?k - 1)) div ?k * ?k + (?v + (?k - 1)) mod ?k = ?v + (?k - 1)"
    by (rule div_mult_mod_eq)
  moreover have "(?v + (?k - 1)) mod ?k < ?k" using k by (rule mod_less_divisor)
  ultimately have "?v \<le> unat r \<and> unat r < ?v + ?k" unfolding ur using k by linarith
  with r ur show ?thesis by simp
qed

text \<open>
  C38: the page allocator can hand out memory that lies past the end of the heap. The number
  of pages is computed from the whole heap, but the first page starts only after the
  descriptors: with 8192 pages or more (32 MiB), a freshly initialised heap grants a block
  whose last byte is beyond \<^verbatim>\<open>HEAP_START + HEAP_SIZE\<close>.
\<close>
theorem alloc_past_heap_end:
  assumes "0 < HEAP_START s"
    and room: "unat (HEAP_START s) + num_pages s + 4096 + 4096 * num_pages s \<le> 2 ^ 64"
    and big: "8192 \<le> num_pages s"
  shows "\<exists>s0 p s1. page_init s = Some s0 \<and> alloc (of_nat (num_pages s - 1)) s0 = Some (p, s1)
    \<and> p \<noteq> null_mut \<and> unat (HEAP_START s) + unat (HEAP_SIZE s) < unat p + 4096 * (num_pages s - 1)"
proof -
  obtain s0 where s0: "page_init s = Some s0" "page_inv s0" "HEAP_START s0 = HEAP_START s"
    "HEAP_SIZE s0 = HEAP_SIZE s" and empty: "blocks s0 = {}"
    using page_init_ok [OF assms(1) room] by blast
  let ?n = "num_pages s"
  have n0: "num_pages s0 = ?n" by (simp add: num_pages_eq s0)
  have geo: "page_geometry s0" using s0(2) by (simp add: page_inv_def)
  have zero: "flag_at s0 k = 0" if "k < ?n" for k
    using taken_in_block [OF s0(2), of k] empty that n0 by auto
  have un: "unat (of_nat (?n - 1) :: usize) = ?n - 1"
    using room by (intro unat_of_nat_small) simp
  have "free_run s0 (?n - 1) 0" using zero by (simp add: free_run_def)
  then have f: "find (free_run s0 (?n - 1)) [0..<?n - (?n - 1)] = Some 0" using big by simp
  have "alloc (of_nat (?n - 1)) s0 = Some (page_addr s0 0, take_run 0 (?n - 1) s0)"
    using alloc_eq [OF s0(2), of "of_nat (?n - 1)"] f un n0 big
    by (simp add: word_less_nat_alt)
  moreover have "page_addr s0 0 = ALLOC_START s0" by (simp add: page_addr_def)
  moreover have "unat (HEAP_SIZE s) < 4096 * ?n + 4096"
    using num_pages_eq [of s] mod_less_divisor [of 4096 "unat (HEAP_SIZE s)"]
      div_mult_mod_eq [of "unat (HEAP_SIZE s)" 4096] by linarith
  moreover have "unat (HEAP_START s) + ?n \<le> unat (ALLOC_START s0)" "ALLOC_START s0 \<noteq> null_mut"
    using geo s0(3) n0 by (auto simp: page_geometry_def null_mut_def)
  ultimately show ?thesis using s0(1) big by auto
qed

theorem alloc_past_heap_end_witness:
  "\<exists>s0 p s1. page_init \<lparr>memory = (\<lambda>_. 0), HEAP_START = 0x80100000, HEAP_SIZE = 0x2000000, ALLOC_START = 0\<rparr> = Some s0
     \<and> alloc 8191 s0 = Some (p, s1) \<and> 0x82100000 < unat p + 4096 * 8191"
proof -
  let ?s = "\<lparr>memory = (\<lambda>_. 0), HEAP_START = 0x80100000, HEAP_SIZE = 0x2000000, ALLOC_START = 0\<rparr> :: page_st"
  have n: "num_pages ?s = 8192" by (simp add: num_pages_eq)
  show ?thesis using alloc_past_heap_end [of ?s] unfolding n by auto
qed

end
