(* ===== verification/Mmu.thy ===== *)
theory Mmu
  imports Page_Alloc
begin

text \<open>
  \<^verbatim>\<open>page.rs\<close>, MMU routines: Sv39 page table entries, \<^verbatim>\<open>map\<close>, \<^verbatim>\<open>unmap\<close> and
  \<^verbatim>\<open>virt_to_phys\<close> on tables in memory. Tables come from the page allocator, and the lemmas
  relate the tables to a tree of page numbers.
\<close>

section \<open>Entries\<close>

datatype EntryBits =
  None_bits | Valid | Read | Write | Execute | User_bit | Global | Access | Dirty
  | ReadWrite | ReadExecute | ReadWriteExecute
  | UserReadWrite | UserReadExecute | UserReadWriteExecute

fun EntryBits_val :: "EntryBits \<Rightarrow> usize" where
  "EntryBits_val None_bits = 0"
| "EntryBits_val Valid = push_bit 0 1"
| "EntryBits_val Read = push_bit 1 1"
| "EntryBits_val Write = push_bit 2 1"
| "EntryBits_val Execute = push_bit 3 1"
| "EntryBits_val User_bit = push_bit 4 1"
| "EntryBits_val Global = push_bit 5 1"
| "EntryBits_val Access = push_bit 6 1"
| "EntryBits_val Dirty = push_bit 7 1"
| "EntryBits_val ReadWrite = push_bit 1 1 OR push_bit 2 1"
| "EntryBits_val ReadExecute = push_bit 1 1 OR push_bit 3 1"
| "EntryBits_val ReadWriteExecute = push_bit 1 1 OR push_bit 2 1 OR push_bit 3 1"
| "EntryBits_val UserReadWrite = push_bit 1 1 OR push_bit 2 1 OR push_bit 4 1"
| "EntryBits_val UserReadExecute = push_bit 1 1 OR push_bit 3 1 OR push_bit 4 1"
| "EntryBits_val UserReadWriteExecute = push_bit 1 1 OR push_bit 2 1 OR push_bit 3 1 OR push_bit 4 1"

record Entry =
  entry :: usize

definition get_entry :: "Entry \<Rightarrow> usize" where
  "get_entry e = entry e"

definition set_entry :: "usize \<Rightarrow> Entry \<Rightarrow> Entry" where
  "set_entry v e = e\<lparr>entry := v\<rparr>"

definition is_valid :: "Entry \<Rightarrow> bool" where
  "is_valid e \<longleftrightarrow> get_entry e AND EntryBits_val Valid \<noteq> 0"

definition is_invalid :: "Entry \<Rightarrow> bool" where
  "is_invalid e \<longleftrightarrow> \<not> is_valid e"

definition is_leaf :: "Entry \<Rightarrow> bool" where
  "is_leaf e \<longleftrightarrow> get_entry e AND 0xe \<noteq> 0"

definition is_branch :: "Entry \<Rightarrow> bool" where
  "is_branch e \<longleftrightarrow> \<not> is_leaf e"

text \<open>Access through a reference to an \<^verbatim>\<open>Entry\<close>; a \<^verbatim>\<open>Table\<close> is 512 of them in a row.\<close>

definition entry_at :: "mem \<Rightarrow> usize \<Rightarrow> Entry" where
  "entry_at m p = \<lparr>entry = load64 m p\<rparr>"

definition entry_update :: "(Entry \<Rightarrow> Entry) \<Rightarrow> usize \<Rightarrow> mem \<Rightarrow> mem" where
  "entry_update f p m = store64 m p (entry (f (entry_at m p)))"

definition Table_len :: nat where
  "Table_len = 512"

section \<open>Operations\<close>

definition vpn :: "usize \<Rightarrow> nat \<Rightarrow> usize" where
  "vpn vaddr i = [drop_bit 12 vaddr AND 0x1ff, drop_bit 21 vaddr AND 0x1ff, drop_bit 30 vaddr AND 0x1ff] ! i"

definition ppn :: "usize \<Rightarrow> nat \<Rightarrow> usize" where
  "ppn paddr i = [drop_bit 12 paddr AND 0x1ff, drop_bit 21 paddr AND 0x1ff, drop_bit 30 paddr AND 0x3ffffff] ! i"

text \<open>The table address in a branch entry.\<close>

definition next_table :: "Entry \<Rightarrow> usize" where
  "next_table e = push_bit 2 (get_entry e AND NOT 0x3ff)"

text \<open>The walk of \<^verbatim>\<open>map\<close> down the levels, with the pointer \<open>v\<close> to the current entry.\<close>

definition ensure_table :: "usize \<Rightarrow> 'a page_st_scheme \<Rightarrow> 'a page_st_scheme option" where
  "ensure_table v s =
     (if \<not> is_valid (entry_at (memory s) v) then do {
        (page, s) \<leftarrow> zalloc 1 s;
        Some (s\<lparr>memory := entry_update (set_entry (drop_bit 2 page OR EntryBits_val Valid)) v (memory s)\<rparr>)
      } else Some s)"

fun map_walk :: "usize \<Rightarrow> nat list \<Rightarrow> usize \<Rightarrow> 'a page_st_scheme \<Rightarrow> (usize \<times> 'a page_st_scheme) option" where
  "map_walk vaddr [] v s = Some (v, s)"
| "map_walk vaddr (i # is) v s = do {
     s \<leftarrow> ensure_table v s;
     let v = next_table (entry_at (memory s) v) + 8 * vpn vaddr i;
     assert_that (v \<noteq> null_mut);
     map_walk vaddr is v s
   }"

definition leaf_entry :: "usize \<Rightarrow> usize \<Rightarrow> usize" where
  "leaf_entry paddr bits =
     push_bit 28 (ppn paddr 2) OR push_bit 19 (ppn paddr 1) OR push_bit 10 (ppn paddr 0)
       OR bits OR EntryBits_val Valid OR EntryBits_val Dirty OR EntryBits_val Access"

definition map_page :: "usize \<Rightarrow> usize \<Rightarrow> usize \<Rightarrow> usize \<Rightarrow> usize \<Rightarrow> 'a page_st_scheme \<Rightarrow> 'a page_st_scheme option" where
  "map_page root vaddr paddr bits level s = do {
     assert_that (bits AND 0xe \<noteq> 0);
     (v, s) \<leftarrow> map_walk vaddr (rev [unat level..<2]) (root + 8 * vpn vaddr 2) s;
     Some (s\<lparr>memory := entry_update (set_entry (leaf_entry paddr bits)) v (memory s)\<rparr>)
   }"

definition unmap_lv1 :: "usize \<Rightarrow> nat \<Rightarrow> 'a page_st_scheme \<Rightarrow> 'a page_st_scheme option" where
  "unmap_lv1 table_lv1 lv1 s =
     (let e = entry_at (memory s) (table_lv1 + 8 * of_nat lv1)
      in if is_valid e \<and> is_branch e then dealloc (next_table e) s else Some s)"

definition unmap_lv2 :: "usize \<Rightarrow> nat \<Rightarrow> 'a page_st_scheme \<Rightarrow> 'a page_st_scheme option" where
  "unmap_lv2 root lv2 s =
     (let e = entry_at (memory s) (root + 8 * of_nat lv2)
      in if is_valid e \<and> is_branch e then do {
           let memaddr_lv1 = next_table e;
           assert_that (memaddr_lv1 \<noteq> null_mut);
           s \<leftarrow> for_each (unmap_lv1 memaddr_lv1) [0..<Table_len] s;
           dealloc memaddr_lv1 s
         } else Some s)"

definition unmap :: "usize \<Rightarrow> 'a page_st_scheme \<Rightarrow> 'a page_st_scheme option" where
  "unmap root s = for_each (unmap_lv2 root) [0..<Table_len] s"

text \<open>
  The walk of \<^verbatim>\<open>virt_to_phys\<close>. Its result is \<open>Some None\<close> for a page fault and \<open>Some (Some a)\<close>
  for an address; a valid branch at level 0 makes \<^verbatim>\<open>i - 1\<close> overflow, which panics.
\<close>

fun walk :: "mem \<Rightarrow> usize \<Rightarrow> nat \<Rightarrow> usize \<Rightarrow> usize option option" where
  "walk m vaddr i v =
     (let e = entry_at m v
      in if is_invalid e then Some None
         else if is_leaf e then
           (let off_mask = push_bit (12 + i * 9) 1 - 1;
                vaddr_pgoff = vaddr AND off_mask;
                addr = push_bit 2 (get_entry e) AND NOT off_mask
            in Some (Some (addr OR vaddr_pgoff)))
         else (case i of
                 0 \<Rightarrow> None
               | Suc k \<Rightarrow> (let v = next_table e + 8 * vpn vaddr k
                           in if v \<noteq> null_mut then walk m vaddr k v else None)))"

definition virt_to_phys :: "usize \<Rightarrow> usize \<Rightarrow> 'a page_st_scheme \<Rightarrow> usize option option" where
  "virt_to_phys root vaddr s = walk (memory s) vaddr 2 (root + 8 * vpn vaddr 2)"

declare walk.simps [simp del]

section \<open>Entries bit by bit\<close>

lemma mask_literals:
  "(0x1ff :: usize) = mask 9" "(0x3ff :: usize) = mask 10" "(0x3ffffff :: usize) = mask 26" "(0xfff :: usize) = mask 12"
  by (simp_all add: mask_eq_exp_minus_1)

lemma bit_rwx: "bit (0xe :: usize) n \<longleftrightarrow> 1 \<le> n \<and> n < 4"
proof -
  have e: "(0xe :: usize) = push_bit 1 (mask 3)" by (simp add: mask_eq_exp_minus_1)
  show ?thesis unfolding e bit_push_bit_iff bit_mask_iff by auto
qed

lemma vpn_bits:
  "vpn va 0 = take_bit 9 (drop_bit 12 va)" "vpn va 1 = take_bit 9 (drop_bit 21 va)" "vpn va 2 = take_bit 9 (drop_bit 30 va)"
  by (simp_all add: vpn_def mask_literals take_bit_eq_mask)

lemma unat_take_bit_lt: "unat (take_bit n (w :: usize)) < 2 ^ n"
  unfolding unsigned_take_bit_eq by (simp add: take_bit_eq_mod)

lemma vpn_lt: "i < 3 \<Longrightarrow> unat (vpn va i) < 512"
  using unat_take_bit_lt [of 9] by (auto simp: less_Suc_eq numeral_3_eq_3 vpn_bits [unfolded numeral_2_eq_2 One_nat_def])

lemma is_valid_bit: "is_valid e \<longleftrightarrow> bit (entry e) 0"
  by (simp add: is_valid_def get_entry_def) (simp add: bit_iff_and_push_bit_not_eq_0)

text \<open>A branch entry for a page-aligned table leads back to the table.\<close>

lemma branch_entry:
  assumes al: "take_bit 12 a = 0"
  defines "e \<equiv> \<lparr>entry = drop_bit 2 a OR EntryBits_val Valid\<rparr>"
  shows "is_valid e" "\<not> is_leaf e" "next_table e = a"
proof -
  have low: "\<not> bit a k" if "k < 12" for k
    using al that by (metis bit_0_eq bit_take_bit_iff bot_apply bot_bool_def)
  show "is_valid e" by (simp add: is_valid_bit e_def bit_simps)
  have "(drop_bit 2 a OR 1) AND 0xe = (0 :: usize)"
  proof (rule bit_word_eqI)
    fix n assume "n < LENGTH(64)"
    have "bit (0xe :: usize) n \<Longrightarrow> 1 \<le> n \<and> n < 4" by (simp only: bit_rwx)
    then show "bit ((drop_bit 2 a OR 1) AND 0xe :: usize) n = bit 0 n"
      using low by (auto simp: bit_simps)
  qed
  then show "\<not> is_leaf e" by (simp add: is_leaf_def get_entry_def e_def)
  show "next_table e = a"
  proof (rule bit_word_eqI)
    fix n assume n: "n < LENGTH(64)"
    have one: "bit (1 :: usize) (n - 2) \<longleftrightarrow> n - 2 = 0" by (auto simp: bit_1_iff)
    have "bit (next_table e) n \<longleftrightarrow> 2 \<le> n \<and> 10 \<le> n - 2 \<and> bit a (2 + (n - 2))"
      unfolding next_table_def get_entry_def e_def mask_literals bit_push_bit_iff bit_and_iff bit_not_iff bit_mask_iff
      using n by (auto simp: bit_or_iff bit_drop_bit_eq one)
    moreover have "2 + (n - 2) = n" if "\<not> n < 12" using that by simp
    ultimately show "bit (next_table e) n = bit a n" using low [of n] by (cases "n < 12") auto
  qed
qed


section \<open>The tree of tables\<close>

text \<open>
  The position of a table in a Sv39 tree, and a tree as the page number of the table at each
  position. Only 4096-byte pages are mapped (the kernel calls \<^verbatim>\<open>map\<close> with level 0 only), so
  entries of the upper two levels are invalid or lead to a table.
\<close>

datatype pos = Root | L1 nat | L0 nat nat

fun child :: "pos \<Rightarrow> nat \<Rightarrow> pos" where
  "child Root i = L1 i"
| "child (L1 i) k = L0 i k"
| "child (L0 i k) _ = L0 i k"

fun upper :: "pos \<Rightarrow> bool" where
  "upper (L0 _ _) = False"
| "upper _ = True"

type_synonym tree = "pos \<Rightarrow> nat option"

text \<open>Entry \<open>k\<close> of the table in page \<open>j\<close>.\<close>

definition slot_addr :: "'a page_st_scheme \<Rightarrow> nat \<Rightarrow> nat \<Rightarrow> usize" where
  "slot_addr s j k = page_addr s j + 8 * of_nat k"

definition slot :: "'a page_st_scheme \<Rightarrow> nat \<Rightarrow> nat \<Rightarrow> usize" where
  "slot s j k = load64 (memory s) (slot_addr s j k)"

definition links_to :: "'a page_st_scheme \<Rightarrow> usize \<Rightarrow> nat option \<Rightarrow> bool" where
  "links_to s e x = (case x of None \<Rightarrow> \<not> bit e 0 | Some j \<Rightarrow> e = drop_bit 2 (page_addr s j) OR EntryBits_val Valid)"

definition leaf_of :: "'a page_st_scheme \<Rightarrow> tree \<Rightarrow> nat \<Rightarrow> nat \<Rightarrow> nat \<Rightarrow> usize" where
  "leaf_of s t i k n = (case t (L0 i k) of None \<Rightarrow> 0 | Some j \<Rightarrow> slot s j n)"

definition leaf_ok :: "usize \<Rightarrow> bool" where
  "leaf_ok e \<longleftrightarrow> bit e 0 \<longrightarrow> e AND 0xe \<noteq> 0"

text \<open>
  The tables of the tree are single-page blocks of the allocator, no two positions share one,
  every entry of an upper table leads to the table at the child position, and every valid
  entry of a level-0 table is a leaf.
\<close>

definition tree_ok :: "'a page_st_scheme \<Rightarrow> tree \<Rightarrow> bool" where
  "tree_ok s t \<longleftrightarrow> page_inv s \<and> t Root \<noteq> None
     \<and> (\<forall>p j. t p = Some j \<longrightarrow> (j, 1) \<in> blocks s)
     \<and> (\<forall>p q j. t p = Some j \<longrightarrow> t q = Some j \<longrightarrow> p = q)
     \<and> (\<forall>i k. t (L0 i k) \<noteq> None \<longrightarrow> t (L1 i) \<noteq> None)
     \<and> (\<forall>p k. upper p \<longrightarrow> t (child p k) \<noteq> None \<longrightarrow> k < 512)
     \<and> (\<forall>p j k. t p = Some j \<longrightarrow> upper p \<longrightarrow> k < 512 \<longrightarrow> links_to s (slot s j k) (t (child p k)))
     \<and> (\<forall>i k n. n < 512 \<longrightarrow> leaf_ok (leaf_of s t i k n))"

lemma tree_okD:
  assumes "tree_ok s t"
  shows "page_inv s" "page_geometry s" "\<exists>r. t Root = Some r" "t p = Some j \<Longrightarrow> (j, 1) \<in> blocks s"
    "t p = Some j \<Longrightarrow> j < num_pages s" "t p = Some j \<Longrightarrow> t q = Some j \<Longrightarrow> p = q"
    "t (L1 i) = None \<Longrightarrow> t (L0 i k) = None"
    "t p = Some j \<Longrightarrow> upper p \<Longrightarrow> k < 512 \<Longrightarrow> links_to s (slot s j k) (t (child p k))"
    "n < 512 \<Longrightarrow> leaf_ok (leaf_of s t i k n)" "upper p \<Longrightarrow> t (child p k) = Some j \<Longrightarrow> k < 512"
  using assms pages.live_nonempty [of j 1 s] unfolding tree_ok_def page_inv_def by (auto 0 4)

lemma slot_region:
  assumes "page_geometry s" "j < num_pages s" "k < 512"
  shows "unat (slot_addr s j k) = unat (page_addr s j) + 8 * k" "unat (page_addr s j) = unat (ALLOC_START s) + 4096 * j"
    "unat (page_addr s j) + 4096 < 2 ^ 64" "slot_addr s j k \<noteq> 0"
proof -
  show a: "unat (page_addr s j) = unat (ALLOC_START s) + 4096 * j" by (rule page_addr_checked(3) [OF assms(1,2)])
  show t: "unat (page_addr s j) + 4096 < 2 ^ 64"
    using a assms(1,2) by (auto simp: page_geometry_def)
  have "slot_addr s j k = page_addr s j + of_nat (8 * k)" by (simp add: slot_addr_def)
  then show u: "unat (slot_addr s j k) = unat (page_addr s j) + 8 * k"
    using t assms(3) unat_add_of_nat [of "page_addr s j" "8 * k"] by simp
  show "slot_addr s j k \<noteq> 0" using u a assms(1) by (auto simp: page_geometry_def)
qed

lemma page_addr_aligned:
  assumes "page_geometry s" "j < num_pages s" shows "take_bit 12 (page_addr s j) = 0"
proof -
  have "4096 dvd unat (page_addr s j)" using assms page_addr_checked(3) [of s j] by (simp add: page_geometry_def)
  then have "unat (take_bit 12 (page_addr s j)) = 0"
    unfolding unsigned_take_bit_eq by (simp add: take_bit_eq_mod)
  then show ?thesis by (simp add: unat_eq_0)
qed

text \<open>A slot depends on the bytes of its page only.\<close>

lemma slot_page_bytes:
  assumes "k < 512" shows "slot s j k = le_word (take 8 (drop (8 * k) (page_bytes s j)))"
proof -
  have "take 8 (drop (8 * k) (load_bytes (memory s) (page_addr s j) 4096)) = load_bytes (memory s) (slot_addr s j k) 8"
    using assms by (intro nth_equalityI) (simp_all add: slot_addr_def add.assoc)
  then show ?thesis by (simp add: slot_def load64_def page_bytes_def)
qed

lemma slot_cong: "page_bytes s j = page_bytes s' j \<Longrightarrow> k < 512 \<Longrightarrow> slot s j k = slot s' j k"
  by (simp add: slot_page_bytes)

lemma slot_zero: "page_bytes s j = replicate 4096 0 \<Longrightarrow> k < 512 \<Longrightarrow> slot s j k = 0"
  using le_word_zeros [of 8] by (simp add: slot_page_bytes)

text \<open>A tree survives changes outside its pages.\<close>

lemma tree_ok_cong:
  assumes ok: "tree_ok s t" and s1: "page_inv s1" "page_addr s1 = page_addr s"
    and b: "\<And>p j. t p = Some j \<Longrightarrow> (j, 1) \<in> blocks s1 \<and> page_bytes s1 j = page_bytes s j"
  shows "tree_ok s1 t" "\<And>i k n. n < 512 \<Longrightarrow> leaf_of s1 t i k n = leaf_of s t i k n"
proof -
  note d = tree_okD [OF ok]
  have sl: "slot s1 j k = slot s j k" if "t p = Some j" "k < 512" for p j k
    using b [OF that(1)] that(2) by (intro slot_cong) simp_all
  have lk: "links_to s1 = links_to s" by (simp add: links_to_def fun_eq_iff s1(2) split: option.split)
  show leaf: "leaf_of s1 t i k n = leaf_of s t i k n" if "n < 512" for i k n
    using sl that by (auto simp: leaf_of_def split: option.split)
  then have "\<forall>i k n. n < 512 \<longrightarrow> leaf_ok (leaf_of s1 t i k n)" using d(9) by simp
  moreover have "\<forall>p j k. t p = Some j \<longrightarrow> upper p \<longrightarrow> k < 512 \<longrightarrow> links_to s1 (slot s1 j k) (t (child p k))"
    using sl d(8) by (simp add: lk)
  ultimately show "tree_ok s1 t" using ok b s1 by (simp add: tree_ok_def)
qed

text \<open>Writing one slot.\<close>

definition put_slot :: "nat \<Rightarrow> nat \<Rightarrow> usize \<Rightarrow> 'a page_st_scheme \<Rightarrow> 'a page_st_scheme" where
  "put_slot j k e s = s\<lparr>memory := store64 (memory s) (slot_addr s j k) e\<rparr>"

lemma put_slot_fields [simp]:
  "page_addr (put_slot j k e s) = page_addr s" "num_pages (put_slot j k e s) = num_pages s"
  "page_geometry (put_slot j k e s) = page_geometry s" "slot_addr (put_slot j k e s) = slot_addr s"
  by (simp_all add: put_slot_def slot_addr_def fun_eq_iff)

lemma put_slot_pages:
  assumes inv: "page_inv s" and j: "j < num_pages s" and k: "k < 512"
  shows "page_inv (put_slot j k e s)" "blocks (put_slot j k e s) = blocks s"
proof -
  have geo: "page_geometry s" using inv by (simp add: page_inv_def)
  note r = slot_region [OF geo j k]
  have "store64 (memory s) (slot_addr s j k) e x = memory s x" if "\<not> in_region (page_addr s j) 4096 x" for x
  proof (rule store64_outside)
    show "\<not> in_region (slot_addr s j k) 8 x"
      using that r k by (auto simp: in_region_iff)
  qed
  from page_write_keeps_table [OF inv j this]
  show "page_inv (put_slot j k e s)" "blocks (put_slot j k e s) = blocks s" by (simp_all add: put_slot_def)
qed

lemma slot_put_slot:
  assumes geo: "page_geometry s" and j: "j < num_pages s" "j' < num_pages s" and k: "k < 512" "k' < 512"
  shows "slot (put_slot j k e s) j' k' = (if j' = j \<and> k' = k then e else slot s j' k')"
proof (cases "j' = j \<and> k' = k")
  case False
  note r = slot_region [OF geo j(1) k(1)] and r' = slot_region [OF geo j(2) k(2)]
  have "disjoint_regions (slot_addr s j k) 8 (slot_addr s j' k') 8"
  proof (cases "j' = j")
    case True
    then show ?thesis using r r' k False by (auto simp: disjoint_regions_def)
  next
    case False
    then have "j < j' \<or> j' < j" by auto
    then show ?thesis using r r' k by (auto simp: disjoint_regions_def)
  qed
  then show ?thesis using False by (auto simp: slot_def put_slot_def slot_addr_def region_simps)
qed (simp add: slot_def put_slot_def slot_addr_def)


section \<open>Walking and growing the tree\<close>

lemma links_to_memory [simp]: "links_to (put_slot j k e s) = links_to s"
  by (simp add: links_to_def fun_eq_iff split: option.split)

text \<open>Following a link.\<close>

lemma follow_link:
  assumes ok: "tree_ok s t" and p: "t p = Some j" "upper p" "k < 512" and c: "t (child p k) = Some j'"
  defines "e \<equiv> entry_at (memory s) (slot_addr s j k)"
  shows "is_valid e" "\<not> is_leaf e" "next_table e = page_addr s j'"
proof -
  have "slot s j k = drop_bit 2 (page_addr s j') OR EntryBits_val Valid"
    using tree_okD(8) [OF ok p] c by (simp add: links_to_def)
  then have "e = \<lparr>entry = drop_bit 2 (page_addr s j') OR EntryBits_val Valid\<rparr>"
    by (simp add: e_def entry_at_def slot_def)
  moreover have "take_bit 12 (page_addr s j') = 0"
    using page_addr_aligned tree_okD(2,5) [OF ok] c by blast
  ultimately show "is_valid e" "\<not> is_leaf e" "next_table e = page_addr s j'"
    using branch_entry by simp_all
qed

lemma no_link:
  assumes ok: "tree_ok s t" and p: "t p = Some j" "upper p" "k < 512" and c: "t (child p k) = None"
  shows "\<not> is_valid (entry_at (memory s) (slot_addr s j k))"
  using tree_okD(8) [OF ok p] c by (simp add: links_to_def is_valid_bit entry_at_def slot_def)

lemma child_inj: "upper p \<Longrightarrow> upper q \<Longrightarrow> child p i = child q k \<longleftrightarrow> p = q \<and> i = k"
  by (cases p; cases q) auto

text \<open>
  Attaching a fresh zeroed page \<open>n\<close> as the missing child: no leaf entry changes.
\<close>

lemma attach_table:
  assumes ok: "tree_ok s t" and p: "t p = Some j" "upper p" "k < 512" and c: "t (child p k) = None"
    and s1: "page_inv s1" "blocks s1 = insert (n, 1) (blocks s)" "num_pages s1 = num_pages s" "page_addr s1 = page_addr s"
    and bts: "\<forall>i < num_pages s. page_bytes s1 i = (if i = n then replicate 4096 0 else page_bytes s i)"
    and n: "n < num_pages s" "(n, 1) \<notin> blocks s"
  defines "t2 \<equiv> t(child p k := Some n)"
    and "s2 \<equiv> put_slot j k (drop_bit 2 (page_addr s n) OR EntryBits_val Valid) s1"
  shows "tree_ok s2 t2" "\<And>a b i. i < 512 \<Longrightarrow> leaf_of s2 t2 a b i = leaf_of s t a b i"
proof -
  note d = tree_okD [OF ok]
  have fresh: "t q \<noteq> Some n" for q using d(4) n(2) by blast
  have jn: "j \<noteq> n" "j < num_pages s" using fresh p(1) d(5) by auto
  have geo1: "page_geometry s1" using s1(1) by (simp add: page_inv_def)
  have sl: "slot s2 l i = (if l = j \<and> i = k then drop_bit 2 (page_addr s n) OR EntryBits_val Valid
      else if l = n then 0 else slot s l i)" if "l < num_pages s" "i < 512" for l i
    using slot_put_slot [OF geo1, of j l k i] that jn p(3) s1(3) bts slot_zero [of s1 n i] slot_cong [of s1 l s i]
    by (auto simp: s2_def)
  have lk: "links_to s2 = links_to s"
    by (simp add: s2_def links_to_def fun_eq_iff s1(4) split: option.split)
  have notL0: "upper q \<Longrightarrow> q \<noteq> L0 a b" for q a b by auto
  show leaf: "leaf_of s2 t2 a b i = leaf_of s t a b i" if "i < 512" for a b i
  proof (cases "child p k = L0 a b")
    case True
    then show ?thesis using sl [OF n(1) that] c jn by (simp add: leaf_of_def t2_def)
  next
    case False
    then have "t2 (L0 a b) = t (L0 a b)" by (simp add: t2_def)
    moreover have "slot s2 l i = slot s l i" if "t (L0 a b) = Some l" for l
      using sl [of l i] \<open>i < 512\<close> d(5,6) [OF that] p(1,2) fresh that by (metis notL0)
    ultimately show ?thesis by (simp add: leaf_of_def split: option.split)
  qed
  have links: "links_to s2 (slot s2 l i) (t2 (child q i))" if q: "t2 q = Some l" "upper q" "i < 512" for q l i
  proof (cases "q = child p k")
    case True
    then have "l = n" using q by (simp add: t2_def)
    moreover have "t2 (child q i) = None"
      using True q(2) c d(7) [of k i] p(2) by (cases p) (auto simp: t2_def)
    ultimately show ?thesis using sl [OF n(1) q(3)] jn by (simp add: lk links_to_def)
  next
    case False
    then have tq: "t q = Some l" using q by (simp add: t2_def)
    then have ln: "l \<noteq> n" "l < num_pages s" using fresh d(5) by auto
    show ?thesis
    proof (cases "l = j \<and> i = k")
      case True
      then have "q = p" using d(6) tq p(1) by blast
      then show ?thesis using True sl [OF ln(2) q(3)] by (simp add: lk links_to_def t2_def s1(4))
    next
      case False
      then have "\<not> (q = p \<and> i = k)" using tq p(1) by auto
      then have "t2 (child q i) = t (child q i)" using child_inj [OF q(2) p(2)] by (auto simp: t2_def)
      then show ?thesis using False ln sl [OF ln(2) q(3)] d(8) [OF tq q(2,3)] by (auto simp: lk)
    qed
  qed
  have "page_inv s2" "blocks s2 = insert (n, 1) (blocks s)"
    using put_slot_pages [OF s1(1)] s1 jn p(3) by (simp_all add: s2_def)
  moreover have "t2 Root \<noteq> None" "\<And>q l. t2 q = Some l \<Longrightarrow> l = n \<or> (l, 1) \<in> blocks s"
    using d(3,4) by (auto simp: t2_def split: if_splits)
  moreover have "\<And>q q' l. t2 q = Some l \<Longrightarrow> t2 q' = Some l \<Longrightarrow> q = q'"
    using d(6) fresh by (auto simp: t2_def split: if_splits)
  moreover have "t2 (L1 a) \<noteq> None" if "t2 (L0 a b) \<noteq> None" for a b
    using that d(7) [of a b] p(1,2) by (cases p; cases "t (L1 a)") (auto simp: t2_def split: if_splits)
  moreover have "i < 512" if "upper q" "t2 (child q i) \<noteq> None" for q i
    using that d(10) [of q i] p(2,3) child_inj [of q p i k] by (auto simp: t2_def split: if_splits)
  ultimately show "tree_ok s2 t2"
    unfolding tree_ok_def using links leaf d(9) by (auto 0 3)
qed


text \<open>The pages a single-page request can get.\<close>

definition free_pages :: "'a page_st_scheme \<Rightarrow> nat set" where
  "free_pages s = {i. i + 1 < num_pages s \<and> (\<forall>j l. (j, l) \<in> blocks s \<longrightarrow> \<not> (j \<le> i \<and> i < j + l))}"

lemma finite_free_pages [simp]: "finite (free_pages s)"
  by (rule finite_subset [of _ "{..<num_pages s}"]) (auto simp: free_pages_def)

text \<open>
  Before anything is freed, requests are served one behind the other: the pages below \<open>j\<close> are in use and the others free.
\<close>

definition filled :: "nat \<Rightarrow> 'a page_st_scheme \<Rightarrow> bool" where
  "filled j s \<longleftrightarrow> page_inv s \<and> (\<forall>i < num_pages s. flag_at s i \<noteq> 0 \<longleftrightarrow> i < j)"

lemma find_upt: "\<forall>i < j. \<not> P i \<Longrightarrow> P j \<Longrightarrow> j < n \<Longrightarrow> find P [0..<n] = Some j"
  by (auto simp: find_Some_iff intro: exI [of _ j])

lemma zalloc_filled:
  assumes f: "filled j s" and n: "0 < n" "j + unat n < num_pages s"
  obtains m where "zalloc n s = Some (page_addr s j, s\<lparr>memory := m\<rparr>)" "filled (j + unat n) (s\<lparr>memory := m\<rparr>)"
proof -
  let ?s = "zero_pages j (unat n) (take_run j (unat n) s)"
  have inv: "page_inv s" and geo: "page_geometry s" and fl: "\<And>i. i < num_pages s \<Longrightarrow> flag_at s i \<noteq> 0 \<longleftrightarrow> i < j"
    using f by (auto simp: filled_def page_inv_def)
  have pos: "0 < unat n" using n(1) by (simp add: word_less_nat_alt)
  have fr: "free_run s (unat n) j" unfolding free_run_def
  proof (intro allI impI)
    fix k assume "j \<le> k \<and> k < j + unat n"
    then show "flag_at s k = 0" using fl [of k] n(2) by simp
  qed
  have "\<not> free_run s (unat n) i" if "i < j" for i
    using fl [of i] that n(2) pos unfolding free_run_def by (auto intro!: exI [of _ i])
  then have "find (free_run s (unat n)) [0..<num_pages s - unat n] = Some j" using fr n(2) by (intro find_upt) auto
  then have z: "zalloc n s = Some (page_addr s j, ?s)" using zalloc_eq [OF inv n(1)] n(2) by simp
  obtain m where m: "?s = s\<lparr>memory := m\<rparr>" by (simp add: zero_pages_def take_run_def)
  have nz: "page_addr s j \<noteq> 0" using n(2) by (intro page_addr_nonzero [OF geo]) simp
  have "page_inv ?s" using pages.get_block [OF inv n(1) _ z nz] n(2) by auto
  moreover have "flag_at ?s i \<noteq> 0 \<longleftrightarrow> i < j + unat n" if "i < num_pages s" for i
    using that geo pos n(2) fl [OF that] by (auto simp: flag_zero_pages flag_take_run)
  ultimately have "filled (j + unat n) ?s" by (simp add: filled_def)
  then show ?thesis using that z m by simp
qed

lemma filled_free_pages:
  assumes "filled j s" shows "num_pages s - 1 - j \<le> card (free_pages s)"
proof -
  have tk: "flag_at s i \<noteq> 0" if "(a, l) \<in> blocks s" "a \<le> i" "i < a + l" for a l i
  proof -
    have "flag_at s i = 1 \<or> i = a + l - 1" "flag_at s (a + l - 1) = 3" using that by (auto simp: blocks_def run_at_def)
    then show ?thesis by auto
  qed
  have "{j..<num_pages s - 1} \<subseteq> free_pages s"
  proof
    fix i assume "i \<in> {j..<num_pages s - 1}"
    then have i: "i + 1 < num_pages s" "\<not> i < j" by auto
    then have "flag_at s i = 0" using assms unfolding filled_def by (metis Suc_eq_plus1 Suc_lessD)
    then show "i \<in> free_pages s" using tk i(1) unfolding free_pages_def by blast
  qed
  then have "card {j..<num_pages s - 1} \<le> card (free_pages s)" by (intro card_mono) simp_all
  then show ?thesis by simp
qed

lemma zalloc_one:
  assumes inv: "page_inv s" and i: "i \<in> free_pages s"
  obtains n s1 where "zalloc 1 s = Some (page_addr s n, s1)" "n < num_pages s" "(n, 1) \<notin> blocks s" "page_inv s1"
    "blocks s1 = insert (n, 1) (blocks s)" "num_pages s1 = num_pages s" "page_addr s1 = page_addr s"
    "\<forall>i < num_pages s. page_bytes s1 i = (if i = n then replicate 4096 0 else page_bytes s i)"
    "card (free_pages s) \<le> card (free_pages s1) + 1" "\<exists>m. s1 = s\<lparr>memory := m\<rparr>"
proof -
  have n1: "unat (1 :: usize) \<le> num_pages s" using i by (simp add: free_pages_def)
  have geo: "page_geometry s" using inv by (simp add: page_inv_def)
  have "flag_at s i = 0" using taken_in_block [OF inv, of i] i by (auto simp: free_pages_def)
  then have "free_run s 1 i" by (auto simp: free_run_def less_Suc_eq)
  then obtain n where f: "find (free_run s 1) [0..<num_pages s - 1] = Some n"
    using i by (cases "find (free_run s 1) [0..<num_pages s - 1]") (auto simp: find_None_iff free_pages_def)
  then have n: "n + 1 < num_pages s" using find_SomeD by fastforce
  then have nz: "page_addr s n \<noteq> 0" by (intro page_addr_nonzero [OF geo]) simp
  have z: "zalloc 1 s = Some (page_addr s n, zero_pages n 1 (take_run n 1 s))"
    using f n1 by (simp add: zalloc_eq [OF inv])
  define s1 where "s1 = zero_pages n 1 (take_run n 1 s)"
  obtain k where k: "page_addr s n = page_addr s k" "k + 1 < num_pages s" "page_inv s1"
    "blocks s1 = insert (k, 1) (blocks s)" "\<forall>i l. (i, l) \<in> blocks s \<longrightarrow> i + l \<le> k \<or> k + 1 \<le> i"
    "num_pages s1 = num_pages s" "page_addr s1 = page_addr s"
    "\<forall>i < num_pages s. page_bytes s1 i = (if k \<le> i \<and> i < k + 1 then replicate 4096 0 else page_bytes s i)"
    using pages.get_block [OF inv _ n1 z nz] by (auto simp: s1_def)
  have "free_pages s - {k} \<subseteq> free_pages s1" using k by (auto simp: free_pages_def)
  then have "card (free_pages s - {k}) \<le> card (free_pages s1)" by (intro card_mono) simp_all
  then have "card (free_pages s) \<le> card (free_pages s1) + 1"
    using card_Diff1_le [of "free_pages s" k] by (cases "k \<in> free_pages s") (simp_all add: card_Diff_singleton)
  moreover have "\<exists>m. s1 = s\<lparr>memory := m\<rparr>" by (auto simp: s1_def zero_pages_def take_run_def)
  moreover have "\<forall>i < num_pages s. page_bytes s1 i = (if i = k then replicate 4096 0 else page_bytes s i)"
    using k(8) by (auto simp: less_Suc_eq_le)
  moreover have "(k, 1) \<notin> blocks s" using k(5) by force
  ultimately show ?thesis using that [of k s1] z k(1-7) by (auto simp: s1_def)
qed

lemma free_pages_put_slot [simp]:
  "page_inv s \<Longrightarrow> j < num_pages s \<Longrightarrow> k < 512 \<Longrightarrow> free_pages (put_slot j k e s) = free_pages s"
  by (simp add: free_pages_def put_slot_pages)

text \<open>
  How the tree grows: tables are added in new blocks, no block goes away, and the pages of the blocks that
  hold no table of the tree keep their contents.
\<close>

definition table_blocks :: "tree \<Rightarrow> (nat \<times> nat) set" where
  "table_blocks t = {(j, 1) |j p. t p = Some j}"

lemma page_bytes_put_slot:
  assumes "page_geometry s" "j < num_pages s" "k < 512" "i < num_pages s" "i \<noteq> j"
  shows "page_bytes (put_slot j k e s) i = page_bytes s i"
proof -
  note r = slot_region [OF assms(1-3)] and a = page_addr_checked(3) [OF assms(1,4)]
  have "i < j \<or> j < i" using assms(5) by auto
  then have "disjoint_regions (slot_addr s j k) 8 (page_addr s i) 4096"
    using r a assms(1,3,4) by (auto simp: disjoint_regions_def page_geometry_def)
  then show ?thesis by (simp add: page_bytes_def put_slot_def store64_def load_store_bytes_disjoint)
qed

definition tree_grows :: "'a page_st_scheme \<Rightarrow> tree \<Rightarrow> 'a page_st_scheme \<Rightarrow> tree \<Rightarrow> bool" where
  "tree_grows s t s' t' \<longleftrightarrow> (\<exists>m. s' = s\<lparr>memory := m\<rparr>) \<and> blocks s' = blocks s \<union> table_blocks t'
     \<and> table_blocks t \<subseteq> table_blocks t' \<and> (table_blocks t' - table_blocks t) \<inter> blocks s = {}
     \<and> (\<forall>i l k. (i, l) \<in> blocks s - table_blocks t \<longrightarrow> i \<le> k \<longrightarrow> k < i + l \<longrightarrow> page_bytes s' k = page_bytes s k)"

lemma table_blocks_sub_blocks: "tree_ok s t \<Longrightarrow> table_blocks t \<subseteq> blocks s"
  using tree_okD(4) [of s t] by (auto simp: table_blocks_def)

lemma tree_grows_refl: "tree_ok s t \<Longrightarrow> tree_grows s t s t"
  using table_blocks_sub_blocks [of s t] by (auto simp: tree_grows_def intro: exI [of _ "memory s"])

lemma tree_grows_trans:
  assumes "tree_grows s t s1 t1" "tree_grows s1 t1 s2 t2" shows "tree_grows s t s2 t2"
proof -
  note a = assms [unfolded tree_grows_def]
  have "page_bytes s2 k = page_bytes s k" if "(i, l) \<in> blocks s - table_blocks t" "i \<le> k" "k < i + l" for i l k
  proof -
    have "(i, l) \<in> blocks s1 - table_blocks t1" using that(1) a(1) by blast
    then have "page_bytes s2 k = page_bytes s1 k" using a(2) that(2,3) by blast
    also have "\<dots> = page_bytes s k" using a(1) that by blast
    finally show ?thesis .
  qed
  moreover have "\<exists>m. s2 = s\<lparr>memory := m\<rparr>" using a by auto
  moreover have "blocks s1 = blocks s \<union> table_blocks t1" "blocks s2 = blocks s1 \<union> table_blocks t2"
    "table_blocks t \<subseteq> table_blocks t1" "table_blocks t1 \<subseteq> table_blocks t2"
    "(table_blocks t1 - table_blocks t) \<inter> blocks s = {}" "(table_blocks t2 - table_blocks t1) \<inter> blocks s1 = {}"
    using a by simp_all
  then have "blocks s2 = blocks s \<union> table_blocks t2" "table_blocks t \<subseteq> table_blocks t2" "(table_blocks t2 - table_blocks t) \<inter> blocks s = {}"
    by blast+
  ultimately show ?thesis unfolding tree_grows_def by simp
qed

text \<open>Writing a slot of a table.\<close>

lemma tree_grows_put_slot:
  assumes ok: "tree_ok s t" and p: "t p = Some j" and k: "k < 512"
  shows "tree_grows s t (put_slot j k e s) t"
proof -
  note d = tree_okD [OF ok]
  have j: "j < num_pages s" "(j, 1) \<in> blocks s" "(j, 1) \<in> table_blocks t" using d(4,5) [OF p] p by (auto simp: table_blocks_def)
  have "page_bytes (put_slot j k e s) n = page_bytes s n" if "(i, l) \<in> blocks s - table_blocks t" "i \<le> n" "n < i + l" for i l n
  proof (rule page_bytes_put_slot [OF d(2) j(1) k])
    show "n < num_pages s" using pages.live_nonempty [of i l s] that by auto
    show "n \<noteq> j" using pages.live_apart [of i l s j 1] that j by auto
  qed
  then show ?thesis
    using table_blocks_sub_blocks [OF ok] put_slot_pages(2) [OF d(1) j(1) k] unfolding tree_grows_def
    by (auto simp: put_slot_def)
qed

text \<open>Attaching a new table.\<close>

lemma tree_grows_attach:
  assumes ok: "tree_ok s t" and p: "t p = Some j" "k < 512" and c: "t q = None"
    and s1: "page_inv s1" "blocks s1 = insert (n, 1) (blocks s)" "num_pages s1 = num_pages s" "page_addr s1 = page_addr s"
    and bts: "\<forall>i < num_pages s. page_bytes s1 i = (if i = n then replicate 4096 0 else page_bytes s i)"
    and n: "n < num_pages s" "(n, 1) \<notin> blocks s" and m: "\<exists>m. s1 = s\<lparr>memory := m\<rparr>"
  shows "tree_grows s t (put_slot j k e s1) (t(q := Some n))"
proof -
  note d = tree_okD [OF ok]
  have j: "j < num_pages s1" "(j, 1) \<in> blocks s" "(j, 1) \<in> table_blocks t" using d(4,5) [OF p(1)] p s1(3) by (auto simp: table_blocks_def)
  have geo1: "page_geometry s1" using s1(1) by (simp add: page_inv_def)
  have tb: "table_blocks (t(q := Some n)) = insert (n, 1) (table_blocks t)"
    using c unfolding table_blocks_def by (auto split: if_splits) (metis option.distinct(1))
  have pg: "page_bytes (put_slot j k e s1) x = page_bytes s x" if b: "(i, l) \<in> blocks s - table_blocks t" "i \<le> x" "x < i + l" for i l x
  proof -
    have x: "x < num_pages s" using pages.live_nonempty [of i l s] b by auto
    have "x \<noteq> j" using pages.live_apart [of i l s j 1] b j by auto
    moreover have "x \<noteq> n" using pages.live_apart [of i l s1 n 1] b n(2) s1(2) by auto
    ultimately show ?thesis using page_bytes_put_slot [OF geo1 j(1) p(2), of x e] x s1(3) bts by simp
  qed
  have "blocks (put_slot j k e s1) = insert (n, 1) (blocks s)" using put_slot_pages(2) [OF s1(1) j(1) p(2)] s1(2) by simp
  moreover have "\<exists>m. put_slot j k e s1 = s\<lparr>memory := m\<rparr>" using m by (auto simp: put_slot_def)
  ultimately show ?thesis
    unfolding tree_grows_def tb using table_blocks_sub_blocks [OF ok] n(2) pg by blast
qed

text \<open>One round of the loop of \<^verbatim>\<open>map\<close>: the child table is there afterwards, and no leaf entry changes.\<close>

lemma ensure_table_spec:
  assumes ok: "tree_ok s t" and p: "t p = Some j" "upper p" "k < 512"
    and mem: "t (child p k) = None \<Longrightarrow> free_pages s \<noteq> {}"
  obtains s2 t2 j2 where "ensure_table (slot_addr s j k) s = Some s2" "tree_ok s2 t2" "t2 p = Some j"
    "t2 (child p k) = Some j2" "t2 Root = t Root" "page_addr s2 = page_addr s"
    "\<forall>a b n. n < 512 \<longrightarrow> leaf_of s2 t2 a b n = leaf_of s t a b n" "tree_grows s t s2 t2" "card (free_pages s) \<le> card (free_pages s2) + 1"
proof (cases "t (child p k)")
  case (Some j2)
  have "ensure_table (slot_addr s j k) s = Some s"
    using follow_link(1) [OF ok p Some] by (simp add: ensure_table_def)
  with Some ok p show ?thesis by (intro that [of s t j2]) (simp_all add: tree_grows_refl)
next
  case None
  note d = tree_okD [OF ok]
  obtain i where "i \<in> free_pages s" using mem [OF None] by auto
  then obtain n s1 where z: "zalloc 1 s = Some (page_addr s n, s1)" and n: "n < num_pages s" "(n, 1) \<notin> blocks s"
    and s1: "page_inv s1" "blocks s1 = insert (n, 1) (blocks s)" "num_pages s1 = num_pages s" "page_addr s1 = page_addr s"
    and bts: "\<forall>i < num_pages s. page_bytes s1 i = (if i = n then replicate 4096 0 else page_bytes s i)"
    and card: "card (free_pages s) \<le> card (free_pages s1) + 1" and m: "\<exists>m. s1 = s\<lparr>memory := m\<rparr>"
    by (rule zalloc_one [OF d(1)])
  let ?s2 = "put_slot j k (drop_bit 2 (page_addr s n) OR EntryBits_val Valid) s1" and ?t2 = "t(child p k := Some n)"
  note at = attach_table [OF ok p None s1 bts n]
  have "slot_addr s1 j k = slot_addr s j k" by (simp add: slot_addr_def s1(4))
  then have "ensure_table (slot_addr s j k) s = Some ?s2"
    using no_link [OF ok p None] z by (simp add: ensure_table_def put_slot_def entry_update_def set_entry_def)
  moreover have "child p k \<noteq> p" "child p k \<noteq> Root" using p(2) by (cases p; simp)+
  moreover have "j < num_pages s1" using d(5) [OF p(1)] s1(3) by simp
  moreover have "tree_grows s t ?s2 ?t2" by (rule tree_grows_attach [OF ok p(1,3) None s1 bts n m])
  ultimately show ?thesis
    using at card p s1 by (intro that [of ?s2 ?t2 n]) simp_all
qed

lemma map_walk_step:
  assumes ok: "tree_ok s t" and p: "t p = Some j" "upper p" "k < 512" and i: "i < 3"
    and mem: "t (child p k) = None \<Longrightarrow> free_pages s \<noteq> {}"
  obtains s2 t2 j2 where
    "map_walk va (i # is) (slot_addr s j k) s = map_walk va is (slot_addr s2 j2 (unat (vpn va i))) s2"
    "tree_ok s2 t2" "t2 (child p k) = Some j2" "t2 Root = t Root" "page_addr s2 = page_addr s"
    "\<forall>a b n. n < 512 \<longrightarrow> leaf_of s2 t2 a b n = leaf_of s t a b n" "tree_grows s t s2 t2" "card (free_pages s) \<le> card (free_pages s2) + 1"
proof -
  obtain s2 t2 j2 where e: "ensure_table (slot_addr s j k) s = Some s2" and s2: "tree_ok s2 t2" "t2 p = Some j"
    "t2 (child p k) = Some j2" "t2 Root = t Root" "page_addr s2 = page_addr s"
    "\<forall>a b n. n < 512 \<longrightarrow> leaf_of s2 t2 a b n = leaf_of s t a b n" "tree_grows s t s2 t2" "card (free_pages s) \<le> card (free_pages s2) + 1"
    by (rule ensure_table_spec [OF ok p mem])
  have "slot_addr s2 j k = slot_addr s j k" by (simp add: slot_addr_def s2(5))
  then have nx: "next_table (entry_at (memory s2) (slot_addr s j k)) = page_addr s2 j2"
    using follow_link(3) [OF s2(1,2) p(2,3) s2(3)] by simp
  have v: "page_addr s2 j2 + 8 * vpn va i = slot_addr s2 j2 (unat (vpn va i))" by (simp add: slot_addr_def)
  have "slot_addr s2 j2 (unat (vpn va i)) \<noteq> null_mut"
    using slot_region(4) [OF tree_okD(2,5) [OF s2(1)]] s2(3) vpn_lt [OF i] by (simp add: null_mut_def)
  then have "map_walk va (i # is) (slot_addr s j k) s = map_walk va is (slot_addr s2 j2 (unat (vpn va i))) s2"
    using e by (simp add: nx v)
  then show ?thesis using s2 by (intro that) simp_all
qed

text \<open>Writing a leaf.\<close>

lemma put_leaf:
  assumes ok: "tree_ok s t" and j: "t (L0 i k) = Some j" and n: "n < 512" and e: "leaf_ok e"
  shows "tree_ok (put_slot j n e s) t"
    "\<And>a b m. m < 512 \<Longrightarrow> leaf_of (put_slot j n e s) t a b m = (if a = i \<and> b = k \<and> m = n then e else leaf_of s t a b m)"
proof -
  note d = tree_okD [OF ok]
  have jn: "j < num_pages s" using d(5) [OF j] .
  have sl: "slot (put_slot j n e s) l m = (if l = j \<and> m = n then e else slot s l m)" if "l < num_pages s" "m < 512" for l m
    using slot_put_slot [OF d(2) jn that(1) n that(2)] .
  show leaf: "leaf_of (put_slot j n e s) t a b m = (if a = i \<and> b = k \<and> m = n then e else leaf_of s t a b m)" if "m < 512" for a b m
  proof (cases "t (L0 a b)")
    case (Some l)
    have "l = j \<longleftrightarrow> a = i \<and> b = k" using d(6) [OF j, of "L0 a b"] Some j by auto
    then show ?thesis using sl [OF d(5) [OF Some] that] Some by (simp add: leaf_of_def)
  qed (use j in \<open>auto simp: leaf_of_def\<close>)
  have links: "links_to (put_slot j n e s) (slot (put_slot j n e s) l m) (t (child q m))"
    if "t q = Some l" "upper q" "m < 512" for q l m
  proof -
    have "l \<noteq> j" using d(6) [OF j, of q] that(1,2) by (cases "l = j") auto
    then show ?thesis using sl [OF d(5) that(3)] that d(8) by simp
  qed
  show "tree_ok (put_slot j n e s) t"
    unfolding tree_ok_def put_slot_pages(2) [OF d(1) jn n]
  proof (intro conjI)
    show "page_inv (put_slot j n e s)" by (rule put_slot_pages(1) [OF d(1) jn n])
    show "\<forall>a b m. m < 512 \<longrightarrow> leaf_ok (leaf_of (put_slot j n e s) t a b m)" using leaf e d(9) by simp
    show "\<forall>p j' k. t p = Some j' \<longrightarrow> upper p \<longrightarrow> k < 512 \<longrightarrow>
        links_to (put_slot j n e s) (slot (put_slot j n e s) j' k) (t (child p k))" using links by blast
    show "t Root \<noteq> None" using d(3) by blast
    show "\<forall>p k. upper p \<longrightarrow> t (child p k) \<noteq> None \<longrightarrow> k < 512" using d(10) by (auto simp del: child.simps upper.simps)
    show "\<forall>p j. t p = Some j \<longrightarrow> (j, 1) \<in> blocks s" using d(4) by blast
    show "\<forall>p q j. t p = Some j \<longrightarrow> t q = Some j \<longrightarrow> p = q" by (intro allI impI) (rule d(6))
    show "\<forall>i k. t (L0 i k) \<noteq> None \<longrightarrow> t (L1 i) \<noteq> None" by (intro allI impI notI) (simp add: d(7))
  qed
qed


section \<open>Translation\<close>

definition pte_translate :: "usize \<Rightarrow> usize \<Rightarrow> usize option" where
  "pte_translate e va = (if bit e 0 then Some ((push_bit 2 e AND NOT 0xfff) OR (va AND 0xfff)) else None)"

definition vpns :: "usize \<Rightarrow> nat \<times> nat \<times> nat" where
  "vpns va = (unat (vpn va 2), unat (vpn va 1), unat (vpn va 0))"

lemma walk_branch:
  assumes ok: "tree_ok s t" and p: "t p = Some j" "upper p" "k < 512" and i: "i < 2"
  shows "walk (memory s) va (Suc i) (slot_addr s j k) =
     (case t (child p k) of None \<Rightarrow> Some None
      | Some j2 \<Rightarrow> walk (memory s) va i (slot_addr s j2 (unat (vpn va i))))"
proof (cases "t (child p k)")
  case None
  then show ?thesis using no_link [OF ok p None] by (simp add: walk.simps [of _ _ "Suc i"] is_invalid_def)
next
  case (Some j2)
  have v: "page_addr s j2 + 8 * vpn va i = slot_addr s j2 (unat (vpn va i))" by (simp add: slot_addr_def)
  have "slot_addr s j2 (unat (vpn va i)) \<noteq> null_mut"
    using slot_region(4) [OF tree_okD(2,5) [OF ok]] Some vpn_lt [of i va] i by (simp add: null_mut_def)
  then show ?thesis
    using follow_link [OF ok p Some] Some v by (simp add: walk.simps [of _ _ "Suc i"] is_invalid_def)
qed

lemma walk_leaf:
  assumes "leaf_ok (slot s j k)"
  shows "walk (memory s) va 0 (slot_addr s j k) = Some (pte_translate (slot s j k) va)"
proof -
  let ?e = "entry_at (memory s) (slot_addr s j k)"
  have e: "entry ?e = slot s j k" by (simp add: entry_at_def slot_def)
  have m: "push_bit (12 + 0 * 9) 1 - 1 = (0xfff :: usize)" by (simp add: push_bit_eq_mult)
  show ?thesis
  proof (cases "bit (slot s j k) 0")
    case True
    then have "is_leaf ?e" using assms e by (simp add: leaf_ok_def is_leaf_def get_entry_def)
    then show ?thesis
      unfolding walk.simps [of _ _ 0] m Let_def
      using True e by (simp add: is_invalid_def is_valid_bit pte_translate_def get_entry_def)
  next
    case False
    then show ?thesis
      unfolding walk.simps [of _ _ 0] using e by (simp add: is_invalid_def is_valid_bit pte_translate_def)
  qed
qed

lemma virt_to_phys_tree:
  assumes ok: "tree_ok s t" and r: "t Root = Some r"
  shows "virt_to_phys (page_addr s r) va s =
    Some (pte_translate (case vpns va of (i, k, n) \<Rightarrow> leaf_of s t i k n) va)"
proof -
  let ?i = "unat (vpn va 2)" and ?k = "unat (vpn va 1)" and ?n = "unat (vpn va 0)"
  have lt: "?i < 512" "?k < 512" "?n < 512" by (rule vpn_lt; simp)+
  have "virt_to_phys (page_addr s r) va s = walk (memory s) va (Suc 1) (slot_addr s r ?i)"
    by (simp add: virt_to_phys_def slot_addr_def numeral_2_eq_2)
  also have "\<dots> = (case t (L1 ?i) of None \<Rightarrow> Some None | Some j \<Rightarrow> walk (memory s) va (Suc 0) (slot_addr s j ?k))"
    using walk_branch [OF ok r _ lt(1), of 1 va] by (simp only: child.simps upper.simps One_nat_def)
  also have "\<dots> = Some (pte_translate (leaf_of s t ?i ?k ?n) va)"
  proof (cases "t (L1 ?i)")
    case None
    then show ?thesis using tree_okD(7) [OF ok None] by (simp add: leaf_of_def pte_translate_def)
  next
    case (Some j)
    have "walk (memory s) va (Suc 0) (slot_addr s j ?k) =
       (case t (L0 ?i ?k) of None \<Rightarrow> Some None | Some l \<Rightarrow> walk (memory s) va 0 (slot_addr s l ?n))"
      using walk_branch [OF ok Some _ lt(2), of 0 va] by simp
    also have "\<dots> = Some (pte_translate (leaf_of s t ?i ?k ?n) va)"
    proof (cases "t (L0 ?i ?k)")
      case None
      then show ?thesis by (simp add: leaf_of_def pte_translate_def)
    next
      case (Some l)
      then have "leaf_ok (slot s l ?n)" using tree_okD(9) [OF ok lt(3), of ?i ?k] by (simp add: leaf_of_def)
      from walk_leaf [OF this] show ?thesis using Some by (simp add: leaf_of_def)
    qed
    finally show ?thesis using Some by simp
  qed
  finally show ?thesis by (simp add: vpns_def)
qed

text \<open>The leaf \<^verbatim>\<open>map\<close> writes translates to the page asked for.\<close>

lemma ppn_bits:
  "ppn pa 0 = take_bit 9 (drop_bit 12 pa)" "ppn pa 1 = take_bit 9 (drop_bit 21 pa)" "ppn pa 2 = take_bit 26 (drop_bit 30 pa)"
  by (simp_all add: ppn_def mask_literals take_bit_eq_mask)

lemma bit_leaf_entry:
  "bit (leaf_entry pa bits) n \<longleftrightarrow> n < 64 \<and>
     ((10 \<le> n \<and> n < 54 \<and> bit pa (n + 2)) \<or> bit bits n \<or> n = 0 \<or> n = 7 \<or> n = 6)"
proof -
  have p: "bit (push_bit k (1 :: usize)) n \<longleftrightarrow> n < 64 \<and> n = k" for k
    by (auto simp only: bit_push_bit_iff bit_1_iff possible_bit_word) (auto simp: bit_push_bit_iff bit_1_iff)
  have a: "28 \<le> n \<Longrightarrow> 30 + (n - 28) = n + 2" "19 \<le> n \<Longrightarrow> 21 + (n - 19) = n + 2" "10 \<le> n \<Longrightarrow> 12 + (n - 10) = n + 2" by simp_all
  have "bit (leaf_entry pa bits) n \<longleftrightarrow> n < 64 \<and>
     ((28 \<le> n \<and> n - 28 < 26 \<and> bit pa (30 + (n - 28))) \<or> (19 \<le> n \<and> n - 19 < 9 \<and> bit pa (21 + (n - 19)))
      \<or> (10 \<le> n \<and> n - 10 < 9 \<and> bit pa (12 + (n - 10))) \<or> bit bits n \<or> n = 0 \<or> n = 7 \<or> n = 6)"
    unfolding leaf_entry_def ppn_bits EntryBits_val.simps bit_or_iff p
    unfolding bit_push_bit_iff bit_take_bit_iff bit_drop_bit_eq o_apply
    using bit_imp_le_length [of bits n] by auto
  then show ?thesis using a by auto
qed

lemma leaf_entry_ok: "bits AND 0xe \<noteq> 0 \<Longrightarrow> leaf_ok (leaf_entry pa bits)"
proof -
  assume "bits AND 0xe \<noteq> 0"
  then obtain n where "bit bits n" "bit (0xe :: usize) n" by (auto simp: bit_eq_iff bit_and_iff)
  then have "bit (leaf_entry pa bits AND 0xe) n"
    using bit_imp_le_length [of bits n] by (simp only: bit_and_iff bit_leaf_entry) auto
  then show ?thesis by (auto simp: leaf_ok_def)
qed

lemma leaf_entry_translate:
  assumes "unat bits < 1024"
  shows "pte_translate (leaf_entry pa bits) va = Some ((take_bit 56 pa AND NOT 0xfff) OR (va AND 0xfff))"
proof -
  have "take_bit 10 bits = bits"
    using assms by (simp add: word_unat_eq_iff unsigned_take_bit_eq take_bit_nat_eq_self)
  then have small: "bit bits n \<Longrightarrow> n < 10" for n by (metis bit_take_bit_iff)
  have "push_bit 2 (leaf_entry pa bits) AND NOT 0xfff = take_bit 56 pa AND NOT 0xfff"
  proof (rule bit_word_eqI)
    fix n assume "n < LENGTH(64)"
    moreover have "12 \<le> n \<Longrightarrow> n - 2 + 2 = n" by simp
    ultimately show "bit (push_bit 2 (leaf_entry pa bits) AND NOT 0xfff) n = bit (take_bit 56 pa AND NOT 0xfff) n"
      using small [of "n - 2"]
      unfolding mask_literals bit_and_iff bit_not_iff bit_mask_iff bit_push_bit_iff bit_leaf_entry bit_take_bit_iff
      by (cases "12 \<le> n") auto
  qed
  moreover have "bit (leaf_entry pa bits) 0" by (simp add: bit_leaf_entry)
  ultimately show ?thesis by (simp add: pte_translate_def)
qed


section \<open>What map does\<close>

lemma map_page_tree:
  assumes ok: "tree_ok s t" and r: "t Root = Some r" and bits: "bits AND 0xe \<noteq> 0" and mem: "2 \<le> card (free_pages s)"
  shows "\<exists>s' t'. map_page (page_addr s r) va pa bits 0 s = Some s' \<and> tree_ok s' t' \<and> t' Root = Some r
     \<and> page_addr s' = page_addr s \<and> (\<forall>i k n. n < 512 \<longrightarrow>
         leaf_of s' t' i k n = (if (i, k, n) = vpns va then leaf_entry pa bits else leaf_of s t i k n))
     \<and> tree_grows s t s' t' \<and> card (free_pages s) \<le> card (free_pages s') + 2"
proof -
  let ?i = "unat (vpn va 2)" and ?k = "unat (vpn va 1)" and ?n = "unat (vpn va 0)"
  have lt: "?i < 512" "?k < 512" "?n < 512" by (rule vpn_lt; simp)+
  have u: "upper Root" "upper (L1 ?i)" "(1 :: nat) < 3" "(0 :: nat) < 3" by simp_all
  have f1: "t (child Root ?i) = None \<Longrightarrow> free_pages s \<noteq> {}" using mem by auto
  obtain s1 t1 j1 where
    m1: "map_walk va [1, 0] (slot_addr s r ?i) s = map_walk va [0] (slot_addr s1 j1 ?k) s1"
    and s1: "tree_ok s1 t1" "t1 (child Root ?i) = Some j1" "t1 Root = t Root" "page_addr s1 = page_addr s"
      "\<forall>a b n. n < 512 \<longrightarrow> leaf_of s1 t1 a b n = leaf_of s t a b n" "tree_grows s t s1 t1" "card (free_pages s) \<le> card (free_pages s1) + 1"
    by (rule map_walk_step [OF ok r u(1) lt(1) u(3) f1])
  have t1: "t1 (L1 ?i) = Some j1" using s1(2) by simp
  have f2: "t1 (child (L1 ?i) ?k) = None \<Longrightarrow> free_pages s1 \<noteq> {}" using mem s1(7) by auto
  obtain s2 t2 j2 where
    m2: "map_walk va [0] (slot_addr s1 j1 ?k) s1 = map_walk va [] (slot_addr s2 j2 ?n) s2"
    and s2: "tree_ok s2 t2" "t2 (child (L1 ?i) ?k) = Some j2" "t2 Root = t1 Root" "page_addr s2 = page_addr s1"
      "\<forall>a b n. n < 512 \<longrightarrow> leaf_of s2 t2 a b n = leaf_of s1 t1 a b n"
      "tree_grows s1 t1 s2 t2" "card (free_pages s1) \<le> card (free_pages s2) + 1"
    by (rule map_walk_step [OF s1(1) t1 u(2) lt(2) u(4) f2])
  let ?s' = "put_slot j2 ?n (leaf_entry pa bits) s2"
  have t2: "t2 (L0 ?i ?k) = Some j2" using s2(2) by simp
  note pl = put_leaf [OF s2(1) t2 lt(3) leaf_entry_ok [OF bits, of pa]]
  have "rev [unat (0 :: usize)..<2] = [1, 0]" by (simp add: numeral_2_eq_2)
  moreover have "page_addr s r + 8 * vpn va 2 = slot_addr s r ?i" by (simp add: slot_addr_def)
  ultimately have "map_page (page_addr s r) va pa bits 0 s = Some ?s'"
    using m1 m2 bits by (simp add: map_page_def put_slot_def entry_update_def set_entry_def)
  moreover have "\<forall>i k n. n < 512 \<longrightarrow>
      leaf_of ?s' t2 i k n = (if (i, k, n) = vpns va then leaf_entry pa bits else leaf_of s t i k n)"
    using pl(2) s1(5) s2(5) by (auto simp: vpns_def)
  moreover have "tree_grows s t ?s' t2"
    using tree_grows_trans [OF tree_grows_trans [OF s1(6) s2(6)] tree_grows_put_slot [OF s2(1) t2 lt(3)]] .
  moreover have "free_pages ?s' = free_pages s2" using tree_okD(1,5) [OF s2(1)] t2 lt(3) by simp
  ultimately show ?thesis using pl(1) s1(3,4,7) s2(3,4,7) r by (intro exI [of _ ?s'] exI [of _ t2]) simp
qed

text \<open>The leaf entries after one call, as translations.\<close>

lemma leaves_translate:
  assumes t: "tree_ok s t" "t Root = Some r" and t': "tree_ok s' t'" "t' Root = Some r" "page_addr s' = page_addr s"
    and leaf: "\<forall>i k n. n < 512 \<longrightarrow> leaf_of s' t' i k n = (if (i, k, n) = vpns v then leaf_entry pa bits else leaf_of s t i k n)"
    and bits: "unat bits < 1024"
  shows "virt_to_phys (page_addr s r) va s' =
    (if vpns va = vpns v then Some (Some ((take_bit 56 pa AND NOT 0xfff) OR (va AND 0xfff))) else virt_to_phys (page_addr s r) va s)"
proof -
  obtain i k n where v: "vpns va = (i, k, n)" by (cases "vpns va")
  have n: "n < 512" using v vpn_lt [of 0 va] by (auto simp: vpns_def)
  have "leaf_of s' t' i k n = (if vpns va = vpns v then leaf_entry pa bits else leaf_of s t i k n)"
    using leaf n v by auto
  then show ?thesis
    using virt_to_phys_tree [OF t'(1,2), of va] virt_to_phys_tree [OF t, of va] leaf_entry_translate [OF bits, of pa va] v t'(3)
    by auto
qed

section \<open>What unmap does\<close>

text \<open>Freeing a table takes its block away and leaves the contents of all pages.\<close>

definition same_pages :: "'a page_st_scheme \<Rightarrow> 'a page_st_scheme \<Rightarrow> bool" where
  "same_pages s s' \<longleftrightarrow> page_inv s' \<and> num_pages s' = num_pages s \<and> page_addr s' = page_addr s
     \<and> (\<forall>j < num_pages s. page_bytes s' j = page_bytes s j)"

lemma same_pages_slot:
  "same_pages s s' \<Longrightarrow> j < num_pages s \<Longrightarrow> k < 512 \<Longrightarrow> slot s' j k = slot s j k \<and> slot_addr s' j k = slot_addr s j k"
  by (auto simp: same_pages_def slot_addr_def intro: slot_cong)

lemma dealloc_table:
  assumes "same_pages s s1" and "(j, 1) \<in> blocks s1"
  shows "\<exists>s2. dealloc (page_addr s j) s1 = Some s2 \<and> same_pages s s2 \<and> blocks s2 = blocks s1 - {(j, 1)}"
  using pages.put_block [of s1 j 1] assms by (auto simp: same_pages_def)

text \<open>The blocks of the level-0 tables below entry \<open>i\<close> at index less than \<open>k\<close>, and of the level-1 subtrees before \<open>i\<close>.\<close>

definition l0_blocks :: "tree \<Rightarrow> nat \<Rightarrow> nat \<Rightarrow> (nat \<times> nat) set" where
  "l0_blocks t i k = {(j, 1) |j b. b < k \<and> t (L0 i b) = Some j}"

definition sub_blocks :: "tree \<Rightarrow> nat \<Rightarrow> (nat \<times> nat) set" where
  "sub_blocks t i = (\<Union>a < i. {(j, 1) |j. t (L1 a) = Some j} \<union> l0_blocks t a 512)"

lemma entry_at_slot: "entry_at (memory s) (slot_addr s j k) = \<lparr>entry = slot s j k\<rparr>"
  by (simp add: entry_at_def slot_def)

lemma entry_of_tree:
  assumes ok: "tree_ok s t" and p: "t p = Some j" "upper p" "k < 512"
  shows "case t (child p k) of
      None \<Rightarrow> \<not> is_valid \<lparr>entry = slot s j k\<rparr>
    | Some l \<Rightarrow> is_valid \<lparr>entry = slot s j k\<rparr> \<and> is_branch \<lparr>entry = slot s j k\<rparr> \<and> next_table \<lparr>entry = slot s j k\<rparr> = page_addr s l"
  using follow_link [OF ok p] no_link [OF ok p]
  by (auto simp: entry_at_slot is_branch_def split: option.split)

lemma unmap_lv1_step:
  assumes ok: "tree_ok s t" and j: "t (L1 i) = Some j" and k: "k < 512"
    and s1: "same_pages s s1" "l0_blocks t i 512 - l0_blocks t i k \<subseteq> blocks s1"
  shows "\<exists>s2. unmap_lv1 (page_addr s j) k s1 = Some s2 \<and> same_pages s s2
    \<and> blocks s2 = blocks s1 - (l0_blocks t i (Suc k) - l0_blocks t i k)"
proof -
  note d = tree_okD [OF ok]
  have sl: "slot s1 j k = slot s j k" "slot_addr s1 j k = slot_addr s j k"
    using same_pages_slot [OF s1(1) d(5) [OF j] k] by simp_all
  have e: "entry_at (memory s1) (page_addr s j + 8 * of_nat k) = \<lparr>entry = slot s j k\<rparr>"
    using entry_at_slot [of s1 j k] sl by (simp add: slot_addr_def)
  show ?thesis
  proof (cases "t (L0 i k)")
    case None
    then have "l0_blocks t i (Suc k) = l0_blocks t i k" by (auto simp: l0_blocks_def less_Suc_eq)
    then show ?thesis
      using entry_of_tree [OF ok j _ k] None s1(1) e by (simp add: unmap_lv1_def)
  next
    case (Some l)
    have nin: "(l, 1) \<notin> l0_blocks t i k"
      using d(6) [OF Some] by (auto simp: l0_blocks_def)
    have eq: "l0_blocks t i (Suc k) - l0_blocks t i k = {(l, 1)}"
      using nin Some by (auto simp: l0_blocks_def less_Suc_eq)
    have "(l, 1) \<in> l0_blocks t i 512" using Some k by (auto simp: l0_blocks_def)
    then have "(l, 1) \<in> blocks s1" using s1(2) nin by blast
    then obtain s2 where "dealloc (page_addr s l) s1 = Some s2" "same_pages s s2" "blocks s2 = blocks s1 - {(l, 1)}"
      using dealloc_table [OF s1(1)] by blast
    then show ?thesis using entry_of_tree [OF ok j _ k] Some e by (simp add: unmap_lv1_def eq)
  qed
qed


lemma l0_blocks_mono: "l0_blocks t i k \<subseteq> l0_blocks t i (Suc k)"
  by (auto simp: l0_blocks_def intro: less_SucI)

lemma unmap_inner:
  assumes ok: "tree_ok s t" and j: "t (L1 i) = Some j"
    and s1: "same_pages s s1" "l0_blocks t i 512 \<subseteq> blocks s1"
  shows "\<exists>s2. for_each (unmap_lv1 (page_addr s j)) [0..<512] s1 = Some s2 \<and> same_pages s s2
    \<and> blocks s2 = blocks s1 - l0_blocks t i 512"
proof (rule for_each_upt_invariant [of "\<lambda>k s2. same_pages s s2 \<and> blocks s2 = blocks s1 - l0_blocks t i k"])
  fix k s2 assume k: "k < 512" and s2: "same_pages s s2 \<and> blocks s2 = blocks s1 - l0_blocks t i k"
  then have "l0_blocks t i 512 - l0_blocks t i k \<subseteq> blocks s2" using s1(2) by blast
  from unmap_lv1_step [OF ok j k conjunct1 [OF s2] this]
  show "\<exists>s'. unmap_lv1 (page_addr s j) k s2 = Some s' \<and> same_pages s s' \<and> blocks s' = blocks s1 - l0_blocks t i (Suc k)"
    using s2 l0_blocks_mono [of t i k] by fastforce
qed (use s1 in \<open>auto simp: l0_blocks_def\<close>)

lemma sub_blocks_Suc:
  "sub_blocks t (Suc i) = sub_blocks t i \<union> ({(j, 1) |j. t (L1 i) = Some j} \<union> l0_blocks t i 512)"
  by (simp add: sub_blocks_def lessThan_Suc Un_commute)

lemma tables_apart:
  assumes ok: "tree_ok s t"
  shows "l0_blocks t i 512 \<inter> sub_blocks t i = {}" "t (L1 i) = Some j \<Longrightarrow> (j, 1) \<notin> sub_blocks t i"
    "t (L1 i) = Some j \<Longrightarrow> (j, 1) \<notin> l0_blocks t i k" "l0_blocks t i k \<subseteq> blocks s"
  using tree_okD(4,6) [OF ok] by (fastforce simp: sub_blocks_def l0_blocks_def)+

lemma unmap_lv2_step:
  assumes ok: "tree_ok s t" and r: "t Root = Some r" and i: "i < 512"
    and s1: "same_pages s s1" "blocks s1 = blocks s - sub_blocks t i"
  shows "\<exists>s2. unmap_lv2 (page_addr s r) i s1 = Some s2 \<and> same_pages s s2 \<and> blocks s2 = blocks s - sub_blocks t (Suc i)"
proof -
  note d = tree_okD [OF ok] and ap = tables_apart [OF ok]
  have e: "entry_at (memory s1) (page_addr s r + 8 * of_nat i) = \<lparr>entry = slot s r i\<rparr>"
    using entry_at_slot [of s1 r i] same_pages_slot [OF s1(1) d(5) [OF r] i] by (simp add: slot_addr_def)
  show ?thesis
  proof (cases "t (L1 i)")
    case None
    then have "sub_blocks t (Suc i) = sub_blocks t i"
      using d(7) [OF None] by (auto simp: sub_blocks_Suc l0_blocks_def)
    then show ?thesis
      using entry_of_tree [OF ok r _ i] None s1 e by (simp add: unmap_lv2_def)
  next
    case (Some j)
    obtain s2 where s2: "for_each (unmap_lv1 (page_addr s j)) [0..<512] s1 = Some s2" "same_pages s s2"
      "blocks s2 = blocks s1 - l0_blocks t i 512"
      using unmap_inner [OF ok Some s1(1)] s1(2) ap(1,4) by blast
    have "(j, 1) \<in> blocks s2" using s2(3) s1(2) d(4) [OF Some] ap(2,3) [OF Some] by simp
    then obtain s3 where "dealloc (page_addr s j) s2 = Some s3" "same_pages s s3" "blocks s3 = blocks s2 - {(j, 1)}"
      using dealloc_table [OF s2(2)] by blast
    moreover have "page_addr s j \<noteq> null_mut"
      using page_addr_nonzero [OF d(2) d(5) [OF Some]] by (simp add: null_mut_def)
    moreover have "blocks s2 - {(j, 1)} = blocks s - sub_blocks t (Suc i)"
      using Some s2(3) s1(2) by (auto simp: sub_blocks_Suc)
    ultimately show ?thesis
      using entry_of_tree [OF ok r _ i] Some e s2(1) by (simp add: unmap_lv2_def Table_len_def)
  qed
qed

lemma unmap_tree:
  assumes ok: "tree_ok s t" and r: "t Root = Some r"
  shows "\<exists>s'. unmap (page_addr s r) s = Some s' \<and> same_pages s s' \<and> blocks s' = blocks s - sub_blocks t 512"
  unfolding unmap_def Table_len_def
proof (rule for_each_upt_invariant [of "\<lambda>i s1. same_pages s s1 \<and> blocks s1 = blocks s - sub_blocks t i"])
  fix i s1 assume "i < 512" "same_pages s s1 \<and> blocks s1 = blocks s - sub_blocks t i"
  then show "\<exists>s'. unmap_lv2 (page_addr s r) i s1 = Some s' \<and> same_pages s s' \<and> blocks s' = blocks s - sub_blocks t (Suc i)"
    using unmap_lv2_step [OF ok r] by blast
qed (use tree_okD(1) [OF ok] in \<open>simp_all add: same_pages_def sub_blocks_def\<close>)

lemma sub_blocks_all:
  assumes ok: "tree_ok s t"
  shows "sub_blocks t 512 = {(j, 1) |j p. p \<noteq> Root \<and> t p = Some j}"
proof -
  note d = tree_okD [OF ok]
  have l1: "i < 512" if "t (L1 i) = Some j" for i j using d(10) [of Root i j] that by simp
  have l0: "i < 512" "k < 512" if "t (L0 i k) = Some j" for i j k
    using d(10) [of "L1 i" k j] d(7) [of i k] l1 that by (cases "t (L1 i)", auto)
  have "{(j, 1) |j p. p \<noteq> Root \<and> t p = Some j} \<subseteq> sub_blocks t 512"
  proof clarify
    fix j p assume "p \<noteq> Root" "t p = Some j"
    then show "(j, 1) \<in> sub_blocks t 512"
      by (cases p) (auto simp: sub_blocks_def l0_blocks_def dest: l0 l1)
  qed
  then show ?thesis by (auto simp: sub_blocks_def l0_blocks_def)
qed


section \<open>Properties\<close>

text \<open>A heap of eight pages whose first page holds an empty root table.\<close>

definition example_tables :: page_st where
  "example_tables = take_run 0 1 example_heap"

definition example_tree :: tree where
  "example_tree = (\<lambda>p. if p = Root then Some 0 else None)"

lemma example_tables_basic:
  "page_inv example_tables" "blocks example_tables = {(0, 1)}" "num_pages example_tables = 8"
  "page_addr example_tables 0 = 0x11000"
proof -
  have f: "free_run example_heap 1 0" by (simp add: free_run_def)
  show "page_inv example_tables" "blocks example_tables = {(0, 1)}" "num_pages example_tables = 8"
    using page_inv_take_run [of example_heap 1 0] blocks_take_run [of example_heap 1 0] f example_heap_inv
    by (simp_all add: example_tables_def)
  show "page_addr example_tables 0 = 0x11000"
    by (simp add: example_tables_def page_addr_def example_heap_def)
qed

lemma example_tree_ok: "tree_ok example_tables example_tree"
proof -
  have geo: "page_geometry example_heap" using example_heap_inv(1) by (simp add: page_inv_def)
  have "page_bytes example_tables 0 = page_bytes example_heap 0"
    unfolding example_tables_def using geo by (intro page_bytes_take_run) simp_all
  also have "\<dots> = replicate 4096 0"
    by (rule nth_equalityI) (simp_all only: page_bytes_def length_load_bytes length_replicate nth_load_bytes nth_replicate, simp add: example_heap_def)
  finally have "slot example_tables 0 k = 0" if "k < 512" for k using that by (rule slot_zero)
  then show ?thesis
    using example_tables_basic(1,2)
    by (auto simp: tree_ok_def example_tree_def links_to_def leaf_of_def leaf_ok_def split: if_splits elim: upper.elims)
qed

lemma example_free_pages: "2 \<le> card (free_pages example_tables)"
proof -
  have "{1, 2} \<subseteq> free_pages example_tables" using example_tables_basic(2,3) by (auto simp: free_pages_def)
  then have "card {1, 2 :: nat} \<le> card (free_pages example_tables)" by (intro card_mono) simp_all
  then show ?thesis by simp
qed

text \<open>
  C5: \<^verbatim>\<open>map\<close> then \<^verbatim>\<open>virt_to_phys\<close>. On a well-formed tree of page tables with memory for the
  tables that may be missing, mapping a page always returns and keeps the tree well formed;
  afterwards every address of that virtual page translates to the same offset in the
  physical page, and every other address translates (or faults) as before.
\<close>
theorem map_translates:
  assumes "tree_ok s t" and "t Root = Some r" and "bits AND 0xe \<noteq> 0" and "unat bits < 1024" and "2 \<le> card (free_pages s)"
  shows "\<exists>s' t'. map_page (page_addr s r) vaddr paddr bits 0 s = Some s' \<and> tree_ok s' t' \<and> t' Root = Some r
    \<and> (\<forall>va. virt_to_phys (page_addr s r) va s' =
         (if vpns va = vpns vaddr then Some (Some ((take_bit 56 paddr AND NOT 0xfff) OR (va AND 0xfff)))
          else virt_to_phys (page_addr s r) va s))"
proof -
  obtain s' t' where mp: "map_page (page_addr s r) vaddr paddr bits 0 s = Some s'"
    and m: "tree_ok s' t'" "t' Root = Some r" "page_addr s' = page_addr s"
    and lf: "\<forall>i k n. n < 512 \<longrightarrow> leaf_of s' t' i k n = (if (i, k, n) = vpns vaddr then leaf_entry paddr bits else leaf_of s t i k n)"
    using map_page_tree [OF assms(1-3,5)] by blast
  have "virt_to_phys (page_addr s r) va s' =
      (if vpns va = vpns vaddr then Some (Some ((take_bit 56 paddr AND NOT 0xfff) OR (va AND 0xfff)))
       else virt_to_phys (page_addr s r) va s)" for va
    by (rule leaves_translate [OF assms(1,2) m lf assms(4)])
  with mp m show ?thesis by blast
qed

theorem map_translates_witness:
  "\<exists>s'. map_page 0x11000 0x20000000 0x80000000 (EntryBits_val UserReadWrite) 0 example_tables = Some s'
     \<and> virt_to_phys 0x11000 0x20000123 s' = Some (Some 0x80000123)"
proof -
  have b: "EntryBits_val UserReadWrite = 0x16" by simp
  have r: "example_tree Root = Some 0" by (simp add: example_tree_def)
  have v: "vpns 0x20000123 = vpns 0x20000000" by (simp add: vpns_def vpn_def)
  have nz: "(0x16 :: usize) AND 0xe \<noteq> 0" "unat (0x16 :: usize) < 1024" by simp_all
  have t: "(take_bit 56 0x80000000 AND NOT 0xfff) OR (0x20000123 AND 0xfff) = (0x80000123 :: usize)" by simp
  obtain s' where "map_page 0x11000 0x20000000 0x80000000 0x16 0 example_tables = Some s'"
    and "\<forall>va. virt_to_phys 0x11000 va s' =
         (if vpns va = vpns 0x20000000 then Some (Some ((take_bit 56 0x80000000 AND NOT 0xfff) OR (va AND 0xfff)))
          else virt_to_phys 0x11000 va example_tables)"
    using map_translates [OF example_tree_ok r nz example_free_pages, where vaddr = "0x20000000" and paddr = "0x80000000"]
    unfolding example_tables_basic(4) by blast
  then show ?thesis unfolding b using v t by metis
qed

text \<open>
  \<^verbatim>\<open>unmap\<close> gives back exactly the tables below the root: it returns, the page allocator
  stays well formed, the blocks of all level-1 and level-0 tables of the tree and no
  others (in particular not the root) are freed, and no page contents change.
\<close>
lemma unmap_frees_tables:
  assumes "tree_ok s t" and "t Root = Some r"
  shows "\<exists>s'. unmap (page_addr s r) s = Some s' \<and> page_inv s'
    \<and> blocks s' = blocks s - {(j, 1) |j p. p \<noteq> Root \<and> t p = Some j} \<and> (r, 1) \<in> blocks s'
    \<and> (\<forall>j < num_pages s. page_bytes s' j = page_bytes s j)"
proof -
  obtain s' where s': "unmap (page_addr s r) s = Some s'" "same_pages s s'" "blocks s' = blocks s - sub_blocks t 512"
    using unmap_tree [OF assms] by blast
  moreover have "(r, 1) \<in> blocks s - {(j, 1) |j p. p \<noteq> Root \<and> t p = Some j}"
    using tree_okD(4,6) [OF assms(1)] assms(2) by fastforce
  ultimately show ?thesis unfolding sub_blocks_all [OF assms(1)] by (auto simp: same_pages_def)
qed

text \<open>
  \<^verbatim>\<open>map\<close> does not notice that the page allocator is out of memory. When a table is missing
  and \<^verbatim>\<open>zalloc\<close> returns null, the entry is made valid all the same, as a branch to a table
  at address 0, and the walk goes on from there.
\<close>
lemma map_out_of_memory:
  assumes "\<not> is_valid (entry_at (memory s) v)" and "zalloc 1 s = Some (null_mut, s')"
  shows "\<exists>s''. ensure_table v s = Some s'' \<and> is_valid (entry_at (memory s'') v)
    \<and> next_table (entry_at (memory s'') v) = null_mut"
  using assms branch_entry(1,3) [of 0]
  by (simp add: ensure_table_def entry_update_def set_entry_def entry_at_def null_mut_def)

end
