(* ===== verification/Kmem.thy ===== *)
theory Kmem
  imports Page_Alloc
begin

text \<open>
  \<^verbatim>\<open>kmem.rs\<close>: the byte-grained kernel heap behind \<^verbatim>\<open>kmalloc\<close>/\<^verbatim>\<open>kfree\<close> and Rust's
  global allocator. The heap is one run of pages tiled by chunks; each chunk starts with an
  8-byte header that holds its size and, in bit 63, whether it is taken. The operations work
  on the bytes of memory; the lemmas relate them to operations on the list of chunks.
\<close>

section \<open>Chunk headers\<close>

definition AllocListFlags_Taken :: usize where
  "AllocListFlags_Taken = push_bit 63 1"

record AllocList =
  flags_size :: usize

definition al_is_taken :: "AllocList \<Rightarrow> bool" where
  "al_is_taken l \<longleftrightarrow> flags_size l AND AllocListFlags_Taken \<noteq> 0"

definition al_is_free :: "AllocList \<Rightarrow> bool" where
  "al_is_free l \<longleftrightarrow> \<not> al_is_taken l"

definition al_set_taken :: "AllocList \<Rightarrow> AllocList" where
  "al_set_taken l = l\<lparr>flags_size := flags_size l OR AllocListFlags_Taken\<rparr>"

definition al_set_free :: "AllocList \<Rightarrow> AllocList" where
  "al_set_free l = l\<lparr>flags_size := flags_size l AND NOT AllocListFlags_Taken\<rparr>"

definition al_set_size :: "usize \<Rightarrow> AllocList \<Rightarrow> AllocList" where
  "al_set_size sz l =
     (let k = al_is_taken l;
          l = l\<lparr>flags_size := sz AND NOT AllocListFlags_Taken\<rparr>
      in if k then l\<lparr>flags_size := flags_size l OR AllocListFlags_Taken\<rparr> else l)"

definition al_get_size :: "AllocList \<Rightarrow> usize" where
  "al_get_size l = flags_size l AND NOT AllocListFlags_Taken"

text \<open>Access through a \<^verbatim>\<open>*mut AllocList\<close>; \<^verbatim>\<open>size_of::<AllocList>()\<close> is 8.\<close>

definition alist_at :: "mem \<Rightarrow> usize \<Rightarrow> AllocList" where
  "alist_at m p = \<lparr>flags_size = load64 m p\<rparr>"

definition alist_update :: "(AllocList \<Rightarrow> AllocList) \<Rightarrow> usize \<Rightarrow> mem \<Rightarrow> mem" where
  "alist_update f p m = store64 m p (flags_size (f (alist_at m p)))"

section \<open>Operations\<close>

record kmem_st = page_st +
  KMEM_HEAD :: usize
  KMEM_ALLOC :: usize
  KMEM_PAGE_TABLE :: usize

definition get_head :: "'a kmem_st_scheme \<Rightarrow> usize" where "get_head s = KMEM_HEAD s"
definition get_page_table :: "'a kmem_st_scheme \<Rightarrow> usize" where "get_page_table s = KMEM_PAGE_TABLE s"
definition get_num_allocations :: "'a kmem_st_scheme \<Rightarrow> usize" where "get_num_allocations s = KMEM_ALLOC s"

definition kmem_init :: "'a kmem_st_scheme \<Rightarrow> 'a kmem_st_scheme option" where
  "kmem_init s = do {
     let s = s\<lparr>KMEM_ALLOC := 2048\<rparr>;
     (k_alloc, s) \<leftarrow> zalloc (KMEM_ALLOC s) s;
     assert_that (k_alloc \<noteq> null_mut);
     let s = s\<lparr>KMEM_HEAD := k_alloc\<rparr>;
     let s = s\<lparr>memory := alist_update al_set_free (KMEM_HEAD s) (memory s)\<rparr>;
     sz \<leftarrow> umul (KMEM_ALLOC s) PAGE_SIZE;
     let s = s\<lparr>memory := alist_update (al_set_size sz) (KMEM_HEAD s) (memory s)\<rparr>;
     (pt, s) \<leftarrow> zalloc 1 s;
     Some (s\<lparr>KMEM_PAGE_TABLE := pt\<rparr>)
   }"

text \<open>
  The search loop of \<^verbatim>\<open>kmalloc\<close>. A header of size 0 makes it spin on the same chunk, so the
  loop is a partial function: \<open>None\<close> is "does not return".
\<close>

partial_function (option) kmalloc_loop :: "usize \<Rightarrow> usize \<Rightarrow> usize \<Rightarrow> mem \<Rightarrow> (usize \<times> mem) option" where
  "kmalloc_loop csize tail head m =
     (if head < tail then
        if al_is_free (alist_at m head) \<and> csize \<le> al_get_size (alist_at m head) then
          (let chunk_size = al_get_size (alist_at m head);
               rem = chunk_size - csize;
               m = alist_update al_set_taken head m
           in if rem > 8 then
                (let nxt = head + csize;
                     m = alist_update al_set_free nxt m;
                     m = alist_update (al_set_size rem) nxt m;
                     m = alist_update (al_set_size csize) head m
                 in Some (head + 8, m))
              else
                (let m = alist_update (al_set_size chunk_size) head m
                 in Some (head + 8, m)))
        else kmalloc_loop csize tail (head + al_get_size (alist_at m head)) m
      else Some (null_mut, m))"

definition kmalloc :: "usize \<Rightarrow> 'a kmem_st_scheme \<Rightarrow> (usize \<times> 'a kmem_st_scheme) option" where
  "kmalloc sz s = do {
     a \<leftarrow> align_val sz 3;
     csize \<leftarrow> uadd a 8;
     len \<leftarrow> umul (KMEM_ALLOC s) PAGE_SIZE;
     (p, m) \<leftarrow> kmalloc_loop csize (KMEM_HEAD s + len) (KMEM_HEAD s) (memory s);
     Some (p, s\<lparr>memory := m\<rparr>)
   }"

definition kzmalloc :: "usize \<Rightarrow> 'a kmem_st_scheme \<Rightarrow> (usize \<times> 'a kmem_st_scheme) option" where
  "kzmalloc sz s = do {
     csize \<leftarrow> align_val sz 3;
     (ret, s) \<leftarrow> kmalloc csize s;
     if ret \<noteq> null_mut
     then Some (ret, s\<lparr>memory := fold (\<lambda>i m. m(ret + of_nat i := 0)) [0..<unat csize] (memory s)\<rparr>)
     else Some (ret, s)
   }"

partial_function (option) coalesce_loop :: "usize \<Rightarrow> usize \<Rightarrow> mem \<Rightarrow> mem option" where
  "coalesce_loop tail head m =
     (if head < tail then
        (let nxt = head + al_get_size (alist_at m head)
         in if al_get_size (alist_at m head) = 0 then Some m
            else if nxt \<ge> tail then Some m
            else if al_is_free (alist_at m head) \<and> al_is_free (alist_at m nxt) then do {
              sum \<leftarrow> uadd (al_get_size (alist_at m head)) (al_get_size (alist_at m nxt));
              let m = alist_update (al_set_size sum) head m;
              coalesce_loop tail (head + al_get_size (alist_at m head)) m
            }
            else coalesce_loop tail (head + al_get_size (alist_at m head)) m)
      else Some m)"

definition coalesce :: "'a kmem_st_scheme \<Rightarrow> 'a kmem_st_scheme option" where
  "coalesce s = do {
     len \<leftarrow> umul (KMEM_ALLOC s) PAGE_SIZE;
     m \<leftarrow> coalesce_loop (KMEM_HEAD s + len) (KMEM_HEAD s) (memory s);
     Some (s\<lparr>memory := m\<rparr>)
   }"

definition kfree :: "usize \<Rightarrow> 'a kmem_st_scheme \<Rightarrow> 'a kmem_st_scheme option" where
  "kfree ptr s =
     (if ptr \<noteq> null_mut then
        (let p = ptr - 8;
             s = (if al_is_taken (alist_at (memory s) p)
                  then s\<lparr>memory := alist_update al_set_free p (memory s)\<rparr> else s)
         in coalesce s)
      else Some s)"

text \<open>\<^verbatim>\<open>impl GlobalAlloc for OsGlobalAlloc\<close>; the layout's alignment is ignored.\<close>

definition OsGlobalAlloc_alloc :: "usize \<Rightarrow> 'a kmem_st_scheme \<Rightarrow> (usize \<times> 'a kmem_st_scheme) option" where
  "OsGlobalAlloc_alloc layout_size s = kzmalloc layout_size s"

definition OsGlobalAlloc_dealloc :: "usize \<Rightarrow> 'a kmem_st_scheme \<Rightarrow> 'a kmem_st_scheme option" where
  "OsGlobalAlloc_dealloc ptr s = kfree ptr s"

section \<open>Header arithmetic\<close>

lemma bit_Taken [simp]: "bit AllocListFlags_Taken n \<longleftrightarrow> n = 63"
  unfolding AllocListFlags_Taken_def bit_push_bit_iff bit_1_iff by auto

lemma al_taken_bit: "al_is_taken l \<longleftrightarrow> bit (flags_size l) 63"
  by (simp add: al_is_taken_def AllocListFlags_Taken_def bit_iff_and_push_bit_not_eq_0 del: push_bit_of_1)

lemma al_get_size_take: "al_get_size l = take_bit 63 (flags_size l)"
  by (rule bit_word_eqI) (auto simp: al_get_size_def bit_simps)

lemma al_header_simps [simp]:
  "al_is_taken (al_set_taken l)" "\<not> al_is_taken (al_set_free l)"
  "al_is_taken (al_set_size n l) = al_is_taken l"
  "al_get_size (al_set_taken l) = al_get_size l" "al_get_size (al_set_free l) = al_get_size l"
  "al_get_size (al_set_size n l) = take_bit 63 n"
  unfolding al_taken_bit al_get_size_take
  by (auto simp: al_set_taken_def al_set_free_def al_set_size_def al_taken_bit
        Let_def bit_simps intro!: bit_word_eqI)

lemma al_is_free_iff [simp]: "al_is_free l \<longleftrightarrow> \<not> al_is_taken l"
  by (simp add: al_is_free_def)

lemma unat_al_get_size: "unat (al_get_size l) < 2 ^ 63"
proof -
  have "unat (al_get_size l) = unat (flags_size l) mod 2 ^ 63"
    unfolding al_get_size_take unsigned_take_bit_eq by (rule take_bit_eq_mod)
  then show ?thesis by simp
qed

lemma take_bit_63_small: "unat (n :: usize) < 2 ^ 63 \<Longrightarrow> take_bit 63 n = n"
  by (rule word_unat_eq_iff [THEN iffD2]) (simp add: unsigned_take_bit_eq take_bit_nat_eq_self)

lemma alist_at_update [simp]: "alist_at (alist_update f p m) p = f (alist_at m p)"
  by (simp add: alist_at_def alist_update_def)

lemma alist_at_update_other:
  "disjoint_regions p 8 q 8 \<Longrightarrow> alist_at (alist_update f p m) q = alist_at m q"
  by (simp add: alist_at_def alist_update_def region_simps)

lemma alist_update_outside: "\<not> in_region p 8 x \<Longrightarrow> alist_update f p m x = m x"
  by (simp add: alist_update_def region_simps)

lemma alist_at_cong: "(\<And>x. in_region a 8 x \<Longrightarrow> m x = m' x) \<Longrightarrow> alist_at m a = alist_at m' a"
  by (simp add: alist_at_def load64_cong [of a m m'])

section \<open>The heap as a list of chunks\<close>

text \<open>A chunk is its size in bytes, header included, and whether it is taken.\<close>

type_synonym chunk = "nat \<times> bool"

fun chunks_at :: "mem \<Rightarrow> usize \<Rightarrow> chunk list \<Rightarrow> usize \<Rightarrow> bool" where
  "chunks_at m a [] t \<longleftrightarrow> a = t"
| "chunks_at m a ((sz, tk) # cs) t \<longleftrightarrow>
     unat (al_get_size (alist_at m a)) = sz \<and> al_is_taken (alist_at m a) = tk
     \<and> 8 \<le> sz \<and> 8 dvd sz \<and> unat a + sz \<le> unat t \<and> chunks_at m (a + of_nat sz) cs t"

definition heap_size :: "chunk list \<Rightarrow> nat" where
  "heap_size cs = sum_list (map fst cs)"

text \<open>First fit on the list: the offset of the chunk that is taken, and the new list.\<close>

fun first_fit :: "nat \<Rightarrow> chunk list \<Rightarrow> (nat \<times> chunk list) option" where
  "first_fit n [] = None"
| "first_fit n ((sz, tk) # cs) =
     (if \<not> tk \<and> n \<le> sz
      then Some (0, if sz - n > 8 then (n, True) # (sz - n, False) # cs else (sz, True) # cs)
      else map_option (\<lambda>(off, cs'). (sz + off, (sz, tk) # cs')) (first_fit n cs))"

text \<open>One pass that merges each free chunk with the chunk after it, if that one is free too.\<close>

fun merge_free :: "chunk list \<Rightarrow> chunk list" where
  "merge_free ((sz1, tk1) # (sz2, tk2) # cs) =
     (if \<not> tk1 \<and> \<not> tk2 then (sz1 + sz2, False) # merge_free cs
      else (sz1, tk1) # merge_free ((sz2, tk2) # cs))"
| "merge_free cs = cs"

text \<open>Releasing the taken chunk at an offset.\<close>

fun release :: "nat \<Rightarrow> chunk list \<Rightarrow> chunk list" where
  "release off [] = []"
| "release off ((sz, tk) # cs) = (if off = 0 then (sz, False) # cs else (sz, tk) # release (off - sz) cs)"

text \<open>The taken chunks with their offsets.\<close>

fun taken_chunks :: "nat \<Rightarrow> chunk list \<Rightarrow> (nat \<times> nat) set" where
  "taken_chunks off [] = {}"
| "taken_chunks off ((sz, tk) # cs) = (if tk then {(off, sz)} else {}) \<union> taken_chunks (off + sz) cs"

lemma chunks_at_end: "chunks_at m a cs t \<Longrightarrow> unat a + heap_size cs = unat t"
proof (induction cs arbitrary: a)
  case (Cons c cs)
  obtain sz tk where c: "c = (sz, tk)" by (cases c)
  with Cons.prems have le: "unat a + sz \<le> unat t" and rest: "chunks_at m (a + of_nat sz) cs t" by auto
  have "unat (a + of_nat sz) = unat a + sz"
    using le unat_lt_2p64 [of t] by (intro unat_add_of_nat) simp
  with Cons.IH [OF rest] c show ?case by (simp add: heap_size_def)
qed (simp add: heap_size_def)

lemma chunks_at_cong:
  assumes "\<And>x. unat a \<le> unat x \<Longrightarrow> unat x < unat t \<Longrightarrow> m x = m' x"
  shows "chunks_at m a cs t = chunks_at m' a cs t"
  using assms
proof (induction cs arbitrary: a)
  case (Cons c cs)
  obtain sz tk where c: "c = (sz, tk)" by (cases c)
  show ?case
  proof (cases "8 \<le> sz \<and> unat a + sz \<le> unat t")
    case True
    then have top: "unat a + sz < 2 ^ 64" using unat_lt_2p64 [of t] by linarith
    then have ua: "unat (a + of_nat sz) = unat a + sz" by (rule unat_add_of_nat)
    have "alist_at m a = alist_at m' a"
    proof (rule alist_at_cong)
      fix x assume "in_region a 8 x"
      then have "unat a \<le> unat x \<and> unat x < unat a + 8"
        using True top by (subst (asm) in_region_iff) auto
      with True Cons.prems show "m x = m' x" by auto
    qed
    moreover have "chunks_at m (a + of_nat sz) cs t = chunks_at m' (a + of_nat sz) cs t"
      using Cons.prems ua by (intro Cons.IH) auto
    ultimately show ?thesis using c by simp
  qed (use c in auto)
qed simp

lemma chunks_at_append:
  "chunks_at m a (cs @ ds) t \<Longrightarrow> chunks_at m (a + of_nat (heap_size cs)) ds t"
proof (induction cs arbitrary: a)
  case (Cons c cs)
  then show ?case by (cases c) (auto simp: heap_size_def simp flip: add.assoc)
qed (simp add: heap_size_def)

lemma of_nat_of_unat: "unat (w :: usize) = n \<Longrightarrow> w = of_nat n"
  by auto

text \<open>The first header of a list of chunks.\<close>

lemma chunks_at_ConsD:
  assumes "chunks_at m a ((sz, tk) # cs) t"
  shows "al_get_size (alist_at m a) = of_nat sz" "a < t" "unat (a + of_nat sz) = unat a + sz"
    "unat (of_nat sz :: usize) = sz" "sz < 2 ^ 63" "unat a + sz < 2 ^ 64"
proof -
  show g: "al_get_size (alist_at m a) = of_nat sz" using assms by (auto intro: of_nat_of_unat)
  have le: "8 \<le> sz" "unat a + sz \<le> unat t" using assms by auto
  then show "a < t" by (simp add: word_less_nat_alt)
  show lt: "unat a + sz < 2 ^ 64" using le(2) unat_lt_2p64 [of t] by simp
  then show "unat (a + of_nat sz) = unat a + sz" by (rule unat_add_of_nat)
  show "unat (of_nat sz :: usize) = sz" using lt by (intro unat_of_nat_small) simp
  show "sz < 2 ^ 63" using assms unat_al_get_size [of "alist_at m a"] by auto
qed

section \<open>kmalloc refines first fit\<close>

text \<open>What is left of a chunk of size \<open>sz\<close> when \<open>n\<close> bytes of it are taken.\<close>

definition carve :: "nat \<Rightarrow> nat \<Rightarrow> chunk list" where
  "carve n sz = (if sz - n > 8 then [(n, True), (sz - n, False)] else [(sz, True)])"

lemma first_fit_Some:
  "first_fit n cs = Some (off, cs') \<Longrightarrow>
   \<exists>xs sz ys. cs = xs @ (sz, False) # ys \<and> off = heap_size xs \<and> n \<le> sz
     \<and> (\<forall>(s, k) \<in> set xs. k \<or> s < n) \<and> cs' = xs @ carve n sz @ ys"
proof (induction cs arbitrary: off cs')
  case (Cons c cs)
  obtain sz tk where c: "c = (sz, tk)" by (cases c)
  show ?case
  proof (cases "\<not> tk \<and> n \<le> sz")
    case True
    with Cons.prems c show ?thesis
      by (intro exI [of _ "[]"] exI [of _ sz] exI [of _ cs]) (auto simp: carve_def heap_size_def)
  next
    case False
    with Cons.prems c obtain off1 cs1 where ff: "first_fit n cs = Some (off1, cs1)"
      and eq: "off = sz + off1" "cs' = (sz, tk) # cs1" by auto
    from Cons.IH [OF ff] obtain xs z ys where "cs = xs @ (z, False) # ys" "off1 = heap_size xs"
      "n \<le> z" "\<forall>(s, k) \<in> set xs. k \<or> s < n" "cs1 = xs @ carve n z @ ys" by blast
    with eq c False show ?thesis
      by (intro exI [of _ "(sz, tk) # xs"] exI [of _ z] exI [of _ ys]) (auto simp: heap_size_def)
  qed
qed simp

lemma first_fit_None: "first_fit n cs = None \<longleftrightarrow> (\<forall>(s, k) \<in> set cs. k \<or> s < n)"
  by (induction n cs rule: first_fit.induct) auto

text \<open>The two branches that take a chunk, on its header bytes.\<close>

lemma take_whole_chunk:
  assumes ch: "chunks_at m a ((sz, False) # cs) t"
  shows "chunks_at (alist_update (al_set_size (of_nat sz)) a (alist_update al_set_taken a m)) a ((sz, True) # cs) t"
    (is "chunks_at ?m _ _ _")
proof -
  note d = chunks_at_ConsD [OF ch]
  have tb: "take_bit 63 (of_nat sz :: usize) = of_nat sz" using d(4,5) by (intro take_bit_63_small) simp
  have "chunks_at ?m (a + of_nat sz) cs t = chunks_at m (a + of_nat sz) cs t"
  proof (rule chunks_at_cong)
    fix x :: usize assume "unat (a + of_nat sz) \<le> unat x" "unat x < unat t"
    then have "\<not> in_region a 8 x"
      using d(3,6) ch by (subst in_region_iff) auto
    then show "?m x = m x" by (simp add: alist_update_outside)
  qed
  with ch tb d(4) show ?thesis by simp
qed

lemma split_chunk:
  assumes ch: "chunks_at m a ((n + r, False) # cs) t" and n: "8 \<le> n" "8 dvd n" "8 < r"
  defines "nx \<equiv> a + of_nat n"
  shows "chunks_at (alist_update (al_set_size (of_nat n)) a
           (alist_update (al_set_size (of_nat r)) nx
              (alist_update al_set_free nx (alist_update al_set_taken a m)))) a
           ((n, True) # (r, False) # cs) t" (is "chunks_at ?m _ _ _")
proof -
  note d = chunks_at_ConsD [OF ch]
  have sz: "unat a + (n + r) \<le> unat t" "8 dvd n + r" using ch by auto
  have un: "unat nx = unat a + n" unfolding nx_def using d(6) by (intro unat_add_of_nat) simp
  have small: "unat (of_nat n :: usize) = n" "unat (of_nat r :: usize) = r"
    using d(5) by (intro unat_of_nat_small; simp)+
  have tb: "take_bit 63 (of_nat n :: usize) = of_nat n" "take_bit 63 (of_nat r :: usize) = of_nat r"
    using d(5) by (intro take_bit_63_small; simp only: small; simp)+
  have dis: "disjoint_regions a 8 nx 8" "disjoint_regions nx 8 a 8"
    using un d(6) n by (auto simp: disjoint_regions_def)
  have h: "al_is_taken (alist_at ?m a)" "unat (al_get_size (alist_at ?m a)) = n"
    "\<not> al_is_taken (alist_at ?m nx)" "unat (al_get_size (alist_at ?m nx)) = r"
    using tb small by (simp_all add: alist_at_update_other dis)
  have end_eq: "nx + of_nat r = a + of_nat (n + r)" by (simp add: nx_def add.assoc)
  have "chunks_at ?m (a + of_nat (n + r)) cs t = chunks_at m (a + of_nat (n + r)) cs t"
  proof (rule chunks_at_cong)
    fix x :: usize assume "unat (a + of_nat (n + r)) \<le> unat x" "unat x < unat t"
    then have "\<not> in_region a 8 x" "\<not> in_region nx 8 x"
      using d(3,6) un n by (auto simp: in_region_iff)
    then show "?m x = m x" by (simp add: alist_update_outside)
  qed
  moreover have "8 dvd r" using n sz by (simp add: dvd_add_right_iff)
  ultimately show ?thesis
    unfolding chunks_at.simps nx_def [symmetric] end_eq using ch h n sz un by simp
qed

lemma kmalloc_loop_take:
  assumes ch: "chunks_at m a ((sz, False) # cs) t" and n: "8 \<le> n" "8 dvd n" "n \<le> sz"
  shows "\<exists>m'. kmalloc_loop (of_nat n) t a m = Some (a + 8, m') \<and> chunks_at m' a (carve n sz @ cs) t
           \<and> (\<forall>x. \<not> in_region a sz x \<longrightarrow> m' x = m x)"
proof -
  note d = chunks_at_ConsD [OF ch]
  obtain r where r: "sz = n + r" using n(3) le_Suc_ex by blast
  have tk: "\<not> al_is_taken (alist_at m a)" using ch by simp
  have nb: "unat (of_nat n :: usize) = n" "unat (of_nat r :: usize) = r"
    using d(5) r by (intro unat_of_nat_small; simp)+
  have le: "(of_nat n :: usize) \<le> of_nat sz" using nb d(4) n by (simp add: word_le_nat_alt)
  have rem: "(of_nat sz :: usize) - of_nat n = of_nat r" using r by simp
  have gt: "(8 :: usize) < of_nat r \<longleftrightarrow> 8 < r" unfolding word_less_nat_alt nb by simp
  have sub: "\<not> in_region a sz x \<Longrightarrow> \<not> in_region a 8 x" for x
    using ch by (simp add: in_region_def)
  note unfold = kmalloc_loop.simps [of "of_nat n" t a m, unfolded Let_def d(1) rem gt al_is_free_iff]
  show ?thesis
  proof (cases "8 < r")
    case True
    let ?nx = "a + of_nat n"
    let ?m = "alist_update (al_set_size (of_nat n)) a (alist_update (al_set_size (of_nat r)) ?nx
              (alist_update al_set_free ?nx (alist_update al_set_taken a m)))"
    have un: "unat ?nx = unat a + n" using d(6) n by (intro unat_add_of_nat) simp
    have "kmalloc_loop (of_nat n) t a m = Some (a + 8, ?m)"
      unfolding unfold using d(2) tk le True by (simp only: if_True simp_thms)
    moreover have "chunks_at ?m a (carve n sz @ cs) t"
      using split_chunk [of m a n r cs t] ch n True r by (simp add: carve_def)
    moreover have "?m x = m x" if "\<not> in_region a sz x" for x
    proof -
      have "\<not> in_region ?nx 8 x"
        using that un d(6) True r by (auto simp: in_region_iff)
      with sub [OF that] show ?thesis by (simp add: alist_update_outside)
    qed
    ultimately show ?thesis by blast
  next
    case False
    let ?m = "alist_update (al_set_size (of_nat sz)) a (alist_update al_set_taken a m)"
    have "kmalloc_loop (of_nat n) t a m = Some (a + 8, ?m)"
      unfolding unfold using d(2) tk le False by (simp only: if_True if_False simp_thms)
    moreover have "chunks_at ?m a (carve n sz @ cs) t"
      using take_whole_chunk [OF ch] False r by (simp add: carve_def)
    ultimately show ?thesis using sub by (auto simp: alist_update_outside)
  qed
qed

lemma kmalloc_loop_refines:
  assumes "chunks_at m a cs t" and n: "8 \<le> n" "8 dvd n" "n < 2 ^ 64"
  shows "case first_fit n cs of
           None \<Rightarrow> kmalloc_loop (of_nat n) t a m = Some (null_mut, m)
         | Some (off, cs') \<Rightarrow> \<exists>m' xs sz ys. kmalloc_loop (of_nat n) t a m = Some (a + of_nat (off + 8), m')
             \<and> chunks_at m' a cs' t \<and> cs = xs @ (sz, False) # ys \<and> off = heap_size xs \<and> n \<le> sz
             \<and> cs' = xs @ carve n sz @ ys \<and> (\<forall>x. \<not> in_region (a + of_nat off) sz x \<longrightarrow> m' x = m x)"
  using assms(1)
proof (induction cs arbitrary: a)
  case Nil
  then show ?case by (subst kmalloc_loop.simps) simp
next
  case (Cons c cs)
  obtain sz tk where c: "c = (sz, tk)" by (cases c)
  note ch = Cons.prems [unfolded c]
  note d = chunks_at_ConsD [OF ch]
  show ?case
  proof (cases "\<not> tk \<and> n \<le> sz")
    case True
    then obtain m' where "kmalloc_loop (of_nat n) t a m = Some (a + 8, m')"
      "chunks_at m' a (carve n sz @ cs) t" "\<forall>x. \<not> in_region a sz x \<longrightarrow> m' x = m x"
      using kmalloc_loop_take [of m a sz cs t n] ch n by auto
    with True c show ?thesis
      by (auto simp: carve_def heap_size_def intro!: exI [of _ m'] exI [of _ "[]"])
  next
    case False
    have nb: "unat (of_nat n :: usize) = n" using n(3) by (intro unat_of_nat_small) simp
    have rest: "chunks_at m (a + of_nat sz) cs t" using ch by simp
    have "\<not> (al_is_free (alist_at m a) \<and> of_nat n \<le> al_get_size (alist_at m a))"
      using ch False nb by (auto simp: word_le_nat_alt)
    then have step: "kmalloc_loop (of_nat n) t a m = kmalloc_loop (of_nat n) t (a + of_nat sz) m"
      unfolding kmalloc_loop.simps [of "of_nat n" t a m] using d(1,2) by (simp only: if_True if_False)
    show ?thesis
    proof (cases "first_fit n cs")
      case None
      with Cons.IH [OF rest] step False c show ?thesis by auto
    next
      case (Some r)
      obtain off cs1 where r: "r = (off, cs1)" by (cases r)
      with Some Cons.IH [OF rest] obtain m' xs z ys where
        ih: "kmalloc_loop (of_nat n) t (a + of_nat sz) m = Some (a + of_nat sz + of_nat (off + 8), m')"
        "chunks_at m' (a + of_nat sz) cs1 t" "cs = xs @ (z, False) # ys" "off = heap_size xs" "n \<le> z"
        "cs1 = xs @ carve n z @ ys" "\<forall>x. \<not> in_region (a + of_nat sz + of_nat off) z x \<longrightarrow> m' x = m x"
        by auto
      have out: "\<not> in_region (a + of_nat sz + of_nat off) z x" if "in_region a 8 x" for x
      proof -
        have fit: "unat (a + of_nat sz) + heap_size xs + z \<le> unat t"
          using chunks_at_end [OF rest] ih(3) by (simp add: heap_size_def)
        then have "unat (a + of_nat sz + of_nat off) = unat a + sz + off"
          using unat_add_of_nat [of "a + of_nat sz" off] ih(4) d(3) unat_lt_2p64 [of t] by simp
        with that fit d(3,6) ih(4) ch unat_lt_2p64 [of t] show ?thesis by (auto simp: in_region_iff)
      qed
      then have "alist_at m' a = alist_at m a" using ih(7) by (intro alist_at_cong) auto
      then have "chunks_at m' a ((sz, tk) # cs1) t" using ch ih(2) by simp
      with ih step r Some False c show ?thesis
        by (auto simp: heap_size_def add.assoc intro!: exI [of _ m'] exI [of _ "(sz, tk) # xs"])
    qed
  qed
qed

section \<open>coalesce refines one merging pass\<close>

text \<open>The address lies in a free chunk.\<close>

fun in_free :: "usize \<Rightarrow> chunk list \<Rightarrow> usize \<Rightarrow> bool" where
  "in_free a [] x \<longleftrightarrow> False"
| "in_free a ((sz, tk) # cs) x \<longleftrightarrow> (\<not> tk \<and> in_region a sz x) \<or> in_free (a + of_nat sz) cs x"

lemma chunks_at_Cons_keep:
  assumes "chunks_at m a ((sz, tk) # cs) t" "chunks_at m' (a + of_nat sz) cs' t"
    "\<And>x. in_region a 8 x \<Longrightarrow> m' x = m x"
  shows "chunks_at m' a ((sz, tk) # cs') t"
proof -
  have "alist_at m' a = alist_at m a" using assms(3) by (intro alist_at_cong) auto
  with assms(1,2) show ?thesis by simp
qed

lemma in_free_bounds:
  "chunks_at m a cs t \<Longrightarrow> in_free a cs x \<Longrightarrow> unat a \<le> unat x \<and> unat x < unat t"
proof (induction cs arbitrary: a)
  case (Cons c cs)
  obtain sz tk where c: "c = (sz, tk)" by (cases c)
  note d = chunks_at_ConsD [OF Cons.prems(1) [unfolded c]]
  have le: "unat a + sz \<le> unat t" and rest: "chunks_at m (a + of_nat sz) cs t"
    using Cons.prems(1) c by auto
  from Cons.prems(2) c consider "in_region a sz x" | "in_free (a + of_nat sz) cs x" by auto
  then show ?case
  proof cases
    case 1
    with le d(6) show ?thesis by (simp add: in_region_iff)
  next
    case 2
    from Cons.IH [OF rest this] d(3) show ?thesis by simp
  qed
qed simp

lemma merge_headers:
  assumes ch: "chunks_at m a ((z1, False) # (z2, False) # cs) t"
  shows "uadd (al_get_size (alist_at m a)) (al_get_size (alist_at m (a + of_nat z1))) = Some (of_nat (z1 + z2))"
    and "z1 + z2 < 2 ^ 63 \<Longrightarrow>
      chunks_at (alist_update (al_set_size (of_nat (z1 + z2))) a m) a ((z1 + z2, False) # cs) t"
proof -
  note d1 = chunks_at_ConsD [OF ch]
  have ch2: "chunks_at m (a + of_nat z1) ((z2, False) # cs) t" using ch by simp
  note d2 = chunks_at_ConsD [OF ch2]
  show "uadd (al_get_size (alist_at m a)) (al_get_size (alist_at m (a + of_nat z1))) = Some (of_nat (z1 + z2))"
    using d1(4-6) d2(4-6) unfolding d1(1) d2(1) by (simp add: uadd_eq_Some)
  assume small: "z1 + z2 < 2 ^ 63"
  let ?m = "alist_update (al_set_size (of_nat (z1 + z2))) a m"
  have us: "unat (of_nat (z1 + z2) :: usize) = z1 + z2" using small by (intro unat_of_nat_small) simp
  then have tb: "take_bit 63 (of_nat (z1 + z2) :: usize) = of_nat (z1 + z2)"
    using small by (intro take_bit_63_small) simp
  have bounds: "8 \<le> z1" "unat a + (z1 + z2) \<le> unat t" "8 dvd z1 + z2"
    using ch ch2 d1(3) by auto
  have "chunks_at ?m (a + of_nat (z1 + z2)) cs t = chunks_at m (a + of_nat (z1 + z2)) cs t"
  proof (rule chunks_at_cong)
    fix x :: usize assume x: "unat (a + of_nat (z1 + z2)) \<le> unat x" "unat x < unat t"
    have "unat (a + of_nat (z1 + z2)) = unat a + (z1 + z2)"
      using bounds(2) unat_lt_2p64 [of t] by (intro unat_add_of_nat) simp
    with x bounds d1(6) have "\<not> in_region a 8 x" by (subst in_region_iff) auto
    then show "?m x = m x" by (rule alist_update_outside)
  qed
  moreover have "chunks_at m (a + of_nat (z1 + z2)) cs t" using ch2 by (simp add: add.assoc)
  ultimately show "chunks_at ?m a ((z1 + z2, False) # cs) t"
    unfolding chunks_at.simps using ch bounds us tb by (simp del: of_nat_add)
qed

lemmas merge_free_induct = merge_free.induct [case_names pair none single]

lemma coalesce_loop_refines:
  assumes "chunks_at m a cs t" and "heap_size cs < 2 ^ 63"
  shows "\<exists>m'. coalesce_loop t a m = Some m' \<and> chunks_at m' a (merge_free cs) t
           \<and> (\<forall>x. \<not> in_free a cs x \<longrightarrow> m' x = m x)"
  using assms
proof (induction cs arbitrary: a m rule: merge_free_induct)
  case (pair z1 k1 z2 k2 cs)
  note ch = pair.prems(1)
  note d = chunks_at_ConsD [OF ch]
  have ch2: "chunks_at m (a + of_nat z1) ((z2, k2) # cs) t" using ch by simp
  have z: "z1 \<noteq> 0" "8 \<le> z1" using ch by auto
  have nz: "(of_nat z1 :: usize) \<noteq> 0" using d(4) z by (metis unat_0)
  have nt: "\<not> a + of_nat z1 \<ge> t" using chunks_at_ConsD(2) [OF ch2] by simp
  note unfold = coalesce_loop.simps [of t a m, unfolded Let_def d(1) al_is_free_iff]
  show ?case
  proof (cases "\<not> k1 \<and> \<not> k2")
    case True
    have ch': "chunks_at m a ((z1, False) # (z2, False) # cs) t" using ch True by simp
    have small: "z1 + z2 < 2 ^ 63" using pair.prems(2) by (simp add: heap_size_def)
    let ?m = "alist_update (al_set_size (of_nat (z1 + z2))) a m"
    note chm = merge_headers(2) [OF ch' small]
    have rest: "chunks_at ?m (a + of_nat (z1 + z2)) cs t" using chm by simp
    have "coalesce_loop t a m = coalesce_loop t (a + of_nat (z1 + z2)) ?m"
      unfolding unfold merge_headers(1) [OF ch', unfolded d(1)]
      using d(2) nz nt ch' chunks_at_ConsD(1) [OF chm] by simp
    moreover have "heap_size cs < 2 ^ 63" using pair.prems(2) by (simp add: heap_size_def)
    ultimately obtain m' where m': "coalesce_loop t a m = Some m'"
      "chunks_at m' (a + of_nat (z1 + z2)) (merge_free cs) t"
      "\<forall>x. \<not> in_free (a + of_nat (z1 + z2)) cs x \<longrightarrow> m' x = ?m x"
      using pair.IH(1) [OF True rest] by auto
    have "m' x = ?m x" if "in_region a 8 x" for x
    proof -
      have "unat x < unat a + 8" using that d(6) z by (subst (asm) in_region_iff) auto
      then have "\<not> in_free (a + of_nat (z1 + z2)) cs x"
        using in_free_bounds [OF rest, of x] chunks_at_ConsD(3) [OF chm] z by auto
      with m'(3) show ?thesis by blast
    qed
    then have "chunks_at m' a ((z1 + z2, False) # merge_free cs) t"
      using chunks_at_Cons_keep [OF chm m'(2)] by blast
    moreover have "m' x = m x" if x: "\<not> in_free a ((z1, k1) # (z2, k2) # cs) x" for x
    proof -
      have "\<not> in_region a 8 x" using x True z by (auto simp: in_region_def)
      then have "?m x = m x" by (rule alist_update_outside)
      with x m'(3) show ?thesis by (simp add: add.assoc)
    qed
    ultimately show ?thesis using m'(1) True by auto
  next
    case False
    have "coalesce_loop t a m = coalesce_loop t (a + of_nat z1) m"
      unfolding unfold using d(2) nz nt ch ch2 False by auto
    moreover have "heap_size ((z2, k2) # cs) < 2 ^ 63" using pair.prems(2) by (simp add: heap_size_def)
    ultimately obtain m' where m': "coalesce_loop t a m = Some m'"
      "chunks_at m' (a + of_nat z1) (merge_free ((z2, k2) # cs)) t"
      "\<forall>x. \<not> in_free (a + of_nat z1) ((z2, k2) # cs) x \<longrightarrow> m' x = m x"
      using pair.IH(2) [OF False ch2] by auto
    have "m' x = m x" if "in_region a 8 x" for x
    proof -
      have "unat x < unat a + 8" using that d(6) z by (subst (asm) in_region_iff) auto
      then have "\<not> in_free (a + of_nat z1) ((z2, k2) # cs) x"
        using in_free_bounds [OF ch2, of x] d(3) z by linarith
      with m'(3) show ?thesis by blast
    qed
    then have "chunks_at m' a ((z1, k1) # merge_free ((z2, k2) # cs)) t"
      using chunks_at_Cons_keep [OF ch m'(2)] by blast
    then show ?thesis using m' False by auto
  qed
next
  case none
  then show ?case by (subst coalesce_loop.simps) simp
next
  case (single c)
  obtain sz tk where c: "c = (sz, tk)" by (cases c)
  note d = chunks_at_ConsD [OF single(1) [unfolded c]]
  have "coalesce_loop t a m = Some m"
    unfolding coalesce_loop.simps [of t a m] Let_def d(1) using single(1) c by auto
  then show ?case using single(1) by simp
qed

section \<open>Lists of chunks\<close>

lemma heap_size_simps [simp]:
  "heap_size [] = 0" "heap_size (c # cs) = fst c + heap_size cs" "heap_size (cs @ ds) = heap_size cs + heap_size ds"
  by (simp_all add: heap_size_def)

lemma heap_size_carve [simp]: "n \<le> sz \<Longrightarrow> heap_size (carve n sz) = sz"
  by (simp add: carve_def)

lemma heap_size_merge_free [simp]: "heap_size (merge_free cs) = heap_size cs"
  by (induction cs rule: merge_free.induct) auto

lemma taken_chunks_append:
  "taken_chunks off (cs @ ds) = taken_chunks off cs \<union> taken_chunks (off + heap_size cs) ds"
  by (induction off cs rule: taken_chunks.induct) (auto simp: add.assoc)

lemma taken_chunks_merge_free [simp]: "taken_chunks off (merge_free cs) = taken_chunks off cs"
  by (induction cs arbitrary: off rule: merge_free.induct) (auto simp: add.assoc)

lemma taken_chunks_bounds:
  "(o', z) \<in> taken_chunks off cs \<Longrightarrow> off \<le> o' \<and> o' + z \<le> off + heap_size cs"
  by (induction off cs rule: taken_chunks.induct) (auto split: if_splits)

lemma taken_chunks_split:
  "(o', z) \<in> taken_chunks off cs \<Longrightarrow> \<exists>xs ys. cs = xs @ (z, True) # ys \<and> o' = off + heap_size xs"
proof (induction off cs rule: taken_chunks.induct)
  case (2 off sz tk cs)
  then consider "tk" "o' = off" "z = sz" | "(o', z) \<in> taken_chunks (off + sz) cs"
    by (auto split: if_splits)
  then show ?case
  proof cases
    case 1
    then show ?thesis by (intro exI [of _ "[]"] exI [of _ cs]) simp
  next
    case 2
    then obtain xs ys where "cs = xs @ (z, True) # ys" "o' = off + sz + heap_size xs"
      using "2.IH" by blast
    then show ?thesis by (intro exI [of _ "(sz, tk) # xs"] exI [of _ ys]) simp
  qed
qed simp

lemma taken_chunks_apart:
  "(i, k) \<in> taken_chunks off cs \<Longrightarrow> (j, l) \<in> taken_chunks off cs \<Longrightarrow> (i, k) = (j, l) \<or> i + k \<le> j \<or> j + l \<le> i"
proof (induction off cs rule: taken_chunks.induct)
  case (2 off sz tk cs)
  then show ?case
    using taken_chunks_bounds [of i k "off + sz" cs] taken_chunks_bounds [of j l "off + sz" cs]
    by (auto split: if_splits)
qed simp

lemma taken_chunks_carve:
  "taken_chunks off (carve n sz) = {(off, fst (hd (carve n sz)))}"
  by (simp add: carve_def)

lemma release_split: "(\<forall>c \<in> set xs. 0 < fst c) \<Longrightarrow> release (heap_size xs) (xs @ (z, k) # ys) = xs @ (z, False) # ys"
proof (induction xs)
  case (Cons c xs)
  then show ?case by (cases c) auto
qed simp

lemma taken_chunks_release:
  assumes "\<forall>c \<in> set (xs @ (z, True) # ys). 0 < fst c"
  shows "taken_chunks 0 (xs @ (z, False) # ys) = taken_chunks 0 (xs @ (z, True) # ys) - {(heap_size xs, z)}"
proof -
  have pos: "0 < z" using assms by simp
  have "(heap_size xs, z) \<notin> taken_chunks 0 xs"
    using taken_chunks_bounds [of "heap_size xs" z 0 xs] pos by auto
  moreover have "(heap_size xs, z) \<notin> taken_chunks (heap_size xs + z) ys"
    using taken_chunks_bounds [of "heap_size xs" z "heap_size xs + z" ys] pos by auto
  ultimately show ?thesis by (auto simp: taken_chunks_append)
qed

section \<open>Lists of chunks in memory\<close>

lemma chunks_at_unique: "chunks_at m a cs t \<Longrightarrow> chunks_at m a ds t \<Longrightarrow> cs = ds"
proof (induction cs arbitrary: a ds)
  case Nil
  then show ?case using chunks_at_ConsD(2) [of m a "fst (hd ds)" "snd (hd ds)" "tl ds" t] by (cases ds) simp_all
next
  case (Cons c cs)
  obtain sz tk where c: "c = (sz, tk)" by (cases c)
  note lt = chunks_at_ConsD(2) [OF Cons.prems(1) [unfolded c]]
  with Cons.prems(2) obtain d ds' where "ds = d # ds'" by (cases ds) auto
  then show ?case using Cons c by (cases d) auto
qed

lemma chunks_at_sizes: "chunks_at m a cs t \<Longrightarrow> c \<in> set cs \<Longrightarrow> 8 \<le> fst c \<and> 8 dvd fst c"
proof (induction cs arbitrary: a)
  case (Cons d cs)
  then show ?case by (cases d) auto
qed simp

lemma chunks_at_prefix: "chunks_at m a (cs @ ds) t \<Longrightarrow> chunks_at m a cs (a + of_nat (heap_size cs))"
proof (induction cs arbitrary: a)
  case (Cons c cs)
  obtain sz tk where c: "c = (sz, tk)" by (cases c)
  have fit: "unat a + heap_size (c # cs) \<le> unat t"
    using chunks_at_end [OF Cons.prems] by (simp add: c)
  then have "unat (a + of_nat (heap_size (c # cs))) = unat a + heap_size (c # cs)"
    using unat_lt_2p64 [of t] by (intro unat_add_of_nat) simp
  then show ?case using Cons.IH [of "a + of_nat sz"] Cons.prems c by (simp add: add.assoc)
qed simp

lemma chunks_at_suffix:
  assumes "chunks_at m a (cs @ ds) t"
  shows "unat (a + of_nat (heap_size cs)) = unat a + heap_size cs" and "unat a + heap_size cs + heap_size ds = unat t"
proof -
  show fit: "unat a + heap_size cs + heap_size ds = unat t"
    using chunks_at_end [OF assms] by simp
  then show "unat (a + of_nat (heap_size cs)) = unat a + heap_size cs"
    using unat_lt_2p64 [of t] by (intro unat_add_of_nat) simp
qed

lemma chunks_at_replace_suffix:
  assumes "chunks_at m a (cs @ ds) t" and "chunks_at m' (a + of_nat (heap_size cs)) es t"
    and "\<And>x. unat a \<le> unat x \<Longrightarrow> unat x < unat a + heap_size cs \<Longrightarrow> m' x = m x"
  shows "chunks_at m' a (cs @ es) t"
  using assms
proof (induction cs arbitrary: a)
  case (Cons c cs)
  obtain sz tk where c: "c = (sz, tk)" by (cases c)
  note ch = Cons.prems(1) [unfolded c append_Cons]
  note d = chunks_at_ConsD [OF ch]
  have "chunks_at m' (a + of_nat sz) (cs @ es) t"
    using ch Cons.prems c d(3) by (intro Cons.IH) (auto simp: add.assoc)
  moreover have "m' x = m x" if "in_region a 8 x" for x
    using that ch d(6) Cons.prems(3) [of x] c by (subst (asm) in_region_iff) auto
  ultimately show ?case using chunks_at_Cons_keep [OF ch] c by simp
qed simp

lemma in_free_append: "in_free a (cs @ ds) x \<longleftrightarrow> in_free a cs x \<or> in_free (a + of_nat (heap_size cs)) ds x"
proof (induction cs arbitrary: a)
  case (Cons c cs)
  then show ?case by (cases c) (auto simp: add.assoc)
qed simp

text \<open>A taken chunk has no byte in common with a free one.\<close>

lemma taken_not_free:
  assumes ch: "chunks_at m a cs t" and tk: "(off, z) \<in> taken_chunks 0 cs" and x: "in_region (a + of_nat off) z x"
  shows "\<not> in_free a cs x"
proof -
  obtain xs ys where cs: "cs = xs @ (z, True) # ys" and off: "off = heap_size xs"
    using taken_chunks_split [OF tk] by auto
  note sfx = chunks_at_suffix [OF ch [unfolded cs]]
  have ch2: "chunks_at m (a + of_nat off) ((z, True) # ys) t"
    using chunks_at_append ch cs off by blast
  have r: "unat (a + of_nat off) \<le> unat x" "unat x < unat (a + of_nat off) + z"
    using x sfx off unat_lt_2p64 [of t] by (simp_all add: in_region_iff)
  have "\<not> in_free a xs x"
    using in_free_bounds [OF chunks_at_prefix [of m a xs] , of _ t x] ch cs r off by fastforce
  moreover have "\<not> in_free (a + of_nat off + of_nat z) ys x"
    using in_free_bounds [of m "a + of_nat off + of_nat z" ys t x] ch2 r chunks_at_ConsD(3) [OF ch2]
    by auto
  ultimately show ?thesis by (simp add: cs in_free_append off)
qed

end
