(* ===== verification/Fs_Data.thy ===== *)
theory Fs_Data
  imports Prelude
begin

text \<open>
  The on-disk structures of the Minix 3 file system (\<^verbatim>\<open>fs.rs\<close>): \<^verbatim>\<open>repr(C)\<close> records over
  little-endian bytes, with the decoding of a pointer cast and the encoding of a store.
\<close>

section \<open>Constants and structures\<close>

definition MAGIC :: u16 where "MAGIC = 0x4d5a"
definition BLOCK_SIZE :: u32 where "BLOCK_SIZE = 1024"
definition NUM_IPTRS :: nat where "NUM_IPTRS = unat BLOCK_SIZE div 4"
definition S_IFDIR :: u16 where "S_IFDIR = 0x4000"
definition S_IFREG :: u16 where "S_IFREG = 0x8000"

record SuperBlock =
  sb_ninodes :: u32
  sb_pad0 :: u16
  sb_imap_blocks :: u16
  sb_zmap_blocks :: u16
  sb_first_data_zone :: u16
  sb_log_zone_size :: u16
  sb_pad1 :: u16
  sb_max_size :: u32
  sb_zones :: u32
  sb_magic :: u16
  sb_pad2 :: u16
  sb_block_size :: u16
  sb_disk_version :: u8

record Inode =
  i_mode :: u16
  i_nlinks :: u16
  i_uid :: u16
  i_gid :: u16
  i_size :: u32
  i_atime :: u32
  i_mtime :: u32
  i_ctime :: u32
  i_zones :: "u32 list"

record DirEntry =
  d_inode :: u32
  d_name :: "u8 list"

record Stat =
  st_mode :: u16
  st_size :: u32
  st_uid :: u16
  st_gid :: u16

datatype FsError = Success | FileNotFound | Permission | IsFile | IsDirectory | FileExists

section \<open>Fields of a byte string\<close>

text \<open>The field of \<open>n\<close> bytes at an offset, and the same field replaced.\<close>

definition field :: "u8 list \<Rightarrow> nat \<Rightarrow> nat \<Rightarrow> 'l::len word" where
  "field bs off n = le_word (take n (drop off bs))"

definition splice :: "nat \<Rightarrow> u8 list \<Rightarrow> u8 list \<Rightarrow> u8 list" where
  "splice off xs bs = take off bs @ xs @ drop (off + length xs) bs"

text \<open>\<^verbatim>\<open>size_of::<Inode>()\<close> is 64, \<^verbatim>\<open>size_of::<DirEntry>()\<close> is 64.\<close>

definition INODE_SIZE :: nat where "INODE_SIZE = 64"
definition DIRENT_SIZE :: nat where "DIRENT_SIZE = 64"

definition superblock_of :: "u8 list \<Rightarrow> SuperBlock" where
  "superblock_of bs =
     \<lparr>sb_ninodes = field bs 0 4, sb_pad0 = field bs 4 2, sb_imap_blocks = field bs 6 2, sb_zmap_blocks = field bs 8 2,
      sb_first_data_zone = field bs 10 2, sb_log_zone_size = field bs 12 2, sb_pad1 = field bs 14 2, sb_max_size = field bs 16 4,
      sb_zones = field bs 20 4, sb_magic = field bs 24 2, sb_pad2 = field bs 26 2, sb_block_size = field bs 28 2, sb_disk_version = field bs 30 1\<rparr>"

definition inode_of :: "u8 list \<Rightarrow> Inode" where
  "inode_of bs =
     \<lparr>i_mode = field bs 0 2, i_nlinks = field bs 2 2, i_uid = field bs 4 2, i_gid = field bs 6 2,
      i_size = field bs 8 4, i_atime = field bs 12 4, i_mtime = field bs 16 4, i_ctime = field bs 20 4,
      i_zones = map (\<lambda>k. field bs (24 + 4 * k) 4) [0..<10]\<rparr>"

definition inode_bytes :: "Inode \<Rightarrow> u8 list" where
  "inode_bytes i =
     to_le 2 (i_mode i) @ to_le 2 (i_nlinks i) @ to_le 2 (i_uid i) @ to_le 2 (i_gid i) @ to_le 4 (i_size i)
       @ to_le 4 (i_atime i) @ to_le 4 (i_mtime i) @ to_le 4 (i_ctime i) @ concat (map (to_le 4) (i_zones i))"

definition dirent_of :: "u8 list \<Rightarrow> DirEntry" where
  "dirent_of bs = \<lparr>d_inode = field bs 0 4, d_name = take 60 (drop 4 bs)\<rparr>"

definition dirent_bytes :: "DirEntry \<Rightarrow> u8 list" where
  "dirent_bytes d = to_le 4 (d_inode d) @ d_name d"

text \<open>The block of 256 zone pointers behind a \<^verbatim>\<open>*const u32\<close>.\<close>

definition zone_ptr :: "u8 list \<Rightarrow> nat \<Rightarrow> u32" where
  "zone_ptr bs k = field bs (4 * k) 4"

section \<open>Encodings\<close>

lemma length_splice [simp]: "off + length xs \<le> length bs \<Longrightarrow> length (splice off xs bs) = length bs"
  by (simp add: splice_def)

lemma splice_Nil [simp]: "splice off [] bs = bs"
  by (simp add: splice_def)

lemma nth_splice:
  "off + length xs \<le> length bs \<Longrightarrow> i < length bs \<Longrightarrow>
   splice off xs bs ! i = (if off \<le> i \<and> i < off + length xs then xs ! (i - off) else bs ! i)"
  by (auto simp: splice_def nth_append)

lemma take_drop_splice:
  "off + length xs \<le> length bs \<Longrightarrow> take (length xs) (drop off (splice off xs bs)) = xs"
  by (simp add: splice_def)

text \<open>Two adjacent writes are one.\<close>

lemma splice_splice_adjacent:
  "off + length xs + length ys \<le> length bs \<Longrightarrow>
   splice (off + length xs) ys (splice off xs bs) = splice off (xs @ ys) bs"
  by (rule nth_equalityI) (auto simp: nth_splice nth_append)

lemma field_append:
  "length xs = off \<Longrightarrow> length ys = n \<Longrightarrow> field (xs @ ys @ zs) off n = le_word ys"
  by (simp add: field_def)

lemma length_concat_to_le: "length (concat (map (to_le n) zs)) = n * length zs"
  by (induction zs) simp_all

lemma take_drop_concat_to_le:
  "k < length zs \<Longrightarrow> take n (drop (n * k) (concat (map (to_le n) zs))) = to_le n (zs ! k)"
proof (induction zs arbitrary: k)
  case (Cons z zs)
  then show ?case by (cases k) simp_all
qed simp

lemma length_inode_bytes [simp]: "length (i_zones i) = 10 \<Longrightarrow> length (inode_bytes i) = INODE_SIZE"
  by (simp add: inode_bytes_def INODE_SIZE_def length_concat_to_le)

lemma field_skip: "length xs \<le> off \<Longrightarrow> field (xs @ ys) off n = field ys (off - length xs) n"
  by (simp add: field_def)

lemma field_head: "length xs = n \<Longrightarrow> field (xs @ ys) 0 n = le_word xs"
  by (simp add: field_def)

lemma field_zone:
  "k < length zs \<Longrightarrow> field (concat (map (to_le 4) (zs :: u32 list)) @ rest) (4 * k) 4 = zs ! k"
proof -
  assume k: "k < length zs"
  then have "take 4 (drop (4 * k) (concat (map (to_le 4) zs) @ rest)) = take 4 (drop (4 * k) (concat (map (to_le 4) zs)))"
    by (simp add: length_concat_to_le)
  then show ?thesis unfolding field_def take_drop_concat_to_le [OF k] by simp
qed

lemma inode_of_bytes:
  assumes "length (i_zones i) = 10"
  shows "inode_of (inode_bytes i @ rest) = i"
proof -
  have f: "i_mode (inode_of (inode_bytes i @ rest)) = i_mode i" "i_nlinks (inode_of (inode_bytes i @ rest)) = i_nlinks i"
    "i_uid (inode_of (inode_bytes i @ rest)) = i_uid i" "i_gid (inode_of (inode_bytes i @ rest)) = i_gid i"
    "i_size (inode_of (inode_bytes i @ rest)) = i_size i" "i_atime (inode_of (inode_bytes i @ rest)) = i_atime i"
    "i_mtime (inode_of (inode_bytes i @ rest)) = i_mtime i" "i_ctime (inode_of (inode_bytes i @ rest)) = i_ctime i"
    unfolding inode_of_def inode_bytes_def append_assoc Inode.simps
    by (simp_all add: field_skip field_head)
  have "field (inode_bytes i @ rest) (24 + 4 * k) 4 = i_zones i ! k" if "k < 10" for k
    using field_zone [of k "i_zones i" rest] that assms
    unfolding inode_bytes_def append_assoc by (simp add: field_skip)
  then have "i_zones (inode_of (inode_bytes i @ rest)) = i_zones i"
    using assms by (intro nth_equalityI) (simp_all add: inode_of_def)
  with f show ?thesis by simp
qed

end
