(* ===== verification/Process.thy ===== *)
theory Process
  imports Cpu Mmu Kmem Lock Fs_Data
begin

text \<open>
  \<^verbatim>\<open>process.rs\<close>: the list of processes, their creation and destruction. A process owns pages
  of the page allocator (trap frame, stack, page tables, data pages, program), so the
  operations run on the state of the allocators extended by the list. The collections of
  Rust's \<^verbatim>\<open>alloc\<close> crate are modelled by their values.
\<close>

section \<open>Processes\<close>

definition STACK_PAGES :: usize where "STACK_PAGES = 35"
definition STACK_ADDR :: usize where "STACK_ADDR = 0x100000000"
definition PROCESS_STARTING_ADDR :: usize where "PROCESS_STARTING_ADDR = 0x20000000"

datatype ProcessState = Running | Sleeping | Waiting | Dead

datatype Descriptor =
  File Inode | Device usize | Framebuffer | ButtonEvents | AbsoluteEvents | Console | Network | Unknown

record ProcessData =
  environ :: "string \<rightharpoonup> string"
  fdesc :: "u16 \<rightharpoonup> Descriptor"
  cwd :: string
  pages :: "usize list"

definition ProcessData_new :: ProcessData where
  "ProcessData_new = \<lparr>environ = Map.empty, fdesc = Map.empty, cwd = ''/'', pages = []\<rparr>"

record Process =
  frame :: usize
  stack :: usize
  p_pid :: u16
  mmu_table :: usize
  pstate :: ProcessState
  pdata :: ProcessData
  sleep_until :: usize
  program :: usize
  brk :: usize

record proc_st = kmem_st +
  PROCESS_LIST :: "Process list option"
  PROCESS_LIST_MUTEX :: Mutex
  NEXT_PID :: u16

section \<open>Looking up and changing processes\<close>

text \<open>The loop over \<^verbatim>\<open>pl.iter_mut()\<close> that changes the first match and stops; \<open>None\<close> when the change panics.\<close>

fun update_first :: "('p \<Rightarrow> bool) \<Rightarrow> ('p \<Rightarrow> 'p option) \<Rightarrow> 'p list \<Rightarrow> (bool \<times> 'p list) option" where
  "update_first P f [] = Some (False, [])"
| "update_first P f (p # ps) =
     (if P p then do { q \<leftarrow> f p; Some (True, q # ps) }
      else do { (r, qs) \<leftarrow> update_first P f ps; Some (r, p # qs) })"

definition set_running :: "u16 \<Rightarrow> 'a proc_st_scheme \<Rightarrow> (bool \<times> 'a proc_st_scheme) option" where
  "set_running pd s =
     (case PROCESS_LIST s of
        None \<Rightarrow> Some (False, s)
      | Some pl \<Rightarrow> do {
          (r, pl) \<leftarrow> update_first (\<lambda>p. p_pid p = pd) (\<lambda>p. Some (p\<lparr>pstate := Running\<rparr>)) pl;
          Some (r, s\<lparr>PROCESS_LIST := Some pl\<rparr>)
        })"

definition set_waiting :: "u16 \<Rightarrow> 'a proc_st_scheme \<Rightarrow> (bool \<times> 'a proc_st_scheme) option" where
  "set_waiting pd s =
     (case PROCESS_LIST s of
        None \<Rightarrow> Some (False, s)
      | Some pl \<Rightarrow> do {
          (r, pl) \<leftarrow> update_first (\<lambda>p. p_pid p = pd) (\<lambda>p. Some (p\<lparr>pstate := Waiting\<rparr>)) pl;
          Some (r, s\<lparr>PROCESS_LIST := Some pl\<rparr>)
        })"

text \<open>\<^verbatim>\<open>get_mtime()\<close> reads the CLINT; its value is the argument \<open>now\<close>.\<close>

definition set_sleeping :: "usize \<Rightarrow> u16 \<Rightarrow> usize \<Rightarrow> 'a proc_st_scheme \<Rightarrow> (bool \<times> 'a proc_st_scheme) option" where
  "set_sleeping now pd duration s =
     (case PROCESS_LIST s of
        None \<Rightarrow> Some (False, s)
      | Some pl \<Rightarrow> do {
          (r, pl) \<leftarrow> update_first (\<lambda>p. p_pid p = pd)
            (\<lambda>p. do { t \<leftarrow> uadd now duration; Some (p\<lparr>pstate := Sleeping, sleep_until := t\<rparr>) }) pl;
          Some (r, s\<lparr>PROCESS_LIST := Some pl\<rparr>)
        })"

text \<open>\<^verbatim>\<open>(*p.frame).pid as u16\<close>\<close>

definition frame_pid_of :: "mem \<Rightarrow> Process \<Rightarrow> u16" where
  "frame_pid_of m p = ucast (load64 m (frame_pid (frame p)))"

definition find_index :: "('p \<Rightarrow> bool) \<Rightarrow> 'p list \<Rightarrow> nat option" where
  "find_index P ps = find (\<lambda>i. P (ps ! i)) [0..<length ps]"

text \<open>\<^verbatim>\<open>get_by_pid\<close>: the position of the process in the list stands for the pointer to it.\<close>

definition get_by_pid :: "u16 \<Rightarrow> 'a proc_st_scheme \<Rightarrow> nat option" where
  "get_by_pid pd s =
     (case PROCESS_LIST s of
        None \<Rightarrow> None
      | Some pl \<Rightarrow> find_index (\<lambda>p. frame_pid_of (memory s) p = pd) pl)"

section \<open>Destruction\<close>

text \<open>\<^verbatim>\<open>impl Drop for Process\<close>\<close>

definition Process_drop :: "Process \<Rightarrow> 'a page_st_scheme \<Rightarrow> 'a page_st_scheme option" where
  "Process_drop p s = do {
     s \<leftarrow> dealloc (stack p) s;
     s \<leftarrow> unmap (mmu_table p) s;
     s \<leftarrow> dealloc (mmu_table p) s;
     s \<leftarrow> dealloc (frame p) s;
     s \<leftarrow> for_each dealloc (pages (pdata p)) s;
     if program p \<noteq> null_mut then dealloc (program p) s else Some s
   }"

definition delete_process :: "u16 \<Rightarrow> 'a proc_st_scheme \<Rightarrow> 'a proc_st_scheme option" where
  "delete_process pd s =
     (case PROCESS_LIST s of
        None \<Rightarrow> Some s
      | Some pl \<Rightarrow>
          (case find_index (\<lambda>p. frame_pid_of (memory s) p = pd) pl of
             None \<Rightarrow> Some s
           | Some i \<Rightarrow> do {
               s \<leftarrow> Process_drop (pl ! i) s;
               Some (s\<lparr>PROCESS_LIST := Some (take i pl @ drop (Suc i) pl)\<rparr>)
             }))"

section \<open>Creation\<close>

text \<open>
  The part that both functions share: allocate, take a pid, and fill the frame. The addresses
  of the functions that a frame refers to are arguments: they are fixed by the linker.
\<close>

definition new_process :: "'a proc_st_scheme \<Rightarrow> (Process \<times> 'a proc_st_scheme) option" where
  "new_process s = do {
     let my_pid = NEXT_PID s;
     (fr, s) \<leftarrow> zalloc 1 s;
     (st, s) \<leftarrow> zalloc STACK_PAGES s;
     (tb, s) \<leftarrow> zalloc 1 s;
     let p = \<lparr>frame = fr, stack = st, p_pid = my_pid, mmu_table = tb, pstate = Running, pdata = ProcessData_new,
              sleep_until = 0, program = null_mut, brk = 0\<rparr>;
     n \<leftarrow> uadd (NEXT_PID s) 1;
     Some (p, s\<lparr>NEXT_PID := n\<rparr>)
   }"

definition init_frame :: "usize \<Rightarrow> usize \<Rightarrow> usize option \<Rightarrow> Process \<Rightarrow> mem \<Rightarrow> mem option" where
  "init_frame ra_delete_proc func_vaddr args p m = do {
     let f = frame p;
     let m = store64 m (frame_pc f) func_vaddr;
     let m = (case args of None \<Rightarrow> m | Some a \<Rightarrow> store64 m (frame_reg f A0) a);
     let m = store64 m (frame_reg f Ra) ra_delete_proc;
     sz \<leftarrow> umul STACK_PAGES 4096;
     sp \<leftarrow> uadd (stack p) sz;
     let m = store64 m (frame_reg f Sp) sp;
     let m = store64 m (frame_mode f) (CpuMode_val Machine);
     Some (store64 m (frame_pid f) (ucast (p_pid p)))
   }"

text \<open>Without a process list the new process goes out of scope unowned, so it is dropped.\<close>

definition add_kernel_process :: "usize \<Rightarrow> usize \<Rightarrow> 'a proc_st_scheme \<Rightarrow> (u16 \<times> 'a proc_st_scheme) option" where
  "add_kernel_process ra_delete_proc func s = do {
     (p, s) \<leftarrow> new_process s;
     m \<leftarrow> init_frame ra_delete_proc func None p (memory s);
     let s = s\<lparr>memory := m\<rparr>;
     case PROCESS_LIST s of
       Some pl \<Rightarrow> Some (p_pid p, s\<lparr>PROCESS_LIST := Some (pl @ [p])\<rparr>)
     | None \<Rightarrow> do {
         let s = s\<lparr>PROCESS_LIST_MUTEX := unlock (PROCESS_LIST_MUTEX s)\<rparr>;
         s \<leftarrow> Process_drop p s;
         Some (0, s)
       }
   }"

definition add_kernel_process_args :: "usize \<Rightarrow> usize \<Rightarrow> usize \<Rightarrow> 'a proc_st_scheme \<Rightarrow> (u16 \<times> 'a proc_st_scheme) option" where
  "add_kernel_process_args ra_delete_proc func args s = do {
     mx \<leftarrow> spin_lock (PROCESS_LIST_MUTEX s);
     let s = s\<lparr>PROCESS_LIST_MUTEX := mx\<rparr>;
     case PROCESS_LIST s of
       Some pl \<Rightarrow> do {
         (p, s) \<leftarrow> new_process s;
         m \<leftarrow> init_frame ra_delete_proc func (Some args) p (memory s);
         let s = s\<lparr>memory := m, PROCESS_LIST := Some (pl @ [p])\<rparr>;
         Some (p_pid p, s\<lparr>PROCESS_LIST_MUTEX := unlock (PROCESS_LIST_MUTEX s)\<rparr>)
       }
     | None \<Rightarrow> Some (0, s\<lparr>PROCESS_LIST_MUTEX := unlock (PROCESS_LIST_MUTEX s)\<rparr>)
   }"

definition process_init :: "usize \<Rightarrow> usize \<Rightarrow> 'a proc_st_scheme \<Rightarrow> (usize \<times> 'a proc_st_scheme) option" where
  "process_init ra_delete_proc init_process s = do {
     mx \<leftarrow> spin_lock (PROCESS_LIST_MUTEX s);
     let s = s\<lparr>PROCESS_LIST_MUTEX := mx, PROCESS_LIST := Some []\<rparr>;
     (_, s) \<leftarrow> add_kernel_process ra_delete_proc init_process s;
     pl \<leftarrow> PROCESS_LIST s;
     p \<leftarrow> (case pl of [] \<Rightarrow> None | q # _ \<Rightarrow> Some (frame q));
     let s = s\<lparr>PROCESS_LIST_MUTEX := unlock (PROCESS_LIST_MUTEX s)\<rparr>;
     Some (load64 (memory s) (frame_pc p), s)
   }"

section \<open>The page allocator under the process list\<close>

lemma pages_proc_fields [simp]:
  "page_inv (s\<lparr>PROCESS_LIST := pl\<rparr>) = page_inv s" "page_inv (s\<lparr>NEXT_PID := n\<rparr>) = page_inv s"
  "page_inv (s\<lparr>PROCESS_LIST_MUTEX := mx\<rparr>) = page_inv s"
  "blocks (s\<lparr>PROCESS_LIST := pl\<rparr>) = blocks s" "blocks (s\<lparr>NEXT_PID := n\<rparr>) = blocks s"
  "blocks (s\<lparr>PROCESS_LIST_MUTEX := mx\<rparr>) = blocks s"
  "page_addr (s\<lparr>PROCESS_LIST := pl\<rparr>) = page_addr s" "page_addr (s\<lparr>NEXT_PID := n\<rparr>) = page_addr s"
  "page_addr (s\<lparr>PROCESS_LIST_MUTEX := mx\<rparr>) = page_addr s"
  "num_pages (s\<lparr>PROCESS_LIST := pl\<rparr>) = num_pages s" "num_pages (s\<lparr>NEXT_PID := n\<rparr>) = num_pages s"
  "num_pages (s\<lparr>PROCESS_LIST_MUTEX := mx\<rparr>) = num_pages s"
  "page_bytes (s\<lparr>PROCESS_LIST := pl\<rparr>) = page_bytes s" "page_bytes (s\<lparr>NEXT_PID := n\<rparr>) = page_bytes s"
  "page_bytes (s\<lparr>PROCESS_LIST_MUTEX := mx\<rparr>) = page_bytes s"
  by (simp_all add: page_inv_def table_ok_def flag_at_def page_geometry_def num_pages_def page_addr_def
      blocks_def run_at_def page_bytes_def fun_eq_iff)

lemma slot_fields [simp]:
  "slot (s\<lparr>PROCESS_LIST := pl\<rparr>) = slot s" "slot (s\<lparr>NEXT_PID := n\<rparr>) = slot s"
  "slot (s\<lparr>PROCESS_LIST_MUTEX := mx\<rparr>) = slot s"
  "links_to (s\<lparr>PROCESS_LIST := pl\<rparr>) = links_to s" "links_to (s\<lparr>NEXT_PID := n\<rparr>) = links_to s"
  "links_to (s\<lparr>PROCESS_LIST_MUTEX := mx\<rparr>) = links_to s"
  by (simp_all add: slot_def slot_addr_def links_to_def fun_eq_iff split: option.split)

lemma tree_ok_fields [simp]:
  "tree_ok (s\<lparr>PROCESS_LIST := pl\<rparr>) t = tree_ok s t" "tree_ok (s\<lparr>NEXT_PID := n\<rparr>) t = tree_ok s t"
  "tree_ok (s\<lparr>PROCESS_LIST_MUTEX := mx\<rparr>) t = tree_ok s t"
  by (simp_all add: tree_ok_def leaf_of_def cong: option.case_cong)

text \<open>One more block, zeroed, apart from the rest.\<close>

lemma zalloc_block:
  assumes inv: "page_inv s" and n: "0 < n" "unat n \<le> num_pages s" and z: "zalloc n s = Some (p, s')" and p: "p \<noteq> null_mut"
  obtains j m where "s' = s\<lparr>memory := m\<rparr>" "p = page_addr s j" "j + unat n < num_pages s" "page_inv s'"
    "blocks s' = insert (j, unat n) (blocks s)" "\<forall>i l. (i, l) \<in> blocks s \<longrightarrow> i + l \<le> j \<or> j + unat n \<le> i"
    "\<forall>i < num_pages s. page_bytes s' i = (if j \<le> i \<and> i < j + unat n then replicate 4096 0 else page_bytes s i)"
proof -
  obtain m where "s' = s\<lparr>memory := m\<rparr>"
    using z p by (auto simp: zalloc_eq [OF inv n] zero_pages_def take_run_def split: option.splits)
  with pages.get_block [OF inv n z] p show ?thesis by (auto simp: null_mut_def intro: that)
qed

text \<open>Several requests in a row: new blocks, all zero, and every older block as it was.\<close>

definition gained :: "'a page_st_scheme \<Rightarrow> (nat \<times> nat) list \<Rightarrow> 'a page_st_scheme \<Rightarrow> bool" where
  "gained s bs s' \<longleftrightarrow> (\<exists>m. s' = s\<lparr>memory := m\<rparr>) \<and> page_inv s' \<and> distinct bs \<and> set bs \<inter> blocks s = {}
     \<and> blocks s' = set bs \<union> blocks s
     \<and> (\<forall>i l. (i, l) \<in> set bs \<longrightarrow> i + l < num_pages s \<and> (\<forall>k. i \<le> k \<longrightarrow> k < i + l \<longrightarrow> page_bytes s' k = replicate 4096 0))
     \<and> (\<forall>i l k. (i, l) \<in> blocks s \<longrightarrow> i \<le> k \<longrightarrow> k < i + l \<longrightarrow> page_bytes s' k = page_bytes s k)"

lemma gained_Nil: "page_inv s \<Longrightarrow> gained s [] s"
  by (auto simp: gained_def intro: exI [of _ "memory s"])

lemma gained_facts:
  assumes "gained s bs s'"
  shows "\<exists>m. s' = s\<lparr>memory := m\<rparr>" "page_inv s'" "distinct bs" "set bs \<inter> blocks s = {}" "blocks s' = set bs \<union> blocks s"
    "\<And>i l k. (i, l) \<in> set bs \<Longrightarrow> i \<le> k \<Longrightarrow> k < i + l \<Longrightarrow> page_bytes s' k = replicate 4096 0"
    "\<And>i l. (i, l) \<in> set bs \<Longrightarrow> i + l < num_pages s"
    "\<And>i l k. (i, l) \<in> blocks s \<Longrightarrow> i \<le> k \<Longrightarrow> k < i + l \<Longrightarrow> page_bytes s' k = page_bytes s k"
  using assms unfolding gained_def by blast+

lemma gained_zalloc:
  assumes g: "gained s bs s1" and n: "0 < n" "unat n \<le> num_pages s" and z: "zalloc n s1 = Some (p, s2)" and p: "p \<noteq> null_mut"
  obtains j where "p = page_addr s j" "gained s (bs @ [(j, unat n)]) s2"
proof -
  note a = g [unfolded gained_def]
  have eq: "num_pages s1 = num_pages s" "page_addr s1 = page_addr s" using a by auto
  obtain j m where s2: "s2 = s1\<lparr>memory := m\<rparr>" "p = page_addr s1 j" "j + unat n < num_pages s1" "page_inv s2"
    "blocks s2 = insert (j, unat n) (blocks s1)" "\<forall>i l. (i, l) \<in> blocks s1 \<longrightarrow> i + l \<le> j \<or> j + unat n \<le> i"
    "\<forall>i < num_pages s1. page_bytes s2 i = (if j \<le> i \<and> i < j + unat n then replicate 4096 0 else page_bytes s1 i)"
    by (rule zalloc_block [OF _ n(1) _ z p]) (use a n(2) eq in auto)
  have pos: "0 < unat n" using n(1) by (simp add: word_less_nat_alt)
  have keep: "page_bytes s2 k = page_bytes s1 k" if "(i, l) \<in> blocks s1" "i \<le> k" "k < i + l" for i l k
    using s2(6) [rule_format, OF that(1)] s2(7) pages.live_nonempty [OF that(1)] that(2,3) by auto
  have new: "(j, unat n) \<notin> blocks s1" using s2(6) [rule_format, of j "unat n"] pos by auto
  have old: "blocks s1 = set bs \<union> blocks s" using a by simp
  have "gained s (bs @ [(j, unat n)]) s2"
    unfolding gained_def
  proof (intro conjI)
    show "\<exists>m. s2 = s\<lparr>memory := m\<rparr>" using a s2(1) by auto
    show "page_inv s2" by (rule s2(4))
    show "distinct (bs @ [(j, unat n)])" "set (bs @ [(j, unat n)]) \<inter> blocks s = {}" "blocks s2 = set (bs @ [(j, unat n)]) \<union> blocks s"
      using a new old s2(5) by auto
    show "\<forall>i l k. (i, l) \<in> blocks s \<longrightarrow> i \<le> k \<longrightarrow> k < i + l \<longrightarrow> page_bytes s2 k = page_bytes s k"
    proof (intro allI impI)
      fix i l k assume b: "(i, l) \<in> blocks s" "i \<le> k" "k < i + l"
      then have "page_bytes s2 k = page_bytes s1 k" using keep old by blast
      also have "\<dots> = page_bytes s k" using a b by blast
      finally show "page_bytes s2 k = page_bytes s k" .
    qed
    show "\<forall>i l. (i, l) \<in> set (bs @ [(j, unat n)]) \<longrightarrow> i + l < num_pages s \<and> (\<forall>k. i \<le> k \<longrightarrow> k < i + l \<longrightarrow> page_bytes s2 k = replicate 4096 0)"
    proof (intro allI impI)
      fix i l assume b: "(i, l) \<in> set (bs @ [(j, unat n)])"
      show "i + l < num_pages s \<and> (\<forall>k. i \<le> k \<longrightarrow> k < i + l \<longrightarrow> page_bytes s2 k = replicate 4096 0)"
      proof (cases "(i, l) \<in> set bs")
        case True
        then have "page_bytes s2 k = page_bytes s1 k" if "i \<le> k" "k < i + l" for k using keep old that by blast
        then show ?thesis using gained_facts(6,7) [OF g True] by simp
      qed (use b s2(3,7) eq(1) in auto)
    qed
  qed
  then show ?thesis using s2(2) eq(2) by (intro that) simp_all
qed

text \<open>The pages of a process: frame, stack and root table, three new blocks.\<close>

lemma new_process_blocks:
  assumes inv: "page_inv s" and np: "35 \<le> num_pages s" and r: "new_process s = Some (p, s')"
    and nn: "frame p \<noteq> null_mut" "stack p \<noteq> null_mut" "mmu_table p \<noteq> null_mut"
  obtains jf js jt m where "s' = s\<lparr>memory := m, NEXT_PID := NEXT_PID s + 1\<rparr>" "page_inv s'"
    "frame p = page_addr s jf" "stack p = page_addr s js" "mmu_table p = page_addr s jt"
    "jf < num_pages s" "js + 35 < num_pages s" "jt < num_pages s"
    "blocks s' = {(jf, 1), (js, 35), (jt, 1)} \<union> blocks s"
    "distinct [(jf, 1 :: nat), (js, 35), (jt, 1)]" "{(jf, 1), (js, 35), (jt, 1)} \<inter> blocks s = {}"
    "page_bytes s' jt = replicate 4096 0"
    "\<forall>i l k. (i, l) \<in> blocks s \<longrightarrow> i \<le> k \<longrightarrow> k < i + l \<longrightarrow> page_bytes s' k = page_bytes s k"
    "p_pid p = NEXT_PID s" "pdata p = ProcessData_new" "program p = null_mut" "pstate p = Running"
proof -
  obtain fr s1 st s2 tb s3 where z: "zalloc 1 s = Some (fr, s1)" "zalloc STACK_PAGES s1 = Some (st, s2)"
    "zalloc 1 s2 = Some (tb, s3)" and n1: "uadd (NEXT_PID s3) 1 = Some (NEXT_PID s3 + 1)"
    and s': "s' = s3\<lparr>NEXT_PID := NEXT_PID s3 + 1\<rparr>"
    and p: "p = \<lparr>frame = fr, stack = st, p_pid = NEXT_PID s, mmu_table = tb, pstate = Running, pdata = ProcessData_new,
              sleep_until = 0, program = null_mut, brk = 0\<rparr>"
    using r unfolding new_process_def by (auto simp: Let_def uadd_eq_Some split: bind_splits)
  have one: "0 < (1 :: usize)" "unat (1 :: usize) \<le> num_pages s" using np by simp_all
  have stk: "0 < STACK_PAGES" "unat STACK_PAGES \<le> num_pages s" "unat STACK_PAGES = 35" using np by (simp_all add: STACK_PAGES_def)
  have nn': "fr \<noteq> null_mut" "st \<noteq> null_mut" "tb \<noteq> null_mut" using nn p by simp_all
  obtain jf where f: "fr = page_addr s jf" "gained s ([] @ [(jf, unat (1 :: usize))]) s1"
    by (rule gained_zalloc [OF gained_Nil [OF inv] one z(1) nn'(1)])
  obtain js where st: "st = page_addr s js" "gained s (([] @ [(jf, unat (1 :: usize))]) @ [(js, unat STACK_PAGES)]) s2"
    by (rule gained_zalloc [OF f(2) stk(1,2) z(2) nn'(2)])
  obtain jt where tb: "tb = page_addr s jt" "gained s ((([] @ [(jf, unat (1 :: usize))]) @ [(js, unat STACK_PAGES)]) @ [(jt, unat (1 :: usize))]) s3"
    by (rule gained_zalloc [OF st(2) one z(3) nn'(3)])
  have g: "gained s [(jf, 1), (js, 35), (jt, 1)] s3" using tb(2) stk(3) by simp
  note d = gained_facts [OF g]
  obtain m where m: "s3 = s\<lparr>memory := m\<rparr>" using d(1) by blast
  have pd: "NEXT_PID s3 = NEXT_PID s" using m by simp
  have zt: "page_bytes s3 jt = replicate 4096 0" using d(6) [of jt 1 jt] by simp
  have lt: "jf + 1 < num_pages s" "js + 35 < num_pages s" "jt + 1 < num_pages s" using d(7) [of jf 1] d(7) [of js 35] d(7) [of jt 1] by simp_all
  have s'm: "s' = s\<lparr>memory := m, NEXT_PID := NEXT_PID s + 1\<rparr>" using s' m pd by simp
  have e: "page_inv s' = page_inv s3" "blocks s' = blocks s3" "page_bytes s' = page_bytes s3" using s' by simp_all
  show ?thesis
  proof (rule that [of m jf js jt])
    show "blocks s' = {(jf, 1), (js, 35), (jt, 1)} \<union> blocks s" "{(jf, 1), (js, 35), (jt, 1)} \<inter> blocks s = {}"
      using d(4,5) e(2) by simp_all
    show "\<forall>i l k. (i, l) \<in> blocks s \<longrightarrow> i \<le> k \<longrightarrow> k < i + l \<longrightarrow> page_bytes s' k = page_bytes s k"
      using d(8) e(3) by simp
  qed (use s'm p f(1) st(1) tb(1) zt lt d(2,3) e in simp_all)
qed

section \<open>Giving the pages back\<close>

lemma dealloc_block_same:
  assumes "same_pages s s1" and "(j, l) \<in> blocks s1"
  shows "\<exists>s2. dealloc (page_addr s j) s1 = Some s2 \<and> same_pages s s2 \<and> blocks s2 = blocks s1 - {(j, l)}"
  using pages.put_block [of s1 j l] assms by (auto simp: same_pages_def)

lemma for_each_dealloc:
  assumes "same_pages s s1" and "distinct qs" and "set qs \<subseteq> blocks s1"
  shows "\<exists>s2. for_each dealloc (map (page_addr s \<circ> fst) qs) s1 = Some s2 \<and> same_pages s s2 \<and> blocks s2 = blocks s1 - set qs"
  using assms
proof (induction qs arbitrary: s1)
  case (Cons q qs)
  obtain s2 where s2: "dealloc (page_addr s (fst q)) s1 = Some s2" "same_pages s s2" "blocks s2 = blocks s1 - {q}"
    using dealloc_block_same [OF Cons.prems(1), of "fst q" "snd q"] Cons.prems(3) by auto
  have "set qs \<subseteq> blocks s2" using Cons.prems s2(3) by auto
  from Cons.IH [OF s2(2) _ this] s2 Cons.prems(2) show ?case by auto
qed simp

lemma tree_ok_same_pages:
  assumes "tree_ok s t" and "same_pages s s1" and "\<And>p j. t p = Some j \<Longrightarrow> (j, 1) \<in> blocks s1"
  shows "tree_ok s1 t"
  using assms tree_okD(5) [OF assms(1)] by (intro tree_ok_cong [OF assms(1)]) (auto simp: same_pages_def)

text \<open>What a process owns: the blocks its \<^verbatim>\<open>drop\<close> has to free.\<close>

definition owns :: "'a page_st_scheme \<Rightarrow> Process \<Rightarrow> tree \<Rightarrow> (nat \<times> nat) list \<Rightarrow> bool" where
  "owns s p t bs \<longleftrightarrow> tree_ok s t \<and> (\<exists>r. t Root = Some r \<and> mmu_table p = page_addr s r)
     \<and> distinct bs \<and> set bs \<subseteq> blocks s \<and> set bs \<inter> table_blocks t = {}
     \<and> (\<exists>js jf ls lf qs. stack p = page_addr s js \<and> frame p = page_addr s jf \<and> pages (pdata p) = map (page_addr s \<circ> fst) qs
          \<and> (if program p = null_mut then bs = (js, ls) # (jf, lf) # qs
             else \<exists>jp lp. program p = page_addr s jp \<and> bs = (js, ls) # (jf, lf) # qs @ [(jp, lp)]))"

lemma owns_process_list [simp]: "owns (s\<lparr>PROCESS_LIST := pl\<rparr>) p t bs = owns s p t bs"
  by (simp only: owns_def tree_ok_fields pages_proc_fields)

lemma table_blocks_sub: "tree_ok s t \<Longrightarrow> t Root = Some r \<Longrightarrow> table_blocks t = insert (r, 1) (sub_blocks t 512)"
  by (simp add: sub_blocks_all) (auto simp: table_blocks_def, metis option.inject)

lemma Process_drop_frees:
  assumes ow: "owns s p t bs"
  shows "\<exists>s'. Process_drop p s = Some s' \<and> same_pages s s' \<and> blocks s' = blocks s - set bs - table_blocks t"
proof -
  obtain r js jf ls lf qs where r: "t Root = Some r" "mmu_table p = page_addr s r" and ok: "tree_ok s t"
    and bs: "distinct bs" "set bs \<subseteq> blocks s" "set bs \<inter> table_blocks t = {}"
    and p: "stack p = page_addr s js" "frame p = page_addr s jf" "pages (pdata p) = map (page_addr s \<circ> fst) qs"
    and pr: "if program p = null_mut then bs = (js, ls) # (jf, lf) # qs
             else \<exists>jp lp. program p = page_addr s jp \<and> bs = (js, ls) # (jf, lf) # qs @ [(jp, lp)]"
    using ow unfolding owns_def by blast
  note d = tree_okD [OF ok]
  define rest where "rest = (if program p = null_mut then [] else drop (2 + length qs) bs)"
  have bl: "bs = (js, ls) # (jf, lf) # qs @ rest" using pr by (auto simp: rest_def split: if_splits)
  have tb: "table_blocks t \<subseteq> blocks s" using d(4) by (auto simp: table_blocks_def)
  have sp0: "same_pages s s" using d(1) by (simp add: same_pages_def)
  obtain s1 where s1: "dealloc (stack p) s = Some s1" "same_pages s s1" "blocks s1 = blocks s - {(js, ls)}"
    using dealloc_block_same [OF sp0, of js ls] bs(2) bl p(1) by auto
  have ok1: "tree_ok s1 t"
  proof (rule tree_ok_same_pages [OF ok s1(2)])
    fix q j assume "t q = Some j"
    then have "(j, 1) \<in> table_blocks t" by (auto simp: table_blocks_def)
    then show "(j, 1) \<in> blocks s1" using tb s1(3) bs(3) bl by auto
  qed
  have pa: "page_addr s1 = page_addr s" using s1(2) by (simp add: same_pages_def)
  obtain s2 where s2: "unmap (mmu_table p) s1 = Some s2" "same_pages s1 s2" "blocks s2 = blocks s1 - sub_blocks t 512"
    using unmap_tree [OF ok1 r(1)] r(2) pa by auto
  have sp2: "same_pages s s2" using s1(2) s2(2) by (auto simp: same_pages_def)
  note tbl = table_blocks_sub [OF ok r(1)]
  have "(r, 1) \<in> blocks s2"
  proof -
    have "(r, 1) \<notin> sub_blocks t 512" using d(6) r(1) unfolding sub_blocks_all [OF ok] by auto
    moreover have "(r, 1) \<noteq> (js, ls)" using bs(3) bl tbl by auto
    ultimately show ?thesis using s2(3) s1(3) d(4) [OF r(1)] by simp
  qed
  then obtain s3 where s3: "dealloc (mmu_table p) s2 = Some s3" "same_pages s s3" "blocks s3 = blocks s2 - {(r, 1)}"
    using dealloc_block_same [OF sp2, of r 1] r(2) by auto
  have b3: "blocks s3 = blocks s - {(js, ls)} - table_blocks t" using s3(3) s2(3) s1(3) tbl by auto
  have "(jf, lf) \<in> blocks s3" using b3 bs bl by auto
  then obtain s4 where s4: "dealloc (frame p) s3 = Some s4" "same_pages s s4" "blocks s4 = blocks s3 - {(jf, lf)}"
    using dealloc_block_same [OF s3(2), of jf lf] p(2) by auto
  have "distinct qs" "set qs \<subseteq> blocks s4" using b3 s4(3) bs bl by auto
  then obtain s5 where s5: "for_each dealloc (pages (pdata p)) s4 = Some s5" "same_pages s s5" "blocks s5 = blocks s4 - set qs"
    using for_each_dealloc [OF s4(2), of qs] p(3) by auto
  have "\<exists>s6. (if program p \<noteq> null_mut then dealloc (program p) s5 else Some s5) = Some s6 \<and> same_pages s s6 \<and> blocks s6 = blocks s5 - set rest"
  proof (cases "program p = null_mut")
    case True
    then show ?thesis using s5(2) by (simp add: rest_def)
  next
    case False
    then obtain jp lp where "program p = page_addr s jp" "rest = [(jp, lp)]" using pr by (auto simp: rest_def)
    moreover from this have "(jp, lp) \<in> blocks s5" using b3 s4(3) s5(3) bs bl by auto
    ultimately show ?thesis using dealloc_block_same [OF s5(2), of jp lp] False by auto
  qed
  then obtain s6 where s6: "(if program p \<noteq> null_mut then dealloc (program p) s5 else Some s5) = Some s6" "same_pages s s6"
    "blocks s6 = blocks s5 - set rest" by blast
  have "blocks s6 = blocks s - {(js, ls)} - table_blocks t - {(jf, lf)} - set qs - set rest"
    using s6(3) b3 s4(3) s5(3) by simp
  also have "\<dots> = blocks s - set bs - table_blocks t" unfolding bl by auto
  finally show ?thesis
    unfolding Process_drop_def s1(1) s2(1) s3(1) s4(1) s5(1) bind.bind_lunit using s6(1,2) by blast
qed


section \<open>Frames\<close>

text \<open>The fields of a frame in page \<open>j\<close> are slots of that page.\<close>

lemma frame_slots:
  "frame_pc (page_addr s j) = slot_addr s j 65" "frame_pid (page_addr s j) = slot_addr s j 68"
  "frame_mode (page_addr s j) = slot_addr s j 69" "frame_reg (page_addr s j) rg = slot_addr s j (gp rg)"
  by (simp_all add: frame_pc_def frame_pid_def frame_mode_def frame_reg_def slot_addr_def)

lemma put_slot_twice: "memory (put_slot j k e s) = store64 (memory s) (slot_addr s j k) e"
  by (simp add: put_slot_def)

text \<open>The values \<^verbatim>\<open>add_kernel_process\<close> leaves in the frame.\<close>

definition frame_ready :: "'a page_st_scheme \<Rightarrow> nat \<Rightarrow> usize \<Rightarrow> usize \<Rightarrow> usize \<Rightarrow> u16 \<Rightarrow> bool" where
  "frame_ready s j pcv ra sp pd \<longleftrightarrow> slot s j 65 = pcv \<and> slot s j (gp Ra) = ra \<and> slot s j (gp Sp) = sp
     \<and> slot s j 69 = CpuMode_val Machine \<and> slot s j 68 = ucast pd"

lemma init_frame_ready:
  assumes inv: "page_inv s" and j: "j < num_pages s" and f: "frame p = page_addr s j"
    and st: "stack p = page_addr s js" "js + 35 < num_pages s"
  obtains m where "init_frame ra fn None p (memory s) = Some m" "page_inv (s\<lparr>memory := m\<rparr>)"
    "blocks (s\<lparr>memory := m\<rparr>) = blocks s" "\<forall>i < num_pages s. i \<noteq> j \<longrightarrow> page_bytes (s\<lparr>memory := m\<rparr>) i = page_bytes s i"
    "frame_ready (s\<lparr>memory := m\<rparr>) j fn ra (stack p + 0x23000) (p_pid p)"
proof -
  let ?s1 = "put_slot j 65 fn s"
  let ?s2 = "put_slot j (gp Ra) ra ?s1"
  let ?s3 = "put_slot j (gp Sp) (stack p + 0x23000) ?s2"
  let ?s4 = "put_slot j 69 (CpuMode_val Machine) ?s3"
  let ?s5 = "put_slot j 68 (ucast (p_pid p)) ?s4"
  have geo: "page_geometry s" using inv by (simp add: page_inv_def)
  have up: "umul STACK_PAGES 4096 = Some 0x23000" by (simp add: umul_def STACK_PAGES_def)
  have "unat (stack p) = unat (ALLOC_START s) + 4096 * js"
    using page_addr_checked(3) [OF geo, of js] st by simp
  then have "uadd (stack p) 0x23000 = Some (stack p + 0x23000)"
    using st(2) geo by (simp add: uadd_def page_geometry_def)
  then have r: "init_frame ra fn None p (memory s) = Some (memory ?s5)"
    using up f by (simp add: init_frame_def frame_slots put_slot_twice Let_def)
  have m: "s\<lparr>memory := memory ?s5\<rparr> = ?s5" by (simp add: put_slot_def slot_addr_def)
  have g: "gp Ra = 1" "gp Sp = 2" by simp_all
  have "page_inv ?s5" "blocks ?s5 = blocks s" using inv j by (simp_all add: put_slot_pages)
  moreover have "\<forall>i < num_pages s. i \<noteq> j \<longrightarrow> page_bytes ?s5 i = page_bytes s i"
    using geo j by (simp add: page_bytes_put_slot)
  moreover have "frame_ready ?s5 j fn ra (stack p + 0x23000) (p_pid p)"
    unfolding frame_ready_def g using geo j by (simp add: slot_put_slot)
  ultimately show ?thesis using that [of "memory ?s5"] r m by simp
qed


lemma add_kernel_process_facts:
  assumes "page_inv s" and "35 \<le> num_pages s" and "PROCESS_LIST s = Some pl"
    and "new_process s = Some (p, s0)" and "frame p \<noteq> null_mut" and "stack p \<noteq> null_mut" and "mmu_table p \<noteq> null_mut"
  obtains s' jf js jt where "add_kernel_process ra fn s = Some (NEXT_PID s, s')" "PROCESS_LIST s' = Some (pl @ [p])"
    "p_pid p = NEXT_PID s" "pstate p = Running" "NEXT_PID s' = NEXT_PID s + 1"
    "frame p = page_addr s jf" "stack p = page_addr s js" "mmu_table p = page_addr s jt"
    "frame_ready s' jf fn ra (page_addr s js + 0x23000) (NEXT_PID s)"
    "page_inv s'" "blocks s' = {(jf, 1), (js, 35), (jt, 1)} \<union> blocks s" "{(jf, 1), (js, 35), (jt, 1)} \<inter> blocks s = {}"
    "\<forall>i l k. (i, l) \<in> blocks s \<longrightarrow> i \<le> k \<longrightarrow> k < i + l \<longrightarrow> page_bytes s' k = page_bytes s k"
    "distinct [(jf, 1 :: nat), (js, 35), (jt, 1)]" "page_bytes s' jt = replicate 4096 0" "page_addr s' = page_addr s"
    "pdata p = ProcessData_new" "program p = null_mut"
proof -
  obtain jf js jt m where s0: "s0 = s\<lparr>memory := m, NEXT_PID := NEXT_PID s + 1\<rparr>" "page_inv s0"
    "frame p = page_addr s jf" "stack p = page_addr s js" "mmu_table p = page_addr s jt"
    "jf < num_pages s" "js + 35 < num_pages s" "jt < num_pages s"
    "blocks s0 = {(jf, 1), (js, 35), (jt, 1)} \<union> blocks s"
    "distinct [(jf, 1 :: nat), (js, 35), (jt, 1)]" "{(jf, 1), (js, 35), (jt, 1)} \<inter> blocks s = {}"
    "page_bytes s0 jt = replicate 4096 0"
    "\<forall>i l k. (i, l) \<in> blocks s \<longrightarrow> i \<le> k \<longrightarrow> k < i + l \<longrightarrow> page_bytes s0 k = page_bytes s k"
    "p_pid p = NEXT_PID s" "pdata p = ProcessData_new" "program p = null_mut" "pstate p = Running"
    by (rule new_process_blocks [OF assms(1,2,4-7)])
  have e: "num_pages s0 = num_pages s" "page_addr s0 = page_addr s" "PROCESS_LIST s0 = Some pl" "NEXT_PID s0 = NEXT_PID s + 1"
    using s0(1) assms(3) by simp_all
  obtain m' where m': "init_frame ra fn None p (memory s0) = Some m'" "page_inv (s0\<lparr>memory := m'\<rparr>)"
    "blocks (s0\<lparr>memory := m'\<rparr>) = blocks s0" "\<forall>i < num_pages s0. i \<noteq> jf \<longrightarrow> page_bytes (s0\<lparr>memory := m'\<rparr>) i = page_bytes s0 i"
    "frame_ready (s0\<lparr>memory := m'\<rparr>) jf fn ra (stack p + 0x23000) (p_pid p)"
    using init_frame_ready [OF s0(2), of jf p js] s0 e by metis
  let ?s = "s0\<lparr>memory := m', PROCESS_LIST := Some (pl @ [p])\<rparr>"
  have "add_kernel_process ra fn s = Some (NEXT_PID s, ?s)"
    using assms(4) m'(1) e(3) s0(14) by (simp add: add_kernel_process_def)
  moreover have "page_bytes ?s k = page_bytes s k" if b: "(i, l) \<in> blocks s" "i \<le> k" "k < i + l" for i l k
  proof -
    have "(i, l) \<noteq> (jf, 1)" using s0(11) b(1) by auto
    then have "k \<noteq> jf" using pages.live_apart [of i l ?s jf 1] m'(3) s0(9) b by auto
    moreover have "k < num_pages s" using pages.live_nonempty [OF b(1)] b(3) by simp
    ultimately show ?thesis using m'(4) s0(13) b e(1) by simp
  qed
  moreover have "frame_ready ?s jf fn ra (page_addr s js + 0x23000) (NEXT_PID s)"
    using m'(5) s0(4,14) by (simp add: frame_ready_def)
  moreover have "page_bytes ?s jt = replicate 4096 0"
    using m'(4) s0(8,10,12) e(1) by simp
  ultimately show ?thesis
    by (intro that [of ?s jf js jt]) (use m' s0 e in simp_all)
qed



lemma empty_tree_ok:
  assumes "page_inv s" "(j, 1) \<in> blocks s" "page_bytes s j = replicate 4096 0"
  shows "tree_ok s (\<lambda>p. if p = Root then Some j else None)" "table_blocks (\<lambda>p. if p = Root then Some j else None) = {(j, 1)}"
proof -
  have "slot s j k = 0" if "k < 512" for k using assms(3) that by (rule slot_zero)
  then show "tree_ok s (\<lambda>p. if p = Root then Some j else None)"
    using assms(1,2) by (auto simp: tree_ok_def links_to_def leaf_of_def leaf_ok_def split: if_splits elim: upper.elims)
  show "table_blocks (\<lambda>p. if p = Root then Some j else None) = {(j, 1)}" by (auto simp: table_blocks_def)
qed

lemma ucast_pid: "(ucast (ucast (pd :: u16) :: u64) :: u16) = pd"
  by (rule bit_word_eqI) (simp add: bit_simps)

lemma frame_pid_slot: "frame q = page_addr s j \<Longrightarrow> frame_pid_of (memory s) q = ucast (slot s j 68)"
  by (simp add: frame_pid_of_def frame_slots slot_def)

section \<open>An example\<close>

text \<open>A machine of 64 pages, none in use, with an empty process list.\<close>

definition example_procs :: proc_st where
  "example_procs = \<lparr>memory = \<lambda>_. 0, HEAP_START = 0x10000, HEAP_SIZE = 0x40000, ALLOC_START = 0x11000,
     KMEM_HEAD = 0, KMEM_ALLOC = 0, KMEM_PAGE_TABLE = 0,
     PROCESS_LIST = Some [], PROCESS_LIST_MUTEX = Mutex_new, NEXT_PID = 1\<rparr>"

section \<open>Changing the state of a process\<close>

lemma find_map_list: "find P (map f xs) = map_option f (find (\<lambda>x. P (f x)) xs)"
  by (induction xs) simp_all

lemma update_first_spec:
  "update_first P f xs = (case find_index P xs of None \<Rightarrow> Some (False, xs)
     | Some i \<Rightarrow> (case f (xs ! i) of None \<Rightarrow> None | Some y \<Rightarrow> Some (True, xs[i := y])))"
proof (induction xs)
  case (Cons x xs)
  have up: "[0..<length (x # xs)] = 0 # map Suc [0..<length xs]" by (simp add: map_Suc_upt upt_conv_Cons del: upt_Suc)
  have "find_index P (x # xs) = (if P x then Some 0 else map_option Suc (find_index P xs))"
    unfolding find_index_def up by (simp add: find_map_list)
  then show ?case using Cons by (auto split: option.splits bind_splits)
qed (simp add: find_index_def)

lemma find_index_Some:
  "find_index P xs = Some i \<longleftrightarrow> i < length xs \<and> P (xs ! i) \<and> (\<forall>k < i. \<not> P (xs ! k))"
  by (auto simp: find_index_def find_Some_iff intro: exI [of _ i])

lemma find_index_None: "find_index P xs = None \<longleftrightarrow> (\<forall>x \<in> set xs. \<not> P x)"
  unfolding find_index_def find_None_iff by (auto simp: all_set_conv_all_nth)

text \<open>
  \<^verbatim>\<open>set_running\<close>, \<^verbatim>\<open>set_waiting\<close> and \<^verbatim>\<open>set_sleeping\<close> change the state of the first process with the pid
  and nothing else; they report whether there is one. \<^verbatim>\<open>set_sleeping\<close> also sets the wake-up time.
\<close>
lemma set_state_first_match:
  assumes "PROCESS_LIST s = Some pl" and "find_index (\<lambda>p. p_pid p = pd) pl = Some i" and "unat now + unat dur < 2 ^ 64"
  shows "set_running pd s = Some (True, s\<lparr>PROCESS_LIST := Some (pl[i := (pl ! i)\<lparr>pstate := Running\<rparr>])\<rparr>)
    \<and> set_waiting pd s = Some (True, s\<lparr>PROCESS_LIST := Some (pl[i := (pl ! i)\<lparr>pstate := Waiting\<rparr>])\<rparr>)
    \<and> set_sleeping now pd dur s =
        Some (True, s\<lparr>PROCESS_LIST := Some (pl[i := (pl ! i)\<lparr>pstate := Sleeping, sleep_until := now + dur\<rparr>])\<rparr>)"
  using assms by (simp add: set_running_def set_waiting_def set_sleeping_def update_first_spec uadd_def)

lemma frame_pid_kept:
  assumes "frame q = page_addr s j" "page_bytes s1 j = page_bytes s j" "page_addr s1 = page_addr s"
  shows "frame_pid_of (memory s1) q = frame_pid_of (memory s) q"
proof -
  have "slot s1 j 68 = slot s j 68" using assms(2) by (rule slot_cong) simp
  then show ?thesis using frame_pid_slot [of q s j] frame_pid_slot [of q s1 j] assms(1,3) by simp
qed

text \<open>Deleting the last process of the list by its pid: no other one carries it.\<close>

lemma delete_process_last:
  assumes pl: "PROCESS_LIST s = Some (pl @ [p])" and ow: "owns s p t bs" and fp: "frame_pid_of (memory s) p = pd"
    and old: "\<And>q. q \<in> set pl \<Longrightarrow> frame_pid_of (memory s) q \<noteq> pd"
  obtains s' where "delete_process pd s = Some s'" "PROCESS_LIST s' = Some pl" "page_inv s'" "blocks s' = blocks s - set bs - table_blocks t"
proof -
  obtain s2 where s2: "Process_drop p s = Some s2" "same_pages s s2" "blocks s2 = blocks s - set bs - table_blocks t"
    using Process_drop_frees [OF ow] by blast
  have "find_index (\<lambda>q. frame_pid_of (memory s) q = pd) (pl @ [p]) = Some (length pl)"
    using fp old by (simp add: find_index_Some nth_append)
  then have "delete_process pd s = Some (s2\<lparr>PROCESS_LIST := Some pl\<rparr>)" using pl s2(1) by (simp add: delete_process_def)
  then show ?thesis using that [of "s2\<lparr>PROCESS_LIST := Some pl\<rparr>"] s2(2,3) by (simp add: same_pages_def)
qed

text \<open>Whether or not there is memory, \<^verbatim>\<open>add_kernel_process\<close> returns the next pid and appends a process with it.\<close>

lemma zalloc_total:
  assumes "page_inv s" "0 < n" "unat n \<le> num_pages s"
  obtains p m where "zalloc n s = Some (p, s\<lparr>memory := m\<rparr>)" "page_inv (s\<lparr>memory := m\<rparr>)" "unat p + 4096 * unat n < 2 ^ 64"
proof -
  have geo: "page_geometry s" using assms(1) by (simp add: page_inv_def)
  show ?thesis
  proof (cases "find (free_run s (unat n)) [0..<num_pages s - unat n]")
    case None
    then show ?thesis
      using that [of null_mut "memory s"] zalloc_eq [OF assms] assms(1,3) geo by (simp add: page_geometry_def null_mut_def)
  next
    case (Some i)
    then obtain p s' where z: "zalloc n s = Some (p, s')" "p = page_addr s i" using zalloc_eq [OF assms] by auto
    have "i < num_pages s" using Some by (auto simp: find_Some_iff)
    from page_addr_checked(3) [OF geo this] have nn: "p \<noteq> null_mut"
      using geo z(2) by (auto simp: page_geometry_def null_mut_def unat_eq_zero [symmetric])
    obtain j m where j: "s' = s\<lparr>memory := m\<rparr>" "p = page_addr s j" "j + unat n < num_pages s" "page_inv s'"
      by (rule zalloc_block [OF assms z(1) nn]) blast
    have "unat p = unat (ALLOC_START s) + 4096 * j" unfolding j(2) by (rule page_addr_checked(3) [OF geo]) (use j(3) in simp)
    then show ?thesis using that [of p m] z(1) j geo by (simp add: page_geometry_def)
  qed
qed

lemma add_kernel_process_returns:
  assumes inv: "page_inv s" and np: "35 \<le> num_pages s" and pl: "PROCESS_LIST s = Some pl" and pd: "NEXT_PID s < 0xffff"
  obtains q m where "add_kernel_process ra fn s = Some (NEXT_PID s, s\<lparr>memory := m, PROCESS_LIST := Some (pl @ [q]), NEXT_PID := NEXT_PID s + 1\<rparr>)"
    "p_pid q = NEXT_PID s"
proof -
  have u: "0 < STACK_PAGES" "unat STACK_PAGES = 35" by (simp_all add: STACK_PAGES_def)
  obtain fr m1 where z1: "zalloc 1 s = Some (fr, s\<lparr>memory := m1\<rparr>)" "page_inv (s\<lparr>memory := m1\<rparr>)"
    by (rule zalloc_total [OF inv, of 1]) (use np in simp_all)
  obtain st m2 where z2: "zalloc STACK_PAGES (s\<lparr>memory := m1\<rparr>) = Some (st, s\<lparr>memory := m1\<rparr>\<lparr>memory := m2\<rparr>)"
    "page_inv (s\<lparr>memory := m1\<rparr>\<lparr>memory := m2\<rparr>)" "unat st + 4096 * unat STACK_PAGES < 2 ^ 64"
    by (rule zalloc_total [OF z1(2) u(1)]) (use np u in simp_all)
  obtain tb m3 where z3: "zalloc 1 (s\<lparr>memory := m1\<rparr>\<lparr>memory := m2\<rparr>) = Some (tb, s\<lparr>memory := m1\<rparr>\<lparr>memory := m2\<rparr>\<lparr>memory := m3\<rparr>)"
    by (rule zalloc_total [OF z2(2), of 1]) (use np in simp_all)
  let ?p = "\<lparr>frame = fr, stack = st, p_pid = NEXT_PID s, mmu_table = tb, pstate = Running, pdata = ProcessData_new,
    sleep_until = 0, program = null_mut, brk = 0\<rparr>"
  have "uadd (NEXT_PID s) 1 = Some (NEXT_PID s + 1)" using pd by (simp add: uadd_def word_less_nat_alt)
  then have n: "new_process s = Some (?p, s\<lparr>memory := m3\<rparr>\<lparr>NEXT_PID := NEXT_PID s + 1\<rparr>)"
    using z1(1) z2(1) z3 by (simp add: new_process_def)
  obtain m where "init_frame ra fn None ?p m3 = Some m"
    using z2(3) by (simp add: init_frame_def umul_def uadd_def STACK_PAGES_def Let_def)
  then show ?thesis
    using that [of ?p m] n pl by (simp add: add_kernel_process_def)
qed

section \<open>Properties\<close>

text \<open>
  A new kernel process is ready to run. When the three allocations succeed,
  \<^verbatim>\<open>add_kernel_process\<close> returns the next pid and appends one running process with that pid; its
  frame starts at the function given, returns to \<^verbatim>\<open>ra_delete_proc\<close>, has its stack pointer at the end of the
  35 stack pages, runs in machine mode and carries the pid; the three blocks are new and
  every page of a block already in use keeps its contents.
\<close>
lemma add_kernel_process_ready:
  assumes "page_inv s" and "35 \<le> num_pages s" and "PROCESS_LIST s = Some pl"
    and "new_process s = Some (p, s0)" and "frame p \<noteq> null_mut" and "stack p \<noteq> null_mut" and "mmu_table p \<noteq> null_mut"
  shows "\<exists>s' jf js jt. add_kernel_process ra fn s = Some (NEXT_PID s, s') \<and> PROCESS_LIST s' = Some (pl @ [p])
    \<and> p_pid p = NEXT_PID s \<and> pstate p = Running \<and> NEXT_PID s' = NEXT_PID s + 1
    \<and> frame p = page_addr s jf \<and> stack p = page_addr s js \<and> mmu_table p = page_addr s jt
    \<and> frame_ready s' jf fn ra (page_addr s js + 35 * 4096) (NEXT_PID s)
    \<and> page_inv s' \<and> blocks s' = {(jf, 1), (js, 35), (jt, 1)} \<union> blocks s \<and> {(jf, 1), (js, 35), (jt, 1)} \<inter> blocks s = {}
    \<and> (\<forall>i l k. (i, l) \<in> blocks s \<longrightarrow> i \<le> k \<longrightarrow> k < i + l \<longrightarrow> page_bytes s' k = page_bytes s k)"
proof -
  obtain s' jf js jt where "add_kernel_process ra fn s = Some (NEXT_PID s, s')" "PROCESS_LIST s' = Some (pl @ [p])"
    "p_pid p = NEXT_PID s" "pstate p = Running" "NEXT_PID s' = NEXT_PID s + 1"
    "frame p = page_addr s jf" "stack p = page_addr s js" "mmu_table p = page_addr s jt"
    "frame_ready s' jf fn ra (page_addr s js + 0x23000) (NEXT_PID s)"
    "page_inv s'" "blocks s' = {(jf, 1), (js, 35), (jt, 1)} \<union> blocks s" "{(jf, 1), (js, 35), (jt, 1)} \<inter> blocks s = {}"
    "\<forall>i l k. (i, l) \<in> blocks s \<longrightarrow> i \<le> k \<longrightarrow> k < i + l \<longrightarrow> page_bytes s' k = page_bytes s k"
    "distinct [(jf, 1 :: nat), (js, 35), (jt, 1)]" "page_bytes s' jt = replicate 4096 0" "page_addr s' = page_addr s"
    "pdata p = ProcessData_new" "program p = null_mut"
    by (rule add_kernel_process_facts [OF assms])
  then show ?thesis by (intro exI [of _ s'] exI [of _ jf] exI [of _ js] exI [of _ jt]) simp
qed

text \<open>
  Creating a kernel process and deleting it by its pid leaks nothing. After
  \<^verbatim>\<open>add_kernel_process\<close> and \<^verbatim>\<open>delete_process\<close> with the pid it returned, the process list and the blocks in use
  are what they were, provided no older process carries that pid in its frame.
\<close>
lemma create_delete_no_leak:
  assumes "page_inv s" and "35 \<le> num_pages s" and pl: "PROCESS_LIST s = Some pl"
    and "new_process s = Some (p, s0)" and "frame p \<noteq> null_mut" and "stack p \<noteq> null_mut" and "mmu_table p \<noteq> null_mut"
    and old: "\<forall>q \<in> set pl. \<exists>j. frame q = page_addr s j \<and> (j, 1) \<in> blocks s \<and> frame_pid_of (memory s) q \<noteq> NEXT_PID s"
  shows "\<exists>s1 s2. add_kernel_process ra fn s = Some (NEXT_PID s, s1) \<and> delete_process (NEXT_PID s) s1 = Some s2
    \<and> PROCESS_LIST s2 = Some pl \<and> blocks s2 = blocks s \<and> page_inv s2"
proof -
  obtain s1 jf js jt where a: "add_kernel_process ra fn s = Some (NEXT_PID s, s1)" "PROCESS_LIST s1 = Some (pl @ [p])"
    "p_pid p = NEXT_PID s" "pstate p = Running" "NEXT_PID s1 = NEXT_PID s + 1"
    "frame p = page_addr s jf" "stack p = page_addr s js" "mmu_table p = page_addr s jt"
    "frame_ready s1 jf fn ra (page_addr s js + 0x23000) (NEXT_PID s)"
    "page_inv s1" "blocks s1 = {(jf, 1), (js, 35), (jt, 1)} \<union> blocks s" "{(jf, 1), (js, 35), (jt, 1)} \<inter> blocks s = {}"
    "\<forall>i l k. (i, l) \<in> blocks s \<longrightarrow> i \<le> k \<longrightarrow> k < i + l \<longrightarrow> page_bytes s1 k = page_bytes s k"
    "distinct [(jf, 1 :: nat), (js, 35), (jt, 1)]" "page_bytes s1 jt = replicate 4096 0" "page_addr s1 = page_addr s"
    "pdata p = ProcessData_new" "program p = null_mut"
    by (rule add_kernel_process_facts [OF assms(1-7)])
  let ?t = "\<lambda>q. if q = Root then Some jt else None"
  have "(jt, 1) \<in> blocks s1" using a(11) by simp
  note t = empty_tree_ok [OF a(10) this a(15)]
  have "owns s1 p ?t [(js, 35), (jf, 1)]"
    unfolding owns_def t(2) using t(1) a by (auto simp: ProcessData_new_def)
  moreover have "frame_pid_of (memory s1) p = NEXT_PID s"
    using frame_pid_slot [of p s1 jf] a(6,9,16) by (simp add: frame_ready_def ucast_pid)
  moreover have "frame_pid_of (memory s1) q \<noteq> NEXT_PID s" if "q \<in> set pl" for q
  proof -
    obtain j where j: "frame q = page_addr s j" "(j, 1) \<in> blocks s" "frame_pid_of (memory s) q \<noteq> NEXT_PID s"
      using old \<open>q \<in> set pl\<close> by blast
    then show ?thesis using frame_pid_kept [OF j(1) _ a(16)] a(13) by simp
  qed
  ultimately obtain s2 where s2: "delete_process (NEXT_PID s) s1 = Some s2" "PROCESS_LIST s2 = Some pl" "page_inv s2"
    "blocks s2 = blocks s1 - set [(js, 35), (jf, 1)] - table_blocks ?t"
    by (rule delete_process_last [OF a(2)])
  have "blocks s2 = blocks s" using s2(4) a(11,12) unfolding t(2) by auto
  then show ?thesis using a(1) s2(1-3) by blast
qed

end
