(* ===== verification/Console.thy ===== *)
theory Console
  imports Process
begin

text \<open>
  \<^verbatim>\<open>console.rs\<close>: the bounded character queues of the console, and the queue of processes that wait
  for a line of input.
\<close>

section \<open>State and operations\<close>

definition DEFAULT_OUT_BUFFER_SIZE :: nat where "DEFAULT_OUT_BUFFER_SIZE = 10000"
definition DEFAULT_IN_BUFFER_SIZE :: nat where "DEFAULT_IN_BUFFER_SIZE = 1000"

record console_st = proc_st +
  IN_BUFFER :: "u8 list option"
  OUT_BUFFER :: "u8 list option"
  IN_LOCK :: Mutex
  OUT_LOCK :: Mutex
  CONSOLE_QUEUE :: "u16 list option"

definition console_init :: "'a console_st_scheme \<Rightarrow> 'a console_st_scheme" where
  "console_init s = s\<lparr>IN_BUFFER := Some [], OUT_BUFFER := Some []\<rparr>"

definition push_stdout :: "u8 \<Rightarrow> 'a console_st_scheme \<Rightarrow> 'a console_st_scheme option" where
  "push_stdout c s = do {
     mx \<leftarrow> spin_lock (OUT_LOCK s);
     let s = s\<lparr>OUT_LOCK := mx\<rparr>;
     let s = (case OUT_BUFFER s of
         Some buf \<Rightarrow> s\<lparr>OUT_BUFFER := Some (if length buf < DEFAULT_OUT_BUFFER_SIZE then buf @ [c] else buf)\<rparr>
       | None \<Rightarrow> s);
     Some (s\<lparr>OUT_LOCK := unlock (OUT_LOCK s)\<rparr>)
   }"

text \<open>\<^verbatim>\<open>VecDeque::pop_front\<close>\<close>

definition pop_front :: "'b list \<Rightarrow> 'b option \<times> 'b list" where
  "pop_front q = (case q of [] \<Rightarrow> (None, []) | x # xs \<Rightarrow> (Some x, xs))"

definition unwrap_or :: "'b \<Rightarrow> 'b option \<Rightarrow> 'b" where
  "unwrap_or d x = (case x of None \<Rightarrow> d | Some y \<Rightarrow> y)"

definition pop_stdout :: "'a console_st_scheme \<Rightarrow> (u8 \<times> 'a console_st_scheme) option" where
  "pop_stdout s = do {
     mx \<leftarrow> spin_lock (OUT_LOCK s);
     let s = s\<lparr>OUT_LOCK := mx\<rparr>;
     let (ret, s) = (case OUT_BUFFER s of
         Some buf \<Rightarrow> (let (r, buf) = pop_front buf in (r, s\<lparr>OUT_BUFFER := Some buf\<rparr>))
       | None \<Rightarrow> (None, s));
     Some (unwrap_or 0 ret, s\<lparr>OUT_LOCK := unlock (OUT_LOCK s)\<rparr>)
   }"

text \<open>\<^verbatim>\<open>for i in q.drain(..) { set_running(i); }\<close>\<close>

definition wake_all :: "u16 list \<Rightarrow> 'a proc_st_scheme \<Rightarrow> 'a proc_st_scheme option" where
  "wake_all q s = for_each (\<lambda>i s. do { (_, s) \<leftarrow> set_running i s; Some s }) q s"

definition push_stdin :: "u8 \<Rightarrow> 'a console_st_scheme \<Rightarrow> 'a console_st_scheme option" where
  "push_stdin c s = do {
     mx \<leftarrow> spin_lock (IN_LOCK s);
     let s = s\<lparr>IN_LOCK := mx\<rparr>;
     s \<leftarrow> (case IN_BUFFER s of
         Some buf \<Rightarrow>
           if length buf < DEFAULT_IN_BUFFER_SIZE then do {
             s \<leftarrow> (if c = 10 \<or> c = 11 then
                     (case CONSOLE_QUEUE s of
                        Some q \<Rightarrow> do { s \<leftarrow> wake_all q s; Some (s\<lparr>CONSOLE_QUEUE := Some []\<rparr>) }
                      | None \<Rightarrow> Some s)
                   else Some s);
             Some (s\<lparr>IN_BUFFER := Some (buf @ [c])\<rparr>)
           } else Some s
       | None \<Rightarrow> Some s);
     Some (s\<lparr>IN_LOCK := unlock (IN_LOCK s)\<rparr>)
   }"

definition pop_stdin :: "'a console_st_scheme \<Rightarrow> (u8 \<times> 'a console_st_scheme) option" where
  "pop_stdin s = do {
     mx \<leftarrow> spin_lock (IN_LOCK s);
     let s = s\<lparr>IN_LOCK := mx\<rparr>;
     let (ret, s) = (case IN_BUFFER s of
         Some buf \<Rightarrow> (let (r, buf) = pop_front buf in (r, s\<lparr>IN_BUFFER := Some buf\<rparr>))
       | None \<Rightarrow> (None, s));
     Some (unwrap_or 0 ret, s\<lparr>IN_LOCK := unlock (IN_LOCK s)\<rparr>)
   }"

definition push_queue :: "u16 \<Rightarrow> 'a console_st_scheme \<Rightarrow> 'a console_st_scheme" where
  "push_queue pd s = (case CONSOLE_QUEUE s of Some q \<Rightarrow> s\<lparr>CONSOLE_QUEUE := Some (q @ [pd])\<rparr> | None \<Rightarrow> s)"

section \<open>The contract of a bounded queue\<close>

text \<open>
  A queue of characters of bounded length: a push on a full queue is dropped, a pop of an empty
  one gives 0.
\<close>

fun pop_n :: "('s \<Rightarrow> (u8 \<times> 's) option) \<Rightarrow> nat \<Rightarrow> 's \<Rightarrow> (u8 list \<times> 's) option" where
  "pop_n pop 0 s = Some ([], s)"
| "pop_n pop (Suc n) s = do { (c, s) \<leftarrow> pop s; (cs, s) \<leftarrow> pop_n pop n s; Some (c # cs, s) }"

locale bounded_fifo =
  fixes invar :: "'s \<Rightarrow> bool"
    and content :: "'s \<Rightarrow> u8 list"
    and bound :: nat
    and push :: "u8 \<Rightarrow> 's \<Rightarrow> 's option"
    and pop :: "'s \<Rightarrow> (u8 \<times> 's) option"
  assumes push_ok: "invar s \<Longrightarrow> \<exists>s'. push c s = Some s' \<and> invar s'
      \<and> content s' = (if length (content s) < bound then content s @ [c] else content s)"
    and pop_ok: "invar s \<Longrightarrow> \<exists>s'. pop s = Some (case content s of [] \<Rightarrow> 0 | c # _ \<Rightarrow> c, s') \<and> invar s' \<and> content s' = tl (content s)"
begin

lemma push_all_content:
  "invar s \<Longrightarrow> \<exists>s'. for_each push cs s = Some s' \<and> invar s'
     \<and> content s' = content s @ take (bound - length (content s)) cs"
proof (induction cs arbitrary: s)
  case (Cons c cs)
  from push_ok [OF Cons.prems, of c] obtain s1 where s1: "push c s = Some s1" "invar s1"
    "content s1 = (if length (content s) < bound then content s @ [c] else content s)" by blast
  from Cons.IH [OF s1(2)] obtain s' where "for_each push cs s1 = Some s'" "invar s'"
    "content s' = content s1 @ take (bound - length (content s1)) cs" by blast
  moreover have "take (bound - length (content s)) (c # cs) = c # take (bound - length (content s) - 1) cs"
    if "length (content s) < bound" using that by (cases "bound - length (content s)") auto
  ultimately show ?case using s1 by auto
qed simp

lemma pop_n_content:
  "invar s \<Longrightarrow> n \<le> length (content s) \<Longrightarrow>
   \<exists>s'. pop_n pop n s = Some (take n (content s), s') \<and> invar s' \<and> content s' = drop n (content s)"
proof (induction n arbitrary: s)
  case (Suc n)
  then obtain c cs where c: "content s = c # cs" by (cases "content s") auto
  from pop_ok [OF Suc.prems(1)] c obtain s1 where s1: "pop s = Some (c, s1)" "invar s1" "content s1 = cs" by auto
  from Suc.IH [OF s1(2)] Suc.prems(2) c s1(3) obtain s' where
    "pop_n pop n s1 = Some (take n cs, s')" "invar s'" "content s' = drop n cs" by auto
  then show ?case using s1(1) c by simp
qed simp

text \<open>Characters come out in the order they went in, up to the bound.\<close>

lemma fifo:
  assumes "invar s" "content s = []"
  shows "\<exists>s1 s2. for_each push cs s = Some s1 \<and> pop_n pop (min (length cs) bound) s1 = Some (take bound cs, s2) \<and> content s2 = []"
proof -
  obtain s1 where s1: "for_each push cs s = Some s1" "invar s1" "content s1 = take bound cs"
    using push_all_content [OF assms(1), of cs] assms(2) by auto
  have "min (length cs) bound = length (content s1)" using s1(3) by (simp add: min.commute)
  moreover have "take (min (length cs) bound) cs = take bound cs" by (simp add: min_def)
  ultimately show ?thesis using pop_n_content [OF s1(2), of "min (length cs) bound"] s1 by auto
qed

end

section \<open>Both console queues are bounded queues\<close>

definition out_ok :: "'a console_st_scheme \<Rightarrow> bool" where
  "out_ok s \<longleftrightarrow> mstate (OUT_LOCK s) = 0 \<and> OUT_BUFFER s \<noteq> None"

definition in_ok :: "'a console_st_scheme \<Rightarrow> bool" where
  "in_ok s \<longleftrightarrow> mstate (IN_LOCK s) = 0 \<and> IN_BUFFER s \<noteq> None"

definition out_chars :: "'a console_st_scheme \<Rightarrow> u8 list" where
  "out_chars s = (case OUT_BUFFER s of None \<Rightarrow> [] | Some b \<Rightarrow> b)"

definition in_chars :: "'a console_st_scheme \<Rightarrow> u8 list" where
  "in_chars s = (case IN_BUFFER s of None \<Rightarrow> [] | Some b \<Rightarrow> b)"

interpretation stdout: bounded_fifo out_ok out_chars DEFAULT_OUT_BUFFER_SIZE push_stdout pop_stdout
proof (unfold_locales, goal_cases)
  case (1 s c)
  then show ?case by (auto simp: push_stdout_def out_ok_def out_chars_def spin_lock_free)
next
  case (2 s)
  then show ?case
    by (auto simp: pop_stdout_def out_ok_def out_chars_def spin_lock_free pop_front_def unwrap_or_def split: list.splits)
qed

text \<open>Waking the waiting processes, on the process list.\<close>

definition wake_one :: "u16 \<Rightarrow> Process list \<Rightarrow> Process list" where
  "wake_one pd pl = (case find_index (\<lambda>p. p_pid p = pd) pl of None \<Rightarrow> pl | Some i \<Rightarrow> pl[i := (pl ! i)\<lparr>pstate := Running\<rparr>])"

lemma set_running_wake:
  "\<exists>r. set_running pd s = Some (r, s\<lparr>PROCESS_LIST := map_option (wake_one pd) (PROCESS_LIST s)\<rparr>)"
  by (cases "PROCESS_LIST s") (auto simp: set_running_def update_first_spec wake_one_def split: option.split)

lemma wake_all_eq: "wake_all q s = Some (s\<lparr>PROCESS_LIST := map_option (fold wake_one q) (PROCESS_LIST s)\<rparr>)"
proof (induction q arbitrary: s)
  case Nil
  have "map_option (fold wake_one []) (PROCESS_LIST s) = PROCESS_LIST s" by (cases "PROCESS_LIST s") simp_all
  then show ?case by (simp only: wake_all_def for_each.simps) simp
next
  case (Cons i q)
  obtain r where "set_running i s = Some (r, s\<lparr>PROCESS_LIST := map_option (wake_one i) (PROCESS_LIST s)\<rparr>)"
    using set_running_wake by blast
  then show ?case using Cons.IH by (simp add: wake_all_def option.map_comp comp_def)
qed

text \<open>One character of input, by cases.\<close>

lemma push_stdin_eq:
  assumes "in_ok s" and "IN_BUFFER s = Some buf"
  shows "push_stdin c s = Some (
    if length buf < DEFAULT_IN_BUFFER_SIZE then
      if c = 10 \<or> c = 11 then
        case CONSOLE_QUEUE s of
          Some q \<Rightarrow> s\<lparr>IN_BUFFER := Some (buf @ [c]), CONSOLE_QUEUE := Some [], IN_LOCK := \<lparr>mstate = 0\<rparr>,
                     PROCESS_LIST := map_option (fold wake_one q) (PROCESS_LIST s)\<rparr>
        | None \<Rightarrow> s\<lparr>IN_BUFFER := Some (buf @ [c]), IN_LOCK := \<lparr>mstate = 0\<rparr>\<rparr>
      else s\<lparr>IN_BUFFER := Some (buf @ [c]), IN_LOCK := \<lparr>mstate = 0\<rparr>\<rparr>
    else s\<lparr>IN_LOCK := \<lparr>mstate = 0\<rparr>\<rparr>)"
  using assms
  by (cases "CONSOLE_QUEUE s") (simp_all add: push_stdin_def in_ok_def spin_lock_free wake_all_eq unlock_Mutex)

interpretation stdin: bounded_fifo in_ok in_chars DEFAULT_IN_BUFFER_SIZE push_stdin pop_stdin
proof (unfold_locales, goal_cases)
  case (1 s c)
  then obtain buf where b: "IN_BUFFER s = Some buf" by (auto simp: in_ok_def)
  show ?case
    using push_stdin_eq [OF 1 b, of c] b by (cases "CONSOLE_QUEUE s") (simp_all add: in_ok_def in_chars_def)
next
  case (2 s)
  then show ?case
    by (auto simp: pop_stdin_def in_ok_def in_chars_def spin_lock_free pop_front_def unwrap_or_def split: list.splits)
qed

section \<open>Properties\<close>

definition example_console :: console_st where
  "example_console = proc_st.extend example_procs
     \<lparr>IN_BUFFER = Some [], OUT_BUFFER = Some [], IN_LOCK = Mutex_new, OUT_LOCK = Mutex_new, CONSOLE_QUEUE = Some [7]\<rparr>"

lemma example_console_ok:
  "out_ok example_console" "out_chars example_console = []" "in_ok example_console" "in_chars example_console = []"
  "CONSOLE_QUEUE example_console = Some [7]"
  by (simp_all add: out_ok_def out_chars_def in_ok_def in_chars_def example_console_def proc_st.extend_def Mutex_new_def)

text \<open>
  C32: standard output is a first-in first-out queue of at most 10000 characters: pushing characters
  onto an empty queue always returns, and popping gives them back in order; characters that
  do not fit any more are dropped.
\<close>
theorem stdout_fifo:
  assumes "out_ok s" and "out_chars s = []"
  shows "\<exists>s1 s2. for_each push_stdout cs s = Some s1
    \<and> pop_n pop_stdout (min (length cs) DEFAULT_OUT_BUFFER_SIZE) s1 = Some (take DEFAULT_OUT_BUFFER_SIZE cs, s2) \<and> out_chars s2 = []"
  using assms by (rule stdout.fifo)

theorem stdout_fifo_witness:
  "\<exists>s1 s2. for_each push_stdout [104, 105] example_console = Some s1 \<and> pop_n pop_stdout 2 s1 = Some ([104, 105], s2)"
proof -
  have "min (length [104, 105 :: u8]) DEFAULT_OUT_BUFFER_SIZE = 2" "take DEFAULT_OUT_BUFFER_SIZE [104, 105] = [104, 105 :: u8]"
    by (simp_all add: DEFAULT_OUT_BUFFER_SIZE_def)
  then show ?thesis using stdout_fifo [OF example_console_ok(1,2), of "[104, 105]"] by metis
qed

text \<open>
  One character of input. On an initialised console \<^verbatim>\<open>push_stdin\<close> returns with the lock free; the
  character is appended unless 1000 are already waiting; a line feed (or vertical tab) that is
  accepted makes every process of the console queue running and empties that queue; any other
  character leaves the queue and the processes alone.
\<close>
lemma push_stdin_wakes:
  assumes "in_ok s" and "CONSOLE_QUEUE s = Some q"
  shows "\<exists>s'. push_stdin c s = Some s' \<and> in_ok s'
    \<and> in_chars s' = (if length (in_chars s) < DEFAULT_IN_BUFFER_SIZE then in_chars s @ [c] else in_chars s)
    \<and> (if length (in_chars s) < DEFAULT_IN_BUFFER_SIZE \<and> (c = 10 \<or> c = 11)
       then CONSOLE_QUEUE s' = Some [] \<and> PROCESS_LIST s' = map_option (fold wake_one q) (PROCESS_LIST s)
       else CONSOLE_QUEUE s' = Some q \<and> PROCESS_LIST s' = PROCESS_LIST s)"
proof -
  obtain buf where b: "IN_BUFFER s = Some buf" using assms(1) by (auto simp: in_ok_def)
  show ?thesis using push_stdin_eq [OF assms(1) b, of c] b assms(2) by (auto simp: in_ok_def in_chars_def)
qed

end
