(* ===== verification/Virtio.thy ===== *)
theory Virtio
  imports Console
begin

text \<open>
  \<^verbatim>\<open>virtio.rs\<close>: registers, status bits and the queue that driver and device share, together with the
  device initialisation that the drivers have in common. A volatile write to a register is
  recorded in the log \<open>MMIO\<close>, in program order; what a volatile read returns depends on the hardware: it is the
  parameter \<open>M\<close>, a function of the register and of everything written so far. The queue lies in
  memory with the layout of its \<^verbatim>\<open>repr(C)\<close> structures.
\<close>

section \<open>Constants\<close>

definition VIRTIO_DESC_F_NEXT :: u16 where "VIRTIO_DESC_F_NEXT = 1"
definition VIRTIO_DESC_F_WRITE :: u16 where "VIRTIO_DESC_F_WRITE = 2"
definition VIRTIO_F_RING_EVENT_IDX :: nat where "VIRTIO_F_RING_EVENT_IDX = 29"
definition VIRTIO_RING_SIZE :: usize where "VIRTIO_RING_SIZE = push_bit 7 1"

definition MMIO_VIRTIO_START :: usize where "MMIO_VIRTIO_START = 0x10001000"
definition MMIO_VIRTIO_END :: usize where "MMIO_VIRTIO_END = 0x10008000"
definition MMIO_VIRTIO_STRIDE :: usize where "MMIO_VIRTIO_STRIDE = 0x1000"
definition MMIO_VIRTIO_MAGIC :: u32 where "MMIO_VIRTIO_MAGIC = 0x74726976"

datatype MmioOffsets =
  MagicValue | Version | DeviceId | VendorId | HostFeatures | HostFeaturesSel | GuestFeatures | GuestFeaturesSel
  | GuestPageSize | QueueSel | QueueNumMax | QueueNum | QueueAlign | QueuePfn | QueueNotify | InterruptStatus
  | InterruptAck | StatusReg | ConfigReg

fun MmioOffsets_val :: "MmioOffsets \<Rightarrow> usize" where
  "MmioOffsets_val MagicValue = 0x000"
| "MmioOffsets_val Version = 0x004"
| "MmioOffsets_val DeviceId = 0x008"
| "MmioOffsets_val VendorId = 0x00c"
| "MmioOffsets_val HostFeatures = 0x010"
| "MmioOffsets_val HostFeaturesSel = 0x014"
| "MmioOffsets_val GuestFeatures = 0x020"
| "MmioOffsets_val GuestFeaturesSel = 0x024"
| "MmioOffsets_val GuestPageSize = 0x028"
| "MmioOffsets_val QueueSel = 0x030"
| "MmioOffsets_val QueueNumMax = 0x034"
| "MmioOffsets_val QueueNum = 0x038"
| "MmioOffsets_val QueueAlign = 0x03c"
| "MmioOffsets_val QueuePfn = 0x040"
| "MmioOffsets_val QueueNotify = 0x050"
| "MmioOffsets_val InterruptStatus = 0x060"
| "MmioOffsets_val InterruptAck = 0x064"
| "MmioOffsets_val StatusReg = 0x070"
| "MmioOffsets_val ConfigReg = 0x100"

definition scaled :: "MmioOffsets \<Rightarrow> usize \<Rightarrow> usize" where
  "scaled r scale = MmioOffsets_val r div scale"

definition scale32 :: "MmioOffsets \<Rightarrow> usize" where
  "scale32 r = scaled r 4"

datatype DeviceTypes = NoDevice | NetworkDevice | BlockDev | ConsoleDevice | EntropyDev | GpuDev | InputDev | MemoryDevice

datatype StatusField = Acknowledge | Driver | Failed | FeaturesOk | DriverOk | DeviceNeedsReset

fun StatusField_val32 :: "StatusField \<Rightarrow> u32" where
  "StatusField_val32 Acknowledge = 1"
| "StatusField_val32 Driver = 2"
| "StatusField_val32 Failed = 128"
| "StatusField_val32 FeaturesOk = 8"
| "StatusField_val32 DriverOk = 4"
| "StatusField_val32 DeviceNeedsReset = 64"

definition StatusField_test :: "u32 \<Rightarrow> StatusField \<Rightarrow> bool" where
  "StatusField_test sf b \<longleftrightarrow> sf AND StatusField_val32 b \<noteq> 0"

definition is_failed :: "u32 \<Rightarrow> bool" where "is_failed sf = StatusField_test sf Failed"
definition needs_reset :: "u32 \<Rightarrow> bool" where "needs_reset sf = StatusField_test sf DeviceNeedsReset"
definition driver_ok :: "u32 \<Rightarrow> bool" where "driver_ok sf = StatusField_test sf DriverOk"
definition features_ok :: "u32 \<Rightarrow> bool" where "features_ok sf = StatusField_test sf FeaturesOk"

section \<open>Registers\<close>

record virtio_st = console_st +
  MMIO :: "(usize \<times> u32) list"
  VIRTIO_DEVICES :: "DeviceTypes option list"

type_synonym device_regs = "usize \<Rightarrow> (usize \<times> u32) list \<Rightarrow> u32"

text \<open>\<^verbatim>\<open>ptr.add(r.scale32())\<close>: a pointer to \<^verbatim>\<open>u32\<close> advances by four bytes per element.\<close>

definition reg :: "usize \<Rightarrow> MmioOffsets \<Rightarrow> usize" where
  "reg ptr r = ptr + 4 * scale32 r"

definition reg_write :: "usize \<Rightarrow> MmioOffsets \<Rightarrow> u32 \<Rightarrow> 'a virtio_st_scheme \<Rightarrow> 'a virtio_st_scheme" where
  "reg_write ptr r v s = s\<lparr>MMIO := MMIO s @ [(reg ptr r, v)]\<rparr>"

definition reg_read :: "device_regs \<Rightarrow> usize \<Rightarrow> MmioOffsets \<Rightarrow> 'a virtio_st_scheme \<Rightarrow> u32" where
  "reg_read M ptr r s = M (reg ptr r) (MMIO s)"

section \<open>Queues\<close>

record VDescriptor =
  vd_addr :: u64
  vd_len :: u32
  vd_flags :: u16
  vd_next :: u16

definition VDescriptor_bytes :: "VDescriptor \<Rightarrow> u8 list" where
  "VDescriptor_bytes d = to_le 8 (vd_addr d) @ to_le 4 (vd_len d) @ to_le 2 (vd_flags d) @ to_le 2 (vd_next d)"

definition load16 :: "mem \<Rightarrow> usize \<Rightarrow> u16" where "load16 m a = le_word (load_bytes m a 2)"
definition load32 :: "mem \<Rightarrow> usize \<Rightarrow> u32" where "load32 m a = le_word (load_bytes m a 4)"
definition store16 :: "mem \<Rightarrow> usize \<Rightarrow> u16 \<Rightarrow> mem" where "store16 m a v = store_bytes m a (to_le 2 v)"
definition store32 :: "mem \<Rightarrow> usize \<Rightarrow> u32 \<Rightarrow> mem" where "store32 m a v = store_bytes m a (to_le 4 v)"

text \<open>
  \<^verbatim>\<open>Queue\<close>: 128 descriptors of 16 bytes; the available ring from 2048 on (flags, index, 128 entries of 2
  bytes, event); padding up to the page boundary; the used ring from 4096 on (flags, index, 128
  entries of 8 bytes, event). \<^verbatim>\<open>size_of::<Queue>()\<close> is 5128.
\<close>

definition QUEUE_SIZE :: usize where "QUEUE_SIZE = 5128"

definition desc_addr :: "usize \<Rightarrow> u16 \<Rightarrow> usize" where "desc_addr q i = q + 16 * ucast i"
definition avail_idx :: "usize \<Rightarrow> usize" where "avail_idx q = q + 2050"
definition avail_ring :: "usize \<Rightarrow> usize \<Rightarrow> usize" where "avail_ring q i = q + 2052 + 2 * i"
definition used_idx :: "usize \<Rightarrow> usize" where "used_idx q = q + 4098"
definition used_id :: "usize \<Rightarrow> usize \<Rightarrow> usize" where "used_id q i = q + 4100 + 8 * i"

definition load_desc :: "mem \<Rightarrow> usize \<Rightarrow> u16 \<Rightarrow> VDescriptor" where
  "load_desc m q i =
     \<lparr>vd_addr = load64 m (desc_addr q i), vd_len = load32 m (desc_addr q i + 8), vd_flags = load16 m (desc_addr q i + 12),
      vd_next = load16 m (desc_addr q i + 14)\<rparr>"

definition store_desc :: "mem \<Rightarrow> usize \<Rightarrow> u16 \<Rightarrow> VDescriptor \<Rightarrow> mem" where
  "store_desc m q i d = store_bytes m (desc_addr q i) (VDescriptor_bytes d)"

text \<open>\<^verbatim>\<open>(idx + 1) % VIRTIO_RING_SIZE as u16\<close>\<close>

definition ring_next :: "u16 \<Rightarrow> u16 option" where
  "ring_next i = do { j \<leftarrow> uadd i 1; Some (j mod ucast VIRTIO_RING_SIZE) }"

text \<open>Put the head of a chain into the available ring and count it.\<close>

definition avail_push :: "usize \<Rightarrow> u16 \<Rightarrow> mem \<Rightarrow> mem" where
  "avail_push q head m =
     (let i = load16 m (avail_idx q);
          m = store16 m (avail_ring q (ucast i mod VIRTIO_RING_SIZE)) head
      in store16 m (avail_idx q) (i + 1))"

section \<open>Initialisation of a device\<close>

text \<open>
  Steps 1 to 7 of the initialisation, which the drivers share: reset, acknowledge, negotiate the
  features (\<open>feat\<close> maps the offered to the accepted ones), and check the size of the queue. The result
  says whether the device accepts, with the offered features.
\<close>

definition negotiate :: "device_regs \<Rightarrow> (u32 \<Rightarrow> u32) \<Rightarrow> usize \<Rightarrow> 'a virtio_st_scheme \<Rightarrow> bool \<times> u32 \<times> 'a virtio_st_scheme" where
  "negotiate M feat ptr s =
     (let s = reg_write ptr StatusReg 0 s;
          status_bits = StatusField_val32 Acknowledge;
          s = reg_write ptr StatusReg status_bits s;
          status_bits = status_bits OR StatusField_val32 DriverOk;
          s = reg_write ptr StatusReg status_bits s;
          host_features = reg_read M ptr HostFeatures s;
          s = reg_write ptr GuestFeatures (feat host_features) s;
          status_bits = status_bits OR StatusField_val32 FeaturesOk;
          s = reg_write ptr StatusReg status_bits s;
          status_ok = reg_read M ptr StatusReg s
      in if \<not> features_ok status_ok then (False, host_features, reg_write ptr StatusReg (StatusField_val32 Failed) s)
         else
           let qnmax = reg_read M ptr QueueNumMax s;
               s = reg_write ptr QueueNum (ucast VIRTIO_RING_SIZE) s
           in if qnmax < ucast VIRTIO_RING_SIZE then (False, host_features, s) else (True, host_features, s))"

text \<open>Queue number \<open>n\<close>: allocate it and tell the device the page.\<close>

definition install_queue :: "usize \<Rightarrow> u32 \<Rightarrow> 'a virtio_st_scheme \<Rightarrow> (usize \<times> 'a virtio_st_scheme) option" where
  "install_queue ptr n s = do {
     let s = reg_write ptr QueueSel n s;
     (queue_ptr, s) \<leftarrow> zalloc ((QUEUE_SIZE + PAGE_SIZE - 1) div PAGE_SIZE) s;
     let queue_pfn = (ucast queue_ptr :: u32);
     let s = reg_write ptr GuestPageSize (ucast PAGE_SIZE) s;
     let s = reg_write ptr QueuePfn (queue_pfn div ucast PAGE_SIZE) s;
     Some (queue_ptr, s)
   }"

text \<open>Step 8: the device is live. The bit \<^verbatim>\<open>DriverOk\<close> has been set since step 3 already.\<close>

definition device_live :: "usize \<Rightarrow> 'a virtio_st_scheme \<Rightarrow> 'a virtio_st_scheme" where
  "device_live ptr s =
     reg_write ptr StatusReg (StatusField_val32 Acknowledge OR StatusField_val32 DriverOk OR StatusField_val32 FeaturesOk OR StatusField_val32 DriverOk) s"

text \<open>\<^verbatim>\<open>(ptr as usize - MMIO_VIRTIO_START) >> 12\<close>, as an index into an array of eight devices.\<close>

definition device_index :: "usize \<Rightarrow> nat option" where
  "device_index ptr = do { off \<leftarrow> usub ptr MMIO_VIRTIO_START; Some (unat (drop_bit 12 off)) }"

definition set_slot :: "nat \<Rightarrow> 'b \<Rightarrow> 'b option list \<Rightarrow> 'b option list option" where
  "set_slot i x xs = (if i < length xs then Some (xs[i := Some x]) else None)"

end
