(* ===== verification/Kmem_Heap.thy ===== *)
theory Kmem_Heap
  imports Kmem
begin

text \<open>
  The kernel heap as its clients see it: the payloads in use, the invariant, what
  \<^verbatim>\<open>kmalloc\<close>, \<^verbatim>\<open>kzmalloc\<close> and \<^verbatim>\<open>kfree\<close> do to them, and the contract of a byte heap, which
  the operations of \<^verbatim>\<open>kmem.rs\<close> are shown to provide.
\<close>

section \<open>The heap of a kernel state\<close>

definition heap_len :: "'a kmem_st_scheme \<Rightarrow> nat" where
  "heap_len s = unat (KMEM_ALLOC s) * 4096"

definition kmem_chunks :: "'a kmem_st_scheme \<Rightarrow> chunk list \<Rightarrow> bool" where
  "kmem_chunks s cs \<longleftrightarrow>
     0 < KMEM_HEAD s \<and> 8 dvd unat (KMEM_HEAD s) \<and> unat (KMEM_HEAD s) + heap_len s < 2 ^ 64 \<and> heap_len s < 2 ^ 63
     \<and> chunks_at (memory s) (KMEM_HEAD s) cs (KMEM_HEAD s + of_nat (heap_len s))"

definition kmem_inv :: "'a kmem_st_scheme \<Rightarrow> bool" where
  "kmem_inv s \<longleftrightarrow> (\<exists>cs. kmem_chunks s cs)"

text \<open>The payloads in use: address and capacity.\<close>

definition payloads :: "'a kmem_st_scheme \<Rightarrow> (usize \<times> nat) set" where
  "payloads s = {(KMEM_HEAD s + of_nat (off + 8), z - 8) |off z cs. kmem_chunks s cs \<and> (off, z) \<in> taken_chunks 0 cs}"

lemma kmem_chunks_unique: "kmem_chunks s cs \<Longrightarrow> kmem_chunks s ds \<Longrightarrow> cs = ds"
  unfolding kmem_chunks_def using chunks_at_unique by blast

lemma kmem_tail:
  assumes "kmem_chunks s cs"
  shows "umul (KMEM_ALLOC s) PAGE_SIZE = Some (of_nat (heap_len s))" "heap_size cs = heap_len s"
    "unat (KMEM_HEAD s + of_nat (heap_len s)) = unat (KMEM_HEAD s) + heap_len s"
proof -
  have len: "unat (KMEM_HEAD s) + heap_len s < 2 ^ 64" "heap_len s < 2 ^ 63"
    and ch: "chunks_at (memory s) (KMEM_HEAD s) cs (KMEM_HEAD s + of_nat (heap_len s))"
    using assms by (simp_all add: kmem_chunks_def)
  show "umul (KMEM_ALLOC s) PAGE_SIZE = Some (of_nat (heap_len s))"
    using len(2) by (simp add: umul_def heap_len_def) (simp add: PAGE_SIZE_def)
  show top: "unat (KMEM_HEAD s + of_nat (heap_len s)) = unat (KMEM_HEAD s) + heap_len s"
    using len(1) by (rule unat_add_of_nat)
  show "heap_size cs = heap_len s" using chunks_at_end [OF ch] top by simp
qed

lemma kmem_chunks_memory:
  "kmem_chunks s cs \<Longrightarrow> kmem_chunks (s\<lparr>memory := m\<rparr>) ds
     \<longleftrightarrow> chunks_at m (KMEM_HEAD s) ds (KMEM_HEAD s + of_nat (heap_len s))"
  by (simp add: kmem_chunks_def heap_len_def)

lemma payloads_eq:
  "kmem_chunks s cs \<Longrightarrow> payloads s = (\<lambda>(off, z). (KMEM_HEAD s + of_nat (off + 8), z - 8)) ` taken_chunks 0 cs"
  unfolding payloads_def by (auto dest: kmem_chunks_unique)

lemma dvd_heap_size: "(\<And>c. c \<in> set cs \<Longrightarrow> k dvd fst c) \<Longrightarrow> k dvd heap_size cs"
  by (induction cs) auto

text \<open>Where a taken chunk lies.\<close>

lemma taken_chunk_place:
  assumes ch: "kmem_chunks s cs" and tk: "(off, z) \<in> taken_chunks 0 cs"
  shows "8 \<le> z" "8 dvd z" "8 dvd off" "off + z \<le> heap_len s"
    "unat (KMEM_HEAD s + of_nat (off + 8)) = unat (KMEM_HEAD s) + off + 8"
proof -
  obtain xs ys where cs: "cs = xs @ (z, True) # ys" and off: "off = heap_size xs"
    using taken_chunks_split [OF tk] by auto
  have at: "chunks_at (memory s) (KMEM_HEAD s) cs (KMEM_HEAD s + of_nat (heap_len s))"
    using ch by (simp add: kmem_chunks_def)
  show z: "8 \<le> z" "8 dvd z" using chunks_at_sizes [OF at] cs by force+
  show "8 dvd off"
    using chunks_at_sizes [OF at] cs off dvd_heap_size [of xs 8] by auto
  show le: "off + z \<le> heap_len s" using kmem_tail(2) [OF ch] cs off by simp
  have "unat (KMEM_HEAD s) + (off + 8) < 2 ^ 64"
    using ch le z by (simp add: kmem_chunks_def)
  then show "unat (KMEM_HEAD s + of_nat (off + 8)) = unat (KMEM_HEAD s) + off + 8"
    using unat_add_of_nat by (metis add.assoc)
qed

text \<open>The size \<open>kmalloc\<close> looks for: the request rounded up to words, and a header.\<close>

definition chunk_need :: "nat \<Rightarrow> nat" where
  "chunk_need n = (n + 7) div 8 * 8 + 8"

lemma chunk_need_eq:
  assumes "unat sz + 15 < 2 ^ 64"
  shows "do { a \<leftarrow> align_val sz 3; uadd a 8 } = Some (of_nat (chunk_need (unat sz)))"
    and "8 \<le> chunk_need (unat sz)" "8 dvd chunk_need (unat sz)" "chunk_need (unat sz) < 2 ^ 64"
      "unat sz + 8 \<le> chunk_need (unat sz)"
proof -
  let ?n = "(unat sz + 7) div 8 * 8"
  obtain r where r: "align_val sz 3 = Some r" and ur: "unat r = ?n"
    using align_val_eq [of 3 sz] assms by auto
  have n: "unat sz \<le> ?n" "?n \<le> unat sz + 7" by presburger+
  then have "unat r + unat (8 :: usize) < 2 ^ 64" using assms ur by simp
  moreover have "r = of_nat ?n" using ur by (rule of_nat_of_unat)
  ultimately show "do { a \<leftarrow> align_val sz 3; uadd a 8 } = Some (of_nat (chunk_need (unat sz)))"
    unfolding r by (simp add: uadd_def chunk_need_def)
  show "8 \<le> chunk_need (unat sz)" "8 dvd chunk_need (unat sz)" "chunk_need (unat sz) < 2 ^ 64"
      "unat sz + 8 \<le> chunk_need (unat sz)"
    using n assms by (simp_all add: chunk_need_def)
qed

section \<open>kmalloc, kzmalloc and kfree on the heap\<close>

lemma kmalloc_loop_form:
  assumes "kmem_chunks s cs" and "unat sz + 15 < 2 ^ 64"
  shows "kmalloc sz s = map_option (\<lambda>(p, m). (p, s\<lparr>memory := m\<rparr>))
     (kmalloc_loop (of_nat (chunk_need (unat sz))) (KMEM_HEAD s + of_nat (heap_len s)) (KMEM_HEAD s) (memory s))"
proof -
  obtain a where a: "align_val sz 3 = Some a" and c: "uadd a 8 = Some (of_nat (chunk_need (unat sz)))"
    using chunk_need_eq(1) [OF assms(2)] by (auto split: bind_splits)
  show ?thesis
    unfolding kmalloc_def a bind.bind_lunit c kmem_tail(1) [OF assms(1)]
    by (auto split: bind_splits simp: map_option_case)
qed

lemma kmalloc_none:
  assumes "kmem_chunks s cs" and "unat sz + 15 < 2 ^ 64" and "first_fit (chunk_need (unat sz)) cs = None"
  shows "kmalloc sz s = Some (null_mut, s)"
  using kmalloc_loop_refines [of "memory s" "KMEM_HEAD s" cs _ "chunk_need (unat sz)"] assms
    chunk_need_eq(2-4) [OF assms(2)]
  by (simp add: kmalloc_loop_form [OF assms(1,2)] kmem_chunks_def)

lemma kmalloc_some:
  assumes ch: "kmem_chunks s cs" and sz: "unat sz + 15 < 2 ^ 64"
    and ff: "first_fit (chunk_need (unat sz)) cs = Some (off, cs')"
  obtains m' xs z ys where "kmalloc sz s = Some (KMEM_HEAD s + of_nat (off + 8), s\<lparr>memory := m'\<rparr>)"
    "kmem_chunks (s\<lparr>memory := m'\<rparr>) cs'" "cs = xs @ (z, False) # ys" "off = heap_size xs"
    "chunk_need (unat sz) \<le> z" "cs' = xs @ carve (chunk_need (unat sz)) z @ ys"
    "\<And>x. \<not> in_region (KMEM_HEAD s + of_nat off) z x \<Longrightarrow> m' x = memory s x"
proof -
  have at: "chunks_at (memory s) (KMEM_HEAD s) cs (KMEM_HEAD s + of_nat (heap_len s))"
    using ch by (simp add: kmem_chunks_def)
  from kmalloc_loop_refines [OF at, of "chunk_need (unat sz)", unfolded ff] chunk_need_eq(2-4) [OF sz]
  obtain m' xs z ys where
    "kmalloc_loop (of_nat (chunk_need (unat sz))) (KMEM_HEAD s + of_nat (heap_len s)) (KMEM_HEAD s) (memory s)
       = Some (KMEM_HEAD s + of_nat (off + 8), m')"
    "chunks_at m' (KMEM_HEAD s) cs' (KMEM_HEAD s + of_nat (heap_len s))" "cs = xs @ (z, False) # ys"
    "off = heap_size xs" "chunk_need (unat sz) \<le> z" "cs' = xs @ carve (chunk_need (unat sz)) z @ ys"
    "\<forall>x. \<not> in_region (KMEM_HEAD s + of_nat off) z x \<longrightarrow> m' x = memory s x"
    by auto
  then show ?thesis
    using that [of m' xs z ys] kmem_chunks_memory [OF ch] kmalloc_loop_form [OF ch sz] by auto
qed

lemma carve_first:
  assumes "n \<le> z" shows "n \<le> fst (hd (carve n z))" "fst (hd (carve n z)) \<le> z"
  using assms by (auto simp: carve_def)

text \<open>The payloads after a successful \<^verbatim>\<open>kmalloc\<close>: one more, apart from the others, and these keep their bytes.\<close>

lemma kmalloc_payloads:
  assumes ch: "kmem_chunks s cs" and sz: "unat sz + 15 < 2 ^ 64"
    and ff: "first_fit (chunk_need (unat sz)) cs = Some (off, cs')"
  obtains m' k where "kmalloc sz s = Some (KMEM_HEAD s + of_nat (off + 8), s\<lparr>memory := m'\<rparr>)"
    "kmem_chunks (s\<lparr>memory := m'\<rparr>) cs'" "chunk_need (unat sz) \<le> k + 8"
    "payloads (s\<lparr>memory := m'\<rparr>) = insert (KMEM_HEAD s + of_nat (off + 8), k) (payloads s)"
    "(off, k + 8) \<in> taken_chunks 0 cs'" "\<forall>o' z'. (o', z') \<in> taken_chunks 0 cs \<longrightarrow> o' \<noteq> off"
    "\<forall>o' z' x. (o', z') \<in> taken_chunks 0 cs \<longrightarrow> in_region (KMEM_HEAD s + of_nat o') z' x \<longrightarrow> m' x = memory s x"
    "\<forall>x. \<not> (unat (KMEM_HEAD s) \<le> unat x \<and> unat x < unat (KMEM_HEAD s) + heap_len s) \<longrightarrow> m' x = memory s x"
proof -
  let ?n = "chunk_need (unat sz)"
  obtain m' xs z ys where r: "kmalloc sz s = Some (KMEM_HEAD s + of_nat (off + 8), s\<lparr>memory := m'\<rparr>)"
    and ch': "kmem_chunks (s\<lparr>memory := m'\<rparr>) cs'" and cs: "cs = xs @ (z, False) # ys" and off: "off = heap_size xs"
    and fit: "?n \<le> z" and cs': "cs' = xs @ carve ?n z @ ys"
    and out: "\<And>x. \<not> in_region (KMEM_HEAD s + of_nat off) z x \<Longrightarrow> m' x = memory s x"
    using kmalloc_some [OF assms] by blast
  define k where "k = fst (hd (carve ?n z)) - 8"
  have k8: "k + 8 = fst (hd (carve ?n z))" "?n \<le> k + 8"
    using carve_first(1) [OF fit] chunk_need_eq(5) [OF sz] by (simp_all add: k_def)
  have tk': "taken_chunks 0 cs' = insert (off, k + 8) (taken_chunks 0 cs)"
    using fit by (simp add: cs' cs taken_chunks_append taken_chunks_carve off k8(1) insert_commute)
  have neq: "o' \<noteq> off" if "(o', z') \<in> taken_chunks 0 cs" for o' z'
  proof
    assume "o' = off"
    with that have "8 \<le> z'" "(off, z') \<in> taken_chunks 0 cs" using taken_chunk_place(1) [OF ch that] by auto
    then show False
      using taken_chunks_bounds [of off z' 0 xs] taken_chunks_bounds [of off z' "off + z" ys]
        chunk_need_eq(2) [OF sz] fit by (auto simp: cs taken_chunks_append off)
  qed
  have at: "chunks_at (memory s) (KMEM_HEAD s) cs (KMEM_HEAD s + of_nat (heap_len s))"
    using ch by (simp add: kmem_chunks_def)
  have keep: "m' x = memory s x" if "\<not> in_free (KMEM_HEAD s) cs x" for x
    using that out by (simp add: cs in_free_append off)
  have "m' x = memory s x" if "(o', z') \<in> taken_chunks 0 cs" "in_region (KMEM_HEAD s + of_nat o') z' x" for o' z' x
    using taken_not_free [OF at that] by (rule keep)
  moreover have "m' x = memory s x"
    if "\<not> (unat (KMEM_HEAD s) \<le> unat x \<and> unat x < unat (KMEM_HEAD s) + heap_len s)" for x
    using that in_free_bounds [OF at, of x] kmem_tail(3) [OF ch] by (intro keep) auto
  moreover have "payloads (s\<lparr>memory := m'\<rparr>) = insert (KMEM_HEAD s + of_nat (off + 8), k) (payloads s)"
    using payloads_eq [OF ch] payloads_eq [OF ch'] by (simp add: tk')
  ultimately show ?thesis using that [OF r ch' k8(2)] neq tk' by blast
qed

text \<open>Clients may write their payloads: the chunk list does not depend on them.\<close>

lemma payload_write:
  assumes ch: "kmem_chunks s cs" and tk: "(off, z) \<in> taken_chunks 0 cs"
    and out: "\<And>x. \<not> in_region (KMEM_HEAD s + of_nat (off + 8)) (z - 8) x \<Longrightarrow> m' x = memory s x"
  shows "kmem_chunks (s\<lparr>memory := m'\<rparr>) cs"
proof -
  let ?a = "KMEM_HEAD s" and ?t = "KMEM_HEAD s + of_nat (heap_len s)"
  obtain xs ys where cs: "cs = xs @ (z, True) # ys" and off: "off = heap_size xs"
    using taken_chunks_split [OF tk] by auto
  have at: "chunks_at (memory s) ?a (xs @ (z, True) # ys) ?t"
    using ch cs by (simp add: kmem_chunks_def)
  note pl = taken_chunk_place [OF ch tk] and sfx = chunks_at_suffix [OF at]
  have at2: "chunks_at (memory s) (?a + of_nat off) ((z, True) # ys) ?t"
    using chunks_at_append [OF at] off by simp
  note d = chunks_at_ConsD [OF at2]
  have u: "unat (?a + of_nat off) = unat ?a + off" using sfx(1) off by simp
  have keep: "m' x = memory s x" if "unat x < unat ?a + off + 8 \<or> unat ?a + off + z \<le> unat x" for x
    using that pl(1,5) d(6) u by (intro out) (auto simp: in_region_iff)
  have "chunks_at m' (?a + of_nat off + of_nat z) ys ?t = chunks_at (memory s) (?a + of_nat off + of_nat z) ys ?t"
    using keep d(3) u by (intro chunks_at_cong) auto
  then have "chunks_at m' (?a + of_nat off) ((z, True) # ys) ?t"
    using at2 keep u d(6) pl(1) by (intro chunks_at_Cons_keep [OF at2]) (auto simp: in_region_iff)
  then have "chunks_at m' ?a (xs @ (z, True) # ys) ?t"
    using keep off by (intro chunks_at_replace_suffix [OF at]) auto
  then show ?thesis using kmem_chunks_memory [OF ch] cs by blast
qed

lemma zero_bytes_loop:
  assumes "k \<le> 2 ^ 64"
  shows "fold (\<lambda>i m. m(a + of_nat i := 0)) [0..<k] m = store_bytes m a (replicate k 0)"
  using assms
proof (induction k)
  case (Suc k)
  have r: "replicate (Suc k) (0 :: u8) = replicate k 0 @ [0]" by (simp add: replicate_append_same)
  have le: "k \<le> 2 ^ 64" using Suc.prems by simp
  have "store_bytes (store_bytes m a (replicate k 0)) (a + of_nat k) [0] = store_bytes m a (replicate (Suc k) 0)"
    using Suc.prems store_bytes_append [of "replicate k 0" "[0]" m a] unfolding r by simp
  then show ?case
    by (simp only: upt_Suc le0 if_True fold_append fold.simps o_apply id_apply Suc.IH [OF le] store_bytes_single)
qed simp

text \<open>\<^verbatim>\<open>kzmalloc\<close> is \<^verbatim>\<open>kmalloc\<close> of the rounded size, then zeroing of that many bytes.\<close>

lemma kzmalloc_eq:
  assumes "kmem_chunks s cs" and "unat sz + 15 < 2 ^ 64"
  shows "kzmalloc sz s = (case kmalloc sz s of None \<Rightarrow> None | Some (p, s') \<Rightarrow>
     Some (p, if p = null_mut then s' else
       s'\<lparr>memory := store_bytes (memory s') p (replicate (chunk_need (unat sz) - 8) 0)\<rparr>))"
proof -
  let ?n = "chunk_need (unat sz) - 8"
  obtain r where r: "align_val sz 3 = Some r" and ur: "unat r = ?n"
    using align_val_eq [of 3 sz] assms(2) by (auto simp: chunk_need_def)
  have need: "chunk_need (unat r) = chunk_need (unat sz)" by (simp add: ur chunk_need_def)
  have "unat r + 15 < 2 ^ 64"
    using assms(2) unfolding ur chunk_need_def by simp presburger
  then have "kmalloc r s = kmalloc sz s"
    using assms by (simp only: kmalloc_loop_form need)
  moreover have "?n \<le> 2 ^ 64" using chunk_need_eq(4) [OF assms(2)] by simp
  ultimately show ?thesis
    unfolding kzmalloc_def r bind.bind_lunit ur
    by (auto split: bind_splits option.splits simp: zero_bytes_loop)
qed

lemma free_header:
  assumes at: "chunks_at m a ((z, k) # ys) t"
  shows "chunks_at (alist_update al_set_free a m) a ((z, False) # ys) t" (is "chunks_at ?m _ _ _")
proof -
  note d = chunks_at_ConsD [OF at]
  have "chunks_at ?m (a + of_nat z) ys t = chunks_at m (a + of_nat z) ys t"
  proof (rule chunks_at_cong)
    fix x :: usize assume "unat (a + of_nat z) \<le> unat x" "unat x < unat t"
    then have "\<not> in_region a 8 x" using d(3,6) at by (subst in_region_iff) auto
    then show "?m x = m x" by (rule alist_update_outside)
  qed
  then show ?thesis using at by simp
qed

lemma kfree_payloads:
  assumes ch: "kmem_chunks s cs" and tk: "(off, z) \<in> taken_chunks 0 cs"
  obtains m' where "kfree (KMEM_HEAD s + of_nat (off + 8)) s = Some (s\<lparr>memory := m'\<rparr>)"
    "kmem_chunks (s\<lparr>memory := m'\<rparr>) (merge_free (release off cs))"
    "taken_chunks 0 (merge_free (release off cs)) = taken_chunks 0 cs - {(off, z)}"
    "\<And>x. \<not> in_free (KMEM_HEAD s) (release off cs) x \<Longrightarrow> m' x = memory s x"
    "chunks_at (alist_update al_set_free (KMEM_HEAD s + of_nat off) (memory s)) (KMEM_HEAD s) (release off cs)
       (KMEM_HEAD s + of_nat (heap_len s))"
proof -
  let ?a = "KMEM_HEAD s" and ?t = "KMEM_HEAD s + of_nat (heap_len s)"
  obtain xs ys where cs: "cs = xs @ (z, True) # ys" and off: "off = heap_size xs"
    using taken_chunks_split [OF tk] by auto
  have at: "chunks_at (memory s) ?a (xs @ (z, True) # ys) ?t" using ch cs by (simp add: kmem_chunks_def)
  have pos: "\<forall>c \<in> set (xs @ (z, True) # ys). 0 < fst c"
    using chunks_at_sizes(1) [OF at] by (metis less_le_trans zero_less_numeral)
  have rel: "release off cs = xs @ (z, False) # ys" using release_split [of xs z True ys] pos cs off by auto
  note pl = taken_chunk_place [OF ch tk] and sfx = chunks_at_suffix [OF at]
  have at2: "chunks_at (memory s) (?a + of_nat off) ((z, True) # ys) ?t"
    using chunks_at_append [OF at] off by simp
  have u: "unat (?a + of_nat off) = unat ?a + off" using sfx(1) off by simp
  define p where "p = ?a + of_nat off"
  define m1 where "m1 = alist_update al_set_free p (memory s)"
  have "chunks_at m1 ?a (xs @ (z, False) # ys) ?t"
  proof (rule chunks_at_replace_suffix [OF at])
    show "chunks_at m1 (?a + of_nat (heap_size xs)) ((z, False) # ys) ?t"
      using free_header [OF at2] off by (simp add: m1_def p_def)
    fix x :: usize assume "unat x < unat ?a + heap_size xs"
    then have "\<not> in_region p 8 x"
      using u off chunks_at_ConsD(6) [OF at2] pl(1) by (auto simp: p_def in_region_iff)
    then show "m1 x = memory s x" by (simp add: m1_def alist_update_outside)
  qed
  then have at1: "chunks_at m1 ?a (release off cs) ?t" by (simp add: rel)
  have hs: "heap_size (release off cs) < 2 ^ 63"
    unfolding rel using kmem_tail(2) [OF ch] ch by (simp add: cs kmem_chunks_def)
  obtain m' where m': "coalesce_loop ?t ?a m1 = Some m'" "chunks_at m' ?a (merge_free (release off cs)) ?t"
    "\<forall>x. \<not> in_free ?a (release off cs) x \<longrightarrow> m' x = m1 x"
    using coalesce_loop_refines [OF at1 hs] by blast
  have "al_is_taken (alist_at (memory s) p)" using at2 by (simp add: p_def)
  moreover have "?a + of_nat (off + 8) \<noteq> null_mut" using pl(5) by (auto simp: null_mut_def)
  ultimately have "kfree (?a + of_nat (off + 8)) s = Some (s\<lparr>memory := m'\<rparr>)"
    using m'(1) kmem_tail(1) [OF ch] by (simp add: kfree_def coalesce_def m1_def p_def)
  moreover have "m' x = memory s x" if x: "\<not> in_free ?a (release off cs) x" for x
  proof -
    have "\<not> in_region p z x" using x unfolding rel by (simp add: in_free_append off p_def)
    then have "\<not> in_region p 8 x" using pl(1) by (simp add: in_region_def)
    with m'(3) x show ?thesis by (simp add: m1_def alist_update_outside)
  qed
  moreover have "taken_chunks 0 (merge_free (release off cs)) = taken_chunks 0 cs - {(off, z)}"
    using taken_chunks_release [OF pos] unfolding taken_chunks_merge_free rel by (simp add: cs off)
  ultimately show ?thesis using that m'(2) kmem_chunks_memory [OF ch] at1 by (simp add: m1_def p_def)
qed

lemma payloads_remove:
  assumes ch: "kmem_chunks s cs" and tk: "(off, z) \<in> taken_chunks 0 cs" and ch': "kmem_chunks (s\<lparr>memory := m'\<rparr>) ds"
    and ds: "taken_chunks 0 ds = taken_chunks 0 cs - {(off, z)}"
  shows "payloads (s\<lparr>memory := m'\<rparr>) = payloads s - {(KMEM_HEAD s + of_nat (off + 8), z - 8)}"
proof -
  let ?f = "\<lambda>(off, z). (KMEM_HEAD s + of_nat (off + 8), z - 8 :: nat)"
  have "inj_on ?f (taken_chunks 0 cs)"
  proof (rule inj_onI, clarify)
    fix i k j l assume i: "(i, k) \<in> taken_chunks 0 cs" and j: "(j, l) \<in> taken_chunks 0 cs"
      and e: "KMEM_HEAD s + of_nat (i + 8) = KMEM_HEAD s + of_nat (j + 8)" "k - 8 = l - 8"
    have "unat (KMEM_HEAD s + of_nat (i + 8)) = unat (KMEM_HEAD s + of_nat (j + 8))" by (simp only: e(1))
    then show "i = j \<and> k = l"
      unfolding taken_chunk_place(5) [OF ch i] taken_chunk_place(5) [OF ch j]
      using taken_chunk_place(1) [OF ch i] taken_chunk_place(1) [OF ch j] e(2) by linarith
  qed
  then have "?f ` (taken_chunks 0 cs - {(off, z)}) = ?f ` taken_chunks 0 cs - {?f (off, z)}"
    using tk by (subst inj_on_image_set_diff) auto
  then show ?thesis using payloads_eq [OF ch] payloads_eq [OF ch'] ds by simp
qed

section \<open>The contract of a byte heap\<close>

text \<open>
  What \<^verbatim>\<open>Box\<close>, \<^verbatim>\<open>Vec\<close> and \<^verbatim>\<open>Buffer\<close> rely on. \<open>live\<close> are the allocations in use, address
  and capacity in bytes; \<open>contents\<close> reads their bytes.
\<close>

locale byte_heap =
  fixes invar :: "'s \<Rightarrow> bool"
    and live :: "'s \<Rightarrow> (usize \<times> nat) set"
    and contents :: "'s \<Rightarrow> usize \<Rightarrow> nat \<Rightarrow> u8 list"
    and malloc :: "usize \<Rightarrow> 's \<Rightarrow> (usize \<times> 's) option"
    and free :: "usize \<Rightarrow> 's \<Rightarrow> 's option"
  assumes malloc_returns: "invar s \<Longrightarrow> unat n + 15 < 2 ^ 64 \<Longrightarrow> \<exists>p s'. malloc n s = Some (p, s')"
    and malloc_null: "invar s \<Longrightarrow> unat n + 15 < 2 ^ 64 \<Longrightarrow> malloc n s = Some (0, s') \<Longrightarrow> s' = s"
    and malloc_block: "invar s \<Longrightarrow> unat n + 15 < 2 ^ 64 \<Longrightarrow> malloc n s = Some (p, s') \<Longrightarrow> p \<noteq> 0 \<Longrightarrow>
      invar s' \<and> (\<exists>k \<ge> unat n. live s' = insert (p, k) (live s) \<and> (p, k) \<notin> live s)
        \<and> (\<forall>(q, l) \<in> live s. contents s' q l = contents s q l)"
    and free_block: "invar s \<Longrightarrow> (p, k) \<in> live s \<Longrightarrow> \<exists>s'. free p s = Some s' \<and> invar s' \<and> live s' = live s - {(p, k)}
        \<and> (\<forall>(q, l) \<in> live s'. contents s' q l = contents s q l)"
    and live_apart: "invar s \<Longrightarrow> (p, k) \<in> live s \<Longrightarrow> (q, l) \<in> live s \<Longrightarrow> (p, k) = (q, l) \<or> disjoint_regions p k q l"
begin

text \<open>Temporary storage: allocate, use, free leaves the other allocations as they were.\<close>

lemma malloc_then_free:
  assumes "invar s" "unat n + 15 < 2 ^ 64" "malloc n s = Some (p, s')" "p \<noteq> 0"
  shows "\<exists>s''. free p s' = Some s'' \<and> invar s'' \<and> live s'' = live s
    \<and> (\<forall>(q, l) \<in> live s. contents s'' q l = contents s q l)"
proof -
  obtain k where "invar s'" and lv: "live s' = insert (p, k) (live s)" "(p, k) \<notin> live s"
    and c: "\<forall>(q, l) \<in> live s. contents s' q l = contents s q l"
    using malloc_block [OF assms] by blast
  from free_block [OF \<open>invar s'\<close>, of p k] lv
  obtain s'' where "free p s' = Some s''" "invar s''" "live s'' = live s"
    "\<forall>(q, l) \<in> live s. contents s'' q l = contents s' q l" by auto
  with c show ?thesis by fastforce
qed

text \<open>A new allocation shares no byte with any other.\<close>

lemma malloc_fresh:
  assumes "invar s" "unat n + 15 < 2 ^ 64" "malloc n s = Some (p, s')" "p \<noteq> 0" "(q, l) \<in> live s"
  shows "\<exists>k \<ge> unat n. (p, k) \<in> live s' \<and> disjoint_regions p k q l"
proof -
  obtain k where "invar s'" "k \<ge> unat n" and lv: "live s' = insert (p, k) (live s)" "(p, k) \<notin> live s"
    using malloc_block [OF assms(1-4)] by blast
  then show ?thesis using live_apart [of s' p k q l] assms(5) by (intro exI [of _ k]) auto
qed

end

definition payload_bytes :: "'a kmem_st_scheme \<Rightarrow> usize \<Rightarrow> nat \<Rightarrow> u8 list" where
  "payload_bytes s p n = load_bytes (memory s) p n"

lemma payload_in_chunk:
  assumes "8 \<le> z" "in_region (a + of_nat (off + 8)) (z - 8) x" "unat (a + of_nat (off + 8)) + (z - 8) < 2 ^ 64"
    "unat (a + of_nat off) + 8 = unat (a + of_nat (off + 8))"
  shows "in_region (a + of_nat off) z x"
proof -
  have b: "unat (a + of_nat (off + 8)) + (z - 8) \<le> 2 ^ 64" "unat (a + of_nat off) + z \<le> 2 ^ 64"
    using assms(1,3,4) by linarith+
  show ?thesis
    using assms(1,2) unfolding in_region_iff [OF b(1)] in_region_iff [OF b(2)] assms(4) [symmetric] by linarith
qed

text \<open>A memory that agrees on the taken chunks agrees on the payloads.\<close>

lemma payload_bytes_keep:
  assumes ch: "kmem_chunks s cs" and p: "(q, l) \<in> payloads s"
    and keep: "\<And>o' z' x. (o', z') \<in> taken_chunks 0 cs \<Longrightarrow> q = KMEM_HEAD s + of_nat (o' + 8) \<Longrightarrow> l = z' - 8 \<Longrightarrow>
      in_region (KMEM_HEAD s + of_nat o') z' x \<Longrightarrow> m' x = memory s x"
  shows "payload_bytes (s\<lparr>memory := m'\<rparr>) q l = payload_bytes s q l"
proof -
  obtain off z where tk: "(off, z) \<in> taken_chunks 0 cs" and q: "q = KMEM_HEAD s + of_nat (off + 8)" "l = z - 8"
    using p payloads_eq [OF ch] by auto
  note pl = taken_chunk_place [OF ch tk]
  have hl: "unat (KMEM_HEAD s) + heap_len s < 2 ^ 64" using ch by (simp add: kmem_chunks_def)
  have "unat (KMEM_HEAD s) + off < 2 ^ 64" using hl pl(4) by simp
  then have u: "unat (KMEM_HEAD s + of_nat off) = unat (KMEM_HEAD s) + off" by (rule unat_add_of_nat)
  have "m' x = memory s x" if "in_region q l x" for x
  proof (rule keep [OF tk q])
    show "in_region (KMEM_HEAD s + of_nat off) z x"
      by (rule payload_in_chunk) (use that q pl hl u in auto)
  qed
  moreover have "l \<le> 2 ^ 64" using q pl hl by simp
  ultimately show ?thesis unfolding payload_bytes_def by (auto intro: load_bytes_cong)
qed

lemma payloads_apart:
  assumes ch: "kmem_chunks s cs" and p: "(p, k) \<in> payloads s" and q: "(q, l) \<in> payloads s"
  shows "(p, k) = (q, l) \<or> disjoint_regions p k q l"
proof -
  obtain i y j z where i: "(i, y) \<in> taken_chunks 0 cs" "p = KMEM_HEAD s + of_nat (i + 8)" "k = y - 8"
    and j: "(j, z) \<in> taken_chunks 0 cs" "q = KMEM_HEAD s + of_nat (j + 8)" "l = z - 8"
    using p q payloads_eq [OF ch] by auto
  note pi = taken_chunk_place [OF ch i(1)] and pj = taken_chunk_place [OF ch j(1)]
  have hl: "unat (KMEM_HEAD s) + heap_len s < 2 ^ 64" using ch by (simp add: kmem_chunks_def)
  have up: "unat p = unat (KMEM_HEAD s) + i + 8" "unat q = unat (KMEM_HEAD s) + j + 8"
    using pi(5) pj(5) i(2) j(2) by simp_all
  from taken_chunks_apart [OF i(1) j(1)] show ?thesis
    unfolding disjoint_regions_def up using i j pi(1,4) pj(1,4) hl by auto
qed

lemma kmalloc_contract:
  assumes ch: "kmem_chunks s cs" and sz: "unat sz + 15 < 2 ^ 64" and r: "kmalloc sz s = Some (p, s')" and p: "p \<noteq> 0"
  obtains cs' off k where "kmem_chunks s' cs'" "(off, k + 8) \<in> taken_chunks 0 cs'" "p = KMEM_HEAD s' + of_nat (off + 8)"
    "chunk_need (unat sz) \<le> k + 8" "payloads s' = insert (p, k) (payloads s)" "(p, k) \<notin> payloads s"
    "\<And>q l. (q, l) \<in> payloads s \<Longrightarrow> payload_bytes s' q l = payload_bytes s q l"
    "\<exists>m. s' = s\<lparr>memory := m\<rparr>" "first_fit (chunk_need (unat sz)) cs = Some (off, cs')"
proof -
  obtain off cs' where ff: "first_fit (chunk_need (unat sz)) cs = Some (off, cs')"
    using kmalloc_none [OF ch sz] r p by (cases "first_fit (chunk_need (unat sz)) cs") (auto simp: null_mut_def)
  obtain m' k where e: "kmalloc sz s = Some (KMEM_HEAD s + of_nat (off + 8), s\<lparr>memory := m'\<rparr>)"
    and ch': "kmem_chunks (s\<lparr>memory := m'\<rparr>) cs'" and k: "chunk_need (unat sz) \<le> k + 8"
    and pls: "payloads (s\<lparr>memory := m'\<rparr>) = insert (KMEM_HEAD s + of_nat (off + 8), k) (payloads s)"
    and tk: "(off, k + 8) \<in> taken_chunks 0 cs'" and neq: "\<forall>o' z'. (o', z') \<in> taken_chunks 0 cs \<longrightarrow> o' \<noteq> off"
    and keep: "\<forall>o' z' x. (o', z') \<in> taken_chunks 0 cs \<longrightarrow> in_region (KMEM_HEAD s + of_nat o') z' x \<longrightarrow> m' x = memory s x"
    and "\<forall>x. \<not> (unat (KMEM_HEAD s) \<le> unat x \<and> unat x < unat (KMEM_HEAD s) + heap_len s) \<longrightarrow> m' x = memory s x"
    by (rule kmalloc_payloads [OF ch sz ff])
  have eq: "p = KMEM_HEAD s + of_nat (off + 8)" "s' = s\<lparr>memory := m'\<rparr>" using e r by auto
  have up: "unat p = unat (KMEM_HEAD s) + off + 8" using taken_chunk_place(5) [OF ch' tk] eq by simp
  have "(p, k) \<notin> payloads s"
  proof
    assume "(p, k) \<in> payloads s"
    then obtain o' z' where "(o', z') \<in> taken_chunks 0 cs" "p = KMEM_HEAD s + of_nat (o' + 8)"
      using payloads_eq [OF ch] by auto
    then have "o' \<noteq> off" "unat p = unat (KMEM_HEAD s) + o' + 8"
      using neq taken_chunk_place(5) [OF ch] by blast+
    with up show False by simp
  qed
  moreover have "payload_bytes s' q l = payload_bytes s q l" if "(q, l) \<in> payloads s" for q l
    unfolding eq(2) using payload_bytes_keep [OF ch that] keep by blast
  ultimately show ?thesis
    using that [of cs' off k] ch' tk k pls ff unfolding eq by (auto simp del: of_nat_add)
qed

lemma kmalloc_total:
  assumes "kmem_chunks s cs" and "unat sz + 15 < 2 ^ 64"
  shows "\<exists>p s'. kmalloc sz s = Some (p, s') \<and> (p = 0 \<longrightarrow> s' = s)"
    and "kmalloc sz s = Some (0, s') \<longleftrightarrow> first_fit (chunk_need (unat sz)) cs = None \<and> s' = s"
proof -
  have "kmalloc sz s = Some (0, s)" if "first_fit (chunk_need (unat sz)) cs = None"
    using kmalloc_none [OF assms that] by (simp add: null_mut_def)
  moreover have "\<exists>p s'. kmalloc sz s = Some (p, s') \<and> p \<noteq> 0" if ff: "first_fit (chunk_need (unat sz)) cs = Some (off, cs')" for off cs'
  proof -
    obtain m' k where e: "kmalloc sz s = Some (KMEM_HEAD s + of_nat (off + 8), s\<lparr>memory := m'\<rparr>)"
      and ch': "kmem_chunks (s\<lparr>memory := m'\<rparr>) cs'" and tk: "(off, k + 8) \<in> taken_chunks 0 cs'"
      by (rule kmalloc_payloads [OF assms ff])
    have "KMEM_HEAD s + of_nat (off + 8) \<noteq> 0"
    proof
      assume "KMEM_HEAD s + of_nat (off + 8) = 0"
      then show False using taken_chunk_place(5) [OF ch' tk] by (simp del: of_nat_add)
    qed
    then show ?thesis using e by blast
  qed
  ultimately show "\<exists>p s'. kmalloc sz s = Some (p, s') \<and> (p = 0 \<longrightarrow> s' = s)"
    "kmalloc sz s = Some (0, s') \<longleftrightarrow> first_fit (chunk_need (unat sz)) cs = None \<and> s' = s"
    by (cases "first_fit (chunk_need (unat sz)) cs"; fastforce)+
qed

lemma kfree_contract:
  assumes ch: "kmem_chunks s cs" and p: "(p, k) \<in> payloads s"
  shows "\<exists>s'. kfree p s = Some s' \<and> kmem_inv s' \<and> payloads s' = payloads s - {(p, k)}
    \<and> (\<forall>(q, l) \<in> payloads s'. payload_bytes s' q l = payload_bytes s q l)"
proof -
  obtain off z where tk: "(off, z) \<in> taken_chunks 0 cs" and pk: "p = KMEM_HEAD s + of_nat (off + 8)" "k = z - 8"
    using p payloads_eq [OF ch] by auto
  obtain m' where e: "kfree p s = Some (s\<lparr>memory := m'\<rparr>)"
    and ch': "kmem_chunks (s\<lparr>memory := m'\<rparr>) (merge_free (release off cs))"
    and tks: "taken_chunks 0 (merge_free (release off cs)) = taken_chunks 0 cs - {(off, z)}"
    and keep: "\<And>x. \<not> in_free (KMEM_HEAD s) (release off cs) x \<Longrightarrow> m' x = memory s x"
    and at: "chunks_at (alist_update al_set_free (KMEM_HEAD s + of_nat off) (memory s)) (KMEM_HEAD s) (release off cs)
       (KMEM_HEAD s + of_nat (heap_len s))"
    using kfree_payloads [OF ch tk] pk by blast
  have pls: "payloads (s\<lparr>memory := m'\<rparr>) = payloads s - {(p, k)}"
    using payloads_remove [OF ch tk ch' tks] pk by simp
  have "payload_bytes (s\<lparr>memory := m'\<rparr>) q l = payload_bytes s q l" if q: "(q, l) \<in> payloads s - {(p, k)}" for q l
  proof (rule payload_bytes_keep [OF ch])
    show "(q, l) \<in> payloads s" using q by simp
    fix o' z' x assume o: "(o', z') \<in> taken_chunks 0 cs" "q = KMEM_HEAD s + of_nat (o' + 8)" "l = z' - 8"
      and x: "in_region (KMEM_HEAD s + of_nat o') z' x"
    have "(o', z') \<in> taken_chunks 0 (release off cs)" using o q pk tks by auto
    from taken_not_free [OF at this x] show "m' x = memory s x" by (rule keep)
  qed
  with e ch' pls show ?thesis by (auto simp: kmem_inv_def)
qed

interpretation heap: byte_heap kmem_inv payloads payload_bytes kmalloc kfree
proof (unfold_locales, goal_cases)
  case (1 s n)
  then show ?case using kmalloc_total(1) by (fastforce simp: kmem_inv_def)
next
  case (2 s n s')
  then show ?case using kmalloc_total(1) by (fastforce simp: kmem_inv_def)
next
  case (3 s n p s')
  then obtain cs where ch: "kmem_chunks s cs" by (auto simp: kmem_inv_def)
  obtain cs' k where "kmem_chunks s' cs'" and k: "chunk_need (unat n) \<le> k + 8"
    and "payloads s' = insert (p, k) (payloads s)" "(p, k) \<notin> payloads s"
    and "\<And>q l. (q, l) \<in> payloads s \<Longrightarrow> payload_bytes s' q l = payload_bytes s q l"
    using kmalloc_contract [OF ch 3(2-4)] by metis
  moreover have "unat n \<le> k" using k chunk_need_eq(5) [OF 3(2)] by linarith
  ultimately show ?case by (auto simp: kmem_inv_def)
next
  case (4 s p k)
  then show ?case using kfree_contract by (auto simp: kmem_inv_def)
next
  case (5 s p k q l)
  then show ?case unfolding kmem_inv_def using payloads_apart by blast
qed

section \<open>Initialisation\<close>

lemma header_free: 
  assumes "unat n < 2 ^ 63"
  shows "unat (al_get_size (alist_at (alist_update (al_set_size n) p (alist_update al_set_free p m)) p)) = unat n"
    "\<not> al_is_taken (alist_at (alist_update (al_set_size n) p (alist_update al_set_free p m)) p)"
  using take_bit_63_small [OF assms] by simp_all

lemma page_bytes_alist:
  "page_bytes s j = page_bytes s' j \<Longrightarrow> page_addr s j = a \<Longrightarrow> page_addr s' j = a \<Longrightarrow>
   alist_at (memory s) a = alist_at (memory s') a"
  using take_load_bytes [of 8 4096 "memory s" a] take_load_bytes [of 8 4096 "memory s'" a]
  by (simp add: alist_at_def load64_def page_bytes_def)

text \<open>The page allocator does not look at the variables of the heap.\<close>

lemma pages_kmem_fields [simp]:
  "page_inv (s\<lparr>KMEM_HEAD := h\<rparr>) = page_inv s" "page_inv (s\<lparr>KMEM_ALLOC := k\<rparr>) = page_inv s"
  "page_inv (s\<lparr>KMEM_PAGE_TABLE := t\<rparr>) = page_inv s"
  "page_addr (s\<lparr>KMEM_HEAD := h\<rparr>) j = page_addr s j" "page_addr (s\<lparr>KMEM_ALLOC := k\<rparr>) j = page_addr s j"
  "blocks (s\<lparr>KMEM_HEAD := h\<rparr>) = blocks s" "num_pages (s\<lparr>KMEM_HEAD := h\<rparr>) = num_pages s"
  "num_pages (s\<lparr>KMEM_ALLOC := k\<rparr>) = num_pages s" "page_geometry (s\<lparr>KMEM_ALLOC := k\<rparr>) = page_geometry s"
  "free_run (s\<lparr>KMEM_ALLOC := k\<rparr>) n = free_run s n"
  "page_bytes (s\<lparr>KMEM_HEAD := h\<rparr>) j = page_bytes s j"
  by (simp_all add: page_inv_def table_ok_def flag_at_def page_geometry_def num_pages_def page_addr_def
      blocks_def run_at_def free_run_def page_bytes_def fun_eq_iff)

lemma zalloc_memory_only: "page_inv s \<Longrightarrow> 0 < n \<Longrightarrow> unat n \<le> num_pages s \<Longrightarrow> zalloc n s = Some (p, s') \<Longrightarrow>
   \<exists>m. s' = s\<lparr>memory := m\<rparr>"
  by (auto simp: zalloc_eq zero_pages_def take_run_def split: option.splits intro: exI [of _ "memory s"])

lemma first_zalloc:
  assumes "page_inv s" and "j + 2048 < num_pages s" and "free_run s 2048 j"
  obtains i m where "zalloc 2048 s = Some (page_addr s i, s\<lparr>memory := m\<rparr>)" "i + 2048 < num_pages s"
    "page_inv (s\<lparr>memory := m\<rparr>)" "(i, 2048) \<in> blocks (s\<lparr>memory := m\<rparr>)" "page_addr s i \<noteq> 0"
proof -
  have geo: "page_geometry s" using assms(1) by (simp add: page_inv_def)
  obtain i where f: "find (free_run s 2048) [0..<num_pages s - 2048] = Some i"
    using assms(2,3) by (cases "find (free_run s 2048) [0..<num_pages s - 2048]") (auto simp: find_None_iff)
  have i: "i + 2048 < num_pages s" using find_SomeD [OF f] by auto
  have nz: "page_addr s i \<noteq> 0" using page_addr_nonzero [OF geo] i by simp
  have z: "zalloc 2048 s = Some (page_addr s i, zero_pages i 2048 (take_run i 2048 s))"
    using f assms i by (simp add: zalloc_eq)
  then obtain m where m: "zero_pages i 2048 (take_run i 2048 s) = s\<lparr>memory := m\<rparr>"
    using zalloc_memory_only [of s 2048] assms by auto
  have "\<exists>k. page_addr s i = page_addr s k \<and> k + 2048 < num_pages s \<and> page_inv (s\<lparr>memory := m\<rparr>)
      \<and> (k, 2048) \<in> blocks (s\<lparr>memory := m\<rparr>)"
    using pages.get_block [OF assms(1) _ _ z] nz assms m by auto
  with z m nz that show ?thesis by auto
qed

lemma second_zalloc:
  assumes inv: "page_inv s" and b: "(i, 2048) \<in> blocks s"
  obtains p m where "zalloc 1 s = Some (p, s\<lparr>memory := m\<rparr>)" "page_inv (s\<lparr>memory := m\<rparr>)"
    "alist_at m (page_addr s i) = alist_at (memory s) (page_addr s i)"
proof -
  have n: "unat (1 :: usize) \<le> num_pages s" using pages.live_nonempty [OF b] by simp
  obtain p s' where z: "zalloc 1 s = Some (p, s')" using pages.get_returns [OF inv _ n] by auto
  obtain m where m: "s' = s\<lparr>memory := m\<rparr>" using zalloc_memory_only [OF inv _ n z] by auto
  show ?thesis
  proof (cases "p = 0")
    case True
    have "s' = s" using z True inv n by (auto simp: zalloc_eq page_inv_def page_addr_nonzero split: option.splits dest!: find_SomeD)
    then show ?thesis using that [of p "memory s"] z inv by simp
  next
    case False
    obtain j where "page_inv s'" and ap: "i + 2048 \<le> j \<or> j + 1 \<le> i"
      and bts: "\<forall>k < num_pages s. page_bytes s' k = (if j \<le> k \<and> k < j + 1 then replicate 4096 0 else page_bytes s k)"
      using pages.get_block [OF inv _ n z False] b by force
    have "page_bytes s' i = page_bytes s i" using bts ap pages.live_nonempty [OF b] by auto
    then have "alist_at m (page_addr s i) = alist_at (memory s) (page_addr s i)"
      using page_bytes_alist [of s' i s "page_addr s i"] m by simp
    then show ?thesis using that z m \<open>page_inv s'\<close> by auto
  qed
qed

lemma kmem_init_ok:
  assumes inv: "page_inv s" and al: "8 dvd unat (ALLOC_START s)" and j: "j + 2048 < num_pages s" "free_run s 2048 j"
  shows "\<exists>s'. kmem_init s = Some s' \<and> kmem_chunks s' [(2048 * 4096, False)] \<and> page_inv s'"
proof -
  let ?s = "s\<lparr>KMEM_ALLOC := 2048\<rparr>"
  obtain i m where z1: "zalloc 2048 ?s = Some (page_addr s i, ?s\<lparr>memory := m\<rparr>)" and i: "i + 2048 < num_pages s"
    and inv1: "page_inv (?s\<lparr>memory := m\<rparr>)" and b1: "(i, 2048) \<in> blocks (?s\<lparr>memory := m\<rparr>)" and nz: "page_addr s i \<noteq> 0"
    using first_zalloc [of ?s j] inv j by auto
  let ?p = "page_addr s i"
  define m2 where "m2 = alist_update (al_set_size 0x800000) ?p (alist_update al_set_free ?p m)"
  define s2 where "s2 = ?s\<lparr>KMEM_HEAD := ?p, memory := m2\<rparr>"
  have s2: "s2 = ?s\<lparr>memory := m2\<rparr>\<lparr>KMEM_HEAD := ?p\<rparr>" by (simp add: s2_def)
  have "m2 x = m x" if "\<not> in_region ?p 4096 x" for x
  proof -
    have "\<not> in_region ?p 8 x" using that by (simp add: in_region_def)
    then show ?thesis by (simp add: m2_def alist_update_outside)
  qed
  then have pw: "page_inv s2" "(i, 2048) \<in> blocks s2"
    using page_write_keeps_table [OF inv1, of i m2] i b1 unfolding s2 by simp_all
  obtain pt m3 where z2: "zalloc 1 s2 = Some (pt, s2\<lparr>memory := m3\<rparr>)" and inv3: "page_inv (s2\<lparr>memory := m3\<rparr>)"
    and hd: "alist_at m3 ?p = alist_at m2 ?p"
    using second_zalloc [OF pw] by (auto simp: s2_def)
  have "umul 2048 PAGE_SIZE = Some 0x800000" by (simp add: umul_def PAGE_SIZE_def)
  then have "kmem_init s = Some (s2\<lparr>memory := m3, KMEM_PAGE_TABLE := pt\<rparr>)"
    using z1 z2 nz unfolding kmem_init_def by (simp add: null_mut_def s2_def m2_def)
  moreover have "page_inv (s2\<lparr>memory := m3, KMEM_PAGE_TABLE := pt\<rparr>)" using inv3 by simp
  moreover have "kmem_chunks (s2\<lparr>memory := m3, KMEM_PAGE_TABLE := pt\<rparr>) [(2048 * 4096, False)]"
  proof -
    have geo: "page_geometry s" using inv by (simp add: page_inv_def)
    have ua: "unat ?p = unat (ALLOC_START s) + 4096 * i" using page_addr_checked(3) [OF geo] i by simp
    have top: "unat ?p + 0x800000 < 2 ^ 64" using ua i geo by (simp add: page_geometry_def)
    then have ut: "unat (?p + 0x800000) = unat ?p + 0x800000" using unat_add_of_nat [of ?p "0x800000"] by simp
    have "8 dvd unat ?p" using al ua by (simp add: dvd_add)
    moreover have "0 < ?p" using nz by (simp add: word_gt_0)
    ultimately show ?thesis
      using top ut hd header_free [of "0x800000" ?p m]
      by (simp add: kmem_chunks_def heap_len_def s2_def m2_def)
  qed
  ultimately show ?thesis by blast
qed

section \<open>Properties\<close>

definition example_kmem :: kmem_st where
  "example_kmem = \<lparr>memory = store64 (\<lambda>_. 0) 0x1000 4096, HEAP_START = 0, HEAP_SIZE = 0, ALLOC_START = 0,
     KMEM_HEAD = 0x1000, KMEM_ALLOC = 1, KMEM_PAGE_TABLE = 0\<rparr>"

lemma example_kmem_chunks: "kmem_chunks example_kmem [(4096, False)]"
proof -
  have "take_bit 63 (4096 :: usize) = 4096" by (rule take_bit_63_small) simp
  then show ?thesis
    by (simp add: kmem_chunks_def example_kmem_def heap_len_def alist_at_def al_get_size_take al_taken_bit bit_simps)
qed

lemma example_first_fit: "first_fit (chunk_need (unat (100 :: usize))) [(4096, False)] = Some (0, [(112, True), (3984, False)])"
  by (simp add: chunk_need_def)

lemma example_kmem_malloc:
  "\<exists>m. kmalloc 100 example_kmem = Some (0x1008, example_kmem\<lparr>memory := m\<rparr>)
     \<and> kmem_chunks (example_kmem\<lparr>memory := m\<rparr>) [(112, True), (3984, False)]"
proof -
  have b: "unat (100 :: usize) + 15 < 2 ^ 64" by simp
  have h: "KMEM_HEAD example_kmem + of_nat (0 + 8) = 0x1008" by (simp add: example_kmem_def)
  show ?thesis by (rule kmalloc_some [OF example_kmem_chunks b example_first_fit]) (auto simp only: h)
qed

text \<open>
  C4: \<^verbatim>\<open>kmalloc\<close> refines first fit on the list of chunks. On a well-formed heap it always
  returns. If some free chunk can hold the request (rounded up to words, plus the header),
  it returns the 8-aligned payload address of the first such chunk, the chunk list becomes
  the one first fit prescribes, the new payload has room for the request, overlaps no payload
  in use, and every payload in use keeps its bytes; otherwise it returns null and changes nothing.
\<close>
theorem kmalloc_first_fit:
  assumes ch: "kmem_chunks s cs" and sz: "unat sz + 15 < 2 ^ 64"
  shows "\<exists>p s'. kmalloc sz s = Some (p, s') \<and>
    (case first_fit (chunk_need (unat sz)) cs of
       None \<Rightarrow> p = null_mut \<and> s' = s \<and> (\<forall>(z, taken) \<in> set cs. taken \<or> z < chunk_need (unat sz))
     | Some (off, cs') \<Rightarrow> p = KMEM_HEAD s + of_nat (off + 8) \<and> p \<noteq> null_mut \<and> 8 dvd unat p \<and> kmem_chunks s' cs'
         \<and> (\<exists>k \<ge> unat sz. payloads s' = insert (p, k) (payloads s)
              \<and> (\<forall>(q, l) \<in> payloads s. disjoint_regions p k q l \<and> payload_bytes s' q l = payload_bytes s q l)))"
proof (cases "first_fit (chunk_need (unat sz)) cs")
  case None
  then show ?thesis using kmalloc_none [OF assms None] first_fit_None [of "chunk_need (unat sz)" cs] by auto
next
  case (Some r)
  obtain p s' where e: "kmalloc sz s = Some (p, s')" and p: "p \<noteq> 0"
    using kmalloc_total [OF assms] Some by fastforce
  obtain cs' off k where c: "kmem_chunks s' cs'" "(off, k + 8) \<in> taken_chunks 0 cs'" "p = KMEM_HEAD s' + of_nat (off + 8)"
    "chunk_need (unat sz) \<le> k + 8" and pl: "payloads s' = insert (p, k) (payloads s)" "(p, k) \<notin> payloads s"
    and keep: "\<forall>q l. (q, l) \<in> payloads s \<longrightarrow> payload_bytes s' q l = payload_bytes s q l"
    and "\<exists>m. s' = s\<lparr>memory := m\<rparr>" "first_fit (chunk_need (unat sz)) cs = Some (off, cs')"
    using kmalloc_contract [OF assms e p] by metis
  moreover from this have "unat p = unat (KMEM_HEAD s') + off + 8" "8 dvd unat (KMEM_HEAD s')" "8 dvd off"
    using taken_chunk_place(3,5) [OF c(1,2)] by (simp_all add: kmem_chunks_def)
  moreover have "unat sz \<le> k" using c(4) chunk_need_eq(5) [OF sz] by linarith
  moreover have "disjoint_regions p k q l" if "(q, l) \<in> payloads s" for q l
    using heap.live_apart [of s' p k q l] c(1) pl that by (auto simp: kmem_inv_def)
  ultimately show ?thesis using e p Some by (auto simp: null_mut_def)
qed

theorem kmalloc_first_fit_witness:
  "\<exists>s'. kmalloc 100 example_kmem = Some (0x1008, s') \<and> kmem_chunks s' [(112, True), (3984, False)]"
proof -
  have "KMEM_HEAD example_kmem + 8 = 0x1008" by (simp add: example_kmem_def)
  then show ?thesis
    using kmalloc_first_fit [OF example_kmem_chunks, of 100] unfolding example_first_fit by (auto simp del: first_fit.simps)
qed

text \<open>
  C20: \<^verbatim>\<open>kfree\<close> refines releasing one chunk and one merging pass. Given a payload in use it
  returns; the chunk list becomes the old one with that chunk free and each free chunk merged
  with a free successor; the payload is no longer in use, and all others stay in use with
  their bytes. Freeing null does nothing.
\<close>
theorem kfree_releases:
  assumes ch: "kmem_chunks s cs" and tk: "(off, z) \<in> taken_chunks 0 cs"
  shows "kfree null_mut s = Some s \<and>
    (\<exists>s'. kfree (KMEM_HEAD s + of_nat (off + 8)) s = Some s' \<and> kmem_chunks s' (merge_free (release off cs))
       \<and> payloads s' = payloads s - {(KMEM_HEAD s + of_nat (off + 8), z - 8)}
       \<and> (\<forall>(q, l) \<in> payloads s'. payload_bytes s' q l = payload_bytes s q l))"
proof -
  let ?p = "KMEM_HEAD s + of_nat (off + 8)"
  have pl: "(?p, z - 8) \<in> payloads s" using tk payloads_eq [OF ch] by (auto simp del: of_nat_add)
  obtain m' where "kfree ?p s = Some (s\<lparr>memory := m'\<rparr>)"
    "kmem_chunks (s\<lparr>memory := m'\<rparr>) (merge_free (release off cs))"
    using kfree_payloads [OF ch tk] by metis
  moreover have "kfree null_mut s = Some s" by (simp add: kfree_def)
  moreover have "kmem_inv s" using ch by (auto simp: kmem_inv_def)
  ultimately show ?thesis using heap.free_block [OF _ pl] by auto
qed

theorem kfree_releases_witness:
  "\<exists>s s'. kmalloc 100 example_kmem = Some (0x1008, s) \<and> kfree 0x1008 s = Some s' \<and> kmem_chunks s' [(4096, False)]"
proof -
  obtain m where a: "kmalloc 100 example_kmem = Some (0x1008, example_kmem\<lparr>memory := m\<rparr>)"
    "kmem_chunks (example_kmem\<lparr>memory := m\<rparr>) [(112, True), (3984, False)]"
    using example_kmem_malloc by blast
  have h: "KMEM_HEAD (example_kmem\<lparr>memory := m\<rparr>) + of_nat (0 + 8) = 0x1008" by (simp add: example_kmem_def)
  obtain s' where "kfree 0x1008 (example_kmem\<lparr>memory := m\<rparr>) = Some s'"
    "kmem_chunks s' (merge_free (release 0 [(112, True), (3984, False)]))"
    using kfree_releases [OF a(2), of 0 112] unfolding h by auto
  then show ?thesis using a(1) by auto
qed

text \<open>
  \<^verbatim>\<open>kzmalloc\<close>, the allocator behind \<^verbatim>\<open>Box\<close> and \<^verbatim>\<open>Vec\<close>, hands out zeroed memory: a
  non-null result is a new payload whose first bytes, as many as were asked for, are zero;
  the heap stays well formed and payloads in use keep their bytes.
\<close>
lemma kzmalloc_zeroed:
  assumes ch: "kmem_chunks s cs" and sz: "unat sz + 15 < 2 ^ 64"
    and r: "kzmalloc sz s = Some (p, s')" and p: "p \<noteq> null_mut"
  shows "kmem_inv s' \<and> (\<exists>k \<ge> unat sz. payloads s' = insert (p, k) (payloads s) \<and> payload_bytes s' p (unat sz) = replicate (unat sz) 0
    \<and> (\<forall>(q, l) \<in> payloads s. disjoint_regions p k q l \<and> payload_bytes s' q l = payload_bytes s q l))"
proof -
  let ?n = "chunk_need (unat sz) - 8"
  obtain s1 where e: "kmalloc sz s = Some (p, s1)" and s': "s' = s1\<lparr>memory := store_bytes (memory s1) p (replicate ?n 0)\<rparr>"
    using r p unfolding kzmalloc_eq [OF ch sz] by (auto split: option.splits if_splits)
  obtain cs' off k where c: "kmem_chunks s1 cs'" "(off, k + 8) \<in> taken_chunks 0 cs'" "p = KMEM_HEAD s1 + of_nat (off + 8)"
    "chunk_need (unat sz) \<le> k + 8" and pl: "payloads s1 = insert (p, k) (payloads s)" "(p, k) \<notin> payloads s"
    and keep: "\<forall>q l. (q, l) \<in> payloads s \<longrightarrow> payload_bytes s1 q l = payload_bytes s q l"
    using kmalloc_contract [OF ch sz e p [unfolded null_mut_def]] by metis
  have nk: "?n \<le> k" using c(4) by simp
  then have reg: "in_region p k x" if "in_region p ?n x" for x using that by (simp add: in_region_def)
  have chs: "kmem_chunks s' cs'"
    unfolding s' using reg c(3) by (intro payload_write [OF c(1,2)]) (auto simp: store_bytes_def)
  have pls: "payloads s' = payloads s1" unfolding payloads_eq [OF chs] payloads_eq [OF c(1)] by (simp add: s')
  have apart: "disjoint_regions p k q l" if "(q, l) \<in> payloads s" for q l
    using heap.live_apart [of s1 p k q l] c(1) pl that by (auto simp: kmem_inv_def)
  have "payload_bytes s' q l = payload_bytes s q l" if "(q, l) \<in> payloads s" for q l
    using disjoint_regions_mono [OF apart [OF that] nk order_refl] keep that
    by (simp add: s' payload_bytes_def load_store_bytes_disjoint)
  moreover have "payload_bytes s' p (unat sz) = replicate (unat sz) 0"
  proof -
    have le: "unat sz \<le> ?n" "?n \<le> 2 ^ 64" using chunk_need_eq(4,5) [OF sz] by linarith+
    have "load_bytes (store_bytes (memory s1) p (replicate ?n 0)) p ?n = replicate ?n 0"
      using load_store_bytes [of "replicate ?n 0" "memory s1" p] le by simp
    then show ?thesis
      using take_load_bytes [OF le(1), of "memory s'" p] le by (simp add: s' payload_bytes_def min_def)
  qed
  moreover have "unat sz \<le> k" using c(4) chunk_need_eq(5) [OF sz] by linarith
  ultimately show ?thesis using chs pls pl apart by (auto simp: kmem_inv_def)
qed

text \<open>
  \<^verbatim>\<open>kmem::init\<close> sets the heap up: when 2048 consecutive pages are free it returns, and
  the heap is then one free chunk of 2048 pages, with no payload in use, on top of a
  page allocator that is still well formed.
\<close>
lemma kmem_init_establishes:
  assumes "page_inv s" and "8 dvd unat (ALLOC_START s)" and "j + 2048 < num_pages s" and "free_run s 2048 j"
  shows "\<exists>s'. kmem_init s = Some s' \<and> kmem_chunks s' [(2048 * 4096, False)] \<and> payloads s' = {} \<and> page_inv s'"
proof -
  obtain s' where "kmem_init s = Some s'" "kmem_chunks s' [(2048 * 4096, False)]" "page_inv s'"
    using kmem_init_ok [OF assms] by blast
  moreover from this have "payloads s' = {}" using payloads_eq by fastforce
  ultimately show ?thesis by blast
qed

end
