(* ===== verification/Block.thy ===== *)
theory Block
  imports Virtio Kmem_Heap
begin

text \<open>
  \<^verbatim>\<open>block.rs\<close>: the block device driver. A request of three descriptors (header, data, status) goes into the
  queue; the interrupt handler takes the finished requests out of the used ring, wakes the process
  that waits for them, and frees them.
\<close>

section \<open>Data\<close>

definition VIRTIO_BLK_T_IN :: u32 where "VIRTIO_BLK_T_IN = 0"
definition VIRTIO_BLK_T_OUT :: u32 where "VIRTIO_BLK_T_OUT = 1"
definition VIRTIO_BLK_F_RO :: nat where "VIRTIO_BLK_F_RO = 5"

datatype BlockErrors = BlockSuccess | BlockDeviceNotFound | InvalidArgument | ReadOnly

record BlockDevice =
  bd_queue :: usize
  bd_dev :: usize
  bd_idx :: u16
  bd_ack_used_idx :: u16
  bd_read_only :: bool

record block_st = virtio_st +
  BLOCK_DEVICES :: "BlockDevice option list"

text \<open>
  \<^verbatim>\<open>Request\<close>: block type, reserved word and sector make up the header of 16 bytes, then the data
  pointer, the status byte at 24, the head at 26 and the watcher at 28; its size is 32.
\<close>

definition REQUEST_SIZE :: usize where "REQUEST_SIZE = 32"
definition rq_blktype :: "usize \<Rightarrow> usize" where "rq_blktype r = r"
definition rq_reserved :: "usize \<Rightarrow> usize" where "rq_reserved r = r + 4"
definition rq_sector :: "usize \<Rightarrow> usize" where "rq_sector r = r + 8"
definition rq_data :: "usize \<Rightarrow> usize" where "rq_data r = r + 16"
definition rq_status :: "usize \<Rightarrow> usize" where "rq_status r = r + 24"
definition rq_watcher :: "usize \<Rightarrow> usize" where "rq_watcher r = r + 28"

section \<open>Initialisation\<close>

definition setup_block_device :: "device_regs \<Rightarrow> usize \<Rightarrow> 'a block_st_scheme \<Rightarrow> (bool \<times> 'a block_st_scheme) option" where
  "setup_block_device M ptr s = do {
     idx \<leftarrow> device_index ptr;
     let (good, host_features, s) = negotiate M (\<lambda>f. f AND NOT (push_bit VIRTIO_BLK_F_RO 1)) ptr s;
     if \<not> good then Some (False, s)
     else do {
       let ro = (host_features AND push_bit VIRTIO_BLK_F_RO 1 \<noteq> 0);
       (queue_ptr, s) \<leftarrow> install_queue ptr 0 s;
       let bd = \<lparr>bd_queue = queue_ptr, bd_dev = ptr, bd_idx = 0, bd_ack_used_idx = 0, bd_read_only = ro\<rparr>;
       devs \<leftarrow> set_slot idx bd (BLOCK_DEVICES s);
       Some (True, device_live ptr (s\<lparr>BLOCK_DEVICES := devs\<rparr>))
     }
   }"

section \<open>Requests\<close>

definition fill_next_descriptor :: "VDescriptor \<Rightarrow> BlockDevice \<times> mem \<Rightarrow> (u16 \<times> BlockDevice \<times> mem) option" where
  "fill_next_descriptor desc = (\<lambda>(bd, m). do {
     i \<leftarrow> ring_next (bd_idx bd);
     let m = store_desc m (bd_queue bd) i desc;
     m \<leftarrow> (if vd_flags (load_desc m (bd_queue bd) i) AND VIRTIO_DESC_F_NEXT \<noteq> 0
           then do { n \<leftarrow> ring_next i; Some (store16 m (desc_addr (bd_queue bd) i + 14) n) }
           else Some m);
     Some (i, bd\<lparr>bd_idx := i\<rparr>, m)
   })"

definition fill_request :: "usize \<Rightarrow> usize \<Rightarrow> u64 \<Rightarrow> bool \<Rightarrow> u16 \<Rightarrow> mem \<Rightarrow> mem" where
  "fill_request rq buffer sector wr watcher m =
     (let m = store64 m (rq_sector rq) sector;
          m = store32 m (rq_blktype rq) (if wr then VIRTIO_BLK_T_OUT else VIRTIO_BLK_T_IN);
          m = store64 m (rq_data rq) buffer;
          m = store32 m (rq_reserved rq) 0;
          m = m(rq_status rq := 111)
      in store16 m (rq_watcher rq) watcher)"

definition block_op :: "usize \<Rightarrow> usize \<Rightarrow> u32 \<Rightarrow> u64 \<Rightarrow> bool \<Rightarrow> u16 \<Rightarrow> 'a block_st_scheme \<Rightarrow> ((BlockErrors + u32) \<times> 'a block_st_scheme) option" where
  "block_op dev buffer sz offset wr watcher s = do {
     i \<leftarrow> usub dev 1;
     assert_that (unat i < length (BLOCK_DEVICES s));
     case BLOCK_DEVICES s ! unat i of
       None \<Rightarrow> Some (Inl BlockDeviceNotFound, s)
     | Some bdev \<Rightarrow>
         if bd_read_only bdev \<and> wr then Some (Inl ReadOnly, s)
         else if sz mod 512 \<noteq> 0 then Some (Inl InvalidArgument, s)
         else do {
           let sector = offset div 512;
           (rq, s) \<leftarrow> kmalloc REQUEST_SIZE s;
           (head_idx, bdev, m) \<leftarrow> fill_next_descriptor
             \<lparr>vd_addr = rq, vd_len = 16, vd_flags = VIRTIO_DESC_F_NEXT, vd_next = 0\<rparr> (bdev, memory s);
           let m = fill_request rq buffer sector wr watcher m;
           (_, bdev, m) \<leftarrow> fill_next_descriptor
             \<lparr>vd_addr = buffer, vd_len = sz, vd_flags = VIRTIO_DESC_F_NEXT OR (if \<not> wr then VIRTIO_DESC_F_WRITE else 0), vd_next = 0\<rparr> (bdev, m);
           (_, bdev, m) \<leftarrow> fill_next_descriptor
             \<lparr>vd_addr = rq_status rq, vd_len = 1, vd_flags = VIRTIO_DESC_F_WRITE, vd_next = 0\<rparr> (bdev, m);
           let m = avail_push (bd_queue bdev) head_idx m;
           let s = s\<lparr>memory := m, BLOCK_DEVICES := (BLOCK_DEVICES s)[unat i := Some bdev]\<rparr>;
           Some (Inr sz, reg_write (bd_dev bdev) QueueNotify 0 s)
         }
   }"

definition block_read :: "usize \<Rightarrow> usize \<Rightarrow> u32 \<Rightarrow> u64 \<Rightarrow> 'a block_st_scheme \<Rightarrow> ((BlockErrors + u32) \<times> 'a block_st_scheme) option" where
  "block_read dev buffer sz offset s = block_op dev buffer sz offset False 0 s"

definition block_write :: "usize \<Rightarrow> usize \<Rightarrow> u32 \<Rightarrow> u64 \<Rightarrow> 'a block_st_scheme \<Rightarrow> ((BlockErrors + u32) \<times> 'a block_st_scheme) option" where
  "block_write dev buffer sz offset s = block_op dev buffer sz offset True 0 s"

section \<open>Completion\<close>

text \<open>
  One entry of the used ring: the address of the request is in the descriptor that heads its
  chain. A null pointer from \<^verbatim>\<open>get_by_pid\<close> is dereferenced, which gives \<open>None\<close>.
\<close>

definition finish_request :: "usize \<Rightarrow> 'a proc_st_scheme \<Rightarrow> 'a proc_st_scheme option" where
  "finish_request rq s = do {
     let pid_of_watcher = load16 (memory s) (rq_watcher rq);
     s \<leftarrow> (if pid_of_watcher > 0 then do {
         (_, s) \<leftarrow> set_running pid_of_watcher s;
         i \<leftarrow> get_by_pid pid_of_watcher s;
         pl \<leftarrow> PROCESS_LIST s;
         Some (s\<lparr>memory := store64 (memory s) (frame_reg (frame (pl ! i)) A0) (ucast (memory s (rq_status rq)))\<rparr>)
       } else Some s);
     kfree rq s
   }"

text \<open>The loop over the used ring, from the last acknowledged entry to the index of the device.\<close>

partial_function (option) block_pending_loop :: "usize \<Rightarrow> u16 \<Rightarrow> 'a proc_st_scheme \<Rightarrow> (u16 \<times> 'a proc_st_scheme) option" where
  "block_pending_loop q ack s =
     (if ack \<noteq> load16 (memory s) (used_idx q) then do {
        let elem_id = load32 (memory s) (used_id q (ucast ack mod VIRTIO_RING_SIZE));
        assert_that (unat elem_id < 128);
        let rq = vd_addr (load_desc (memory s) q (ucast elem_id));
        s \<leftarrow> finish_request rq s;
        block_pending_loop q (ack + 1) s
      } else Some (ack, s))"

definition block_pending :: "BlockDevice \<Rightarrow> 'a proc_st_scheme \<Rightarrow> (BlockDevice \<times> 'a proc_st_scheme) option" where
  "block_pending bd s = do {
     (ack, s) \<leftarrow> block_pending_loop (bd_queue bd) (bd_ack_used_idx bd) s;
     Some (bd\<lparr>bd_ack_used_idx := ack\<rparr>, s)
   }"

definition block_handle_interrupt :: "nat \<Rightarrow> 'a block_st_scheme \<Rightarrow> 'a block_st_scheme option" where
  "block_handle_interrupt idx s = do {
     assert_that (idx < length (BLOCK_DEVICES s));
     case BLOCK_DEVICES s ! idx of
       Some bdev \<Rightarrow> do {
         (bdev, s) \<leftarrow> block_pending bdev s;
         Some (s\<lparr>BLOCK_DEVICES := (BLOCK_DEVICES s)[idx := Some bdev]\<rparr>)
       }
     | None \<Rightarrow> Some s
   }"

section \<open>Block processes\<close>

text \<open>
  The arguments of a kernel process, boxed on the heap. \<^verbatim>\<open>ProcArgs\<close> has the layout that the Rust
  compiler chooses: the encoding is a parameter.
\<close>

record BlockArgs =
  ba_pid :: u16
  ba_dev :: usize
  ba_buffer :: usize
  ba_size :: u32
  ba_offset :: u64

record 'b layout =
  encode :: "'b \<Rightarrow> u8 list"
  decode :: "u8 list \<Rightarrow> 'b"

definition ARGS_SIZE :: usize where "ARGS_SIZE = 32"

definition Box_new :: "u8 list \<Rightarrow> 'a kmem_st_scheme \<Rightarrow> (usize \<times> 'a kmem_st_scheme) option" where
  "Box_new bs s = do {
     (p, s) \<leftarrow> OsGlobalAlloc_alloc (of_nat (length bs)) s;
     assert_that (p \<noteq> null_mut);
     Some (p, s\<lparr>memory := store_bytes (memory s) p bs\<rparr>)
   }"

definition block_proc :: "BlockArgs layout \<Rightarrow> bool \<Rightarrow> usize \<Rightarrow> 'a block_st_scheme \<Rightarrow> 'a block_st_scheme option" where
  "block_proc L wr args_addr s = do {
     let args = decode L (load_bytes (memory s) args_addr (unat ARGS_SIZE));
     (_, s) \<leftarrow> block_op (ba_dev args) (ba_buffer args) (ba_size args) (ba_offset args) wr (ba_pid args) s;
     OsGlobalAlloc_dealloc args_addr s
   }"

definition block_read_proc :: "BlockArgs layout \<Rightarrow> usize \<Rightarrow> 'a block_st_scheme \<Rightarrow> 'a block_st_scheme option" where
  "block_read_proc L = block_proc L False"

definition block_write_proc :: "BlockArgs layout \<Rightarrow> usize \<Rightarrow> 'a block_st_scheme \<Rightarrow> 'a block_st_scheme option" where
  "block_write_proc L = block_proc L True"

text \<open>\<^verbatim>\<open>process_read\<close> and \<^verbatim>\<open>process_write\<close> differ in the function \<open>f\<close> that the kernel process runs.\<close>

definition block_process :: "BlockArgs layout \<Rightarrow> usize \<Rightarrow> usize \<Rightarrow> BlockArgs \<Rightarrow> 'a proc_st_scheme \<Rightarrow> 'a proc_st_scheme option" where
  "block_process L ra_delete_proc f args s = do {
     (p, s) \<leftarrow> Box_new (encode L args) s;
     (_, s) \<leftarrow> set_waiting (ba_pid args) s;
     (_, s) \<leftarrow> add_kernel_process_args ra_delete_proc f p s;
     Some s
   }"


section \<open>The queue in memory\<close>

text \<open>Byte \<open>k\<close> of a structure at \<open>p\<close>.\<close>

definition loc :: "usize \<Rightarrow> nat \<Rightarrow> usize" where "loc p k = p + of_nat k"

text \<open>A queue that does not wrap around the address space.\<close>

definition queue_ok :: "usize \<Rightarrow> bool" where
  "queue_ok q \<longleftrightarrow> unat q + 5128 \<le> 2 ^ 64"

lemma load_store_apart:
  assumes "unat q + N \<le> 2 ^ 64" "a + length bs \<le> N" "b + n \<le> N" "0 < n" "0 < length bs" "a + length bs \<le> b \<or> b + n \<le> a"
  shows "load_bytes (store_bytes m (loc q a) bs) (loc q b) n = load_bytes m (loc q b) n"
  unfolding loc_def
proof (rule load_store_bytes_disjoint)
  have "unat q + a < 2 ^ 64" "unat q + b < 2 ^ 64" using assms(1-5) by linarith+
  then have "unat (q + of_nat a) = unat q + a" "unat (q + of_nat b) = unat q + b"
    by (simp_all add: unat_add_of_nat)
  then show "disjoint_regions (q + of_nat a) (length bs) (q + of_nat b) n"
    using assms by (auto simp: disjoint_regions_def)
qed

lemma desc_addr_off: "desc_addr q i = loc q (16 * unat i)"
  by (simp add: desc_addr_def loc_def)

lemma length_VDescriptor_bytes [simp]: "length (VDescriptor_bytes d) = 16"
  by (simp add: VDescriptor_bytes_def)

text \<open>A descriptor is read as it was written.\<close>

lemma load_desc_bytes:
  "load_desc m q i = \<lparr>vd_addr = le_word (take 8 b), vd_len = le_word (take 4 (drop 8 b)), vd_flags = le_word (take 2 (drop 12 b)),
     vd_next = le_word (take 2 (drop 14 b))\<rparr>" if "b = load_bytes m (desc_addr q i) 16"
proof -
  have "load_bytes m (a + of_nat k) n = take n (drop k (load_bytes m a 16))" if "k + n \<le> 16" for a k n
    using that by (intro nth_equalityI) (simp_all add: add.assoc)
  from this [of 0 8 "desc_addr q i"] this [of 8 4 "desc_addr q i"] this [of 12 2 "desc_addr q i"] this [of 14 2 "desc_addr q i"]
  show ?thesis unfolding that by (simp add: load_desc_def load64_def load32_def load16_def)
qed

lemma load_store_desc: "load_desc (store_desc m q i d) q i = d"
proof -
  have "load_bytes (store_desc m q i d) (desc_addr q i) 16 = VDescriptor_bytes d"
    using load_store_bytes [of "VDescriptor_bytes d" m "desc_addr q i"] by (simp add: store_desc_def)
  note load_desc_bytes [OF this [symmetric]]
  then show ?thesis by (simp add: VDescriptor_bytes_def)
qed

lemma load_desc_cong:
  "load_bytes m' (desc_addr q i) 16 = load_bytes m (desc_addr q i) 16 \<Longrightarrow> load_desc m' q i = load_desc m q i"
  using load_desc_bytes [of "load_bytes m' (desc_addr q i) 16" m' q i] load_desc_bytes [of "load_bytes m (desc_addr q i) 16" m q i] by simp

lemma load_store_desc_other:
  assumes q: "queue_ok q" and i: "i < 128" "j < 128" "i \<noteq> j"
  shows "load_desc (store_desc m q j d) q i = load_desc m q i"
proof (rule load_desc_cong)
  have u: "unat i < 128" "unat j < 128" "unat i \<noteq> unat j"
    using i by (simp_all add: word_less_nat_alt word_unat_eq_iff)
  show "load_bytes (store_desc m q j d) (desc_addr q i) 16 = load_bytes m (desc_addr q i) 16"
    unfolding store_desc_def desc_addr_off
  proof (rule load_store_apart [OF q [unfolded queue_ok_def]])
    show "16 * unat j + length (VDescriptor_bytes d) \<le> 16 * unat i \<or> 16 * unat i + 16 \<le> 16 * unat j" using u by simp linarith
  qed (use u in auto)
qed

text \<open>Patching the \<^verbatim>\<open>next\<close> field.\<close>

lemma store_next:
  "store16 (store_desc m q i d) (desc_addr q i + 14) n = store_desc m q i (d\<lparr>vd_next := n\<rparr>)"
proof -
  let ?xs = "to_le 8 (vd_addr d) @ to_le 4 (vd_len d) @ to_le 2 (vd_flags d)"
  have app: "store_bytes m (desc_addr q i) (?xs @ to_le 2 v) = store_bytes (store_bytes m (desc_addr q i) ?xs) (desc_addr q i + 14) (to_le 2 v)" for v :: u16
    using store_bytes_append [of ?xs "to_le 2 v" m "desc_addr q i"] by simp
  have b: "VDescriptor_bytes d = ?xs @ to_le 2 (vd_next d)" "VDescriptor_bytes (d\<lparr>vd_next := n\<rparr>) = ?xs @ to_le 2 n"
    by (simp_all add: VDescriptor_bytes_def)
  show ?thesis unfolding store16_def store_desc_def b app by (rule store_bytes_twice) simp
qed

section \<open>Submitting a request\<close>

text \<open>The next index of the ring of descriptors.\<close>

definition nxt :: "u16 \<Rightarrow> u16" where "nxt i = (i + 1) mod 128"

lemma nxt_less [simp]: "nxt i < 128"
  unfolding nxt_def by (rule word_mod_less_divisor) simp

lemma unat_nxt: "i < 128 \<Longrightarrow> unat (nxt i) = (unat i + 1) mod 128"
  unfolding nxt_def by (simp add: unat_mod word_less_nat_alt unat_add_no_wrap)

lemma nxt_distinct: "i < 128 \<Longrightarrow> nxt i \<noteq> i" "i < 128 \<Longrightarrow> nxt (nxt i) \<noteq> i"
proof -
  assume i: "i < 128"
  then have u: "unat i < 128" by (simp add: word_less_nat_alt)
  show "nxt i \<noteq> i" using u unat_nxt [OF i] by (auto simp: mod_Suc split: if_splits)
  show "nxt (nxt i) \<noteq> i" using u unat_nxt [OF i] unat_nxt [of "nxt i"] by (auto simp: mod_Suc split: if_splits)
qed

lemma ring_next_eq: "i < 128 \<Longrightarrow> ring_next i = Some (nxt i)"
  by (simp add: ring_next_def uadd_def word_less_nat_alt nxt_def VIRTIO_RING_SIZE_def)

lemma fill_next_descriptor_eq:
  assumes "bd_idx bd < 128"
  shows "fill_next_descriptor d (bd, m) =
    Some (nxt (bd_idx bd), bd\<lparr>bd_idx := nxt (bd_idx bd)\<rparr>,
      store_desc m (bd_queue bd) (nxt (bd_idx bd))
        (if vd_flags d AND VIRTIO_DESC_F_NEXT \<noteq> 0 then d\<lparr>vd_next := nxt (nxt (bd_idx bd))\<rparr> else d))"
  using assms by (simp add: fill_next_descriptor_def ring_next_eq load_store_desc store_next Let_def)


text \<open>Writes to the request and to the available ring leave the descriptors alone, and the other way round.\<close>

lemma load_store_disjoint:
  assumes "disjoint_regions p N q K" "a + length bs \<le> N" "0 < length bs" "b + n \<le> K" "0 < n"
  shows "load_bytes (store_bytes m (loc p a) bs) (loc q b) n = load_bytes m (loc q b) n"
  unfolding loc_def
proof (rule load_store_bytes_disjoint)
  have "unat p + a < 2 ^ 64" "unat q + b < 2 ^ 64" using assms unfolding disjoint_regions_def by linarith+
  then have "unat (p + of_nat a) = unat p + a" "unat (q + of_nat b) = unat q + b" by (simp_all add: unat_add_of_nat)
  then show "disjoint_regions (p + of_nat a) (length bs) (q + of_nat b) n"
    using assms by (auto simp: disjoint_regions_def)
qed

lemma request_locs:
  "rq_blktype rq = loc rq 0" "rq_reserved rq = loc rq 4" "rq_sector rq = loc rq 8" "rq_data rq = loc rq 16"
  "rq_status rq = loc rq 24" "rq_watcher rq = loc rq 28"
  by (simp_all add: rq_sector_def rq_blktype_def rq_data_def rq_reserved_def rq_status_def rq_watcher_def loc_def)

lemma fill_request_stores:
  "fill_request rq buffer sector wr watcher m =
     store_bytes (store_bytes (store_bytes (store_bytes (store_bytes (store_bytes m (loc rq 8) (to_le 8 sector))
       (loc rq 0) (to_le 4 (if wr then VIRTIO_BLK_T_OUT else VIRTIO_BLK_T_IN)))
       (loc rq 16) (to_le 8 buffer)) (loc rq 4) (to_le 4 (0 :: u32))) (loc rq 24) [111]) (loc rq 28) (to_le 2 watcher)"
  by (simp add: fill_request_def Let_def store64_def store32_def store16_def request_locs store_bytes_single)

text \<open>The request that the device finds at \<open>rq\<close>.\<close>

definition request_at :: "mem \<Rightarrow> usize \<Rightarrow> usize \<Rightarrow> u64 \<Rightarrow> bool \<Rightarrow> u16 \<Rightarrow> bool" where
  "request_at m rq buffer sector wr watcher \<longleftrightarrow>
     load32 m (rq_blktype rq) = (if wr then VIRTIO_BLK_T_OUT else VIRTIO_BLK_T_IN) \<and> load32 m (rq_reserved rq) = 0
     \<and> load64 m (rq_sector rq) = sector \<and> load64 m (rq_data rq) = buffer \<and> m (rq_status rq) = 111
     \<and> load16 m (rq_watcher rq) = watcher"

lemma load_bytes_one: "load_bytes m a (Suc 0) = [m a]"
  by (simp add: load_bytes_def)

lemma request_at_bytes:
  "request_at m rq buffer sector wr watcher \<longleftrightarrow>
     le_word (load_bytes m (loc rq 0) 4) = (if wr then VIRTIO_BLK_T_OUT else VIRTIO_BLK_T_IN)
     \<and> (le_word (load_bytes m (loc rq 4) 4) :: u32) = 0 \<and> le_word (load_bytes m (loc rq 8) 8) = sector
     \<and> le_word (load_bytes m (loc rq 16) 8) = buffer \<and> load_bytes m (loc rq 24) (Suc 0) = [111]
     \<and> le_word (load_bytes m (loc rq 28) 2) = watcher"
  by (simp add: request_at_def load32_def load64_def load16_def request_locs load_bytes_one)

lemma request_at_fill:
  assumes w: "unat rq + 32 \<le> 2 ^ 64"
  shows "request_at (fill_request rq buffer sector wr watcher m) rq buffer sector wr watcher"
proof -
  have same: "load_bytes (store_bytes m' a bs) a n = bs" if "length bs = n" "n < 32" for m' a bs n
    using that load_store_bytes [of bs m' a] by simp
  show ?thesis
    unfolding request_at_bytes fill_request_stores
    by (simp add: load_store_apart [OF w] same)
qed

lemma request_at_store:
  assumes d: "disjoint_regions rq 32 q 5128" and b: "b + length bs \<le> 5128" "0 < length bs"
  shows "request_at (store_bytes m (loc q b) bs) rq buffer sector wr watcher = request_at m rq buffer sector wr watcher"
  unfolding request_at_bytes by (simp add: load_store_disjoint [OF disjoint_regions_sym [OF d] b])


lemma load_desc_fill:
  assumes d: "disjoint_regions rq 32 q 5128" and i: "i < 128"
  shows "load_desc (fill_request rq buffer sector wr watcher m) q i = load_desc m q i"
proof (rule load_desc_cong)
  have "16 * unat i + 16 \<le> 5128" using i by (simp add: word_less_nat_alt)
  then show "load_bytes (fill_request rq buffer sector wr watcher m) (desc_addr q i) 16 = load_bytes m (desc_addr q i) 16"
    unfolding desc_addr_off fill_request_stores by (simp add: load_store_disjoint [OF d])
qed

text \<open>The available ring.\<close>

lemma unat_ring_slot: "unat (ucast (i :: u16) mod VIRTIO_RING_SIZE) < 128"
proof -
  have "unat (ucast i mod VIRTIO_RING_SIZE) < unat VIRTIO_RING_SIZE" unfolding unat_mod by (rule mod_less_divisor) (simp add: VIRTIO_RING_SIZE_def)
  then show ?thesis by (simp add: VIRTIO_RING_SIZE_def)
qed

lemma avail_locs: "avail_idx q = loc q 2050" "avail_ring q k = loc q (2052 + 2 * unat k)"
  by (simp_all add: avail_idx_def avail_ring_def loc_def add.assoc)

lemma avail_push_stores:
  "avail_push q head m =
     store_bytes (store_bytes m (loc q (2052 + 2 * unat (ucast (load16 m (avail_idx q)) mod VIRTIO_RING_SIZE))) (to_le 2 head))
       (loc q 2050) (to_le 2 (load16 m (avail_idx q) + 1))"
  by (simp add: avail_push_def Let_def store16_def avail_locs)

lemma avail_push_facts:
  assumes q: "queue_ok q"
  shows "i < 128 \<Longrightarrow> load_desc (avail_push q head m) q i = load_desc m q i"
    and "load16 (avail_push q head m) (avail_idx q) = load16 m (avail_idx q) + 1"
    and "load16 (avail_push q head m) (avail_ring q (ucast (load16 m (avail_idx q)) mod VIRTIO_RING_SIZE)) = head"
    and "disjoint_regions rq 32 q 5128 \<Longrightarrow>
      request_at (avail_push q head m) rq buffer sector wr watcher = request_at m rq buffer sector wr watcher"
proof -
  let ?k = "2 * unat (ucast (load16 m (avail_idx q)) mod VIRTIO_RING_SIZE)"
  have k: "?k \<le> 254" using unat_ring_slot [of "load16 m (avail_idx q)"] by simp
  note apart = load_store_apart [OF q [unfolded queue_ok_def]]
  have same: "load_bytes (store_bytes m' a (to_le 2 v)) a 2 = to_le 2 v" for m' a and v :: u16
    using load_store_bytes [of "to_le 2 v" m' a] by simp
  show "load_desc (avail_push q head m) q i = load_desc m q i" if "i < 128"
  proof (rule load_desc_cong)
    have "16 * unat i + 16 \<le> 2048" using that by (simp add: word_less_nat_alt)
    then show "load_bytes (avail_push q head m) (desc_addr q i) 16 = load_bytes m (desc_addr q i) 16"
      unfolding desc_addr_off avail_push_stores using k by (simp add: apart)
  qed
  show "load16 (avail_push q head m) (avail_idx q) = load16 m (avail_idx q) + 1"
    unfolding avail_push_stores by (simp add: load16_def avail_locs same)
  show "load16 (avail_push q head m) (avail_ring q (ucast (load16 m (avail_idx q)) mod VIRTIO_RING_SIZE)) = head"
    unfolding avail_push_stores using k by (simp add: load16_def avail_locs apart same)
  show "request_at (avail_push q head m) rq buffer sector wr watcher = request_at m rq buffer sector wr watcher" if "disjoint_regions rq 32 q 5128"
    unfolding avail_push_stores using k by (simp add: request_at_store [OF that])
qed

lemma request_at_store_desc:
  assumes "disjoint_regions rq 32 q 5128" "i < 128"
  shows "request_at (store_desc m q i d) rq buffer sector wr watcher = request_at m rq buffer sector wr watcher"
  unfolding store_desc_def desc_addr_off using assms(2) by (intro request_at_store [OF assms(1)]) (simp_all add: word_less_nat_alt)

lemma avail_idx_store_desc:
  assumes "queue_ok q" "i < 128"
  shows "load16 (store_desc m q i d) (avail_idx q) = load16 m (avail_idx q)"
proof -
  have "16 * unat i + 16 \<le> 2048" using assms(2) by (simp add: word_less_nat_alt)
  then show ?thesis
    unfolding store_desc_def desc_addr_off load16_def avail_locs
    by (subst load_store_apart [OF assms(1) [unfolded queue_ok_def]]) simp_all
qed

lemma avail_idx_fill:
  "disjoint_regions rq 32 q 5128 \<Longrightarrow> load16 (fill_request rq buffer sector wr watcher m) (avail_idx q) = load16 m (avail_idx q)"
  unfolding fill_request_stores load16_def avail_locs by (simp add: load_store_disjoint)

lemma kmalloc_only_memory: "kmalloc sz s = Some (p, s') \<Longrightarrow> \<exists>m. s' = s\<lparr>memory := m\<rparr>"
  by (auto simp: kmalloc_def split: Option.bind_splits)

section \<open>A driver state\<close>

definition example_block :: block_st where
  "example_block = \<lparr>memory = store64 (\<lambda>_. 0) 0x1000 4096, HEAP_START = 0, HEAP_SIZE = 0, ALLOC_START = 0,
     KMEM_HEAD = 0x1000, KMEM_ALLOC = 1, KMEM_PAGE_TABLE = 0,
     PROCESS_LIST = Some [], PROCESS_LIST_MUTEX = \<lparr>mstate = 0\<rparr>, NEXT_PID = 1,
     IN_BUFFER = None, OUT_BUFFER = None, IN_LOCK = \<lparr>mstate = 0\<rparr>, OUT_LOCK = \<lparr>mstate = 0\<rparr>, CONSOLE_QUEUE = None,
     MMIO = [], VIRTIO_DEVICES = replicate 8 None,
     BLOCK_DEVICES = [None, None, None, None, None, None, None,
        Some \<lparr>bd_queue = 0x80000000, bd_dev = 0x10008000, bd_idx = 127, bd_ack_used_idx = 0, bd_read_only = False\<rparr>]\<rparr>"

lemma example_block_chunks: "kmem_chunks example_block [(4096, False)]"
proof -
  have "take_bit 63 (4096 :: usize) = 4096" by (rule take_bit_63_small) simp
  then show ?thesis
    by (simp add: kmem_chunks_def example_block_def heap_len_def alist_at_def al_get_size_take al_taken_bit bit_simps)
qed

lemma example_block_malloc: "\<exists>s'. kmalloc REQUEST_SIZE example_block = Some (0x1008, s')"
proof -
  have b: "unat REQUEST_SIZE + 15 < 2 ^ 64" by (simp add: REQUEST_SIZE_def)
  have f: "first_fit (chunk_need (unat REQUEST_SIZE)) [(4096, False)] = Some (0, [(40, True), (4056, False)])"
    by (simp add: chunk_need_def REQUEST_SIZE_def)
  have h: "KMEM_HEAD example_block + of_nat (0 + 8) = 0x1008" by (simp add: example_block_def)
  show ?thesis by (rule kmalloc_some [OF example_block_chunks b f]) (auto simp only: h)
qed

section \<open>Properties\<close>

text \<open>
  C27: submission of a block request. With a free request structure from the heap that is disjoint from the
  queue, \<^verbatim>\<open>block_op\<close> returns \<open>Ok(size)\<close>, and what the device finds when it follows the available ring is
  exactly the request: the new ring entry is the head of a chain of three linked descriptors, the header (16 bytes
  at the request), the data buffer (writable by the device for a read, not for a write) and the status
  byte; the header holds type and sector, the status the mark 111, and the watcher is
  recorded. The available index grows by one, and the notification of the device is the last effect.
\<close>
theorem block_op_submits:
  assumes "1 \<le> dev" and "unat (dev - 1) < length (BLOCK_DEVICES s)" and bd: "BLOCK_DEVICES s ! unat (dev - 1) = Some bd"
    and idx: "bd_idx bd < 128" and q: "queue_ok (bd_queue bd)" and ok: "\<not> (bd_read_only bd \<and> wr)" "sz mod 512 = 0"
    and km: "kmalloc REQUEST_SIZE s = Some (rq, s1)" and d: "disjoint_regions rq 32 (bd_queue bd) 5128"
  shows "\<exists>s'. block_op dev buffer sz offset wr watcher s = Some (Inr sz, s') \<and>
    (let m = memory s'; q = bd_queue bd; i = load16 (memory s1) (avail_idx q);
         h = load16 m (avail_ring q (ucast i mod VIRTIO_RING_SIZE)) in
       h = nxt (bd_idx bd) \<and> load16 m (avail_idx q) = i + 1
       \<and> load_desc m q h = \<lparr>vd_addr = rq, vd_len = 16, vd_flags = VIRTIO_DESC_F_NEXT, vd_next = nxt h\<rparr>
       \<and> load_desc m q (nxt h) = \<lparr>vd_addr = buffer, vd_len = sz,
            vd_flags = (if wr then VIRTIO_DESC_F_NEXT else VIRTIO_DESC_F_NEXT OR VIRTIO_DESC_F_WRITE), vd_next = nxt (nxt h)\<rparr>
       \<and> load_desc m q (nxt (nxt h)) = \<lparr>vd_addr = rq + 24, vd_len = 1, vd_flags = VIRTIO_DESC_F_WRITE, vd_next = 0\<rparr>
       \<and> request_at m rq buffer (offset div 512) wr watcher
       \<and> MMIO s' = MMIO s @ [(reg (bd_dev bd) QueueNotify, 0)]
       \<and> BLOCK_DEVICES s' ! unat (dev - 1) = Some (bd\<lparr>bd_idx := nxt (nxt h)\<rparr>))"
proof -
  let ?q = "bd_queue bd" and ?h = "nxt (bd_idx bd)"
  obtain m0 where s1: "s1 = s\<lparr>memory := m0\<rparr>" using kmalloc_only_memory [OF km] by blast
  define d1 where "d1 = \<lparr>vd_addr = rq, vd_len = 16, vd_flags = VIRTIO_DESC_F_NEXT, vd_next = nxt ?h\<rparr>"
  define d2 where "d2 = \<lparr>vd_addr = buffer, vd_len = sz,
    vd_flags = VIRTIO_DESC_F_NEXT OR (if \<not> wr then VIRTIO_DESC_F_WRITE else 0), vd_next = nxt (nxt ?h)\<rparr>"
  define d3 where "d3 = \<lparr>vd_addr = rq + 24, vd_len = 1, vd_flags = VIRTIO_DESC_F_WRITE, vd_next = 0\<rparr>"
  define m3 where "m3 = store_desc (store_desc (fill_request rq buffer (offset div 512) wr watcher (store_desc m0 ?q ?h d1)) ?q (nxt ?h) d2) ?q (nxt (nxt ?h)) d3"
  have us: "usub dev 1 = Some (dev - 1)" using assms(1) by (simp add: usub_def)
  let ?s' = "reg_write (bd_dev bd) QueueNotify 0 (s\<lparr>memory := avail_push ?q ?h m3,
    BLOCK_DEVICES := (BLOCK_DEVICES s)[unat (dev - 1) := Some (bd\<lparr>bd_idx := nxt (nxt ?h)\<rparr>)]\<rparr>)"
  have run: "block_op dev buffer sz offset wr watcher s = Some (Inr sz, ?s')"
    using us assms(2) bd ok km idx unfolding block_op_def s1
    by (simp add: fill_next_descriptor_eq m3_def d1_def d2_def d3_def Let_def VIRTIO_DESC_F_NEXT_def VIRTIO_DESC_F_WRITE_def rq_status_def)
  have ne: "nxt ?h \<noteq> ?h" "nxt (nxt ?h) \<noteq> nxt ?h" "nxt (nxt ?h) \<noteq> ?h" using nxt_distinct by simp_all
  note descs = avail_push_facts(1) [OF q] load_store_desc load_store_desc_other [OF q] load_desc_fill [OF d]
  have "load_desc (avail_push ?q ?h m3) ?q ?h = d1" "load_desc (avail_push ?q ?h m3) ?q (nxt ?h) = d2"
    "load_desc (avail_push ?q ?h m3) ?q (nxt (nxt ?h)) = d3"
    using ne by (simp_all add: m3_def descs)
  moreover have i: "load16 m3 (avail_idx ?q) = load16 m0 (avail_idx ?q)"
    by (simp add: m3_def avail_idx_store_desc [OF q] avail_idx_fill [OF d])
  moreover have "request_at (avail_push ?q ?h m3) rq buffer (offset div 512) wr watcher"
    using d by (simp add: avail_push_facts(4) [OF q d] m3_def request_at_store_desc [OF d] request_at_fill disjoint_regions_def)
  ultimately show ?thesis
    using run assms(2) avail_push_facts(2,3) [OF q, of ?h m3]
    by (intro exI [of _ ?s']) (simp add: Let_def reg_write_def s1 d1_def d2_def d3_def)
qed

theorem block_op_submits_witness:
  "\<exists>rq s1 s'. kmalloc REQUEST_SIZE example_block = Some (rq, s1)
     \<and> block_op 8 0x2000 1024 4096 False 3 example_block = Some (Inr 1024, s')
     \<and> request_at (memory s') rq 0x2000 8 False 3 \<and> MMIO s' = [(0x10008050, 0)]"
proof -
  obtain s1 where k: "kmalloc REQUEST_SIZE example_block = Some (0x1008, s1)" using example_block_malloc by blast
  show ?thesis
    using block_op_submits [of 8 example_block "\<lparr>bd_queue = 0x80000000, bd_dev = 0x10008000, bd_idx = 127, bd_ack_used_idx = 0, bd_read_only = False\<rparr>"
        False 1024 "0x1008" s1 "0x2000" 4096 3] k
    by (auto simp: example_block_def queue_ok_def disjoint_regions_def Let_def reg_def scale32_def scaled_def)
qed

end
