(* ===== verification/Input.thy ===== *)
theory Input
  imports Block
begin

text \<open>
  \<^verbatim>\<open>input.rs\<close>: the driver of keyboards and tablets. The driver offers the device buffers for events; the
  interrupt handler takes the filled ones out of the used ring, offers them again, and appends
  the events to the queue of key events or to the one of absolute positions.
\<close>

section \<open>Data\<close>

definition EVENT_BUFFER_ELEMENTS :: usize where "EVENT_BUFFER_ELEMENTS = 64"

datatype EventType = Syn | Key | Rel | Abs | Msc | Sw | Led | Snd | Rep | Ff | Pwr | FfStatus | Max

fun EventType_val :: "EventType \<Rightarrow> u16" where
  "EventType_val Syn = 0x00"
| "EventType_val Key = 0x01"
| "EventType_val Rel = 0x02"
| "EventType_val Abs = 0x03"
| "EventType_val Msc = 0x04"
| "EventType_val Sw = 0x05"
| "EventType_val Led = 0x11"
| "EventType_val Snd = 0x12"
| "EventType_val Rep = 0x14"
| "EventType_val Ff = 0x15"
| "EventType_val Pwr = 0x16"
| "EventType_val FfStatus = 0x17"
| "EventType_val Max = 0x1f"

text \<open>A value of no variant is undefined behaviour in Rust: \<open>None\<close>.\<close>

definition EventType_of :: "u16 \<Rightarrow> EventType option" where
  "EventType_of v = find (\<lambda>t. EventType_val t = v) [Syn, Key, Rel, Abs, Msc, Sw, Led, Snd, Rep, Ff, Pwr, FfStatus, Max]"

record Event =
  event_type :: EventType
  ev_code :: u16
  ev_value :: u32

definition EVENT_SIZE :: usize where "EVENT_SIZE = 8"

text \<open>A \<^verbatim>\<open>repr(C)\<close> structure in memory.\<close>

definition load_event :: "mem \<Rightarrow> usize \<Rightarrow> Event option" where
  "load_event m a = do {
     t \<leftarrow> EventType_of (load16 m a);
     Some \<lparr>event_type = t, ev_code = load16 m (a + 2), ev_value = load32 m (a + 4)\<rparr>
   }"

record InputDevice =
  in_event_queue :: usize
  in_status_queue :: usize
  in_event_idx :: u16
  in_event_ack :: u16
  in_event_buffer :: usize
  in_status_ack :: u16

record input_st = block_st +
  INPUT_DEVICES :: "InputDevice option list"
  ABS_EVENTS :: "Event list option"
  KEY_EVENTS :: "Event list option"

section \<open>Operations\<close>

definition repopulate_event :: "usize \<Rightarrow> InputDevice \<times> mem \<Rightarrow> (InputDevice \<times> mem) option" where
  "repopulate_event buffer = (\<lambda>(dev, m). do {
     let desc = \<lparr>vd_addr = in_event_buffer dev + EVENT_SIZE * buffer, vd_len = ucast EVENT_SIZE, vd_flags = VIRTIO_DESC_F_WRITE, vd_next = 0\<rparr>;
     let head = in_event_idx dev;
     assert_that (unat head < 128);
     let m = store_desc m (in_event_queue dev) head desc;
     n \<leftarrow> ring_next (in_event_idx dev);
     Some (dev\<lparr>in_event_idx := n\<rparr>, avail_push (in_event_queue dev) head m)
   })"

definition setup_input_device :: "device_regs \<Rightarrow> usize \<Rightarrow> 'a input_st_scheme \<Rightarrow> (bool \<times> 'a input_st_scheme) option" where
  "setup_input_device M ptr s = do {
     idx \<leftarrow> device_index ptr;
     let (good, _, s) = negotiate M (\<lambda>f. f AND NOT (push_bit VIRTIO_F_RING_EVENT_IDX 1)) ptr s;
     if \<not> good then Some (False, s)
     else do {
       (event_queue_ptr, s) \<leftarrow> install_queue ptr 0 s;
       (status_queue_ptr, s) \<leftarrow> install_queue ptr 1 s;
       let s = device_live ptr s;
       (buf, s) \<leftarrow> kmalloc (EVENT_SIZE * EVENT_BUFFER_ELEMENTS) s;
       let dev = \<lparr>in_event_queue = event_queue_ptr, in_status_queue = status_queue_ptr, in_event_idx = 0, in_event_ack = 0,
                  in_event_buffer = buf, in_status_ack = 0\<rparr>;
       (dev, m) \<leftarrow> for_each (repopulate_event \<circ> of_nat) [0..<unat EVENT_BUFFER_ELEMENTS] (dev, memory s);
       devs \<leftarrow> set_slot idx dev (INPUT_DEVICES s);
       Some (True, s\<lparr>memory := m, INPUT_DEVICES := devs, ABS_EVENTS := Some [], KEY_EVENTS := Some []\<rparr>)
     }
   }"

text \<open>Append an event to its queue; the queues exist once a device has been set up.\<close>

definition push_event :: "Event \<Rightarrow> 'a input_st_scheme \<Rightarrow> 'a input_st_scheme option" where
  "push_event ev s =
     (case event_type ev of
        Abs \<Rightarrow> do { q \<leftarrow> ABS_EVENTS s; Some (s\<lparr>ABS_EVENTS := Some (q @ [ev])\<rparr>) }
      | Key \<Rightarrow> do { q \<leftarrow> KEY_EVENTS s; Some (s\<lparr>KEY_EVENTS := Some (q @ [ev])\<rparr>) }
      | _ \<Rightarrow> Some s)"

text \<open>One entry of the used ring. The event is read after its buffer has been offered again.\<close>

definition take_event :: "InputDevice \<Rightarrow> 'a input_st_scheme \<Rightarrow> (InputDevice \<times> 'a input_st_scheme) option" where
  "take_event dev s = do {
     let elem_id = load32 (memory s) (used_id (in_event_queue dev) (ucast (in_event_ack dev) mod VIRTIO_RING_SIZE));
     assert_that (unat elem_id < 128);
     let addr = vd_addr (load_desc (memory s) (in_event_queue dev) (ucast elem_id));
     assert_that (addr \<noteq> null_mut);
     (dev, m) \<leftarrow> repopulate_event (ucast elem_id) (dev, memory s);
     ev \<leftarrow> load_event m addr;
     s \<leftarrow> push_event ev (s\<lparr>memory := m\<rparr>);
     Some (dev\<lparr>in_event_ack := in_event_ack dev + 1\<rparr>, s)
   }"

partial_function (option) event_loop :: "InputDevice \<Rightarrow> 'a input_st_scheme \<Rightarrow> (InputDevice \<times> 'a input_st_scheme) option" where
  "event_loop dev s =
     (if in_event_ack dev \<noteq> load16 (memory s) (used_idx (in_event_queue dev)) then do {
        (dev, s) \<leftarrow> take_event dev s;
        event_loop dev s
      } else Some (dev, s))"

text \<open>The status queue is only acknowledged: its entries are printed.\<close>

partial_function (option) status_loop :: "mem \<Rightarrow> InputDevice \<Rightarrow> InputDevice option" where
  "status_loop m dev =
     (if in_status_ack dev \<noteq> load16 m (used_idx (in_status_queue dev)) then do {
        let elem_id = load32 m (used_id (in_status_queue dev) (ucast (in_status_ack dev) mod VIRTIO_RING_SIZE));
        assert_that (unat elem_id < 128);
        let addr = vd_addr (load_desc m (in_status_queue dev) (ucast elem_id));
        assert_that (addr \<noteq> null_mut);
        _ \<leftarrow> load_event m addr;
        status_loop m (dev\<lparr>in_status_ack := in_status_ack dev + 1\<rparr>)
      } else Some dev)"

definition input_pending :: "InputDevice \<Rightarrow> 'a input_st_scheme \<Rightarrow> (InputDevice \<times> 'a input_st_scheme) option" where
  "input_pending dev s = do {
     (dev, s) \<leftarrow> event_loop dev s;
     dev \<leftarrow> status_loop (memory s) dev;
     Some (dev, s)
   }"

definition input_handle_interrupt :: "nat \<Rightarrow> 'a input_st_scheme \<Rightarrow> 'a input_st_scheme option" where
  "input_handle_interrupt idx s = do {
     assert_that (idx < length (INPUT_DEVICES s));
     case INPUT_DEVICES s ! idx of
       Some bdev \<Rightarrow> do {
         (bdev, s) \<leftarrow> input_pending bdev s;
         Some (s\<lparr>INPUT_DEVICES := (INPUT_DEVICES s)[idx := Some bdev]\<rparr>)
       }
     | None \<Rightarrow> Some s
   }"


section \<open>Offering a buffer\<close>

definition event_desc :: "InputDevice \<Rightarrow> usize \<Rightarrow> VDescriptor" where
  "event_desc dev b = \<lparr>vd_addr = in_event_buffer dev + 8 * b, vd_len = 8, vd_flags = VIRTIO_DESC_F_WRITE, vd_next = 0\<rparr>"

definition offer :: "InputDevice \<Rightarrow> usize \<Rightarrow> mem \<Rightarrow> mem" where
  "offer dev b m = avail_push (in_event_queue dev) (in_event_idx dev)
     (store_desc m (in_event_queue dev) (in_event_idx dev) (event_desc dev b))"

lemma repopulate_event_eq:
  "in_event_idx dev < 128 \<Longrightarrow>
     repopulate_event b (dev, m) = Some (dev\<lparr>in_event_idx := nxt (in_event_idx dev)\<rparr>, offer dev b m)"
  by (simp add: repopulate_event_def ring_next_eq offer_def event_desc_def EVENT_SIZE_def word_less_nat_alt Let_def)

lemma offer_stores:
  "offer dev b m = store_bytes (store_bytes (store_bytes m (loc (in_event_queue dev) (16 * unat (in_event_idx dev))) (VDescriptor_bytes (event_desc dev b)))
      (loc (in_event_queue dev) (2052 + 2 * unat (ucast (load16 (store_desc m (in_event_queue dev) (in_event_idx dev) (event_desc dev b))
          (avail_idx (in_event_queue dev))) mod VIRTIO_RING_SIZE))) (to_le 2 (in_event_idx dev)))
      (loc (in_event_queue dev) 2050)
      (to_le 2 (load16 (store_desc m (in_event_queue dev) (in_event_idx dev) (event_desc dev b)) (avail_idx (in_event_queue dev)) + 1))"
  unfolding offer_def avail_push_stores by (simp add: store_desc_def desc_addr_off)

text \<open>The used ring and everything outside the queue stay as they are.\<close>

lemma offer_keeps:
  assumes i: "in_event_idx dev < 128"
  shows "queue_ok (in_event_queue dev) \<Longrightarrow> 2312 \<le> k \<Longrightarrow> k + n \<le> 5128 \<Longrightarrow> 0 < n \<Longrightarrow>
      load_bytes (offer dev b m) (loc (in_event_queue dev) k) n = load_bytes m (loc (in_event_queue dev) k) n"
    and "disjoint_regions a N (in_event_queue dev) 5128 \<Longrightarrow> k + n \<le> N \<Longrightarrow> 0 < n \<Longrightarrow>
      load_bytes (offer dev b m) (loc a k) n = load_bytes m (loc a k) n"
proof -
  have u: "16 * unat (in_event_idx dev) \<le> 2032" using i by (simp add: word_less_nat_alt)
  note slot = unat_ring_slot [of "load16 (store_desc m (in_event_queue dev) (in_event_idx dev) (event_desc dev b)) (avail_idx (in_event_queue dev))"]
  show "load_bytes (offer dev b m) (loc (in_event_queue dev) k) n = load_bytes m (loc (in_event_queue dev) k) n"
    if "queue_ok (in_event_queue dev)" "2312 \<le> k" "k + n \<le> 5128" "0 < n"
    unfolding offer_stores using that u slot by (simp add: load_store_apart [OF that(1) [unfolded queue_ok_def]])
  show "load_bytes (offer dev b m) (loc a k) n = load_bytes m (loc a k) n"
    if "disjoint_regions a N (in_event_queue dev) 5128" "k + n \<le> N" "0 < n"
    unfolding offer_stores using that u slot by (simp add: load_store_disjoint [OF disjoint_regions_sym [OF that(1)]])
qed

lemma offer_desc:
  assumes "queue_ok (in_event_queue dev)" "in_event_idx dev < 128" "i < 128"
  shows "load_desc (offer dev b m) (in_event_queue dev) i =
    (if i = in_event_idx dev then event_desc dev b else load_desc m (in_event_queue dev) i)"
  using assms by (simp add: offer_def avail_push_facts(1) load_store_desc load_store_desc_other)

lemma used_locs: "used_idx q = loc q 4098" "used_id q k = loc q (4100 + 8 * unat k)"
  by (simp_all add: used_idx_def used_id_def loc_def add.assoc)

lemma offer_used:
  assumes "queue_ok (in_event_queue dev)" "in_event_idx dev < 128"
  shows "load16 (offer dev b m) (used_idx (in_event_queue dev)) = load16 m (used_idx (in_event_queue dev))"
    and "load32 (offer dev b m) (used_id (in_event_queue dev) (ucast (i :: u16) mod VIRTIO_RING_SIZE))
       = load32 m (used_id (in_event_queue dev) (ucast i mod VIRTIO_RING_SIZE))"
  using unat_ring_slot [of i] unfolding load16_def load32_def used_locs
  by (simp_all add: offer_keeps(1) [OF assms(2,1)])

lemma offer_event:
  assumes "in_event_idx dev < 128" "disjoint_regions a 8 (in_event_queue dev) 5128"
  shows "load_event (offer dev b m) a = load_event m a"
proof -
  note k = offer_keeps(2) [OF assms, of _ _ b m]
  show ?thesis using k [of 0 2] k [of 2 2] k [of 4 4] by (simp add: load_event_def load16_def load32_def loc_def)
qed

section \<open>Delivering events\<close>

text \<open>The next \<open>n\<close> entries of the used ring, and the descriptors that the next \<open>n\<close> buffers take.\<close>

fun used_entries :: "mem \<Rightarrow> usize \<Rightarrow> u16 \<Rightarrow> nat \<Rightarrow> u32 list" where
  "used_entries m q ack 0 = []"
| "used_entries m q ack (Suc n) = load32 m (used_id q (ucast ack mod VIRTIO_RING_SIZE)) # used_entries m q (ack + 1) n"

fun next_slots :: "u16 \<Rightarrow> nat \<Rightarrow> u16 list" where
  "next_slots i 0 = []"
| "next_slots i (Suc n) = i # next_slots (nxt i) n"

definition event_ready :: "mem \<Rightarrow> usize \<Rightarrow> u32 \<Rightarrow> Event \<Rightarrow> bool" where
  "event_ready m q i ev \<longleftrightarrow>
     unat i < 128 \<and> vd_addr (load_desc m q (ucast i)) \<noteq> null_mut
     \<and> disjoint_regions (vd_addr (load_desc m q (ucast i))) 8 q 5128
     \<and> load_event m (vd_addr (load_desc m q (ucast i))) = Some ev"

lemma used_entries_offer:
  "queue_ok (in_event_queue dev) \<Longrightarrow> in_event_idx dev < 128 \<Longrightarrow>
     used_entries (offer dev b m) (in_event_queue dev) ack n = used_entries m (in_event_queue dev) ack n"
  by (induction n arbitrary: ack) (simp_all add: offer_used)

lemma ucast_small: "unat (i :: u32) < 128 \<Longrightarrow> (ucast i :: u16) < 128"
  by (simp add: word_less_nat_alt unsigned_ucast_eq take_bit_nat_eq_self)

lemma event_ready_offer:
  assumes "queue_ok (in_event_queue dev)" "in_event_idx dev < 128" "ucast i \<noteq> in_event_idx dev" "event_ready m (in_event_queue dev) i ev"
  shows "event_ready (offer dev b m) (in_event_queue dev) i ev"
  using assms by (simp add: event_ready_def offer_desc ucast_small offer_event)

definition of_type :: "EventType \<Rightarrow> Event list \<Rightarrow> Event list" where
  "of_type t = filter (\<lambda>ev. event_type ev = t)"

lemma push_event_eq:
  assumes "ABS_EVENTS s = Some as" "KEY_EVENTS s = Some ks"
  shows "push_event ev s = Some (s\<lparr>ABS_EVENTS := Some (as @ of_type Abs [ev]), KEY_EVENTS := Some (ks @ of_type Key [ev])\<rparr>)"
  using assms by (cases "event_type ev") (simp_all add: push_event_def of_type_def)

lemma take_event_eq:
  assumes "queue_ok (in_event_queue dev)" and i: "in_event_idx dev < 128" and ev: "ABS_EVENTS s = Some as" "KEY_EVENTS s = Some ks"
    and e: "load32 (memory s) (used_id (in_event_queue dev) (ucast (in_event_ack dev) mod VIRTIO_RING_SIZE)) = e"
    and r: "event_ready (memory s) (in_event_queue dev) e ev"
  shows "take_event dev s = Some (dev\<lparr>in_event_idx := nxt (in_event_idx dev), in_event_ack := in_event_ack dev + 1\<rparr>,
     s\<lparr>memory := offer dev (ucast e) (memory s), ABS_EVENTS := Some (as @ of_type Abs [ev]), KEY_EVENTS := Some (ks @ of_type Key [ev])\<rparr>)"
proof -
  note p = push_event_eq [of "s\<lparr>memory := offer dev (ucast e) (memory s)\<rparr>" as ks ev]
  show ?thesis
    using assms p by (simp add: take_event_def event_ready_def repopulate_event_eq [OF i] offer_event)
qed

section \<open>The buffers that are offered again\<close>

text \<open>Positions in the rings.\<close>

lemma unat_u16_add_mod: "unat ((i :: u16) + of_nat k) mod 128 = (unat i + k) mod 128"
proof -
  have "unat (i + of_nat k) = (unat i + k) mod 65536" by (simp add: unat_word_ariths unsigned_of_nat take_bit_eq_mod mod_simps)
  then show ?thesis by (simp add: mod_mod_cancel)
qed

lemma ring_slot_unat: "unat (ucast (i :: u16) mod VIRTIO_RING_SIZE) = unat i mod 128"
proof -
  have "unat (ucast i :: usize) = unat i" using unsigned_less [of i, where 'a = nat] by (simp add: unsigned_ucast_eq take_bit_nat_eq_self)
  then show ?thesis by (simp add: unat_mod VIRTIO_RING_SIZE_def)
qed

lemma unat_nxt_power: "i < 128 \<Longrightarrow> unat ((nxt ^^ k) i) = (unat i + k) mod 128 \<and> (nxt ^^ k) i < 128"
  by (induction k) (simp_all add: unat_nxt mod_simps word_less_nat_alt)

lemma set_next_slots: "set (next_slots i n) = (\<lambda>k. (nxt ^^ k) i) ` {..<n}"
proof (induction n arbitrary: i)
  case (Suc n)
  have "{..<Suc n} = insert 0 (Suc ` {..<n})" by (rule lessThan_Suc_eq_insert_0)
  then show ?case using Suc.IH [of "nxt i"] by (simp add: image_image funpow_swap1)
qed simp

text \<open>With 128 slots every descriptor is among the next ones.\<close>

lemma next_slots_all:
  assumes "i < 128" "x < 128" "128 \<le> n" shows "x \<in> set (next_slots i n)"
proof -
  let ?k = "(unat x + 128 - unat i) mod 128"
  have u: "unat i < 128" "unat x < 128" using assms by (simp_all add: word_less_nat_alt)
  have "unat ((nxt ^^ ?k) i) = (unat i + (unat x + 128 - unat i)) mod 128" using unat_nxt_power [OF assms(1), of ?k] by (simp add: mod_simps)
  also have "\<dots> = unat x" using u by simp
  finally have "x = (nxt ^^ ?k) i" by (simp add: word_unat_eq_iff)
  moreover have "?k < n" using assms(3) by (rule less_le_trans [rotated]) simp
  ultimately show ?thesis unfolding set_next_slots by blast
qed

lemma nxt_not_next: "i < 128 \<Longrightarrow> n < 128 \<Longrightarrow> i \<notin> set (next_slots (nxt i) n)"
proof
  assume i: "i < 128" "n < 128" and "i \<in> set (next_slots (nxt i) n)"
  then obtain k where k: "k < n" "i = (nxt ^^ Suc k) i" unfolding set_next_slots by (auto simp: funpow_swap1)
  then have "unat i = (unat i + Suc k) mod 128" using unat_nxt_power [OF i(1), of "Suc k"] by metis
  then show False using i k(1) by (auto simp: word_less_nat_alt mod_if split: if_splits)
qed

lemma length_used_entries [simp]: "length (used_entries m q ack n) = n"
  by (induction n arbitrary: ack) simp_all

lemma used_entries_nth: "k < n \<Longrightarrow> used_entries m q ack n ! k = load32 m (used_id q (ucast (ack + of_nat k) mod VIRTIO_RING_SIZE))"
  by (induction n arbitrary: ack k) (auto simp: less_Suc_eq_0_disj add_ac)

lemma offer_avail:
  assumes q: "queue_ok (in_event_queue dev)" and i: "in_event_idx dev < 128"
  shows "load16 (offer dev b m) (avail_idx (in_event_queue dev)) = load16 m (avail_idx (in_event_queue dev)) + 1"
    and "load16 (offer dev b m) (avail_ring (in_event_queue dev) (ucast (load16 m (avail_idx (in_event_queue dev))) mod VIRTIO_RING_SIZE)) = in_event_idx dev"
    and "unat j mod 128 \<noteq> unat (load16 m (avail_idx (in_event_queue dev))) mod 128 \<Longrightarrow>
      load16 (offer dev b m) (avail_ring (in_event_queue dev) (ucast (j :: u16) mod VIRTIO_RING_SIZE))
        = load16 m (avail_ring (in_event_queue dev) (ucast j mod VIRTIO_RING_SIZE))"
proof -
  let ?q = "in_event_queue dev" and ?m = "store_desc m (in_event_queue dev) (in_event_idx dev) (event_desc dev b)"
  have a: "load16 ?m (avail_idx ?q) = load16 m (avail_idx ?q)" by (rule avail_idx_store_desc [OF q i])
  show "load16 (offer dev b m) (avail_idx ?q) = load16 m (avail_idx ?q) + 1"
    "load16 (offer dev b m) (avail_ring ?q (ucast (load16 m (avail_idx ?q)) mod VIRTIO_RING_SIZE)) = in_event_idx dev"
    unfolding offer_def using avail_push_facts(2,3) [OF q, of "in_event_idx dev" ?m] by (simp_all add: a)
  assume ne: "unat j mod 128 \<noteq> unat (load16 m (avail_idx ?q)) mod 128"
  have "16 * unat (in_event_idx dev) \<le> 2032" using i by (simp add: word_less_nat_alt)
  moreover have "unat j mod 128 < 128" "unat (load16 m (avail_idx ?q)) mod 128 < 128" by simp_all
  ultimately show "load16 (offer dev b m) (avail_ring ?q (ucast j mod VIRTIO_RING_SIZE)) = load16 m (avail_ring ?q (ucast j mod VIRTIO_RING_SIZE))"
    using ne unfolding load16_def avail_locs offer_stores a [unfolded load16_def avail_locs] ring_slot_unat
    by (subst load_store_apart [OF q [unfolded queue_ok_def]]; (subst load_store_apart [OF q [unfolded queue_ok_def]])?; (subst load_store_apart [OF q [unfolded queue_ok_def]])?; auto)
qed

lemma mod_add_ne: "i < 127 \<Longrightarrow> (a :: nat) mod 128 \<noteq> Suc (a + i) mod 128"
proof
  assume i: "i < 127" and e: "a mod 128 = Suc (a + i) mod 128"
  then have "128 dvd Suc (a + i) - a" by (metis mod_eq_dvd_iff_nat le_add1 le_SucI)
  then show False using i dvd_imp_le [of 128 "Suc i"] by simp
qed

text \<open>The buffers of a list of used entries, offered one after the other.\<close>

fun offers :: "InputDevice \<Rightarrow> u32 list \<Rightarrow> mem \<Rightarrow> mem" where
  "offers dev [] m = m"
| "offers dev (e # es) m = offers (dev\<lparr>in_event_idx := nxt (in_event_idx dev)\<rparr>) es (offer dev (ucast e) m)"

lemma offers_ack: "offers (dev\<lparr>in_event_ack := a\<rparr>) es m = offers dev es m"
proof (induction es arbitrary: dev m)
  case (Cons e es)
  have "offer (dev\<lparr>in_event_ack := a\<rparr>) (ucast e) m = offer dev (ucast e) m" by (simp add: offer_def event_desc_def)
  moreover have "dev\<lparr>in_event_ack := a, in_event_idx := i\<rparr> = dev\<lparr>in_event_idx := i, in_event_ack := a\<rparr>" for i by simp
  ultimately show ?case using Cons.IH [of "dev\<lparr>in_event_idx := nxt (in_event_idx dev)\<rparr>"] by (cases dev) simp
qed simp

lemma in_event_buffers: "unat (e :: u32) < 128 \<Longrightarrow> in_region b 512 (b + 8 * ucast e) \<longleftrightarrow> unat e < 64"
proof -
  assume e: "unat e < 128"
  have "unat (ucast e :: usize) = unat e" using unsigned_less [of e, where 'a = nat] by (simp add: unsigned_ucast_eq take_bit_nat_eq_self)
  then have "unat (8 * ucast e :: usize) = 8 * unat e" using e by (simp add: unat_word_ariths)
  then show ?thesis by (simp add: in_region_def)
qed

definition ring_at :: "mem \<Rightarrow> usize \<Rightarrow> u16 \<Rightarrow> u16" where
  "ring_at m q i = load16 m (avail_ring q (ucast i mod VIRTIO_RING_SIZE))"

lemma offers_keep:
  assumes "queue_ok (in_event_queue dev)" "in_event_idx dev < 128"
  shows "i < 128 \<Longrightarrow> i \<notin> set (next_slots (in_event_idx dev) (length es)) \<Longrightarrow>
      load_desc (offers dev es m) (in_event_queue dev) i = load_desc m (in_event_queue dev) i"
    and "(\<forall>k < length es. unat j mod 128 \<noteq> (unat (load16 m (avail_idx (in_event_queue dev))) + k) mod 128) \<Longrightarrow>
      ring_at (offers dev es m) (in_event_queue dev) j = ring_at m (in_event_queue dev) j"
  using assms
proof (induction es arbitrary: dev m)
  case (Cons e es)
  { case (1 dev m)
    let ?dev = "dev\<lparr>in_event_idx := nxt (in_event_idx dev)\<rparr>"
    have "load_desc (offers ?dev es (offer dev (ucast e) m)) (in_event_queue ?dev) i = load_desc (offer dev (ucast e) m) (in_event_queue ?dev) i"
      by (rule Cons.IH(1)) (use 1 in simp_all)
    moreover have "load_desc (offer dev (ucast e) m) (in_event_queue dev) i = load_desc m (in_event_queue dev) i"
      using offer_desc [OF 1(3,4,1), of "ucast e" m] 1(2) by simp
    ultimately show ?case by simp
  next
    case (2 dev m)
    let ?dev = "dev\<lparr>in_event_idx := nxt (in_event_idx dev)\<rparr>"
    have u: "unat (load16 m (avail_idx (in_event_queue dev)) + 1) mod 128 = Suc (unat (load16 m (avail_idx (in_event_queue dev)))) mod 128"
      using unat_u16_add_mod [of "load16 m (avail_idx (in_event_queue dev))" 1] by simp
    have "unat j mod 128 \<noteq> (unat (load16 (offer dev (ucast e) m) (avail_idx (in_event_queue dev))) + k) mod 128" if "k < length es" for k
    proof -
      have "(unat (load16 m (avail_idx (in_event_queue dev)) + 1) + k) mod 128 = (unat (load16 m (avail_idx (in_event_queue dev))) + Suc k) mod 128"
        by (metis u add_Suc_right add_Suc mod_add_left_eq)
      moreover have "unat j mod 128 \<noteq> (unat (load16 m (avail_idx (in_event_queue dev))) + Suc k) mod 128" using 2(1) that by (metis Suc_less_eq length_Cons)
      ultimately show ?thesis using offer_avail(1) [OF 2(2,3)] by simp
    qed
    moreover have "unat j mod 128 \<noteq> unat (load16 m (avail_idx (in_event_queue dev))) mod 128" using 2(1) by force
    ultimately show ?case using Cons.IH(2) [of "offer dev (ucast e) m" ?dev] offer_avail(3) [OF 2(2,3), of j m "ucast e"] 2 by (simp add: ring_at_def)
  }
qed simp_all

lemma offers_nth:
  assumes "queue_ok (in_event_queue dev)" "in_event_idx dev < 128" "length es \<le> 128" "k < length es"
  shows "load_desc (offers dev es m) (in_event_queue dev) ((nxt ^^ k) (in_event_idx dev)) = event_desc dev (ucast (es ! k))
    \<and> ring_at (offers dev es m) (in_event_queue dev) (load16 m (avail_idx (in_event_queue dev)) + of_nat k) = (nxt ^^ k) (in_event_idx dev)"
  using assms
proof (induction es arbitrary: dev m k)
  case (Cons e es)
  let ?dev = "dev\<lparr>in_event_idx := nxt (in_event_idx dev)\<rparr>" and ?m = "offer dev (ucast e) m" and ?q = "in_event_queue dev"
  have len: "length es < 128" using Cons.prems(3) by simp
  note av = offer_avail [OF Cons.prems(1,2)]
  have d: "event_desc ?dev = event_desc dev" by (simp add: event_desc_def fun_eq_iff)
  show ?case
  proof (cases k)
    case 0
    have "load_desc (offers ?dev es ?m) ?q (in_event_idx dev) = load_desc ?m ?q (in_event_idx dev)"
      using offers_keep(1) [of ?dev "in_event_idx dev" es ?m] nxt_not_next [OF Cons.prems(2) len] Cons.prems(1,2) by simp
    moreover have "ring_at (offers ?dev es ?m) ?q (load16 m (avail_idx ?q)) = ring_at ?m ?q (load16 m (avail_idx ?q))"
    proof -
      have "unat (load16 m (avail_idx ?q)) mod 128 \<noteq> (unat (load16 m (avail_idx ?q) + 1) + i) mod 128" if "i < length es" for i
      proof -
        have "(unat (load16 m (avail_idx ?q) + 1) + i) mod 128 = (unat (load16 m (avail_idx ?q)) + Suc i) mod 128"
          using unat_u16_add_mod [of "load16 m (avail_idx ?q)" 1] by (metis add.assoc mod_add_left_eq of_nat_1 plus_1_eq_Suc)
        then show ?thesis using that len by (simp add: mod_add_ne)
      qed
      then show ?thesis using offers_keep(2) [of ?dev es "load16 m (avail_idx ?q)" ?m] av(1) Cons.prems(1) by simp
    qed
    ultimately show ?thesis using 0 av(2) offer_desc [OF Cons.prems(1,2,2)] by (simp add: ring_at_def)
  next
    case (Suc j)
    then show ?thesis using Cons.IH [of ?dev j ?m] Cons.prems av(1) by (simp add: d funpow_swap1 add_ac)
  qed
qed simp


lemma event_loop_delivers:
  assumes "queue_ok (in_event_queue dev)" "in_event_idx dev < 128" "ABS_EVENTS s = Some as" "KEY_EVENTS s = Some ks"
    and "n < 65536" "load16 (memory s) (used_idx (in_event_queue dev)) = in_event_ack dev + of_nat n"
    and "list_all2 (event_ready (memory s) (in_event_queue dev)) (used_entries (memory s) (in_event_queue dev) (in_event_ack dev) n) evs"
    and "set (map ucast (used_entries (memory s) (in_event_queue dev) (in_event_ack dev) n)) \<inter> set (next_slots (in_event_idx dev) n) = {}"
  shows "\<exists>m. m = offers dev (used_entries (memory s) (in_event_queue dev) (in_event_ack dev) n) (memory s) \<and> event_loop dev s = Some (dev\<lparr>in_event_idx := (nxt ^^ n) (in_event_idx dev), in_event_ack := in_event_ack dev + of_nat n\<rparr>,
     s\<lparr>memory := m, ABS_EVENTS := Some (as @ of_type Abs evs), KEY_EVENTS := Some (ks @ of_type Key evs)\<rparr>)
     \<and> load16 m (avail_idx (in_event_queue dev)) = load16 (memory s) (avail_idx (in_event_queue dev)) + of_nat n
     \<and> (\<forall>a k. disjoint_regions a k (in_event_queue dev) 5128 \<longrightarrow> 0 < k \<longrightarrow> load_bytes m a k = load_bytes (memory s) a k)"
  using assms
proof (induction n arbitrary: dev s as ks evs)
  case 0
  then show ?case
    by (intro exI [of _ "memory s"]) (simp add: event_loop.simps of_type_def)
next
  case (Suc n)
  let ?q = "in_event_queue dev" and ?ack = "in_event_ack dev"
  let ?e = "load32 (memory s) (used_id ?q (ucast ?ack mod VIRTIO_RING_SIZE))"
  let ?dev = "dev\<lparr>in_event_idx := nxt (in_event_idx dev), in_event_ack := ?ack + 1\<rparr>"
  let ?m = "offer dev (ucast ?e) (memory s)"
  note q = Suc.prems(1) and i = Suc.prems(2)
  from Suc.prems(7) obtain ev evs' where evs: "evs = ev # evs'" and r: "event_ready (memory s) ?q ?e ev"
    and rs: "list_all2 (event_ready (memory s) ?q) (used_entries (memory s) ?q (?ack + 1) n) evs'"
    by (auto simp: list_all2_Cons1)
  let ?s = "s\<lparr>memory := ?m, ABS_EVENTS := Some (as @ of_type Abs [ev]), KEY_EVENTS := Some (ks @ of_type Key [ev])\<rparr>"
  have ne: "?ack \<noteq> load16 (memory s) (used_idx ?q)"
  proof
    assume "?ack = load16 (memory s) (used_idx ?q)"
    then have "(of_nat (Suc n) :: u16) = 0" using Suc.prems(6) by (metis add_cancel_left_right)
    then have "unat (of_nat (Suc n) :: u16) = 0" by (simp only: unat_0)
    then show False using Suc.prems(5) by (simp add: unsigned_of_nat take_bit_nat_eq_self del: of_nat_Suc)
  qed
  have step: "event_loop dev s = event_loop ?dev ?s"
    using ne take_event_eq [OF q i Suc.prems(3,4) refl r] by (subst event_loop.simps) simp
  have ids: "used_entries (memory ?s) ?q (?ack + 1) n = used_entries (memory s) ?q (?ack + 1) n"
    using used_entries_offer [OF q i] by simp
  have ready: "list_all2 (event_ready (memory ?s) ?q) (used_entries (memory s) ?q (?ack + 1) n) evs'"
  proof (rule list.rel_mono_strong [OF rs])
    fix e ev assume "e \<in> set (used_entries (memory s) ?q (?ack + 1) n)" "event_ready (memory s) ?q e ev"
    moreover then have "ucast e \<noteq> in_event_idx dev" using Suc.prems(8) by force
    ultimately show "event_ready (memory ?s) ?q e ev" using event_ready_offer [OF q i] by simp
  qed
  have ai: "load16 ?m (avail_idx ?q) = load16 (memory s) (avail_idx ?q) + 1"
    by (simp add: offer_def avail_push_facts(2) [OF q] avail_idx_store_desc [OF q i])
  have out: "load_bytes ?m a k = load_bytes (memory s) a k" if "disjoint_regions a k ?q 5128" "0 < k" for a k
    using offer_keeps(2) [OF i that(1), of 0 k "ucast ?e" "memory s"] that(2) by (simp add: loc_def)
  have "set (map ucast (used_entries (memory s) ?q (?ack + 1) n)) \<inter> set (next_slots (nxt (in_event_idx dev)) n) = {}"
    using Suc.prems(8) by auto
  moreover have "load16 (memory ?s) (used_idx ?q) = ?ack + 1 + of_nat n"
    using Suc.prems(6) offer_used(1) [OF q i, of "ucast ?e" "memory s"] by (simp add: add_ac)
  ultimately obtain m where m: "event_loop ?dev ?s = Some (?dev\<lparr>in_event_idx := (nxt ^^ n) (nxt (in_event_idx dev)), in_event_ack := ?ack + 1 + of_nat n\<rparr>,
       ?s\<lparr>memory := m, ABS_EVENTS := Some ((as @ of_type Abs [ev]) @ of_type Abs evs'), KEY_EVENTS := Some ((ks @ of_type Key [ev]) @ of_type Key evs')\<rparr>)"
    "load16 m (avail_idx ?q) = load16 ?m (avail_idx ?q) + of_nat n" "m = offers ?dev (used_entries (memory ?s) ?q (?ack + 1) n) (memory ?s)"
    "\<forall>a k. disjoint_regions a k ?q 5128 \<longrightarrow> 0 < k \<longrightarrow> load_bytes m a k = load_bytes ?m a k"
    using Suc.IH [of ?dev ?s "as @ of_type Abs [ev]" "ks @ of_type Key [ev]" evs'] ids ready Suc.prems(5) q by auto
  have fp: "(nxt ^^ n) (nxt (in_event_idx dev)) = nxt ((nxt ^^ n) (in_event_idx dev))"
    by (simp add: funpow_swap1)
  have of1: "m = offers dev (?e # used_entries (memory s) ?q (?ack + 1) n) (memory s)"
    using m(3) ids offers_ack [of "?ack + 1" "dev\<lparr>in_event_idx := nxt (in_event_idx dev)\<rparr>"] by simp
  show ?case
    using m ai out of1 by (intro exI [of _ m]) (simp add: step evs of_type_def fp add_ac)
qed


section \<open>Offering buffers in sequence\<close>

lemma for_each_snoc: "for_each f (xs @ [x]) s = Option.bind (for_each f xs s) (f x)"
proof (induction xs arbitrary: s)
  case Nil
  show ?case by (cases "f x s") simp_all
next
  case (Cons a xs)
  then show ?case by (cases "f a s") simp_all
qed

lemma nxt_of_nat: "k < 128 \<Longrightarrow> nxt (of_nat k) = of_nat (Suc k) mod 128"
  by (simp add: nxt_def add.commute)

lemma of_nat_mod_128: "k < 128 \<Longrightarrow> (of_nat k :: u16) mod 128 = of_nat k"
  by (rule mod_word_less) (simp add: word_less_nat_alt unsigned_of_nat take_bit_nat_eq_self)

lemma offers_in_sequence:
  assumes q: "queue_ok (in_event_queue dev)" and i: "in_event_idx dev = 0" and "length bs \<le> 128"
  shows "\<exists>m'. for_each repopulate_event bs (dev, m) = Some (dev\<lparr>in_event_idx := of_nat (length bs) mod 128\<rparr>, m')
     \<and> (\<forall>k < length bs. load_desc m' (in_event_queue dev) (of_nat k) = event_desc dev (bs ! k))
     \<and> (\<forall>j :: u16. load32 m' (used_id (in_event_queue dev) (ucast j mod VIRTIO_RING_SIZE)) = load32 m (used_id (in_event_queue dev) (ucast j mod VIRTIO_RING_SIZE)))
     \<and> (\<forall>a. disjoint_regions a 8 (in_event_queue dev) 5128 \<longrightarrow> load_event m' a = load_event m a)"
  using assms(3)
proof (induction bs rule: rev_induct)
  case Nil
  then show ?case using i by (intro exI [of _ m]) (cases dev, simp)
next
  case (snoc b bs)
  define n where "n = length bs"
  have n: "n < 128" "(of_nat n :: u16) mod 128 = of_nat n" "(of_nat n :: u16) < 128"
    using snoc.prems of_nat_mod_128 [of n] by (simp_all add: n_def word_less_nat_alt unsigned_of_nat take_bit_nat_eq_self)
  let ?dev = "dev\<lparr>in_event_idx := of_nat n\<rparr>"
  obtain m' where m': "for_each repopulate_event bs (dev, m) = Some (?dev, m')"
    "\<forall>k < n. load_desc m' (in_event_queue dev) (of_nat k) = event_desc dev (bs ! k)"
    "\<forall>j :: u16. load32 m' (used_id (in_event_queue dev) (ucast j mod VIRTIO_RING_SIZE)) = load32 m (used_id (in_event_queue dev) (ucast j mod VIRTIO_RING_SIZE))"
    "\<forall>a. disjoint_regions a 8 (in_event_queue dev) 5128 \<longrightarrow> load_event m' a = load_event m a"
    using snoc.IH snoc.prems n(2) by (auto simp: n_def)
  have d: "event_desc ?dev = event_desc dev" by (simp add: event_desc_def fun_eq_iff)
  have q': "queue_ok (in_event_queue ?dev)" "in_event_idx ?dev < 128" using q n by simp_all
  have ne: "(of_nat k :: u16) \<noteq> of_nat n \<and> (of_nat k :: u16) < 128" if "k < n" for k
    using that n(1) by (simp add: word_unat_eq_iff word_less_nat_alt unsigned_of_nat take_bit_nat_eq_self)
  have "load_desc (offer ?dev b m') (in_event_queue dev) (of_nat k) = event_desc dev ((bs @ [b]) ! k)" if "k < Suc n" for k
    using offer_desc [OF q', of "of_nat k" b m'] that m'(2) ne [of k] d n(3)
    by (cases "k = n") (auto simp: nth_append n_def less_Suc_eq)
  moreover have "for_each repopulate_event (bs @ [b]) (dev, m) = Some (dev\<lparr>in_event_idx := of_nat (Suc n) mod 128\<rparr>, offer ?dev b m')"
    using m'(1) repopulate_event_eq [OF q'(2), of b m'] nxt_of_nat [OF n(1)] by (simp add: for_each_snoc del: of_nat_Suc)
  ultimately show ?case
    using m'(3,4) offer_used(2) [OF q'] offer_event [OF q'(2)] by (intro exI [of _ "offer ?dev b m'"]) (simp add: n_def del: of_nat_Suc)
qed


section \<open>A device with one event\<close>

definition example_keyboard :: InputDevice where
  "example_keyboard = \<lparr>in_event_queue = 0x8000, in_status_queue = 0x10000, in_event_idx = 64, in_event_ack = 0, in_event_buffer = 0x2000, in_status_ack = 0\<rparr>"

text \<open>Descriptor 0 holds the address of the buffer, the used ring one entry for it, and the buffer a key press.\<close>

definition example_input :: input_st where
  "example_input = block_st.extend
     (example_block\<lparr>memory := (\<lambda>_. 0)(0x8001 := 0x20, 0x9002 := 1, 0x2000 := 1, 0x2002 := 30, 0x2004 := 1)\<rparr>)
     (input_st.fields [Some example_keyboard, None, None, None, None, None, None, None] (Some []) (Some []))"

lemma example_input_fields:
  "memory example_input = (\<lambda>_. 0)(0x8001 := 0x20, 0x9002 := 1, 0x2000 := 1, 0x2002 := 30, 0x2004 := 1)"
  "INPUT_DEVICES example_input = [Some example_keyboard, None, None, None, None, None, None, None]"
  "ABS_EVENTS example_input = Some []" "KEY_EVENTS example_input = Some []"
  by (simp_all add: example_input_def block_st.defs input_st.defs example_block_def)

lemma example_event_ready: "event_ready (memory example_input) 0x8000 0 \<lparr>event_type = Key, ev_code = 30, ev_value = 1\<rparr>"
  by (simp add: event_ready_def example_input_fields load_desc_def desc_addr_def load64_def load_bytes_def upt_rec
      load_event_def load16_def load32_def EventType_of_def disjoint_regions_def null_mut_def)

lemma example_avail: "load16 (memory example_input) (avail_idx 0x8000) = 0"
  "load32 (memory example_input) (used_id 0x8000 0) = 0"
  by (simp_all add: example_input_fields load16_def load32_def load_bytes_def upt_rec avail_idx_def used_id_def)

lemma example_used:
  "used_entries (memory example_input) 0x8000 0 1 = [0]" "load16 (memory example_input) (used_idx 0x8000) = 1"
  "load16 (memory example_input) (used_idx 0x10000) = 0"
  by (simp_all add: example_input_fields load32_def load16_def load_bytes_def upt_rec used_idx_def used_id_def)

section \<open>Properties\<close>

text \<open>
  C26: delivery of input events. Let the used ring have \<open>n\<close> new entries, each for a descriptor whose buffer
  holds an event, let none of these descriptors be among the next \<open>n\<close> that the driver fills, and let the status queue have no new entry. Then the
  interrupt handler terminates; it appends exactly the key events to the queue of key
  events and the absolute positions to the other queue, both in the order of the ring, acknowledges all
  entries, and changes no memory outside the event queue. For the \<open>k\<close>-th entry it offers the device a buffer: the next place of the available ring
  holds the next descriptor, and this descriptor lets the device write 8 bytes at the event buffer whose number is the number of the used
  descriptor. That place lies in the 64 event buffers exactly when the number is below 64.
\<close>
theorem input_events_delivered:
  assumes dev: "idx < length (INPUT_DEVICES s)" "INPUT_DEVICES s ! idx = Some dev"
    and q: "queue_ok (in_event_queue dev)" "in_event_idx dev < 128" and ev: "ABS_EVENTS s = Some as" "KEY_EVENTS s = Some ks"
    and n: "n < 65536" "load16 (memory s) (used_idx (in_event_queue dev)) = in_event_ack dev + of_nat n"
    and r: "list_all2 (event_ready (memory s) (in_event_queue dev)) (used_entries (memory s) (in_event_queue dev) (in_event_ack dev) n) evs"
    and fresh: "set (map ucast (used_entries (memory s) (in_event_queue dev) (in_event_ack dev) n)) \<inter> set (next_slots (in_event_idx dev) n) = {}"
    and st: "load16 (memory s) (used_idx (in_status_queue dev)) = in_status_ack dev"
      "disjoint_regions (used_idx (in_status_queue dev)) 2 (in_event_queue dev) 5128"
  shows "\<exists>s'. input_handle_interrupt idx s = Some s'
    \<and> KEY_EVENTS s' = Some (ks @ filter (\<lambda>ev. event_type ev = Key) evs)
    \<and> ABS_EVENTS s' = Some (as @ filter (\<lambda>ev. event_type ev = Abs) evs)
    \<and> INPUT_DEVICES s' ! idx = Some (dev\<lparr>in_event_idx := (nxt ^^ n) (in_event_idx dev), in_event_ack := load16 (memory s) (used_idx (in_event_queue dev))\<rparr>)
    \<and> load16 (memory s') (avail_idx (in_event_queue dev)) = load16 (memory s) (avail_idx (in_event_queue dev)) + of_nat n
    \<and> (\<forall>k < n. let e = load32 (memory s) (used_id (in_event_queue dev) (ucast (in_event_ack dev + of_nat k) mod VIRTIO_RING_SIZE));
           h = load16 (memory s') (avail_ring (in_event_queue dev) (ucast (load16 (memory s) (avail_idx (in_event_queue dev)) + of_nat k) mod VIRTIO_RING_SIZE))
         in h = (nxt ^^ k) (in_event_idx dev)
            \<and> load_desc (memory s') (in_event_queue dev) h
                = \<lparr>vd_addr = in_event_buffer dev + 8 * ucast e, vd_len = 8, vd_flags = VIRTIO_DESC_F_WRITE, vd_next = 0\<rparr>
            \<and> (in_region (in_event_buffer dev) 512 (in_event_buffer dev + 8 * ucast e) \<longleftrightarrow> unat e < 64))
    \<and> (\<forall>a k. disjoint_regions a k (in_event_queue dev) 5128 \<longrightarrow> 0 < k \<longrightarrow> load_bytes (memory s') a k = load_bytes (memory s) a k)"
proof -
  let ?q = "in_event_queue dev" and ?es = "used_entries (memory s) (in_event_queue dev) (in_event_ack dev) n"
  obtain m where m: "event_loop dev s = Some (dev\<lparr>in_event_idx := (nxt ^^ n) (in_event_idx dev), in_event_ack := in_event_ack dev + of_nat n\<rparr>,
     s\<lparr>memory := m, ABS_EVENTS := Some (as @ of_type Abs evs), KEY_EVENTS := Some (ks @ of_type Key evs)\<rparr>)"
    "load16 m (avail_idx (in_event_queue dev)) = load16 (memory s) (avail_idx (in_event_queue dev)) + of_nat n"
    "\<forall>a k. disjoint_regions a k (in_event_queue dev) 5128 \<longrightarrow> 0 < k \<longrightarrow> load_bytes m a k = load_bytes (memory s) a k"
    "m = offers dev ?es (memory s)"
    using event_loop_delivers [OF q ev n r fresh] by blast
  have ids: "unat (?es ! k) < 128" if "k < n" for k using list_all2_nthD [OF r, of k] that by (simp add: event_ready_def)
  have n128: "n \<le> 128"
  proof (rule ccontr)
    assume "\<not> n \<le> 128"
    then have "ucast (?es ! 0) \<in> set (next_slots (in_event_idx dev) n)" using next_slots_all [OF q(2) ucast_small [OF ids [of 0]]] by simp
    moreover have "?es ! 0 \<in> set ?es" using \<open>\<not> n \<le> 128\<close> by (intro nth_mem) simp
    ultimately show False using fresh by auto
  qed
  have off: "ring_at m ?q (load16 (memory s) (avail_idx ?q) + of_nat k) = (nxt ^^ k) (in_event_idx dev)"
    "load_desc m ?q ((nxt ^^ k) (in_event_idx dev)) = event_desc dev (ucast (?es ! k))"
    "in_region (in_event_buffer dev) 512 (in_event_buffer dev + 8 * ucast (?es ! k)) \<longleftrightarrow> unat (?es ! k) < 64" if "k < n" for k
    using offers_nth [OF q, of ?es k "memory s"] n128 that m(4) in_event_buffers [OF ids [OF that]] by simp_all
  have "load16 m (used_idx (in_status_queue dev)) = in_status_ack dev" using m(3) st by (simp add: load16_def)
  then have "input_pending dev s = Some (dev\<lparr>in_event_idx := (nxt ^^ n) (in_event_idx dev), in_event_ack := in_event_ack dev + of_nat n\<rparr>,
     s\<lparr>memory := m, ABS_EVENTS := Some (as @ of_type Abs evs), KEY_EVENTS := Some (ks @ of_type Key evs)\<rparr>)"
    using m(1) by (simp add: input_pending_def status_loop.simps)
  then show ?thesis using dev m(2,3) n(2) off
    by (simp add: input_handle_interrupt_def of_type_def Let_def used_entries_nth ring_at_def event_desc_def)
qed

theorem input_events_delivered_witness:
  "\<exists>s'. input_handle_interrupt 0 example_input = Some s' \<and> KEY_EVENTS s' = Some [\<lparr>event_type = Key, ev_code = 30, ev_value = 1\<rparr>]
     \<and> ABS_EVENTS s' = Some [] \<and> load16 (memory s') (avail_ring 0x8000 0) = 64
     \<and> load_desc (memory s') 0x8000 64 = \<lparr>vd_addr = 0x2000, vd_len = 8, vd_flags = VIRTIO_DESC_F_WRITE, vd_next = 0\<rparr>"
  using input_events_delivered [of 0 example_input example_keyboard "[]" "[]" 1 "[\<lparr>event_type = Key, ev_code = 30, ev_value = 1\<rparr>]"]
    example_event_ready example_used example_avail
  by (auto simp: example_input_fields example_keyboard_def queue_ok_def disjoint_regions_def used_idx_def null_mut_def Let_def)

text \<open>
  C40: the index of a descriptor is used as the index of an event buffer. Set-up offers the 64 buffers in descriptors 0 to
  63; the device fills them in this order, and each is offered again in descriptors 64 to 127. So the next
  entry of the used ring names descriptor 64, which holds buffer 0; the handler offers \<open>buffer 64\<close>, in descriptor 0:
  an address past the end of the 512 bytes of event buffers, where the device is going to write.
\<close>
theorem event_buffer_overrun:
  assumes q: "queue_ok (in_event_queue dev)" and i: "in_event_idx dev = 0"
    and e: "load32 (memory s) (used_id (in_event_queue dev) (ucast (in_event_ack dev) mod VIRTIO_RING_SIZE)) = 64"
    and b: "in_event_buffer dev \<noteq> null_mut" "disjoint_regions (in_event_buffer dev) 512 (in_event_queue dev) 5128"
    and ev: "load_event (memory s) (in_event_buffer dev) = Some ev" "ABS_EVENTS s = Some as" "KEY_EVENTS s = Some ks"
  shows "\<exists>dev1 m1 dev2 s2. for_each repopulate_event (map of_nat [0..<64] @ map of_nat [0..<64]) (dev, memory s) = Some (dev1, m1)
    \<and> vd_addr (load_desc m1 (in_event_queue dev) 64) = in_event_buffer dev
    \<and> take_event dev1 (s\<lparr>memory := m1\<rparr>) = Some (dev2, s2)
    \<and> vd_addr (load_desc (memory s2) (in_event_queue dev) 0) = in_event_buffer dev + 512
    \<and> \<not> in_region (in_event_buffer dev) 512 (vd_addr (load_desc (memory s2) (in_event_queue dev) 0))"
proof -
  let ?q = "in_event_queue dev" and ?bs = "map of_nat [0..<64] @ map of_nat [0..<64] :: usize list"
  obtain m1 where m1: "for_each repopulate_event ?bs (dev, memory s) = Some (dev\<lparr>in_event_idx := of_nat (length ?bs) mod 128\<rparr>, m1)"
    "\<forall>k < length ?bs. load_desc m1 ?q (of_nat k) = event_desc dev (?bs ! k)"
    "\<forall>j :: u16. load32 m1 (used_id ?q (ucast j mod VIRTIO_RING_SIZE)) = load32 (memory s) (used_id ?q (ucast j mod VIRTIO_RING_SIZE))"
    "\<forall>a. disjoint_regions a 8 ?q 5128 \<longrightarrow> load_event m1 a = load_event (memory s) a"
    using offers_in_sequence [OF q i, of ?bs "memory s"] by auto
  have dev: "dev\<lparr>in_event_idx := of_nat (length ?bs) mod 128\<rparr> = dev" using i by (cases dev) simp
  have d64: "vd_addr (load_desc m1 ?q 64) = in_event_buffer dev"
    using m1(2) [rule_format, of 64] by (simp add: nth_append event_desc_def)
  have b8: "disjoint_regions (in_event_buffer dev) 8 ?q 5128" using b(2) by (rule disjoint_regions_mono) simp_all
  have r: "event_ready m1 ?q 64 ev"
    using d64 b8 b(1) m1(4) ev(1) by (simp add: event_ready_def)
  let ?s = "s\<lparr>memory := m1\<rparr>"
  have e': "load32 (memory ?s) (used_id ?q (ucast (in_event_ack dev) mod VIRTIO_RING_SIZE)) = 64" using m1(3) e by simp
  have i': "in_event_idx dev < 128" using i by simp
  note t = take_event_eq [of dev ?s as ks 64 ev, OF q i' _ _ e']
  have "load_desc (offer dev 64 m1) ?q 0 = event_desc dev 64" using offer_desc [OF q i', of 0 64 m1] i by simp
  moreover have "\<not> in_region (in_event_buffer dev) 512 (in_event_buffer dev + 512)"
    by (simp add: in_region_def)
  ultimately show ?thesis using m1(1) dev d64 t ev(2,3) r by (auto simp: event_desc_def)
qed

theorem event_buffer_overrun_witness:
  "\<exists>m1 dev2 s2. for_each repopulate_event (map of_nat [0..<64] @ map of_nat [0..<64])
       (example_keyboard\<lparr>in_event_idx := 0\<rparr>, (memory example_input)(0x9004 := 64)) = Some (example_keyboard\<lparr>in_event_idx := 0\<rparr>, m1)
     \<and> take_event (example_keyboard\<lparr>in_event_idx := 0\<rparr>) (example_input\<lparr>memory := m1\<rparr>) = Some (dev2, s2)
     \<and> vd_addr (load_desc (memory s2) 0x8000 0) = 0x2200 \<and> \<not> in_region 0x2000 512 0x2200"
proof -
  let ?dev = "example_keyboard\<lparr>in_event_idx := 0\<rparr>" and ?s = "example_input\<lparr>memory := (memory example_input)(0x9004 := 64)\<rparr>"
  have q: "queue_ok (in_event_queue ?dev)" by (simp add: example_keyboard_def queue_ok_def)
  have len: "length (map of_nat [0..<64] @ map of_nat [0..<64] :: usize list) = 128" by simp
  have e: "load32 (memory ?s) (used_id (in_event_queue ?dev) (ucast (in_event_ack ?dev) mod VIRTIO_RING_SIZE)) = 64"
    by (simp add: example_keyboard_def example_input_fields load32_def load_bytes_def upt_rec used_id_def)
  have ev: "load_event (memory ?s) (in_event_buffer ?dev) = Some \<lparr>event_type = Key, ev_code = 30, ev_value = 1\<rparr>"
    by (simp add: example_keyboard_def example_input_fields load_event_def load16_def load32_def load_bytes_def upt_rec EventType_of_def)
  obtain dev1 m1 dev2 s2 where r: "for_each repopulate_event (map of_nat [0..<64] @ map of_nat [0..<64]) (?dev, memory ?s) = Some (dev1, m1)"
    "take_event dev1 (?s\<lparr>memory := m1\<rparr>) = Some (dev2, s2)"
    "vd_addr (load_desc (memory s2) (in_event_queue ?dev) 0) = in_event_buffer ?dev + 512"
    "\<not> in_region (in_event_buffer ?dev) 512 (vd_addr (load_desc (memory s2) (in_event_queue ?dev) 0))"
    using event_buffer_overrun [OF q _ e _ _ ev, of "[]" "[]"]
    by (auto simp: example_keyboard_def example_input_fields disjoint_regions_def null_mut_def)
  obtain m2 where "for_each repopulate_event (map of_nat [0..<64] @ map of_nat [0..<64]) (?dev, memory ?s) = Some (?dev\<lparr>in_event_idx := 0\<rparr>, m2)"
    using offers_in_sequence [OF q, of "map of_nat [0..<64] @ map of_nat [0..<64]" "memory ?s"] unfolding len by auto
  with r show ?thesis by (auto simp: example_keyboard_def)
qed

end
