(* ===== verification/Gpu.thy ===== *)
theory Gpu
  imports Input
begin

text \<open>
  \<^verbatim>\<open>gpu.rs\<close>: the driver of the graphics device. Commands are structures on the heap that the device
  reads through chains of descriptors; the interrupt handler frees them. The framebuffer is an
  array of pixels in pages of the page allocator.
\<close>

section \<open>Data\<close>

datatype CtrlType =
  CmdGetDisplayInfo | CmdResourceCreate2d | CmdResourceUref | CmdSetScanout | CmdResourceFlush | CmdTransferToHost2d
  | CmdResourceAttachBacking | CmdResourceDetachBacking | CmdGetCapsetInfo | CmdGetCapset | CmdGetEdid
  | CmdUpdateCursor | CmdMoveCursor
  | RespOkNoData | RespOkDisplayInfo | RespOkCapsetInfo | RespOkCapset | RespOkEdid
  | RespErrUnspec | RespErrOutOfMemory | RespErrInvalidScanoutId | RespErrInvalidResourceId | RespErrInvalidContextId
  | RespErrInvalidParameter

fun CtrlType_val :: "CtrlType \<Rightarrow> u32" where
  "CtrlType_val CmdGetDisplayInfo = 0x100"
| "CtrlType_val CmdResourceCreate2d = 0x101"
| "CtrlType_val CmdResourceUref = 0x102"
| "CtrlType_val CmdSetScanout = 0x103"
| "CtrlType_val CmdResourceFlush = 0x104"
| "CtrlType_val CmdTransferToHost2d = 0x105"
| "CtrlType_val CmdResourceAttachBacking = 0x106"
| "CtrlType_val CmdResourceDetachBacking = 0x107"
| "CtrlType_val CmdGetCapsetInfo = 0x108"
| "CtrlType_val CmdGetCapset = 0x109"
| "CtrlType_val CmdGetEdid = 0x10a"
| "CtrlType_val CmdUpdateCursor = 0x300"
| "CtrlType_val CmdMoveCursor = 0x301"
| "CtrlType_val RespOkNoData = 0x1100"
| "CtrlType_val RespOkDisplayInfo = 0x1101"
| "CtrlType_val RespOkCapsetInfo = 0x1102"
| "CtrlType_val RespOkCapset = 0x1103"
| "CtrlType_val RespOkEdid = 0x1104"
| "CtrlType_val RespErrUnspec = 0x1200"
| "CtrlType_val RespErrOutOfMemory = 0x1201"
| "CtrlType_val RespErrInvalidScanoutId = 0x1202"
| "CtrlType_val RespErrInvalidResourceId = 0x1203"
| "CtrlType_val RespErrInvalidContextId = 0x1204"
| "CtrlType_val RespErrInvalidParameter = 0x1205"

record CtrlHeader =
  ctrl_type :: CtrlType
  ch_flags :: u32
  fence_id :: u64
  ctx_id :: u32

definition CtrlHeader_bytes :: "CtrlHeader \<Rightarrow> u8 list" where
  "CtrlHeader_bytes h = to_le 4 (CtrlType_val (ctrl_type h)) @ to_le 4 (ch_flags h) @ to_le 8 (fence_id h) @ to_le 4 (ctx_id h) @ to_le 4 (0 :: u32)"

text \<open>All commands are sent with the same header but for the type.\<close>

definition command :: "CtrlType \<Rightarrow> CtrlHeader" where
  "command t = \<lparr>ctrl_type = t, ch_flags = 0, fence_id = 0, ctx_id = 0\<rparr>"

record Rect =
  rect_x :: u32
  rect_y :: u32
  rect_width :: u32
  rect_height :: u32

definition Rect_new :: "u32 \<Rightarrow> u32 \<Rightarrow> u32 \<Rightarrow> u32 \<Rightarrow> Rect" where
  "Rect_new x y width height = \<lparr>rect_x = x, rect_y = y, rect_width = width, rect_height = height\<rparr>"

definition Rect_bytes :: "Rect \<Rightarrow> u8 list" where
  "Rect_bytes r = to_le 4 (rect_x r) @ to_le 4 (rect_y r) @ to_le 4 (rect_width r) @ to_le 4 (rect_height r)"

datatype Formats =
  B8G8R8A8Unorm | B8G8R8X8Unorm | A8R8G8B8Unorm | X8R8G8B8Unorm | R8G8B8A8Unorm | X8B8G8R8Unorm | A8B8G8R8Unorm | R8G8B8X8Unorm

fun Formats_val :: "Formats \<Rightarrow> u32" where
  "Formats_val B8G8R8A8Unorm = 1"
| "Formats_val B8G8R8X8Unorm = 2"
| "Formats_val A8R8G8B8Unorm = 3"
| "Formats_val X8R8G8B8Unorm = 4"
| "Formats_val R8G8B8A8Unorm = 67"
| "Formats_val X8B8G8R8Unorm = 68"
| "Formats_val A8B8G8R8Unorm = 121"
| "Formats_val R8G8B8X8Unorm = 134"

text \<open>The commands, as the bytes of their \<^verbatim>\<open>repr(C)\<close> structures.\<close>

definition ResourceCreate2d :: "u32 \<Rightarrow> Formats \<Rightarrow> u32 \<Rightarrow> u32 \<Rightarrow> u8 list" where
  "ResourceCreate2d resource_id fmt width height =
     CtrlHeader_bytes (command CmdResourceCreate2d) @ to_le 4 resource_id @ to_le 4 (Formats_val fmt) @ to_le 4 width @ to_le 4 height"

definition SetScanout :: "Rect \<Rightarrow> u32 \<Rightarrow> u32 \<Rightarrow> u8 list" where
  "SetScanout r scanout_id resource_id =
     CtrlHeader_bytes (command CmdSetScanout) @ Rect_bytes r @ to_le 4 scanout_id @ to_le 4 resource_id"

definition ResourceFlush :: "Rect \<Rightarrow> u32 \<Rightarrow> u8 list" where
  "ResourceFlush r resource_id = CtrlHeader_bytes (command CmdResourceFlush) @ Rect_bytes r @ to_le 4 resource_id @ to_le 4 (0 :: u32)"

definition TransferToHost2d :: "Rect \<Rightarrow> u64 \<Rightarrow> u32 \<Rightarrow> u8 list" where
  "TransferToHost2d r offset resource_id =
     CtrlHeader_bytes (command CmdTransferToHost2d) @ Rect_bytes r @ to_le 8 offset @ to_le 4 resource_id @ to_le 4 (0 :: u32)"

definition AttachBacking :: "u32 \<Rightarrow> u32 \<Rightarrow> u8 list" where
  "AttachBacking resource_id nr_entries =
     CtrlHeader_bytes (command CmdResourceAttachBacking) @ to_le 4 resource_id @ to_le 4 nr_entries"

definition MemEntry :: "u64 \<Rightarrow> u32 \<Rightarrow> u8 list" where
  "MemEntry addr len = to_le 8 addr @ to_le 4 len @ to_le 4 (0 :: u32)"

record Pixel =
  px_r :: u8
  px_g :: u8
  px_b :: u8
  px_a :: u8

definition Pixel_new :: "u8 \<Rightarrow> u8 \<Rightarrow> u8 \<Rightarrow> u8 \<Rightarrow> Pixel" where
  "Pixel_new r g b a = \<lparr>px_r = r, px_g = g, px_b = b, px_a = a\<rparr>"

text \<open>
  \<^verbatim>\<open>Pixel\<close>, \<^verbatim>\<open>Request\<close> and \<^verbatim>\<open>Request3\<close> are laid out by the Rust compiler: the bytes of a pixel and the offsets of
  the parts of a request, which may depend on the size of the command, are parameters.
\<close>

record gpu_layout =
  pixel_bytes :: "Pixel \<Rightarrow> u8 list"
  off_request :: "nat \<Rightarrow> usize"
  off_response :: "nat \<Rightarrow> usize"
  off_request3 :: usize
  off_mementries3 :: usize
  off_response3 :: usize

record GpuDevice =
  gd_queue :: usize
  gd_dev :: usize
  gd_idx :: u16
  gd_ack_used_idx :: u16
  gd_framebuffer :: usize
  gd_width :: u32
  gd_height :: u32

definition GpuDevice_new :: GpuDevice where
  "GpuDevice_new = \<lparr>gd_queue = null_mut, gd_dev = null_mut, gd_idx = 0, gd_ack_used_idx = 0, gd_framebuffer = null_mut, gd_width = 640, gd_height = 480\<rparr>"

record gpu_st = input_st +
  GPU_DEVICES :: "GpuDevice option list"

section \<open>Drawing\<close>

definition put_pixel :: "gpu_layout \<Rightarrow> GpuDevice \<Rightarrow> Pixel \<Rightarrow> u32 \<Rightarrow> u32 \<Rightarrow> mem \<Rightarrow> mem option" where
  "put_pixel L dev color row col m = do {
     start \<leftarrow> umul (ucast row) (ucast (gd_width dev));
     byte \<leftarrow> uadd start (ucast col :: usize);
     Some (store_bytes m (gd_framebuffer dev + 4 * byte) (pixel_bytes L color))
   }"

text \<open>\<^verbatim>\<open>a..b\<close> as a list; the upper bound of the columns is computed anew in every row.\<close>

definition range32 :: "u32 \<Rightarrow> u32 \<Rightarrow> u32 list" where
  "range32 a b = map of_nat [unat a..<unat b]"

definition fill_rect :: "gpu_layout \<Rightarrow> GpuDevice \<Rightarrow> Rect \<Rightarrow> Pixel \<Rightarrow> mem \<Rightarrow> mem option" where
  "fill_rect L dev r color m = do {
     bottom \<leftarrow> uadd (rect_y r) (rect_height r);
     for_each (\<lambda>row m. do {
         right \<leftarrow> uadd (rect_x r) (rect_width r);
         for_each (put_pixel L dev color row) (range32 (rect_x r) right) m
       }) (range32 (rect_y r) bottom) m
   }"

definition stroke_rect :: "gpu_layout \<Rightarrow> GpuDevice \<Rightarrow> Rect \<Rightarrow> Pixel \<Rightarrow> u32 \<Rightarrow> mem \<Rightarrow> mem option" where
  "stroke_rect L dev r color sz m = do {
     m \<leftarrow> fill_rect L dev (Rect_new (rect_x r) (rect_y r) (rect_width r) sz) color m;
     y2 \<leftarrow> uadd (rect_y r) (rect_height r);
     m \<leftarrow> fill_rect L dev (Rect_new (rect_x r) y2 (rect_width r) sz) color m;
     m \<leftarrow> fill_rect L dev (Rect_new (rect_x r) (rect_y r) sz (rect_height r)) color m;
     x2 \<leftarrow> uadd (rect_x r) (rect_width r);
     h2 \<leftarrow> uadd (rect_height r) sz;
     fill_rect L dev (Rect_new x2 (rect_y r) sz h2) color m
   }"

section \<open>Commands\<close>

text \<open>\<^verbatim>\<open>Request::new\<close>: the command and room for a response of 24 bytes (\<^verbatim>\<open>CtrlHeader\<close>).\<close>

definition Request_new :: "gpu_layout \<Rightarrow> u8 list \<Rightarrow> 'a kmem_st_scheme \<Rightarrow> (usize \<times> 'a kmem_st_scheme) option" where
  "Request_new L req s = do {
     (p, s) \<leftarrow> kmalloc (of_nat (length req) + 24) s;
     Some (p, s\<lparr>memory := store_bytes (memory s) (p + off_request L (length req)) req\<rparr>)
   }"

definition Request3_new :: "gpu_layout \<Rightarrow> u8 list \<Rightarrow> u8 list \<Rightarrow> 'a kmem_st_scheme \<Rightarrow> (usize \<times> 'a kmem_st_scheme) option" where
  "Request3_new L req meminfo s = do {
     (p, s) \<leftarrow> kmalloc (of_nat (length req) + of_nat (length meminfo) + 24) s;
     let m = store_bytes (memory s) (p + off_request3 L) req;
     Some (p, s\<lparr>memory := store_bytes m (p + off_mementries3 L) meminfo\<rparr>)
   }"

text \<open>Put a chain of descriptors into consecutive slots and its head into the available ring.\<close>

definition put_desc :: "VDescriptor \<Rightarrow> GpuDevice \<times> mem \<Rightarrow> (GpuDevice \<times> mem) option" where
  "put_desc d = (\<lambda>(dev, m). do {
     assert_that (unat (gd_idx dev) < 128);
     i \<leftarrow> ring_next (gd_idx dev);
     Some (dev\<lparr>gd_idx := i\<rparr>, store_desc m (gd_queue dev) (gd_idx dev) d)
   })"

definition put_chain :: "VDescriptor list \<Rightarrow> GpuDevice \<times> mem \<Rightarrow> (GpuDevice \<times> mem) option" where
  "put_chain ds = (\<lambda>(dev, m). do {
     let head = gd_idx dev;
     (dev, m) \<leftarrow> for_each put_desc ds (dev, m);
     Some (dev, avail_push (gd_queue dev) head m)
   })"

definition gpu_command :: "gpu_layout \<Rightarrow> u8 list \<Rightarrow> GpuDevice \<Rightarrow> 'a gpu_st_scheme \<Rightarrow> (GpuDevice \<times> 'a gpu_st_scheme) option" where
  "gpu_command L req dev s = do {
     (rq, s) \<leftarrow> Request_new L req s;
     n \<leftarrow> ring_next (gd_idx dev);
     let desc = \<lparr>vd_addr = rq + off_request L (length req), vd_len = of_nat (length req), vd_flags = VIRTIO_DESC_F_NEXT, vd_next = n\<rparr>;
     let desc_resp = \<lparr>vd_addr = rq + off_response L (length req), vd_len = 24, vd_flags = VIRTIO_DESC_F_WRITE, vd_next = 0\<rparr>;
     (dev, m) \<leftarrow> put_chain [desc, desc_resp] (dev, memory s);
     Some (dev, s\<lparr>memory := m\<rparr>)
   }"

text \<open>Step 2 of the initialisation, a chain of three.\<close>

definition gpu_attach :: "gpu_layout \<Rightarrow> GpuDevice \<Rightarrow> 'a gpu_st_scheme \<Rightarrow> (GpuDevice \<times> 'a gpu_st_scheme) option" where
  "gpu_attach L dev s = do {
     area \<leftarrow> umul (gd_width dev) (gd_height dev);
     len \<leftarrow> umul area 4;
     (rq, s) \<leftarrow> Request3_new L (AttachBacking 1 1) (MemEntry (gd_framebuffer dev) len) s;
     n \<leftarrow> ring_next (gd_idx dev);
     k \<leftarrow> uadd (gd_idx dev) 2;
     let desc_ab = \<lparr>vd_addr = rq + off_request3 L, vd_len = 32, vd_flags = VIRTIO_DESC_F_NEXT, vd_next = n\<rparr>;
     let desc_ab_mementry = \<lparr>vd_addr = rq + off_mementries3 L, vd_len = 16, vd_flags = VIRTIO_DESC_F_NEXT, vd_next = k mod ucast VIRTIO_RING_SIZE\<rparr>;
     let desc_ab_resp = \<lparr>vd_addr = rq + off_response3 L, vd_len = 24, vd_flags = VIRTIO_DESC_F_WRITE, vd_next = 0\<rparr>;
     (dev, m) \<leftarrow> put_chain [desc_ab, desc_ab_mementry, desc_ab_resp] (dev, memory s);
     Some (dev, s\<lparr>memory := m\<rparr>)
   }"

text \<open>\<^verbatim>\<open>GPU_DEVICES[gdev - 1].take()\<close>, and putting the device back after a notification.\<close>

definition gpu_take :: "usize \<Rightarrow> 'a gpu_st_scheme \<Rightarrow> (GpuDevice option \<times> 'a gpu_st_scheme) option" where
  "gpu_take gdev s = do {
     i \<leftarrow> usub gdev 1;
     assert_that (unat i < length (GPU_DEVICES s));
     Some (GPU_DEVICES s ! unat i, s\<lparr>GPU_DEVICES := (GPU_DEVICES s)[unat i := None]\<rparr>)
   }"

definition gpu_put :: "usize \<Rightarrow> GpuDevice \<Rightarrow> 'a gpu_st_scheme \<Rightarrow> 'a gpu_st_scheme" where
  "gpu_put gdev dev s = s\<lparr>GPU_DEVICES := (GPU_DEVICES s)[unat (gdev - 1) := Some dev]\<rparr>"

text \<open>The last two commands of \<^verbatim>\<open>init\<close>, and all of \<^verbatim>\<open>transfer\<close>: copy a rectangle of the framebuffer to the host and show it.\<close>

definition gpu_present :: "gpu_layout \<Rightarrow> Rect \<Rightarrow> GpuDevice \<Rightarrow> 'a gpu_st_scheme \<Rightarrow> (GpuDevice \<times> 'a gpu_st_scheme) option" where
  "gpu_present L r dev s = do {
     (dev, s) \<leftarrow> gpu_command L (TransferToHost2d r 0 1) dev s;
     (dev, s) \<leftarrow> gpu_command L (ResourceFlush r 1) dev s;
     Some (dev, reg_write (gd_dev dev) QueueNotify 0 s)
   }"

definition gpu_init :: "gpu_layout \<Rightarrow> usize \<Rightarrow> 'a gpu_st_scheme \<Rightarrow> 'a gpu_st_scheme option" where
  "gpu_init L gdev s = do {
     (taken, s) \<leftarrow> gpu_take gdev s;
     case taken of
       None \<Rightarrow> Some s
     | Some dev \<Rightarrow> do {
         m \<leftarrow> fill_rect L dev (Rect_new 0 0 640 480) (Pixel_new 2 2 2 255) (memory s);
         let s = s\<lparr>memory := m\<rparr>;
         (dev, s) \<leftarrow> gpu_command L (ResourceCreate2d 1 R8G8B8A8Unorm (gd_width dev) (gd_height dev)) dev s;
         (dev, s) \<leftarrow> gpu_attach L dev s;
         (dev, s) \<leftarrow> gpu_command L (SetScanout (Rect_new 0 0 (gd_width dev) (gd_height dev)) 0 1) dev s;
         (dev, s) \<leftarrow> gpu_present L (Rect_new 0 0 (gd_width dev) (gd_height dev)) dev s;
         Some (gpu_put gdev dev s)
       }
   }"

definition gpu_transfer :: "gpu_layout \<Rightarrow> usize \<Rightarrow> u32 \<Rightarrow> u32 \<Rightarrow> u32 \<Rightarrow> u32 \<Rightarrow> 'a gpu_st_scheme \<Rightarrow> 'a gpu_st_scheme option" where
  "gpu_transfer L gdev x y width height s = do {
     (taken, s) \<leftarrow> gpu_take gdev s;
     case taken of
       None \<Rightarrow> Some s
     | Some dev \<Rightarrow> do {
         (dev, s) \<leftarrow> gpu_present L (Rect_new x y width height) dev s;
         Some (gpu_put gdev dev s)
       }
   }"

section \<open>Initialisation and completion\<close>

definition setup_gpu_device :: "device_regs \<Rightarrow> usize \<Rightarrow> 'a gpu_st_scheme \<Rightarrow> (bool \<times> 'a gpu_st_scheme) option" where
  "setup_gpu_device M ptr s = do {
     idx \<leftarrow> device_index ptr;
     let (good, _, s) = negotiate M (\<lambda>f. f) ptr s;
     if \<not> good then Some (False, s)
     else do {
       (queue_ptr, s) \<leftarrow> install_queue ptr 0 s;
       let s = device_live ptr s;
       (page_alloc, s) \<leftarrow> zalloc ((PAGE_SIZE * 2 + 640 * 480 * 4) div PAGE_SIZE) s;
       let dev = \<lparr>gd_queue = queue_ptr, gd_dev = ptr, gd_idx = 0, gd_ack_used_idx = 0, gd_framebuffer = page_alloc, gd_width = 640, gd_height = 480\<rparr>;
       devs \<leftarrow> set_slot idx dev (GPU_DEVICES s);
       Some (True, s\<lparr>GPU_DEVICES := devs\<rparr>)
     }
   }"

partial_function (option) gpu_pending_loop :: "usize \<Rightarrow> u16 \<Rightarrow> 'a kmem_st_scheme \<Rightarrow> (u16 \<times> 'a kmem_st_scheme) option" where
  "gpu_pending_loop q ack s =
     (if ack \<noteq> load16 (memory s) (used_idx q) then do {
        let elem_id = load32 (memory s) (used_id q (ucast ack mod VIRTIO_RING_SIZE));
        assert_that (unat elem_id < 128);
        s \<leftarrow> kfree (vd_addr (load_desc (memory s) q (ucast elem_id))) s;
        gpu_pending_loop q (ack + 1) s
      } else Some (ack, s))"

definition gpu_pending :: "GpuDevice \<Rightarrow> 'a kmem_st_scheme \<Rightarrow> (GpuDevice \<times> 'a kmem_st_scheme) option" where
  "gpu_pending dev s = do {
     (ack, s) \<leftarrow> gpu_pending_loop (gd_queue dev) (gd_ack_used_idx dev) s;
     Some (dev\<lparr>gd_ack_used_idx := ack\<rparr>, s)
   }"

definition gpu_handle_interrupt :: "nat \<Rightarrow> 'a gpu_st_scheme \<Rightarrow> 'a gpu_st_scheme option" where
  "gpu_handle_interrupt idx s = do {
     assert_that (idx < length (GPU_DEVICES s));
     case GPU_DEVICES s ! idx of
       Some bdev \<Rightarrow> do {
         (bdev, s) \<leftarrow> gpu_pending bdev s;
         Some (s\<lparr>GPU_DEVICES := (GPU_DEVICES s)[idx := Some bdev]\<rparr>)
       }
     | None \<Rightarrow> Some s
   }"


section \<open>Painting\<close>

lemma for_each_fold:
  "(\<And>x m. x \<in> set xs \<Longrightarrow> f x m = Some (g x m)) \<Longrightarrow> for_each f xs m = Some (fold g xs m)"
  by (induction xs arbitrary: m) simp_all

lemma fold_concat: "fold (\<lambda>r. fold g (ks r)) rs m = fold g (concat (map ks rs)) m"
  by (induction rs arbitrary: m) simp_all

text \<open>Pixels by their position in the framebuffer.\<close>

definition paint :: "usize \<Rightarrow> u8 list \<Rightarrow> nat \<Rightarrow> mem \<Rightarrow> mem" where
  "paint fb px k m = store_bytes m (loc fb (4 * k)) px"

definition rect_pixels :: "nat \<Rightarrow> Rect \<Rightarrow> nat list" where
  "rect_pixels W r = concat (map (\<lambda>row. map (\<lambda>col. row * W + col) [unat (rect_x r)..<unat (rect_x r) + unat (rect_width r)])
     [unat (rect_y r)..<unat (rect_y r) + unat (rect_height r)])"

lemma put_pixel_eq:
  assumes "i < 2 ^ 32" "j < 2 ^ 32"
  shows "put_pixel L dev color (of_nat i) (of_nat j) m =
    Some (paint (gd_framebuffer dev) (pixel_bytes L color) (i * unat (gd_width dev) + j) m)"
proof -
  let ?W = "unat (gd_width dev)"
  have u: "unat (ucast (of_nat i :: u32) :: usize) = i" "unat (ucast (of_nat j :: u32) :: usize) = j"
    "unat (ucast (gd_width dev) :: usize) = ?W"
    using assms unat_lt_2p32 [of "gd_width dev"] by (simp_all add: unsigned_ucast_eq unsigned_of_nat take_bit_nat_eq_self)
  have "i * ?W \<le> (2 ^ 32 - 1) * (2 ^ 32 - 1)" using assms unat_lt_2p32 [of "gd_width dev"] by (intro mult_mono) auto
  then have b: "i * ?W < 2 ^ 64" "i * ?W + j < 2 ^ 64" using assms by simp_all
  have w: "(ucast (of_nat i :: u32) :: usize) = of_nat i" "(ucast (of_nat j :: u32) :: usize) = of_nat j"
    using u assms unat_of_nat_small [of i, where 'l = 64] unat_of_nat_small [of j, where 'l = 64] by (simp_all add: word_unat_eq_iff)
  have "umul (ucast (of_nat i :: u32)) (ucast (gd_width dev) :: usize) = Some (of_nat i * ucast (gd_width dev))"
    unfolding umul_def using b(1) u w by simp
  moreover have "uadd (of_nat i * ucast (gd_width dev) :: usize) (ucast (of_nat j :: u32)) = Some (of_nat i * ucast (gd_width dev) + of_nat j)"
    unfolding uadd_def using b u w unat_mult_no_wrap [of "of_nat i :: usize" "ucast (gd_width dev)"] by simp
  ultimately show ?thesis by (simp add: put_pixel_def paint_def loc_def)
qed

lemma range32_eq: "uadd a b = Some c \<Longrightarrow> range32 a c = map of_nat [unat a..<unat a + unat b]"
  by (simp add: range32_def uadd_unat)

lemma fill_rect_eq:
  assumes "unat (rect_x r) + unat (rect_width r) < 2 ^ 32" "unat (rect_y r) + unat (rect_height r) < 2 ^ 32"
  shows "fill_rect L dev r color m =
    Some (fold (paint (gd_framebuffer dev) (pixel_bytes L color)) (rect_pixels (unat (gd_width dev)) r) m)"
proof -
  let ?g = "paint (gd_framebuffer dev) (pixel_bytes L color)" and ?W = "unat (gd_width dev)"
  obtain bottom right where br: "uadd (rect_y r) (rect_height r) = Some bottom" "uadd (rect_x r) (rect_width r) = Some right"
    using assms by (simp add: uadd_def)
  have cols: "for_each (put_pixel L dev color (of_nat i)) (range32 (rect_x r) right) m
      = Some (fold ?g (map (\<lambda>j. i * ?W + j) [unat (rect_x r)..<unat (rect_x r) + unat (rect_width r)]) m)" if "i < 2 ^ 32" for i m
    unfolding range32_eq [OF br(2)]
    by (subst for_each_fold [where g = "\<lambda>c. ?g (i * ?W + unat c)"])
       (use that assms(1) in \<open>auto simp: put_pixel_eq unsigned_of_nat take_bit_nat_eq_self fold_map comp_def intro!: fold_cong\<close>)
  show ?thesis
    unfolding fill_rect_def br bind.bind_lunit range32_eq [OF br(1)]
    by (subst for_each_fold [where g = "\<lambda>c. fold ?g (map (\<lambda>j. unat c * ?W + j) [unat (rect_x r)..<unat (rect_x r) + unat (rect_width r)])"])
       (use assms(2) in \<open>auto simp: cols unsigned_of_nat take_bit_nat_eq_self rect_pixels_def fold_concat [symmetric] fold_map comp_def intro!: fold_cong\<close>)
qed

lemma set_rect_pixels:
  "k \<in> set (rect_pixels W r) \<longleftrightarrow> (\<exists>i j. k = i * W + j \<and> unat (rect_y r) \<le> i \<and> i < unat (rect_y r) + unat (rect_height r)
     \<and> unat (rect_x r) \<le> j \<and> j < unat (rect_x r) + unat (rect_width r))"
  unfolding rect_pixels_def set_concat set_map image_image set_upt
  by (simp add: Bex_def del: image_add_atLeastLessThan) (simp only: image_iff Bex_def atLeastLessThan_iff, blast)

lemma rect_pixels_iff:
  assumes "unat (rect_x r) + unat (rect_width r) \<le> W" "col < W"
  shows "row * W + col \<in> set (rect_pixels W r) \<longleftrightarrow>
    unat (rect_y r) \<le> row \<and> row < unat (rect_y r) + unat (rect_height r) \<and> unat (rect_x r) \<le> col \<and> col < unat (rect_x r) + unat (rect_width r)"
proof -
  have inj: "row = i \<and> col = j" if "row * W + col = i * W + j" "j < W" for i j
  proof -
    have "(row * W + col) div W = row" "(i * W + j) div W = i" using assms(2) that(2) by simp_all
    then show ?thesis using that(1) by simp
  qed
  show ?thesis
  proof
    assume "row * W + col \<in> set (rect_pixels W r)"
    then obtain i j where ij: "row * W + col = i * W + j" "unat (rect_y r) \<le> i" "i < unat (rect_y r) + unat (rect_height r)"
      "unat (rect_x r) \<le> j" "j < unat (rect_x r) + unat (rect_width r)" unfolding set_rect_pixels by blast
    moreover have "row = i \<and> col = j" using inj [OF ij(1)] ij(5) assms(1) by simp
    ultimately show "unat (rect_y r) \<le> row \<and> row < unat (rect_y r) + unat (rect_height r) \<and> unat (rect_x r) \<le> col \<and> col < unat (rect_x r) + unat (rect_width r)"
      by simp
  qed (use set_rect_pixels in blast)
qed

lemma rect_pixels_bound:
  assumes "unat (rect_x r) + unat (rect_width r) \<le> W" "unat (rect_y r) + unat (rect_height r) \<le> H" "k \<in> set (rect_pixels W r)"
  shows "k < W * H"
proof -
  obtain i j where "k = i * W + j" "i < unat (rect_y r) + unat (rect_height r)" "j < unat (rect_x r) + unat (rect_width r)"
    using assms(3) unfolding set_rect_pixels by blast
  with assms(1,2) have k: "k = i * W + j" "i < H" "j < W" by simp_all
  then have "i * W + W \<le> H * W" using mult_le_mono1 [of "Suc i" H W] by simp
  then show ?thesis using k by (simp add: mult.commute)
qed

lemma load_paint:
  assumes "unat fb + 4 * N \<le> 2 ^ 64" "length px = 4" "k < N" "j < N"
  shows "load_bytes (paint fb px j m) (loc fb (4 * k)) 4 = (if k = j then px else load_bytes m (loc fb (4 * k)) 4)"
proof (cases "k = j")
  case True
  then show ?thesis using load_store_bytes [of px m "loc fb (4 * j)"] assms(2) by (simp add: paint_def)
next
  case False
  then show ?thesis using load_store_apart [OF assms(1), of "4 * j" px "4 * k" 4 m] assms by (simp add: paint_def) linarith
qed

lemma load_fold_paint:
  assumes "unat fb + 4 * N \<le> 2 ^ 64" "length px = 4" "k < N" "\<forall>j \<in> set ks. j < N"
  shows "load_bytes (fold (paint fb px) ks m) (loc fb (4 * k)) 4 = (if k \<in> set ks then px else load_bytes m (loc fb (4 * k)) 4)"
  using assms(4) by (induction ks arbitrary: m) (auto simp: load_paint [OF assms(1-3)])

lemma fold_paint_outside:
  assumes "unat fb + 4 * N \<le> 2 ^ 64" "length px = 4" "\<forall>j \<in> set ks. j < N" "\<not> in_region fb (4 * N) a"
  shows "fold (paint fb px) ks m a = m a"
  using assms(3)
proof (induction ks arbitrary: m)
  case (Cons j ks)
  have "\<not> in_region (loc fb (4 * j)) 4 a"
  proof
    assume "in_region (loc fb (4 * j)) 4 a"
    then obtain i where "i < 4" "a = loc fb (4 * j) + of_nat i" by (rule in_regionE)
    then have "i < 4" "a = loc fb (4 * j + i)" by (simp_all add: loc_def add.assoc)
    then have "in_region fb (4 * N) a"
      using in_region_offset [of "4 * j + i" "4 * N" fb] Cons.prems assms(1) by (simp add: loc_def)
    then show False using assms(4) by simp
  qed
  then have "paint fb px j m a = m a" using assms(2) by (simp add: paint_def store_bytes_outside)
  then show ?case using Cons by simp
qed simp


section \<open>Submitting a command\<close>

lemma put_chain_two:
  assumes "gd_idx dev < 128"
  shows "put_chain [d1, d2] (dev, m) = Some (dev\<lparr>gd_idx := nxt (nxt (gd_idx dev))\<rparr>,
     avail_push (gd_queue dev) (gd_idx dev) (store_desc (store_desc m (gd_queue dev) (gd_idx dev) d1) (gd_queue dev) (nxt (gd_idx dev)) d2))"
proof -
  have "unat (gd_idx dev) < 128" "unat (nxt (gd_idx dev)) < 128"
    using assms nxt_less [of "gd_idx dev"] by (simp_all only: word_less_nat_alt) simp_all
  then show ?thesis using assms by (simp add: put_chain_def put_desc_def ring_next_eq Let_def)
qed

text \<open>The bytes of a command outside the queue survive the writes to the queue.\<close>

lemma load_outside_queue:
  assumes d: "disjoint_regions p N q 5128" "k + n \<le> N" "0 < n"
  shows "i < 128 \<Longrightarrow> load_bytes (store_desc m q i d) (loc p k) n = load_bytes m (loc p k) n"
    and "load_bytes (avail_push q h m) (loc p k) n = load_bytes m (loc p k) n"
proof -
  note ds = load_store_disjoint [OF disjoint_regions_sym [OF d(1)] _ _ d(2,3)]
  show "load_bytes (store_desc m q i d) (loc p k) n = load_bytes m (loc p k) n" if "i < 128"
    unfolding store_desc_def desc_addr_off using that by (intro ds) (simp_all add: word_less_nat_alt)
  show "load_bytes (avail_push q h m) (loc p k) n = load_bytes m (loc p k) n"
    unfolding avail_push_stores using unat_ring_slot [of "load16 m (avail_idx q)"] by (simp add: ds)
qed

lemma queue_after_store:
  assumes d: "disjoint_regions p N q 5128" "k + length bs \<le> N" "0 < length bs"
  shows "load16 (store_bytes m (loc p k) bs) (avail_idx q) = load16 m (avail_idx q)"
  unfolding load16_def avail_locs using d by (simp add: load_store_disjoint)

lemma Request_new_only_memory: "Request_new L req s = Some (p, s') \<Longrightarrow> \<exists>m. s' = s\<lparr>memory := m\<rparr>"
  by (auto simp: Request_new_def dest!: kmalloc_only_memory split: Option.bind_splits)

section \<open>A graphics device\<close>

definition example_layout :: gpu_layout where
  "example_layout = \<lparr>pixel_bytes = (\<lambda>p. [px_r p, px_g p, px_b p, px_a p]), off_request = (\<lambda>_. 0), off_response = of_nat,
     off_request3 = 0, off_mementries3 = 32, off_response3 = 48\<rparr>"

definition example_gpu :: GpuDevice where
  "example_gpu = \<lparr>gd_queue = 0x80000000, gd_dev = 0x10007000, gd_idx = 127, gd_ack_used_idx = 0, gd_framebuffer = 0x90000000, gd_width = 640, gd_height = 480\<rparr>"

section \<open>Properties\<close>

text \<open>
  C33: filling a rectangle. For a rectangle that lies on the screen, \<^verbatim>\<open>fill_rect\<close> terminates without overflow; every
  pixel inside the rectangle has the colour, every other pixel of the framebuffer is as before, and
  no byte outside the framebuffer changes.
\<close>
theorem fill_rect_paints:
  assumes fits: "unat (rect_x r) + unat (rect_width r) \<le> unat (gd_width dev)" "unat (rect_y r) + unat (rect_height r) \<le> unat (gd_height dev)"
    and fb: "unat (gd_framebuffer dev) + 4 * (unat (gd_width dev) * unat (gd_height dev)) \<le> 2 ^ 64"
    and px: "length (pixel_bytes L color) = 4"
  shows "\<exists>m'. fill_rect L dev r color m = Some m'
    \<and> (\<forall>row < unat (gd_height dev). \<forall>col < unat (gd_width dev).
         load_bytes m' (gd_framebuffer dev + of_nat (4 * (row * unat (gd_width dev) + col))) 4 =
           (if unat (rect_y r) \<le> row \<and> row < unat (rect_y r) + unat (rect_height r) \<and> unat (rect_x r) \<le> col \<and> col < unat (rect_x r) + unat (rect_width r)
            then pixel_bytes L color
            else load_bytes m (gd_framebuffer dev + of_nat (4 * (row * unat (gd_width dev) + col))) 4))
    \<and> (\<forall>a. \<not> in_region (gd_framebuffer dev) (4 * (unat (gd_width dev) * unat (gd_height dev))) a \<longrightarrow> m' a = m a)"
proof -
  let ?W = "unat (gd_width dev)" and ?H = "unat (gd_height dev)"
  let ?m = "fold (paint (gd_framebuffer dev) (pixel_bytes L color)) (rect_pixels ?W r) m"
  have "fill_rect L dev r color m = Some ?m"
    using fits unat_lt_2p32 [of "gd_width dev"] unat_lt_2p32 [of "gd_height dev"] by (intro fill_rect_eq) linarith+
  moreover have b: "\<forall>k \<in> set (rect_pixels ?W r). k < ?W * ?H" using rect_pixels_bound [OF fits] by blast
  moreover have "load_bytes ?m (gd_framebuffer dev + of_nat (4 * (row * ?W + col))) 4 =
      (if unat (rect_y r) \<le> row \<and> row < unat (rect_y r) + unat (rect_height r) \<and> unat (rect_x r) \<le> col \<and> col < unat (rect_x r) + unat (rect_width r)
       then pixel_bytes L color else load_bytes m (gd_framebuffer dev + of_nat (4 * (row * ?W + col))) 4)"
    if "row < ?H" "col < ?W" for row col
  proof -
    have "row * ?W + ?W \<le> ?H * ?W" using that(1) mult_le_mono1 [of "Suc row" ?H ?W] by simp
    then have "row * ?W + col < ?W * ?H" using that(2) by (simp add: mult.commute)
    from load_fold_paint [OF fb px this b, of m] show ?thesis
      by (simp only: loc_def rect_pixels_iff [OF fits(1) that(2)])
  qed
  ultimately show ?thesis using fold_paint_outside [OF fb px b] by auto
qed

theorem fill_rect_paints_witness:
  "\<exists>m'. fill_rect example_layout example_gpu (Rect_new 1 2 3 4) (Pixel_new 9 8 7 255) (\<lambda>_. 0) = Some m'
     \<and> load_bytes m' 0x90001404 4 = [9, 8, 7, 255] \<and> load_bytes m' 0x90001400 4 = [0, 0, 0, 0] \<and> m' 0x90200000 = 0"
proof -
  obtain m' where m': "fill_rect example_layout example_gpu (Rect_new 1 2 3 4) (Pixel_new 9 8 7 255) (\<lambda>_. 0) = Some m'"
    "\<forall>row < 480. \<forall>col < 640. load_bytes m' (0x90000000 + of_nat (4 * (row * 640 + col))) 4 =
       (if 2 \<le> row \<and> row < 6 \<and> 1 \<le> col \<and> col < 4 then [9, 8, 7, 255] else load_bytes (\<lambda>_. 0) (0x90000000 + of_nat (4 * (row * 640 + col))) 4)"
    "\<forall>a. \<not> in_region 0x90000000 1228800 a \<longrightarrow> m' a = 0"
    using fill_rect_paints [of "Rect_new 1 2 3 4" example_gpu example_layout "Pixel_new 9 8 7 255" "\<lambda>_. 0"]
    by (auto simp: example_gpu_def Rect_new_def example_layout_def Pixel_new_def)
  have "load_bytes m' 0x90001404 4 = [9, 8, 7, 255]" using m'(2) [rule_format, of 2 1] by simp
  moreover have "load_bytes m' 0x90001400 4 = [0, 0, 0, 0]" using m'(2) [rule_format, of 2 0] by (simp add: load_bytes_def upt_rec)
  moreover have "m' 0x90200000 = 0" using m'(3) [rule_format, of "0x90200000"] by (simp add: in_region_def)
  ultimately show ?thesis using m'(1) by blast
qed

text \<open>
  Submission of a graphics command. With room for the command on the heap, apart from the queue,
  \<^verbatim>\<open>gpu_command\<close> succeeds; the new entry of the available ring heads a chain of two descriptors: the first covers exactly the
  bytes of the command, read-only for the device and linked to the second, which covers the response and is writable. The index
  of the ring grows by one.
\<close>
lemma gpu_command_submits:
  assumes idx: "gd_idx dev < 128" and q: "queue_ok (gd_queue dev)" and req: "0 < length req" "length req < 2 ^ 32"
    and km: "kmalloc (of_nat (length req) + 24) s = Some (rq, s1)"
    and d: "disjoint_regions rq (length req + 24) (gd_queue dev) 5128" and off: "unat (off_request L (length req)) \<le> 24"
  shows "\<exists>s'. gpu_command L req dev s = Some (dev\<lparr>gd_idx := nxt (nxt (gd_idx dev))\<rparr>, s') \<and>
    (let m = memory s'; q = gd_queue dev; i = load16 (memory s1) (avail_idx q);
         h = load16 m (avail_ring q (ucast i mod VIRTIO_RING_SIZE)); d1 = load_desc m q h in
       h = gd_idx dev \<and> load16 m (avail_idx q) = i + 1
       \<and> load_bytes m (vd_addr d1) (unat (vd_len d1)) = req \<and> vd_flags d1 = VIRTIO_DESC_F_NEXT
       \<and> load_desc m q (vd_next d1) =
           \<lparr>vd_addr = rq + off_response L (length req), vd_len = 24, vd_flags = VIRTIO_DESC_F_WRITE, vd_next = 0\<rparr>)"
proof -
  let ?q = "gd_queue dev" and ?h = "gd_idx dev" and ?o = "unat (off_request L (length req))"
  obtain m0 where s1: "s1 = s\<lparr>memory := m0\<rparr>" using kmalloc_only_memory [OF km] by blast
  define d1 where "d1 = \<lparr>vd_addr = loc rq ?o, vd_len = of_nat (length req), vd_flags = VIRTIO_DESC_F_NEXT, vd_next = nxt ?h\<rparr>"
  define d2 where "d2 = \<lparr>vd_addr = rq + off_response L (length req), vd_len = 24, vd_flags = VIRTIO_DESC_F_WRITE, vd_next = 0\<rparr>"
  define m1 where "m1 = store_bytes m0 (loc rq ?o) req"
  define m3 where "m3 = store_desc (store_desc m1 ?q ?h d1) ?q (nxt ?h) d2"
  have req_at: "rq + off_request L (length req) = loc rq ?o" by (simp add: loc_def)
  have run: "gpu_command L req dev s = Some (dev\<lparr>gd_idx := nxt (nxt ?h)\<rparr>, s\<lparr>memory := avail_push ?q ?h m3\<rparr>)"
    using km idx unfolding gpu_command_def Request_new_def s1
    by (simp add: ring_next_eq put_chain_two d1_def d2_def m1_def m3_def req_at)
  have ne: "nxt ?h \<noteq> ?h" using nxt_distinct(1) [OF idx] .
  have descs: "load_desc (avail_push ?q ?h m3) ?q ?h = d1" "load_desc (avail_push ?q ?h m3) ?q (nxt ?h) = d2"
    using ne idx by (simp_all add: m3_def avail_push_facts(1) [OF q] load_store_desc load_store_desc_other [OF q])
  have len: "unat (of_nat (length req) :: u32) = length req" using req(2) by (simp add: unsigned_of_nat take_bit_nat_eq_self)
  have bound: "?o + length req \<le> length req + 24" using off by simp
  have "load_bytes (avail_push ?q ?h m3) (loc rq ?o) (length req) = load_bytes m1 (loc rq ?o) (length req)"
    unfolding m3_def using idx by (simp add: load_outside_queue [OF d bound req(1)])
  also have "\<dots> = req" unfolding m1_def using req(2) by (intro load_store_bytes) simp
  finally have bytes: "load_bytes (avail_push ?q ?h m3) (loc rq ?o) (length req) = req" .
  have i: "load16 m3 (avail_idx ?q) = load16 m0 (avail_idx ?q)"
    unfolding m3_def m1_def using idx by (simp add: avail_idx_store_desc [OF q] queue_after_store [OF d bound req(1)])
  note ap = avail_push_facts(2,3) [OF q, of ?h m3, unfolded i]
  have h: "load16 (avail_push ?q ?h m3) (avail_ring ?q (ucast (load16 m0 (avail_idx ?q)) mod VIRTIO_RING_SIZE)) = ?h" by (rule ap(2))
  show ?thesis
    using run bytes ap descs len by (intro exI [of _ "s\<lparr>memory := avail_push ?q ?h m3\<rparr>"]) (simp add: Let_def s1 h d1_def d2_def)
qed

end
