(* ===== verification/Virtio_Bus.thy ===== *)
theory Virtio_Bus
  imports Gpu
begin

text \<open>
  \<^verbatim>\<open>rng.rs\<close>, and the part of \<^verbatim>\<open>virtio.rs\<close> that stands above the drivers: probing of the bus and the
  routing of interrupts to the driver of the device.
\<close>

section \<open>The entropy device\<close>

record EntropyDevice =
  ed_queue :: usize
  ed_dev :: usize
  ed_idx :: u16
  ed_ack_used_idx :: u16

definition EntropyDevice_new :: EntropyDevice where
  "EntropyDevice_new = \<lparr>ed_queue = null_mut, ed_dev = null_mut, ed_idx = 0, ed_ack_used_idx = 0\<rparr>"

record bus_st = gpu_st +
  ENTROPY_DEVICES :: "EntropyDevice option list"

definition setup_entropy_device :: "device_regs \<Rightarrow> usize \<Rightarrow> 'a bus_st_scheme \<Rightarrow> (bool \<times> 'a bus_st_scheme) option" where
  "setup_entropy_device M ptr s = do {
     idx \<leftarrow> device_index ptr;
     let (good, _, s) = negotiate M (\<lambda>f. f) ptr s;
     if \<not> good then Some (False, s)
     else do {
       (queue_ptr, s) \<leftarrow> install_queue ptr 0 s;
       let s = device_live ptr s;
       let rngdev = \<lparr>ed_queue = queue_ptr, ed_dev = ptr, ed_idx = 0, ed_ack_used_idx = 0\<rparr>;
       devs \<leftarrow> set_slot idx rngdev (ENTROPY_DEVICES s);
       Some (True, s\<lparr>ENTROPY_DEVICES := devs\<rparr>)
     }
   }"

text \<open>The descriptor is built and dropped, the byte read is ignored: the result is always \<^verbatim>\<open>u64::MAX\<close>.\<close>

definition get_random :: "'a bus_st_scheme \<Rightarrow> (u64 \<times> 'a bus_st_scheme) option" where
  "get_random s = do {
     s \<leftarrow> (if \<exists>d \<in> set (ENTROPY_DEVICES s). d \<noteq> None then do {
         (ptr, s) \<leftarrow> kmalloc 8 s;
         kfree ptr s
       } else Some s);
     Some (0 - 1, s)
   }"

section \<open>Probing\<close>

definition setup_network_device :: "usize \<Rightarrow> bool" where
  "setup_network_device ptr = False"

text \<open>\<^verbatim>\<open>VIRTIO_DEVICES[idx] = Some(VirtioDevice::new_with(t))\<close> when the set-up succeeded.\<close>

definition register_device :: "usize \<Rightarrow> DeviceTypes \<Rightarrow> bool \<times> 'a bus_st_scheme \<Rightarrow> 'a bus_st_scheme option" where
  "register_device addr t = (\<lambda>(good, s).
     if \<not> good then Some s
     else do {
       idx \<leftarrow> device_index addr;
       devs \<leftarrow> set_slot idx t (VIRTIO_DEVICES s);
       Some (s\<lparr>VIRTIO_DEVICES := devs\<rparr>)
     })"

definition probe_one :: "device_regs \<Rightarrow> usize \<Rightarrow> 'a bus_st_scheme \<Rightarrow> 'a bus_st_scheme option" where
  "probe_one M addr s =
     (let magicvalue = M addr (MMIO s);
          deviceid = M (addr + 8) (MMIO s)
      in if MMIO_VIRTIO_MAGIC \<noteq> magicvalue then Some s
         else if 0 = deviceid then Some s
         else if deviceid = 1 then (if \<not> setup_network_device addr then Some s else Some s)
         else if deviceid = 2 then do { r \<leftarrow> setup_block_device M addr s; register_device addr BlockDev r }
         else if deviceid = 4 then do { (_, s) \<leftarrow> setup_entropy_device M addr s; Some s }
         else if deviceid = 16 then do { r \<leftarrow> setup_gpu_device M addr s; register_device addr GpuDev r }
         else if deviceid = 18 then do { r \<leftarrow> setup_input_device M addr s; register_device addr InputDev r }
         else Some s)"

text \<open>\<^verbatim>\<open>(MMIO_VIRTIO_START..=MMIO_VIRTIO_END).step_by(MMIO_VIRTIO_STRIDE)\<close>\<close>

definition bus_slots :: "usize list" where
  "bus_slots = map (\<lambda>i. MMIO_VIRTIO_START + of_nat i * MMIO_VIRTIO_STRIDE)
     [0..<Suc (unat ((MMIO_VIRTIO_END - MMIO_VIRTIO_START) div MMIO_VIRTIO_STRIDE))]"

definition probe :: "device_regs \<Rightarrow> 'a bus_st_scheme \<Rightarrow> 'a bus_st_scheme option" where
  "probe M s = for_each (probe_one M) bus_slots s"

section \<open>Interrupts\<close>

definition virtio_handle_interrupt :: "u32 \<Rightarrow> 'a bus_st_scheme \<Rightarrow> 'a bus_st_scheme option" where
  "virtio_handle_interrupt interrupt s = do {
     idx \<leftarrow> usub (ucast interrupt :: usize) 1;
     assert_that (unat idx < length (VIRTIO_DEVICES s));
     case VIRTIO_DEVICES s ! unat idx of
       Some BlockDev \<Rightarrow> block_handle_interrupt (unat idx) s
     | Some GpuDev \<Rightarrow> gpu_handle_interrupt (unat idx) s
     | Some InputDev \<Rightarrow> input_handle_interrupt (unat idx) s
     | _ \<Rightarrow> Some s
   }"

end
