(* ===== verification/Fs.thy ===== *)
theory Fs
  imports Cpu Fs_Data
begin

text \<open>
  \<^verbatim>\<open>fs.rs\<close>: the Minix 3 file system. A \<^verbatim>\<open>Buffer\<close> of the kernel heap is the list of its bytes (the
  contract of the heap makes them private to their owner); an access outside of a buffer gives
  \<open>None\<close>, like a panic. The block device is reached by the system calls
  \<^verbatim>\<open>syscall_block_read\<close> and \<^verbatim>\<open>syscall_block_write\<close>, whose effect depends on the VirtIO hardware: they are
  parameters, in the record \<open>env\<close>, with the contract \<open>device_ok\<close> below. The bytes of memory
  that \<^verbatim>\<open>kmalloc\<close> hands out are arbitrary and a parameter too.
\<close>

section \<open>The environment\<close>

record 'd env =
  syscall_block_read :: "usize \<Rightarrow> u32 \<Rightarrow> u32 \<Rightarrow> 'd \<Rightarrow> u8 \<times> u8 list"
  syscall_block_write :: "usize \<Rightarrow> u8 list \<Rightarrow> u32 \<Rightarrow> 'd \<Rightarrow> u8 \<times> 'd"
  uninit :: "nat \<Rightarrow> u8"

text \<open>\<^verbatim>\<open>Buffer::new(sz)\<close>: \<^verbatim>\<open>kmalloc\<close> rounds the size up to words.\<close>

definition Buffer_new :: "'d env \<Rightarrow> nat \<Rightarrow> u8 list" where
  "Buffer_new E sz = map (uninit E) [0..<(sz + 7) div 8 * 8]"

text \<open>\<^verbatim>\<open>memcpy\<close> between two buffers, from offset to offset.\<close>

definition buf_memcpy :: "nat \<Rightarrow> u8 list \<Rightarrow> nat \<Rightarrow> u8 list \<Rightarrow> nat \<Rightarrow> u8 list option" where
  "buf_memcpy n dst doff src soff =
     (if doff + memcpy_len n \<le> length dst \<and> soff + memcpy_len n \<le> length src
      then Some (splice doff (take (memcpy_len n) (drop soff src)) dst) else None)"

section \<open>Access to the block device\<close>

text \<open>The byte range rounded to blocks: first block, and size in bytes.\<close>

definition block_range :: "u32 \<Rightarrow> u32 \<Rightarrow> u32 \<Rightarrow> (u32 \<times> u32) option" where
  "block_range bsize sz offset = do {
     let block_start = offset div bsize;
     e \<leftarrow> uadd offset sz;
     e \<leftarrow> uadd e bsize;
     e \<leftarrow> usub e 1;
     let block_end = e div bsize;
     n \<leftarrow> usub block_end block_start;
     actual \<leftarrow> umul n bsize;
     Some (block_start, actual)
   }"

definition syc_read :: "'d env \<Rightarrow> usize \<Rightarrow> u8 list \<Rightarrow> u32 \<Rightarrow> u32 \<Rightarrow> 'd \<Rightarrow> (u8 \<times> u8 list) option" where
  "syc_read E bdev buf sz offset d = do {
     (block_start, actual) \<leftarrow> block_range 512 sz offset;
     let temp = replicate (unat actual) 0;
     pos \<leftarrow> umul block_start 512;
     let (r, bytes) = syscall_block_read E bdev actual pos d;
     if r \<noteq> 0 then Some (r, buf)
     else do {
       let temp = splice 0 (take (unat actual) bytes) temp;
       let internal_offset = unat (offset mod 512);
       assert_that (unat sz \<le> length buf);
       Some (0, splice 0 (take (unat sz) (drop internal_offset temp)) buf)
     }
   }"

definition syc_write :: "'d env \<Rightarrow> usize \<Rightarrow> u8 list \<Rightarrow> u32 \<Rightarrow> u32 \<Rightarrow> 'd \<Rightarrow> (u8 \<times> 'd) option" where
  "syc_write E bdev buf sz offset d = do {
     (block_start, actual) \<leftarrow> block_range BLOCK_SIZE sz offset;
     let actual_buffer = Buffer_new E (unat actual);
     pos \<leftarrow> umul block_start BLOCK_SIZE;
     (_, actual_buffer) \<leftarrow> syc_read E bdev actual_buffer actual pos d;
     let internal_offset = unat (offset mod BLOCK_SIZE);
     assert_that (internal_offset + unat sz \<le> unat actual);
     actual_buffer \<leftarrow> buf_memcpy (unat sz) actual_buffer internal_offset buf 0;
     Some (syscall_block_write E bdev (take (unat actual) actual_buffer) pos d)
   }"

section \<open>Inodes\<close>

definition get_inode :: "'d env \<Rightarrow> usize \<Rightarrow> u32 \<Rightarrow> 'd \<Rightarrow> Inode option option" where
  "get_inode E bdev inode_num d = do {
     let buffer = Buffer_new E 1024;
     (_, buffer) \<leftarrow> syc_read E bdev buffer 512 1024 d;
     let super_block = superblock_of buffer;
     if sb_magic super_block = MAGIC then do {
       maps \<leftarrow> uadd 2 (sb_imap_blocks super_block);
       maps \<leftarrow> uadd maps (sb_zmap_blocks super_block);
       base \<leftarrow> umul (ucast maps :: usize) (ucast BLOCK_SIZE);
       idx \<leftarrow> usub (ucast inode_num :: usize) 1;
       rel \<leftarrow> umul (idx div (ucast BLOCK_SIZE div of_nat INODE_SIZE)) (ucast BLOCK_SIZE);
       inode_offset \<leftarrow> uadd base rel;
       (_, buffer) \<leftarrow> syc_read E bdev buffer 1024 (ucast inode_offset) d;
       let read_this_node = unat (idx mod (ucast BLOCK_SIZE div of_nat INODE_SIZE));
       Some (Some (inode_of (take INODE_SIZE (drop (INODE_SIZE * read_this_node) buffer))))
     }
     else Some None
   }"

section \<open>Reading\<close>

text \<open>
  The variables of \<^verbatim>\<open>read\<close>. A loop body returns \<open>True\<close> for an early \<^verbatim>\<open>return\<close>.
\<close>

record read_st =
  r_seen :: u32
  r_off :: u32
  r_left :: u32
  r_read :: u32
  r_dst :: "u8 list"
  r_block :: "u8 list"
  r_ind :: "u8 list"
  r_iind :: "u8 list"
  r_iiind :: "u8 list"

text \<open>A loop over zone pointers that skips zeros; each pointer is fetched when its turn comes.\<close>

fun ptr_loop :: "('s \<Rightarrow> nat \<Rightarrow> u32) \<Rightarrow> (u32 \<Rightarrow> 's \<Rightarrow> (bool \<times> 's) option) \<Rightarrow> nat list \<Rightarrow> 's \<Rightarrow> (bool \<times> 's) option" where
  "ptr_loop get f [] s = Some (False, s)"
| "ptr_loop get f (i # is) s =
     (if get s i = 0 then ptr_loop get f is s
      else do {
        (fin, s') \<leftarrow> f (get s i) s;
        if fin then Some (True, s') else ptr_loop get f is s'
      })"

text \<open>Go on with the next part of the function unless it has returned.\<close>

definition or_return :: "(bool \<times> 's) option \<Rightarrow> ('s \<Rightarrow> (bool \<times> 's) option) \<Rightarrow> (bool \<times> 's) option" where
  "or_return x f = do { (fin, s) \<leftarrow> x; if fin then Some (True, s) else f s }"

definition read_zone :: "'d env \<Rightarrow> usize \<Rightarrow> 'd \<Rightarrow> u32 \<Rightarrow> u32 \<Rightarrow> read_st \<Rightarrow> (bool \<times> read_st) option" where
  "read_zone E bdev d offset_block zone st =
     or_return
       (if offset_block \<le> r_seen st then do {
          zone_offset \<leftarrow> umul zone BLOCK_SIZE;
          (_, block_buffer) \<leftarrow> syc_read E bdev (r_block st) BLOCK_SIZE zone_offset d;
          room \<leftarrow> usub BLOCK_SIZE (r_off st);
          let read_this_many = (if room > r_left st then r_left st else room);
          dst \<leftarrow> buf_memcpy (unat read_this_many) (r_dst st) (unat (r_read st)) block_buffer (unat (r_off st));
          bytes_read \<leftarrow> uadd (r_read st) read_this_many;
          bytes_left \<leftarrow> usub (r_left st) read_this_many;
          Some (bytes_left = 0, st\<lparr>r_block := block_buffer, r_dst := dst, r_off := 0, r_read := bytes_read, r_left := bytes_left\<rparr>)
        } else Some (False, st))
       (\<lambda>st. do { seen \<leftarrow> uadd (r_seen st) 1; Some (False, st\<lparr>r_seen := seen\<rparr>) })"

definition read_direct :: "'d env \<Rightarrow> usize \<Rightarrow> 'd \<Rightarrow> u32 \<Rightarrow> Inode \<Rightarrow> read_st \<Rightarrow> (bool \<times> read_st) option" where
  "read_direct E bdev d ob inode st =
     ptr_loop (\<lambda>_ i. i_zones inode ! i) (read_zone E bdev d ob) [0..<7] st"

definition read_indirect :: "'d env \<Rightarrow> usize \<Rightarrow> 'd \<Rightarrow> u32 \<Rightarrow> Inode \<Rightarrow> read_st \<Rightarrow> (bool \<times> read_st) option" where
  "read_indirect E bdev d ob inode st =
     (if i_zones inode ! 7 \<noteq> 0 then do {
        pos \<leftarrow> umul BLOCK_SIZE (i_zones inode ! 7);
        (_, b) \<leftarrow> syc_read E bdev (r_ind st) BLOCK_SIZE pos d;
        ptr_loop (\<lambda>s i. zone_ptr (r_ind s) i) (read_zone E bdev d ob) [0..<NUM_IPTRS] (st\<lparr>r_ind := b\<rparr>)
      } else Some (False, st))"

definition read_iindirect :: "'d env \<Rightarrow> usize \<Rightarrow> 'd \<Rightarrow> u32 \<Rightarrow> Inode \<Rightarrow> read_st \<Rightarrow> (bool \<times> read_st) option" where
  "read_iindirect E bdev d ob inode st =
     (if i_zones inode ! 8 \<noteq> 0 then do {
        pos \<leftarrow> umul BLOCK_SIZE (i_zones inode ! 8);
        (_, b) \<leftarrow> syc_read E bdev (r_ind st) BLOCK_SIZE pos d;
        ptr_loop (\<lambda>s i. zone_ptr (r_ind s) i) (\<lambda>z st. do {
            pos \<leftarrow> umul BLOCK_SIZE z;
            (_, b) \<leftarrow> syc_read E bdev (r_iind st) BLOCK_SIZE pos d;
            ptr_loop (\<lambda>s j. zone_ptr (r_iind s) j) (read_zone E bdev d ob) [0..<NUM_IPTRS] (st\<lparr>r_iind := b\<rparr>)
          }) [0..<NUM_IPTRS] (st\<lparr>r_ind := b\<rparr>)
      } else Some (False, st))"

definition read_iiindirect :: "'d env \<Rightarrow> usize \<Rightarrow> 'd \<Rightarrow> u32 \<Rightarrow> Inode \<Rightarrow> read_st \<Rightarrow> (bool \<times> read_st) option" where
  "read_iiindirect E bdev d ob inode st =
     (if i_zones inode ! 9 \<noteq> 0 then do {
        pos \<leftarrow> umul BLOCK_SIZE (i_zones inode ! 9);
        (_, b) \<leftarrow> syc_read E bdev (r_ind st) BLOCK_SIZE pos d;
        ptr_loop (\<lambda>s i. zone_ptr (r_ind s) i) (\<lambda>z st. do {
            pos \<leftarrow> umul BLOCK_SIZE z;
            (_, b) \<leftarrow> syc_read E bdev (r_iind st) BLOCK_SIZE pos d;
            ptr_loop (\<lambda>s j. zone_ptr (r_iind s) j) (\<lambda>z st. do {
                pos \<leftarrow> umul BLOCK_SIZE z;
                (_, b) \<leftarrow> syc_read E bdev (r_iiind st) BLOCK_SIZE pos d;
                ptr_loop (\<lambda>s k. zone_ptr (r_iiind s) k) (read_zone E bdev d ob) [0..<NUM_IPTRS] (st\<lparr>r_iiind := b\<rparr>)
              }) [0..<NUM_IPTRS] (st\<lparr>r_iind := b\<rparr>)
          }) [0..<NUM_IPTRS] (st\<lparr>r_ind := b\<rparr>)
      } else Some (False, st))"

text \<open>\<^verbatim>\<open>MinixFileSystem::read\<close>: the number of bytes read, and the buffer behind the pointer afterwards.\<close>

definition fs_read :: "'d env \<Rightarrow> usize \<Rightarrow> Inode \<Rightarrow> u8 list \<Rightarrow> u32 \<Rightarrow> u32 \<Rightarrow> 'd \<Rightarrow> (u32 \<times> u8 list) option" where
  "fs_read E bdev inode buffer sz offset d = do {
     let ob = offset div BLOCK_SIZE;
     let b = Buffer_new E (unat BLOCK_SIZE);
     let st = \<lparr>r_seen = 0, r_off = offset mod BLOCK_SIZE,
               r_left = (if sz > i_size inode then i_size inode else sz), r_read = 0, r_dst = buffer,
               r_block = b, r_ind = b, r_iind = b, r_iiind = b\<rparr>;
     (_, st) \<leftarrow>
       or_return (or_return (or_return (read_direct E bdev d ob inode st) (read_indirect E bdev d ob inode))
         (read_iindirect E bdev d ob inode)) (read_iiindirect E bdev d ob inode);
     Some (r_read st, r_dst st)
   }"

section \<open>Writing\<close>

record 'd write_st =
  w_seen :: u32
  w_off :: u32
  w_left :: u32
  w_written :: u32
  w_dev :: 'd
  w_ind :: "u8 list"
  w_iind :: "u8 list"
  w_iiind :: "u8 list"

definition write_zone :: "'d env \<Rightarrow> usize \<Rightarrow> u8 list \<Rightarrow> u32 \<Rightarrow> u32 \<Rightarrow> u32 \<Rightarrow> 'd write_st \<Rightarrow> (bool \<times> 'd write_st) option" where
  "write_zone E bdev buffer sz offset_block zone st =
     or_return
       (if offset_block \<le> w_seen st then do {
          zone_offset \<leftarrow> umul zone BLOCK_SIZE;
          (_, dev) \<leftarrow> syc_write E bdev buffer sz zone_offset (w_dev st);
          room \<leftarrow> usub BLOCK_SIZE (w_off st);
          let write_this_many = (if room > w_left st then w_left st else room);
          bytes_write \<leftarrow> uadd (w_written st) write_this_many;
          bytes_left \<leftarrow> usub (w_left st) write_this_many;
          Some (bytes_left = 0, st\<lparr>w_dev := dev, w_off := 0, w_written := bytes_write, w_left := bytes_left\<rparr>)
        } else Some (False, st))
       (\<lambda>st. do { seen \<leftarrow> uadd (w_seen st) 1; Some (False, st\<lparr>w_seen := seen\<rparr>) })"

definition write_direct :: "'d env \<Rightarrow> usize \<Rightarrow> u8 list \<Rightarrow> u32 \<Rightarrow> u32 \<Rightarrow> Inode \<Rightarrow> 'd write_st \<Rightarrow> (bool \<times> 'd write_st) option" where
  "write_direct E bdev buffer sz ob inode st =
     ptr_loop (\<lambda>_ i. i_zones inode ! i) (write_zone E bdev buffer sz ob) [0..<7] st"

definition write_indirect :: "'d env \<Rightarrow> usize \<Rightarrow> u8 list \<Rightarrow> u32 \<Rightarrow> u32 \<Rightarrow> Inode \<Rightarrow> 'd write_st \<Rightarrow> (bool \<times> 'd write_st) option" where
  "write_indirect E bdev buffer sz ob inode st =
     (if i_zones inode ! 7 \<noteq> 0 then do {
        pos \<leftarrow> umul BLOCK_SIZE (i_zones inode ! 7);
        (_, b) \<leftarrow> syc_read E bdev (w_ind st) BLOCK_SIZE pos (w_dev st);
        ptr_loop (\<lambda>s i. zone_ptr (w_ind s) i) (write_zone E bdev buffer sz ob) [0..<NUM_IPTRS] (st\<lparr>w_ind := b\<rparr>)
      } else Some (False, st))"

text \<open>
  The pointer \<^verbatim>\<open>iizones\<close> of \<^verbatim>\<open>write\<close> points into \<^verbatim>\<open>iiindirect_buffer\<close>, while the block of doubly indirect
  pointers is read into \<^verbatim>\<open>iindirect_buffer\<close>.
\<close>

definition write_iindirect :: "'d env \<Rightarrow> usize \<Rightarrow> u8 list \<Rightarrow> u32 \<Rightarrow> u32 \<Rightarrow> Inode \<Rightarrow> 'd write_st \<Rightarrow> (bool \<times> 'd write_st) option" where
  "write_iindirect E bdev buffer sz ob inode st =
     (if i_zones inode ! 8 \<noteq> 0 then do {
        pos \<leftarrow> umul BLOCK_SIZE (i_zones inode ! 8);
        (_, b) \<leftarrow> syc_read E bdev (w_ind st) BLOCK_SIZE pos (w_dev st);
        ptr_loop (\<lambda>s i. zone_ptr (w_ind s) i) (\<lambda>z st. do {
            pos \<leftarrow> umul BLOCK_SIZE z;
            (_, b) \<leftarrow> syc_read E bdev (w_iind st) BLOCK_SIZE pos (w_dev st);
            ptr_loop (\<lambda>s j. zone_ptr (w_iiind s) j) (write_zone E bdev buffer sz ob) [0..<NUM_IPTRS] (st\<lparr>w_iind := b\<rparr>)
          }) [0..<NUM_IPTRS] (st\<lparr>w_ind := b\<rparr>)
      } else Some (False, st))"

definition write_iiindirect :: "'d env \<Rightarrow> usize \<Rightarrow> u8 list \<Rightarrow> u32 \<Rightarrow> u32 \<Rightarrow> Inode \<Rightarrow> 'd write_st \<Rightarrow> (bool \<times> 'd write_st) option" where
  "write_iiindirect E bdev buffer sz ob inode st =
     (if i_zones inode ! 9 \<noteq> 0 then do {
        pos \<leftarrow> umul BLOCK_SIZE (i_zones inode ! 9);
        (_, b) \<leftarrow> syc_read E bdev (w_ind st) BLOCK_SIZE pos (w_dev st);
        ptr_loop (\<lambda>s i. zone_ptr (w_ind s) i) (\<lambda>z st. do {
            pos \<leftarrow> umul BLOCK_SIZE z;
            (_, b) \<leftarrow> syc_read E bdev (w_iind st) BLOCK_SIZE pos (w_dev st);
            ptr_loop (\<lambda>s j. zone_ptr (w_iiind s) j) (\<lambda>z st. do {
                pos \<leftarrow> umul BLOCK_SIZE z;
                (_, b) \<leftarrow> syc_read E bdev (w_iiind st) BLOCK_SIZE pos (w_dev st);
                ptr_loop (\<lambda>s k. zone_ptr (w_iiind s) k) (write_zone E bdev buffer sz ob) [0..<NUM_IPTRS] (st\<lparr>w_iiind := b\<rparr>)
              }) [0..<NUM_IPTRS] (st\<lparr>w_iind := b\<rparr>)
          }) [0..<NUM_IPTRS] (st\<lparr>w_ind := b\<rparr>)
      } else Some (False, st))"

text \<open>\<^verbatim>\<open>MinixFileSystem::write\<close>: an early return leaves the size in the inode as it was.\<close>

definition fs_write :: "'d env \<Rightarrow> usize \<Rightarrow> Inode \<Rightarrow> u8 list \<Rightarrow> u32 \<Rightarrow> u32 \<Rightarrow> 'd \<Rightarrow> (u32 \<times> Inode \<times> 'd) option" where
  "fs_write E bdev inode buffer sz offset d = do {
     let ob = offset div BLOCK_SIZE;
     let b = Buffer_new E (unat BLOCK_SIZE);
     let st = \<lparr>w_seen = 0, w_off = offset mod BLOCK_SIZE, w_left = sz, w_written = 0, w_dev = d,
               w_ind = b, w_iind = b, w_iiind = b\<rparr>;
     (fin, st) \<leftarrow>
       or_return (or_return (or_return (write_direct E bdev buffer sz ob inode st) (write_indirect E bdev buffer sz ob inode))
         (write_iindirect E bdev buffer sz ob inode)) (write_iiindirect E bdev buffer sz ob inode);
     Some (w_written st, if fin then inode else inode\<lparr>i_size := w_written st\<rparr>, w_dev st)
   }"

section \<open>The inode cache\<close>

text \<open>
  A Rust \<^verbatim>\<open>String\<close> is the list of its UTF-8 bytes. Pushing a byte as a \<^verbatim>\<open>char\<close> encodes the code point
  of that number.
\<close>

type_synonym rust_string = "u8 list"

definition push_char :: "u8 \<Rightarrow> rust_string \<Rightarrow> rust_string" where
  "push_char b s = s @ (if b < 128 then [b] else [0xc0 OR drop_bit 6 b, 0x80 OR (b AND 0x3f)])"

type_synonym inode_cache = "rust_string \<rightharpoonup> Inode"

record 'd fs_st =
  dev :: 'd
  MFS_INODE_CACHE :: "inode_cache option list"

text \<open>The bytes of a name up to the first zero.\<close>

definition dirent_name :: "DirEntry \<Rightarrow> u8 list" where
  "dirent_name e = takeWhile (\<lambda>b. b \<noteq> 0) (d_name e)"

definition child_path :: "rust_string \<Rightarrow> u32 \<Rightarrow> DirEntry \<Rightarrow> rust_string" where
  "child_path cwd inode_num e =
     (let new_cwd = fold push_char cwd [];
          new_cwd = (if inode_num \<noteq> 1 then push_char 47 new_cwd else new_cwd)
      in fold push_char (dirent_name e) new_cwd)"

text \<open>The directory buffer: \<^verbatim>\<open>(size + BLOCK_SIZE - 1) & !BLOCK_SIZE\<close> bytes.\<close>

definition dir_buffer :: "'d env \<Rightarrow> Inode \<Rightarrow> u8 list option" where
  "dir_buffer E ino = do {
     n \<leftarrow> uadd (i_size ino) BLOCK_SIZE;
     n \<leftarrow> usub n 1;
     Some (Buffer_new E (unat (n AND NOT BLOCK_SIZE)))
   }"

definition dirent_at :: "u8 list \<Rightarrow> nat \<Rightarrow> DirEntry option" where
  "dirent_at buf i =
     (if DIRENT_SIZE * i + DIRENT_SIZE \<le> length buf then Some (dirent_of (take DIRENT_SIZE (drop (DIRENT_SIZE * i) buf))) else None)"

text \<open>
  The recursion of \<^verbatim>\<open>cache_at\<close> follows the directories of the disk, which may contain a cycle. The
  first argument bounds its depth; \<open>None\<close> when it is used up.
\<close>

fun cache_at :: "nat \<Rightarrow> 'd env \<Rightarrow> inode_cache \<Rightarrow> rust_string \<Rightarrow> u32 \<Rightarrow> usize \<Rightarrow> 'd \<Rightarrow> inode_cache option" where
  "cache_at 0 E btm cwd inode_num bdev d = None"
| "cache_at (Suc depth) E btm cwd inode_num bdev d = do {
     ino \<leftarrow> get_inode E bdev inode_num d;
     ino \<leftarrow> ino;
     buf \<leftarrow> dir_buffer E ino;
     (sz, buf) \<leftarrow> fs_read E bdev ino buf BLOCK_SIZE 0 d;
     let num_dirents = unat sz div DIRENT_SIZE;
     for_each (\<lambda>i btm. do {
         e \<leftarrow> dirent_at buf i;
         if d_inode e = 0 then Some btm
         else do {
           d_ino \<leftarrow> get_inode E bdev (d_inode e) d;
           d_ino \<leftarrow> d_ino;
           let new_cwd = child_path cwd inode_num e;
           if i_mode d_ino AND S_IFDIR \<noteq> 0 then cache_at depth E btm new_cwd (d_inode e) bdev d
           else Some (btm(new_cwd \<mapsto> d_ino))
         }
       }) [2..<num_dirents] btm
   }"

text \<open>\<^verbatim>\<open>MFS_INODE_CACHE[bdev - 1]\<close>, with the bounds check of the array.\<close>

definition cache_slot :: "usize \<Rightarrow> 'd fs_st \<Rightarrow> nat option" where
  "cache_slot bdev s = do {
     i \<leftarrow> usub bdev 1;
     assert_that (unat i < length (MFS_INODE_CACHE s));
     Some (unat i)
   }"

definition refresh :: "nat \<Rightarrow> 'd env \<Rightarrow> usize \<Rightarrow> 'd fs_st \<Rightarrow> 'd fs_st option" where
  "refresh depth E bdev s = do {
     btm \<leftarrow> cache_at depth E Map.empty [47] 1 bdev (dev s);
     i \<leftarrow> cache_slot bdev s;
     Some (s\<lparr>MFS_INODE_CACHE := (MFS_INODE_CACHE s)[i := Some btm]\<rparr>)
   }"

definition fs_init :: "nat \<Rightarrow> 'd env \<Rightarrow> usize \<Rightarrow> 'd fs_st \<Rightarrow> 'd fs_st option" where
  "fs_init depth E bdev s = do {
     i \<leftarrow> cache_slot bdev s;
     if MFS_INODE_CACHE s ! i = None then do {
       btm \<leftarrow> cache_at depth E Map.empty [47] 1 bdev (dev s);
       Some (s\<lparr>MFS_INODE_CACHE := (MFS_INODE_CACHE s)[i := Some btm]\<rparr>)
     } else Some s
   }"

definition fs_open :: "usize \<Rightarrow> rust_string \<Rightarrow> 'd fs_st \<Rightarrow> (FsError + Inode) option" where
  "fs_open bdev path s = do {
     i \<leftarrow> cache_slot bdev s;
     Some (case MFS_INODE_CACHE s ! i of
         None \<Rightarrow> Inl FileNotFound
       | Some cache \<Rightarrow> (case cache path of Some inode \<Rightarrow> Inr inode | None \<Rightarrow> Inl FileNotFound))
   }"

definition fs_stat :: "Inode \<Rightarrow> Stat" where
  "fs_stat inode = \<lparr>st_mode = i_mode inode, st_size = i_size inode, st_uid = i_uid inode, st_gid = i_gid inode\<rparr>"

section \<open>Bitmaps and offsets\<close>

definition get_imap_offset :: "usize \<Rightarrow> usize option" where
  "get_imap_offset inode_num = do {
     base \<leftarrow> umul 2 (ucast BLOCK_SIZE);
     i \<leftarrow> usub inode_num 1;
     uadd base (i div 8)
   }"

definition get_zmap_offset :: "usize \<Rightarrow> usize option" where
  "get_zmap_offset zone_num = do {
     base \<leftarrow> umul (2 + 2) (ucast BLOCK_SIZE);
     uadd base (zone_num div 8)
   }"

definition get_inode_offset :: "usize \<Rightarrow> usize option" where
  "get_inode_offset inode_num = do {
     i \<leftarrow> usub inode_num 2;
     r \<leftarrow> umul i 0x40;
     uadd 0x2048 r
   }"

definition get_zone_offset :: "usize \<Rightarrow> usize option" where
  "get_zone_offset zone_num = umul zone_num (ucast BLOCK_SIZE)"

text \<open>The bits of a byte in which \<^verbatim>\<open>byte & (1 << j)\<close> is 0, lowest first.\<close>

definition free_bit :: "u8 \<Rightarrow> nat option" where
  "free_bit byte = find (\<lambda>j. byte AND push_bit j 1 = 0) [0..<8]"

text \<open>The two inner loops; the byte index \<open>i\<close> of the buffer hides the index of the block.\<close>

fun scan_imap :: "u8 list \<Rightarrow> nat list \<Rightarrow> u32 option" where
  "scan_imap buffer [] = None"
| "scan_imap buffer (i # is) =
     (case free_bit (buffer ! i) of
        Some j \<Rightarrow> Some (ucast (of_nat i * ucast BLOCK_SIZE + of_nat j :: usize))
      | None \<Rightarrow> scan_imap buffer is)"

fun scan_imap_blocks :: "'d env \<Rightarrow> usize \<Rightarrow> 'd \<Rightarrow> nat list \<Rightarrow> u8 list \<Rightarrow> u32 option option" where
  "scan_imap_blocks E bdev d [] buffer = Some None"
| "scan_imap_blocks E bdev d (i # is) buffer = do {
     (_, buffer) \<leftarrow> syc_read E bdev buffer BLOCK_SIZE (ucast ((2 + of_nat i) * ucast BLOCK_SIZE :: usize)) d;
     case scan_imap buffer [0..<1024] of
       Some n \<Rightarrow> Some (Some n)
     | None \<Rightarrow> scan_imap_blocks E bdev d is buffer
   }"

definition find_free_inode :: "'d env \<Rightarrow> usize \<Rightarrow> 'd \<Rightarrow> u32 option option" where
  "find_free_inode E bdev d = do {
     let buffer = Buffer_new E 1024;
     (_, buffer) \<leftarrow> syc_read E bdev buffer 1024 1024 d;
     scan_imap_blocks E bdev d [0..<unat (sb_imap_blocks (superblock_of buffer))] buffer
   }"

text \<open>Step 4 of both \<^verbatim>\<open>delete\<close> and \<^verbatim>\<open>create\<close>: change the first byte at the imap offset.\<close>

definition update_imap :: "'d env \<Rightarrow> usize \<Rightarrow> (u8 \<Rightarrow> u8) \<Rightarrow> usize \<Rightarrow> 'd \<Rightarrow> 'd option" where
  "update_imap E bdev f inode_num d = do {
     imap_offset \<leftarrow> get_imap_offset inode_num;
     let imap_buffer = Buffer_new E 512;
     (_, imap_buffer) \<leftarrow> syc_read E bdev imap_buffer 512 (ucast imap_offset) d;
     let imap_buffer = imap_buffer[0 := f (imap_buffer ! 0)];
     (_, d) \<leftarrow> syc_write E bdev imap_buffer 512 (ucast imap_offset) d;
     Some d
   }"

section \<open>Deleting and creating\<close>

definition join_path :: "rust_string \<Rightarrow> rust_string \<Rightarrow> rust_string" where
  "join_path cwd name = (if cwd \<noteq> [] \<and> last cwd = 47 then cwd else push_char 47 cwd) @ name"

text \<open>The loop over directory entries that clears the first entry with the inode number.\<close>

fun clear_dirent :: "'d env \<Rightarrow> usize \<Rightarrow> rust_string \<Rightarrow> u32 \<Rightarrow> Inode \<Rightarrow> u32 \<Rightarrow> u8 list \<Rightarrow> nat list \<Rightarrow> inode_cache \<times> 'd \<Rightarrow> (inode_cache \<times> 'd) option" where
  "clear_dirent E bdev cwd inode_num ino sz buf [] (btm, d) = Some (btm, d)"
| "clear_dirent E bdev cwd inode_num ino sz buf (i # is) (btm, d) = do {
     e \<leftarrow> dirent_at buf i;
     if d_inode e = inode_num then do {
       let buf = splice (DIRENT_SIZE * i) (to_le 4 (0 :: u32)) buf;
       (_, _, d) \<leftarrow> fs_write E bdev ino buf sz 0 d;
       let path_to_remove = fold push_char (dirent_name e) (join_path cwd []);
       Some (btm(path_to_remove := None), d)
     }
     else clear_dirent E bdev cwd inode_num ino sz buf is (btm, d)
   }"

definition delete_inode_and_direntry :: "'d env \<Rightarrow> inode_cache \<Rightarrow> rust_string \<Rightarrow> u32 \<Rightarrow> usize \<Rightarrow> 'd \<Rightarrow> (inode_cache \<times> 'd) option" where
  "delete_inode_and_direntry E btm cwd inode_num bdev d = do {
     ino \<leftarrow> get_inode E bdev 1 d;
     case ino of
       None \<Rightarrow> Some (btm, d)
     | Some ino \<Rightarrow> do {
         buf \<leftarrow> dir_buffer E ino;
         (sz, buf) \<leftarrow> fs_read E bdev ino buf BLOCK_SIZE 0 d;
         let num_dirents = unat sz div DIRENT_SIZE;
         (btm, d) \<leftarrow> clear_dirent E bdev cwd inode_num ino sz buf [2..<num_dirents] (btm, d);
         d \<leftarrow> update_imap E bdev (\<lambda>b. b AND NOT (push_bit (unat (inode_num mod 8)) 1)) (ucast inode_num) d;
         Some (btm, d)
       }
   }"

definition fs_delete :: "nat \<Rightarrow> 'd env \<Rightarrow> usize \<Rightarrow> rust_string \<Rightarrow> usize \<Rightarrow> 'd fs_st \<Rightarrow> 'd fs_st option" where
  "fs_delete depth E bdev path inode_num s = do {
     i \<leftarrow> cache_slot bdev s;
     s \<leftarrow> (case MFS_INODE_CACHE s ! i of
         None \<Rightarrow> Some s
       | Some cache \<Rightarrow> do {
           (cache, d) \<leftarrow> delete_inode_and_direntry E cache path (ucast inode_num) bdev (dev s);
           Some (s\<lparr>dev := d, MFS_INODE_CACHE := (MFS_INODE_CACHE s)[i := Some cache]\<rparr>)
         });
     refresh depth E bdev s
   }"

definition new_inode :: Inode where
  "new_inode = \<lparr>i_mode = 0x1a4, i_nlinks = 1, i_uid = 0, i_gid = 0, i_size = 0, i_atime = 0, i_mtime = 0, i_ctime = 0,
     i_zones = replicate 10 0\<rparr>"

definition create_new_file :: "'d env \<Rightarrow> inode_cache \<Rightarrow> rust_string \<Rightarrow> rust_string \<Rightarrow> usize \<Rightarrow> 'd \<Rightarrow> (inode_cache \<times> 'd) option" where
  "create_new_file E btm cwd filename bdev d = do {
     free_inode_num \<leftarrow> find_free_inode E bdev d;
     free_inode_num \<leftarrow> free_inode_num;
     case btm cwd of
       None \<Rightarrow> Some (btm, d)
     | Some parent_inode \<Rightarrow> do {
         let new_direntry = \<lparr>d_inode = free_inode_num, d_name = take 60 filename @ replicate (60 - length filename) 0\<rparr>;
         buf \<leftarrow> dir_buffer E parent_inode;
         (sz, buf) \<leftarrow> fs_read E bdev parent_inode buf BLOCK_SIZE 0 d;
         let pos = DIRENT_SIZE * (unat sz div DIRENT_SIZE);
         assert_that (pos + DIRENT_SIZE \<le> length buf);
         let buf = splice pos (dirent_bytes new_direntry) buf;
         d \<leftarrow> update_imap E bdev (\<lambda>b. b OR push_bit (unat (free_inode_num mod 8)) 1) (ucast free_inode_num) d;
         new_inode_offset \<leftarrow> get_inode_offset (ucast free_inode_num);
         let new_inode_buffer = splice 0 (inode_bytes new_inode) (Buffer_new E INODE_SIZE);
         (_, ino, d) \<leftarrow> fs_write E bdev new_inode new_inode_buffer (of_nat INODE_SIZE) (ucast new_inode_offset) d;
         Some (btm(join_path cwd filename \<mapsto> ino), d)
       }
   }"

definition fs_create :: "nat \<Rightarrow> 'd env \<Rightarrow> usize \<Rightarrow> rust_string \<Rightarrow> rust_string \<Rightarrow> 'd fs_st \<Rightarrow> 'd fs_st option" where
  "fs_create depth E bdev cwd filename s = do {
     i \<leftarrow> cache_slot bdev s;
     s \<leftarrow> (case MFS_INODE_CACHE s ! i of
         None \<Rightarrow> Some s
       | Some cache \<Rightarrow> do {
           (cache, d) \<leftarrow> create_new_file E cache cwd filename bdev (dev s);
           Some (s\<lparr>dev := d, MFS_INODE_CACHE := (MFS_INODE_CACHE s)[i := Some cache]\<rparr>)
         });
     refresh depth E bdev s
   }"

end
