(* ===== verification/Plic.thy ===== *)
theory Plic
  imports Virtio_Bus Fs
begin

text \<open>
  \<^verbatim>\<open>uart.rs\<close> and \<^verbatim>\<open>plic.rs\<close>: the serial port and the interrupt controller. Bytes written to the
  serial port are recorded in the log \<open>UART\<close>; what its registers return is a parameter, as for the VirtIO
  registers.
\<close>

section \<open>The serial port\<close>

record plic_st = bus_st +
  UART :: "(usize \<times> u8) list"

type_synonym uart_regs = "usize \<Rightarrow> (usize \<times> u8) list \<Rightarrow> u8"

definition UART_BASE :: usize where "UART_BASE = 0x10000000"

definition uart_write :: "usize \<Rightarrow> u8 \<Rightarrow> 'a plic_st_scheme \<Rightarrow> 'a plic_st_scheme" where
  "uart_write a v s = s\<lparr>UART := UART s @ [(a, v)]\<rparr>"

text \<open>\<^verbatim>\<open>u16\<close> to \<^verbatim>\<open>u8\<close> with \<^verbatim>\<open>try_into().unwrap()\<close>\<close>

definition try_into_u8 :: "u16 \<Rightarrow> u8 option" where
  "try_into_u8 v = (if v < 256 then Some (ucast v) else None)"

definition uart_init :: "usize \<Rightarrow> 'a plic_st_scheme \<Rightarrow> 'a plic_st_scheme option" where
  "uart_init base s = do {
     let lcr = push_bit 0 1 OR push_bit 1 1;
     let s = uart_write (base + 3) lcr s;
     let s = uart_write (base + 2) (push_bit 0 1) s;
     let s = uart_write (base + 1) (push_bit 0 1) s;
     let divisor = (592 :: u16);
     divisor_least \<leftarrow> try_into_u8 (divisor AND 0xff);
     divisor_most \<leftarrow> try_into_u8 (drop_bit 8 divisor);
     let s = uart_write (base + 3) (lcr OR push_bit 7 1) s;
     let s = uart_write (base + 0) divisor_least s;
     let s = uart_write (base + 1) divisor_most s;
     Some (uart_write (base + 3) lcr s)
   }"

definition uart_put :: "usize \<Rightarrow> u8 \<Rightarrow> 'a plic_st_scheme \<Rightarrow> 'a plic_st_scheme" where
  "uart_put base c s = uart_write (base + 0) c s"

definition uart_get :: "uart_regs \<Rightarrow> usize \<Rightarrow> 'a plic_st_scheme \<Rightarrow> u8 option" where
  "uart_get U base s = (if U (base + 5) (UART s) AND 1 = 0 then None else Some (U (base + 0) (UART s)))"

text \<open>\<^verbatim>\<open>write_str\<close>, which is what \<^verbatim>\<open>print!\<close> does with the bytes of the formatted string.\<close>

definition write_str :: "usize \<Rightarrow> rust_string \<Rightarrow> 'a plic_st_scheme \<Rightarrow> 'a plic_st_scheme" where
  "write_str base out s = fold (uart_put base) out s"

text \<open>\<^verbatim>\<open>print!("{}", c as char)\<close>: a byte of 128 or more becomes a character of two bytes.\<close>

definition print_char :: "u8 \<Rightarrow> 'a plic_st_scheme \<Rightarrow> 'a plic_st_scheme" where
  "print_char c s = write_str UART_BASE (push_char c []) s"

definition uart_handle_interrupt :: "uart_regs \<Rightarrow> 'a plic_st_scheme \<Rightarrow> 'a plic_st_scheme option" where
  "uart_handle_interrupt U s =
     (case uart_get U UART_BASE s of
        None \<Rightarrow> Some s
      | Some c \<Rightarrow> do {
          s \<leftarrow> push_stdin c s;
          Some (if c = 8 then write_str UART_BASE [8, 32, 8] s
                else if c = 10 \<or> c = 13 then write_str UART_BASE [13, 10] s
                else print_char c s)
        })"

section \<open>The interrupt controller\<close>

definition PLIC_PRIORITY :: usize where "PLIC_PRIORITY = 0x0c000000"
definition PLIC_PENDING :: usize where "PLIC_PENDING = 0x0c001000"
definition PLIC_INT_ENABLE :: usize where "PLIC_INT_ENABLE = 0x0c002000"
definition PLIC_THRESHOLD :: usize where "PLIC_THRESHOLD = 0x0c200000"
definition PLIC_CLAIM :: usize where "PLIC_CLAIM = 0x0c200004"

definition mmio_write :: "usize \<Rightarrow> u32 \<Rightarrow> 'a virtio_st_scheme \<Rightarrow> 'a virtio_st_scheme" where
  "mmio_write a v s = s\<lparr>MMIO := MMIO s @ [(a, v)]\<rparr>"

definition plic_next :: "device_regs \<Rightarrow> 'a virtio_st_scheme \<Rightarrow> u32 option" where
  "plic_next M s = (let claim_no = M PLIC_CLAIM (MMIO s) in if claim_no = 0 then None else Some claim_no)"

definition plic_complete :: "u32 \<Rightarrow> 'a virtio_st_scheme \<Rightarrow> 'a virtio_st_scheme" where
  "plic_complete n s = mmio_write PLIC_CLAIM n s"

definition set_threshold :: "u8 \<Rightarrow> 'a virtio_st_scheme \<Rightarrow> 'a virtio_st_scheme" where
  "set_threshold tsh s = mmio_write PLIC_THRESHOLD (ucast (tsh AND 7)) s"

definition is_pending :: "device_regs \<Rightarrow> u32 \<Rightarrow> 'a virtio_st_scheme \<Rightarrow> bool option" where
  "is_pending M n s = do {
     actual_id \<leftarrow> ushl (1 :: u32) (ucast n);
     Some (actual_id AND M PLIC_PENDING (MMIO s) \<noteq> 0)
   }"

definition plic_enable :: "device_regs \<Rightarrow> u32 \<Rightarrow> 'a virtio_st_scheme \<Rightarrow> 'a virtio_st_scheme option" where
  "plic_enable M n s = do {
     actual_id \<leftarrow> ushl (1 :: u32) (ucast n);
     Some (mmio_write PLIC_INT_ENABLE (M PLIC_INT_ENABLE (MMIO s) OR actual_id) s)
   }"

definition set_priority :: "u32 \<Rightarrow> u8 \<Rightarrow> 'a virtio_st_scheme \<Rightarrow> 'a virtio_st_scheme" where
  "set_priority n prio s = mmio_write (PLIC_PRIORITY + 4 * ucast n) (ucast prio AND 7) s"

definition plic_handle_interrupt :: "device_regs \<Rightarrow> uart_regs \<Rightarrow> 'a plic_st_scheme \<Rightarrow> 'a plic_st_scheme option" where
  "plic_handle_interrupt M U s =
     (case plic_next M s of
        None \<Rightarrow> Some s
      | Some interrupt \<Rightarrow> do {
          s \<leftarrow> (if 1 \<le> interrupt \<and> interrupt \<le> 8 then virtio_handle_interrupt interrupt s
               else if interrupt = 10 then uart_handle_interrupt U s
               else Some s);
          Some (plic_complete interrupt s)
        })"

end
