(* ===== verification/Elf.thy ===== *)
theory Elf
  imports Process Fs
begin

text \<open>
  \<^verbatim>\<open>elf.rs\<close>: parsing of an executable and creation of the user process that runs it. The file is a
  \<^verbatim>\<open>Buffer\<close>, a list of bytes; the memory of the process lies in pages of the page allocator.
\<close>

section \<open>Data\<close>

definition ELF_MAGIC :: u32 where "ELF_MAGIC = 0x464c457f"
definition TYPE_EXEC :: u16 where "TYPE_EXEC = 2"
definition PROG_READ :: u32 where "PROG_READ = 4"
definition PROG_WRITE :: u32 where "PROG_WRITE = 2"
definition PROG_EXECUTE :: u32 where "PROG_EXECUTE = 1"
definition MACHINE_RISCV :: u16 where "MACHINE_RISCV = 0xf3"
definition PH_SEG_TYPE_LOAD :: u32 where "PH_SEG_TYPE_LOAD = 1"

record ElfHeader =
  eh_magic :: u32
  eh_bitsize :: u8
  eh_endian :: u8
  eh_ident_abi_version :: u8
  eh_target_platform :: u8
  eh_abi_version :: u8
  eh_padding :: "u8 list"
  eh_obj_type :: u16
  eh_machine :: u16
  eh_version :: u32
  eh_entry_addr :: usize
  eh_phoff :: usize
  eh_shoff :: usize
  eh_flags :: u32
  eh_ehsize :: u16
  eh_phentsize :: u16
  eh_phnum :: u16
  eh_shentsize :: u16
  eh_shnum :: u16
  eh_shstrndx :: u16

record ProgramHeader =
  ph_seg_type :: u32
  ph_flags :: u32
  ph_off :: usize
  ph_vaddr :: usize
  ph_paddr :: usize
  ph_filesz :: usize
  ph_memsz :: usize
  ph_align :: usize

definition ELF_HEADER_SIZE :: nat where "ELF_HEADER_SIZE = 64"
definition PH_SIZE :: nat where "PH_SIZE = 56"

definition ElfHeader_of :: "u8 list \<Rightarrow> ElfHeader" where
  "ElfHeader_of bs =
     \<lparr>eh_magic = field bs 0 4, eh_bitsize = field bs 4 1, eh_endian = field bs 5 1, eh_ident_abi_version = field bs 6 1,
      eh_target_platform = field bs 7 1, eh_abi_version = field bs 8 1, eh_padding = take 7 (drop 9 bs), eh_obj_type = field bs 16 2,
      eh_machine = field bs 18 2, eh_version = field bs 20 4, eh_entry_addr = field bs 24 8, eh_phoff = field bs 32 8,
      eh_shoff = field bs 40 8, eh_flags = field bs 48 4, eh_ehsize = field bs 52 2, eh_phentsize = field bs 54 2,
      eh_phnum = field bs 56 2, eh_shentsize = field bs 58 2, eh_shnum = field bs 60 2, eh_shstrndx = field bs 62 2\<rparr>"

definition ProgramHeader_of :: "u8 list \<Rightarrow> ProgramHeader" where
  "ProgramHeader_of bs =
     \<lparr>ph_seg_type = field bs 0 4, ph_flags = field bs 4 4, ph_off = field bs 8 8, ph_vaddr = field bs 16 8, ph_paddr = field bs 24 8,
      ph_filesz = field bs 32 8, ph_memsz = field bs 40 8, ph_align = field bs 48 8\<rparr>"

record Program =
  pr_header :: ProgramHeader
  pr_data :: "u8 list"

datatype LoadErrors = Magic | Machine_err | TypeExec | FileRead

record ElfFile =
  ef_header :: ElfHeader
  ef_programs :: "Program list"

section \<open>Parsing\<close>

text \<open>A structure behind a pointer into the buffer; reading past its end gives \<open>None\<close>.\<close>

definition buf_struct :: "nat \<Rightarrow> nat \<Rightarrow> u8 list \<Rightarrow> u8 list option" where
  "buf_struct off n buf = (if off + n \<le> length buf then Some (take n (drop off buf)) else None)"

definition load_segment :: "'d env \<Rightarrow> u8 list \<Rightarrow> usize \<Rightarrow> nat \<Rightarrow> Program list \<Rightarrow> Program list option" where
  "load_segment E buffer phoff i programs = do {
     bs \<leftarrow> buf_struct (unat phoff + PH_SIZE * i) PH_SIZE buffer;
     let ph = ProgramHeader_of bs;
     if ph_seg_type ph \<noteq> PH_SEG_TYPE_LOAD then Some programs
     else if ph_memsz ph = 0 then Some programs
     else do {
       let ph_buffer = Buffer_new E (unat (ph_memsz ph));
       ph_buffer \<leftarrow> buf_memcpy (unat (ph_memsz ph)) ph_buffer 0 buffer (unat (ph_off ph));
       Some (programs @ [\<lparr>pr_header = ph, pr_data = ph_buffer\<rparr>])
     }
   }"

definition elf_load :: "'d env \<Rightarrow> u8 list \<Rightarrow> (LoadErrors + ElfFile) option" where
  "elf_load E buffer = do {
     bs \<leftarrow> buf_struct 0 ELF_HEADER_SIZE buffer;
     let elf_hdr = ElfHeader_of bs;
     if eh_magic elf_hdr \<noteq> ELF_MAGIC then Some (Inl Magic)
     else if eh_machine elf_hdr \<noteq> MACHINE_RISCV then Some (Inl Machine_err)
     else if eh_obj_type elf_hdr \<noteq> TYPE_EXEC then Some (Inl TypeExec)
     else do {
       programs \<leftarrow> for_each (load_segment E buffer (eh_phoff elf_hdr)) [0..<unat (eh_phnum elf_hdr)] [];
       Some (Inr \<lparr>ef_header = elf_hdr, ef_programs = programs\<rparr>)
     }
   }"

section \<open>Creating the process\<close>

definition segment_bits :: "u32 \<Rightarrow> usize" where
  "segment_bits fl =
     (let bits = EntryBits_val User_bit;
          bits = (if fl AND PROG_EXECUTE \<noteq> 0 then bits OR EntryBits_val Execute else bits);
          bits = (if fl AND PROG_READ \<noteq> 0 then bits OR EntryBits_val Read else bits)
      in if fl AND PROG_WRITE \<noteq> 0 then bits OR EntryBits_val Write else bits)"

text \<open>One page of a segment: map it, and raise the break of the process.\<close>

definition map_segment_page :: "usize \<Rightarrow> usize \<Rightarrow> ProgramHeader \<Rightarrow> nat \<Rightarrow> usize \<times> 'a page_st_scheme \<Rightarrow> (usize \<times> 'a page_st_scheme) option" where
  "map_segment_page table program_mem ph i = (\<lambda>(brk, s). do {
     disp \<leftarrow> umul (of_nat i) PAGE_SIZE;
     vaddr \<leftarrow> uadd (ph_vaddr ph) disp;
     start \<leftarrow> uadd program_mem (ph_off ph);
     paddr \<leftarrow> uadd start disp;
     s \<leftarrow> map_page table vaddr paddr (segment_bits (ph_flags ph)) 0 s;
     Some (if vaddr > brk then vaddr else brk, s)
   })"

definition map_segment :: "usize \<Rightarrow> usize \<Rightarrow> Program \<Rightarrow> usize \<times> 'a page_st_scheme \<Rightarrow> (usize \<times> 'a page_st_scheme) option" where
  "map_segment table program_mem p = (\<lambda>(brk, s). do {
     let n = unat (ph_memsz (pr_header p));
     let s = s\<lparr>memory := store_bytes (memory s) (program_mem + ph_off (pr_header p)) (take (memcpy_len n) (pr_data p))\<rparr>;
     len \<leftarrow> uadd (ph_memsz (pr_header p)) PAGE_SIZE;
     (brk, s) \<leftarrow> for_each (map_segment_page table program_mem (pr_header p)) [0..<unat (len div PAGE_SIZE)] (brk, s);
     brk \<leftarrow> uadd brk 0x1000;
     Some (brk, s)
   })"

definition map_stack_page :: "usize \<Rightarrow> usize \<Rightarrow> nat \<Rightarrow> 'a page_st_scheme \<Rightarrow> 'a page_st_scheme option" where
  "map_stack_page table ptr i s = do {
     disp \<leftarrow> umul (of_nat i) PAGE_SIZE;
     vaddr \<leftarrow> uadd STACK_ADDR disp;
     paddr \<leftarrow> uadd ptr disp;
     map_page table vaddr paddr (EntryBits_val UserReadWrite) 0 s
   }"

definition elf_frame :: "usize \<Rightarrow> Process \<Rightarrow> mem \<Rightarrow> mem option" where
  "elf_frame entry_addr p m = do {
     let f = frame p;
     let m = store64 m (frame_pc f) entry_addr;
     len \<leftarrow> umul STACK_PAGES PAGE_SIZE;
     top \<leftarrow> uadd STACK_ADDR len;
     sp \<leftarrow> usub top 0x1000;
     let m = store64 m (frame_reg f Sp) sp;
     let m = store64 m (frame_mode f) (CpuMode_val User);
     let m = store64 m (frame_pid f) (ucast (p_pid p));
     Some (store64 m (frame_satp f) (build_satp Sv39 (ucast (p_pid p)) (mmu_table p)))
   }"

text \<open>The pages that the program needs, two more than its size.\<close>

definition program_pages :: "Program list \<Rightarrow> usize option" where
  "program_pages ps = do {
     sz \<leftarrow> for_each (\<lambda>p sz. uadd sz (ph_memsz (pr_header p))) ps 0;
     extra \<leftarrow> umul PAGE_SIZE 2;
     sz \<leftarrow> uadd sz extra;
     Some (sz div PAGE_SIZE)
   }"

definition load_proc :: "'d env \<Rightarrow> u8 list \<Rightarrow> 'a proc_st_scheme \<Rightarrow> ((LoadErrors + Process) \<times> 'a proc_st_scheme) option" where
  "load_proc E buffer s = do {
     elf_fl \<leftarrow> elf_load E buffer;
     case elf_fl of
       Inl e \<Rightarrow> Some (Inl e, s)
     | Inr elf_fl \<Rightarrow> do {
         n \<leftarrow> program_pages (ef_programs elf_fl);
         my_pid \<leftarrow> uadd (NEXT_PID s) 1;
         let s = s\<lparr>NEXT_PID := my_pid\<rparr>;
         (fr, s) \<leftarrow> zalloc 1 s;
         (st, s) \<leftarrow> zalloc STACK_PAGES s;
         (tb, s) \<leftarrow> zalloc 1 s;
         (program_mem, s) \<leftarrow> zalloc n s;
         assert_that (tb \<noteq> null_mut);
         (b, s) \<leftarrow> for_each (map_segment tb program_mem) (ef_programs elf_fl) (0, s);
         s \<leftarrow> for_each (map_stack_page tb st) [0..<unat STACK_PAGES] s;
         let my_proc = \<lparr>frame = fr, stack = st, p_pid = my_pid, mmu_table = tb, pstate = Running, pdata = ProcessData_new,
                        sleep_until = 0, program = program_mem, brk = b\<rparr>;
         m \<leftarrow> elf_frame (eh_entry_addr (ef_header elf_fl)) my_proc (memory s);
         Some (Inr my_proc, s\<lparr>memory := m\<rparr>)
       }
   }"

section \<open>The segments of a file\<close>

text \<open>Reference: the program headers of the file, and those that ask for memory.\<close>

definition header_at :: "u8 list \<Rightarrow> usize \<Rightarrow> nat \<Rightarrow> ProgramHeader" where
  "header_at img phoff i = ProgramHeader_of (take PH_SIZE (drop (unat phoff + PH_SIZE * i) img))"

definition loadable :: "ProgramHeader \<Rightarrow> bool" where
  "loadable ph \<longleftrightarrow> ph_seg_type ph = PH_SEG_TYPE_LOAD \<and> ph_memsz ph \<noteq> 0"

definition segment_headers :: "u8 list \<Rightarrow> ElfHeader \<Rightarrow> ProgramHeader list" where
  "segment_headers img h = filter loadable (map (header_at img (eh_phoff h)) [0..<unat (eh_phnum h)])"

text \<open>The bytes of a segment that the loader copies.\<close>

definition segment_copied :: "u8 list \<Rightarrow> Program \<Rightarrow> bool" where
  "segment_copied img p \<longleftrightarrow> (let n = memcpy_len (unat (ph_memsz (pr_header p)))
     in take n (pr_data p) = take n (drop (unat (ph_off (pr_header p))) img) \<and> n \<le> length (pr_data p))"

lemma load_segment_copies:
  assumes "unat phoff + PH_SIZE * Suc i \<le> length img"
    and "loadable (header_at img phoff i) \<Longrightarrow> unat (ph_off (header_at img phoff i)) + unat (ph_memsz (header_at img phoff i)) \<le> length img"
  obtains qs where "load_segment E img phoff i ps = Some (ps @ qs)" "map pr_header qs = filter loadable [header_at img phoff i]"
    "\<forall>q \<in> set qs. segment_copied img q"
proof (cases "loadable (header_at img phoff i)")
  case False
  then show ?thesis using that [of "[]"] assms(1) by (auto simp: load_segment_def buf_struct_def header_at_def loadable_def Let_def)
next
  case True
  let ?h = "header_at img phoff i"
  let ?n = "unat (ph_memsz ?h)" and ?o = "unat (ph_off ?h)"
  let ?d = "splice 0 (take (memcpy_len ?n) (drop ?o img)) (Buffer_new E ?n)"
  have k: "memcpy_len ?n \<le> ?n" by (rule memcpy_len_le)
  have l: "?n \<le> length (Buffer_new E ?n)" by (simp add: Buffer_new_def)
  have "buf_memcpy ?n (Buffer_new E ?n) 0 img ?o = Some ?d"
    using k l assms(2) [OF True] by (simp add: buf_memcpy_def)
  then have "load_segment E img phoff i ps = Some (ps @ [\<lparr>pr_header = ?h, pr_data = ?d\<rparr>])"
    using True assms(1) by (simp add: load_segment_def buf_struct_def header_at_def loadable_def Let_def)
  moreover have "segment_copied img \<lparr>pr_header = ?h, pr_data = ?d\<rparr>"
    using k l assms(2) [OF True] by (simp add: segment_copied_def splice_def)
  ultimately show ?thesis using True that [of "[\<lparr>pr_header = ?h, pr_data = ?d\<rparr>]"] by simp
qed

lemma load_segments_copy:
  assumes "unat phoff + PH_SIZE * n \<le> length img"
    and "\<And>i. i < n \<Longrightarrow> loadable (header_at img phoff i) \<Longrightarrow> unat (ph_off (header_at img phoff i)) + unat (ph_memsz (header_at img phoff i)) \<le> length img"
  shows "\<exists>ps. for_each (load_segment E img phoff) [0..<n] [] = Some ps
    \<and> map pr_header ps = filter loadable (map (header_at img phoff) [0..<n]) \<and> (\<forall>p \<in> set ps. segment_copied img p)"
proof (rule for_each_upt_invariant [where P = "\<lambda>i ps. map pr_header ps = filter loadable (map (header_at img phoff) [0..<i]) \<and> (\<forall>p \<in> set ps. segment_copied img p)"])
  fix i ps assume "0 \<le> i" "i < n" and inv: "map pr_header ps = filter loadable (map (header_at img phoff) [0..<i]) \<and> (\<forall>p \<in> set ps. segment_copied img p)"
  then have "PH_SIZE * Suc i \<le> PH_SIZE * n" by (intro mult_le_mono) simp_all
  then have "unat phoff + PH_SIZE * Suc i \<le> length img" using assms(1) by simp
  then obtain qs where "load_segment E img phoff i ps = Some (ps @ qs)" "map pr_header qs = filter loadable [header_at img phoff i]"
    "\<forall>q \<in> set qs. segment_copied img q"
    using load_segment_copies [where E = E and phoff = phoff and ps = ps and i = i and img = img] assms(2) [OF \<open>i < n\<close>] by blast
  then show "\<exists>ps'. load_segment E img phoff i ps = Some ps'
    \<and> map pr_header ps' = filter loadable (map (header_at img phoff) [0..<Suc i]) \<and> (\<forall>p \<in> set ps'. segment_copied img p)"
    using inv by auto
qed simp_all

text \<open>Whatever the file, the segments of a loaded one lie inside it and have been copied.\<close>

lemma elf_load_copied:
  assumes "elf_load E img = Some (Inr ef)" and "p \<in> set (ef_programs ef)"
  shows "segment_copied img p" "unat (ph_off (pr_header p)) + memcpy_len (unat (ph_memsz (pr_header p))) \<le> length img" "ph_memsz (pr_header p) \<noteq> 0"
proof -
  let ?P = "\<lambda>ps. \<forall>p \<in> set ps. segment_copied img p \<and> unat (ph_off (pr_header p)) + memcpy_len (unat (ph_memsz (pr_header p))) \<le> length img
    \<and> ph_memsz (pr_header p) \<noteq> 0"
  obtain phoff xs where l: "for_each (load_segment E img phoff) xs [] = Some (ef_programs ef)"
    using assms(1) by (auto simp: elf_load_def Let_def split: bind_splits if_splits)
  have "?P (ef_programs ef)"
  proof (rule for_each_keeps [OF l])
    fix i ps ps' assume ps: "?P ps" "load_segment E img phoff i ps = Some ps'"
    show "?P ps'"
    proof (cases "ps' = ps")
      case False
      then obtain ph d where ps': "ps' = ps @ [\<lparr>pr_header = ph, pr_data = d\<rparr>]" "ph_memsz ph \<noteq> 0"
        and d: "buf_memcpy (unat (ph_memsz ph)) (Buffer_new E (unat (ph_memsz ph))) 0 img (unat (ph_off ph)) = Some d"
        using ps(2) by (auto simp: load_segment_def Let_def split: bind_splits if_splits)
      have c: "memcpy_len (unat (ph_memsz ph)) \<le> length (Buffer_new E (unat (ph_memsz ph)))"
        using memcpy_len_le [of "unat (ph_memsz ph)"] by (simp add: Buffer_new_def)
      have "segment_copied img \<lparr>pr_header = ph, pr_data = d\<rparr> \<and> unat (ph_off ph) + memcpy_len (unat (ph_memsz ph)) \<le> length img"
        using d c by (auto simp: buf_memcpy_def segment_copied_def splice_def split: if_splits)
      then show ?thesis using ps(1) ps' by auto
    qed (use ps(1) in simp)
  qed simp
  then show "segment_copied img p" "unat (ph_off (pr_header p)) + memcpy_len (unat (ph_memsz (pr_header p))) \<le> length img" "ph_memsz (pr_header p) \<noteq> 0"
    using assms(2) by blast+
qed

section \<open>Properties\<close>

text \<open>
  C30: the loader accepts a RISC-V executable and extracts its segments. For a file with the magic number, the machine
  and the type that the loader asks for, whose program headers and segments lie inside the file, \<^verbatim>\<open>File::load\<close>
  returns the header and exactly the non-empty loadable segments, in the order of the file, each with its bytes (up to
  the tail that \<^verbatim>\<open>memcpy\<close> leaves out). It rejects a file with another magic number, machine or type, in
  this order.
\<close>
theorem elf_load_segments:
  assumes "h = ElfHeader_of (take 64 img)" and "64 \<le> length img"
  shows "(eh_magic h \<noteq> ELF_MAGIC \<longrightarrow> elf_load E img = Some (Inl Magic))
    \<and> (eh_magic h = ELF_MAGIC \<and> eh_machine h \<noteq> MACHINE_RISCV \<longrightarrow> elf_load E img = Some (Inl Machine_err))
    \<and> (eh_magic h = ELF_MAGIC \<and> eh_machine h = MACHINE_RISCV \<and> eh_obj_type h \<noteq> TYPE_EXEC \<longrightarrow> elf_load E img = Some (Inl TypeExec))
    \<and> (eh_magic h = ELF_MAGIC \<and> eh_machine h = MACHINE_RISCV \<and> eh_obj_type h = TYPE_EXEC
      \<and> unat (eh_phoff h) + 56 * unat (eh_phnum h) \<le> length img
      \<and> (\<forall>ph \<in> set (segment_headers img h). unat (ph_off ph) + unat (ph_memsz ph) \<le> length img) \<longrightarrow>
      (\<exists>ps. elf_load E img = Some (Inr \<lparr>ef_header = h, ef_programs = ps\<rparr>)
        \<and> map pr_header ps = segment_headers img h \<and> (\<forall>p \<in> set ps. segment_copied img p)))"
  using assms load_segments_copy [where E = E and img = img and phoff = "eh_phoff h" and n = "unat (eh_phnum h)"]
  by (auto simp: elf_load_def buf_struct_def segment_headers_def ELF_HEADER_SIZE_def PH_SIZE_def)

text \<open>An executable with one segment of eight bytes.\<close>

definition example_elf :: "u8 list" where
  "example_elf = [
     0x7f, 0x45, 0x4c, 0x46, 2, 1, 1, 0,
     0, 0, 0, 0, 0, 0, 0, 0,
     2, 0, 0xf3, 0, 1, 0, 0, 0,
     120, 0, 0, 0x20, 0, 0, 0, 0,
     64, 0, 0, 0, 0, 0, 0, 0,
     0, 0, 0, 0, 0, 0, 0, 0,
     0, 0, 0, 0, 64, 0, 56, 0,
     1, 0, 0, 0, 0, 0, 0, 0,
     1, 0, 0, 0, 5, 0, 0, 0,
     120, 0, 0, 0, 0, 0, 0, 0,
     120, 0, 0, 0x20, 0, 0, 0, 0,
     0, 0, 0, 0, 0, 0, 0, 0,
     8, 0, 0, 0, 0, 0, 0, 0,
     8, 0, 0, 0, 0, 0, 0, 0,
     0, 0, 0, 0, 0, 0, 0, 0,
     1, 2, 3, 4, 5, 6, 7, 8]"

lemma example_elf_facts:
  fixes h ph
  defines "h \<equiv> ElfHeader_of (take 64 example_elf)" and "ph \<equiv> header_at example_elf 64 0"
  shows "length example_elf = 128" "eh_magic h = ELF_MAGIC" "eh_machine h = MACHINE_RISCV" "eh_obj_type h = TYPE_EXEC" "eh_phoff h = 64" "eh_phnum h = 1"
    "eh_entry_addr h = 0x20000078" "ph_seg_type ph = 1" "ph_memsz ph = 8" "ph_off ph = 120" "ph_vaddr ph = 0x20000078" "ph_flags ph = 5"
    "segment_headers example_elf h = [ph]"
proof -
  show "length example_elf = 128" by (simp add: example_elf_def)
  show "eh_magic h = ELF_MAGIC" "eh_machine h = MACHINE_RISCV" "eh_obj_type h = TYPE_EXEC" and p: "eh_phoff h = 64" "eh_phnum h = 1"
    and "eh_entry_addr h = 0x20000078"
    by (simp_all add: h_def ElfHeader_of_def field_def example_elf_def ELF_MAGIC_def MACHINE_RISCV_def TYPE_EXEC_def)
  show q: "ph_seg_type ph = 1" "ph_memsz ph = 8" "ph_off ph = 120" "ph_vaddr ph = 0x20000078" "ph_flags ph = 5"
    by (simp_all add: ph_def header_at_def ProgramHeader_of_def field_def PH_SIZE_def example_elf_def)
  then show "segment_headers example_elf h = [ph]"
    by (simp add: segment_headers_def p loadable_def PH_SEG_TYPE_LOAD_def ph_def)
qed

theorem elf_load_segments_witness:
  "\<forall>E. \<exists>h p. elf_load E example_elf = Some (Inr \<lparr>ef_header = h, ef_programs = [p]\<rparr>)
     \<and> eh_entry_addr h = 0x20000078 \<and> ph_vaddr (pr_header p) = 0x20000078 \<and> take 8 (pr_data p) = [1, 2, 3, 4, 5, 6, 7, 8]"
proof
  fix E :: "'d env"
  let ?h = "ElfHeader_of (take 64 example_elf)"
  let ?ph = "header_at example_elf 64 0"
  note f = example_elf_facts
  obtain ps where ps: "elf_load E example_elf = Some (Inr \<lparr>ef_header = ?h, ef_programs = ps\<rparr>)"
    "map pr_header ps = [?ph]" "\<forall>p \<in> set ps. segment_copied example_elf p"
    using elf_load_segments [of ?h example_elf E] by (auto simp: f)
  then obtain p where p: "ps = [p]" "pr_header p = ?ph" by auto
  then have "take 8 (pr_data p) = take 8 (drop 120 example_elf)"
    using ps(3) by (simp add: segment_copied_def f memcpy_len_def)
  also have "\<dots> = [1, 2, 3, 4, 5, 6, 7, 8]" by (simp add: example_elf_def)
  finally show "\<exists>h p. elf_load E example_elf = Some (Inr \<lparr>ef_header = h, ef_programs = [p]\<rparr>)
     \<and> eh_entry_addr h = 0x20000078 \<and> ph_vaddr (pr_header p) = 0x20000078 \<and> take 8 (pr_data p) = [1, 2, 3, 4, 5, 6, 7, 8]"
    using ps(1) p f by auto
qed

end
