(* ===== verification/Sched.thy ===== *)
theory Sched
  imports Process
begin

text \<open>
  \<^verbatim>\<open>sched.rs\<close>: round-robin scheduling. The list is rotated until its front can run; the loop
  has no other exit, so it is a partial function, and that it returns is a theorem.
\<close>

section \<open>The scheduler\<close>

text \<open>\<^verbatim>\<open>VecDeque::rotate_left(1)\<close> panics on an empty deque.\<close>

definition rotate_left1 :: "'p list \<Rightarrow> 'p list option" where
  "rotate_left1 pl = (case pl of [] \<Rightarrow> None | p # ps \<Rightarrow> Some (ps @ [p]))"

partial_function (option) procfindloop :: "usize \<Rightarrow> Process list \<Rightarrow> (usize \<times> Process list) option" where
  "procfindloop now pl = do {
     pl \<leftarrow> rotate_left1 pl;
     case pl of
       [] \<Rightarrow> procfindloop now pl
     | prc # rest \<Rightarrow>
         (case pstate prc of
            Running \<Rightarrow> Some (frame prc, pl)
          | Sleeping \<Rightarrow>
              if sleep_until prc \<le> now then Some (frame prc, prc\<lparr>pstate := Running\<rparr> # rest)
              else procfindloop now pl
          | _ \<Rightarrow> procfindloop now pl)
   }"

definition schedule :: "usize \<Rightarrow> 'a proc_st_scheme \<Rightarrow> (usize \<times> 'a proc_st_scheme) option" where
  "schedule now s = do {
     (got, mx) \<leftarrow> try_lock (PROCESS_LIST_MUTEX s);
     let s = s\<lparr>PROCESS_LIST_MUTEX := mx\<rparr>;
     if \<not> got then Some (0, s)
     else do {
       (frame_addr, s) \<leftarrow> (case PROCESS_LIST s of
           Some pl \<Rightarrow> do {
             (fa, pl) \<leftarrow> procfindloop now pl;
             Some (fa, s\<lparr>PROCESS_LIST := Some pl\<rparr>)
           }
         | None \<Rightarrow> Some (0x1111, s));
       Some (frame_addr, s\<lparr>PROCESS_LIST_MUTEX := unlock (PROCESS_LIST_MUTEX s)\<rparr>)
     }
   }"

section \<open>Who runs next\<close>

definition can_run :: "usize \<Rightarrow> Process \<Rightarrow> bool" where
  "can_run now p \<longleftrightarrow> pstate p = Running \<or> (pstate p = Sleeping \<and> sleep_until p \<le> now)"

text \<open>The process as it is scheduled: awake.\<close>

definition awake :: "Process \<Rightarrow> Process" where
  "awake p = p\<lparr>pstate := Running\<rparr>"

lemma awake_running: "pstate p = Running \<Longrightarrow> awake p = p"
  by (simp add: awake_def)

lemma procfindloop_step:
  "procfindloop now (p # ps) =
     (case ps @ [p] of [] \<Rightarrow> None | q # rest \<Rightarrow>
        if can_run now q then Some (frame q, awake q # rest) else procfindloop now (ps @ [p]))"
proof (cases "ps @ [p]")
  case (Cons q rest)
  then show ?thesis
    by (subst procfindloop.simps) (auto simp: rotate_left1_def can_run_def awake_def split: ProcessState.split)
qed simp

text \<open>Rotation past processes that cannot run.\<close>

lemma procfindloop_skip:
  assumes "\<forall>q \<in> set xs. \<not> can_run now q"
  shows "procfindloop now (p # xs @ ys) = procfindloop now (last (p # xs) # ys @ butlast (p # xs))"
  using assms
proof (induction xs arbitrary: p ys)
  case (Cons x xs)
  have "procfindloop now (p # (x # xs) @ ys) = procfindloop now (x # xs @ (ys @ [p]))"
    unfolding procfindloop_step [of now p] using Cons.prems by simp
  also have "\<dots> = procfindloop now (last (x # xs) # (ys @ [p]) @ butlast (x # xs))"
    using Cons.prems by (intro Cons.IH) simp
  finally show ?case by simp
qed simp

lemma rotate_split:
  assumes "\<exists>q \<in> set (ps @ [p]). P q"
  obtains xs q ys where "ps @ [p] = xs @ q # ys" "\<forall>x \<in> set xs. \<not> P x" "P q"
  using split_list_first_prop [OF assms] by blast

text \<open>
  The next process in round-robin order: the first that can run, starting behind the front,
  the front itself coming last.
\<close>

lemma procfindloop_returns:
  assumes sp: "ps @ [p] = xs @ q # ys" and xs: "\<forall>x \<in> set xs. \<not> can_run now x" and q: "can_run now q"
  shows "procfindloop now (p # ps) = Some (frame q, awake q # ys @ xs)"
proof (cases ys rule: rev_cases)
  case Nil
  then have e: "xs = ps" "q = p" using sp by simp_all
  have "procfindloop now (p # ps @ []) = procfindloop now (last (p # ps) # [] @ butlast (p # ps))"
    using xs e by (intro procfindloop_skip) simp
  also have "\<dots> = Some (frame p, awake p # ps)"
    unfolding procfindloop_step using q e append_butlast_last_id [of "p # ps"] by simp
  finally show ?thesis using Nil e by simp
next
  case (snoc ys' p')
  then have e: "ps = xs @ q # ys'" "p' = p" using sp by simp_all
  have "procfindloop now (p # xs @ (q # ys')) = procfindloop now (last (p # xs) # (q # ys') @ butlast (p # xs))"
    using xs by (rule procfindloop_skip)
  also have "\<dots> = Some (frame q, awake q # ys' @ p # xs)"
    unfolding procfindloop_step using q append_butlast_last_id [of "p # xs"] by simp
  finally show ?thesis using snoc e by simp
qed

text \<open>When the loop ends, somebody can run.\<close>

lemma rotate_left1_set: "rotate_left1 pl = Some pl' \<Longrightarrow> set pl' = set pl"
  by (auto simp: rotate_left1_def split: list.splits)

lemma procfindloop_someone:
  assumes "procfindloop now pl = Some r" shows "\<exists>p \<in> set pl. can_run now p"
proof (rule procfindloop.raw_induct [where P = "\<lambda>now pl _. \<exists>p \<in> set pl. can_run now p", OF _ assms])
  fix f and now :: usize and pl r
  assume ih: "\<And>now pl r. f now pl = Some r \<Longrightarrow> \<exists>p \<in> set pl. can_run now p"
    and body: "rotate_left1 pl \<bind> (\<lambda>pl. case pl of [] \<Rightarrow> f now pl
     | prc # rest \<Rightarrow> (case pstate prc of Running \<Rightarrow> Some (frame prc, pl)
          | Sleeping \<Rightarrow> if sleep_until prc \<le> now then Some (frame prc, prc\<lparr>pstate := Running\<rparr> # rest) else f now pl
          | _ \<Rightarrow> f now pl)) = Some r"
  from body obtain pl' where rot: "rotate_left1 pl = Some pl'" by (cases "rotate_left1 pl") auto
  have "\<exists>p \<in> set pl'. can_run now p"
  proof (cases pl')
    case (Cons prc rest)
    then show ?thesis
      using body rot ih [of now pl'] by (cases "pstate prc") (auto simp: can_run_def split: if_splits)
  qed (use rot in \<open>auto simp: rotate_left1_def split: list.splits\<close>)
  then show "\<exists>p \<in> set pl. can_run now p" using rotate_left1_set [OF rot] by simp
qed

text \<open>\<^verbatim>\<open>schedule\<close> under a free mutex is the loop, and under a held one it gives up with a null frame.\<close>

lemma schedule_free:
  assumes "mstate (PROCESS_LIST_MUTEX s) = 0" "PROCESS_LIST s = Some pl" "procfindloop now pl = Some (fa, pl')"
  shows "schedule now s = Some (fa, s\<lparr>PROCESS_LIST := Some pl', PROCESS_LIST_MUTEX := Mutex_new\<rparr>)"
  using assms by (simp add: schedule_def unlock_Mutex Mutex_new_def)

lemma schedule_held: "mstate (PROCESS_LIST_MUTEX s) = 1 \<Longrightarrow> schedule now s = Some (0, s)"
  by (cases "PROCESS_LIST_MUTEX s") (simp add: schedule_def)

section \<open>Properties\<close>

text \<open>
  C23: the scheduler returns, and it is round robin. If the mutex is free and the list holds some
  process that is running, or sleeping with its time come, \<^verbatim>\<open>schedule\<close> terminates and returns the
  frame of the first such process after the front (the front itself coming last); this process
  becomes the new front, awake, everyone before it moves behind, in order, no process is
  lost or changed otherwise, and the mutex is free again.
\<close>
theorem schedule_round_robin:
  assumes "mstate (PROCESS_LIST_MUTEX s) = 0" and "PROCESS_LIST s = Some (p # ps)"
    and "ps @ [p] = xs @ q # ys" and "\<forall>x \<in> set xs. \<not> can_run now x" and "can_run now q"
  shows "schedule now s =
    Some (frame q, s\<lparr>PROCESS_LIST := Some (awake q # ys @ xs), PROCESS_LIST_MUTEX := Mutex_new\<rparr>)"
  by (rule schedule_free [OF assms(1,2) procfindloop_returns [OF assms(3-5)]])

definition example_process :: "u16 \<Rightarrow> ProcessState \<Rightarrow> usize \<Rightarrow> Process" where
  "example_process pd st t = \<lparr>frame = 0x1000 * ucast pd, stack = 0, p_pid = pd, mmu_table = 0, pstate = st,
     pdata = ProcessData_new, sleep_until = t, program = 0, brk = 0\<rparr>"

theorem schedule_round_robin_witness:
  "schedule 50 (example_procs\<lparr>PROCESS_LIST := Some [example_process 1 Running 0, example_process 2 Waiting 0, example_process 3 Sleeping 40]\<rparr>)
   = Some (0x3000, example_procs\<lparr>PROCESS_LIST := Some [example_process 3 Running 40, example_process 1 Running 0, example_process 2 Waiting 0]\<rparr>)"
proof -
  let ?p1 = "example_process 1 Running 0" and ?p2 = "example_process 2 Waiting 0" and ?p3 = "example_process 3 Sleeping 40"
  have m: "PROCESS_LIST_MUTEX example_procs = Mutex_new" by (simp add: example_procs_def)
  have "schedule 50 (example_procs\<lparr>PROCESS_LIST := Some [?p1, ?p2, ?p3]\<rparr>)
    = Some (frame ?p3, (example_procs\<lparr>PROCESS_LIST := Some [?p1, ?p2, ?p3]\<rparr>)
        \<lparr>PROCESS_LIST := Some (awake ?p3 # [?p1] @ [?p2]), PROCESS_LIST_MUTEX := Mutex_new\<rparr>)"
    by (rule schedule_round_robin) (simp_all add: m Mutex_new_def can_run_def example_process_def)
  then show ?thesis by (simp add: awake_def example_process_def example_procs_def)
qed

text \<open>
  The scheduler cannot idle. If no process of the list can run, \<^verbatim>\<open>schedule\<close> does not return: it
  spins (or, on an empty list, panics) inside the trap handler.
\<close>
lemma schedule_hangs:
  assumes "mstate (PROCESS_LIST_MUTEX s) = 0" and "PROCESS_LIST s = Some pl" and "\<forall>p \<in> set pl. \<not> can_run now p"
  shows "schedule now s = None"
proof -
  have "procfindloop now pl = None" using procfindloop_someone [of now pl] assms(3) by (cases "procfindloop now pl") auto
  then show ?thesis using assms(1,2) by (simp add: schedule_def)
qed

end
