(* ===== verification/Syscall.thy ===== *)
theory Syscall
  imports Plic Elf Sched
begin

text \<open>
  \<^verbatim>\<open>syscall.rs\<close>: the system calls, and the kernel processes that carry out the slow ones (\<^verbatim>\<open>read_proc\<close> and
  \<^verbatim>\<open>write_proc\<close> of \<^verbatim>\<open>fs.rs\<close>, \<^verbatim>\<open>exec_func\<close>). A handler works on the trap frame of the caller, at an
  address in memory. Diagnostic output is left out; what a process prints is not.
\<close>

section \<open>State and parameters\<close>

record kernel_st = plic_st +
  INODE_CACHE :: "inode_cache option list"

text \<open>What the hardware returns; the clock does not advance during a trap.\<close>

record hardware =
  hw_regs :: device_regs
  hw_uart :: uart_regs
  hw_mtime :: usize

record FsArgs =
  fa_pid :: u16
  fa_dev :: usize
  fa_buffer :: usize
  fa_size :: u32
  fa_offset :: u32
  fa_node :: u32

text \<open>Addresses of functions, which the linker chooses, and layouts, which the compiler chooses.\<close>

record image =
  ra_delete_proc :: usize
  exec_func_addr :: usize
  fs_read_proc_addr :: usize
  fs_write_proc_addr :: usize
  fs_args :: "FsArgs layout"
  gpu_structs :: gpu_layout

section \<open>The frame of the caller\<close>

definition reg_of :: "Registers \<Rightarrow> usize \<Rightarrow> 'a page_st_scheme \<Rightarrow> usize" where
  "reg_of r f s = load64 (memory s) (frame_reg f r)"

definition set_reg :: "Registers \<Rightarrow> usize \<Rightarrow> usize \<Rightarrow> 'a page_st_scheme \<Rightarrow> 'a page_st_scheme" where
  "set_reg r f v s = s\<lparr>memory := store64 (memory s) (frame_reg f r) v\<rparr>"

definition pid_of :: "usize \<Rightarrow> 'a page_st_scheme \<Rightarrow> u16" where
  "pid_of f s = ucast (load64 (memory s) (frame_pid f))"

definition mmu_on :: "usize \<Rightarrow> 'a page_st_scheme \<Rightarrow> bool" where
  "mmu_on f s \<longleftrightarrow> drop_bit 60 (load64 (memory s) (frame_satp f)) \<noteq> 0"

text \<open>\<^verbatim>\<open>-1isize as usize\<close>\<close>

definition MINUS_ONE :: usize where "MINUS_ONE = - 1"

definition proc_at :: "nat \<Rightarrow> 'a proc_st_scheme \<Rightarrow> Process option" where
  "proc_at i s = (case PROCESS_LIST s of Some pl \<Rightarrow> if i < length pl then Some (pl ! i) else None | None \<Rightarrow> None)"

definition put_proc :: "nat \<Rightarrow> Process \<Rightarrow> 'a proc_st_scheme \<Rightarrow> 'a proc_st_scheme" where
  "put_proc i p s = s\<lparr>PROCESS_LIST := map_option (\<lambda>pl. pl[i := p]) (PROCESS_LIST s)\<rparr>"

text \<open>\<^verbatim>\<open>get_by_pid(..).as_mut().unwrap()\<close>: the process and its place in the list.\<close>

definition caller :: "usize \<Rightarrow> 'a proc_st_scheme \<Rightarrow> (nat \<times> Process) option" where
  "caller f s = do { i \<leftarrow> get_by_pid (pid_of f s) s; p \<leftarrow> proc_at i s; Some (i, p) }"

text \<open>\<^verbatim>\<open>(*p).mmu_table.as_mut().unwrap()\<close>\<close>

definition table_of :: "Process \<Rightarrow> usize option" where
  "table_of p = (if mmu_table p = null_mut then None else Some (mmu_table p))"

text \<open>The physical address behind a pointer of the caller; the inner \<open>None\<close> is a page fault.\<close>

definition translate :: "usize \<Rightarrow> usize \<Rightarrow> 'a proc_st_scheme \<Rightarrow> usize option option" where
  "translate f va s =
     (if mmu_on f s then do {
        (_, p) \<leftarrow> caller f s;
        table \<leftarrow> table_of p;
        virt_to_phys table va s
      } else Some (Some va))"

section \<open>Processes that read and write files\<close>

definition Fs_process :: "image \<Rightarrow> usize \<Rightarrow> FsArgs \<Rightarrow> 'a proc_st_scheme \<Rightarrow> 'a proc_st_scheme option" where
  "Fs_process I func args s = do {
     (p, s) \<leftarrow> Box_new (encode (fs_args I) args) s;
     (_, s) \<leftarrow> set_waiting (fa_pid args) s;
     (_, s) \<leftarrow> add_kernel_process_args (ra_delete_proc I) func p s;
     Some s
   }"

definition fs_process_read :: "image \<Rightarrow> FsArgs \<Rightarrow> 'a proc_st_scheme \<Rightarrow> 'a proc_st_scheme option" where
  "fs_process_read I = Fs_process I (fs_read_proc_addr I)"

definition fs_process_write :: "image \<Rightarrow> FsArgs \<Rightarrow> 'a proc_st_scheme \<Rightarrow> 'a proc_st_scheme option" where
  "fs_process_write I = Fs_process I (fs_write_proc_addr I)"

text \<open>Hand the result to the process that waits, wake it, and free the arguments.\<close>

definition finish_fs :: "FsArgs \<Rightarrow> u32 \<Rightarrow> usize \<Rightarrow> 'a proc_st_scheme \<Rightarrow> 'a proc_st_scheme option" where
  "finish_fs args bytes args_addr s = do {
     let s = (case get_by_pid (fa_pid args) s of
         None \<Rightarrow> s
       | Some i \<Rightarrow> (case proc_at i s of None \<Rightarrow> s | Some p \<Rightarrow> set_reg A0 (frame p) (ucast bytes) s));
     (_, s) \<leftarrow> set_running (fa_pid args) s;
     OsGlobalAlloc_dealloc args_addr s
   }"

definition FS_ARGS_SIZE :: nat where "FS_ARGS_SIZE = 32"

definition fs_read_proc :: "'d env \<Rightarrow> image \<Rightarrow> usize \<Rightarrow> 'd \<Rightarrow> 'a proc_st_scheme \<Rightarrow> 'a proc_st_scheme option" where
  "fs_read_proc E I args_addr d s = do {
     let args = decode (fs_args I) (load_bytes (memory s) args_addr FS_ARGS_SIZE);
     ino \<leftarrow> get_inode E (fa_dev args) (fa_node args) d;
     inode \<leftarrow> ino;
     (bytes, buf) \<leftarrow> fs_read E (fa_dev args) inode (load_bytes (memory s) (fa_buffer args) (unat (fa_size args))) (fa_size args) (fa_offset args) d;
     finish_fs args bytes args_addr (s\<lparr>memory := store_bytes (memory s) (fa_buffer args) buf\<rparr>)
   }"

definition fs_write_proc :: "'d env \<Rightarrow> image \<Rightarrow> usize \<Rightarrow> 'd \<Rightarrow> 'a proc_st_scheme \<Rightarrow> ('d \<times> 'a proc_st_scheme) option" where
  "fs_write_proc E I args_addr d s = do {
     let args = decode (fs_args I) (load_bytes (memory s) args_addr FS_ARGS_SIZE);
     ino \<leftarrow> get_inode E (fa_dev args) (fa_node args) d;
     inode \<leftarrow> ino;
     (bytes, _, d) \<leftarrow> fs_write E (fa_dev args) inode (load_bytes (memory s) (fa_buffer args) (unat (fa_size args))) (fa_size args) (fa_offset args) d;
     s \<leftarrow> finish_fs args bytes args_addr s;
     Some (d, s)
   }"

text \<open>\<^verbatim>\<open>others\<close> is what other processes do to the mutex while this one sleeps, as in \<open>sleep_lock\<close>.\<close>

definition exec_func :: "'d env \<Rightarrow> (nat \<Rightarrow> Mutex \<Rightarrow> Mutex) \<Rightarrow> usize \<Rightarrow> 'd \<Rightarrow> 'a proc_st_scheme \<Rightarrow> 'a proc_st_scheme option" where
  "exec_func E others args d s = do {
     let inode = inode_of (load_bytes (memory s) args INODE_SIZE);
     let buffer = Buffer_new E (unat (i_size inode));
     (_, buffer) \<leftarrow> fs_read E 8 inode buffer (i_size inode) 0 d;
     (r, s) \<leftarrow> load_proc E buffer s;
     s \<leftarrow> (case r of
         Inl e \<Rightarrow> Some s
       | Inr prc \<Rightarrow> do {
           mx \<leftarrow> sleep_lock others 0 (PROCESS_LIST_MUTEX s);
           let s = s\<lparr>PROCESS_LIST_MUTEX := mx\<rparr>;
           s \<leftarrow> (case PROCESS_LIST s of
               Some pl \<Rightarrow> Some (s\<lparr>PROCESS_LIST := Some (pl @ [prc])\<rparr>)
             | None \<Rightarrow> Process_drop prc s);
           Some (s\<lparr>PROCESS_LIST_MUTEX := unlock (PROCESS_LIST_MUTEX s)\<rparr>)
         });
     OsGlobalAlloc_dealloc args s
   }"

section \<open>Strings of the caller\<close>

partial_function (option) c_string :: "mem \<Rightarrow> usize \<Rightarrow> rust_string \<Rightarrow> rust_string option" where
  "c_string m a path = (if m a = 0 then Some path else c_string m (a + 1) (push_char (m a) path))"

text \<open>At most \<open>n\<close> characters.\<close>

fun c_string_max :: "nat \<Rightarrow> mem \<Rightarrow> usize \<Rightarrow> rust_string \<Rightarrow> rust_string" where
  "c_string_max 0 m a path = path"
| "c_string_max (Suc n) m a path = (if m a = 0 then path else c_string_max n m (a + 1) (push_char (m a) path))"


section \<open>System calls\<close>

definition sys_execv :: "image \<Rightarrow> usize \<Rightarrow> 'a kernel_st_scheme \<Rightarrow> 'a kernel_st_scheme option" where
  "sys_execv I f s = do {
     pa \<leftarrow> translate f (reg_of A0 f s) s;
     path_addr \<leftarrow> pa;
     path \<leftarrow> c_string (memory s) path_addr [];
     r \<leftarrow> fs_open 8 path \<lparr>dev = (), MFS_INODE_CACHE = INODE_CACHE s\<rparr>;
     case r of
       Inr inode \<Rightarrow> do {
         (p, s) \<leftarrow> Box_new (inode_bytes inode) s;
         (_, s) \<leftarrow> add_kernel_process_args (ra_delete_proc I) (exec_func_addr I) p s;
         delete_process (pid_of f s) s
       }
     | Inl _ \<Rightarrow> Some (set_reg A0 f MINUS_ONE s)
   }"

text \<open>The loop of \<^verbatim>\<open>getcwd\<close>, with its test \<^verbatim>\<open>iter == 0\<close>.\<close>

fun copy_cwd :: "usize \<Rightarrow> usize \<Rightarrow> usize \<Rightarrow> u8 list \<Rightarrow> mem \<Rightarrow> mem option" where
  "copy_cwd buf sz iter [] m = Some m"
| "copy_cwd buf sz iter (b # bs) m =
     (if iter = 0 \<or> iter \<ge> sz then Some m
      else do { n \<leftarrow> uadd iter 1; copy_cwd buf sz n bs (m(buf + iter := b)) })"

definition sys_getcwd :: "usize \<Rightarrow> 'a kernel_st_scheme \<Rightarrow> 'a kernel_st_scheme option" where
  "sys_getcwd f s = do {
     (_, p) \<leftarrow> caller f s;
     pa \<leftarrow> translate f (reg_of A0 f s) s;
     case pa of
       None \<Rightarrow> Some (set_reg A0 f MINUS_ONE s)
     | Some buf \<Rightarrow> do {
         m \<leftarrow> copy_cwd buf (reg_of A1 f s) 0 (map of_char (cwd (pdata p))) (memory s);
         Some (s\<lparr>memory := m\<rparr>)
       }
   }"

definition sys_close :: "usize \<Rightarrow> 'a kernel_st_scheme \<Rightarrow> 'a kernel_st_scheme option" where
  "sys_close f s = do {
     let fd = (ucast (reg_of A0 f s) :: u16);
     (i, p) \<leftarrow> caller f s;
     if fdesc (pdata p) fd \<noteq> None
     then Some (set_reg A0 f 0 (put_proc i (p\<lparr>pdata := (pdata p)\<lparr>fdesc := (fdesc (pdata p))(fd := None)\<rparr>\<rparr>) s))
     else Some (set_reg A0 f MINUS_ONE s)
   }"

text \<open>\<^verbatim>\<open>read\<close> (63) and the write of a file (65) differ in the kernel process that is started.\<close>

definition sys_file :: "(FsArgs \<Rightarrow> 'a kernel_st_scheme \<Rightarrow> 'a kernel_st_scheme option) \<Rightarrow> usize \<Rightarrow> 'a kernel_st_scheme \<Rightarrow> 'a kernel_st_scheme option" where
  "sys_file start f s = do {
     pa \<leftarrow> translate f (reg_of A2 f s) s;
     case pa of
       None \<Rightarrow> Some (set_reg A0 f MINUS_ONE s)
     | Some physical_buffer \<Rightarrow>
         start \<lparr>fa_pid = pid_of f s, fa_dev = reg_of A0 f s, fa_buffer = physical_buffer, fa_size = ucast (reg_of A3 f s),
                fa_offset = ucast (reg_of A4 f s), fa_node = ucast (reg_of A1 f s)\<rparr> s
   }"

definition sys_read :: "image \<Rightarrow> usize \<Rightarrow> 'a kernel_st_scheme \<Rightarrow> 'a kernel_st_scheme option" where
  "sys_read I = sys_file (fs_process_read I)"

definition sys_write_file :: "image \<Rightarrow> usize \<Rightarrow> 'a kernel_st_scheme \<Rightarrow> 'a kernel_st_scheme option" where
  "sys_write_file I = sys_file (fs_process_write I)"

text \<open>
  The loop of \<^verbatim>\<open>write\<close> on standard output. The counter is an \<^verbatim>\<open>i32\<close>. Without the MMU nothing is printed; an
  unmapped page ends the loop.
\<close>

fun print_buffer :: "usize \<Rightarrow> usize \<Rightarrow> nat list \<Rightarrow> nat \<Rightarrow> 'a kernel_st_scheme \<Rightarrow> (nat \<times> 'a kernel_st_scheme) option" where
  "print_buffer f buf [] iter s = Some (iter, s)"
| "print_buffer f buf (i # is) iter s = do {
     assert_that (iter + 1 < 2 ^ 31);
     if mmu_on f s then do {
       pa \<leftarrow> translate f (buf + of_nat i) s;
       case pa of
         Some a \<Rightarrow> print_buffer f buf is (iter + 1) (print_char (memory s a) s)
       | None \<Rightarrow> Some (iter + 1, s)
     }
     else print_buffer f buf is (iter + 1) s
   }"

definition sys_write :: "usize \<Rightarrow> 'a kernel_st_scheme \<Rightarrow> 'a kernel_st_scheme option" where
  "sys_write f s = do {
     let fd = (ucast (reg_of A0 f s) :: u16);
     let buf = reg_of A1 f s;
     let sz = reg_of A2 f s;
     (_, p) \<leftarrow> caller f s;
     if fd = 1 \<or> fd = 2 then do {
       (iter, s) \<leftarrow> print_buffer f buf [0..<unat sz] 0 s;
       Some (set_reg A0 f (of_nat iter) s)
     }
     else
       case fdesc (pdata p) fd of
         None \<Rightarrow> Some (set_reg A0 f 0 s)
       | Some Framebuffer \<Rightarrow> Some s
       | Some (File _) \<Rightarrow> Some s
       | Some _ \<Rightarrow> Some (set_reg A0 f 0 s)
   }"

definition sys_block :: "bool \<Rightarrow> usize \<Rightarrow> 'a kernel_st_scheme \<Rightarrow> 'a kernel_st_scheme option" where
  "sys_block wr f s = do {
     (_, s) \<leftarrow> set_waiting (pid_of f s) s;
     (_, s) \<leftarrow> block_op (reg_of A0 f s) (reg_of A1 f s) (ucast (reg_of A2 f s)) (reg_of A3 f s) wr (pid_of f s) s;
     Some s
   }"

text \<open>One page of the heap of a process: \<^verbatim>\<open>process.brk + (i << 12)\<close>.\<close>

definition grow_page :: "usize \<Rightarrow> usize \<Rightarrow> nat \<Rightarrow> usize list \<times> 'a page_st_scheme \<Rightarrow> (usize list \<times> 'a page_st_scheme) option" where
  "grow_page table brk0 i = (\<lambda>(pgs, s). do {
     (new_addr, s) \<leftarrow> zalloc 1 s;
     va \<leftarrow> uadd brk0 (push_bit 12 (of_nat i));
     s \<leftarrow> map_page table va new_addr (EntryBits_val UserReadWrite) 0 s;
     Some (pgs @ [new_addr], s)
   })"

definition sys_brk :: "usize \<Rightarrow> 'a kernel_st_scheme \<Rightarrow> 'a kernel_st_scheme option" where
  "sys_brk f s = do {
     let addr = reg_of A0 f s;
     (i, p) \<leftarrow> caller f s;
     (p, s) \<leftarrow> (if addr > brk p then do {
         (pgs, s) \<leftarrow> (if mmu_on f s then do {
             table \<leftarrow> table_of p;
             top \<leftarrow> uadd addr PAGE_SIZE;
             room \<leftarrow> usub top (brk p);
             for_each (grow_page table (brk p)) [0..<unat (room div PAGE_SIZE)] (pages (pdata p), s)
           } else Some (pages (pdata p), s));
         let p = p\<lparr>pdata := (pdata p)\<lparr>pages := pgs\<rparr>, brk := addr\<rparr>;
         Some (p, put_proc i p s)
       } else Some (p, s));
     Some (set_reg A0 f (brk p) s)
   }"

text \<open>\<^verbatim>\<open>get_framebuffer\<close>: without the MMU the device is taken and never put back.\<close>

definition FB_VADDR :: usize where "FB_VADDR = 0x30000000"

definition sys_framebuffer :: "usize \<Rightarrow> 'a kernel_st_scheme \<Rightarrow> 'a kernel_st_scheme option" where
  "sys_framebuffer f s = do {
     let gdev = reg_of A0 f s;
     let s = set_reg A0 f 0 s;
     if 0 < gdev \<and> gdev \<le> 8 then do {
       (taken, s) \<leftarrow> gpu_take gdev s;
       case taken of
         None \<Rightarrow> Some s
       | Some p \<Rightarrow> do {
           let ptr = gd_framebuffer p;
           s \<leftarrow> (if mmu_on f s then do {
               (_, prc) \<leftarrow> caller f s;
               table \<leftarrow> table_of prc;
               area \<leftarrow> umul (gd_width p) (gd_height p);
               bytes \<leftarrow> umul area 4;
               s \<leftarrow> for_each (\<lambda>i s. do {
                   va \<leftarrow> uadd FB_VADDR (push_bit 12 (of_nat i));
                   pa \<leftarrow> uadd ptr (push_bit 12 (of_nat i));
                   map_page table va pa (EntryBits_val UserReadWrite) 0 s
                 }) [0..<unat ((ucast bytes :: usize) div PAGE_SIZE)] s;
               Some (gpu_put gdev p s)
             } else Some s);
           Some (set_reg A0 f FB_VADDR s)
         }
     }
     else Some s
   }"

definition sys_transfer :: "image \<Rightarrow> usize \<Rightarrow> 'a kernel_st_scheme \<Rightarrow> 'a kernel_st_scheme option" where
  "sys_transfer I f s =
     gpu_transfer (gpu_structs I) (reg_of A0 f s) (ucast (reg_of A1 f s)) (ucast (reg_of A2 f s)) (ucast (reg_of A3 f s)) (ucast (reg_of A4 f s)) s"

text \<open>Events go to the caller one by one, and A0 counts them.\<close>

definition Event_bytes :: "Event \<Rightarrow> u8 list" where
  "Event_bytes ev = to_le 2 (EventType_val (event_type ev)) @ to_le 2 (ev_code ev) @ to_le 4 (ev_value ev)"

fun give_events :: "usize \<Rightarrow> usize \<Rightarrow> usize \<Rightarrow> nat list \<Rightarrow> Event list \<Rightarrow> 'a page_st_scheme \<Rightarrow> (Event list \<times> 'a page_st_scheme) option" where
  "give_events f table va [] q s = Some (q, s)"
| "give_events f table va (i # is) q s = do {
     pa \<leftarrow> virt_to_phys table (va + EVENT_SIZE * of_nat i) s;
     case pa of
       None \<Rightarrow> Some (q, s)
     | Some a \<Rightarrow> (case q of
           [] \<Rightarrow> None
         | ev # q \<Rightarrow> do {
             let s = s\<lparr>memory := store_bytes (memory s) a (Event_bytes ev)\<rparr>;
             n \<leftarrow> uadd (reg_of A0 f s) 1;
             give_events f table va is q (set_reg A0 f n s)
           })
   }"

definition take_events :: "usize \<Rightarrow> Event list \<Rightarrow> 'a kernel_st_scheme \<Rightarrow> (Event list \<times> 'a kernel_st_scheme) option" where
  "take_events f q s = do {
     let max_events = reg_of A1 f s;
     let va = reg_of A0 f s;
     if mmu_on f s then do {
       (_, p) \<leftarrow> caller f s;
       table \<leftarrow> table_of p;
       let s = set_reg A0 f 0 s;
       give_events f table va [0..<min (unat max_events) (length q)] q s
     }
     else Some (q, s)
   }"

definition sys_key_events :: "usize \<Rightarrow> 'a kernel_st_scheme \<Rightarrow> 'a kernel_st_scheme option" where
  "sys_key_events f s = do {
     q \<leftarrow> KEY_EVENTS s;
     (q, s) \<leftarrow> take_events f q (s\<lparr>KEY_EVENTS := None\<rparr>);
     Some (s\<lparr>KEY_EVENTS := Some q\<rparr>)
   }"

definition sys_abs_events :: "usize \<Rightarrow> 'a kernel_st_scheme \<Rightarrow> 'a kernel_st_scheme option" where
  "sys_abs_events f s = do {
     q \<leftarrow> ABS_EVENTS s;
     (q, s) \<leftarrow> take_events f q (s\<lparr>ABS_EVENTS := None\<rparr>);
     Some (s\<lparr>ABS_EVENTS := Some q\<rparr>)
   }"

text \<open>The keys of the map of descriptors in ascending order, and the next descriptor.\<close>

definition fd_keys :: "(u16 \<rightharpoonup> Descriptor) \<Rightarrow> u16 list" where
  "fd_keys fds = filter (\<lambda>k. fds k \<noteq> None) (map of_nat [0..<65536])"

definition next_fd :: "(u16 \<rightharpoonup> Descriptor) \<Rightarrow> u16 option" where
  "next_fd fds = uadd (fold (\<lambda>k max_fd. if k > max_fd then k else max_fd) (fd_keys fds) 2) 1"

definition device_of_path :: "rust_string \<Rightarrow> Descriptor option" where
  "device_of_path path =
     (if path = map of_char ''/dev/fb'' then Some Framebuffer
      else if path = map of_char ''/dev/butev'' then Some ButtonEvents
      else if path = map of_char ''/dev/absev'' then Some AbsoluteEvents
      else None)"

definition sys_open :: "usize \<Rightarrow> 'a kernel_st_scheme \<Rightarrow> 'a kernel_st_scheme option" where
  "sys_open f s = do {
     (i, p) \<leftarrow> caller f s;
     pa \<leftarrow> translate f (reg_of A0 f s) s;
     case pa of
       None \<Rightarrow> Some (set_reg A0 f MINUS_ONE s)
     | Some path \<Rightarrow> do {
         let str_path = c_string_max 256 (memory s) path [];
         max_fd \<leftarrow> next_fd (fdesc (pdata p));
         d \<leftarrow> (case device_of_path str_path of
             Some d \<Rightarrow> Some (Some d)
           | None \<Rightarrow> do {
               res \<leftarrow> fs_open 8 str_path \<lparr>dev = (), MFS_INODE_CACHE = INODE_CACHE s\<rparr>;
               Some (case res of Inl _ \<Rightarrow> None | Inr inode \<Rightarrow> Some (File inode))
             });
         case d of
           None \<Rightarrow> Some (set_reg A0 f MINUS_ONE s)
         | Some d \<Rightarrow> Some (set_reg A0 f (ucast max_fd)
             (put_proc i (p\<lparr>pdata := (pdata p)\<lparr>fdesc := (fdesc (pdata p))(max_fd \<mapsto> d)\<rparr>\<rparr>) s))
       }
   }"

definition do_syscall :: "hardware \<Rightarrow> image \<Rightarrow> usize \<Rightarrow> usize \<Rightarrow> 'a kernel_st_scheme \<Rightarrow> 'a kernel_st_scheme option" where
  "do_syscall H I mepc f s = do {
     let syscall_number = reg_of A7 f s;
     npc \<leftarrow> uadd mepc 4;
     let s = s\<lparr>memory := store64 (memory s) (frame_pc f) npc\<rparr>;
     if syscall_number = 93 \<or> syscall_number = 94 then delete_process (pid_of f s) s
     else if syscall_number = 1 then Some s
     else if syscall_number = 2 then Some (print_char (ucast (reg_of A0 f s)) s)
     else if syscall_number = 8 then Some s
     else if syscall_number = 10 then do { (_, s) \<leftarrow> set_sleeping (hw_mtime H) (pid_of f s) (reg_of A0 f s) s; Some s }
     else if syscall_number = 11 then sys_execv I f s
     else if syscall_number = 17 then sys_getcwd f s
     else if syscall_number = 48 then Some (set_reg A0 f MINUS_ONE s)
     else if syscall_number = 57 then sys_close f s
     else if syscall_number = 63 then sys_read I f s
     else if syscall_number = 64 then sys_write f s
     else if syscall_number = 65 then sys_write_file I f s
     else if syscall_number = 66 then Some (set_reg A0 f MINUS_ONE s)
     else if syscall_number = 80 then Some (set_reg A0 f 0 s)
     else if syscall_number = 172 then Some (set_reg A0 f (load64 (memory s) (frame_pid f)) s)
     else if syscall_number = 180 then sys_block False f s
     else if syscall_number = 181 then sys_block True f s
     else if syscall_number = 214 then sys_brk f s
     else if syscall_number = 1000 then sys_framebuffer f s
     else if syscall_number = 1001 then sys_transfer I f s
     else if syscall_number = 1002 then sys_key_events f s
     else if syscall_number = 1004 then sys_abs_events f s
     else if syscall_number = 1024 then sys_open f s
     else if syscall_number = 1062 then Some (set_reg A0 f (hw_mtime H) s)
     else Some s
   }"


section \<open>Frames in memory\<close>

text \<open>A frame that lies apart from the frames of all other processes.\<close>

definition frames_apart :: "usize \<Rightarrow> 'a proc_st_scheme \<Rightarrow> bool" where
  "frames_apart f s \<longleftrightarrow> frame_ok f
     \<and> (\<forall>pl q. PROCESS_LIST s = Some pl \<longrightarrow> q \<in> set pl \<longrightarrow> frame q = f \<or> disjoint_regions f 560 (frame q) 560)"

lemma frame_locs:
  "frame_reg f r = loc f (8 * gp r)" "frame_satp f = loc f 512" "frame_pc f = loc f 520" "frame_pid f = loc f 544"
  by (simp_all add: frame_reg_def frame_satp_def frame_pc_def frame_pid_def loc_def)

lemma gp_less: "gp r < 32"
  by (cases r) simp_all

lemma gp_inj: "gp r = gp r' \<longleftrightarrow> r = r'"
  by (cases r; cases r') simp_all

lemma load64_loc:
  assumes "unat f + N \<le> 2 ^ 64" "a + 8 \<le> N" "b + 8 \<le> N" "a + 8 \<le> b \<or> b + 8 \<le> a"
  shows "load64 (store64 m (loc f a) v) (loc f b) = load64 m (loc f b)"
  unfolding load64_def store64_def using load_store_apart [OF assms(1), of a "to_le 8 v" b 8 m] assms(2-4) by simp

lemma load64_loc_other:
  assumes "disjoint_regions f N g K" "a + 8 \<le> N" "b + 8 \<le> K"
  shows "load64 (store64 m (loc f a) v) (loc g b) = load64 m (loc g b)"
  unfolding load64_def store64_def using load_store_disjoint [OF assms(1), of a "to_le 8 v" b 8 m] assms(2-3) by simp

lemma frame_fields:
  assumes "frame_ok f"
  shows "load64 (store64 m (frame_reg f r) v) (frame_pid f) = load64 m (frame_pid f)"
    "load64 (store64 m (frame_reg f r) v) (frame_satp f) = load64 m (frame_satp f)"
    "load64 (store64 m (frame_pc f) v) (frame_reg f r) = load64 m (frame_reg f r)"
    "load64 (store64 m (frame_pc f) v) (frame_pid f) = load64 m (frame_pid f)"
    "load64 (store64 m (frame_pc f) v) (frame_satp f) = load64 m (frame_satp f)"
    "load64 (store64 m (frame_reg f r) v) (frame_reg f r') = (if r' = r then v else load64 m (frame_reg f r'))"
proof -
  note l = load64_loc [OF assms [unfolded frame_ok_def]] and g = gp_less [of r] gp_less [of r']
  show "load64 (store64 m (frame_reg f r) v) (frame_reg f r') = (if r' = r then v else load64 m (frame_reg f r'))"
  proof (cases "r' = r")
    case False
    then have "gp r' \<noteq> gp r" by (simp add: gp_inj)
    then have "8 * gp r + 8 \<le> 8 * gp r' \<or> 8 * gp r' + 8 \<le> 8 * gp r" by linarith
    then show ?thesis using False g l [of "8 * gp r" "8 * gp r'" m v] by (simp add: frame_locs)
  qed simp
qed (use load64_loc [OF assms [unfolded frame_ok_def]] gp_less [of r] in \<open>simp_all add: frame_locs\<close>)

lemma reg_of_set_reg: "frame_ok f \<Longrightarrow> reg_of r' f (set_reg r f v s) = (if r' = r then v else reg_of r' f s)"
  by (simp add: reg_of_def set_reg_def frame_fields)

lemma set_reg_frame:
  assumes "frame_ok f"
  shows "pid_of f (set_reg r f v s) = pid_of f s" "mmu_on f (set_reg r f v s) = mmu_on f s"
  using assms by (simp_all add: pid_of_def mmu_on_def set_reg_def frame_fields)

lemma put_proc_frame [simp]:
  "pid_of f (put_proc i p s) = pid_of f s" "mmu_on f (put_proc i p s) = mmu_on f s" "reg_of r f (put_proc i p s) = reg_of r f s"
  by (simp_all add: pid_of_def mmu_on_def reg_of_def put_proc_def)

text \<open>Writes to the frame of the caller do not change which process has which pid.\<close>

lemma frame_pid_other:
  assumes "frames_apart f s" "PROCESS_LIST s = Some pl" "q \<in> set pl"
  shows "frame_pid_of (store64 (memory s) (frame_reg f r) v) q = frame_pid_of (memory s) q"
    "frame_pid_of (store64 (memory s) (frame_pc f) v) q = frame_pid_of (memory s) q"
proof -
  have ok: "frame_ok f" and q: "frame q = f \<or> disjoint_regions f 560 (frame q) 560" using assms by (auto simp: frames_apart_def)
  note g = gp_less [of r]
  show "frame_pid_of (store64 (memory s) (frame_reg f r) v) q = frame_pid_of (memory s) q"
    using q g frame_fields(1) [OF ok, of "memory s" r v] load64_loc_other [of f 560 "frame q" 560 "8 * gp r" 544 "memory s" v]
    by (auto simp: frame_pid_of_def frame_locs)
  show "frame_pid_of (store64 (memory s) (frame_pc f) v) q = frame_pid_of (memory s) q"
    using q frame_fields(4) [OF ok, of "memory s" v] load64_loc_other [of f 560 "frame q" 560 520 544 "memory s" v]
    by (auto simp: frame_pid_of_def frame_locs)
qed

lemma find_index_cong: "(\<And>x. x \<in> set xs \<Longrightarrow> P x = Q x) \<Longrightarrow> find_index P xs = find_index Q xs"
  unfolding find_index_def by (rule find_cong) simp_all

lemma get_by_pid_set_reg: "frames_apart f s \<Longrightarrow> get_by_pid pd (set_reg r f v s) = get_by_pid pd s"
  by (auto simp: get_by_pid_def set_reg_def frame_pid_other split: option.split intro: find_index_cong)

lemma get_by_pid_pc:
  "frames_apart f s \<Longrightarrow> get_by_pid pd (s\<lparr>memory := store64 (memory s) (frame_pc f) v\<rparr>) = get_by_pid pd s"
  by (auto simp: get_by_pid_def frame_pid_other split: option.split intro: find_index_cong)

lemma caller_set_reg:
  assumes "frames_apart f s"
  shows "caller f (set_reg r f v s) = caller f s"
proof -
  have "frame_ok f" using assms by (simp add: frames_apart_def)
  then show ?thesis
    by (simp add: caller_def set_reg_frame get_by_pid_set_reg [OF assms]) (simp add: proc_at_def set_reg_def)
qed

lemma frames_apart_set_reg: "frames_apart f (set_reg r f v s) = frames_apart f s"
  by (simp add: frames_apart_def set_reg_def)

lemma callerD:
  assumes "caller f s = Some (i, p)"
  obtains pl where "PROCESS_LIST s = Some pl" "i < length pl" "p = pl ! i" "get_by_pid (pid_of f s) s = Some i"
    "find_index (\<lambda>q. frame_pid_of (memory s) q = pid_of f s) pl = Some i"
  using assms by (auto simp: caller_def proc_at_def get_by_pid_def split: Option.bind_splits option.splits if_splits)

lemma find_index_update:
  assumes "find_index P xs = Some i" "P y"
  shows "find_index P (xs[i := y]) = Some i"
  using assms by (auto simp: find_index_Some nth_list_update)

text \<open>Changing the caller in the list, but for its frame.\<close>

lemma caller_put_proc:
  assumes "caller f s = Some (i, p)" "frame p' = frame p"
  shows "caller f (put_proc i p' s) = Some (i, p')" "proc_at i (put_proc i p' s) = Some p'"
proof -
  obtain pl where pl: "PROCESS_LIST s = Some pl" "i < length pl" "p = pl ! i"
    "find_index (\<lambda>q. frame_pid_of (memory s) q = pid_of f s) pl = Some i"
    using callerD [OF assms(1)] by metis
  have "frame_pid_of (memory s) p' = pid_of f s" using pl(3,4) assms(2) by (simp add: find_index_Some frame_pid_of_def)
  then have "find_index (\<lambda>q. frame_pid_of (memory s) q = pid_of f s) (pl[i := p']) = Some i"
    by (rule find_index_update [OF pl(4)])
  then show "caller f (put_proc i p' s) = Some (i, p')" "proc_at i (put_proc i p' s) = Some p'"
    using pl(1,2) by (simp_all add: caller_def get_by_pid_def put_proc_def proc_at_def pid_of_def)
qed


section \<open>File descriptors\<close>

lemma fold_max_bounds:
  fixes a :: u16
  shows "a \<le> fold (\<lambda>k m. if k > m then k else m) ks a"
    and "k \<in> set ks \<Longrightarrow> k \<le> fold (\<lambda>k m. if k > m then k else m) ks a"
proof -
  have le: "a \<le> fold (\<lambda>k m. if k > m then k else m) ks a" for a :: u16 and ks
  proof (induction ks arbitrary: a)
    case (Cons x ks)
    have "a \<le> (if x > a then x else a)" by (auto intro: less_imp_le)
    also note Cons [of "if x > a then x else a"]
    finally show ?case by simp
  qed simp
  then show "a \<le> fold (\<lambda>k m. if k > m then k else m) ks a" .
  show "k \<le> fold (\<lambda>k m. if k > m then k else m) ks a" if "k \<in> set ks"
    using that
  proof (induction ks arbitrary: a)
    case (Cons x ks)
    have "x \<le> (if x > a then x else a)" by (auto simp: not_less)
    also note le [of "if x > a then x else a" ks]
    finally show ?case using Cons by auto
  qed simp
qed

lemma fd_keys_set: "k \<in> set (fd_keys fds) \<longleftrightarrow> fds k \<noteq> None"
proof -
  have "k \<in> of_nat ` {0..<65536}"
    using unsigned_less [of k, where 'a = nat] by (intro image_eqI [of _ _ "unat k"]) simp_all
  then show ?thesis by (auto simp: fd_keys_def)
qed

lemma next_fd_fresh:
  assumes "next_fd fds = Some fd"
  shows "fds fd = None" "3 \<le> fd" "\<And>k. fds k \<noteq> None \<Longrightarrow> k < fd"
proof -
  let ?g = "\<lambda>k max_fd :: u16. if k > max_fd then k else max_fd"
  let ?m = "fold ?g (fd_keys fds) 2"
  have u: "unat ?m + 1 < 2 ^ 16" "fd = ?m + 1" using assms by (auto simp: next_fd_def uadd_eq_Some)
  then have ufd: "unat fd = unat ?m + 1" by (simp add: unat_add_no_wrap)
  have "2 \<le> ?m" by (rule fold_max_bounds(1))
  then show "3 \<le> fd" using ufd by (simp add: word_le_nat_alt)
  show lt: "k < fd" if "fds k \<noteq> None" for k
  proof -
    have "k \<le> ?m" by (rule fold_max_bounds(2)) (use that in \<open>simp add: fd_keys_set\<close>)
    then show ?thesis using ufd by (simp add: word_le_nat_alt word_less_nat_alt)
  qed
  show "fds fd = None" using lt [of fd] by (cases "fds fd") simp_all
qed

text \<open>What \<^verbatim>\<open>open\<close> finds under a path.\<close>

definition opens :: "rust_string \<Rightarrow> Descriptor \<Rightarrow> 'a kernel_st_scheme \<Rightarrow> bool" where
  "opens path d s \<longleftrightarrow> device_of_path path = Some d
     \<or> device_of_path path = None \<and> (\<exists>inode. d = File inode \<and> fs_open 8 path \<lparr>dev = (), MFS_INODE_CACHE = INODE_CACHE s\<rparr> = Some (Inr inode))"

lemma sys_open_eq:
  assumes "caller f s = Some (i, p)" "translate f (reg_of A0 f s) s = Some (Some path)"
    "opens (c_string_max 256 (memory s) path []) d s" "next_fd (fdesc (pdata p)) = Some fd"
  shows "sys_open f s = Some (set_reg A0 f (ucast fd) (put_proc i (p\<lparr>pdata := (pdata p)\<lparr>fdesc := (fdesc (pdata p))(fd \<mapsto> d)\<rparr>\<rparr>) s))"
  using assms by (auto simp: sys_open_def opens_def)

section \<open>Standard output\<close>

lemma write_str_eq: "write_str base out s = s\<lparr>UART := UART s @ map (Pair base) out\<rparr>"
proof (induction out arbitrary: s)
  case (Cons c out)
  have "write_str base (c # out) s = write_str base out (uart_put base c s)" by (simp add: write_str_def)
  then show ?case using Cons by (simp add: uart_put_def uart_write_def)
qed (simp add: write_str_def)

lemma print_char_eq: "print_char c s = s\<lparr>UART := UART s @ map (Pair UART_BASE) (push_char c [])\<rparr>"
  by (simp add: print_char_def write_str_eq)

lemma UART_irrelevant [simp]:
  "mmu_on f (s\<lparr>UART := u\<rparr>) = mmu_on f s" "caller f (s\<lparr>UART := u\<rparr>) = caller f s" "translate f a (s\<lparr>UART := u\<rparr>) = translate f a s"
  by (simp_all add: mmu_on_def caller_def get_by_pid_def pid_of_def proc_at_def translate_def virt_to_phys_def cong: option.case_cong)

text \<open>The text that the kernel prints for a sequence of bytes.\<close>

definition printed :: "u8 list \<Rightarrow> rust_string" where
  "printed bs = concat (map (\<lambda>b. push_char b []) bs)"

definition mapped :: "usize \<Rightarrow> usize \<Rightarrow> 'a kernel_st_scheme \<Rightarrow> nat \<Rightarrow> bool" where
  "mapped f buf s i \<longleftrightarrow> translate f (buf + of_nat i) s \<noteq> Some None"

definition byte_behind :: "usize \<Rightarrow> usize \<Rightarrow> 'a kernel_st_scheme \<Rightarrow> nat \<Rightarrow> u8" where
  "byte_behind f buf s i = memory s (the (the (translate f (buf + of_nat i) s)))"

lemma print_buffer_eq:
  assumes "mmu_on f s" "\<And>i. i \<in> set is \<Longrightarrow> translate f (buf + of_nat i) s \<noteq> None" "iter + length is < 2 ^ 31"
  shows "print_buffer f buf is iter s = Some
    (iter + (if \<forall>i \<in> set is. mapped f buf s i then length is else length (takeWhile (mapped f buf s) is) + 1),
     s\<lparr>UART := UART s @ map (Pair UART_BASE) (printed (map (byte_behind f buf s) (takeWhile (mapped f buf s) is)))\<rparr>)"
  using assms
proof (induction "is" arbitrary: iter s)
  case Nil
  show ?case by (simp add: printed_def)
next
  case (Cons i "is")
  obtain pa where pa: "translate f (buf + of_nat i) s = Some pa" using Cons.prems(2) [of i] by auto
  show ?case
  proof (cases pa)
    case None
    then show ?thesis using Cons.prems pa by (simp add: mapped_def printed_def)
  next
    case (Some a)
    let ?s = "s\<lparr>UART := UART s @ map (Pair UART_BASE) (push_char (memory s a) [])\<rparr>"
    have b: "mapped f buf s i" "byte_behind f buf s i = memory s a" using pa Some by (simp_all add: mapped_def byte_behind_def)
    have m: "mapped f buf ?s = mapped f buf s" "byte_behind f buf ?s = byte_behind f buf s"
      by (simp_all add: mapped_def byte_behind_def fun_eq_iff)
    have "print_buffer f buf (i # is) iter s = print_buffer f buf is (iter + 1) ?s"
      using Cons.prems(1,3) pa Some by (simp add: print_char_eq)
    also have "\<dots> = Some (iter + 1 + (if \<forall>i \<in> set is. mapped f buf ?s i then length is else length (takeWhile (mapped f buf ?s) is) + 1),
       ?s\<lparr>UART := UART ?s @ map (Pair UART_BASE) (printed (map (byte_behind f buf ?s) (takeWhile (mapped f buf ?s) is)))\<rparr>)"
      using Cons.prems by (intro Cons.IH) simp_all
    finally show ?thesis using b unfolding m by (simp add: printed_def)
  qed
qed


section \<open>Paths\<close>

lemma c_string_max_eq:
  assumes "length bs < n" "\<And>k. k < length bs \<Longrightarrow> m (a + of_nat k) = bs ! k" "m (a + of_nat (length bs)) = 0" "0 \<notin> set bs"
  shows "c_string_max n m a path = fold push_char bs path"
  using assms
proof (induction bs arbitrary: n a path)
  case Nil
  then show ?case by (cases n) simp_all
next
  case (Cons b bs)
  obtain k where n: "n = Suc k" using Cons.prems(1) by (cases n) simp_all
  have "m a = b" "b \<noteq> 0" using Cons.prems(2) [of 0] Cons.prems(4) by auto
  moreover have "c_string_max k m (a + 1) (push_char b path) = fold push_char bs (push_char b path)"
  proof (rule Cons.IH)
    show "m (a + 1 + of_nat i) = bs ! i" if "i < length bs" for i
      using Cons.prems(2) [of "Suc i"] that by (simp add: add.assoc)
    show "m (a + 1 + of_nat (length bs)) = 0" using Cons.prems(3) by (simp add: add.assoc)
  qed (use Cons.prems n in simp_all)
  ultimately show ?case by (simp add: n)
qed

section \<open>A process making system calls\<close>

text \<open>
  Process 3 with its frame at \<open>0x4000\<close> and a root table at \<open>0x5000\<close> that maps the first gigabyte to itself;
  at \<open>0x6000\<close> lies the path \<^verbatim>\<open>/dev/fb\<close>.
\<close>

definition example_caller :: Process where
  "example_caller = (example_process 3 Running 0)\<lparr>frame := 0x4000, mmu_table := 0x5000\<rparr>"

definition example_memory :: mem where
  "example_memory = (\<lambda>_. 0)(0x4207 := 0x80, 0x4220 := 3, 0x5000 := 0x0f,
     0x6000 := 47, 0x6001 := 100, 0x6002 := 101, 0x6003 := 118, 0x6004 := 47, 0x6005 := 102, 0x6006 := 98)"

definition example_kernel :: kernel_st where
  "example_kernel = block_st.extend (example_block\<lparr>memory := example_memory, PROCESS_LIST := Some [example_caller]\<rparr>)
     \<lparr>INPUT_DEVICES = replicate 8 None, ABS_EVENTS = None, KEY_EVENTS = None, GPU_DEVICES = replicate 8 None,
      ENTROPY_DEVICES = replicate 8 None, UART = [], INODE_CACHE = replicate 8 None\<rparr>"

lemma example_kernel_fields:
  "memory example_kernel = example_memory" "PROCESS_LIST example_kernel = Some [example_caller]" "UART example_kernel = []"
  "BLOCK_DEVICES example_kernel ! 0 = None" "length (BLOCK_DEVICES example_kernel) = 8" "MMIO example_kernel = []"
  by (simp_all add: example_kernel_def block_st.defs example_block_def)

lemma example_frame:
  "frame example_caller = 0x4000" "p_pid example_caller = 3" "mmu_table example_caller = 0x5000" "pdata example_caller = ProcessData_new"
  by (simp_all add: example_caller_def example_process_def)

text \<open>The facts hold for every memory that agrees on the frame and on the first entry of the root table.\<close>

lemma example_regs:
  assumes "\<And>x. in_region 0x4200 8 x \<or> in_region 0x4220 8 x \<or> in_region 0x5000 8 x \<Longrightarrow> m x = example_memory x"
  shows "load64 m (frame_pid 0x4000) = 3" "load64 m (frame_satp 0x4000) = 0x8000000000000000" "load64 m 0x5000 = 0x0f"
proof -
  have "load64 m (frame_pid 0x4000) = load64 example_memory 0x4220"
    unfolding frame_pid_def by (simp, rule load64_cong) (use assms in simp)
  also have "\<dots> = 3" by (simp add: load64_def load_bytes_def upt_rec example_memory_def)
  finally show "load64 m (frame_pid 0x4000) = 3" .
  have "load64 m (frame_satp 0x4000) = load64 example_memory 0x4200"
    unfolding frame_satp_def by (simp, rule load64_cong) (use assms in simp)
  also have "\<dots> = 0x8000000000000000" by (simp add: load64_def load_bytes_def upt_rec example_memory_def)
  finally show "load64 m (frame_satp 0x4000) = 0x8000000000000000" .
  have "load64 m 0x5000 = load64 example_memory 0x5000" by (rule load64_cong) (use assms in simp)
  also have "\<dots> = 0x0f" by (simp add: load64_def load_bytes_def upt_rec example_memory_def)
  finally show "load64 m 0x5000 = 0x0f" .
qed

lemma example_identity_map:
  "load64 (memory s) 0x5000 = 0x0f \<Longrightarrow> virt_to_phys 0x5000 0x6000 s = Some (Some 0x6000)"
  "load64 (memory s) 0x5000 = 0x0f \<Longrightarrow> virt_to_phys 0x5000 0x6001 s = Some (Some 0x6001)"
  by (simp_all add: virt_to_phys_def walk.simps vpn_def entry_at_def is_invalid_def is_valid_def is_leaf_def get_entry_def Let_def)


text \<open>The example process calls with register values \<open>a0\<close>, \<open>a1\<close>, \<open>a2\<close> and \<open>a7\<close>.\<close>

definition example_call :: "usize \<Rightarrow> usize \<Rightarrow> usize \<Rightarrow> usize \<Rightarrow> kernel_st" where
  "example_call a0 a1 a2 a7 = set_reg A7 0x4000 a7 (set_reg A2 0x4000 a2 (set_reg A1 0x4000 a1 (set_reg A0 0x4000 a0 example_kernel)))"

lemma example_call_memory:
  "\<not> in_region 0x4000 256 x \<Longrightarrow> memory (example_call a0 a1 a2 a7) x = example_memory x"
proof -
  have r: "in_region (frame_reg 0x4000 r) 8 x \<Longrightarrow> in_region 0x4000 256 x" for r
  proof -
    assume "in_region (frame_reg 0x4000 r) 8 x"
    then obtain k where k: "k < 8" "x = 0x4000 + of_nat (8 * gp r + k)" by (auto simp: frame_reg_def add.assoc elim!: in_regionE)
    then show ?thesis using in_region_offset [of "8 * gp r + k" 256 "0x4000"] gp_less [of r] by simp
  qed
  assume "\<not> in_region 0x4000 256 x"
  then have "\<not> in_region (frame_reg 0x4000 r) 8 x" for r using r by blast
  then show "memory (example_call a0 a1 a2 a7) x = example_memory x"
    by (simp add: example_call_def set_reg_def store64_outside example_kernel_fields)
qed

lemma example_call_facts:
  "reg_of A0 0x4000 (example_call a0 a1 a2 a7) = a0" "reg_of A1 0x4000 (example_call a0 a1 a2 a7) = a1"
  "reg_of A2 0x4000 (example_call a0 a1 a2 a7) = a2" "reg_of A7 0x4000 (example_call a0 a1 a2 a7) = a7"
  "pid_of 0x4000 (example_call a0 a1 a2 a7) = 3" "mmu_on 0x4000 (example_call a0 a1 a2 a7)"
  "caller 0x4000 (example_call a0 a1 a2 a7) = Some (0, example_caller)"
  "frames_apart 0x4000 (example_call a0 a1 a2 a7)" "frame_ok 0x4000"
  "translate 0x4000 0x6000 (example_call a0 a1 a2 a7) = Some (Some 0x6000)"
  "translate 0x4000 0x6001 (example_call a0 a1 a2 a7) = Some (Some 0x6001)"
proof -
  let ?s = "example_call a0 a1 a2 a7"
  show ok: "frame_ok 0x4000" by (simp add: frame_ok_def)
  show fa: "frames_apart 0x4000 ?s"
    by (simp add: frames_apart_def frame_ok_def example_call_def set_reg_def example_kernel_fields example_frame)
  show "reg_of A0 0x4000 ?s = a0" "reg_of A1 0x4000 ?s = a1" "reg_of A2 0x4000 ?s = a2" "reg_of A7 0x4000 ?s = a7"
    by (simp_all add: example_call_def reg_of_set_reg ok)
  have "memory ?s x = example_memory x" if "in_region 0x4200 8 x \<or> in_region 0x4220 8 x \<or> in_region 0x5000 8 x" for x
  proof (rule example_call_memory)
    show "\<not> in_region 0x4000 256 x" using that by (auto simp: in_region_iff)
  qed
  note r = example_regs [OF this]
  show p: "pid_of 0x4000 ?s = 3" and m: "mmu_on 0x4000 ?s" by (simp_all add: pid_of_def mmu_on_def r)
  have pl: "PROCESS_LIST ?s = Some [example_caller]" by (simp add: example_call_def set_reg_def example_kernel_fields)
  show c: "caller 0x4000 ?s = Some (0, example_caller)"
    by (simp add: caller_def p get_by_pid_def pl proc_at_def find_index_def frame_pid_of_def example_frame r)
  show "translate 0x4000 0x6000 ?s = Some (Some 0x6000)" "translate 0x4000 0x6001 ?s = Some (Some 0x6001)"
    using m c by (simp_all add: translate_def table_of_def example_frame null_mut_def example_identity_map r)
qed

lemma example_no_fds: "next_fd (fdesc (pdata example_caller)) = Some 3"
proof -
  have "fd_keys Map.empty = []" using fd_keys_set [of _ Map.empty] by (simp add: fd_keys_def filter_empty_conv)
  then show ?thesis by (simp add: example_frame ProcessData_new_def next_fd_def uadd_def)
qed

lemma example_path: "c_string_max 256 (memory (example_call a0 a1 a2 a7)) 0x6000 [] = map of_char ''/dev/fb''"
proof -
  let ?m = "memory (example_call a0 a1 a2 a7)" and ?bs = "map of_char ''/dev/fb'' :: u8 list"
  have "?m x = example_memory x" if "in_region 0x6000 8 x" for x
    by (rule example_call_memory) (use that in \<open>auto simp: in_region_iff\<close>)
  then have m: "?m (0x6000 + of_nat k) = example_memory (0x6000 + of_nat k)" if "k < 8" for k
    using that in_region_offset [of k 8 "0x6000"] by simp
  have "c_string_max 256 ?m 0x6000 [] = fold push_char ?bs []"
  proof (rule c_string_max_eq)
    show "?m (0x6000 + of_nat k) = ?bs ! k" if "k < length ?bs" for k
    proof -
      have "k = 0 \<or> k = 1 \<or> k = 2 \<or> k = 3 \<or> k = 4 \<or> k = 5 \<or> k = 6" using that by simp linarith
      then show ?thesis using m [of k] by (elim disjE) (simp_all add: example_memory_def)
    qed
    show "?m (0x6000 + of_nat (length ?bs)) = 0" using m [of 7] by (simp add: example_memory_def)
  qed simp_all
  then show ?thesis by (simp add: push_char_def)
qed


section \<open>Properties\<close>

text \<open>
  C28: \<^verbatim>\<open>open\<close> and \<^verbatim>\<open>close\<close> of a file or device. \<^verbatim>\<open>open\<close> returns a descriptor of 3 or more that the process does not use
  yet and enters what was opened there, changing no other descriptor; a following \<^verbatim>\<open>close\<close>, which finds the descriptor in A0, returns 0
  and restores the process exactly.
\<close>
theorem open_close_roundtrip:
  assumes c: "caller f s = Some (i, p)" and fa: "frames_apart f s"
    and t: "translate f (reg_of A0 f s) s = Some (Some path)" and o: "opens (c_string_max 256 (memory s) path []) d s"
    and n: "next_fd (fdesc (pdata p)) = Some fd"
  shows "\<exists>s1 s2. sys_open f s = Some s1 \<and> reg_of A0 f s1 = ucast fd \<and> 3 \<le> fd \<and> fdesc (pdata p) fd = None
    \<and> proc_at i s1 = Some (p\<lparr>pdata := (pdata p)\<lparr>fdesc := (fdesc (pdata p))(fd \<mapsto> d)\<rparr>\<rparr>)
    \<and> sys_close f s1 = Some s2 \<and> reg_of A0 f s2 = 0 \<and> proc_at i s2 = Some p"
proof -
  have ok: "frame_ok f" using fa by (simp add: frames_apart_def)
  let ?p1 = "p\<lparr>pdata := (pdata p)\<lparr>fdesc := (fdesc (pdata p))(fd \<mapsto> d)\<rparr>\<rparr>"
  let ?s0 = "put_proc i ?p1 s" and ?s1 = "set_reg A0 f (ucast fd) (put_proc i ?p1 s)"
  note fr = next_fd_fresh [OF n]
  have c1: "caller f ?s0 = Some (i, ?p1)" "proc_at i ?s0 = Some ?p1" by (simp_all add: caller_put_proc [OF c])
  obtain pl where pl: "PROCESS_LIST s = Some pl" "i < length pl" "p = pl ! i" using callerD [OF c] by metis
  have fa0: "frames_apart f ?s0"
  proof -
    have "frame q = f \<or> disjoint_regions f 560 (frame q) 560" if "q \<in> set (pl[i := ?p1])" for q
    proof (cases "q = ?p1")
      case True
      then show ?thesis using fa pl by (simp add: frames_apart_def)
    next
      case False
      then have "q \<in> set pl" using that set_update_subset_insert [of pl i ?p1] by auto
      then show ?thesis using fa pl(1) by (simp add: frames_apart_def)
    qed
    then show ?thesis using ok pl(1) by (simp add: frames_apart_def put_proc_def)
  qed
  have cl1: "caller f ?s1 = Some (i, ?p1)" using caller_set_reg [OF fa0] c1(1) by simp
  have undo: "?p1\<lparr>pdata := (pdata ?p1)\<lparr>fdesc := (fdesc (pdata ?p1))(fd := None)\<rparr>\<rparr> = p"
    using fr(1) by (simp add: fun_upd_idem)
  have a0: "reg_of A0 f ?s1 = ucast fd" by (simp add: reg_of_set_reg [OF ok])
  have fd: "(ucast (ucast fd :: usize) :: u16) = fd" by (rule ucast_pid)
  have close: "sys_close f ?s1 = Some (set_reg A0 f 0 (put_proc i p ?s1))"
    using cl1 undo by (simp add: sys_close_def a0 fd)
  have "proc_at i (set_reg A0 f 0 (put_proc i p ?s1)) = proc_at i (put_proc i p ?s1)" by (simp add: proc_at_def set_reg_def)
  also have "\<dots> = Some p" using caller_put_proc(2) [OF cl1, of p] by simp
  finally have "proc_at i (set_reg A0 f 0 (put_proc i p ?s1)) = Some p" .
  moreover have "proc_at i ?s1 = Some ?p1" using c1(2) by (simp add: proc_at_def set_reg_def)
  ultimately show ?thesis
    using sys_open_eq [OF c t o n] a0 fr(1,2) close reg_of_set_reg [OF ok, of A0 A0 0 "put_proc i p ?s1"] by auto
qed

theorem open_close_roundtrip_witness:
  "\<exists>s1 s2. sys_open 0x4000 (example_call 0x6000 0 0 1024) = Some s1 \<and> reg_of A0 0x4000 s1 = 3
     \<and> map_option (\<lambda>p. fdesc (pdata p) 3) (proc_at 0 s1) = Some (Some Framebuffer)
     \<and> sys_close 0x4000 s1 = Some s2 \<and> proc_at 0 s2 = Some example_caller"
proof -
  let ?s = "example_call 0x6000 0 0 1024"
  have t: "translate 0x4000 (reg_of A0 0x4000 ?s) ?s = Some (Some 0x6000)" by (simp add: example_call_facts)
  have o: "opens (c_string_max 256 (memory ?s) 0x6000 []) Framebuffer ?s" unfolding example_path by (simp add: opens_def device_of_path_def)
  show ?thesis using open_close_roundtrip [OF example_call_facts(7,8) t o example_no_fds] by auto
qed

text \<open>
  C29: \<^verbatim>\<open>write\<close> to standard output. With the MMU on, the bytes of the buffer are translated one by one and printed, in order, up to
  the first page fault; a byte of 128 or more is printed as a character of two bytes. Without a fault A0 is the number of
  bytes; with a fault it is one more than the number of bytes printed. Memory outside A0 is not changed.
\<close>
theorem write_prints_buffer:
  assumes c: "caller f s = Some (i, p)" and ok: "frame_ok f" and on: "mmu_on f s"
    and fd: "reg_of A0 f s = 1 \<or> reg_of A0 f s = 2" and n: "unat (reg_of A2 f s) = n" "n < 2 ^ 31"
    and t: "\<And>k. k < n \<Longrightarrow> translate f (reg_of A1 f s + of_nat k) s \<noteq> None"
  shows "\<exists>s'. sys_write f s = Some s' \<and>
    (let good = takeWhile (mapped f (reg_of A1 f s) s) [0..<n] in
       UART s' = UART s @ map (Pair UART_BASE) (printed (map (byte_behind f (reg_of A1 f s) s) good))
       \<and> reg_of A0 f s' = of_nat (if length good = n then n else length good + 1)
       \<and> memory s' = store64 (memory s) (frame_reg f A0) (reg_of A0 f s'))"
proof -
  let ?good = "takeWhile (mapped f (reg_of A1 f s) s) [0..<n]"
  have fd16: "(ucast (reg_of A0 f s) :: u16) = 1 \<or> (ucast (reg_of A0 f s) :: u16) = 2" using fd by auto
  have all: "(\<forall>k \<in> set [0..<n]. mapped f (reg_of A1 f s) s k) \<longleftrightarrow> length ?good = n"
    using takeWhile_eq_all_conv [of "mapped f (reg_of A1 f s) s" "[0..<n]"] length_takeWhile_le [of "mapped f (reg_of A1 f s) s" "[0..<n]"]
    by (metis diff_zero length_upt takeWhile_eq_take take_all_iff order_refl)
  have "print_buffer f (reg_of A1 f s) [0..<n] 0 s = Some (if length ?good = n then n else length ?good + 1,
     s\<lparr>UART := UART s @ map (Pair UART_BASE) (printed (map (byte_behind f (reg_of A1 f s) s) ?good))\<rparr>)"
    using print_buffer_eq [OF on, of "[0..<n]" "reg_of A1 f s" 0] t n(2) unfolding all by simp
  then have run: "sys_write f s = Some (set_reg A0 f (of_nat (if length ?good = n then n else length ?good + 1))
     (s\<lparr>UART := UART s @ map (Pair UART_BASE) (printed (map (byte_behind f (reg_of A1 f s) s) ?good))\<rparr>))"
    using c fd16 by (auto simp: sys_write_def n(1))
  show ?thesis
    unfolding run by (simp add: Let_def reg_of_set_reg [OF ok] del: of_nat_Suc of_nat_add) (simp add: set_reg_def)
qed

theorem write_prints_buffer_witness:
  "\<exists>s'. sys_write 0x4000 (example_call 1 0x6000 2 64) = Some s' \<and> UART s' = [(0x10000000, 47), (0x10000000, 100)]
     \<and> reg_of A0 0x4000 s' = 2"
proof -
  let ?s = "example_call 1 0x6000 2 64"
  have k: "translate 0x4000 (reg_of A1 0x4000 ?s + of_nat k) ?s = Some (Some (0x6000 + of_nat k))" if "k < 2" for k
    using that by (auto simp: example_call_facts less_Suc_eq numeral_2_eq_2)
  then have m: "mapped 0x4000 (reg_of A1 0x4000 ?s) ?s k" "byte_behind 0x4000 (reg_of A1 0x4000 ?s) ?s k = memory ?s (0x6000 + of_nat k)"
    if "k < 2" for k using that by (simp_all add: mapped_def byte_behind_def)
  have b: "memory ?s 0x6000 = 47" "memory ?s 0x6001 = 100"
    by (simp_all add: example_call_memory in_region_def example_memory_def)
  have l: "[0..<2] = [0, 1 :: nat]" by (simp add: upt_rec)
  have tw: "takeWhile (mapped 0x4000 (reg_of A1 0x4000 ?s) ?s) [0..<2] = [0, Suc 0]" unfolding l using m(1) by simp
  have p: "printed (map (byte_behind 0x4000 (reg_of A1 0x4000 ?s) ?s) [0, Suc 0]) = [47, 100]"
    using m(2) [of 0] m(2) [of 1] b by (simp add: printed_def push_char_def)
  have u: "UART ?s = []" by (simp add: example_call_def set_reg_def example_kernel_fields)
  have n: "unat (reg_of A2 0x4000 ?s) = 2" "reg_of A0 0x4000 ?s = 1 \<or> reg_of A0 0x4000 ?s = 2" by (simp_all add: example_call_facts)
  have t: "translate 0x4000 (reg_of A1 0x4000 ?s + of_nat k) ?s \<noteq> None" if "k < 2" for k using k [OF that] by simp
  from write_prints_buffer [OF example_call_facts(7,9,6) n(2,1) _ t] show ?thesis
    unfolding tw u by (auto simp: Let_def UART_BASE_def p [simplified])
qed

text \<open>
  A block request that fails is never reported. When the device does not exist, the size is not a multiple of 512 or the device is read-only for a
  write, the system calls 180 and 181 leave the caller waiting: nothing is submitted to any device, A0 is unchanged, and
  no interrupt will ever wake the process.
\<close>
lemma block_error_stays_waiting:
  assumes ok: "frame_ok f" and pc: "unat mepc + 4 < 2 ^ 64" and a7: "reg_of A7 f s = (if wr then 181 else 180)"
    and pl: "PROCESS_LIST s = Some pl" "find_index (\<lambda>p. p_pid p = pid_of f s) pl = Some i"
    and dev: "1 \<le> reg_of A0 f s" "unat (reg_of A0 f s) \<le> length (BLOCK_DEVICES s)"
    and err: "case BLOCK_DEVICES s ! unat (reg_of A0 f s - 1) of None \<Rightarrow> True
      | Some bd \<Rightarrow> (ucast (reg_of A2 f s) :: u32) mod 512 \<noteq> 0 \<or> bd_read_only bd \<and> wr"
  shows "\<exists>s'. do_syscall H I mepc f s = Some s' \<and> PROCESS_LIST s' = Some (pl[i := (pl ! i)\<lparr>pstate := Waiting\<rparr>])
    \<and> MMIO s' = MMIO s \<and> BLOCK_DEVICES s' = BLOCK_DEVICES s \<and> reg_of A0 f s' = reg_of A0 f s
    \<and> load64 (memory s') (frame_pc f) = mepc + 4"
proof -
  let ?s1 = "s\<lparr>memory := store64 (memory s) (frame_pc f) (mepc + 4)\<rparr>"
  let ?s2 = "?s1\<lparr>PROCESS_LIST := Some (pl[i := (pl ! i)\<lparr>pstate := Waiting\<rparr>])\<rparr>"
  have p: "uadd mepc 4 = Some (mepc + 4)" using pc by (simp add: uadd_def)
  have r: "reg_of r f ?s1 = reg_of r f s" "pid_of f ?s1 = pid_of f s" for r
    by (simp_all add: reg_of_def pid_of_def frame_fields [OF ok])
  have r2: "reg_of r f ?s2 = reg_of r f s" "pid_of f ?s2 = pid_of f s" for r
    using r by (simp_all add: reg_of_def pid_of_def)
  have w: "set_waiting (pid_of f s) ?s1 = Some (True, ?s2)"
    using set_state_first_match [of ?s1 pl "pid_of f s" i 0 0] pl by simp
  have u: "usub (reg_of A0 f s) 1 = Some (reg_of A0 f s - 1)" using dev(1) by (simp add: usub_def)
  have lt: "unat (reg_of A0 f s - 1) < length (BLOCK_DEVICES s)" using dev by (simp add: unat_sub word_le_nat_alt)
  have "block_op (reg_of A0 f s) (reg_of A1 f s) (ucast (reg_of A2 f s)) (reg_of A3 f s) wr (pid_of f s) ?s2
      = Some (Inl (case BLOCK_DEVICES s ! unat (reg_of A0 f s - 1) of None \<Rightarrow> BlockDeviceNotFound
          | Some bd \<Rightarrow> if bd_read_only bd \<and> wr then ReadOnly else InvalidArgument), ?s2)"
    unfolding block_op_def u using lt err by (auto split: option.splits)
  then have "sys_block wr f ?s1 = Some ?s2" by (simp add: sys_block_def r w r2)
  moreover have "do_syscall H I mepc f s = sys_block wr f ?s1" using a7 by (cases wr) (simp_all add: do_syscall_def p)
  ultimately show ?thesis using r2(1) [of A0] by simp
qed

end
