(* ===== verification/Block_Pending.thy ===== *)
theory Block_Pending
  imports Input
begin

text \<open>
  Completion of block requests: what the interrupt handler of \<^verbatim>\<open>block.rs\<close> does to the heap, the
  queue and the process that waits. The heap, the queue and the frame of the process are three regions of memory
  that do not overlap.
\<close>

section \<open>The heap and the rest of memory\<close>

lemma kmem_chunks_outside:
  assumes ch: "kmem_chunks s cs" and eq: "\<And>x. in_region (KMEM_HEAD s) (heap_len s) x \<Longrightarrow> m x = memory s x"
  shows "kmem_chunks (s\<lparr>memory := m\<rparr>) cs"
proof -
  have w: "unat (KMEM_HEAD s) + heap_len s \<le> 2 ^ 64" using ch by (simp add: kmem_chunks_def)
  have "chunks_at m (KMEM_HEAD s) cs (KMEM_HEAD s + of_nat (heap_len s)) = chunks_at (memory s) (KMEM_HEAD s) cs (KMEM_HEAD s + of_nat (heap_len s))"
    by (rule chunks_at_cong) (use eq kmem_tail(3) [OF ch] in \<open>simp add: in_region_iff [OF w]\<close>)
  then show ?thesis using ch by (simp add: kmem_chunks_memory) (simp add: kmem_chunks_def)
qed

lemma kmem_process_list [simp]:
  "kmem_chunks (s\<lparr>PROCESS_LIST := pl\<rparr>) = kmem_chunks s" "payloads (s\<lparr>PROCESS_LIST := pl\<rparr>) = payloads s" "kmem_inv (s\<lparr>PROCESS_LIST := pl\<rparr>) = kmem_inv s"
  "heap_len (s\<lparr>PROCESS_LIST := pl\<rparr>) = heap_len s"
proof -
  show ch: "kmem_chunks (s\<lparr>PROCESS_LIST := pl\<rparr>) = kmem_chunks s" by (simp add: kmem_chunks_def heap_len_def fun_eq_iff)
  show "payloads (s\<lparr>PROCESS_LIST := pl\<rparr>) = payloads s" "kmem_inv (s\<lparr>PROCESS_LIST := pl\<rparr>) = kmem_inv s"
    by (simp_all add: payloads_def kmem_inv_def ch)
qed (simp add: heap_len_def)

lemma kfree_keeps:
  assumes ch: "kmem_chunks s cs" and p: "(p, k) \<in> payloads s"
  obtains m where "kfree p s = Some (s\<lparr>memory := m\<rparr>)" "kmem_inv (s\<lparr>memory := m\<rparr>)" "payloads (s\<lparr>memory := m\<rparr>) = payloads s - {(p, k)}"
    "\<And>q l. (q, l) \<in> payloads s \<Longrightarrow> (q, l) \<noteq> (p, k) \<Longrightarrow> load_bytes m q l = load_bytes (memory s) q l"
    "\<And>x. \<not> in_region (KMEM_HEAD s) (heap_len s) x \<Longrightarrow> m x = memory s x"
proof -
  obtain off z where tk: "(off, z) \<in> taken_chunks 0 cs" and pk: "p = KMEM_HEAD s + of_nat (off + 8)"
    using p unfolding payloads_eq [OF ch] by auto
  obtain m where m: "kfree (KMEM_HEAD s + of_nat (off + 8)) s = Some (s\<lparr>memory := m\<rparr>)"
    "kmem_chunks (s\<lparr>memory := m\<rparr>) (merge_free (release off cs))"
    "taken_chunks 0 (merge_free (release off cs)) = taken_chunks 0 cs - {(off, z)}"
    "\<And>x. \<not> in_free (KMEM_HEAD s) (release off cs) x \<Longrightarrow> m x = memory s x"
    "chunks_at (alist_update al_set_free (KMEM_HEAD s + of_nat off) (memory s)) (KMEM_HEAD s) (release off cs) (KMEM_HEAD s + of_nat (heap_len s))"
    by (rule kfree_payloads [OF ch tk], rule that, assumption+)
  have w: "unat (KMEM_HEAD s) + heap_len s \<le> 2 ^ 64" using ch by (simp add: kmem_chunks_def)
  have out: "m x = memory s x" if "\<not> in_region (KMEM_HEAD s) (heap_len s) x" for x
    using m(4) in_free_bounds [OF m(5), of x] that kmem_tail(3) [OF ch] by (auto simp: in_region_iff [OF w])
  obtain s' where s': "kfree p s = Some s'" "kmem_inv s'" "payloads s' = payloads s - {(p, k)}"
    "\<forall>(q, l) \<in> payloads s'. payload_bytes s' q l = payload_bytes s q l"
    using kfree_contract [OF ch p] by blast
  then have "s' = s\<lparr>memory := m\<rparr>" using m(1) pk by simp
  then show ?thesis using that [of m] s' out by (auto simp: payload_bytes_def)
qed

lemma memory_process_list:
  "s\<lparr>PROCESS_LIST := pl, memory := m\<rparr> = s\<lparr>memory := m, PROCESS_LIST := pl\<rparr>"
  by (cases s) simp

lemma kfree_process_list:
  "kfree p (s\<lparr>PROCESS_LIST := pl\<rparr>) = map_option (\<lambda>s. s\<lparr>PROCESS_LIST := pl\<rparr>) (kfree p s)"
  by (auto simp: kfree_def coalesce_def Let_def split: Option.bind_split)

section \<open>Finishing a request\<close>

text \<open>The process that waits for a request, with a frame that is neither in the heap nor in the queue.\<close>

definition waits_for :: "u16 \<Rightarrow> nat \<Rightarrow> usize \<Rightarrow> 'a proc_st_scheme \<Rightarrow> bool" where
  "waits_for pd i q s \<longleftrightarrow> (\<exists>pl. PROCESS_LIST s = Some pl \<and> i < length pl
     \<and> find_index (\<lambda>p. p_pid p = pd) pl = Some i \<and> find_index (\<lambda>p. frame_pid_of (memory s) p = pd) pl = Some i
     \<and> disjoint_regions (frame (pl ! i)) 560 (KMEM_HEAD s) (heap_len s) \<and> disjoint_regions (frame (pl ! i)) 560 q 5128)"

lemma frame_A0_loc: "frame_reg f A0 = loc f 80"
  by (simp add: frame_reg_def loc_def)

lemma finish_request_eq:
  assumes w: "waits_for pd i q s" and pl: "PROCESS_LIST s = Some pl"
    and ch: "kmem_chunks s cs" and p: "(rq, k) \<in> payloads s"
    and rq: "load16 (memory s) (rq_watcher rq) = pd" "0 < pd"
  obtains m where "finish_request rq s = Some (s\<lparr>memory := m, PROCESS_LIST := Some (pl[i := (pl ! i)\<lparr>pstate := Running\<rparr>])\<rparr>)"
    "kmem_inv (s\<lparr>memory := m\<rparr>)" "payloads (s\<lparr>memory := m\<rparr>) = payloads s - {(rq, k)}"
    "\<And>r l. (r, l) \<in> payloads s \<Longrightarrow> (r, l) \<noteq> (rq, k) \<Longrightarrow> load_bytes m r l = load_bytes (memory s) r l"
    "load64 m (frame_reg (frame (pl ! i)) A0) = ucast (memory s (rq_status rq))"
    "\<And>x. \<not> in_region (KMEM_HEAD s) (heap_len s) x \<Longrightarrow> \<not> in_region (frame (pl ! i)) 560 x \<Longrightarrow> m x = memory s x"
proof -
  let ?f = "frame (pl ! i)"
  let ?a = "frame_reg ?f A0"
  have i: "i < length pl" "find_index (\<lambda>p. p_pid p = pd) pl = Some i" "find_index (\<lambda>p. frame_pid_of (memory s) p = pd) pl = Some i"
    "disjoint_regions ?f 560 (KMEM_HEAD s) (heap_len s)" using w pl by (auto simp: waits_for_def)
  let ?pl = "pl[i := (pl ! i)\<lparr>pstate := Running\<rparr>]"
  let ?s1 = "s\<lparr>PROCESS_LIST := Some ?pl\<rparr>"
  let ?m1 = "store64 (memory s) ?a (ucast (memory s (rq_status rq)))"
  have run: "set_running pd s = Some (True, ?s1)"
    using pl i(2) by (simp add: set_running_def update_first_spec)
  have "frame_pid_of (memory s) ((pl ! i)\<lparr>pstate := Running\<rparr>) = frame_pid_of (memory s) (pl ! i)" by (simp add: frame_pid_of_def)
  then have fi: "find_index (\<lambda>p. frame_pid_of (memory s) p = pd) ?pl = Some i"
    using i(3) by (auto simp: find_index_Some nth_list_update)
  have inf: "in_region ?f 560 x" if x: "in_region ?a 8 x" for x
  proof -
    obtain j where "j < 8" "x = ?a + of_nat j" using x by (rule in_regionE)
    then have "j < 8" "x = ?f + of_nat (80 + j)" by (simp_all add: frame_A0_loc loc_def add.assoc)
    then show ?thesis using in_region_offset [of "80 + j" 560 ?f] by simp
  qed
  have hp: "?m1 x = memory s x" if "in_region (KMEM_HEAD s) (heap_len s) x" for x
    using inf disjoint_regionsD [OF i(4), of x] that by (intro store64_outside) blast
  have ch1: "kmem_chunks (s\<lparr>memory := ?m1\<rparr>) cs" by (rule kmem_chunks_outside [OF ch hp])
  have p1: "(rq, k) \<in> payloads (s\<lparr>memory := ?m1\<rparr>)" and ps: "payloads (s\<lparr>memory := ?m1\<rparr>) = payloads s"
    using p payloads_eq [OF ch] payloads_eq [OF ch1] by simp_all
  obtain m where m: "kfree rq (s\<lparr>memory := ?m1\<rparr>) = Some (s\<lparr>memory := ?m1\<rparr>\<lparr>memory := m\<rparr>)"
    "kmem_inv (s\<lparr>memory := ?m1\<rparr>\<lparr>memory := m\<rparr>)" "payloads (s\<lparr>memory := ?m1\<rparr>\<lparr>memory := m\<rparr>) = payloads (s\<lparr>memory := ?m1\<rparr>) - {(rq, k)}"
    "\<And>r l. (r, l) \<in> payloads (s\<lparr>memory := ?m1\<rparr>) \<Longrightarrow> (r, l) \<noteq> (rq, k) \<Longrightarrow> load_bytes m r l = load_bytes (memory (s\<lparr>memory := ?m1\<rparr>)) r l"
    "\<And>x. \<not> in_region (KMEM_HEAD (s\<lparr>memory := ?m1\<rparr>)) (heap_len (s\<lparr>memory := ?m1\<rparr>)) x \<Longrightarrow> m x = memory (s\<lparr>memory := ?m1\<rparr>) x"
    by (rule kfree_keeps [OF ch1 p1], rule that, assumption+)
  have hl: "heap_len (s\<lparr>memory := ?m1\<rparr>) = heap_len s" by (simp add: heap_len_def)
  have keep: "load_bytes ?m1 r l = load_bytes (memory s) r l" if rl: "(r, l) \<in> payloads s" for r l
  proof -
    obtain off z where o: "(off, z) \<in> taken_chunks 0 cs" "r = KMEM_HEAD s + of_nat (off + 8)" "l = z - 8"
      using rl unfolding payloads_eq [OF ch] by auto
    note pl' = taken_chunk_place [OF ch o(1)]
    have b: "unat (KMEM_HEAD s) + heap_len s \<le> 2 ^ 64" using ch by (simp add: kmem_chunks_def)
    have ur: "unat r = unat (KMEM_HEAD s) + off + 8" using pl'(5) o(2) by simp
    show ?thesis
    proof (rule load_bytes_cong)
      show "l \<le> 2 ^ 64" using pl'(4) o(3) b by linarith
      fix x assume "in_region r l x"
      then have "in_region (KMEM_HEAD s) (heap_len s) x"
        using ur pl'(1,4) o(3) b by (auto simp: in_region_iff)
      then show "?m1 x = memory s x" by (rule hp)
    qed
  qed
  have kf: "kfree rq (?s1\<lparr>memory := ?m1\<rparr>) = Some (?s1\<lparr>memory := m\<rparr>)"
    using kfree_process_list [of rq "Some ?pl" "s\<lparr>memory := ?m1\<rparr>"] m(1) by (simp add: memory_process_list)
  have fin: "finish_request rq s = Some (?s1\<lparr>memory := m\<rparr>)"
    using rq run fi i(1) kf by (simp add: finish_request_def get_by_pid_def)
  have a0: "load64 m ?a = load64 ?m1 ?a"
    by (rule load64_cong) (use m(5) inf disjoint_regionsD [OF i(4)] in \<open>auto simp: hl\<close>)
  have out: "?m1 x = memory s x" if "\<not> in_region ?f 560 x" for x
    using inf that by (intro store64_outside) blast
  show ?thesis
    by (rule that [of m]) (use m ps keep a0 hl fin out in \<open>auto simp: memory_process_list\<close>)
qed

lemma region_part:
  assumes "in_region (loc q a) n x" and "a + n \<le> k" and "k \<le> 2 ^ 64"
  shows "in_region q k x"
proof -
  obtain j where "j < n" "x = loc q a + of_nat j" using assms(1) by (rule in_regionE)
  then have "x = q + of_nat (a + j)" "a + j < k" using assms(2) by (simp_all add: loc_def add.assoc)
  then show ?thesis using in_region_offset [of "a + j" k q] assms(3) by simp
qed

lemma used_idx_outside:
  assumes "\<And>x. in_region q 5128 x \<Longrightarrow> m' x = m x"
  shows "load16 m' (used_idx q) = load16 m (used_idx q)"
  unfolding load16_def used_locs by (rule arg_cong [where f = le_word], rule load_bytes_cong) (use assms region_part [where k = 5128] in auto)

section \<open>The used ring\<close>

text \<open>
  A queue with one entry that has not been acknowledged: the request of process \<open>pd\<close>, which stands at \<open>i\<close> in the
  list.
\<close>

definition one_completed :: "usize \<Rightarrow> u16 \<Rightarrow> usize \<Rightarrow> u16 \<Rightarrow> nat \<Rightarrow> 'a proc_st_scheme \<Rightarrow> bool" where
  "one_completed q ack rq pd i s \<longleftrightarrow> load16 (memory s) (used_idx q) = ack + 1
     \<and> (let e = load32 (memory s) (used_id q (ucast ack mod VIRTIO_RING_SIZE))
        in unat e < 128 \<and> vd_addr (load_desc (memory s) q (ucast e)) = rq)
     \<and> load16 (memory s) (rq_watcher rq) = pd \<and> 0 < pd \<and> waits_for pd i q s
     \<and> disjoint_regions (KMEM_HEAD s) (heap_len s) q 5128"

lemma block_pending_loop_one:
  assumes one: "one_completed q ack rq pd i s" and pl: "PROCESS_LIST s = Some pl"
    and ch: "kmem_chunks s cs" and p: "(rq, k) \<in> payloads s"
  obtains m where "block_pending_loop q ack s = Some (ack + 1, s\<lparr>memory := m, PROCESS_LIST := Some (pl[i := (pl ! i)\<lparr>pstate := Running\<rparr>])\<rparr>)"
    "kmem_inv (s\<lparr>memory := m\<rparr>)" "payloads (s\<lparr>memory := m\<rparr>) = payloads s - {(rq, k)}"
    "\<And>r l. (r, l) \<in> payloads s \<Longrightarrow> (r, l) \<noteq> (rq, k) \<Longrightarrow> load_bytes m r l = load_bytes (memory s) r l"
    "load64 m (frame_reg (frame (pl ! i)) A0) = ucast (memory s (rq_status rq))"
proof -
  let ?pl = "pl[i := (pl ! i)\<lparr>pstate := Running\<rparr>]"
  let ?e = "load32 (memory s) (used_id q (ucast ack mod VIRTIO_RING_SIZE))"
  have o: "load16 (memory s) (used_idx q) = ack + 1" "unat ?e < 128" "vd_addr (load_desc (memory s) q (ucast ?e)) = rq"
    "load16 (memory s) (rq_watcher rq) = pd" "0 < pd" "waits_for pd i q s" "disjoint_regions (KMEM_HEAD s) (heap_len s) q 5128"
    using one by (auto simp: one_completed_def Let_def)
  obtain m where m: "finish_request rq s = Some (s\<lparr>memory := m, PROCESS_LIST := Some ?pl\<rparr>)"
    "kmem_inv (s\<lparr>memory := m\<rparr>)" "payloads (s\<lparr>memory := m\<rparr>) = payloads s - {(rq, k)}"
    "\<And>r l. (r, l) \<in> payloads s \<Longrightarrow> (r, l) \<noteq> (rq, k) \<Longrightarrow> load_bytes m r l = load_bytes (memory s) r l"
    "load64 m (frame_reg (frame (pl ! i)) A0) = ucast (memory s (rq_status rq))"
    "\<And>x. \<not> in_region (KMEM_HEAD s) (heap_len s) x \<Longrightarrow> \<not> in_region (frame (pl ! i)) 560 x \<Longrightarrow> m x = memory s x"
    by (rule finish_request_eq [OF o(6) pl ch p o(4,5)], rule that, assumption+)
  have "disjoint_regions (frame (pl ! i)) 560 q 5128" using o(6) pl by (simp add: waits_for_def)
  then have "load16 m (used_idx q) = ack + 1"
    unfolding o(1) [symmetric] by (intro used_idx_outside m(6)) (use disjoint_regionsD [OF o(7)] disjoint_regionsD in blast)+
  then have "block_pending_loop q (ack + 1) (s\<lparr>memory := m, PROCESS_LIST := Some ?pl\<rparr>) = Some (ack + 1, s\<lparr>memory := m, PROCESS_LIST := Some ?pl\<rparr>)"
    by (subst block_pending_loop.simps) simp
  then have "block_pending_loop q ack s = Some (ack + 1, s\<lparr>memory := m, PROCESS_LIST := Some ?pl\<rparr>)"
    using o(1-3) m(1) by (subst block_pending_loop.simps) (simp add: Let_def)
  then show ?thesis using m(2-5) by (rule that)
qed

end
