(* ===== verification/Trap.thy ===== *)
theory Trap
  imports Syscall Block_Pending
begin

text \<open>
  \<^verbatim>\<open>trap.rs\<close> and the boot sequence of \<^verbatim>\<open>main.rs\<close>. A trap ends in one of two ways: the handler returns a program
  counter to the assembly code, or it switches to the frame of a process and does not return.
\<close>

section \<open>The timer\<close>

definition FREQ :: u64 where "FREQ = 10000000"
definition CONTEXT_SWITCH_TIME :: u64 where "CONTEXT_SWITCH_TIME = FREQ div 500"

record trap_st = kernel_st +
  MTIMECMP :: u64

definition schedule_next_context_switch :: "hardware \<Rightarrow> u16 \<Rightarrow> 'a trap_st_scheme \<Rightarrow> 'a trap_st_scheme option" where
  "schedule_next_context_switch H n s = do {
     d \<leftarrow> umul CONTEXT_SWITCH_TIME (ucast n);
     Some (s\<lparr>MTIMECMP := hw_mtime H + d\<rparr>)
   }"

section \<open>Traps\<close>

datatype trap_result = ReturnTo usize | SwitchTo usize

text \<open>\<^verbatim>\<open>schedule\<close>, set the timer, and switch to the process.\<close>

definition reschedule :: "hardware \<Rightarrow> 'a trap_st_scheme \<Rightarrow> (trap_result \<times> 'a trap_st_scheme) option" where
  "reschedule H s = do {
     (new_frame, s) \<leftarrow> schedule (hw_mtime H) s;
     s \<leftarrow> schedule_next_context_switch H 1 s;
     Some (SwitchTo new_frame, s)
   }"

text \<open>A process that faults is deleted.\<close>

definition kill_process :: "hardware \<Rightarrow> usize \<Rightarrow> 'a trap_st_scheme \<Rightarrow> (trap_result \<times> 'a trap_st_scheme) option" where
  "kill_process H f s = do {
     s \<leftarrow> delete_process (pid_of f s) s;
     reschedule H s
   }"

definition m_trap :: "hardware \<Rightarrow> image \<Rightarrow> usize \<Rightarrow> usize \<Rightarrow> usize \<Rightarrow> 'a trap_st_scheme \<Rightarrow> (trap_result \<times> 'a trap_st_scheme) option" where
  "m_trap H I epc cause f s =
     (let is_async = (drop_bit 63 cause AND 1 = 1);
          cause_num = cause AND 0xfff
      in if is_async then
           if cause_num = 3 then Some (ReturnTo epc, s)
           else if cause_num = 7 then do {
             (new_frame, s) \<leftarrow> schedule (hw_mtime H) s;
             s \<leftarrow> schedule_next_context_switch H 1 s;
             if new_frame \<noteq> 0 then Some (SwitchTo new_frame, s) else Some (ReturnTo epc, s)
           }
           else if cause_num = 11 then do {
             s \<leftarrow> plic_handle_interrupt (hw_regs H) (hw_uart H) s;
             Some (ReturnTo epc, s)
           }
           else None
         else
           if cause_num = 2 then kill_process H f s
           else if cause_num = 3 then do { return_pc \<leftarrow> uadd epc 2; Some (ReturnTo return_pc, s) }
           else if cause_num = 7 then kill_process H f s
           else if cause_num = 8 \<or> cause_num = 9 \<or> cause_num = 11 then do {
             s \<leftarrow> do_syscall H I epc f s;
             reschedule H s
           }
           else if cause_num = 12 then kill_process H f s
           else if cause_num = 13 then kill_process H f s
           else if cause_num = 15 then kill_process H f s
           else None)"

section \<open>Boot\<close>

text \<open>
  \<^verbatim>\<open>kinit\<close>. The addresses of \<^verbatim>\<open>init_process\<close> and \<^verbatim>\<open>test::test\<close> are arguments. It ends by switching to the frame
  that \<^verbatim>\<open>schedule\<close> selects.
\<close>

definition enable_interrupt :: "device_regs \<Rightarrow> nat \<Rightarrow> 'a virtio_st_scheme \<Rightarrow> 'a virtio_st_scheme option" where
  "enable_interrupt M i s = do {
     s \<leftarrow> plic_enable M (of_nat i) s;
     Some (set_priority (of_nat i) 1 s)
   }"

definition kinit :: "hardware \<Rightarrow> image \<Rightarrow> usize \<Rightarrow> usize \<Rightarrow> 'a trap_st_scheme \<Rightarrow> (trap_result \<times> 'a trap_st_scheme) option" where
  "kinit H I init_process test s = do {
     s \<leftarrow> uart_init UART_BASE s;
     s \<leftarrow> page_init s;
     s \<leftarrow> kmem_init s;
     (_, s) \<leftarrow> process_init (ra_delete_proc I) init_process s;
     let s = set_threshold 0 s;
     s \<leftarrow> for_each (enable_interrupt (hw_regs H)) [1..<11] s;
     s \<leftarrow> probe (hw_regs H) s;
     let s = console_init s;
     (_, s) \<leftarrow> add_kernel_process (ra_delete_proc I) test s;
     s \<leftarrow> gpu_init (gpu_structs I) 6 s;
     s \<leftarrow> schedule_next_context_switch H 1 s;
     (new_frame, s) \<leftarrow> schedule (hw_mtime H) s;
     Some (SwitchTo new_frame, s)
   }"

section \<open>What deleting a process changes\<close>

text \<open>The page allocator and the destructor of a process write to memory and to nothing else.\<close>

definition memory_only :: "('a page_st_scheme \<Rightarrow> 'a page_st_scheme option) \<Rightarrow> bool" where
  "memory_only f \<longleftrightarrow> (\<forall>s s'. f s = Some s' \<longrightarrow> (\<exists>m. s' = s\<lparr>memory := m\<rparr>))"

lemma memory_same [simp]: "\<exists>m. s = s\<lparr>memory := m\<rparr>"
  by (rule exI [of _ "memory s"]) simp

lemma memory_only_Some [simp, intro]: "memory_only Some"
  by (simp add: memory_only_def)

lemma memory_only_bind [intro]:
  assumes "memory_only f" "memory_only g" shows "memory_only (\<lambda>s. f s \<bind> g)"
  using assms unfolding memory_only_def bind_eq_Some_conv by fastforce

lemma memory_only_for_each [intro]: "(\<And>x. x \<in> set xs \<Longrightarrow> memory_only (f x)) \<Longrightarrow> memory_only (for_each f xs)"
proof (induction xs)
  case (Cons x xs)
  then have "memory_only (\<lambda>s. f x s \<bind> for_each f xs)" by (intro memory_only_bind) simp_all
  moreover have "for_each f (x # xs) = (\<lambda>s. f x s \<bind> for_each f xs)" by (simp add: fun_eq_iff)
  ultimately show ?case by simp
qed (simp add: memory_only_def)

lemma memory_only_dealloc [intro]: "memory_only (dealloc a)"
  by (auto simp: memory_only_def dealloc_def Let_def split: prod.splits Option.bind_splits)

lemma memory_only_unmap_lv1 [intro]: "memory_only (unmap_lv1 tb k)"
  using memory_only_dealloc by (auto simp: memory_only_def unmap_lv1_def Let_def split: if_splits)

lemma memory_only_unmap_lv2 [intro]: "memory_only (unmap_lv2 root k)"
  unfolding memory_only_def
proof (intro allI impI)
  fix s s' :: "'a page_st_scheme"
  let ?tb = "next_table (entry_at (memory s) (root + 8 * of_nat k))"
  assume "unmap_lv2 root k s = Some s'"
  moreover have "memory_only (\<lambda>s. for_each (unmap_lv1 ?tb) [0..<Table_len] s \<bind> (dealloc ?tb :: 'a page_st_scheme \<Rightarrow> _))"
    by (intro memory_only_bind) auto
  ultimately show "\<exists>m. s' = s\<lparr>memory := m\<rparr>"
    by (auto simp: memory_only_def unmap_lv2_def assert_that_def Let_def split: if_splits)
qed

lemma memory_only_unmap [intro]: "memory_only (unmap root)"
  unfolding unmap_def by auto

lemma memory_only_drop: "memory_only (Process_drop p)"
proof -
  have "memory_only (\<lambda>s. if program p \<noteq> null_mut then dealloc (program p) s else Some s)" by (cases "program p = null_mut") auto
  then show ?thesis unfolding Process_drop_def by (intro memory_only_bind) auto
qed

section \<open>Properties\<close>

lemma next_switch: "schedule_next_context_switch H 1 s = Some (s\<lparr>MTIMECMP := hw_mtime H + 20000\<rparr>)"
  by (simp add: schedule_next_context_switch_def umul_def CONTEXT_SWITCH_TIME_def FREQ_def)

text \<open>
  The timer interrupt: with the mutex of the process list free, it switches to the frame of the
  next process in round-robin order and arms the timer 20000 ticks from now; with the mutex held it
  returns to the interrupted program counter and only arms the timer.
\<close>

lemma timer_preempts:
  assumes "PROCESS_LIST s = Some (p # ps)" and "ps @ [p] = xs @ q # ys"
    and "\<forall>x \<in> set xs. \<not> can_run (hw_mtime H) x" and "can_run (hw_mtime H) q" and "frame q \<noteq> 0"
  shows "(mstate (PROCESS_LIST_MUTEX s) = 0 \<longrightarrow> m_trap H I epc 0x8000000000000007 f s =
      Some (SwitchTo (frame q), s\<lparr>PROCESS_LIST := Some (awake q # ys @ xs), PROCESS_LIST_MUTEX := Mutex_new, MTIMECMP := hw_mtime H + 20000\<rparr>))
    \<and> (mstate (PROCESS_LIST_MUTEX s) = 1 \<longrightarrow> m_trap H I epc 0x8000000000000007 f s =
      Some (ReturnTo epc, s\<lparr>MTIMECMP := hw_mtime H + 20000\<rparr>))"
  using schedule_free [OF _ assms(1) procfindloop_returns [OF assms(2-4)]] assms(5)
  by (simp add: m_trap_def next_switch schedule_held)

definition example_trap :: trap_st where
  "example_trap = kernel_st.extend example_kernel \<lparr>MTIMECMP = 0\<rparr>"

definition example_hardware :: hardware where
  "example_hardware = \<lparr>hw_regs = \<lambda>_ _. 0, hw_uart = \<lambda>_ _. 0, hw_mtime = 50\<rparr>"

text \<open>
  C17: a process that faults is destroyed. On an illegal instruction, a store access fault or a page fault
  (causes 2, 7, 12, 13, 15) the process that carries the pid of the interrupted frame leaves the list, every page it
  owns, its page tables included, is free again, no other page changes, and the kernel
  switches to the next of the remaining processes.
\<close>
theorem fault_kills_process:
  assumes "cause \<in> {2, 7, 12, 13, 15}" and "mstate (PROCESS_LIST_MUTEX s) = 0" and "PROCESS_LIST s = Some pl"
    and "find_index (\<lambda>q. frame_pid_of (memory s) q = pid_of f s) pl = Some i" and "owns s (pl ! i) t bs"
    and "take i pl @ drop (Suc i) pl = p # ps" and "ps @ [p] = xs @ q # ys"
    and "\<forall>x \<in> set xs. \<not> can_run (hw_mtime H) x" and "can_run (hw_mtime H) q"
  shows "\<exists>m. m_trap H I epc cause f s = Some (SwitchTo (frame q), s\<lparr>memory := m, PROCESS_LIST := Some (awake q # ys @ xs),
        PROCESS_LIST_MUTEX := Mutex_new, MTIMECMP := hw_mtime H + 20000\<rparr>)
    \<and> blocks (s\<lparr>memory := m\<rparr>) = blocks s - set bs - table_blocks t \<and> same_pages s (s\<lparr>memory := m\<rparr>)"
proof -
  obtain s1 where s1: "Process_drop (pl ! i) s = Some s1" "same_pages s s1" "blocks s1 = blocks s - set bs - table_blocks t"
    using Process_drop_frees [OF assms(5)] by blast
  obtain m where m: "s1 = s\<lparr>memory := m\<rparr>" using memory_only_drop s1(1) unfolding memory_only_def by blast
  let ?s2 = "s\<lparr>memory := m, PROCESS_LIST := Some (p # ps)\<rparr>"
  have "delete_process (pid_of f s) s = Some ?s2" using assms(3,4,6) s1(1) m by (simp add: delete_process_def)
  moreover have "schedule (hw_mtime H) ?s2 = Some (frame q, ?s2\<lparr>PROCESS_LIST := Some (awake q # ys @ xs), PROCESS_LIST_MUTEX := Mutex_new\<rparr>)"
    using assms(2) by (intro schedule_free [OF _ _ procfindloop_returns [OF assms(7-9)]]) simp_all
  ultimately have "kill_process H f s = Some (SwitchTo (frame q), s\<lparr>memory := m, PROCESS_LIST := Some (awake q # ys @ xs),
      PROCESS_LIST_MUTEX := Mutex_new, MTIMECMP := hw_mtime H + 20000\<rparr>)"
    by (simp add: kill_process_def reschedule_def next_switch)
  moreover have "m_trap H I epc cause f s = kill_process H f s" using assms(1) by (auto simp: m_trap_def Let_def)
  ultimately show ?thesis using s1(2,3) m by auto
qed

text \<open>
  A machine of 64 pages of which three are in use, by process 1: stack, frame and root table.
\<close>

definition faulting_process :: Process where
  "faulting_process = (example_process 1 Running 0)\<lparr>stack := 0x11000, frame := 0x12000, mmu_table := 0x13000\<rparr>"

definition example_fault :: trap_st where
  "example_fault = example_trap\<lparr>memory := (\<lambda>_. 0)(0x10000 := 3, 0x10001 := 3, 0x10002 := 3, 0x12220 := 1),
     HEAP_START := 0x10000, HEAP_SIZE := 0x40000, ALLOC_START := 0x11000,
     PROCESS_LIST := Some [faulting_process, example_process 2 Running 0], PROCESS_LIST_MUTEX := Mutex_new\<rparr>"

lemma example_fault_pages:
  "page_inv example_fault" "blocks example_fault = {(0, 1), (1, 1), (2, 1)}" "page_bytes example_fault 2 = replicate 4096 0"
  "page_addr example_fault j = 0x11000 + of_nat (4096 * j)"
proof -
  have n: "num_pages example_fault = 64" by (simp add: num_pages_eq example_fault_def)
  have f: "flag_at example_fault i = (if i < 3 then 3 else 0)" if "i < 64" for i
  proof -
    have "(of_nat i :: usize) \<noteq> 0x2220" using that by (simp add: word_unat_eq_iff unat_of_nat_small)
    moreover have "(of_nat i :: usize) = of_nat k \<longleftrightarrow> i = k" if "k < 64" for k
      using \<open>i < 64\<close> that by (simp add: word_unat_eq_iff unat_of_nat_small)
    note this [of 0] this [of 1] this [of 2]
    ultimately show ?thesis by (auto simp: flag_at_def example_fault_def)
  qed
  show "page_inv example_fault"
    using n f by (auto simp: page_inv_def page_geometry_def table_ok_def) (simp_all add: example_fault_def)
  show "blocks example_fault = {(0, 1), (1, 1), (2, 1)}"
  proof -
    have "run_at example_fault i len \<longleftrightarrow> len = 1 \<and> i < 3" for i len
    proof
      assume r: "run_at example_fault i len"
      then have "len = 1" using f [of i] n by (cases "len = 1") (auto simp: run_at_def split: if_splits)
      then show "len = 1 \<and> i < 3" using r f [of i] n by (auto simp: run_at_def split: if_splits)
    qed (use f n in \<open>auto simp: run_at_def\<close>)
    then show ?thesis using f [of 0] f [of 1] by (auto simp: blocks_def)
  qed
  have "memory example_fault x = 0" if "in_region 0x13000 4096 x" for x
    using that by (auto simp: in_region_iff example_fault_def)
  then have "memory example_fault (0x13000 + of_nat i) = 0" if "i < 4096" for i
    using that by (simp add: in_region_offset)
  moreover have "page_addr example_fault 2 = 0x13000" by (simp add: page_addr_def example_fault_def)
  ultimately show "page_bytes example_fault 2 = replicate 4096 0"
    by (auto simp: page_bytes_def load_bytes_def intro!: nth_equalityI)
  show "page_addr example_fault j = 0x11000 + of_nat (4096 * j)" by (simp add: page_addr_def example_fault_def)
qed


lemma example_fault_owns: "owns example_fault faulting_process (\<lambda>p. if p = Root then Some 2 else None) [(0, 1), (1, 1)]"
  using empty_tree_ok [of example_fault 2] example_fault_pages
  by (auto simp: owns_def faulting_process_def example_process_def ProcessData_new_def null_mut_def intro: exI [of _ 0] exI [of _ 1])

theorem fault_kills_process_witness:
  "\<forall>I. \<exists>m. m_trap example_hardware I 0x80000000 13 0x12000 example_fault = Some (SwitchTo 0x2000,
      example_fault\<lparr>memory := m, PROCESS_LIST := Some [example_process 2 Running 0], PROCESS_LIST_MUTEX := Mutex_new, MTIMECMP := 20050\<rparr>)
    \<and> blocks (example_fault\<lparr>memory := m\<rparr>) = {}"
proof
  fix I
  let ?t = "\<lambda>p. if p = Root then Some 2 else (None :: nat option)"
  have "load64 (memory example_fault) 0x12220 = 1"
    by (simp add: load64_def load_bytes_def upt_rec example_fault_def)
  then have "frame_pid_of (memory example_fault) faulting_process = 1" "pid_of 0x12000 example_fault = 1"
    by (simp_all add: frame_pid_of_def pid_of_def frame_pid_def faulting_process_def)
  then have fi: "find_index (\<lambda>q. frame_pid_of (memory example_fault) q = pid_of 0x12000 example_fault) [faulting_process, example_process 2 Running 0] = Some 0"
    by (simp add: find_index_Some)
  have tb: "table_blocks ?t = {(2, 1)}" by (auto simp: table_blocks_def)
  let ?q = "example_process 2 Running 0"
  have f: "PROCESS_LIST example_fault = Some [faulting_process, ?q]" "mstate (PROCESS_LIST_MUTEX example_fault) = 0"
    "frame ?q = 0x2000" "can_run 50 ?q" "awake ?q = ?q" "hw_mtime example_hardware = 50"
    by (simp_all add: example_fault_def Mutex_new_def example_process_def can_run_def awake_def example_hardware_def)
  have "\<exists>m. m_trap example_hardware I 0x80000000 13 0x12000 example_fault = Some (SwitchTo (frame ?q),
      example_fault\<lparr>memory := m, PROCESS_LIST := Some (awake ?q # [] @ []), PROCESS_LIST_MUTEX := Mutex_new, MTIMECMP := hw_mtime example_hardware + 20000\<rparr>)
    \<and> blocks (example_fault\<lparr>memory := m\<rparr>) = blocks example_fault - set [(0, 1), (1, 1)] - table_blocks ?t
    \<and> same_pages example_fault (example_fault\<lparr>memory := m\<rparr>)"
    by (rule fault_kills_process [OF _ f(2,1) fi]) (use f example_fault_owns in simp_all)
  then show "\<exists>m. m_trap example_hardware I 0x80000000 13 0x12000 example_fault = Some (SwitchTo 0x2000,
      example_fault\<lparr>memory := m, PROCESS_LIST := Some [?q], PROCESS_LIST_MUTEX := Mutex_new, MTIMECMP := 20050\<rparr>)
    \<and> blocks (example_fault\<lparr>memory := m\<rparr>) = {}"
    unfolding tb example_fault_pages(2) f(3,5,6) by (elim exE conjE, intro exI conjI) simp_all
qed

lemma claimed_slot:
  assumes "(1 :: u32) \<le> n" "n \<le> 8"
  shows "usub (ucast n :: usize) 1 = Some (ucast n - 1)" "unat (ucast n - 1 :: usize) = unat n - 1" "unat n - 1 < 8"
proof -
  have n: "1 \<le> unat n" "unat n \<le> 8" using assms by (simp_all add: word_le_nat_alt)
  have u: "unat (ucast n :: usize) = unat n" using n by (simp add: unsigned_ucast_eq take_bit_nat_eq_self)
  then have "(1 :: usize) \<le> ucast n" using n by (simp add: word_le_nat_alt)
  then show "usub (ucast n :: usize) 1 = Some (ucast n - 1)" "unat (ucast n - 1 :: usize) = unat n - 1"
    using u by (simp_all add: usub_def unat_sub)
  show "unat n - 1 < 8" using n by simp
qed

text \<open>
  C16: from the interrupt line to the process that waits. When an external interrupt arrives, the controller
  names the slot of a block device and the device has completed one request, the handler ends: the watcher of
  the request is running again with the status byte of the request in its register \<^verbatim>\<open>A0\<close>, the request and nothing else is
  freed from the heap, the entry is acknowledged, the interrupt is completed at the controller and the interrupted program
  continues where it was.
\<close>
theorem interrupt_completes_request:
  assumes "hw_regs H PLIC_CLAIM (MMIO s) = n" and "1 \<le> n" and "n \<le> 8" and "idx = unat n - 1"
    and "length (VIRTIO_DEVICES s) = 8" and "VIRTIO_DEVICES s ! idx = Some BlockDev"
    and "length (BLOCK_DEVICES s) = 8" and "BLOCK_DEVICES s ! idx = Some bd"
    and "one_completed (bd_queue bd) (bd_ack_used_idx bd) rq pd i s" and "PROCESS_LIST s = Some pl"
    and "kmem_chunks s cs" and "(rq, k) \<in> payloads s"
  shows "\<exists>m. m_trap H I epc 0x800000000000000b f s = Some (ReturnTo epc,
      s\<lparr>memory := m, PROCESS_LIST := Some (pl[i := (pl ! i)\<lparr>pstate := Running\<rparr>]),
        BLOCK_DEVICES := (BLOCK_DEVICES s)[idx := Some (bd\<lparr>bd_ack_used_idx := bd_ack_used_idx bd + 1\<rparr>)],
        MMIO := MMIO s @ [(PLIC_CLAIM, n)]\<rparr>)
    \<and> load64 m (frame_reg (frame (pl ! i)) A0) = ucast (memory s (rq_status rq))
    \<and> kmem_inv (s\<lparr>memory := m\<rparr>) \<and> payloads (s\<lparr>memory := m\<rparr>) = payloads s - {(rq, k)}
    \<and> (\<forall>(r, l) \<in> payloads (s\<lparr>memory := m\<rparr>). load_bytes m r l = load_bytes (memory s) r l)"
proof -
  let ?pl = "pl[i := (pl ! i)\<lparr>pstate := Running\<rparr>]"
  obtain m where m: "block_pending_loop (bd_queue bd) (bd_ack_used_idx bd) s = Some (bd_ack_used_idx bd + 1, s\<lparr>memory := m, PROCESS_LIST := Some ?pl\<rparr>)"
    "kmem_inv (s\<lparr>memory := m\<rparr>)" "payloads (s\<lparr>memory := m\<rparr>) = payloads s - {(rq, k)}"
    "\<And>r l. (r, l) \<in> payloads s \<Longrightarrow> (r, l) \<noteq> (rq, k) \<Longrightarrow> load_bytes m r l = load_bytes (memory s) r l"
    "load64 m (frame_reg (frame (pl ! i)) A0) = ucast (memory s (rq_status rq))"
    by (rule block_pending_loop_one [OF assms(9-12)], rule that, assumption+)
  let ?s1 = "s\<lparr>memory := m, PROCESS_LIST := Some ?pl, BLOCK_DEVICES := (BLOCK_DEVICES s)[idx := Some (bd\<lparr>bd_ack_used_idx := bd_ack_used_idx bd + 1\<rparr>)]\<rparr>"
  note n = claimed_slot [OF assms(2,3)]
  have "block_handle_interrupt idx s = Some ?s1"
    using n(3) assms(4,7,8) m(1) by (simp add: block_handle_interrupt_def block_pending_def)
  then have "virtio_handle_interrupt n s = Some ?s1"
    using n assms(4-6) by (simp add: virtio_handle_interrupt_def)
  moreover have "plic_next (hw_regs H) s = Some n" using assms(1,2) by (auto simp: plic_next_def Let_def)
  ultimately have "m_trap H I epc 0x800000000000000b f s = Some (ReturnTo epc, plic_complete n ?s1)"
    using assms(2,3) by (simp add: m_trap_def plic_handle_interrupt_def)
  moreover have "plic_complete n ?s1 = ?s1\<lparr>MMIO := MMIO s @ [(PLIC_CLAIM, n)]\<rparr>" by (simp add: plic_complete_def mmio_write_def)
  ultimately show ?thesis using m(2-5) by auto
qed


text \<open>Process 3 waits for a read of the block device in slot 8; the request lies at \<open>0x1008\<close> and has succeeded.\<close>

definition waiting_process :: Process where
  "waiting_process = example_caller\<lparr>pstate := Waiting\<rparr>"

definition example_completed :: trap_st where
  "example_completed = example_trap\<lparr>memory := (\<lambda>_. 0)(0x1000 := 40, 0x1007 := 0x80, 0x1024 := 3, 0x1028 := 0xd8, 0x1029 := 0x0f,
       0x4220 := 3, 0x80000000 := 0x08, 0x80000001 := 0x10, 0x80001002 := 1),
     PROCESS_LIST := Some [waiting_process], VIRTIO_DEVICES := replicate 7 None @ [Some BlockDev]\<rparr>"

lemma example_completed_heap:
  "kmem_chunks example_completed [(40, True), (4056, False)]" "(0x1008, 32) \<in> payloads example_completed"
proof -
  have h: "KMEM_HEAD example_completed = 0x1000" "heap_len example_completed = 4096"
    by (simp_all add: example_completed_def example_trap_def kernel_st.defs example_kernel_def block_st.defs example_block_def heap_len_def)
  have a: "alist_at (memory example_completed) 0x1000 = \<lparr>flags_size = 0x8000000000000028\<rparr>"
    "alist_at (memory example_completed) 0x1028 = \<lparr>flags_size = 4056\<rparr>"
    by (simp_all add: alist_at_def load64_def load_bytes_def upt_rec example_completed_def)
  show ch: "kmem_chunks example_completed [(40, True), (4056, False)]"
    by (simp add: kmem_chunks_def h a al_get_size_def al_is_taken_def AllocListFlags_Taken_def)
  show "(0x1008, 32) \<in> payloads example_completed"
    unfolding payloads_eq [OF ch] by (simp add: h)
qed


definition example_claim :: hardware where
  "example_claim = example_hardware\<lparr>hw_regs := \<lambda>a _. if a = PLIC_CLAIM then 8 else 0\<rparr>"

lemma example_one_completed: "one_completed 0x80000000 0 0x1008 3 0 example_completed"
proof -
  let ?m = "memory example_completed"
  have "load64 ?m (frame_pid 0x4000) = 3" "load16 ?m (used_idx 0x80000000) = 1" "load32 ?m (used_id 0x80000000 0) = 0"
    "vd_addr (load_desc ?m 0x80000000 0) = 0x1008" "load16 ?m (rq_watcher 0x1008) = 3"
    by (simp_all add: load64_def load32_def load16_def load_bytes_def upt_rec frame_pid_def used_idx_def used_id_def load_desc_def
        desc_addr_def rq_watcher_def example_completed_def)
  moreover have "PROCESS_LIST example_completed = Some [waiting_process]" "frame waiting_process = 0x4000" "p_pid waiting_process = 3"
    by (simp_all add: example_completed_def waiting_process_def example_frame)
  moreover have "KMEM_HEAD example_completed = 0x1000" "heap_len example_completed = 4096"
    by (simp_all add: example_completed_def example_trap_def kernel_st.defs example_kernel_def block_st.defs example_block_def heap_len_def)
  ultimately show ?thesis
    by (simp add: one_completed_def waits_for_def find_index_Some frame_pid_of_def disjoint_regions_def VIRTIO_RING_SIZE_def)
qed

theorem interrupt_completes_request_witness:
  "\<forall>I. \<exists>s'. m_trap example_claim I 0x80000400 0x800000000000000b 0x4000 example_completed = Some (ReturnTo 0x80000400, s')
     \<and> PROCESS_LIST s' = Some [waiting_process\<lparr>pstate := Running\<rparr>] \<and> load64 (memory s') (frame_reg 0x4000 A0) = 0
     \<and> MMIO s' = [(PLIC_CLAIM, 8)]"
proof
  fix I
  let ?bd = "\<lparr>bd_queue = 0x80000000, bd_dev = 0x10008000, bd_idx = 127, bd_ack_used_idx = 0, bd_read_only = False\<rparr>"
  have e: "hw_regs example_claim PLIC_CLAIM (MMIO example_completed) = 8" "length (VIRTIO_DEVICES example_completed) = 8"
    "VIRTIO_DEVICES example_completed ! 7 = Some BlockDev" "length (BLOCK_DEVICES example_completed) = 8"
    "BLOCK_DEVICES example_completed ! 7 = Some ?bd" "PROCESS_LIST example_completed = Some [waiting_process]"
    "MMIO example_completed = []" "memory example_completed (rq_status 0x1008) = 0" "frame waiting_process = 0x4000"
    by (simp_all add: example_claim_def example_completed_def example_trap_def kernel_st.defs example_kernel_def block_st.defs example_block_def
        rq_status_def waiting_process_def example_frame nth_append)
  show "\<exists>s'. m_trap example_claim I 0x80000400 0x800000000000000b 0x4000 example_completed = Some (ReturnTo 0x80000400, s')
     \<and> PROCESS_LIST s' = Some [waiting_process\<lparr>pstate := Running\<rparr>] \<and> load64 (memory s') (frame_reg 0x4000 A0) = 0
     \<and> MMIO s' = [(PLIC_CLAIM, 8)]"
    using interrupt_completes_request [OF e(1) _ _ _ e(2,3,4,5) _ e(6) example_completed_heap, of 3 0 I "0x80000400" "0x4000"]
      example_one_completed e by (auto simp: ucast_0)
qed

end
