(* ===== verification/Address_Space.thy ===== *)
theory Address_Space
  imports Mmu Cpu
begin

text \<open>
  Sequences of calls of \<^verbatim>\<open>map\<close>, as the loops of the ELF loader and of the system calls make them: the
  address space that results is the one of the last mapping of each virtual page.
\<close>

section \<open>Mapping a list of pages\<close>

type_synonym page_map = "(usize \<times> usize \<times> usize) list"

text \<open>Virtual address, physical address and permission bits of each call.\<close>

definition map_all :: "usize \<Rightarrow> page_map \<Rightarrow> 'a page_st_scheme \<Rightarrow> 'a page_st_scheme option" where
  "map_all root ms s = for_each (\<lambda>(va, pa, bits). map_page root va pa bits 0) ms s"

text \<open>The physical address for the virtual page: the last mapping counts.\<close>

fun mapped_page :: "page_map \<Rightarrow> usize \<Rightarrow> usize option" where
  "mapped_page [] va = None"
| "mapped_page ((v, p, b) # ms) va =
     (case mapped_page ms va of Some q \<Rightarrow> Some q | None \<Rightarrow> if vpns va = vpns v then Some p else None)"

definition in_page :: "usize \<Rightarrow> usize \<Rightarrow> usize" where
  "in_page pa va = (take_bit 56 pa AND NOT 0xfff) OR (va AND 0xfff)"

definition bits_ok :: "usize \<Rightarrow> bool" where
  "bits_ok bits \<longleftrightarrow> bits AND 0xe \<noteq> 0 \<and> unat bits < 1024"

definition address_space :: "usize \<Rightarrow> 'a page_st_scheme \<Rightarrow> page_map \<Rightarrow> bool" where
  "address_space root s ms \<longleftrightarrow> (\<forall>va. virt_to_phys root va s = Some (map_option (\<lambda>pa. in_page pa va) (mapped_page ms va)))"

lemma mapped_page_append:
  "mapped_page (ms @ ns) va = (case mapped_page ns va of Some q \<Rightarrow> Some q | None \<Rightarrow> mapped_page ms va)"
  by (induction ms) (auto split: option.split)

lemma map_all_simps [simp]:
  "map_all root [] s = Some s"
  "map_all root ((va, pa, bits) # ms) s = map_page root va pa bits 0 s \<bind> map_all root ms"
  by (simp_all add: map_all_def [abs_def])

lemma map_all_append: "map_all root (ms @ ns) s = map_all root ms s \<bind> map_all root ns"
proof (induction ms arbitrary: s)
  case (Cons m ms)
  then show ?case by (cases m, cases "map_page root (fst m) (fst (snd m)) (snd (snd m)) 0 s") simp_all
qed simp

section \<open>The resulting tree\<close>

lemma map_all_tree:
  assumes "tree_ok s t" and "t Root = Some r" and "\<forall>(va, pa, bits) \<in> set ms. bits_ok bits" and "2 * length ms \<le> card (free_pages s)"
  shows "\<exists>s' t'. map_all (page_addr s r) ms s = Some s' \<and> tree_ok s' t' \<and> t' Root = Some r \<and> page_addr s' = page_addr s
    \<and> tree_grows s t s' t' \<and> card (free_pages s) \<le> card (free_pages s') + 2 * length ms
    \<and> (\<forall>va. virt_to_phys (page_addr s r) va s' =
         (case mapped_page ms va of Some pa \<Rightarrow> Some (Some (in_page pa va)) | None \<Rightarrow> virt_to_phys (page_addr s r) va s))"
  using assms
proof (induction ms arbitrary: s t)
  case Nil
  then show ?case by (intro exI [of _ s] exI [of _ t]) (simp add: tree_grows_refl)
next
  case (Cons m ms)
  obtain v pa bits where m: "m = (v, pa, bits)" by (cases m)
  have b: "bits AND 0xe \<noteq> 0" "unat bits < 1024" and two: "2 \<le> card (free_pages s)"
    using Cons.prems(3,4) m by (auto simp: bits_ok_def)
  obtain s1 t1 where s1: "map_page (page_addr s r) v pa bits 0 s = Some s1" "tree_ok s1 t1" "t1 Root = Some r" "page_addr s1 = page_addr s"
    "\<forall>i k n. n < 512 \<longrightarrow> leaf_of s1 t1 i k n = (if (i, k, n) = vpns v then leaf_entry pa bits else leaf_of s t i k n)"
    "tree_grows s t s1 t1" "card (free_pages s) \<le> card (free_pages s1) + 2"
    using map_page_tree [OF Cons.prems(1,2) b(1) two] by blast
  obtain s' t' where s': "map_all (page_addr s1 r) ms s1 = Some s'" "tree_ok s' t'" "t' Root = Some r" "page_addr s' = page_addr s1"
    "tree_grows s1 t1 s' t'" "card (free_pages s1) \<le> card (free_pages s') + 2 * length ms"
    "\<forall>va. virt_to_phys (page_addr s1 r) va s' =
       (case mapped_page ms va of Some pa \<Rightarrow> Some (Some (in_page pa va)) | None \<Rightarrow> virt_to_phys (page_addr s1 r) va s1)"
    using Cons.IH [OF s1(2,3)] Cons.prems(3,4) s1(7) by force
  note tr = leaves_translate [OF Cons.prems(1,2) s1(2-5) b(2)]
  have "virt_to_phys (page_addr s r) va s' =
      (case mapped_page (m # ms) va of Some pa \<Rightarrow> Some (Some (in_page pa va)) | None \<Rightarrow> virt_to_phys (page_addr s r) va s)" for va
    using s'(7) tr [of va] by (auto simp: m s1(4) in_page_def split: option.split)
  moreover have "map_all (page_addr s r) (m # ms) s = Some s'" using s1(1,4) s'(1) by (simp add: m)
  ultimately show ?case
    using s' s1 tree_grows_trans [OF s1(6) s'(5)] by (intro exI [of _ s'] exI [of _ t']) simp
qed

section \<open>Pages of the lower half of the address space\<close>

text \<open>Below \<open>2 ^ 39\<close> the three indices are the digits of the page number.\<close>

lemma vpns_digits: "vpns va = (unat va div 2 ^ 30 mod 512, unat va div 2 ^ 21 mod 512, unat va div 2 ^ 12 mod 512)"
proof -
  have "unat (take_bit 9 (drop_bit k va)) = unat va div 2 ^ k mod 512" for k
    using take_bit_nat_eq_self [OF unsigned_less, of va]
    unfolding unsigned_take_bit_eq unsigned_drop_bit_eq by (simp add: take_bit_eq_mod drop_bit_eq_div)
  then show ?thesis unfolding vpns_def vpn_bits by simp
qed

lemma vpns_eq_iff:
  assumes "unat va < 2 ^ 39" "unat v < 2 ^ 39"
  shows "vpns va = vpns v \<longleftrightarrow> unat va div 4096 = unat v div 4096"
proof -
  have d: "unat x div 2 ^ 12 = (unat x div 2 ^ 30 mod 512) * 2 ^ 18 + (unat x div 2 ^ 21 mod 512) * 2 ^ 9 + unat x div 2 ^ 12 mod 512"
    if x: "unat x < 2 ^ 39" for x :: usize
  proof -
    have q: "q = q div 512 div 512 * 262144 + q div 512 mod 512 * 512 + q mod 512" for q :: nat
    proof -
      have "q div 512 = q div 512 div 512 * 512 + q div 512 mod 512" "q = q div 512 * 512 + q mod 512" by simp_all
      then show ?thesis by linarith
    qed
    have a: "unat x div 2 ^ 21 = unat x div 2 ^ 12 div 512" "unat x div 2 ^ 30 = unat x div 2 ^ 12 div 512 div 512"
      by (simp_all add: div_mult2_eq [symmetric])
    have "unat x div 2 ^ 12 div 512 div 512 < 512" using x by (simp add: div_mult2_eq [symmetric] div_less_iff_less_mult)
    then show ?thesis using q [of "unat x div 2 ^ 12"] unfolding a by simp
  qed
  show ?thesis
  proof
    assume "vpns va = vpns v"
    then have "unat va div 2 ^ 30 mod 512 = unat v div 2 ^ 30 mod 512" "unat va div 2 ^ 21 mod 512 = unat v div 2 ^ 21 mod 512"
      "unat va div 2 ^ 12 mod 512 = unat v div 2 ^ 12 mod 512" by (simp_all only: vpns_digits prod.inject)
    then have "unat va div 2 ^ 12 = unat v div 2 ^ 12" using d [OF assms(1)] d [OF assms(2)] by metis
    then show "unat va div 4096 = unat v div 4096" by simp
  next
    assume "unat va div 4096 = unat v div 4096"
    then have "unat va div 2 ^ 12 = unat v div 2 ^ 12" by simp
    then have "unat va div 2 ^ 12 div 2 ^ 9 = unat v div 2 ^ 12 div 2 ^ 9" "unat va div 2 ^ 12 div 2 ^ 18 = unat v div 2 ^ 12 div 2 ^ 18" by simp_all
    then have "unat va div 2 ^ 21 = unat v div 2 ^ 21" "unat va div 2 ^ 30 = unat v div 2 ^ 30"
      by (simp_all add: div_mult2_eq [symmetric])
    then show "vpns va = vpns v" using \<open>unat va div 2 ^ 12 = unat v div 2 ^ 12\<close> by (simp only: vpns_digits)
  qed
qed

text \<open>An address in the page behind a virtual address.\<close>

lemma unat_in_page:
  assumes "unat pa < 2 ^ 56" shows "unat (in_page pa va) = 4096 * (unat pa div 4096) + unat va mod 4096"
proof -
  have "take_bit 56 pa = pa" using assms by (simp add: word_unat_eq_iff unsigned_take_bit_eq take_bit_nat_eq_self)
  then have e: "in_page pa va = push_bit 12 (drop_bit 12 pa) OR take_bit 12 va"
    unfolding in_page_def mask_literals by (intro bit_word_eqI) (auto simp: bit_simps)
  have "push_bit 12 (drop_bit 12 pa) AND take_bit 12 va = 0" by (intro bit_word_eqI) (auto simp: bit_simps)
  then have s: "in_page pa va = push_bit 12 (drop_bit 12 pa) + take_bit 12 va" unfolding e by (simp add: disjunctive_add_eq_or)
  have u: "unat (push_bit 12 (drop_bit 12 pa)) = 4096 * (unat pa div 4096)"
    using assms by (simp add: push_bit_eq_mult unat_word_ariths unsigned_drop_bit_eq drop_bit_eq_div)
  have "unat (take_bit 12 va) = unat va mod 4096" unfolding unsigned_take_bit_eq by (simp add: take_bit_eq_mod)
  then show ?thesis using u assms by (subst s, subst unat_add_no_wrap) auto
qed

section \<open>The words that the hardware reads\<close>

lemma build_satp_bits:
  "build_satp md asid root = push_bit 60 (SatpMode_val md) OR push_bit 44 (take_bit 16 asid) OR take_bit 40 (drop_bit 12 root)"
proof -
  have "(0xffff :: usize) = mask 16" "(0xffffffffff :: usize) = mask 40" by (simp_all add: mask_eq_exp_minus_1)
  then show ?thesis unfolding build_satp_def by (simp only: take_bit_eq_mask)
qed

lemma bit_mode: "bit (8 :: usize) n \<longleftrightarrow> n = 3"
  using bit_exp_iff [where 'a = "64 word", of 3 n] by (auto simp: possible_bit_def)

section \<open>Properties\<close>

text \<open>
  C31: the words that the kernel hands to the MMU are well formed. A leaf entry for a physical address has the number of its page in the
  bits 10 to 53, its permission bits with the bits for valid, accessed and dirty below, and nothing in the reserved bits above; the
  \<^verbatim>\<open>satp\<close> value of a process selects Sv39, carries the address space number and the page number of the root table.
\<close>
theorem mmu_words_well_formed:
  assumes "unat bits < 1024" and "unat root < 2 ^ 52" and "unat asid < 2 ^ 16"
  shows "take_bit 10 (leaf_entry pa bits) = bits OR 0xc1 \<and> take_bit 44 (drop_bit 10 (leaf_entry pa bits)) = take_bit 44 (drop_bit 12 pa)
    \<and> drop_bit 54 (leaf_entry pa bits) = 0 \<and> drop_bit 60 (build_satp Sv39 asid root) = 8
    \<and> take_bit 16 (drop_bit 44 (build_satp Sv39 asid root)) = asid \<and> take_bit 44 (build_satp Sv39 asid root) = drop_bit 12 root"
proof (intro conjI)
  have tb: "take_bit k w = w" if "unat w < 2 ^ k" for w :: usize and k
    using that by (simp add: word_unat_eq_iff unsigned_take_bit_eq take_bit_nat_eq_self)
  have "take_bit 10 bits = bits" by (rule tb) (use assms(1) in simp)
  then have bits: "bit bits n \<Longrightarrow> n < 10" for n by (metis bit_take_bit_iff)
  have "unat (drop_bit 12 root) = unat root div 4096" by (simp add: drop_bit_eq_div unat_div)
  then have "unat (drop_bit 12 root) < 2 ^ 40" using assms(2) by (simp add: div_less_iff_less_mult)
  then have as: "take_bit 16 asid = asid" "take_bit 40 (drop_bit 12 root) = drop_bit 12 root" using tb [of "drop_bit 12 root" 40] tb [OF assms(3)] by blast+
  then have asid: "bit asid n \<Longrightarrow> n < 16" and root: "bit (drop_bit 12 root) n \<Longrightarrow> n < 40" for n by (metis bit_take_bit_iff)+
  have satp: "bit (build_satp Sv39 asid root) n \<longleftrightarrow> n < 64 \<and> (n = 63 \<or> (44 \<le> n \<and> bit asid (n - 44)) \<or> bit (drop_bit 12 root) n)" for n
    unfolding build_satp_bits as SatpMode_val.simps bit_or_iff bit_push_bit_iff bit_mode using bit_imp_le_length [of "drop_bit 12 root" n] asid [of "n - 44"] by auto
  show "take_bit 10 (leaf_entry pa bits) = bits OR 0xc1"
  proof (rule bit_word_eqI)
    fix n assume "n < LENGTH(64)"
    have c1: "(0xc1 :: usize) = push_bit 7 1 OR push_bit 6 1 OR 1" by simp
    have "bit (0xc1 :: usize) n \<longleftrightarrow> n = 7 \<or> n = 6 \<or> n = 0"
      unfolding c1 bit_or_iff bit_push_bit_iff bit_1_iff using \<open>n < LENGTH(64)\<close> by auto
    then show "bit (take_bit 10 (leaf_entry pa bits)) n = bit (bits OR 0xc1) n"
      unfolding bit_take_bit_iff bit_leaf_entry bit_or_iff using bits [of n] \<open>n < LENGTH(64)\<close> by auto
  qed
  show "take_bit 44 (drop_bit 10 (leaf_entry pa bits)) = take_bit 44 (drop_bit 12 pa)"
  proof (rule bit_word_eqI)
    fix n :: nat
    have "10 + n + 2 = 12 + n" by simp
    then show "bit (take_bit 44 (drop_bit 10 (leaf_entry pa bits))) n = bit (take_bit 44 (drop_bit 12 pa)) n"
      unfolding bit_take_bit_iff bit_drop_bit_eq o_apply bit_leaf_entry using bits [of "10 + n"] by auto
  qed
  show "drop_bit 54 (leaf_entry pa bits) = 0"
    by (rule bit_word_eqI) (unfold bit_drop_bit_eq o_apply bit_leaf_entry, use bits in force)
  show "drop_bit 60 (build_satp Sv39 asid root) = 8"
  proof (rule bit_word_eqI)
    fix n :: nat
    have "\<not> bit asid (60 + n - 44)" "\<not> bit (drop_bit 12 root) (60 + n)" using asid [of "60 + n - 44"] root [of "60 + n"] by auto
    then show "bit (drop_bit 60 (build_satp Sv39 asid root)) n = bit (8 :: usize) n" unfolding bit_drop_bit_eq o_apply satp bit_mode by auto
  qed
  show "take_bit 16 (drop_bit 44 (build_satp Sv39 asid root)) = asid"
  proof (rule bit_word_eqI)
    fix n :: nat
    have "\<not> bit (drop_bit 12 root) (44 + n)" using root [of "44 + n"] by auto
    then show "bit (take_bit 16 (drop_bit 44 (build_satp Sv39 asid root))) n = bit asid n"
      unfolding bit_take_bit_iff bit_drop_bit_eq [of 44] o_apply satp using asid [of n] by auto
  qed
  show "take_bit 44 (build_satp Sv39 asid root) = drop_bit 12 root"
  proof (rule bit_word_eqI)
    fix n :: nat
    show "bit (take_bit 44 (build_satp Sv39 asid root)) n = bit (drop_bit 12 root) n"
      unfolding bit_take_bit_iff satp using root [of n] by auto
  qed
qed

theorem mmu_words_well_formed_witness:
  "take_bit 10 (leaf_entry 0x80201000 0x1e) = (0xdf :: usize) \<and> take_bit 16 (drop_bit 44 (build_satp Sv39 7 0x80200000)) = 7
     \<and> take_bit 44 (build_satp Sv39 7 0x80200000) = 0x80200"
  using mmu_words_well_formed [of "0x1e" "0x80200000" 7 "0x80201000"] by simp

end
