(* ===== verification/Elf_Load.thy ===== *)
theory Elf_Load
  imports Elf Address_Space
begin

text \<open>
  The address space of a loaded program. The program lies in one block of pages; the loader copies the segments
  there and maps their pages and the stack. What the page tables, the program block and the frame hold
  at the end is stated over the list of all mappings (\<open>page_map\<close>) and the image of the program.
\<close>

section \<open>Blocks as byte strings\<close>

definition block_bytes :: "'a page_st_scheme \<Rightarrow> nat \<Rightarrow> nat \<Rightarrow> u8 list" where
  "block_bytes s j n = load_bytes (memory s) (page_addr s j) (4096 * n)"

lemma length_block_bytes [simp]: "length (block_bytes s j n) = 4096 * n"
  by (simp add: block_bytes_def)

lemma block_bytes_nth:
  assumes "i < 4096 * n" shows "block_bytes s j n ! i = page_bytes s (j + i div 4096) ! (i mod 4096)"
proof -
  have "page_addr s j + of_nat i = page_addr s (j + i div 4096) + of_nat (i mod 4096)"
  proof -
    have "4096 * j + i = 4096 * (j + i div 4096) + i mod 4096" by simp
    then have "(of_nat (4096 * j + i) :: usize) = of_nat (4096 * (j + i div 4096) + i mod 4096)" by (rule arg_cong)
    then show ?thesis by (simp only: page_addr_def of_nat_add add.assoc)
  qed
  then show ?thesis using assms by (simp add: block_bytes_def page_bytes_def)
qed

lemma block_bytes_cong:
  assumes "\<And>k. j \<le> k \<Longrightarrow> k < j + n \<Longrightarrow> page_bytes s' k = page_bytes s k"
  shows "block_bytes s' j n = block_bytes s j n"
proof (rule nth_equalityI)
  fix i assume "i < length (block_bytes s' j n)"
  then have i: "i < 4096 * n" by simp
  then have "i div 4096 < n" by (simp add: less_mult_imp_div_less mult.commute)
  then show "block_bytes s' j n ! i = block_bytes s j n ! i" using assms i by (simp add: block_bytes_nth)
qed simp

lemma block_bytes_zero:
  assumes "\<And>k. j \<le> k \<Longrightarrow> k < j + n \<Longrightarrow> page_bytes s k = replicate 4096 0"
  shows "block_bytes s j n = replicate (4096 * n) 0"
proof (rule nth_equalityI)
  fix i assume "i < length (block_bytes s j n)"
  then have i: "i < 4096 * n" by simp
  then have "i div 4096 < n" by (simp add: less_mult_imp_div_less mult.commute)
  then show "block_bytes s j n ! i = replicate (4096 * n) 0 ! i" using assms i by (simp add: block_bytes_nth)
qed simp

text \<open>Writing into a block.\<close>

lemma block_place:
  assumes "page_geometry s" "j + n \<le> num_pages s" "0 < n"
  shows "unat (page_addr s j) = unat (ALLOC_START s) + 4096 * j" "unat (page_addr s j) + 4096 * n < 2 ^ 64"
proof -
  show a: "unat (page_addr s j) = unat (ALLOC_START s) + 4096 * j" using assms by (intro page_addr_checked(3)) simp_all
  have "4096 * j + 4096 * n \<le> 4096 * num_pages s" using assms(2) by simp
  then show "unat (page_addr s j) + 4096 * n < 2 ^ 64" using a assms(1) by (simp add: page_geometry_def)
qed

lemma block_store:
  fixes s :: "'a page_st_scheme"
  assumes inv: "page_inv s" and b: "(j, n) \<in> blocks s" and o: "off + length d \<le> 4096 * n"
  defines "s1 \<equiv> s\<lparr>memory := store_bytes (memory s) (page_addr s j + of_nat off) d\<rparr>"
  shows "page_inv s1" "blocks s1 = blocks s" "block_bytes s1 j n = Fs_Data.splice off d (block_bytes s j n)"
    "\<And>i l k. (i, l) \<in> blocks s \<Longrightarrow> (i, l) \<noteq> (j, n) \<Longrightarrow> i \<le> k \<Longrightarrow> k < i + l \<Longrightarrow> page_bytes s1 k = page_bytes s k"
proof -
  have geo: "page_geometry s" using inv by (simp add: page_inv_def)
  have jn: "j + n \<le> num_pages s" "0 < n" using pages.live_nonempty [OF b] by simp_all
  note pl = block_place [OF geo jn]
  have ua: "unat (page_addr s j + of_nat off) = unat (page_addr s j) + off" using pl(2) o by (intro unat_add_of_nat) simp
  have sub: "in_region (page_addr s j) (4096 * n) x" if "in_region (page_addr s j + of_nat off) (length d) x" for x
    using that pl(2) o ua by (auto simp: in_region_iff)
  have "store_bytes (memory s) (page_addr s j + of_nat off) d x = memory s x" if "\<not> in_region (page_addr s j) (4096 * n) x" for x
    using sub that by (auto simp: store_bytes_def)
  from block_write_keeps_table [OF inv jn this] show "page_inv s1" "blocks s1 = blocks s" by (simp_all add: s1_def)
  show "block_bytes s1 j n = Fs_Data.splice off d (block_bytes s j n)"
  proof (rule nth_equalityI)
    fix i assume "i < length (block_bytes s1 j n)"
    then have i: "i < 4096 * n" by simp
    then have ui: "unat (page_addr s j + of_nat i) = unat (page_addr s j) + i" using pl(2) by (intro unat_add_of_nat) simp
    have io: "in_region (page_addr s j + of_nat off) (length d) (page_addr s j + of_nat i) \<longleftrightarrow> off \<le> i \<and> i < off + length d"
      using ua ui pl(2) o by (auto simp: in_region_iff)
    have "unat (page_addr s j + of_nat i - (page_addr s j + of_nat off)) = i - off" if "off \<le> i"
      using ua ui that by (subst unat_sub) (simp_all add: word_le_nat_alt)
    then show "block_bytes s1 j n ! i = Fs_Data.splice off d (block_bytes s j n) ! i"
      using i o io by (simp add: block_bytes_def s1_def nth_splice store_bytes_def page_addr_def)
  qed (use o in \<open>simp add: s1_def\<close>)
  show "page_bytes s1 k = page_bytes s k" if c: "(i, l) \<in> blocks s" "(i, l) \<noteq> (j, n)" "i \<le> k" "k < i + l" for i l k
  proof -
    have k: "k < num_pages s" using pages.live_nonempty [OF c(1)] c(4) by simp
    have "k < j \<or> j + n \<le> k" using pages.live_apart [OF c(1) b] c by auto
    then have "4096 * k + 4096 \<le> 4096 * j \<or> 4096 * j + 4096 * n \<le> 4096 * k" by auto
    moreover note page_addr_checked(3) [OF geo k] pl
    moreover have "unat (page_addr s k) + 4096 < 2 ^ 64" using block_place(2) [OF geo, of k 1] k by simp
    ultimately have "disjoint_regions (page_addr s j + of_nat off) (length d) (page_addr s k) 4096"
      using ua o by (auto simp: disjoint_regions_def)
    then show ?thesis by (simp add: page_bytes_def s1_def load_store_bytes_disjoint page_addr_def)
  qed
qed

section \<open>Loading into a new tree\<close>

text \<open>
  The state while a program is being loaded, relative to the state \<open>s\<close> with tree \<open>t\<close> before: the mappings \<open>ms\<close> so far, the
  image of the program in the block \<open>(jp, n)\<close>, and everything else as it was.
\<close>

definition loading :: "'a page_st_scheme \<Rightarrow> tree \<Rightarrow> nat \<Rightarrow> nat \<times> nat \<Rightarrow> page_map \<Rightarrow> u8 list \<Rightarrow> 'a page_st_scheme \<Rightarrow> tree \<Rightarrow> bool" where
  "loading s t r b ms img s' t' \<longleftrightarrow> tree_ok s' t' \<and> t' Root = Some r \<and> (\<exists>m. s' = s\<lparr>memory := m\<rparr>)
     \<and> blocks s' = blocks s \<union> table_blocks t' \<and> table_blocks t \<subseteq> table_blocks t' \<and> (table_blocks t' - table_blocks t) \<inter> blocks s = {}
     \<and> (\<forall>i l k. (i, l) \<in> blocks s - table_blocks t \<longrightarrow> (i, l) \<noteq> b \<longrightarrow> i \<le> k \<longrightarrow> k < i + l \<longrightarrow> page_bytes s' k = page_bytes s k)
     \<and> address_space (page_addr s r) s' ms \<and> block_bytes s' (fst b) (snd b) = img
     \<and> card (free_pages s) \<le> card (free_pages s') + 2 * length ms"

lemma loadingD:
  assumes "loading s t r b ms img s' t'"
  shows "tree_ok s' t'" "t' Root = Some r" "\<exists>m. s' = s\<lparr>memory := m\<rparr>" "blocks s' = blocks s \<union> table_blocks t'"
    "table_blocks t \<subseteq> table_blocks t'" "(table_blocks t' - table_blocks t) \<inter> blocks s = {}"
    "\<And>i l k. (i, l) \<in> blocks s - table_blocks t \<Longrightarrow> (i, l) \<noteq> b \<Longrightarrow> i \<le> k \<Longrightarrow> k < i + l \<Longrightarrow> page_bytes s' k = page_bytes s k"
    "address_space (page_addr s r) s' ms" "block_bytes s' (fst b) (snd b) = img"
    "card (free_pages s) \<le> card (free_pages s') + 2 * length ms" "page_addr s' = page_addr s" "num_pages s' = num_pages s"
  using assms unfolding loading_def by (auto 4 3)

lemma loading_map:
  assumes l: "loading s t r b ms img s1 t1" and b: "b \<in> blocks s - table_blocks t"
    and bits: "\<forall>(va, pa, bits) \<in> set ns. bits_ok bits" and mem: "2 * (length ms + length ns) \<le> card (free_pages s)"
  shows "\<exists>s2 t2. map_all (page_addr s r) ns s1 = Some s2 \<and> loading s t r b (ms @ ns) img s2 t2"
proof -
  note d = loadingD [OF l]
  obtain s2 t2 where m: "map_all (page_addr s1 r) ns s1 = Some s2" "tree_ok s2 t2" "t2 Root = Some r" "page_addr s2 = page_addr s1"
    "tree_grows s1 t1 s2 t2" "card (free_pages s1) \<le> card (free_pages s2) + 2 * length ns"
    "\<forall>va. virt_to_phys (page_addr s1 r) va s2 =
       (case mapped_page ns va of Some pa \<Rightarrow> Some (Some (in_page pa va)) | None \<Rightarrow> virt_to_phys (page_addr s1 r) va s1)"
    using map_all_tree [OF d(1,2) bits] mem d(10) by force
  note g = m(5) [unfolded tree_grows_def]
  have live: "(i, l) \<in> blocks s1 - table_blocks t1" if "(i, l) \<in> blocks s - table_blocks t" for i l
    using that d(4,6) by blast
  have keep: "page_bytes s2 k = page_bytes s1 k" if "(i, l) \<in> blocks s - table_blocks t" "i \<le> k" "k < i + l" for i l k
    using g live [OF that(1)] that(2,3) by blast
  have "loading s t r b (ms @ ns) img s2 t2"
    unfolding loading_def
  proof (intro conjI)
    show "\<exists>m. s2 = s\<lparr>memory := m\<rparr>" using g d(3) by auto
    have "blocks s2 = blocks s1 \<union> table_blocks t2" "table_blocks t1 \<subseteq> table_blocks t2" "(table_blocks t2 - table_blocks t1) \<inter> blocks s1 = {}"
      using g by simp_all
    then show "blocks s2 = blocks s \<union> table_blocks t2" "table_blocks t \<subseteq> table_blocks t2" "(table_blocks t2 - table_blocks t) \<inter> blocks s = {}"
      using d(4-6) by blast+
    show "\<forall>i l k. (i, l) \<in> blocks s - table_blocks t \<longrightarrow> (i, l) \<noteq> b \<longrightarrow> i \<le> k \<longrightarrow> k < i + l \<longrightarrow> page_bytes s2 k = page_bytes s k"
    proof (intro allI impI)
      fix i l k assume a: "(i, l) \<in> blocks s - table_blocks t" "(i, l) \<noteq> b" "i \<le> k" "k < i + l"
      show "page_bytes s2 k = page_bytes s k" using keep [OF a(1,3,4)] d(7) [OF a] by simp
    qed
    show "address_space (page_addr s r) s2 (ms @ ns)"
      using m(7) d(8) unfolding address_space_def mapped_page_append d(11) by (auto split: option.split)
    have "block_bytes s2 (fst b) (snd b) = block_bytes s1 (fst b) (snd b)"
      by (rule block_bytes_cong) (use keep [of "fst b" "snd b"] b in simp)
    then show "block_bytes s2 (fst b) (snd b) = img" using d(9) by simp
    show "card (free_pages s) \<le> card (free_pages s2) + 2 * length (ms @ ns)" using m(6) d(10) by simp
  qed (use m in simp_all)
  then show ?thesis using m(1) d(11) by auto
qed

lemma virt_to_phys_cong:
  assumes "tree_ok s t" "t Root = Some r" "page_inv s1" "page_addr s1 = page_addr s"
    and "\<And>p j. t p = Some j \<Longrightarrow> (j, 1) \<in> blocks s1 \<and> page_bytes s1 j = page_bytes s j"
  shows "tree_ok s1 t" "virt_to_phys (page_addr s r) va s1 = virt_to_phys (page_addr s r) va s"
proof -
  show ok: "tree_ok s1 t" by (rule tree_ok_cong(1) [OF assms(1,3,4)]) (rule assms(5))
  obtain i k n where v: "vpns va = (i, k, n)" by (cases "vpns va")
  have n: "n < 512" using v vpn_lt [of 0 va] by (auto simp: vpns_def)
  have "leaf_of s1 t i k n = leaf_of s t i k n"
    by (rule tree_ok_cong(2) [OF assms(1,3,4) _ n]) (rule assms(5))
  then show "virt_to_phys (page_addr s r) va s1 = virt_to_phys (page_addr s r) va s"
    using virt_to_phys_tree [OF ok assms(2), where va = va] virt_to_phys_tree [OF assms(1,2), where va = va] v assms(4) by simp
qed

lemma free_pages_cong: "blocks s' = blocks s \<Longrightarrow> num_pages s' = num_pages s \<Longrightarrow> free_pages s' = free_pages s"
  by (simp add: free_pages_def)

lemma loading_store:
  assumes l: "loading s t r (jp, n) ms img s1 t1" and b: "(jp, n) \<in> blocks s - table_blocks t" and o: "off + length d \<le> 4096 * n"
  shows "loading s t r (jp, n) ms (Fs_Data.splice off d img) (s1\<lparr>memory := store_bytes (memory s1) (page_addr s jp + of_nat off) d\<rparr>) t1"
proof -
  note c = loadingD [OF l]
  let ?s = "s1\<lparr>memory := store_bytes (memory s1) (page_addr s1 jp + of_nat off) d\<rparr>"
  have b1: "(jp, n) \<in> blocks s1" "(jp, n) \<notin> table_blocks t1" using b c(4,6) by blast+
  note st = block_store [OF tree_okD(1) [OF c(1)] b1(1) o]
  have ad: "page_addr ?s = page_addr s1" "num_pages ?s = num_pages s1" by (simp_all add: page_addr_def num_pages_def fun_eq_iff)
  have tab: "(j, 1) \<in> blocks ?s \<and> page_bytes ?s j = page_bytes s1 j" if "t1 p = Some j" for p j
  proof -
    have j: "(j, 1) \<in> blocks s1" using tree_okD(4) [OF c(1) that] .
    have "(j, 1) \<in> table_blocks t1" using that by (auto simp: table_blocks_def)
    then have "(j, 1) \<noteq> (jp, n)" using b1(2) by auto
    then show ?thesis using st(2) st(4) [OF j, of j] j by simp
  qed
  note vc = virt_to_phys_cong [OF c(1,2) st(1) ad(1) tab]
  have "loading s t r (jp, n) ms (Fs_Data.splice off d img) ?s t1"
    unfolding loading_def
  proof (intro conjI)
    show "tree_ok ?s t1" by (rule virt_to_phys_cong(1) [OF c(1,2) st(1) ad(1)]) (rule tab)
    show "\<exists>m. ?s = s\<lparr>memory := m\<rparr>" using c(3) by auto
    show "\<forall>i l k. (i, l) \<in> blocks s - table_blocks t \<longrightarrow> (i, l) \<noteq> (jp, n) \<longrightarrow> i \<le> k \<longrightarrow> k < i + l \<longrightarrow> page_bytes ?s k = page_bytes s k"
    proof (intro allI impI)
      fix i l k assume a: "(i, l) \<in> blocks s - table_blocks t" "(i, l) \<noteq> (jp, n)" "i \<le> k" "k < i + l"
      have "(i, l) \<in> blocks s1" using a(1) c(4) by blast
      then show "page_bytes ?s k = page_bytes s k" using st(4) a(2-4) c(7) [OF a] by simp
    qed
    have "virt_to_phys (page_addr s1 r) va ?s = virt_to_phys (page_addr s1 r) va s1" for va
      by (rule virt_to_phys_cong(2) [OF c(1,2) st(1) ad(1)]) (rule tab)
    then show "address_space (page_addr s r) ?s ms" using c(8) by (simp add: address_space_def c(11))
    show "block_bytes ?s (fst (jp, n)) (snd (jp, n)) = Fs_Data.splice off d img" using st(3) c(9) by simp
    show "card (free_pages s) \<le> card (free_pages ?s) + 2 * length ms" using c(10) free_pages_cong [OF st(2) ad(2)] by simp
  qed (use c st(2) in simp_all)
  then show ?thesis by (simp add: c(11))
qed

section \<open>The loops of the loader\<close>

definition segment_page_count :: "ProgramHeader \<Rightarrow> nat" where
  "segment_page_count ph = (unat (ph_memsz ph) + 4096) div 4096"

definition segment_map :: "usize \<Rightarrow> ProgramHeader \<Rightarrow> nat list \<Rightarrow> page_map" where
  "segment_map pm ph is = map (\<lambda>i. (ph_vaddr ph + of_nat (4096 * i), pm + ph_off ph + of_nat (4096 * i), segment_bits (ph_flags ph))) is"

definition stack_map :: "usize \<Rightarrow> page_map" where
  "stack_map st = map (\<lambda>i. (STACK_ADDR + of_nat (4096 * i), st + of_nat (4096 * i), EntryBits_val UserReadWrite)) [0..<35]"

lemma unat_disp: "4096 * i < 2 ^ 64 \<Longrightarrow> unat (of_nat i :: usize) = i" "4096 * i < 2 ^ 64 \<Longrightarrow> unat (of_nat (4096 * i) :: usize) = 4096 * i"
  by (rule unat_of_nat_small, simp)+

lemma map_segment_page_eq:
  assumes "unat (ph_vaddr ph) + 4096 * i < 2 ^ 64" and "unat pm + unat (ph_off ph) + 4096 * i < 2 ^ 64"
  shows "map_segment_page table pm ph i (b, s) =
    map_option (Pair (max b (ph_vaddr ph + of_nat (4096 * i))))
      (map_page table (ph_vaddr ph + of_nat (4096 * i)) (pm + ph_off ph + of_nat (4096 * i)) (segment_bits (ph_flags ph)) 0 s)"
proof -
  have ui: "unat (of_nat i :: usize) = i" "unat (of_nat (4096 * i) :: usize) = 4096 * i" using assms by (intro unat_disp; simp)+
  have d: "umul (of_nat i) PAGE_SIZE = Some (of_nat (4096 * i))"
    using ui assms by (simp add: umul_def PAGE_SIZE_def mult.commute)
  have "uadd (ph_vaddr ph) (of_nat (4096 * i)) = Some (ph_vaddr ph + of_nat (4096 * i))"
    "uadd pm (ph_off ph) = Some (pm + ph_off ph)"
    using assms ui by (simp_all add: uadd_def)
  moreover have "unat (pm + ph_off ph) = unat pm + unat (ph_off ph)" using assms(2) by (intro unat_add_no_wrap) simp
  then have "uadd (pm + ph_off ph) (of_nat (4096 * i)) = Some (pm + ph_off ph + of_nat (4096 * i))" using assms ui by (simp add: uadd_def)
  ultimately show ?thesis
    using d by (cases "map_page table (ph_vaddr ph + of_nat (4096 * i)) (pm + ph_off ph + of_nat (4096 * i)) (segment_bits (ph_flags ph)) 0 s")
      (auto simp: map_segment_page_def max_def)
qed

lemma map_segment_pages_eq:
  assumes "\<And>i. i \<in> set is \<Longrightarrow> unat (ph_vaddr ph) + 4096 * i < 2 ^ 64 \<and> unat pm + unat (ph_off ph) + 4096 * i < 2 ^ 64"
  shows "for_each (map_segment_page table pm ph) is (b, s) =
    map_option (Pair (fold (\<lambda>i b. max b (ph_vaddr ph + of_nat (4096 * i))) is b)) (map_all table (segment_map pm ph is) s)"
  using assms
proof (induction "is" arbitrary: b s)
  case (Cons i "is")
  note eq = map_segment_page_eq [of ph i pm table b s]
  show ?case
    using Cons eq
    by (cases "map_page table (ph_vaddr ph + of_nat (4096 * i)) (pm + ph_off ph + of_nat (4096 * i)) (segment_bits (ph_flags ph)) 0 s")
      (simp_all add: segment_map_def)
qed (simp add: segment_map_def)

lemma map_stack_pages_eq:
  assumes "\<And>i. i \<in> set is \<Longrightarrow> i < 35" and "unat st + 4096 * 35 < 2 ^ 64"
  shows "for_each (map_stack_page table st) is s =
    map_all table (map (\<lambda>i. (STACK_ADDR + of_nat (4096 * i), st + of_nat (4096 * i), EntryBits_val UserReadWrite)) is) s"
  using assms
proof (induction "is" arbitrary: s)
  case (Cons i "is")
  have i: "i < 35" using Cons.prems(1) by simp
  then have ui: "unat (of_nat i :: usize) = i" "unat (of_nat (4096 * i) :: usize) = 4096 * i" by (intro unat_disp; simp)+
  have "umul (of_nat i) PAGE_SIZE = Some (of_nat (4096 * i))" "uadd STACK_ADDR (of_nat (4096 * i)) = Some (STACK_ADDR + of_nat (4096 * i))"
    "uadd st (of_nat (4096 * i)) = Some (st + of_nat (4096 * i))"
    using ui i Cons.prems(2) by (simp_all add: umul_def uadd_def PAGE_SIZE_def STACK_ADDR_def mult.commute)
  then have "map_stack_page table st i s = map_page table (STACK_ADDR + of_nat (4096 * i)) (st + of_nat (4096 * i)) (EntryBits_val UserReadWrite) 0 s"
    by (simp add: map_stack_page_def)
  then show ?case
    using Cons by (cases "map_page table (STACK_ADDR + of_nat (4096 * i)) (st + of_nat (4096 * i)) (EntryBits_val UserReadWrite) 0 s") simp_all
qed simp

text \<open>
  What the loader relies on: the segments lie in the lower half of the address space, they fit into the program block at the
  offsets they have in the file, and each asks for some permission.
\<close>

definition segment_fits :: "nat \<Rightarrow> Program \<Rightarrow> bool" where
  "segment_fits n p \<longleftrightarrow> (let ph = pr_header p in unat (ph_vaddr ph) + unat (ph_memsz ph) < 2 ^ 63
     \<and> unat (ph_off ph) + unat (ph_memsz ph) \<le> 4096 * n \<and> ph_flags ph AND 7 \<noteq> 0
     \<and> memcpy_len (unat (ph_memsz ph)) \<le> length (pr_data p))"

definition program_map :: "usize \<Rightarrow> Program list \<Rightarrow> page_map" where
  "program_map pm ps = concat (map (\<lambda>p. segment_map pm (pr_header p) [0..<segment_page_count (pr_header p)]) ps)"

definition copy_segment :: "Program \<Rightarrow> u8 list \<Rightarrow> u8 list" where
  "copy_segment p img = Fs_Data.splice (unat (ph_off (pr_header p))) (take (memcpy_len (unat (ph_memsz (pr_header p)))) (pr_data p)) img"

definition program_image :: "nat \<Rightarrow> Program list \<Rightarrow> u8 list" where
  "program_image n ps = fold copy_segment ps (replicate (4096 * n) 0)"

lemma segment_bits_ok: "fl AND 7 \<noteq> 0 \<Longrightarrow> bits_ok (segment_bits fl)"
proof -
  assume "fl AND 7 \<noteq> 0"
  moreover have "fl AND 7 = (fl AND PROG_EXECUTE) OR (fl AND PROG_READ) OR (fl AND PROG_WRITE)"
    by (simp add: PROG_EXECUTE_def PROG_READ_def PROG_WRITE_def bit.conj_disj_distrib [symmetric])
  ultimately have "fl AND PROG_EXECUTE \<noteq> 0 \<or> fl AND PROG_READ \<noteq> 0 \<or> fl AND PROG_WRITE \<noteq> 0" by auto
  then show ?thesis by (auto simp: segment_bits_def bits_ok_def Let_def)
qed

lemma fold_max_bound:
  assumes "unat b \<le> B" and "\<And>i. i \<in> set is \<Longrightarrow> unat (f i) \<le> B"
  shows "unat (fold (\<lambda>i b. max b (f i)) is (b :: usize)) \<le> B"
  using assms by (induction "is" arbitrary: b) (auto simp: max_def)

lemma map_segment_loading:
  assumes l: "loading s t r (jp, n) ms img s1 t1" and b: "(jp, n) \<in> blocks s - table_blocks t" and f: "segment_fits n p"
    and mem: "2 * (length ms + segment_page_count (pr_header p)) \<le> card (free_pages s)" and bk: "unat b0 \<le> B" "2 ^ 63 \<le> B" "B + 4096 < 2 ^ 64"
  shows "\<exists>b' s2 t2. map_segment (page_addr s r) (page_addr s jp) p (b0, s1) = Some (b', s2)
    \<and> loading s t r (jp, n) (ms @ segment_map (page_addr s jp) (pr_header p) [0..<segment_page_count (pr_header p)]) (copy_segment p img) s2 t2
    \<and> unat b' \<le> B + 4096"
proof -
  let ?h = "pr_header p" and ?pm = "page_addr s jp"
  let ?d = "take (memcpy_len (unat (ph_memsz ?h))) (pr_data p)"
  let ?s = "s1\<lparr>memory := store_bytes (memory s1) (?pm + ph_off ?h) ?d\<rparr>"
  let ?is = "[0..<segment_page_count ?h]"
  note f' = f [unfolded segment_fits_def Let_def]
  have "loading s t r (jp, n) ms (Fs_Data.splice (unat (ph_off ?h)) ?d img) (s1\<lparr>memory := store_bytes (memory s1) (?pm + of_nat (unat (ph_off ?h))) ?d\<rparr>) t1"
    by (rule loading_store [OF l b]) (use f' memcpy_len_le [of "unat (ph_memsz ?h)"] in simp)
  then have l2: "loading s t r (jp, n) ms (copy_segment p img) ?s t1" by (simp add: copy_segment_def)
  have geo: "page_geometry s" using l b unfolding loading_def by (auto dest: tree_okD(2) simp: page_geometry_def)
  have jn: "jp + n \<le> num_pages s" "0 < n" using pages.live_nonempty [of jp n s] b by simp_all
  have up: "unat ?pm + 4096 * n < 2 ^ 64" by (rule block_place(2) [OF geo jn])
  have len: "uadd (ph_memsz ?h) PAGE_SIZE = Some (ph_memsz ?h + 4096)" and div: "unat ((ph_memsz ?h + 4096) div PAGE_SIZE) = segment_page_count ?h"
    using f' by (simp_all add: uadd_def PAGE_SIZE_def segment_page_count_def unat_div unat_add_no_wrap)
  have i: "4096 * i \<le> unat (ph_memsz ?h)" if "i \<in> set ?is" for i
  proof -
    have "i < (unat (ph_memsz ?h) + 4096) div 4096" using that by (simp add: segment_page_count_def)
    then have "i \<le> unat (ph_memsz ?h) div 4096" by simp
    then have "4096 * i \<le> 4096 * (unat (ph_memsz ?h) div 4096)" by (rule mult_le_mono2)
    also have "\<dots> \<le> unat (ph_memsz ?h)" by simp
    finally show ?thesis .
  qed
  have w: "unat (ph_vaddr ?h) + 4096 * i < 2 ^ 63" "unat ?pm + unat (ph_off ?h) + 4096 * i < 2 ^ 64" if "i \<in> set ?is" for i
    using i [OF that] f' up by linarith+
  obtain s2 t2 where m: "map_all (page_addr s r) (segment_map ?pm ?h ?is) ?s = Some s2"
    "loading s t r (jp, n) (ms @ segment_map ?pm ?h ?is) (copy_segment p img) s2 t2"
    using loading_map [OF l2 b, of "segment_map ?pm ?h ?is"] mem f' segment_bits_ok by (force simp: segment_map_def)
  let ?b = "fold (\<lambda>i b. max b (ph_vaddr ?h + of_nat (4096 * i))) ?is b0"
  have ub: "unat ?b \<le> B"
  proof (rule fold_max_bound [OF bk(1)])
    fix j assume "j \<in> set ?is"
    then have "unat (ph_vaddr ?h) + 4096 * j < 2 ^ 63" by (rule w)
    then show "unat (ph_vaddr ?h + of_nat (4096 * j)) \<le> B" using unat_add_of_nat [of "ph_vaddr ?h" "4096 * j"] bk(2) by simp
  qed
  have loop: "for_each (map_segment_page (page_addr s r) ?pm ?h) ?is (b0, ?s) = Some (?b, s2)"
    using map_segment_pages_eq [of ?is ?h ?pm "page_addr s r" b0 ?s] w m(1) by force
  have "uadd ?b 0x1000 = Some (?b + 0x1000)" "unat (?b + 0x1000) \<le> B + 4096"
    using ub bk(3) unat_add_of_nat [of ?b 4096] by (simp_all add: uadd_def)
  then show ?thesis using loop len div m(2) by (auto simp: map_segment_def Let_def)
qed

lemma map_segments_loading:
  assumes "loading s t r (jp, n) ms img s1 t1" and "(jp, n) \<in> blocks s - table_blocks t" and "\<forall>p \<in> set ps. segment_fits n p"
    and "2 * (length ms + length (program_map (page_addr s jp) ps)) \<le> card (free_pages s)"
    and "unat b0 \<le> B" "2 ^ 63 \<le> B" "B + 4096 * length ps < 2 ^ 64"
  shows "\<exists>b' s2 t2. for_each (map_segment (page_addr s r) (page_addr s jp)) ps (b0, s1) = Some (b', s2)
    \<and> loading s t r (jp, n) (ms @ program_map (page_addr s jp) ps) (fold copy_segment ps img) s2 t2"
  using assms
proof (induction ps arbitrary: ms img s1 t1 b0 B)
  case Nil
  then show ?case by (auto simp: program_map_def)
next
  case (Cons p ps)
  let ?ns = "segment_map (page_addr s jp) (pr_header p) [0..<segment_page_count (pr_header p)]"
  have len: "length (program_map (page_addr s jp) (p # ps)) = segment_page_count (pr_header p) + length (program_map (page_addr s jp) ps)"
    and ln: "length ?ns = segment_page_count (pr_header p)" and cat: "program_map (page_addr s jp) (p # ps) = ?ns @ program_map (page_addr s jp) ps"
    by (simp_all add: program_map_def segment_map_def)
  obtain b1 s2 t2 where m: "map_segment (page_addr s r) (page_addr s jp) p (b0, s1) = Some (b1, s2)"
    "loading s t r (jp, n) (ms @ ?ns) (copy_segment p img) s2 t2" "unat b1 \<le> B + 4096"
    using map_segment_loading [OF Cons.prems(1,2), of p b0 B] Cons.prems(3-7) len by force
  obtain b2 s3 t3 where "for_each (map_segment (page_addr s r) (page_addr s jp)) ps (b1, s2) = Some (b2, s3)"
    "loading s t r (jp, n) ((ms @ ?ns) @ program_map (page_addr s jp) ps) (fold copy_segment ps (copy_segment p img)) s3 t3"
    using Cons.IH [OF m(2) Cons.prems(2), of b1 "B + 4096"] Cons.prems(3-7) m(3) len ln by force
  then show ?case using m(1) cat by auto
qed

section \<open>The frame\<close>

text \<open>The frame of a user process: it starts at the entry point, on its stack, in user mode, under its own table.\<close>

definition user_frame :: "'a page_st_scheme \<Rightarrow> nat \<Rightarrow> usize \<Rightarrow> u16 \<Rightarrow> usize \<Rightarrow> bool" where
  "user_frame s j ea pd table \<longleftrightarrow> slot s j 65 = ea \<and> slot s j (gp Sp) = STACK_ADDR + 34 * 4096 \<and> slot s j 69 = CpuMode_val User
     \<and> slot s j 68 = ucast pd \<and> slot s j 64 = build_satp Sv39 (ucast pd) table"

lemma frame_satp_slot: "frame_satp (page_addr s j) = slot_addr s j 64"
  by (simp add: frame_satp_def slot_addr_def)

lemma elf_frame_ready:
  assumes inv: "page_inv s" and j: "j < num_pages s" and f: "frame p = page_addr s j"
  obtains m where "elf_frame ea p (memory s) = Some m" "page_inv (s\<lparr>memory := m\<rparr>)" "blocks (s\<lparr>memory := m\<rparr>) = blocks s"
    "\<forall>i < num_pages s. i \<noteq> j \<longrightarrow> page_bytes (s\<lparr>memory := m\<rparr>) i = page_bytes s i"
    "user_frame (s\<lparr>memory := m\<rparr>) j ea (p_pid p) (mmu_table p)"
proof -
  let ?s1 = "put_slot j 65 ea s"
  let ?s2 = "put_slot j (gp Sp) (STACK_ADDR + 34 * 4096) ?s1"
  let ?s3 = "put_slot j 69 (CpuMode_val User) ?s2"
  let ?s4 = "put_slot j 68 (ucast (p_pid p)) ?s3"
  let ?s5 = "put_slot j 64 (build_satp Sv39 (ucast (p_pid p)) (mmu_table p)) ?s4"
  have geo: "page_geometry s" using inv by (simp add: page_inv_def)
  have "umul STACK_PAGES PAGE_SIZE = Some 0x23000" by (simp add: umul_def STACK_PAGES_def PAGE_SIZE_def)
  moreover have "uadd STACK_ADDR 0x23000 = Some (STACK_ADDR + 0x23000)" "usub (STACK_ADDR + 0x23000) 0x1000 = Some (STACK_ADDR + 34 * 4096)"
    by (simp_all add: uadd_def usub_def STACK_ADDR_def)
  ultimately have r: "elf_frame ea p (memory s) = Some (memory ?s5)"
    using f by (simp add: elf_frame_def frame_slots frame_satp_slot put_slot_twice Let_def)
  have m: "s\<lparr>memory := memory ?s5\<rparr> = ?s5" by (simp add: put_slot_def slot_addr_def)
  have g: "gp Sp = 2" by simp
  have "page_inv ?s5" "blocks ?s5 = blocks s" using inv j by (simp_all add: put_slot_pages)
  moreover have "\<forall>i < num_pages s. i \<noteq> j \<longrightarrow> page_bytes ?s5 i = page_bytes s i"
    using geo j by (simp add: page_bytes_put_slot)
  moreover have "user_frame ?s5 j ea (p_pid p) (mmu_table p)"
    unfolding user_frame_def g using geo j by (simp add: slot_put_slot)
  ultimately show ?thesis using that [of "memory ?s5"] r m by simp
qed

section \<open>The whole of load\_proc\<close>

text \<open>The four allocations, in the order of the fields of the process.\<close>

definition load_allocs :: "usize \<Rightarrow> 'a page_st_scheme \<Rightarrow> ((usize \<times> usize \<times> usize \<times> usize) \<times> 'a page_st_scheme) option" where
  "load_allocs n s = do {
     (fr, s) \<leftarrow> zalloc 1 s;
     (st, s) \<leftarrow> zalloc STACK_PAGES s;
     (tb, s) \<leftarrow> zalloc 1 s;
     (pm, s) \<leftarrow> zalloc n s;
     Some ((fr, st, tb, pm), s)
   }"

lemma load_allocs_gained:
  assumes inv: "page_inv s" and np: "35 \<le> num_pages s" and n: "0 < n" "unat n \<le> num_pages s"
    and a: "load_allocs n s = Some ((fr, st, tb, pm), s')" and nn: "fr \<noteq> null_mut" "st \<noteq> null_mut" "tb \<noteq> null_mut" "pm \<noteq> null_mut"
  obtains jf js jt jp where "fr = page_addr s jf" "st = page_addr s js" "tb = page_addr s jt" "pm = page_addr s jp"
    "gained s [(jf, 1), (js, 35), (jt, 1), (jp, unat n)] s'"
proof -
  have one: "0 < (1 :: usize)" "unat (1 :: usize) \<le> num_pages s" using np by simp_all
  have stk: "0 < STACK_PAGES" "unat STACK_PAGES \<le> num_pages s" "unat STACK_PAGES = 35" using np by (simp_all add: STACK_PAGES_def)
  obtain s1 s2 s3 where z: "zalloc 1 s = Some (fr, s1)" "zalloc STACK_PAGES s1 = Some (st, s2)" "zalloc 1 s2 = Some (tb, s3)" "zalloc n s3 = Some (pm, s')"
    using a by (auto simp: load_allocs_def split: bind_splits)
  obtain jf where f: "fr = page_addr s jf" "gained s ([] @ [(jf, unat (1 :: usize))]) s1"
    by (rule gained_zalloc [OF gained_Nil [OF inv] one z(1) nn(1)])
  obtain js where st: "st = page_addr s js" "gained s (([] @ [(jf, unat (1 :: usize))]) @ [(js, unat STACK_PAGES)]) s2"
    by (rule gained_zalloc [OF f(2) stk(1,2) z(2) nn(2)])
  obtain jt where tb: "tb = page_addr s jt" "gained s ((([] @ [(jf, unat (1 :: usize))]) @ [(js, unat STACK_PAGES)]) @ [(jt, unat (1 :: usize))]) s3"
    by (rule gained_zalloc [OF st(2) one z(3) nn(3)])
  obtain jp where pm: "pm = page_addr s jp"
    "gained s (((([] @ [(jf, unat (1 :: usize))]) @ [(js, unat STACK_PAGES)]) @ [(jt, unat (1 :: usize))]) @ [(jp, unat n)]) s'"
    by (rule gained_zalloc [OF tb(2) n z(4) nn(4)])
  then show ?thesis using that [OF f(1) st(1) tb(1) pm(1)] stk(3) by simp
qed

text \<open>A new root table maps nothing.\<close>

lemma loading_start:
  assumes inv: "page_inv s" and jt: "(jt, 1) \<in> blocks s" "page_bytes s jt = replicate 4096 0" and z: "block_bytes s jp n = img"
  defines "t \<equiv> \<lambda>q. if q = Root then Some jt else None"
  shows "loading s t jt (jp, n) [] img s t" "table_blocks t = {(jt, 1)}"
proof -
  note e = empty_tree_ok [OF inv jt]
  show "table_blocks t = {(jt, 1)}" using e(2) by (simp add: t_def)
  have "virt_to_phys (page_addr s jt) va s = Some None" for va
    using virt_to_phys_tree [OF e(1), of jt va] by (simp add: leaf_of_def pte_translate_def split: prod.split)
  then show "loading s t jt (jp, n) [] img s t"
    unfolding loading_def using e jt(1) z by (auto simp: t_def address_space_def intro: exI [of _ "memory s"])
qed

text \<open>The last step: the frame is filled, in a page of its own.\<close>

lemma loading_frame:
  assumes l: "loading s t r b ms img s1 t1" and jf: "(jf, 1) \<in> blocks s - table_blocks t" "(jf, 1) \<noteq> b" and b: "b \<in> blocks s - table_blocks t"
    and m: "page_inv (s1\<lparr>memory := m\<rparr>)" "blocks (s1\<lparr>memory := m\<rparr>) = blocks s1"
      "\<forall>i < num_pages s1. i \<noteq> jf \<longrightarrow> page_bytes (s1\<lparr>memory := m\<rparr>) i = page_bytes s1 i"
  shows "tree_ok (s1\<lparr>memory := m\<rparr>) t1" "address_space (page_addr s r) (s1\<lparr>memory := m\<rparr>) ms"
    "block_bytes (s1\<lparr>memory := m\<rparr>) (fst b) (snd b) = img"
    "\<And>i l k. (i, l) \<in> blocks s - table_blocks t \<Longrightarrow> (i, l) \<noteq> b \<Longrightarrow> (i, l) \<noteq> (jf, 1) \<Longrightarrow> i \<le> k \<Longrightarrow> k < i + l \<Longrightarrow>
       page_bytes (s1\<lparr>memory := m\<rparr>) k = page_bytes s k"
proof -
  let ?s = "s1\<lparr>memory := m\<rparr>"
  note d = loadingD [OF l]
  have jf1: "(jf, 1) \<in> blocks s1" "(jf, 1) \<notin> table_blocks t1" using jf(1) d(4,6) by blast+
  have ad: "page_addr ?s = page_addr s1" by (simp add: page_addr_def fun_eq_iff)
  have other: "page_bytes ?s k = page_bytes s1 k" if "(i, l) \<in> blocks s1" "(i, l) \<noteq> (jf, 1)" "i \<le> k" "k < i + l" for i l k
  proof -
    have "k \<noteq> jf" using pages.live_apart [OF that(1) jf1(1)] that by auto
    moreover have "k < num_pages s1" using pages.live_nonempty [OF that(1)] that(4) by simp
    ultimately show ?thesis using m(3) by simp
  qed
  have tab: "(j, 1) \<in> blocks ?s \<and> page_bytes ?s j = page_bytes s1 j" if "t1 p = Some j" for p j
  proof -
    have j: "(j, 1) \<in> blocks s1" using tree_okD(4) [OF d(1) that] .
    have "(j, 1) \<in> table_blocks t1" using that by (auto simp: table_blocks_def)
    then have "(j, 1 :: nat) \<noteq> (jf, 1)" using jf1(2) by auto
    then show ?thesis using other [OF j] m(2) j by simp
  qed
  show "tree_ok ?s t1" by (rule virt_to_phys_cong(1) [OF d(1,2) m(1) ad]) (rule tab)
  have "virt_to_phys (page_addr s1 r) va ?s = virt_to_phys (page_addr s1 r) va s1" for va
    by (rule virt_to_phys_cong(2) [OF d(1,2) m(1) ad]) (rule tab)
  then show "address_space (page_addr s r) ?s ms" using d(8) by (simp add: address_space_def d(11))
  have "b \<in> blocks s1" using b d(4) by blast
  then have "block_bytes ?s (fst b) (snd b) = block_bytes s1 (fst b) (snd b)"
    using jf(2) by (intro block_bytes_cong other [of "fst b" "snd b"]) auto
  then show "block_bytes ?s (fst b) (snd b) = img" using d(9) by simp
  show "page_bytes ?s k = page_bytes s k" if a: "(i, l) \<in> blocks s - table_blocks t" "(i, l) \<noteq> b" "(i, l) \<noteq> (jf, 1)" "i \<le> k" "k < i + l" for i l k
  proof -
    have "(i, l) \<in> blocks s1" using a(1) d(4) by blast
    then show ?thesis using other a(3-5) d(7) [OF a(1,2,4,5)] by simp
  qed
qed

lemma program_pages_positive: "program_pages ps = Some n \<Longrightarrow> 0 < n"
proof -
  assume "program_pages ps = Some n"
  then obtain sz :: usize where "n = (sz + 8192) div 4096" "unat sz + 8192 < 2 ^ 64"
    by (auto simp: program_pages_def umul_def PAGE_SIZE_def uadd_def split: bind_splits if_splits)
  then have "unat n = (unat sz + 8192) div 4096" by (simp add: unat_div unat_add_no_wrap)
  then have "2 \<le> unat n" by (simp add: div_add1_eq)
  then show ?thesis by (simp add: word_less_nat_alt)
qed

lemma load_proc_steps:
  assumes "elf_load E fl = Some (Inr ef)" "program_pages (ef_programs ef) = Some n" "NEXT_PID s < 0xffff"
    and "load_allocs n (s\<lparr>NEXT_PID := NEXT_PID s + 1\<rparr>) = Some ((fr, st, tb, pm), s1)" "tb \<noteq> null_mut"
    and "for_each (map_segment tb pm) (ef_programs ef) (0, s1) = Some (b, s2)"
    and "for_each (map_stack_page tb st) [0..<35] s2 = Some s3"
    and "elf_frame (eh_entry_addr (ef_header ef)) \<lparr>frame = fr, stack = st, p_pid = NEXT_PID s + 1, mmu_table = tb, pstate = Running,
          pdata = ProcessData_new, sleep_until = 0, program = pm, brk = b\<rparr> (memory s3) = Some m"
  shows "load_proc E fl s = Some (Inr \<lparr>frame = fr, stack = st, p_pid = NEXT_PID s + 1, mmu_table = tb, pstate = Running,
          pdata = ProcessData_new, sleep_until = 0, program = pm, brk = b\<rparr>, s3\<lparr>memory := m\<rparr>)"
proof -
  have "uadd (NEXT_PID s) 1 = Some (NEXT_PID s + 1)" using assms(3) by (simp add: uadd_def word_less_nat_alt)
  moreover have "unat STACK_PAGES = 35" by (simp add: STACK_PAGES_def)
  ultimately show ?thesis
    using assms by (auto simp: load_proc_def load_allocs_def Let_def split: bind_splits)
qed

text \<open>What a loaded process looks like.\<close>

definition loaded :: "'a proc_st_scheme \<Rightarrow> ElfFile \<Rightarrow> nat \<Rightarrow> Process \<Rightarrow> 'a proc_st_scheme \<Rightarrow> tree \<Rightarrow> nat \<times> nat \<times> nat \<Rightarrow> bool" where
  "loaded s ef n p s' t = (\<lambda>(jf, js, jp). p_pid p = NEXT_PID s + 1 \<and> pstate p = Running \<and> (\<exists>m. s' = s\<lparr>NEXT_PID := NEXT_PID s + 1\<rparr>\<lparr>memory := m\<rparr>)
     \<and> frame p = page_addr s jf \<and> user_frame s' jf (eh_entry_addr (ef_header ef)) (p_pid p) (mmu_table p)
     \<and> address_space (mmu_table p) s' (program_map (program p) (ef_programs ef) @ stack_map (stack p))
     \<and> stack p = page_addr s js \<and> program p = page_addr s jp \<and> block_bytes s' jp n = program_image n (ef_programs ef)
     \<and> block_bytes s' js 35 = replicate (4096 * 35) 0
     \<and> owns s' p t [(js, 35), (jf, 1), (jp, n)] \<and> blocks s' = blocks s \<union> {(js, 35), (jf, 1), (jp, n)} \<union> table_blocks t
     \<and> ({(js, 35), (jf, 1), (jp, n)} \<union> table_blocks t) \<inter> blocks s = {}
     \<and> (\<forall>i l k. (i, l) \<in> blocks s \<longrightarrow> i \<le> k \<longrightarrow> k < i + l \<longrightarrow> page_bytes s' k = page_bytes s k))"

lemma load_proc_loaded:
  assumes inv: "page_inv s" and np: "35 \<le> num_pages s" and ef: "elf_load E fl = Some (Inr ef)"
    and n: "program_pages (ef_programs ef) = Some n" "unat n \<le> num_pages s" and pd: "NEXT_PID s < 0xffff"
    and al: "load_allocs n (s\<lparr>NEXT_PID := NEXT_PID s + 1\<rparr>) = Some ((fr, st, tb, pm), s1)"
    and nn: "fr \<noteq> null_mut" "st \<noteq> null_mut" "tb \<noteq> null_mut" "pm \<noteq> null_mut"
    and fit: "\<forall>p \<in> set (ef_programs ef). segment_fits (unat n) p" "length (ef_programs ef) < 2 ^ 16"
    and mem: "2 * (length (program_map pm (ef_programs ef)) + 35) \<le> card (free_pages s1)"
  shows "\<exists>p s' t b. load_proc E fl s = Some (Inr p, s') \<and> loaded s ef (unat n) p s' t b"
proof -
  let ?s0 = "s\<lparr>NEXT_PID := NEXT_PID s + 1\<rparr>" and ?ps = "ef_programs ef"
  have p0: "page_inv ?s0" "35 \<le> num_pages ?s0" "unat n \<le> num_pages ?s0" using inv np n(2) by simp_all
  obtain jf js jt jp where a0: "fr = page_addr ?s0 jf" "st = page_addr ?s0 js" "tb = page_addr ?s0 jt" "pm = page_addr ?s0 jp"
    and g: "gained ?s0 [(jf, 1), (js, 35), (jt, 1), (jp, unat n)] s1"
    by (rule load_allocs_gained [OF p0(1,2) program_pages_positive [OF n(1)] p0(3) al nn])
  note d = gained_facts [OF g]
  have ad1: "page_addr s1 = page_addr s" "num_pages s1 = num_pages s" "NEXT_PID s1 = NEXT_PID s + 1" using d(1) by auto
  have a: "fr = page_addr s1 jf" "st = page_addr s1 js" "tb = page_addr s1 jt" "pm = page_addr s1 jp" using a0 ad1 by simp_all
  let ?t = "\<lambda>q. if q = Root then Some jt else (None :: nat option)"
  have img: "block_bytes s1 jp (unat n) = replicate (4096 * unat n) 0" by (rule block_bytes_zero) (rule d(6) [of jp "unat n"], simp_all)
  note start = loading_start [OF d(2) _ _ img, of jt]
  have st0: "loading s1 ?t jt (jp, unat n) [] (replicate (4096 * unat n) 0) s1 ?t" "table_blocks ?t = {(jt, 1)}"
    using start d(5) d(6) [of jt 1 jt] by simp_all
  have nt: "(jp, unat n) \<in> blocks s1 - table_blocks ?t" "(js, 35) \<in> blocks s1 - table_blocks ?t" "(jf, 1) \<in> blocks s1 - table_blocks ?t"
    using d(3,5) unfolding st0(2) by auto
  obtain b s2 t2 where m: "for_each (map_segment tb pm) ?ps (0, s1) = Some (b, s2)"
    "loading s1 ?t jt (jp, unat n) ([] @ program_map pm ?ps) (fold copy_segment ?ps (replicate (4096 * unat n) 0)) s2 t2"
    using map_segments_loading [OF st0(1) nt(1) fit(1), of 0 "2 ^ 63"] mem fit(2) a by auto
  have sb: "\<forall>(va, pa, bits) \<in> set (stack_map st). bits_ok bits" "length (stack_map st) = 35" by (auto simp: stack_map_def bits_ok_def)
  obtain s3 t3 where k: "map_all (page_addr s1 jt) (stack_map st) s2 = Some s3"
    "loading s1 ?t jt (jp, unat n) (([] @ program_map pm ?ps) @ stack_map st) (fold copy_segment ?ps (replicate (4096 * unat n) 0)) s3 t3"
    using loading_map [OF m(2) nt(1) sb(1)] mem sb(2) by auto
  have geo: "page_geometry s1" using d(2) by (simp add: page_inv_def)
  have ust: "unat st + 4096 * 35 < 2 ^ 64" using block_place(2) [OF geo, of js 35] d(7) [of js 35] ad1 a(2) by simp
  have stk: "for_each (map_stack_page tb st) [0..<35] s2 = Some s3"
    using map_stack_pages_eq [of "[0..<35]" st tb s2] ust k(1) a(3) by (simp add: stack_map_def)
  let ?p = "\<lparr>frame = fr, stack = st, p_pid = NEXT_PID s + 1, mmu_table = tb, pstate = Running, pdata = ProcessData_new, sleep_until = 0, program = pm, brk = b\<rparr>"
  note l = loadingD [OF k(2)]
  have jf: "jf < num_pages s3" "frame ?p = page_addr s3 jf" using d(7) [of jf 1] l(11,12) ad1 a(1) by simp_all
  obtain mm where f: "elf_frame (eh_entry_addr (ef_header ef)) ?p (memory s3) = Some mm" "page_inv (s3\<lparr>memory := mm\<rparr>)"
    "blocks (s3\<lparr>memory := mm\<rparr>) = blocks s3" "\<forall>i < num_pages s3. i \<noteq> jf \<longrightarrow> page_bytes (s3\<lparr>memory := mm\<rparr>) i = page_bytes s3 i"
    "user_frame (s3\<lparr>memory := mm\<rparr>) jf (eh_entry_addr (ef_header ef)) (p_pid ?p) (mmu_table ?p)"
    by (rule elf_frame_ready [OF tree_okD(1) [OF l(1)] jf])
  have ne: "(jf, 1) \<noteq> (jp, unat n)" "(js, 35) \<noteq> (jp, unat n)" "(js, 35 :: nat) \<noteq> (jf, 1)" using d(3) by auto
  note fr = loading_frame [OF k(2) nt(3) ne(1) nt(1) f(2-4)]
  have "load_proc E fl s = Some (Inr ?p, s3\<lparr>memory := mm\<rparr>)"
    by (rule load_proc_steps [OF ef n(1) pd al nn(3) m(1) stk f(1)])
  moreover have "loaded s ef (unat n) ?p (s3\<lparr>memory := mm\<rparr>) t3 (jf, js, jp)"
  proof -
    let ?s' = "s3\<lparr>memory := mm\<rparr>"
    have l6: "(table_blocks t3 - {(jt, 1)}) \<inter> blocks s1 = {}" using l(6) unfolding st0(2) .
    have bl: "blocks ?s' = blocks s \<union> {(js, 35), (jf, 1), (jp, unat n)} \<union> table_blocks t3"
      using f(3) l(4,5) d(5) unfolding st0(2) by auto
    have dis: "({(js, 35), (jf, 1), (jp, unat n)} \<union> table_blocks t3) \<inter> blocks s = {}"
    proof -
      have "{(js, 35), (jf, 1), (jp, unat n)} \<inter> blocks s = {}" "(jt, 1) \<notin> blocks s" using d(4) by auto
      moreover have "blocks s \<subseteq> blocks s1" using d(5) by auto
      ultimately show ?thesis using l6 by blast
    qed
    have nt3: "(js, 35) \<notin> table_blocks t3" "(jf, 1) \<notin> table_blocks t3" "(jp, unat n) \<notin> table_blocks t3"
      using l6 nt unfolding st0(2) by blast+
    have ow: "owns ?s' ?p t3 [(js, 35), (jf, 1), (jp, unat n)]"
      unfolding owns_def using fr(1) l(2,11) a bl nt3 ne d(3) nn(4) by (simp add: ProcessData_new_def)
    have pg: "page_bytes ?s' x = page_bytes s x" if o: "(i, l) \<in> blocks s" "i \<le> x" "x < i + l" for i l x
    proof -
      have "(i, l) \<in> blocks s1 - table_blocks ?t" "(i, l) \<noteq> (jp, unat n)" "(i, l) \<noteq> (jf, 1)"
        using o(1) d(4,5) unfolding st0(2) by auto
      then show ?thesis using fr(4) [of i l x] d(8) [of i l x] o by simp
    qed
    have sk: "block_bytes ?s' js 35 = replicate (4096 * 35) 0"
      by (rule block_bytes_zero) (use fr(4) [OF nt(2) ne(2,3)] d(6) [of js 35] in simp)
    have "\<exists>m. ?s' = s\<lparr>NEXT_PID := NEXT_PID s + 1\<rparr>\<lparr>memory := m\<rparr>" using l(3) d(1) by auto
    then show ?thesis
      unfolding loaded_def prod.case using bl dis ow pg sk f(5) fr(2,3) a ad1(1) by (simp add: program_image_def)
  qed
  ultimately show ?thesis by blast
qed

lemma load_allocs_filled:
  assumes f: "filled j s" and n: "0 < n" "j + 37 + unat n < num_pages s"
  obtains m where "load_allocs n s = Some ((page_addr s j, page_addr s (j + 1), page_addr s (j + 36), page_addr s (j + 37)), s\<lparr>memory := m\<rparr>)"
    "filled (j + 37 + unat n) (s\<lparr>memory := m\<rparr>)"
proof -
  have u: "unat (1 :: usize) = 1" "unat STACK_PAGES = 35" "0 < (1 :: usize)" "0 < STACK_PAGES" by (simp_all add: STACK_PAGES_def)
  obtain m1 where z1: "zalloc 1 s = Some (page_addr s j, s\<lparr>memory := m1\<rparr>)" "filled (j + unat (1 :: usize)) (s\<lparr>memory := m1\<rparr>)"
    by (rule zalloc_filled [OF f u(3)]) (use n in simp_all)
  obtain m2 where z2: "zalloc STACK_PAGES (s\<lparr>memory := m1\<rparr>) = Some (page_addr (s\<lparr>memory := m1\<rparr>) (j + unat (1 :: usize)), s\<lparr>memory := m1\<rparr>\<lparr>memory := m2\<rparr>)"
    "filled (j + unat (1 :: usize) + unat STACK_PAGES) (s\<lparr>memory := m1\<rparr>\<lparr>memory := m2\<rparr>)"
    by (rule zalloc_filled [OF z1(2) u(4)]) (use n u in simp_all)
  obtain m3 where z3: "zalloc 1 (s\<lparr>memory := m2\<rparr>) = Some (page_addr (s\<lparr>memory := m2\<rparr>) (j + 36), s\<lparr>memory := m2\<rparr>\<lparr>memory := m3\<rparr>)"
    "filled (j + 36 + unat (1 :: usize)) (s\<lparr>memory := m2\<rparr>\<lparr>memory := m3\<rparr>)"
    by (rule zalloc_filled [of "j + 36" "s\<lparr>memory := m2\<rparr>", OF _ u(3)]) (use n u z2(2) in \<open>simp_all add: add.commute\<close>)
  obtain m4 where z4: "zalloc n (s\<lparr>memory := m3\<rparr>) = Some (page_addr (s\<lparr>memory := m3\<rparr>) (j + 37), s\<lparr>memory := m3\<rparr>\<lparr>memory := m4\<rparr>)"
    "filled (j + 37 + unat n) (s\<lparr>memory := m3\<rparr>\<lparr>memory := m4\<rparr>)"
    by (rule zalloc_filled [of "j + 37" "s\<lparr>memory := m3\<rparr>", OF _ n(1)]) (use n u z3(2) in \<open>simp_all add: add.commute\<close>)
  have "page_addr (s\<lparr>memory := m\<rparr>) = page_addr s" for m by (simp add: page_addr_def fun_eq_iff)
  then show ?thesis using that [of m4] z1(1) z2(1) z3(1) z4 u by (simp add: load_allocs_def)
qed

section \<open>Reading the program\<close>

lemma mapped_page_map:
  "\<lbrakk>i \<in> set is; vpns va = vpns (v i); \<And>j. j \<in> set is \<Longrightarrow> vpns va = vpns (v j) \<Longrightarrow> j = i\<rbrakk> \<Longrightarrow>
     mapped_page (map (\<lambda>i. (v i, p i, b)) is) va = Some (p i)"
  "(\<And>j. j \<in> set is \<Longrightarrow> vpns va \<noteq> vpns (v j)) \<Longrightarrow> mapped_page (map (\<lambda>i. (v i, p i, b)) is) va = None"
proof -
  show none: "mapped_page (map (\<lambda>i. (v i, p i, b)) ks) va = None" if "\<And>j. j \<in> set ks \<Longrightarrow> vpns va \<noteq> vpns (v j)" for ks
    using that by (induction ks) auto
  show "mapped_page (map (\<lambda>i. (v i, p i, b)) is) va = Some (p i)"
    if "i \<in> set is" "vpns va = vpns (v i)" "\<And>j. j \<in> set is \<Longrightarrow> vpns va = vpns (v j) \<Longrightarrow> j = i"
    using that
  proof (induction "is")
    case (Cons x "is")
    show ?case
    proof (cases "i \<in> set is")
      case True
      then have "mapped_page (map (\<lambda>i. (v i, p i, b)) is) va = Some (p i)"
        by (rule Cons.IH [OF _ Cons.prems(2)]) (rule Cons.prems(3), simp_all)
      then show ?thesis by simp
    next
      case False
      then have "vpns va \<noteq> vpns (v j)" if "j \<in> set is" for j using Cons.prems(3) that by auto
      then show ?thesis using none [of "is"] Cons.prems(1,2) False by simp
    qed
  qed simp
qed

text \<open>The page numbers that a segment is mapped at, and segments that do not meet.\<close>

definition first_page :: "ProgramHeader \<Rightarrow> nat" where
  "first_page ph = unat (ph_vaddr ph) div 4096"

definition segments_apart :: "Program \<Rightarrow> Program \<Rightarrow> bool" where
  "segments_apart p q \<longleftrightarrow> (let a = pr_header p; b = pr_header q in
     (first_page a + segment_page_count a \<le> first_page b \<or> first_page b + segment_page_count b \<le> first_page a)
     \<and> (unat (ph_off a) + unat (ph_memsz a) \<le> unat (ph_off b) \<or> unat (ph_off b) + unat (ph_memsz b) \<le> unat (ph_off a)))"

text \<open>A segment below the stack whose page offset is the same in the file and in memory, and that does not reach past its pages.\<close>

definition segment_aligned :: "ProgramHeader \<Rightarrow> bool" where
  "segment_aligned ph \<longleftrightarrow> unat (ph_vaddr ph) mod 4096 = unat (ph_off ph) mod 4096
     \<and> unat (ph_vaddr ph) mod 4096 + unat (ph_memsz ph) \<le> 4096 * segment_page_count ph"

definition below_stack :: "ProgramHeader \<Rightarrow> bool" where
  "below_stack ph \<longleftrightarrow> unat (ph_vaddr ph) + unat (ph_memsz ph) + 4096 \<le> unat STACK_ADDR"

lemma segment_page_bound:
  assumes "i < segment_page_count ph" shows "4096 * i \<le> unat (ph_memsz ph)"
proof -
  have "i \<le> unat (ph_memsz ph) div 4096" using assms by (simp add: segment_page_count_def)
  then have "4096 * i \<le> 4096 * (unat (ph_memsz ph) div 4096)" by (rule mult_le_mono2)
  then show ?thesis by (rule order_trans) simp
qed

lemma segment_page_number:
  assumes "below_stack ph" "i < segment_page_count ph"
  shows "unat (ph_vaddr ph + of_nat (4096 * i)) = unat (ph_vaddr ph) + 4096 * i" "unat (ph_vaddr ph + of_nat (4096 * i)) < 2 ^ 39"
    "unat (ph_vaddr ph + of_nat (4096 * i)) div 4096 = first_page ph + i"
proof -
  have b: "unat (ph_vaddr ph) + 4096 * i < 2 ^ 39"
    using assms segment_page_bound [OF assms(2)] by (simp add: below_stack_def STACK_ADDR_def)
  then show u: "unat (ph_vaddr ph + of_nat (4096 * i)) = unat (ph_vaddr ph) + 4096 * i" by (intro unat_add_of_nat) simp
  show "unat (ph_vaddr ph + of_nat (4096 * i)) < 2 ^ 39" "unat (ph_vaddr ph + of_nat (4096 * i)) div 4096 = first_page ph + i"
    unfolding u using b by (simp_all add: first_page_def)
qed

lemma segment_map_page:
  assumes "below_stack ph" and va: "unat va < 2 ^ 39"
  shows "mapped_page (segment_map pm ph [0..<segment_page_count ph]) va =
    (if first_page ph \<le> unat va div 4096 \<and> unat va div 4096 < first_page ph + segment_page_count ph
     then Some (pm + ph_off ph + of_nat (4096 * (unat va div 4096 - first_page ph))) else None)"
proof -
  have v: "vpns va = vpns (ph_vaddr ph + of_nat (4096 * i)) \<longleftrightarrow> unat va div 4096 = first_page ph + i" if "i < segment_page_count ph" for i
    unfolding vpns_eq_iff [OF va segment_page_number(2) [OF assms(1) that]] segment_page_number(3) [OF assms(1) that] ..
  show ?thesis
  proof (cases "first_page ph \<le> unat va div 4096 \<and> unat va div 4096 < first_page ph + segment_page_count ph")
    case True
    let ?i = "unat va div 4096 - first_page ph"
    have i: "?i < segment_page_count ph" "unat va div 4096 = first_page ph + ?i" using True by auto
    have "mapped_page (segment_map pm ph [0..<segment_page_count ph]) va = Some (pm + ph_off ph + of_nat (4096 * ?i))"
      unfolding segment_map_def
    proof (rule mapped_page_map(1))
      show "vpns va = vpns (ph_vaddr ph + of_nat (4096 * ?i))" using v [OF i(1)] i(2) by simp
      show "j = ?i" if "j \<in> set [0..<segment_page_count ph]" "vpns va = vpns (ph_vaddr ph + of_nat (4096 * j))" for j
        using v [of j] that by simp
    qed (use i in simp)
    then show ?thesis using True by simp
  next
    case False
    then have "vpns va \<noteq> vpns (ph_vaddr ph + of_nat (4096 * j))" if "j \<in> set [0..<segment_page_count ph]" for j
      using v [of j] that by auto
    then have "mapped_page (segment_map pm ph [0..<segment_page_count ph]) va = None" unfolding segment_map_def by (rule mapped_page_map(2))
    then show ?thesis using False by auto
  qed
qed

lemma stack_map_page:
  assumes "unat va < unat STACK_ADDR" shows "mapped_page (stack_map st) va = None"
  unfolding stack_map_def
proof (rule mapped_page_map(2))
  fix j assume "j \<in> set [0..<35]"
  then have j: "j < 35" by simp
  then have u: "unat (STACK_ADDR + of_nat (4096 * j)) = unat STACK_ADDR + 4096 * j"
    by (intro unat_add_of_nat) (simp add: STACK_ADDR_def)
  have "unat va div 4096 < unat STACK_ADDR div 4096" using assms by (simp add: STACK_ADDR_def)
  then have "unat va div 4096 \<noteq> unat (STACK_ADDR + of_nat (4096 * j)) div 4096" unfolding u by simp
  moreover have "unat (STACK_ADDR + of_nat (4096 * j)) < 2 ^ 39" unfolding u using j by (simp add: STACK_ADDR_def)
  ultimately show "vpns va \<noteq> vpns (STACK_ADDR + of_nat (4096 * j))" using vpns_eq_iff assms by (simp add: STACK_ADDR_def)
qed

lemma program_map_other:
  assumes "unat va < 2 ^ 39"
    and "\<And>q. q \<in> set ps \<Longrightarrow> below_stack (pr_header q)
      \<and> (unat va div 4096 < first_page (pr_header q) \<or> first_page (pr_header q) + segment_page_count (pr_header q) \<le> unat va div 4096)"
  shows "mapped_page (program_map pm ps) va = None"
  using assms(2)
proof (induction ps)
  case (Cons q ps)
  have "mapped_page (segment_map pm (pr_header q) [0..<segment_page_count (pr_header q)]) va = None"
    using Cons.prems [of q] segment_map_page [of "pr_header q" va pm] assms(1) by auto
  then show ?case using Cons by (auto simp: program_map_def mapped_page_append)
qed (simp add: program_map_def)

lemma program_map_page:
  assumes ps: "ps = as @ p # bs" "sorted_wrt segments_apart ps" "\<And>q. q \<in> set ps \<Longrightarrow> below_stack (pr_header q)"
    and va: "unat va < unat STACK_ADDR" "first_page (pr_header p) \<le> unat va div 4096"
      "unat va div 4096 < first_page (pr_header p) + segment_page_count (pr_header p)"
  shows "mapped_page (program_map pm ps @ stack_map st) va =
    Some (pm + ph_off (pr_header p) + of_nat (4096 * (unat va div 4096 - first_page (pr_header p))))"
proof -
  have v39: "unat va < 2 ^ 39" using va(1) by (simp add: STACK_ADDR_def)
  have apart: "segments_apart p q" if "q \<in> set bs" for q using ps(1,2) that by (simp add: sorted_wrt_append)
  have "mapped_page (program_map pm bs) va = None"
  proof (rule program_map_other [OF v39])
    fix q assume q: "q \<in> set bs"
    have "below_stack (pr_header q)" using ps(1) ps(3) [of q] q by simp
    moreover have "unat va div 4096 < first_page (pr_header q) \<or> first_page (pr_header q) + segment_page_count (pr_header q) \<le> unat va div 4096"
      using apart [OF q, unfolded segments_apart_def Let_def, THEN conjunct1] va(2,3) by linarith
    ultimately show "below_stack (pr_header q)
        \<and> (unat va div 4096 < first_page (pr_header q) \<or> first_page (pr_header q) + segment_page_count (pr_header q) \<le> unat va div 4096)" ..
  qed
  moreover have "mapped_page (segment_map pm (pr_header p) [0..<segment_page_count (pr_header p)]) va =
      Some (pm + ph_off (pr_header p) + of_nat (4096 * (unat va div 4096 - first_page (pr_header p))))"
    using segment_map_page [OF ps(3) v39, of p pm] va(2,3) ps(1) by simp
  moreover have "program_map pm ps = program_map pm as @ segment_map pm (pr_header p) [0..<segment_page_count (pr_header p)] @ program_map pm bs"
    by (simp add: program_map_def ps(1))
  ultimately show ?thesis using stack_map_page [OF va(1)] by (simp add: mapped_page_append)
qed

lemma length_copy_segment:
  assumes "segment_fits n q" and "length img = 4096 * n" shows "length (copy_segment q img) = 4096 * n"
  using assms memcpy_len_le [of "unat (ph_memsz (pr_header q))"] by (simp add: segment_fits_def Let_def copy_segment_def)

lemma length_copy_segments:
  assumes "\<And>q. q \<in> set ps \<Longrightarrow> segment_fits n q" and "length img = 4096 * n"
  shows "length (fold copy_segment ps img) = 4096 * n"
  using assms by (induction ps arbitrary: img) (simp_all add: length_copy_segment)

lemma copy_segments_outside:
  assumes "\<And>q. q \<in> set ps \<Longrightarrow> segment_fits n q" and "length img = 4096 * n" and "x < 4096 * n"
    and "\<And>q. q \<in> set ps \<Longrightarrow> x < unat (ph_off (pr_header q)) \<or> unat (ph_off (pr_header q)) + unat (ph_memsz (pr_header q)) \<le> x"
  shows "fold copy_segment ps img ! x = img ! x"
  using assms
proof (induction ps arbitrary: img)
  case (Cons q ps)
  let ?h = "pr_header q"
  have f: "segment_fits n q" using Cons.prems(1) by simp
  have "unat (ph_off ?h) + memcpy_len (unat (ph_memsz ?h)) \<le> 4096 * n" "memcpy_len (unat (ph_memsz ?h)) \<le> length (pr_data q)"
    using f memcpy_len_le [of "unat (ph_memsz ?h)"] by (auto simp: segment_fits_def Let_def)
  then have "copy_segment q img ! x = img ! x"
    using Cons.prems(2,3) Cons.prems(4) [of q] memcpy_len_le [of "unat (ph_memsz ?h)"] by (auto simp: copy_segment_def nth_splice)
  moreover have "fold copy_segment ps (copy_segment q img) ! x = copy_segment q img ! x"
    by (rule Cons.IH) (use Cons.prems f in \<open>simp_all add: length_copy_segment\<close>)
  ultimately show ?case by simp
qed simp

lemma program_image_segment:
  assumes ps: "ps = as @ p # bs" "sorted_wrt segments_apart ps" "\<And>q. q \<in> set ps \<Longrightarrow> segment_fits n q"
    and k: "k < memcpy_len (unat (ph_memsz (pr_header p)))"
  shows "program_image n ps ! (unat (ph_off (pr_header p)) + k) = pr_data p ! k"
proof -
  let ?h = "pr_header p" and ?img = "fold copy_segment as (replicate (4096 * n) 0)"
  have f: "unat (ph_off ?h) + unat (ph_memsz ?h) \<le> 4096 * n" "memcpy_len (unat (ph_memsz ?h)) \<le> length (pr_data p)"
    using ps(1) ps(3) [of p] by (auto simp: segment_fits_def Let_def)
  have c: "memcpy_len (unat (ph_memsz ?h)) \<le> unat (ph_memsz ?h)" by (rule memcpy_len_le)
  have li: "length ?img = 4096 * n" by (rule length_copy_segments) (use ps in auto)
  have ci: "copy_segment p ?img ! (unat (ph_off ?h) + k) = pr_data p ! k" "length (copy_segment p ?img) = 4096 * n"
    using f c k li by (simp_all add: copy_segment_def nth_splice)
  have "fold copy_segment bs (copy_segment p ?img) ! (unat (ph_off ?h) + k) = copy_segment p ?img ! (unat (ph_off ?h) + k)"
  proof (rule copy_segments_outside [OF _ ci(2)])
    fix q assume "q \<in> set bs"
    then have "segments_apart p q" using ps(1,2) by (simp add: sorted_wrt_append)
    from this [unfolded segments_apart_def Let_def, THEN conjunct2]
    show "unat (ph_off ?h) + k < unat (ph_off (pr_header q)) \<or> unat (ph_off (pr_header q)) + unat (ph_memsz (pr_header q)) \<le> unat (ph_off ?h) + k"
      using k c by linarith
  qed (use ps k c f in auto)
  then show ?thesis using ci(1) by (simp add: program_image_def ps(1))
qed

lemma loadedD:
  assumes "loaded s ef n p s' t (jf, js, jp)"
  shows "p_pid p = NEXT_PID s + 1" "NEXT_PID s' = NEXT_PID s + 1" "frame p = page_addr s jf"
    "user_frame s' jf (eh_entry_addr (ef_header ef)) (p_pid p) (mmu_table p)"
    "address_space (mmu_table p) s' (program_map (program p) (ef_programs ef) @ stack_map (stack p))"
    "program p = page_addr s jp" "block_bytes s' jp n = program_image n (ef_programs ef)" "owns s' p t [(js, 35), (jf, 1), (jp, n)]"
    "blocks s' = blocks s \<union> {(js, 35), (jf, 1), (jp, n)} \<union> table_blocks t" "({(js, 35), (jf, 1), (jp, n)} \<union> table_blocks t) \<inter> blocks s = {}"
    "\<And>i l k. (i, l) \<in> blocks s \<Longrightarrow> i \<le> k \<Longrightarrow> k < i + l \<Longrightarrow> page_bytes s' k = page_bytes s k" "page_inv s'"
    "page_addr s' = page_addr s" "(jp, n) \<in> blocks s'" "(jf, 1) \<in> blocks s'"
    "PROCESS_LIST s' = PROCESS_LIST s" "num_pages s' = num_pages s" "ALLOC_START s' = ALLOC_START s"
    "stack p = page_addr s js"
proof -
  note l = assms [unfolded loaded_def prod.case]
  obtain m where m: "s' = s\<lparr>NEXT_PID := NEXT_PID s + 1\<rparr>\<lparr>memory := m\<rparr>" using l by (elim conjE exE)
  show "NEXT_PID s' = NEXT_PID s + 1" "page_addr s' = page_addr s" "PROCESS_LIST s' = PROCESS_LIST s" "num_pages s' = num_pages s"
    "ALLOC_START s' = ALLOC_START s" unfolding m by (simp_all add: page_addr_def fun_eq_iff)
  show o: "owns s' p t [(js, 35), (jf, 1), (jp, n)]" using l by (elim conjE)
  then show "page_inv s'" unfolding owns_def by (elim conjE) (rule tree_okD(1))
  show "(jp, n) \<in> blocks s'" "(jf, 1) \<in> blocks s'" using o by (simp_all add: owns_def)
  show "page_bytes s' k = page_bytes s k" if "(i, l) \<in> blocks s" "i \<le> k" "k < i + l" for i l k using l that by (elim conjE) blast
  show "p_pid p = NEXT_PID s + 1" using l by (elim conjE)
  show "frame p = page_addr s jf" using l by (elim conjE)
  show "user_frame s' jf (eh_entry_addr (ef_header ef)) (p_pid p) (mmu_table p)" using l by (elim conjE)
  show "address_space (mmu_table p) s' (program_map (program p) (ef_programs ef) @ stack_map (stack p))" using l by (elim conjE)
  show "program p = page_addr s jp" using l by (elim conjE)
  show "stack p = page_addr s js" using l by (elim conjE)
  show "block_bytes s' jp n = program_image n (ef_programs ef)" using l by (elim conjE)
  show "blocks s' = blocks s \<union> {(js, 35), (jf, 1), (jp, n)} \<union> table_blocks t" using l by (elim conjE)
  show "({(js, 35), (jf, 1), (jp, n)} \<union> table_blocks t) \<inter> blocks s = {}" using l by (elim conjE)
qed

text \<open>Where the byte of a segment comes to lie: in the page of its virtual address, at its offset in the program block.\<close>

lemma segment_byte_place:
  assumes h: "below_stack h" "segment_aligned h" and k: "k < unat (ph_memsz h)" and fit: "unat (ph_off h) + unat (ph_memsz h) \<le> 4096 * n"
    and pm: "4096 dvd unat pm" "unat pm + 4096 * n < 2 ^ 56"
  defines "va \<equiv> ph_vaddr h + of_nat k"
  shows "unat va < unat STACK_ADDR" "first_page h \<le> unat va div 4096" "unat va div 4096 < first_page h + segment_page_count h"
    "in_page (pm + ph_off h + of_nat (4096 * (unat va div 4096 - first_page h))) va = pm + of_nat (unat (ph_off h) + k)"
proof -
  have uv: "unat va = unat (ph_vaddr h) + k"
    unfolding va_def using h(1) k by (intro unat_add_of_nat) (simp add: below_stack_def STACK_ADDR_def)
  then show "unat va < unat STACK_ADDR" using h(1) k by (simp add: below_stack_def)
  show f: "first_page h \<le> unat va div 4096" using uv by (simp add: first_page_def div_le_mono)
  let ?d = "unat va div 4096 - first_page h"
  have vd: "4096 * first_page h + unat (ph_vaddr h) mod 4096 = unat (ph_vaddr h)" by (simp add: first_page_def)
  have "4096 * (unat va div 4096) + unat va mod 4096 = unat va" by simp
  then have d: "4096 * ?d + unat va mod 4096 = unat (ph_vaddr h) mod 4096 + k" using f uv vd by (simp add: diff_mult_distrib2)
  have "4096 * ?d < 4096 * segment_page_count h" using d h(2) k by (simp add: segment_aligned_def)
  then have ds: "?d < segment_page_count h" by simp
  then show "unat va div 4096 < first_page h + segment_page_count h" using f by simp
  let ?pa = "pm + ph_off h + of_nat (4096 * ?d)"
  have "4096 * ?d \<le> unat (ph_memsz h)" by (rule segment_page_bound [OF ds])
  then have b: "unat pm + unat (ph_off h) + 4096 * ?d < 2 ^ 56" using fit pm(2) by simp
  then have "unat (pm + ph_off h) = unat pm + unat (ph_off h)" by (intro unat_add_no_wrap) simp
  then have pa: "unat ?pa = unat pm + unat (ph_off h) + 4096 * ?d" using b unat_add_of_nat [of "pm + ph_off h" "4096 * ?d"] by simp
  have "4096 * (unat ?pa div 4096) + unat va mod 4096 = unat pm + (unat (ph_off h) + k)"
  proof -
    obtain q where q: "unat pm = 4096 * q" using pm(1) by blast
    have "4096 * q + unat (ph_off h) + 4096 * ?d = unat (ph_off h) + 4096 * (q + ?d)" by simp
    then have "unat ?pa div 4096 = q + ?d + unat (ph_off h) div 4096" unfolding pa q by (simp only: div_mult_self2 [OF zero_neq_numeral [symmetric]])
    moreover have "unat (ph_off h) mod 4096 = unat (ph_vaddr h) mod 4096" using h(2) by (simp add: segment_aligned_def)
    moreover have "4096 * (unat (ph_off h) div 4096) + unat (ph_off h) mod 4096 = unat (ph_off h)" by simp
    ultimately show ?thesis using d q by (simp add: distrib_left)
  qed
  then have "unat (in_page ?pa va) = unat pm + (unat (ph_off h) + k)" using unat_in_page [of ?pa va] pa b by simp
  moreover have "unat (pm + of_nat (unat (ph_off h) + k)) = unat pm + (unat (ph_off h) + k)"
    using fit k pm(2) by (intro unat_add_of_nat) simp
  ultimately show "in_page ?pa va = pm + of_nat (unat (ph_off h) + k)" by (simp add: word_unat_eq_iff)
qed

lemma loaded_byte:
  assumes l: "loaded s ef n p s' t (jf, js, jp)" and ef: "elf_load E fl = Some (Inr ef)"
    and ps: "ef_programs ef = as @ q # bs" "sorted_wrt segments_apart (ef_programs ef)" "\<forall>r \<in> set (ef_programs ef). segment_fits n r \<and> below_stack (pr_header r)"
    and q: "segment_aligned (pr_header q)" and k: "k < memcpy_len (unat (ph_memsz (pr_header q)))"
    and top: "unat (ALLOC_START s) + 4096 * num_pages s < 2 ^ 56"
  defines "a \<equiv> program p + of_nat (unat (ph_off (pr_header q)) + k)"
  shows "virt_to_phys (mmu_table p) (ph_vaddr (pr_header q) + of_nat k) s' = Some (Some a)" "memory s' a = fl ! (unat (ph_off (pr_header q)) + k)"
proof -
  let ?h = "pr_header q" and ?va = "ph_vaddr (pr_header q) + of_nat k"
  note d = loadedD [OF l]
  have geo: "page_geometry s'" using d(12) by (simp add: page_inv_def)
  have qs: "q \<in> set (ef_programs ef)" using ps(1) by simp
  have qf: "segment_fits n q" "below_stack ?h" using ps(3) qs by auto
  have jn: "jp + n \<le> num_pages s'" "0 < n" using pages.live_nonempty [OF d(14)] by simp_all
  have up: "unat (program p) = unat (ALLOC_START s) + 4096 * jp" using block_place(1) [OF geo jn] d(6,13,18) by simp
  have pm: "4096 dvd unat (program p)" "unat (program p) + 4096 * n < 2 ^ 56"
    using up geo top jn d(17,18) by (auto simp: page_geometry_def)
  have kk: "k < unat (ph_memsz ?h)" using k memcpy_len_le order_less_le_trans by blast
  have fit: "unat (ph_off ?h) + unat (ph_memsz ?h) \<le> 4096 * n" using qf(1) by (simp add: segment_fits_def Let_def)
  note pl = segment_byte_place [OF qf(2) q kk fit pm]
  have "mapped_page (program_map (program p) (ef_programs ef) @ stack_map (stack p)) ?va =
      Some (program p + ph_off ?h + of_nat (4096 * (unat ?va div 4096 - first_page ?h)))"
    by (rule program_map_page [OF ps(1,2) _ pl(1-3)]) (use ps(3) in simp)
  then show "virt_to_phys (mmu_table p) ?va s' = Some (Some a)"
    using d(5) pl(4) by (simp add: address_space_def a_def)
  have "block_bytes s' jp n ! (unat (ph_off ?h) + k) = pr_data q ! k"
    unfolding d(7) by (rule program_image_segment [OF ps(1,2) _ k]) (use ps(3) in simp)
  then have m: "memory s' a = pr_data q ! k"
    using kk fit by (simp add: block_bytes_def a_def d(6,13))
  have c: "segment_copied fl q" by (rule elf_load_copied(1) [OF ef qs])
  have "take (memcpy_len (unat (ph_memsz ?h))) (pr_data q) ! k = take (memcpy_len (unat (ph_memsz ?h))) (drop (unat (ph_off ?h)) fl) ! k"
    using c by (simp add: segment_copied_def Let_def)
  then show "memory s' a = fl ! (unat (ph_off ?h) + k)"
    using m k elf_load_copied(2) [OF ef qs] by simp
qed

lemma last_page_past:
  fixes v m :: nat
  assumes "4096 < v mod 4096 + m mod 4096" shows "v div 4096 + (m + 4096) div 4096 \<le> (v + m - 1) div 4096"
proof -
  define a b c d where "a = v div 4096" and "b = v mod 4096" and "c = m div 4096" and "d = m mod 4096"
  have "v = 4096 * a + b" "m = 4096 * c + d" by (simp_all add: a_def b_def c_def d_def)
  then have "v + m - 1 = (b + d - 4097) + 4096 * (a + c + 1)" using assms by (simp add: b_def d_def)
  then have "(v + m - 1) div 4096 = a + c + 1 + (b + d - 4097) div 4096" by (simp only: div_mult_self2 [OF zero_neq_numeral [symmetric]])
  moreover have "(m + 4096) div 4096 = c + 1" by (simp add: c_def)
  ultimately show ?thesis by (simp only: a_def)
qed

text \<open>
  When a program can be loaded: the parser accepts the file, its segments fit, a pid is left, the four allocations of
  \<^verbatim>\<open>load_proc\<close> succeed and there are pages for all tables that the mappings may need.
\<close>

definition can_load :: "'d env \<Rightarrow> u8 list \<Rightarrow> 'a proc_st_scheme \<Rightarrow> ElfFile \<Rightarrow> usize \<Rightarrow> bool" where
  "can_load E fl s ef n \<longleftrightarrow> page_inv s \<and> 35 \<le> num_pages s \<and> elf_load E fl = Some (Inr ef)
     \<and> program_pages (ef_programs ef) = Some n \<and> unat n \<le> num_pages s \<and> NEXT_PID s < 0xffff
     \<and> (\<forall>p \<in> set (ef_programs ef). segment_fits (unat n) p) \<and> length (ef_programs ef) < 2 ^ 16
     \<and> (\<exists>fr st tb pm s1. load_allocs n (s\<lparr>NEXT_PID := NEXT_PID s + 1\<rparr>) = Some ((fr, st, tb, pm), s1)
         \<and> fr \<noteq> null_mut \<and> st \<noteq> null_mut \<and> tb \<noteq> null_mut \<and> pm \<noteq> null_mut
         \<and> 2 * (length (program_map pm (ef_programs ef)) + 35) \<le> card (free_pages s1))"

lemma can_load_loaded:
  assumes "can_load E fl s ef n"
  obtains p s' t jf js jp where "load_proc E fl s = Some (Inr p, s')" "loaded s ef (unat n) p s' t (jf, js, jp)"
  using assms load_proc_loaded [of s E fl ef n] unfolding can_load_def by (metis prod.exhaust)

section \<open>An example\<close>

text \<open>The executable with one segment, on a machine of 128 pages.\<close>

definition example_user :: proc_st where
  "example_user = example_procs\<lparr>HEAP_SIZE := 0x80000\<rparr>"

lemma example_user_basic:
  "page_inv example_user" "num_pages example_user = 128" "blocks example_user = {}" "filled 0 (example_user\<lparr>NEXT_PID := k\<rparr>)"
  "page_addr example_user j = 0x11000 + of_nat (4096 * j)" "NEXT_PID example_user = 1" "PROCESS_LIST example_user = Some []"
  "ALLOC_START example_user = 0x11000"
proof -
  show n: "num_pages example_user = 128" by (simp add: num_pages_eq example_user_def example_procs_def)
  have f: "flag_at example_user i = 0" for i by (simp add: flag_at_def example_user_def example_procs_def)
  show inv: "page_inv example_user"
    using n f by (auto simp: page_inv_def page_geometry_def table_ok_def) (simp_all add: example_user_def example_procs_def)
  show "filled 0 (example_user\<lparr>NEXT_PID := k\<rparr>)" using inv f n by (simp add: filled_def) (simp add: flag_at_def)
  show "blocks example_user = {}" using f by (auto simp: blocks_def run_at_def)
  show "page_addr example_user j = 0x11000 + of_nat (4096 * j)" by (simp add: page_addr_def example_user_def example_procs_def)
qed (simp_all add: example_user_def example_procs_def)

lemma example_can_load:
  assumes "elf_load E img = Some (Inr ef)" and "ef_programs ef = [q]" and "ph_memsz (pr_header q) = m" "unat m \<le> 4096"
    and n: "unat n = (unat m + 8192) div 4096" and "segment_fits (unat n) q"
  shows "can_load E img example_user ef n"
proof -
  note b = example_user_basic
  have n3: "unat n \<le> 3" "0 < n" using n assms(4) by (simp_all add: word_less_nat_alt)
  have pp: "program_pages (ef_programs ef) = Some n"
  proof -
    have "unat (m + 8192) = unat m + 8192" using unat_add_no_wrap [of m 8192] assms(4) by simp
    then have "(m + 8192) div 4096 = n" using n by (simp add: word_unat_eq_iff unat_div)
    then show ?thesis using assms(2-4) by (simp add: program_pages_def uadd_def umul_def PAGE_SIZE_def)
  qed
  obtain mm where a: "load_allocs n (example_user\<lparr>NEXT_PID := 2\<rparr>) =
      Some ((page_addr example_user 0, page_addr example_user 1, page_addr example_user 36, page_addr example_user 37), example_user\<lparr>NEXT_PID := 2\<rparr>\<lparr>memory := mm\<rparr>)"
    "filled (0 + 37 + unat n) (example_user\<lparr>NEXT_PID := 2\<rparr>\<lparr>memory := mm\<rparr>)"
    by (rule load_allocs_filled [OF b(4) n3(2), of 2]) (use n3(1) in \<open>simp_all add: b\<close>)
  have c: "74 \<le> card (free_pages (example_user\<lparr>NEXT_PID := 2\<rparr>\<lparr>memory := mm\<rparr>))"
    using filled_free_pages [OF a(2)] b(2) n3(1) by simp
  have "segment_page_count (pr_header q) \<le> 2" using assms(3,4) by (simp add: segment_page_count_def div_le_mono [of _ 8192 4096, simplified])
  then have "length (program_map pm (ef_programs ef)) \<le> 2" for pm using assms(2) by (simp add: program_map_def segment_map_def)
  from this [of "page_addr example_user 37"] have "2 * (length (program_map (page_addr example_user 37) (ef_programs ef)) + 35) \<le> card (free_pages (example_user\<lparr>NEXT_PID := 2\<rparr>\<lparr>memory := mm\<rparr>))"
    using c by simp
  then show ?thesis
    unfolding can_load_def using assms(1,2,6) pp a(1) n3(1) b by (auto simp: null_mut_def)
qed

lemma one_segment_loads:
  fixes img h ph
  assumes h: "h = ElfHeader_of (take 64 img)" "eh_magic h = ELF_MAGIC" "eh_machine h = MACHINE_RISCV" "eh_obj_type h = TYPE_EXEC" "eh_phoff h = 64" "eh_phnum h = 1"
    and ph: "ph = header_at img 64 0" "ph_seg_type ph = 1" "ph_memsz ph = m" "ph_off ph = off" "unat (ph_vaddr ph) < 2 ^ 62" "ph_flags ph = 5"
    and l: "120 \<le> length img" "m \<noteq> 0" "unat m \<le> 4096" "unat off + unat m \<le> length img" "unat off + unat m \<le> 4096 * unat n" "unat n = (unat m + 8192) div 4096"
  obtains ef q where "elf_load E img = Some (Inr ef)" "ef_header ef = h" "ef_programs ef = [q]" "pr_header q = ph" "can_load E img example_user ef n"
proof -
  obtain ps where ps: "for_each (load_segment E img 64) [0..<1] [] = Some ps" "map pr_header ps = filter loadable (map (header_at img 64) [0..<1])"
    using load_segments_copy [where E = E and img = img and phoff = 64 and n = 1] l(1,4) ph by (auto simp: PH_SIZE_def)
  have "loadable ph" using ph(2,3) l(2) by (simp add: loadable_def PH_SEG_TYPE_LOAD_def)
  then obtain q where q: "ps = [q]" "pr_header q = ph" using ps(2) ph(1) by auto
  let ?ef = "\<lparr>ef_header = h, ef_programs = [q]\<rparr>"
  have e: "elf_load E img = Some (Inr ?ef)"
    using ps(1) q(1) h l(1) by (simp add: elf_load_def buf_struct_def ELF_HEADER_SIZE_def)
  have "segment_copied img q" by (rule elf_load_copied(1) [OF e]) simp
  then have "segment_fits (unat n) q" using q(2) ph l(3,5) by (simp add: segment_copied_def segment_fits_def Let_def)
  then have "can_load E img example_user ?ef n" by (intro example_can_load [OF e, of q m]) (use q(2) ph l in simp_all)
  then show ?thesis using that [of ?ef q] e q(2) by simp
qed

lemmas example_elf_loads = one_segment_loads [OF refl example_elf_facts(2-6) refl example_elf_facts(8-10) _ example_elf_facts(12), of 2]

section \<open>Properties\<close>

text \<open>
  C6: a loaded program finds its segments, its stack and its frame in place. When the file can be loaded
  (accepted by the parser, the segments fit into the program block, enough pages), the loader
  returns a running process with a new pid. Every virtual address translates to the page of the
  program block or of the stack that the loops of the loader mapped there last, and to nothing when none did; the
  program block holds the segments of the file at their offsets and zeros elsewhere, the stack is zero; the frame starts at the
  entry point in user mode with its stack pointer in the last page of the stack; all pages are new and no page that was in use has changed.
\<close>
theorem load_proc_address_space:
  assumes "can_load E fl s ef n"
  shows "\<exists>p s' t b. load_proc E fl s = Some (Inr p, s') \<and> loaded s ef (unat n) p s' t b"
  using can_load_loaded [OF assms] by metis

theorem load_proc_address_space_witness:
  "\<forall>E. \<exists>p s' ef t b. load_proc E example_elf example_user = Some (Inr p, s') \<and> loaded example_user ef 2 p s' t b \<and> p_pid p = 2
     \<and> eh_entry_addr (ef_header ef) = 0x20000078"
proof
  fix E :: "'d env"
  obtain ef q where e: "ef_header ef = ElfHeader_of (take 64 example_elf)" "can_load E example_elf example_user ef 2"
    by (rule example_elf_loads) (simp_all add: example_elf_facts)
  then show "\<exists>p s' ef t b. load_proc E example_elf example_user = Some (Inr p, s') \<and> loaded example_user ef 2 p s' t b \<and> p_pid p = 2
     \<and> eh_entry_addr (ef_header ef) = 0x20000078"
    using load_proc_address_space [OF e(2)] loadedD(1) example_user_basic(6) example_elf_facts(7) by fastforce
qed

text \<open>
  C18: the program reads its own bytes. For a file whose segments lie below the stack in different pages and have different places in the
  file, every byte that was copied from a segment whose virtual address and file offset agree within the page is
  found at its virtual address: the translation under the table of the new process leads to memory that holds the byte of the file.
\<close>
theorem loaded_program_readable:
  assumes "can_load E fl s ef n" and "sorted_wrt segments_apart (ef_programs ef)" and "\<forall>q \<in> set (ef_programs ef). below_stack (pr_header q)"
    and "unat (ALLOC_START s) + 4096 * num_pages s < 2 ^ 56"
  shows "\<exists>p s'. load_proc E fl s = Some (Inr p, s')
    \<and> (\<forall>q \<in> set (ef_programs ef). segment_aligned (pr_header q) \<longrightarrow>
         (\<forall>k < memcpy_len (unat (ph_memsz (pr_header q))). \<exists>a.
            virt_to_phys (mmu_table p) (ph_vaddr (pr_header q) + of_nat k) s' = Some (Some a)
            \<and> memory s' a = fl ! (unat (ph_off (pr_header q)) + k)))"
proof -
  obtain p s' t jf js jp where l: "load_proc E fl s = Some (Inr p, s')" "loaded s ef (unat n) p s' t (jf, js, jp)"
    by (rule can_load_loaded [OF assms(1)])
  have ef: "elf_load E fl = Some (Inr ef)" and fits: "\<forall>q \<in> set (ef_programs ef). segment_fits (unat n) q \<and> below_stack (pr_header q)"
    using assms(1,3) by (simp_all add: can_load_def)
  show ?thesis
  proof (intro exI conjI ballI impI allI)
    fix q k assume q: "q \<in> set (ef_programs ef)" "segment_aligned (pr_header q)" and k: "k < memcpy_len (unat (ph_memsz (pr_header q)))"
    obtain as bs where s: "ef_programs ef = as @ q # bs" using split_list [OF q(1)] by blast
    note b = loaded_byte [OF l(2) ef s assms(2) fits q(2) k assms(4)]
    show "virt_to_phys (mmu_table p) (ph_vaddr (pr_header q) + of_nat k) s' = Some (Some (program p + of_nat (unat (ph_off (pr_header q)) + k)))"
      "memory s' (program p + of_nat (unat (ph_off (pr_header q)) + k)) = fl ! (unat (ph_off (pr_header q)) + k)"
      by (rule b)+
  qed (rule l(1))
qed

theorem loaded_program_readable_witness:
  "\<forall>E. \<exists>p s' a. load_proc E example_elf example_user = Some (Inr p, s')
     \<and> virt_to_phys (mmu_table p) 0x2000007a s' = Some (Some a) \<and> memory s' a = 3"
proof
  fix E :: "'d env"
  note f = example_elf_facts
  obtain ef q where e: "ef_programs ef = [q]" "pr_header q = header_at example_elf 64 0" "can_load E example_elf example_user ef 2"
    by (rule example_elf_loads) (simp_all add: f)
  have "below_stack (pr_header q)" "segment_aligned (pr_header q)" "memcpy_len (unat (ph_memsz (pr_header q))) = 8"
    by (simp_all add: e(2) f below_stack_def segment_aligned_def segment_page_count_def STACK_ADDR_def memcpy_len_def)
  moreover have "example_elf ! 122 = 3" by (simp add: example_elf_def)
  ultimately show "\<exists>p s' a. load_proc E example_elf example_user = Some (Inr p, s')
     \<and> virt_to_phys (mmu_table p) 0x2000007a s' = Some (Some a) \<and> memory s' a = 3"
    using loaded_program_readable [OF e(3)] e(1) example_user_basic(2,8) by (force simp: e(2) f dest: spec [of _ 2])
qed

text \<open>
  A segment that starts inside a page may lose its last page. The loader maps \<open>(memsz + 4096) div 4096\<close> pages
  from the page of the virtual address on; when the offset in that page and the size together reach past them, the last byte of the
  segment is not mapped (unless another segment covers its page), and the program faults when it touches it.
\<close>
lemma segment_tail_unmapped:
  assumes "can_load E fl s ef n" and "q \<in> set (ef_programs ef)" and "\<forall>r \<in> set (ef_programs ef). below_stack (pr_header r)"
    and "unat (ph_vaddr (pr_header q)) mod 4096 + unat (ph_memsz (pr_header q)) mod 4096 > 4096"
    and "\<forall>r \<in> set (ef_programs ef) - {q}. \<not> (first_page (pr_header r) \<le> (unat (ph_vaddr (pr_header q)) + unat (ph_memsz (pr_header q)) - 1) div 4096
      \<and> (unat (ph_vaddr (pr_header q)) + unat (ph_memsz (pr_header q)) - 1) div 4096 < first_page (pr_header r) + segment_page_count (pr_header r))"
  shows "\<exists>p s'. load_proc E fl s = Some (Inr p, s')
    \<and> virt_to_phys (mmu_table p) (ph_vaddr (pr_header q) + ph_memsz (pr_header q) - 1) s' = Some None"
proof -
  obtain p s' t jf js jp where l: "load_proc E fl s = Some (Inr p, s')" "loaded s ef (unat n) p s' t (jf, js, jp)"
    by (rule can_load_loaded [OF assms(1)])
  let ?h = "pr_header q" let ?va = "ph_vaddr ?h + ph_memsz ?h - 1"
  have bq: "unat (ph_vaddr ?h) + unat (ph_memsz ?h) + 4096 \<le> unat STACK_ADDR" using assms(2,3) by (simp add: below_stack_def)
  have z: "0 < unat (ph_memsz ?h)" using assms(4) by (cases "unat (ph_memsz ?h) = 0") auto
  have "unat (ph_vaddr ?h + ph_memsz ?h) = unat (ph_vaddr ?h) + unat (ph_memsz ?h)" using bq by (intro unat_add_no_wrap) (simp add: STACK_ADDR_def)
  then have u: "unat ?va = unat (ph_vaddr ?h) + unat (ph_memsz ?h) - 1" using z by (subst unat_sub) (simp_all add: word_le_nat_alt)
  have past: "first_page ?h + segment_page_count ?h \<le> unat ?va div 4096"
    unfolding u first_page_def segment_page_count_def by (rule last_page_past [OF assms(4)])
  have "mapped_page (program_map (program p) (ef_programs ef)) ?va = None"
  proof (rule program_map_other)
    show "unat ?va < 2 ^ 39" using u bq by (simp add: STACK_ADDR_def)
    fix r assume r: "r \<in> set (ef_programs ef)"
    show "below_stack (pr_header r) \<and> (unat ?va div 4096 < first_page (pr_header r) \<or> first_page (pr_header r) + segment_page_count (pr_header r) \<le> unat ?va div 4096)"
    proof (cases "r = q")
      case False
      then show ?thesis using assms(3,5) r unfolding u by (meson DiffI not_le_imp_less singletonD)
    qed (use assms(3) past r in simp)
  qed
  moreover have "mapped_page (stack_map (stack p)) ?va = None" by (rule stack_map_page) (use u bq z in simp)
  ultimately show ?thesis using l(1) loadedD(5) [OF l(2)] by (auto simp: address_space_def mapped_page_append)
qed

text \<open>
  C22: loading a program and deleting its process leaks nothing. After \<^verbatim>\<open>load_proc\<close>, the process put at the end of the process list, and
  \<^verbatim>\<open>delete_process\<close> with its pid, the list and the blocks in use are what they were: frame, stack, program and all page tables are freed.
\<close>
theorem load_delete_no_leak:
  assumes "can_load E fl s ef n" and "PROCESS_LIST s = Some pl"
    and "\<forall>q \<in> set pl. \<exists>j. frame q = page_addr s j \<and> (j, 1) \<in> blocks s \<and> frame_pid_of (memory s) q \<noteq> NEXT_PID s + 1"
  shows "\<exists>p s1 s2. load_proc E fl s = Some (Inr p, s1) \<and> delete_process (p_pid p) (s1\<lparr>PROCESS_LIST := Some (pl @ [p])\<rparr>) = Some s2
    \<and> PROCESS_LIST s2 = Some pl \<and> blocks s2 = blocks s \<and> page_inv s2"
proof -
  obtain p s1 t jf js jp where l: "load_proc E fl s = Some (Inr p, s1)" "loaded s ef (unat n) p s1 t (jf, js, jp)"
    by (rule can_load_loaded [OF assms(1)])
  note d = loadedD [OF l(2)]
  let ?s1 = "s1\<lparr>PROCESS_LIST := Some (pl @ [p])\<rparr>"
  have "owns ?s1 p t [(js, 35), (jf, 1), (jp, unat n)]" using d(8) by simp
  moreover have "frame_pid_of (memory ?s1) p = p_pid p"
    using frame_pid_slot [of p s1 jf] d(3,4,13) by (simp add: user_frame_def ucast_pid)
  moreover have "frame_pid_of (memory ?s1) q \<noteq> p_pid p" if "q \<in> set pl" for q
  proof -
    obtain j where j: "frame q = page_addr s j" "(j, 1) \<in> blocks s" "frame_pid_of (memory s) q \<noteq> NEXT_PID s + 1"
      using assms(3) \<open>q \<in> set pl\<close> by blast
    then show ?thesis using frame_pid_kept [OF j(1) _ d(13)] d(11) [OF j(2)] d(1) by simp
  qed
  ultimately obtain s2 where s2: "delete_process (p_pid p) ?s1 = Some s2" "PROCESS_LIST s2 = Some pl" "page_inv s2"
    "blocks s2 = blocks ?s1 - set [(js, 35), (jf, 1), (jp, unat n)] - table_blocks t"
    by (rule delete_process_last [of ?s1 pl p, rotated]) simp_all
  have "blocks s2 = blocks s" using s2(4) d(9,10) by auto
  then show ?thesis using l(1) s2(1-3) by blast
qed

theorem load_delete_no_leak_witness:
  "\<forall>E. \<exists>p s1 s2. load_proc E example_elf example_user = Some (Inr p, s1) \<and> delete_process (p_pid p) (s1\<lparr>PROCESS_LIST := Some [p]\<rparr>) = Some s2
     \<and> PROCESS_LIST s2 = Some [] \<and> blocks s2 = {}"
proof
  fix E :: "'d env"
  obtain ef where "can_load E example_elf example_user ef 2" by (rule example_elf_loads) (simp_all add: example_elf_facts)
  from load_delete_no_leak [OF this example_user_basic(7)]
  show "\<exists>p s1 s2. load_proc E example_elf example_user = Some (Inr p, s1) \<and> delete_process (p_pid p) (s1\<lparr>PROCESS_LIST := Some [p]\<rparr>) = Some s2
     \<and> PROCESS_LIST s2 = Some [] \<and> blocks s2 = {}"
    using example_user_basic(3) by auto
qed

text \<open>
  C36: the pid of a loaded program is handed out again. \<^verbatim>\<open>load_proc\<close> takes the pid after \<^verbatim>\<open>NEXT_PID\<close> and leaves the counter
  there, whereas \<^verbatim>\<open>add_kernel_process\<close> takes the counter itself: the next kernel process has the same pid, and an
  operation on that pid, such as \<^verbatim>\<open>set_waiting\<close>, reaches the loaded program instead.
\<close>
theorem loaded_pid_handed_out_again:
  assumes "can_load E fl s ef n" and "PROCESS_LIST s = Some pl" and "NEXT_PID s < 0xfffe" and "\<forall>q \<in> set pl. p_pid q \<noteq> NEXT_PID s + 1"
  shows "\<exists>p s1 q s2. load_proc E fl s = Some (Inr p, s1)
    \<and> add_kernel_process ra fn (s1\<lparr>PROCESS_LIST := Some (pl @ [p])\<rparr>) = Some (p_pid p, s2)
    \<and> PROCESS_LIST s2 = Some (pl @ [p, q]) \<and> p_pid q = p_pid p
    \<and> set_waiting (p_pid q) s2 = Some (True, s2\<lparr>PROCESS_LIST := Some (pl @ [p\<lparr>pstate := Waiting\<rparr>, q])\<rparr>)"
proof -
  obtain p s1 t jf js jp where l: "load_proc E fl s = Some (Inr p, s1)" "loaded s ef (unat n) p s1 t (jf, js, jp)"
    by (rule can_load_loaded [OF assms(1)])
  note d = loadedD [OF l(2)]
  let ?s1 = "s1\<lparr>PROCESS_LIST := Some (pl @ [p])\<rparr>"
  have i: "page_inv ?s1" "35 \<le> num_pages ?s1" "PROCESS_LIST ?s1 = Some (pl @ [p])" using d(12,17) assms(1) by (simp_all add: can_load_def)
  have "unat (NEXT_PID s + 1) = unat (NEXT_PID s) + 1"
    using unat_add_no_wrap [of "NEXT_PID s" 1] assms(3) by (simp add: word_less_nat_alt)
  then have pd: "NEXT_PID ?s1 < 0xffff" using d(2) assms(3) by (simp add: word_less_nat_alt)
  obtain q m where q: "add_kernel_process ra fn ?s1 = Some (NEXT_PID ?s1, ?s1\<lparr>memory := m, PROCESS_LIST := Some ((pl @ [p]) @ [q]), NEXT_PID := NEXT_PID ?s1 + 1\<rparr>)"
    "p_pid q = NEXT_PID ?s1"
    by (rule add_kernel_process_returns [OF i pd])
  then obtain s2 where a: "add_kernel_process ra fn ?s1 = Some (NEXT_PID ?s1, s2)" "PROCESS_LIST s2 = Some ((pl @ [p]) @ [q])" "p_pid q = NEXT_PID ?s1"
    by simp
  have "find_index (\<lambda>r. p_pid r = p_pid p) (pl @ [p, q]) = Some (length pl)"
    using assms(4) d(1) by (simp add: find_index_Some nth_append)
  then have "set_waiting (p_pid p) s2 = Some (True, s2\<lparr>PROCESS_LIST := Some (pl @ [p\<lparr>pstate := Waiting\<rparr>, q])\<rparr>)"
    using a(2) by (simp add: set_waiting_def update_first_spec)
  then show ?thesis using l(1) a d(1,2) by (intro exI [of _ p] exI [of _ s1] exI [of _ q] exI [of _ s2]) simp
qed

theorem loaded_pid_handed_out_again_witness:
  "\<forall>E. \<exists>p s1 q s2. load_proc E example_elf example_user = Some (Inr p, s1)
    \<and> add_kernel_process 0x80000100 0x80000200 (s1\<lparr>PROCESS_LIST := Some [p]\<rparr>) = Some (p_pid p, s2)
    \<and> PROCESS_LIST s2 = Some [p, q] \<and> p_pid q = p_pid p"
proof
  fix E :: "'d env"
  obtain ef where "can_load E example_elf example_user ef 2" by (rule example_elf_loads) (simp_all add: example_elf_facts)
  from loaded_pid_handed_out_again [OF this example_user_basic(7), of "0x80000100" "0x80000200"]
  show "\<exists>p s1 q s2. load_proc E example_elf example_user = Some (Inr p, s1)
    \<and> add_kernel_process 0x80000100 0x80000200 (s1\<lparr>PROCESS_LIST := Some [p]\<rparr>) = Some (p_pid p, s2)
    \<and> PROCESS_LIST s2 = Some [p, q] \<and> p_pid q = p_pid p"
    using example_user_basic(6) by auto
qed

end
