(* ===== verification/Isolation.thy ===== *)
theory Isolation
  imports Elf_Load Sched
begin

text \<open>
  Isolation of processes. Processes are created (\<^verbatim>\<open>add_kernel_process\<close>, \<^verbatim>\<open>load_proc\<close>), scheduled, put to
  sleep and deleted in any order, and the kernel takes pages in between. In every state that such a history
  reaches, the processes own disjoint blocks of pages, and what a process can reach through its page
  table lies in its own stack and program, never in a page of another process, a page table or a frame.
\<close>

section \<open>Confinement\<close>

definition in_block :: "'a page_st_scheme \<Rightarrow> nat \<times> nat \<Rightarrow> usize \<Rightarrow> bool" where
  "in_block s b a \<longleftrightarrow> unat (ALLOC_START s) + 4096 * fst b \<le> unat a \<and> unat a < unat (ALLOC_START s) + 4096 * (fst b + snd b)"

definition confined :: "'a page_st_scheme \<Rightarrow> Process \<Rightarrow> (nat \<times> nat) list \<Rightarrow> bool" where
  "confined s p bs \<longleftrightarrow> (\<forall>va a. virt_to_phys (mmu_table p) va s = Some (Some a) \<longrightarrow> (\<exists>b \<in> set bs. in_block s b a))"

text \<open>Of the blocks that a process owns, the second is its frame, which user code must not reach.\<close>

definition user_blocks :: "(nat \<times> nat) list \<Rightarrow> (nat \<times> nat) list" where
  "user_blocks bs = take 1 bs @ drop 2 bs"

lemma user_blocks_subset: "set (user_blocks bs) \<subseteq> set bs"
  unfolding user_blocks_def set_append by (intro Un_least set_take_subset set_drop_subset)

lemma mapped_page_mem: "mapped_page ms va = Some pa \<Longrightarrow> \<exists>v b. (v, pa, b) \<in> set ms"
  by (induction ms va rule: mapped_page.induct) (auto split: option.splits if_splits)

lemma in_page_block:
  assumes geo: "page_geometry s" and b: "j + l \<le> num_pages s" "unat (ALLOC_START s) + 4096 * num_pages s < 2 ^ 56"
    and pa: "unat pa = unat (ALLOC_START s) + 4096 * j + d" "d < 4096 * l"
  shows "in_block s (j, l) (in_page pa va)"
proof -
  obtain q where q: "unat (ALLOC_START s) = 4096 * q" using geo by (auto simp: page_geometry_def dvd_def)
  have "4096 * (j + l) \<le> 4096 * num_pages s" using b(1) by (rule mult_le_mono2)
  then have "unat pa < 2 ^ 56" using pa b(2) by (simp add: distrib_left)
  then have u: "unat (in_page pa va) = 4096 * (unat pa div 4096) + unat va mod 4096" by (rule unat_in_page)
  have "unat pa = d + 4096 * (q + j)" using pa(1) q by simp
  then have e: "unat pa div 4096 = q + j + d div 4096" by (simp only: div_mult_self2 [OF zero_neq_numeral [symmetric]])
  have "d div 4096 < l" using pa(2) by (simp add: less_mult_imp_div_less mult.commute)
  then have "4096 * (d div 4096) + 4096 \<le> 4096 * l" by simp
  moreover have "unat va mod 4096 < 4096" by simp
  ultimately show ?thesis unfolding in_block_def u e fst_conv snd_conv using q by (simp add: distrib_left)
qed

text \<open>The loader maps nothing but pages of the stack and of the program block when every segment ends before the end of the block.\<close>

definition segment_inside :: "nat \<Rightarrow> Program \<Rightarrow> bool" where
  "segment_inside n p \<longleftrightarrow> unat (ph_off (pr_header p)) + unat (ph_memsz (pr_header p)) < 4096 * n"

lemma loaded_confined:
  assumes l: "loaded s ef n p s' t (jf, js, jp)" and ins: "\<forall>q \<in> set (ef_programs ef). segment_inside n q"
    and top: "unat (ALLOC_START s) + 4096 * num_pages s < 2 ^ 56"
  shows "confined s' p [(js, 35), (jp, n)]"
  unfolding confined_def
proof (intro allI impI)
  fix va a assume v: "virt_to_phys (mmu_table p) va s' = Some (Some a)"
  note d = loadedD [OF l]
  note st = d(19)
  have geo: "page_geometry s'" using d(12) by (simp add: page_inv_def)
  have top': "unat (ALLOC_START s') + 4096 * num_pages s' < 2 ^ 56" using top d(17,18) by simp
  have jn: "jp + n \<le> num_pages s'" "0 < n" using pages.live_nonempty [OF d(14)] by simp_all
  have sb: "(js, 35) \<in> blocks s'" using d(8) by (simp add: owns_def)
  have js: "js + 35 \<le> num_pages s'" using pages.live_nonempty [OF sb] by simp
  have up: "unat (program p) = unat (ALLOC_START s') + 4096 * jp" using block_place(1) [OF geo jn] d(6,13) by simp
  have us: "unat (stack p) = unat (ALLOC_START s') + 4096 * js" using block_place(1) [OF geo js] st d(13) by simp
  obtain pa where pa: "mapped_page (program_map (program p) (ef_programs ef) @ stack_map (stack p)) va = Some pa" "a = in_page pa va"
    using d(5) v by (auto simp: address_space_def)
  obtain v b where "(v, pa, b) \<in> set (program_map (program p) (ef_programs ef) @ stack_map (stack p))"
    using mapped_page_mem [OF pa(1)] by blast
  then consider (seg) q i where "q \<in> set (ef_programs ef)" "i < segment_page_count (pr_header q)" "pa = program p + ph_off (pr_header q) + of_nat (4096 * i)"
    | (stk) i where "i < 35" "pa = stack p + of_nat (4096 * i)"
    by (auto simp: program_map_def segment_map_def stack_map_def)
  then show "\<exists>b \<in> set [(js, 35), (jp, n)]. in_block s' b a"
  proof cases
    case seg
    have b: "unat (ph_off (pr_header q)) + 4096 * i < 4096 * n"
      using ins seg(1) segment_page_bound [OF seg(2)] by (auto simp: segment_inside_def)
    have lim: "unat (program p) + 4096 * n < 2 ^ 64" using block_place(2) [OF geo jn] d(6,13) by simp
    have "unat (program p + ph_off (pr_header q)) = unat (program p) + unat (ph_off (pr_header q))"
      using b lim by (intro unat_add_no_wrap) simp
    then have "unat pa = unat (ALLOC_START s') + 4096 * jp + (unat (ph_off (pr_header q)) + 4096 * i)"
      using seg(3) b lim up unat_add_of_nat [of "program p + ph_off (pr_header q)" "4096 * i"] by simp
    from in_page_block [OF geo jn(1) top' this b] show ?thesis using pa(2) by simp
  next
    case stk
    have "unat pa = unat (ALLOC_START s') + 4096 * js + 4096 * i"
      using stk us block_place(2) [OF geo js] d(13) st unat_add_of_nat [of "stack p" "4096 * i"] by simp
    from in_page_block [OF geo js top' this] show ?thesis using pa(2) stk(1) by simp
  qed
qed

lemma empty_tree_confined:
  assumes "page_inv s" "(j, 1) \<in> blocks s" "page_bytes s j = replicate 4096 0" "mmu_table p = page_addr s j"
  shows "confined s p bs"
proof -
  have "virt_to_phys (page_addr s j) va s = Some None" for va
    using virt_to_phys_tree [OF empty_tree_ok(1) [OF assms(1-3)], of j va] by (simp add: leaf_of_def pte_translate_def split: prod.split)
  then show ?thesis using assms(4) by (simp add: confined_def)
qed

text \<open>An address lies in one block at most.\<close>

lemma in_block_unique:
  assumes "b \<in> blocks s" "c \<in> blocks s" "in_block s b a" "in_block s c a" shows "b = c"
proof -
  obtain i l j k where e: "b = (i, l)" "c = (j, k)" by (cases b, cases c)
  have "i < j + k" "j < i + l" using assms(3,4) unfolding e in_block_def by auto
  then show ?thesis using pages.live_apart [of i l s j k] assms(1,2) e by auto
qed

section \<open>What the processes hold\<close>

text \<open>A process with the tree of its page tables and the blocks that it owns.\<close>

type_synonym owned = "Process \<times> tree \<times> (nat \<times> nat) list"

fun held :: "owned \<Rightarrow> (nat \<times> nat) set" where
  "held (p, t, bs) = set bs \<union> table_blocks t"

fun holds :: "'a page_st_scheme \<Rightarrow> owned \<Rightarrow> bool" where
  "holds s (p, t, bs) \<longleftrightarrow> owns s p t bs \<and> confined s p (user_blocks bs)"

definition apart :: "owned \<Rightarrow> owned \<Rightarrow> bool" where
  "apart v w \<longleftrightarrow> held v \<inter> held w = {}"

definition isolated :: "'a proc_st_scheme \<Rightarrow> owned list \<Rightarrow> bool" where
  "isolated s ws \<longleftrightarrow> page_inv s \<and> PROCESS_LIST s = Some (map fst ws) \<and> (\<forall>w \<in> set ws. holds s w) \<and> sorted_wrt apart ws"

lemma held_blocks: "holds s w \<Longrightarrow> held w \<subseteq> blocks s"
  by (cases w) (auto simp: owns_def table_blocks_def dest: tree_okD(4))

lemma table_held: "b \<in> table_blocks (fst (snd w)) \<Longrightarrow> b \<in> held w"
  by (cases w) simp

lemma holds_fields [simp]:
  "holds (s\<lparr>PROCESS_LIST := pl\<rparr>) w = holds s w" "holds (s\<lparr>PROCESS_LIST_MUTEX := mx\<rparr>) w = holds s w"
proof -
  have "virt_to_phys root va (s\<lparr>PROCESS_LIST := pl\<rparr>) = virt_to_phys root va s"
    "virt_to_phys root va (s\<lparr>PROCESS_LIST_MUTEX := mx\<rparr>) = virt_to_phys root va s" for root va
    by (simp_all add: virt_to_phys_def)
  then show "holds (s\<lparr>PROCESS_LIST := pl\<rparr>) w = holds s w" "holds (s\<lparr>PROCESS_LIST_MUTEX := mx\<rparr>) w = holds s w"
    by (cases w; simp add: confined_def in_block_def owns_def)+
qed

lemma holds_confined:
  "holds s w \<Longrightarrow> virt_to_phys (mmu_table (fst w)) va s = Some (Some a) \<Longrightarrow> \<exists>b \<in> set (user_blocks (snd (snd w))). in_block s b a"
  by (cases w) (simp add: confined_def)

text \<open>Holding depends only on the pages held.\<close>

lemma holds_cong:
  assumes h: "holds s w" and s1: "page_inv s1" "page_addr s1 = page_addr s" "ALLOC_START s1 = ALLOC_START s"
    and b: "held w \<subseteq> blocks s1" "\<And>j. (j, 1) \<in> table_blocks (fst (snd w)) \<Longrightarrow> page_bytes s1 j = page_bytes s j"
  shows "holds s1 w"
proof (cases w)
  case (fields p t bs)
  have o: "owns s p t bs" and c: "confined s p (user_blocks bs)" using h fields by simp_all
  obtain r where r: "tree_ok s t" "t Root = Some r" "mmu_table p = page_addr s r" using o unfolding owns_def by blast
  have tab: "(j, 1) \<in> blocks s1 \<and> page_bytes s1 j = page_bytes s j" if "t q = Some j" for q j
    using b(1) b(2) [of j] that fields by (auto simp: table_blocks_def)
  have ok: "tree_ok s1 t" by (rule virt_to_phys_cong(1) [OF r(1,2) s1(1,2)]) (rule tab)
  have "virt_to_phys (page_addr s r) va s1 = virt_to_phys (page_addr s r) va s" for va
    by (rule virt_to_phys_cong(2) [OF r(1,2) s1(1,2)]) (rule tab)
  then have "confined s1 p (user_blocks bs)" using c r(3) s1(3) by (simp add: confined_def in_block_def)
  moreover have "set bs \<subseteq> blocks s1" using b(1) fields by auto
  then have "owns s1 p t bs" using o ok unfolding owns_def s1(2) by blast
  ultimately show ?thesis using fields by simp
qed

lemma isolated_grow:
  assumes i: "isolated s ws" and s1: "page_inv s1" "page_addr s1 = page_addr s" "ALLOC_START s1 = ALLOC_START s" "blocks s \<subseteq> blocks s1"
    and b: "\<And>i l k. (i, l) \<in> blocks s \<Longrightarrow> i \<le> k \<Longrightarrow> k < i + l \<Longrightarrow> page_bytes s1 k = page_bytes s k" and pl: "PROCESS_LIST s1 = PROCESS_LIST s"
  shows "isolated s1 ws"
proof -
  have "holds s1 w" if "w \<in> set ws" for w
  proof -
    have h: "holds s w" using i that by (simp add: isolated_def)
    show ?thesis
    proof (rule holds_cong [OF h s1(1-3)])
      show "held w \<subseteq> blocks s1" using held_blocks [OF h] s1(4) by blast
      show "page_bytes s1 j = page_bytes s j" if "(j, 1) \<in> table_blocks (fst (snd w))" for j
        using held_blocks [OF h] table_held [OF that] b [of j 1 j] by auto
    qed
  qed
  then show ?thesis using i s1(1) pl by (simp add: isolated_def)
qed

text \<open>A new process takes new blocks.\<close>

lemma isolated_add:
  assumes i: "isolated s ws" and s1: "page_inv s1" "page_addr s1 = page_addr s" "ALLOC_START s1 = ALLOC_START s" "blocks s \<subseteq> blocks s1"
    and b: "\<And>i l k. (i, l) \<in> blocks s \<Longrightarrow> i \<le> k \<Longrightarrow> k < i + l \<Longrightarrow> page_bytes s1 k = page_bytes s k"
    and w: "holds s1 w" "held w \<inter> blocks s = {}" and pl: "PROCESS_LIST s1 = Some (map fst ws @ [fst w])"
  shows "isolated s1 (ws @ [w])"
proof -
  have "isolated (s1\<lparr>PROCESS_LIST := PROCESS_LIST s\<rparr>) ws" by (rule isolated_grow [OF i]) (use s1 b in simp_all)
  then have "\<forall>v \<in> set ws. holds s1 v" by (simp add: isolated_def)
  moreover have "apart v w" if "v \<in> set ws" for v
    using held_blocks [of s v] i w(2) that by (auto simp: isolated_def apart_def)
  ultimately show ?thesis using i s1(1) w(1) pl by (simp add: isolated_def sorted_wrt_append)
qed

lemma apart_sym: "apart v w \<longleftrightarrow> apart w v"
  by (auto simp: apart_def)

lemma sorted_apart_append:
  "sorted_wrt apart (us @ vs) \<longleftrightarrow> sorted_wrt apart (vs @ us)"
  by (auto simp: sorted_wrt_append apart_sym)

text \<open>A process that is dropped frees what it held and nothing else.\<close>

lemma isolated_drop:
  assumes i: "isolated s (us @ w # vs)" and d: "Process_drop (fst w) s = Some s1"
  shows "isolated (s1\<lparr>PROCESS_LIST := Some (map fst (us @ vs))\<rparr>) (us @ vs)" "blocks s1 = blocks s - held w"
proof -
  obtain p t bs where w: "w = (p, t, bs)" by (cases w)
  have o: "owns s p t bs" using i w by (simp add: isolated_def)
  have s1: "same_pages s s1" "blocks s1 = blocks s - set bs - table_blocks t" using Process_drop_frees [OF o] d w by auto
  then show bl: "blocks s1 = blocks s - held w" using w by auto
  have "page_addr s1 0 = page_addr s 0" using s1(1) by (simp add: same_pages_def)
  then have al: "ALLOC_START s1 = ALLOC_START s" by (simp add: page_addr_def)
  have "holds s1 v" if "v \<in> set (us @ vs)" for v
  proof -
    have h: "holds s v" "held v \<inter> held w = {}" using i that by (auto simp: isolated_def sorted_wrt_append apart_def)
    show ?thesis
    proof (rule holds_cong [OF h(1) _ _ al])
      show "held v \<subseteq> blocks s1" using held_blocks [OF h(1)] h(2) bl by blast
      show "page_bytes s1 j = page_bytes s j" if "(j, 1) \<in> table_blocks (fst (snd v))" for j
      proof -
        have "(j, 1) \<in> blocks s" using held_blocks [OF h(1)] table_held [OF that] by blast
        then show ?thesis using s1(1) pages.live_nonempty by (fastforce simp: same_pages_def)
      qed
    qed (use s1(1) in \<open>simp_all add: same_pages_def\<close>)
  qed
  moreover have "sorted_wrt apart (us @ vs)" using i by (simp add: isolated_def sorted_wrt_append)
  ultimately show "isolated (s1\<lparr>PROCESS_LIST := Some (map fst (us @ vs))\<rparr>) (us @ vs)"
    using s1(1) by (simp add: isolated_def same_pages_def)
qed

section \<open>The steps\<close>

text \<open>
  What happens to the processes of a running machine: one is created by the kernel or loaded from a file, deleted, scheduled, woken or put
  to sleep, the kernel takes pages for itself, and a process that runs stores a byte at an address that its page table maps. The guards of
  the first two steps are conditions that the code does not check: creation succeeds in its allocations and has a pid left, and a loaded
  program has enough memory (\<open>can_load\<close>) and no segment that reaches the end of the program block (\<open>segment_inside\<close>).
\<close>

inductive proc_step :: "'d env \<Rightarrow> 'a proc_st_scheme \<Rightarrow> 'a proc_st_scheme \<Rightarrow> bool" for E where
  spawn: "\<lbrakk>new_process s = Some (p, s0); frame p \<noteq> null_mut; stack p \<noteq> null_mut; mmu_table p \<noteq> null_mut; NEXT_PID s < 0xffff;
     add_kernel_process ra fn s = Some (pd, s')\<rbrakk> \<Longrightarrow> proc_step E s s'"
| load: "\<lbrakk>can_load E fl s ef n; \<forall>q \<in> set (ef_programs ef). segment_inside (unat n) q; PROCESS_LIST s = Some pl;
     load_proc E fl s = Some (Inr p, s')\<rbrakk> \<Longrightarrow> proc_step E s (s'\<lparr>PROCESS_LIST := Some (pl @ [p])\<rparr>)"
| delete: "delete_process pd s = Some s' \<Longrightarrow> proc_step E s s'"
| switch: "schedule now s = Some (f, s') \<Longrightarrow> proc_step E s s'"
| wake: "set_running pd s = Some (b, s') \<Longrightarrow> proc_step E s s'"
| await: "set_waiting pd s = Some (b, s') \<Longrightarrow> proc_step E s s'"
| sleep: "set_sleeping now pd dur s = Some (b, s') \<Longrightarrow> proc_step E s s'"
| take_pages: "\<lbrakk>0 < k; unat k \<le> num_pages s; zalloc k s = Some (a, s')\<rbrakk> \<Longrightarrow> proc_step E s s'"
| store: "\<lbrakk>PROCESS_LIST s = Some pl; p \<in> set pl; virt_to_phys (mmu_table p) va s = Some (Some a)\<rbrakk> \<Longrightarrow>
     proc_step E s (s\<lparr>memory := store_bytes (memory s) a [v]\<rparr>)"

text \<open>The size of the machine: room for a stack, and physical addresses that fit into a page table entry.\<close>

definition machine_ok :: "'a page_st_scheme \<Rightarrow> bool" where
  "machine_ok s \<longleftrightarrow> 35 \<le> num_pages s \<and> unat (ALLOC_START s) + 4096 * num_pages s < 2 ^ 56"

lemma isolated_spawn:
  assumes i: "isolated s ws" and n: "new_process s = Some (p, s0)" "frame p \<noteq> null_mut" "stack p \<noteq> null_mut" "mmu_table p \<noteq> null_mut" "NEXT_PID s < 0xffff"
    and m: "machine_ok s" and a: "add_kernel_process ra fn s = Some (pd, s')"
  shows "\<exists>w. isolated s' (ws @ [w])" "machine_ok s'"
proof -
  have inv: "page_inv s" "PROCESS_LIST s = Some (map fst ws)" and np: "35 \<le> num_pages s" using i m by (simp_all add: isolated_def machine_ok_def)
  obtain s1 jf js jt where d: "add_kernel_process ra fn s = Some (NEXT_PID s, s1)" "PROCESS_LIST s1 = Some (map fst ws @ [p])"
    "p_pid p = NEXT_PID s" "pstate p = Running" "NEXT_PID s1 = NEXT_PID s + 1"
    "frame p = page_addr s jf" "stack p = page_addr s js" "mmu_table p = page_addr s jt"
    "frame_ready s1 jf fn ra (page_addr s js + 0x23000) (NEXT_PID s)"
    "page_inv s1" "blocks s1 = {(jf, 1), (js, 35), (jt, 1)} \<union> blocks s" "{(jf, 1), (js, 35), (jt, 1)} \<inter> blocks s = {}"
    "\<forall>i l k. (i, l) \<in> blocks s \<longrightarrow> i \<le> k \<longrightarrow> k < i + l \<longrightarrow> page_bytes s1 k = page_bytes s k"
    "distinct [(jf, 1 :: nat), (js, 35), (jt, 1)]" "page_bytes s1 jt = replicate 4096 0" "page_addr s1 = page_addr s"
    "pdata p = ProcessData_new" "program p = null_mut"
    by (rule add_kernel_process_facts [OF inv(1) np inv(2) n(1-4)])
  obtain mm q where "s' = s\<lparr>memory := mm, PROCESS_LIST := Some (map fst ws @ [q]), NEXT_PID := NEXT_PID s + 1\<rparr>"
    using add_kernel_process_returns [OF inv(1) np inv(2) n(5), of ra fn] a by (metis option.inject prod.inject)
  then have f: "ALLOC_START s' = ALLOC_START s" "num_pages s' = num_pages s" by simp_all
  then show "machine_ok s'" using m by (simp add: machine_ok_def)
  have e: "s1 = s'" using d(1) a by simp
  let ?t = "\<lambda>q. if q = Root then Some jt else None"
  have jt: "(jt, 1) \<in> blocks s'" using d(11) e by simp
  note t = empty_tree_ok [OF d(10)[unfolded e] jt d(15)[unfolded e]]
  have "owns s' p ?t [(js, 35), (jf, 1)]" unfolding owns_def t(2) using t(1) d e by (auto simp: ProcessData_new_def)
  moreover have "confined s' p (user_blocks [(js, 35), (jf, 1)])"
    by (rule empty_tree_confined [OF d(10)[unfolded e] jt d(15)[unfolded e]]) (use d(8,16) e in simp)
  ultimately have h: "holds s' (p, ?t, [(js, 35), (jf, 1)])" by simp
  have "isolated s' (ws @ [(p, ?t, [(js, 35), (jf, 1)])])"
    by (rule isolated_add [OF i _ _ f(1) _ _ h]) (use d e in \<open>auto simp: t(2)\<close>)
  then show "\<exists>w. isolated s' (ws @ [w])" ..
qed

lemma isolated_load:
  assumes i: "isolated s ws" and l: "can_load E fl s ef n" "\<forall>q \<in> set (ef_programs ef). segment_inside (unat n) q" and m: "machine_ok s"
    and p: "load_proc E fl s = Some (Inr p, s')"
  shows "\<exists>w. isolated (s'\<lparr>PROCESS_LIST := Some (map fst ws @ [p])\<rparr>) (ws @ [w])" "machine_ok (s'\<lparr>PROCESS_LIST := Some (map fst ws @ [p])\<rparr>)"
proof -
  obtain t jf js jp where ld: "loaded s ef (unat n) p s' t (jf, js, jp)"
    using can_load_loaded [OF l(1)] p by (metis option.inject prod.inject sum.inject(2))
  note d = loadedD [OF ld]
  show "machine_ok (s'\<lparr>PROCESS_LIST := Some (map fst ws @ [p])\<rparr>)" using m d(17,18) by (simp add: machine_ok_def)
  have "confined s' p [(js, 35), (jp, unat n)]"
    by (rule loaded_confined [OF ld l(2)]) (use m in \<open>simp add: machine_ok_def\<close>)
  then have h: "holds s' (p, t, [(js, 35), (jf, 1), (jp, unat n)])" using d(8) by (simp add: user_blocks_def)
  have "isolated (s'\<lparr>PROCESS_LIST := Some (map fst ws @ [p])\<rparr>) (ws @ [(p, t, [(js, 35), (jf, 1), (jp, unat n)])])"
  proof (rule isolated_add [OF i])
    show "held (p, t, [(js, 35), (jf, 1), (jp, unat n)]) \<inter> blocks s = {}" using d(10) by simp
    show "blocks s \<subseteq> blocks (s'\<lparr>PROCESS_LIST := Some (map fst ws @ [p])\<rparr>)" using d(9) by auto
    show "holds (s'\<lparr>PROCESS_LIST := Some (map fst ws @ [p])\<rparr>) (p, t, [(js, 35), (jf, 1), (jp, unat n)])" unfolding holds_fields by (rule h)
  qed (use d(11,12,13,18) in simp_all)
  then show "\<exists>w. isolated (s'\<lparr>PROCESS_LIST := Some (map fst ws @ [p])\<rparr>) (ws @ [w])" ..
qed

lemma isolated_delete:
  assumes i: "isolated s ws" and d: "delete_process pd s = Some s'" and m: "machine_ok s"
  shows "\<exists>ws'. isolated s' ws'" "machine_ok s'"
proof -
  have pl: "PROCESS_LIST s = Some (map fst ws)" using i by (simp add: isolated_def)
  show "\<exists>ws'. isolated s' ws'" "machine_ok s'"
  proof (atomize (full), cases "find_index (\<lambda>p. frame_pid_of (memory s) p = pd) (map fst ws)")
    case None
    then have "s' = s" using d pl by (simp add: delete_process_def)
    then show "(\<exists>ws'. isolated s' ws') \<and> machine_ok s'" using i m by blast
  next
    case (Some k)
    then have k: "k < length ws" by (simp add: find_index_Some)
    obtain s1 where s1: "Process_drop (fst (ws ! k)) s = Some s1" "s' = s1\<lparr>PROCESS_LIST := Some (take k (map fst ws) @ drop (Suc k) (map fst ws))\<rparr>"
      using d pl Some k by (auto simp: delete_process_def split: bind_splits)
    have ws: "ws = take k ws @ ws ! k # drop (Suc k) ws" using k by (rule id_take_nth_drop)
    have "holds s (ws ! k)" using i k by (simp add: isolated_def)
    then obtain t bs where w: "owns s (fst (ws ! k)) t bs" by (cases "ws ! k") auto
    have sp: "same_pages s s1" using Process_drop_frees [OF w] s1(1) by auto
    then have "page_addr s1 0 = page_addr s 0" by (simp add: same_pages_def)
    then have "machine_ok s'" using m sp s1(2) by (simp add: machine_ok_def same_pages_def page_addr_def)
    moreover have "isolated s' (take k ws @ drop (Suc k) ws)"
      using isolated_drop(1) [of s "take k ws" "ws ! k" "drop (Suc k) ws" s1] i s1 ws by (simp add: take_map drop_map)
    ultimately show "(\<exists>ws'. isolated s' ws') \<and> machine_ok s'" by blast
  qed
qed

text \<open>Changes of the list: the state of a process, and the order.\<close>

lemma holds_state [simp]:
  "holds s (p\<lparr>pstate := st\<rparr>, tb) = holds s (p, tb)" "holds s (p\<lparr>sleep_until := u\<rparr>, tb) = holds s (p, tb)"
  by (cases tb; simp add: owns_def confined_def)+

lemma sorted_apart_snd: "map snd ws = map snd ws' \<Longrightarrow> sorted_wrt apart ws = sorted_wrt apart ws'"
proof -
  assume e: "map snd ws = map snd ws'"
  have s: "sorted_wrt apart ws = sorted_wrt (\<lambda>a b. (set (snd a) \<union> table_blocks (fst a)) \<inter> (set (snd b) \<union> table_blocks (fst b)) = {}) (map snd ws)" for ws
    unfolding sorted_wrt_map by (rule arg_cong [of _ _ "\<lambda>R. sorted_wrt R ws"]) (auto simp: apart_def fun_eq_iff)
  show "sorted_wrt apart ws = sorted_wrt apart ws'" unfolding s [of ws] s [of ws'] e ..
qed

lemma sorted_apart_mem: "sorted_wrt apart ws \<Longrightarrow> v \<in> set ws \<Longrightarrow> w \<in> set ws \<Longrightarrow> v \<noteq> w \<Longrightarrow> apart v w"
  by (induction ws) (auto simp: apart_sym)

lemma isolated_update:
  assumes i: "isolated s ws" and k: "k < length ws" and y: "\<And>tb. holds s (y, tb) = holds s (fst (ws ! k), tb)"
  shows "isolated (s\<lparr>PROCESS_LIST := Some ((map fst ws)[k := y])\<rparr>) (ws[k := (y, snd (ws ! k))])"
proof -
  have "holds s (ws ! k)" using i k by (simp add: isolated_def)
  then have "holds s (y, snd (ws ! k))" unfolding y by simp
  then have "\<forall>w \<in> set (ws[k := (y, snd (ws ! k))]). holds s w"
    using i set_update_subset_insert [of ws k "(y, snd (ws ! k))"] by (auto simp: isolated_def)
  moreover have "map snd (ws[k := (y, snd (ws ! k))]) = map snd ws" using k by (simp add: map_update list_update_same_conv)
  then have "sorted_wrt apart (ws[k := (y, snd (ws ! k))])" using sorted_apart_snd i unfolding isolated_def by blast
  ultimately show ?thesis using i by (simp add: isolated_def map_update)
qed

lemma isolated_update_first:
  assumes i: "isolated s ws" and u: "update_first P f (map fst ws) = Some (b, pl)" and f: "\<And>p q tb. f p = Some q \<Longrightarrow> holds s (q, tb) = holds s (p, tb)"
  shows "\<exists>ws'. isolated (s\<lparr>PROCESS_LIST := Some pl\<rparr>) ws'"
proof (cases "find_index P (map fst ws)")
  case None
  then have "pl = map fst ws" using u by (simp add: update_first_spec)
  then show ?thesis using i by (auto simp: isolated_def)
next
  case (Some k)
  then have k: "k < length ws" by (simp add: find_index_Some)
  obtain y where y: "f (fst (ws ! k)) = Some y" "pl = (map fst ws)[k := y]"
    using u Some k by (auto simp: update_first_spec split: option.splits)
  show ?thesis using isolated_update [OF i k] f [OF y(1)] y(2) by blast
qed

lemma isolated_switch:
  assumes i: "isolated s ws" and l: "procfindloop now (map fst ws) = Some (f, pl)"
  shows "\<exists>ws'. isolated (s\<lparr>PROCESS_LIST := Some pl\<rparr>) ws'"
proof -
  obtain w vs where ws: "ws = w # vs" using procfindloop_someone [OF l] by (cases ws) auto
  have "\<exists>q \<in> set (map fst vs @ [fst w]). can_run now q" using procfindloop_someone [OF l] ws by auto
  then obtain xs q ys where q: "map fst vs @ [fst w] = xs @ q # ys" "\<forall>x \<in> set xs. \<not> can_run now x" "can_run now q"
    by (rule rotate_split)
  have pl: "pl = awake q # ys @ xs" using procfindloop_returns [OF q] l ws by simp
  define us rs where "us = take (length xs) (vs @ [w])" and "rs = drop (length xs) (vs @ [w])"
  have e: "map fst (vs @ [w]) = xs @ q # ys" using q(1) by simp
  have r: "us @ rs = vs @ [w]" "map fst us = xs" "map fst rs = q # ys"
    unfolding us_def rs_def append_take_drop_id take_map [symmetric] drop_map [symmetric] e by simp_all
  obtain v zs where "rs = v # zs" "fst v = q" "map fst zs = ys" using r(3) by (cases rs) auto
  with r have u: "vs @ [w] = us @ v # zs" "map fst us = xs" "fst v = q" "map fst zs = ys" by simp_all
  let ?ws = "(awake q, snd v) # zs @ us"
  have "sorted_wrt apart (us @ v # zs)" using i sorted_apart_append [of "[w]" vs] unfolding u(1) [symmetric] ws isolated_def by simp
  then have "sorted_wrt apart (v # zs @ us)" using sorted_apart_append [of us "v # zs"] by simp
  then have "sorted_wrt apart ?ws" using sorted_apart_snd [of ?ws "v # zs @ us"] by simp
  moreover have "set ws = set (us @ v # zs)" unfolding u(1) [symmetric] ws by auto
  then have "\<forall>x \<in> set (us @ v # zs). holds s x" using i by (simp add: isolated_def)
  moreover from this have "holds s (awake q, snd v)" using u(3) by (cases v) (simp add: awake_def del: holds.simps)
  ultimately have "isolated (s\<lparr>PROCESS_LIST := Some pl\<rparr>) ?ws" using i pl u by (auto simp: isolated_def simp del: holds.simps)
  then show ?thesis ..
qed

text \<open>A write inside a block of a process that is not one of its tables.\<close>

lemma isolated_block_write:
  assumes i: "isolated s ws" and w: "(p, t, bs) \<in> set ws" and bb: "(j, l) \<in> set bs" and off: "off + length xs \<le> 4096 * l"
  shows "isolated (s\<lparr>memory := store_bytes (memory s) (page_addr s j + of_nat off) xs\<rparr>) ws" (is "isolated ?s ws")
proof -
  have h: "holds s (p, t, bs)" and inv: "page_inv s" using i w by (simp_all add: isolated_def del: holds.simps)
  have jb: "(j, l) \<in> blocks s" using held_blocks [OF h] bb by auto
  note st = block_store [OF inv jb off]
  have keep: "page_bytes ?s k = page_bytes s k" if "(k, 1) \<in> blocks s" "(k, 1) \<noteq> (j, l)" for k
    using st(4) [of k 1 k] that by simp
  have "holds ?s w'" if w': "w' \<in> set ws" for w'
  proof -
    have h': "holds s w'" using i w' by (simp add: isolated_def)
    show ?thesis
    proof (rule holds_cong [OF h'])
      show "held w' \<subseteq> blocks ?s" using held_blocks [OF h'] st(2) by simp
      fix k assume k: "(k, 1) \<in> table_blocks (fst (snd w'))"
      have "(k, 1) \<noteq> (j, l)"
      proof (cases "w' = (p, t, bs)")
        case True
        then show ?thesis using k bb h by (auto simp: owns_def)
      next
        case False
        have "apart w' (p, t, bs)"
          using i sorted_apart_mem [OF _ w' w False] by (simp add: isolated_def)
        then show ?thesis using table_held [OF k] bb by (auto simp: apart_def)
      qed
      then show "page_bytes ?s k = page_bytes s k" using keep held_blocks [OF h'] table_held [OF k] by blast
    qed (use st(1) in simp_all)
  qed
  then show ?thesis using i st(1) by (simp add: isolated_def)
qed

text \<open>A store of a process stays inside its own blocks.\<close>

lemma isolated_store:
  assumes i: "isolated s ws" and w: "w \<in> set ws" and v: "virt_to_phys (mmu_table (fst w)) va s = Some (Some a)"
  shows "isolated (s\<lparr>memory := store_bytes (memory s) a [x]\<rparr>) ws"
proof -
  obtain p t bs where pw: "w = (p, t, bs)" by (cases w)
  have h: "holds s w" and inv: "page_inv s" using i w by (simp_all add: isolated_def)
  obtain j l where b: "(j, l) \<in> set (user_blocks bs)" "in_block s (j, l) a" using holds_confined [OF h v] pw by auto
  then have bb: "(j, l) \<in> set bs" using user_blocks_subset by blast
  then have jb: "(j, l) \<in> blocks s" using held_blocks [OF h] pw by auto
  have geo: "page_geometry s" using inv by (simp add: page_inv_def)
  have jl: "j + l \<le> num_pages s" "0 < l" using pages.live_nonempty [OF jb] by simp_all
  define off where "off = unat a - unat (page_addr s j)"
  have u: "unat a = unat (page_addr s j) + off" "off < 4096 * l"
    using b(2) block_place(1) [OF geo jl] by (auto simp: in_block_def off_def distrib_left)
  have "unat (page_addr s j + of_nat off) = unat a" unfolding u(1)
    using u(2) block_place(2) [OF geo jl] by (intro unat_add_of_nat) simp
  then have a: "page_addr s j + of_nat off = a" by (simp add: word_unat_eq_iff)
  show ?thesis using isolated_block_write [OF i w [unfolded pw] bb, of off "[x]"] u(2) unfolding a by simp
qed

text \<open>The frame of a process: a block of its own, which no process reaches.\<close>

lemma frame_block:
  assumes "isolated s ws" "(p, t, bs) \<in> set ws"
  obtains jf lf where "(jf, lf) \<in> set bs" "frame p = page_addr s jf" "(jf, lf) \<notin> set (user_blocks bs)"
    "0 < lf" "unat (frame p) + 4096 * lf < 2 ^ 64" "unat (frame p) = unat (ALLOC_START s) + 4096 * jf"
proof -
  have h: "holds s (p, t, bs)" and inv: "page_inv s" using assms by (simp_all add: isolated_def del: holds.simps)
  then obtain js jf ls lf rest where f: "frame p = page_addr s jf" "bs = (js, ls) # (jf, lf) # rest" "distinct bs" "set bs \<subseteq> blocks s"
    by (auto simp: owns_def split: if_splits)
  then have jb: "(jf, lf) \<in> blocks s" by auto
  have jl: "jf + lf \<le> num_pages s" "0 < lf" using pages.live_nonempty [OF jb] by simp_all
  have "page_geometry s" using inv by (simp add: page_inv_def)
  note pl = block_place [OF this jl]
  show thesis using that [of jf lf] f jl pl by (auto simp: user_blocks_def)
qed

lemma frame_out_of_reach:
  assumes i: "isolated s ws" and w: "w \<in> set ws" "w' \<in> set ws" and v: "virt_to_phys (mmu_table (fst w)) va s = Some (Some a)"
  shows "\<not> in_region (frame (fst w')) 4096 a"
proof
  assume a: "in_region (frame (fst w')) 4096 a"
  obtain p t bs where w': "w' = (p, t, bs)" by (cases w')
  obtain jf lf where f: "(jf, lf) \<in> set bs" "(jf, lf) \<notin> set (user_blocks bs)" "0 < lf" "unat (frame p) + 4096 * lf < 2 ^ 64"
    "unat (frame p) = unat (ALLOC_START s) + 4096 * jf"
    using frame_block [OF i w(2) [unfolded w']] by blast
  have "unat (frame p) + 4096 \<le> unat (frame p) + 4096 * lf" using f(3) by simp
  then have "in_block s (jf, lf) a" using a f(4,5) w' by (auto simp: in_block_def in_region_iff distrib_left)
  moreover obtain b where b: "b \<in> set (user_blocks (snd (snd w)))" "in_block s b a"
    using holds_confined [OF _ v] i w(1) by (auto simp: isolated_def)
  moreover have h: "holds s w" "holds s w'" using i w by (simp_all add: isolated_def)
  have bh: "b \<in> held w" "(jf, lf) \<in> held w'" using b(1) f(1) user_blocks_subset w' by (cases w; auto)+
  ultimately have e: "b = (jf, lf)" using in_block_unique held_blocks [OF h(1)] held_blocks [OF h(2)] by blast
  show False
  proof (cases "w = w'")
    case True
    then show False using b(1) e f(2) w' by simp
  next
    case False
    then have "apart w w'" using i sorted_apart_mem [OF _ w] by (simp add: isolated_def)
    then show False using bh e by (auto simp: apart_def)
  qed
qed

section \<open>Every step keeps the processes isolated\<close>

lemma zalloc_null:
  assumes "page_inv s" "0 < n" "unat n \<le> num_pages s" "zalloc n s = Some (null_mut, s')" shows "s' = s"
proof (cases "find (free_run s (unat n)) [0..<num_pages s - unat n]")
  case (Some j)
  then have "j < num_pages s" by (auto simp: find_Some_iff)
  then have "page_addr s j \<noteq> null_mut" using assms(1) page_addr_nonzero [of s j] by (simp add: page_inv_def null_mut_def)
  then show ?thesis using zalloc_eq [OF assms(1-3)] Some assms(4) by auto
qed (use zalloc_eq [OF assms(1-3)] assms(4) in simp)

lemma isolated_step:
  assumes st: "proc_step E s s'" and i: "isolated s ws" and m: "machine_ok s"
  shows "(\<exists>ws'. isolated s' ws') \<and> machine_ok s'"
  using st
proof cases
  case (spawn p s0 ra fn pd)
  then show ?thesis using isolated_spawn [OF i _ _ _ _ _ m, of p s0 ra fn pd s'] by blast
next
  case (load fl ef n pl p s1)
  have pl: "pl = map fst ws" using load(4) i by (simp add: isolated_def)
  show ?thesis using isolated_load [OF i load(2,3) m load(5)] unfolding load(1) pl by blast
next
  case (delete pd)
  then show ?thesis using isolated_delete [OF i _ m] by blast
next
  case (switch now f)
  have pl: "PROCESS_LIST s = Some (map fst ws)" using i by (simp add: isolated_def)
  obtain got mx where l: "try_lock (PROCESS_LIST_MUTEX s) = Some (got, mx)" using switch by (auto simp: schedule_def split: bind_splits)
  show ?thesis
  proof (cases got)
    case True
    obtain pl' where p: "procfindloop now (map fst ws) = Some (f, pl')" "s' = s\<lparr>PROCESS_LIST := Some pl'\<rparr>\<lparr>PROCESS_LIST_MUTEX := unlock mx\<rparr>"
      using switch l pl True by (auto simp: schedule_def Let_def split: bind_splits)
    obtain ws' where "isolated (s\<lparr>PROCESS_LIST := Some pl'\<rparr>) ws'" using isolated_switch [OF i p(1)] by blast
    then have "isolated s' ws'" unfolding p(2) by (simp add: isolated_def del: holds.simps)
    then show ?thesis using m p(2) by (auto simp: machine_ok_def)
  next
    case False
    then have "s' = s\<lparr>PROCESS_LIST_MUTEX := mx\<rparr>" using switch l by (simp add: schedule_def Let_def)
    moreover have "isolated (s\<lparr>PROCESS_LIST_MUTEX := mx\<rparr>) ws" using i by (simp add: isolated_def del: holds.simps)
    ultimately show ?thesis using m by (auto simp: machine_ok_def)
  qed
next
  case (wake pd b)
  then obtain pl where u: "update_first (\<lambda>p. p_pid p = pd) (\<lambda>p. Some (p\<lparr>pstate := Running\<rparr>)) (map fst ws) = Some (b, pl)" "s' = s\<lparr>PROCESS_LIST := Some pl\<rparr>"
    using i by (auto simp: set_running_def isolated_def split: bind_splits)
  have "\<exists>ws'. isolated s' ws'" unfolding u(2) by (rule isolated_update_first [OF i u(1)]) (auto simp del: holds.simps)
  then show ?thesis using m u(2) by (simp add: machine_ok_def)
next
  case (await pd b)
  then obtain pl where u: "update_first (\<lambda>p. p_pid p = pd) (\<lambda>p. Some (p\<lparr>pstate := Waiting\<rparr>)) (map fst ws) = Some (b, pl)" "s' = s\<lparr>PROCESS_LIST := Some pl\<rparr>"
    using i by (auto simp: set_waiting_def isolated_def split: bind_splits)
  have "\<exists>ws'. isolated s' ws'" unfolding u(2) by (rule isolated_update_first [OF i u(1)]) (auto simp del: holds.simps)
  then show ?thesis using m u(2) by (simp add: machine_ok_def)
next
  case (sleep now pd dur b)
  then obtain pl where u: "update_first (\<lambda>p. p_pid p = pd) (\<lambda>p. do { t \<leftarrow> uadd now dur; Some (p\<lparr>pstate := Sleeping, sleep_until := t\<rparr>) }) (map fst ws) = Some (b, pl)"
    "s' = s\<lparr>PROCESS_LIST := Some pl\<rparr>"
    using i by (auto simp: set_sleeping_def isolated_def split: bind_splits)
  have "\<exists>ws'. isolated s' ws'"
    unfolding u(2) by (rule isolated_update_first [OF i u(1)]) (auto simp del: holds.simps split: bind_splits)
  then show ?thesis using m u(2) by (simp add: machine_ok_def)
next
  case (take_pages k a)
  have inv: "page_inv s" using i by (simp add: isolated_def)
  obtain mm where mm: "s' = s\<lparr>memory := mm\<rparr>"
    using zalloc_total [OF inv take_pages(1,2)] take_pages(3) by (metis option.inject prod.inject)
  have "isolated s' ws"
  proof (cases "a = null_mut")
    case True
    then have "s' = s" using take_pages zalloc_null [OF inv take_pages(1,2)] by blast
    then show ?thesis using i by simp
  next
    case False
    obtain j where j: "page_inv s'" "blocks s' = insert (j, unat k) (blocks s)"
      "\<forall>i l. (i, l) \<in> blocks s \<longrightarrow> i + l \<le> j \<or> j + unat k \<le> i"
      "\<forall>i < num_pages s. page_bytes s' i = (if j \<le> i \<and> i < j + unat k then replicate 4096 0 else page_bytes s i)"
      by (rule zalloc_block [OF inv take_pages False])
    show ?thesis
    proof (rule isolated_grow [OF i j(1)])
      fix i l x assume x: "(i, l) \<in> blocks s" "i \<le> x" "x < i + l"
      have "i + l \<le> j \<or> j + unat k \<le> i" using j(3) x(1) by blast
      then have "x < num_pages s" "\<not> (j \<le> x \<and> x < j + unat k)" using pages.live_nonempty [OF x(1)] x(2,3) by auto
      then show "page_bytes s' x = page_bytes s x" using j(4) by auto
    qed (use mm j(2) in \<open>auto simp: page_addr_def fun_eq_iff\<close>)
  qed
  then show ?thesis using m mm by (auto simp: machine_ok_def)
next
  case (store pl p va a v)
  obtain w where w: "w \<in> set ws" "p = fst w" using store(2,3) i by (auto simp: isolated_def)
  show ?thesis using isolated_store [OF i w(1)] store(1,4) w(2) m by (auto simp: machine_ok_def)
qed

lemma isolated_reachable:
  assumes "(proc_step E)\<^sup>*\<^sup>* s s'" and "isolated s ws" and "machine_ok s"
  shows "\<exists>ws'. isolated s' ws'"
proof -
  have "(\<exists>ws'. isolated s' ws') \<and> machine_ok s'"
    using assms by (induction rule: rtranclp_induct) (blast intro: isolated_step [THEN conjunct1] isolated_step [THEN conjunct2])+
  then show ?thesis ..
qed

section \<open>Properties\<close>

text \<open>
  C1: processes are isolated from each other, as long as the loaded programs stay inside their program blocks. Start with an empty process
  list on a machine with at least 35 pages whose physical addresses lie below \<open>2 ^ 56\<close> (\<open>machine_ok\<close>). Let, in any order, kernel
  processes be created with all three allocations successful and pids left; programs be loaded successfully (\<open>can_load\<close>: the parser accepts
  the file, the segments fit, pages and pids are left) from files all of whose segments end before the end of the program block
  (\<open>segment_inside\<close>, which \<^verbatim>\<open>load_proc\<close> does not check itself and without which it maps foreign pages, see
  \<open>load_proc_maps_past_program\<close>); processes be scheduled, put to sleep, woken and deleted; the kernel take pages; and the processes store
  anything at any address that their page tables map. Then there is at every moment an assignment of blocks of pages and page tables to
  the processes of the list, each owning its own, such that an address that process \<open>i\<close> reaches through its page table lies in its stack or
  its program, hence in no block of another process, in no page table and in no frame.
\<close>
theorem process_isolation:
  assumes "page_inv s0" and "PROCESS_LIST s0 = Some []" and "machine_ok s0" and "(proc_step E)\<^sup>*\<^sup>* s0 s"
  shows "\<exists>ws. PROCESS_LIST s = Some (map fst ws) \<and> page_inv s
    \<and> (\<forall>w \<in> set ws. owns s (fst w) (fst (snd w)) (snd (snd w)))
    \<and> (\<forall>i < length ws. \<forall>k < length ws. i \<noteq> k \<longrightarrow> held (ws ! i) \<inter> held (ws ! k) = {})
    \<and> (\<forall>i < length ws. \<forall>va a. virt_to_phys (mmu_table (fst (ws ! i))) va s = Some (Some a) \<longrightarrow>
         (\<exists>b \<in> set (user_blocks (snd (snd (ws ! i)))). in_block s b a)
         \<and> (\<forall>k < length ws. \<forall>b \<in> held (ws ! k). in_block s b a \<longrightarrow> k = i \<and> b \<in> set (user_blocks (snd (snd (ws ! i))))))"
proof -
  have "isolated s0 []" using assms(1,2) by (simp add: isolated_def)
  then obtain ws where i: "isolated s ws" using isolated_reachable [OF assms(4) _ assms(3)] by blast
  have dis: "held (ws ! j) \<inter> held (ws ! k) = {}" if "j < length ws" "k < length ws" "j \<noteq> k" for j k
    using i that sorted_wrt_nth_less [of apart ws j k] sorted_wrt_nth_less [of apart ws k j] unfolding isolated_def apart_def
    by (metis Int_commute nat_neq_iff)
  have h: "holds s (ws ! j)" if "j < length ws" for j using i that by (simp add: isolated_def)
  show ?thesis
  proof (intro exI conjI allI impI ballI)
    show "owns s (fst w) (fst (snd w)) (snd (snd w))" if "w \<in> set ws" for w using i that by (cases w) (auto simp: isolated_def)
    fix j va a assume a: "j < length ws" "virt_to_phys (mmu_table (fst (ws ! j))) va s = Some (Some a)"
    show "\<exists>b \<in> set (user_blocks (snd (snd (ws ! j)))). in_block s b a" by (rule holds_confined [OF h [OF a(1)] a(2)])
    then obtain c where c: "c \<in> set (user_blocks (snd (snd (ws ! j))))" "in_block s c a" by blast
    have ch: "c \<in> held (ws ! j)" using c(1) user_blocks_subset by (cases "ws ! j") auto
    fix k b assume k: "k < length ws" "b \<in> held (ws ! k)" "in_block s b a"
    have "b = c" by (rule in_block_unique [OF _ _ k(3) c(2)]) (use held_blocks [OF h] a(1) k ch in blast)+
    then show "k = j" "b \<in> set (user_blocks (snd (snd (ws ! j))))" using dis [OF k(1) a(1)] k(2) ch c(1) by blast+
  qed (use i dis in \<open>simp_all add: isolated_def\<close>)
qed

theorem process_isolation_witness:
  "\<forall>E. \<exists>p s t bs. load_proc E example_elf example_user = Some (Inr p, s) \<and> owns (s\<lparr>PROCESS_LIST := Some [p]\<rparr>) p t bs
     \<and> (\<forall>va a. virt_to_phys (mmu_table p) va (s\<lparr>PROCESS_LIST := Some [p]\<rparr>) = Some (Some a) \<longrightarrow>
          (\<exists>b \<in> set (user_blocks bs). in_block (s\<lparr>PROCESS_LIST := Some [p]\<rparr>) b a))"
proof
  fix E :: "'d env"
  note b = example_user_basic
  obtain ef q where e: "ef_programs ef = [q]" "pr_header q = header_at example_elf 64 0" "can_load E example_elf example_user ef 2"
    by (rule example_elf_loads) (simp_all add: example_elf_facts)
  obtain p s where l: "load_proc E example_elf example_user = Some (Inr p, s)" by (rule can_load_loaded [OF e(3)])
  have "\<forall>q \<in> set (ef_programs ef). segment_inside (unat (2 :: usize)) q" by (simp add: e(1,2) segment_inside_def example_elf_facts)
  then have "proc_step E example_user (s\<lparr>PROCESS_LIST := Some ([] @ [p])\<rparr>)" by (rule proc_step.load [OF e(3) _ b(7) l])
  then have r: "(proc_step E)\<^sup>*\<^sup>* example_user (s\<lparr>PROCESS_LIST := Some [p]\<rparr>)" by simp
  have "machine_ok example_user" by (simp add: machine_ok_def b)
  from process_isolation [OF b(1,7) this r]
  obtain t bs where o: "owns (s\<lparr>PROCESS_LIST := Some [p]\<rparr>) p t bs"
    and c: "\<And>va a. virt_to_phys (mmu_table p) va (s\<lparr>PROCESS_LIST := Some [p]\<rparr>) = Some (Some a) \<Longrightarrow>
       \<exists>b \<in> set (user_blocks bs). in_block (s\<lparr>PROCESS_LIST := Some [p]\<rparr>) b a"
    by (auto simp del: holds.simps)
  show "\<exists>p s t bs. load_proc E example_elf example_user = Some (Inr p, s) \<and> owns (s\<lparr>PROCESS_LIST := Some [p]\<rparr>) p t bs
     \<and> (\<forall>va a. virt_to_phys (mmu_table p) va (s\<lparr>PROCESS_LIST := Some [p]\<rparr>) = Some (Some a) \<longrightarrow>
          (\<exists>b \<in> set (user_blocks bs). in_block (s\<lparr>PROCESS_LIST := Some [p]\<rparr>) b a))"
    using l o c by blast
qed

text \<open>
  The pages that the loader reserves do not always cover what it maps. \<^verbatim>\<open>load_proc\<close> reserves two pages more than the size of the
  segments, whatever their offset in the file, and maps one page more than a segment needs when its size is a multiple of the page size.
  For a file with a single segment that ends exactly at the end of the program block, the program reaches the page behind the block,
  whoever owns it: the bound on the segments that isolation relies on is needed.
\<close>
lemma load_proc_maps_past_program:
  assumes "can_load E fl s ef n" and "machine_ok s" and "ef_programs ef = [q]" and "below_stack (pr_header q)"
    and "4096 dvd unat (ph_memsz (pr_header q))" and "unat (ph_off (pr_header q)) + unat (ph_memsz (pr_header q)) = 4096 * unat n"
  shows "\<exists>p s' j a. load_proc E fl s = Some (Inr p, s') \<and> program p = page_addr s' j \<and> (j, unat n) \<in> blocks s'
    \<and> virt_to_phys (mmu_table p) (ph_vaddr (pr_header q) + ph_memsz (pr_header q)) s' = Some (Some a) \<and> in_block s' (j + unat n, 1) a"
proof -
  obtain p s' t jf js jp where l: "load_proc E fl s = Some (Inr p, s')" "loaded s ef (unat n) p s' t (jf, js, jp)"
    by (rule can_load_loaded [OF assms(1)])
  note d = loadedD [OF l(2)]
  let ?h = "pr_header q" let ?va = "ph_vaddr ?h + ph_memsz ?h"
  have geo: "page_geometry s'" using d(12) by (simp add: page_inv_def)
  have jn: "jp + unat n \<le> num_pages s'" "0 < unat n" using pages.live_nonempty [OF d(14)] by simp_all
  have up: "unat (program p) = unat (ALLOC_START s') + 4096 * jp" using block_place(1) [OF geo jn] d(6,13) by simp
  have lim: "unat (program p) + 4096 * unat n < 2 ^ 56" using up jn(1) assms(2) d(17,18) by (simp add: machine_ok_def)
  obtain c where c: "unat (ph_memsz ?h) = 4096 * c" using assms(5) by blast
  have bs: "unat (ph_vaddr ?h) + unat (ph_memsz ?h) + 4096 \<le> unat STACK_ADDR" using assms(4) by (simp add: below_stack_def)
  then have uva: "unat ?va = unat (ph_vaddr ?h) + 4096 * c" using c by (subst unat_add_no_wrap) (simp_all add: STACK_ADDR_def)
  have pg: "unat ?va div 4096 = first_page ?h + c" "segment_page_count ?h = c + 1"
    unfolding uva using c by (simp_all add: first_page_def segment_page_count_def)
  let ?pa = "program p + ph_off ?h + of_nat (4096 * c)"
  have "mapped_page (segment_map (program p) ?h [0..<segment_page_count ?h]) ?va = Some ?pa"
    using segment_map_page [OF assms(4), of ?va "program p"] pg uva bs c by (simp add: STACK_ADDR_def)
  moreover have "mapped_page (stack_map (stack p)) ?va = None" by (rule stack_map_page) (use uva bs c in simp)
  ultimately have v: "virt_to_phys (mmu_table p) ?va s' = Some (Some (in_page ?pa ?va))"
    using d(5) assms(3) by (simp add: address_space_def program_map_def mapped_page_append)
  have "unat (program p + ph_off ?h) = unat (program p) + unat (ph_off ?h)" using lim assms(6) by (intro unat_add_no_wrap) simp
  then have pa: "unat ?pa = unat (program p) + 4096 * unat n"
    using lim assms(6) c unat_add_of_nat [of "program p + ph_off ?h" "4096 * c"] by simp
  have "unat (in_page ?pa ?va) = 4096 * (unat ?pa div 4096) + unat ?va mod 4096" by (rule unat_in_page) (use pa lim in simp)
  moreover have "4096 * (unat ?pa div 4096) = unat ?pa" using pa up geo by (auto simp: page_geometry_def)
  moreover have "unat ?va mod 4096 < 4096" by simp
  ultimately have "in_block s' (jp + unat n, 1) (in_page ?pa ?va)" using pa up by (simp add: in_block_def distrib_left)
  then show ?thesis using l(1) d(6,13,14) v by (intro exI [of _ p] exI [of _ s'] exI [of _ jp]) auto
qed

end
