(* ===== verification/User_Heap.thy ===== *)
theory User_Heap
  imports Trap Isolation
begin

text \<open>
  The heap of a user process: the system call \<^verbatim>\<open>brk\<close> takes zeroed pages one by one and maps them from the
  old break on. What the address space looks like afterwards, that the processes stay isolated, and that the
  page in which the old break lies is replaced.
\<close>

section \<open>Pages one by one\<close>

definition page_blocks :: "nat list \<Rightarrow> (nat \<times> nat) set" where
  "page_blocks js = (\<lambda>j. (j, 1)) ` set js"

text \<open>The state after pages \<open>js\<close> have been taken and mapped, relative to the one before: the tree has grown, the pages are new and zero.\<close>

definition grown :: "'a page_st_scheme \<Rightarrow> tree \<Rightarrow> nat list \<Rightarrow> 'a page_st_scheme \<Rightarrow> tree \<Rightarrow> bool" where
  "grown s t js s' t' \<longleftrightarrow> (\<exists>m. s' = s\<lparr>memory := m\<rparr>) \<and> tree_ok s' t' \<and> t' Root = t Root
     \<and> blocks s' = blocks s \<union> page_blocks js \<union> table_blocks t' \<and> table_blocks t \<subseteq> table_blocks t'
     \<and> distinct js \<and> page_blocks js \<inter> (blocks s \<union> table_blocks t') = {} \<and> (table_blocks t' - table_blocks t) \<inter> blocks s = {}
     \<and> (\<forall>i l k. (i, l) \<in> blocks s - table_blocks t \<longrightarrow> i \<le> k \<longrightarrow> k < i + l \<longrightarrow> page_bytes s' k = page_bytes s k)
     \<and> (\<forall>j \<in> set js. page_bytes s' j = replicate 4096 0)
     \<and> card (free_pages s) \<le> card (free_pages s') + 3 * length js"

lemma grownD:
  assumes "grown s t js s' t'"
  shows "\<exists>m. s' = s\<lparr>memory := m\<rparr>" "tree_ok s' t'" "t' Root = t Root" "blocks s' = blocks s \<union> page_blocks js \<union> table_blocks t'"
    "table_blocks t \<subseteq> table_blocks t'" "distinct js" "page_blocks js \<inter> blocks s = {}" "page_blocks js \<inter> table_blocks t' = {}"
    "(table_blocks t' - table_blocks t) \<inter> blocks s = {}"
    "\<And>i l k. (i, l) \<in> blocks s - table_blocks t \<Longrightarrow> i \<le> k \<Longrightarrow> k < i + l \<Longrightarrow> page_bytes s' k = page_bytes s k"
    "\<And>j. j \<in> set js \<Longrightarrow> page_bytes s' j = replicate 4096 0" "card (free_pages s) \<le> card (free_pages s') + 3 * length js"
    "page_addr s' = page_addr s" "num_pages s' = num_pages s" "ALLOC_START s' = ALLOC_START s"
proof -
  note g = assms [unfolded grown_def]
  show e: "\<exists>m. s' = s\<lparr>memory := m\<rparr>" using g by (elim conjE)
  then show "page_addr s' = page_addr s" "num_pages s' = num_pages s" "ALLOC_START s' = ALLOC_START s" by auto
  show "page_blocks js \<inter> blocks s = {}" "page_blocks js \<inter> table_blocks t' = {}" using g by blast+
  show "tree_ok s' t'" using g by (elim conjE)
  show "t' Root = t Root" using g by (elim conjE)
  show "blocks s' = blocks s \<union> page_blocks js \<union> table_blocks t'" using g by (elim conjE)
  show "table_blocks t \<subseteq> table_blocks t'" using g by (elim conjE)
  show "distinct js" using g by (elim conjE)
  show "(table_blocks t' - table_blocks t) \<inter> blocks s = {}" using g by (elim conjE)
  show "card (free_pages s) \<le> card (free_pages s') + 3 * length js" using g by (elim conjE)
  show "page_bytes s' k = page_bytes s k" if "(i, l) \<in> blocks s - table_blocks t" "i \<le> k" "k < i + l" for i l k using g that by (elim conjE) blast
  show "page_bytes s' j = replicate 4096 0" if "j \<in> set js" for j using g that by (elim conjE) blast
qed

lemma page_blocks_simps [simp]: "page_blocks [] = {}" "page_blocks (j # js) = insert (j, 1) (page_blocks js)" "page_blocks (js @ ks) = page_blocks js \<union> page_blocks ks"
  by (auto simp: page_blocks_def)

lemma page_blocks_mem: "(j, 1) \<in> page_blocks js \<longleftrightarrow> j \<in> set js"
  by (auto simp: page_blocks_def)

lemma grown_refl: "tree_ok s t \<Longrightarrow> grown s t [] s t"
  using table_blocks_sub_blocks [of s t] by (auto simp: grown_def intro: exI [of _ "memory s"])

lemma grown_trans:
  assumes a: "grown s t js s1 t1" and b: "grown s1 t1 ks s2 t2"
  shows "grown s t (js @ ks) s2 t2"
proof -
  note d = grownD [OF a] and e = grownD [OF b]
  have jb: "page_blocks js \<subseteq> blocks s1 - table_blocks t1" using d(4,8) by blast
  have live: "blocks s - table_blocks t \<subseteq> blocks s1 - table_blocks t1" using d(4,9) by blast
  show ?thesis
    unfolding grown_def
  proof (intro conjI allI impI ballI)
    show "\<exists>m. s2 = s\<lparr>memory := m\<rparr>" using d(1) e(1) by auto
    show "blocks s2 = blocks s \<union> page_blocks (js @ ks) \<union> table_blocks t2" using d(4) e(4,5) by auto
    show "page_blocks (js @ ks) \<inter> (blocks s \<union> table_blocks t2) = {}" using d(4,7) e(7,8,9) jb by auto
    show "distinct (js @ ks)" using d(4,6) e(6,7) by (auto simp: page_blocks_def)
    show "(table_blocks t2 - table_blocks t) \<inter> blocks s = {}" using d(4,9) e(9) by blast
    show "page_bytes s2 k = page_bytes s k" if "(i, l) \<in> blocks s - table_blocks t" "i \<le> k" "k < i + l" for i l k
      using d(10) [OF that] e(10) [of i l k] live that by auto
    show "page_bytes s2 j = replicate 4096 0" if "j \<in> set (js @ ks)" for j
    proof (cases "j \<in> set ks")
      case False
      then have j: "j \<in> set js" using that by simp
      then have "(j, 1) \<in> blocks s1 - table_blocks t1" using jb page_blocks_mem by blast
      then show ?thesis using e(10) [of j 1 j] d(11) [OF j] by simp
    qed (rule e(11))
    show "card (free_pages s) \<le> card (free_pages s2) + 3 * length (js @ ks)" using d(12) e(12) by simp
  qed (use d(3,5) e(2,3,5) in auto)
qed

lemma UserReadWrite_ok: "EntryBits_val UserReadWrite AND 0xe \<noteq> 0" "unat (EntryBits_val UserReadWrite) < 1024"
  by (simp_all add: EntryBits_val.simps)

lemma grow_page_spec:
  assumes ok: "tree_ok s t" "t Root = Some r" and mem: "3 \<le> card (free_pages s)" and va: "uadd brk0 (push_bit 12 (of_nat i)) = Some va"
  obtains j s' t' where "grow_page (page_addr s r) brk0 i (pgs, s) = Some (pgs @ [page_addr s j], s')" "grown s t [j] s' t'"
    "\<And>x. virt_to_phys (page_addr s r) x s' = (if vpns x = vpns va then Some (Some (in_page (page_addr s j) x)) else virt_to_phys (page_addr s r) x s)"
proof -
  note inv = tree_okD(1) [OF ok(1)]
  obtain i0 where "i0 \<in> free_pages s" using mem by (cases "free_pages s = {}") auto
  then obtain j s1 where z: "zalloc 1 s = Some (page_addr s j, s1)" "j < num_pages s" "(j, 1) \<notin> blocks s" "page_inv s1"
    "blocks s1 = insert (j, 1) (blocks s)" "num_pages s1 = num_pages s" "page_addr s1 = page_addr s"
    "\<forall>i < num_pages s. page_bytes s1 i = (if i = j then replicate 4096 0 else page_bytes s i)"
    "card (free_pages s) \<le> card (free_pages s1) + 1" "\<exists>m. s1 = s\<lparr>memory := m\<rparr>"
    by (rule zalloc_one [OF inv])
  have keep: "page_bytes s1 k = page_bytes s k" if "(a, l) \<in> blocks s" "a \<le> k" "k < a + l" for a l k
  proof -
    have "(a, l) \<in> blocks s1" "(j, 1) \<in> blocks s1" "(a, l) \<noteq> (j, 1)" using that(1) z(3,5) by auto
    then have "k \<noteq> j" using pages.live_apart [of a l s1 j 1] that by auto
    then show ?thesis using z(8) pages.live_nonempty [OF that(1)] that by auto
  qed
  have tab: "(k, 1) \<in> blocks s1 \<and> page_bytes s1 k = page_bytes s k" if "t p = Some k" for p k
    using tree_okD(4) [OF ok(1) that] keep [of k 1 k] z(5) by simp
  have t1: "tree_ok s1 t" by (rule virt_to_phys_cong(1) [OF ok z(4,7)]) (rule tab)
  have v1: "virt_to_phys (page_addr s r) x s1 = virt_to_phys (page_addr s r) x s" for x
    by (rule virt_to_phys_cong(2) [OF ok z(4,7)]) (rule tab)
  have two: "2 \<le> card (free_pages s1)" using mem z(9) by simp
  obtain s2 t2 where m: "map_page (page_addr s1 r) va (page_addr s j) (EntryBits_val UserReadWrite) 0 s1 = Some s2" "tree_ok s2 t2" "t2 Root = Some r"
    "page_addr s2 = page_addr s1"
    "\<forall>i k n. n < 512 \<longrightarrow> leaf_of s2 t2 i k n = (if (i, k, n) = vpns va then leaf_entry (page_addr s j) (EntryBits_val UserReadWrite) else leaf_of s1 t i k n)"
    "tree_grows s1 t s2 t2" "card (free_pages s1) \<le> card (free_pages s2) + 2"
    using map_page_tree [OF t1 ok(2) UserReadWrite_ok(1) two] by blast
  note g = m(6) [unfolded tree_grows_def]
  have jt: "(j, 1) \<notin> table_blocks t" using table_blocks_sub_blocks [OF ok(1)] z(3) by blast
  have gr: "grown s t [j] s2 t2"
    unfolding grown_def
  proof (intro conjI allI impI ballI)
    show "\<exists>m. s2 = s\<lparr>memory := m\<rparr>" using g z(10) by auto
    show "blocks s2 = blocks s \<union> page_blocks [j] \<union> table_blocks t2" using g z(5) by auto
    show "table_blocks t \<subseteq> table_blocks t2" using g by (elim conjE)
    show "page_blocks [j] \<inter> (blocks s \<union> table_blocks t2) = {}" using g z(3,5) jt by auto
    show "(table_blocks t2 - table_blocks t) \<inter> blocks s = {}" using g z(5) by blast
    show "page_bytes s2 k = page_bytes s k" if "(a, l) \<in> blocks s - table_blocks t" "a \<le> k" "k < a + l" for a l k
    proof -
      have "(a, l) \<in> blocks s1 - table_blocks t" using that(1) z(5) by blast
      then have "page_bytes s2 k = page_bytes s1 k" using g that(2,3) by blast
      then show ?thesis using keep [of a l k] that by simp
    qed
    show "page_bytes s2 k = replicate 4096 0" if "k \<in> set [j]" for k
    proof -
      have "(j, 1) \<in> blocks s1 - table_blocks t" using z(5) jt by blast
      then have "page_bytes s2 j = page_bytes s1 j" using g by (metis less_add_one order_refl)
      then show ?thesis using z(2,8) that by simp
    qed
    show "card (free_pages s) \<le> card (free_pages s2) + 3 * length [j]" using z(9) m(7) by simp
  qed (use m(2,3) ok(2) in simp_all)
  have gp: "grow_page (page_addr s r) brk0 i (pgs, s) = Some (pgs @ [page_addr s j], s2)"
    using z(1,7) va m(1) by (simp add: grow_page_def)
  have vp: "virt_to_phys (page_addr s r) x s2 = (if vpns x = vpns va then Some (Some (in_page (page_addr s j) x)) else virt_to_phys (page_addr s r) x s)" for x
    using leaves_translate [OF t1 ok(2) m(2-5) UserReadWrite_ok(2), of x] v1 [of x] z(7) by (simp add: in_page_def)
  show ?thesis by (rule that [OF gp gr vp])
qed

section \<open>The loop of brk\<close>

definition heap_map :: "usize \<Rightarrow> usize list \<Rightarrow> page_map" where
  "heap_map brk0 as = map (\<lambda>i. (brk0 + of_nat (4096 * i), as ! i, EntryBits_val UserReadWrite)) [0..<length as]"

lemma heap_map_snoc: "heap_map brk0 (as @ [a]) = heap_map brk0 as @ [(brk0 + of_nat (4096 * length as), a, EntryBits_val UserReadWrite)]"
  by (simp add: heap_map_def nth_append)

lemma grow_loop:
  assumes ok: "tree_ok s t" "t Root = Some r" and mem: "3 * n \<le> card (free_pages s)" and top: "unat brk0 + 4096 * n < 2 ^ 64"
  shows "\<exists>js s' t'. for_each (grow_page (page_addr s r) brk0) [0..<n] (pgs, s) = Some (pgs @ map (page_addr s) js, s') \<and> length js = n \<and> grown s t js s' t'
    \<and> (\<forall>x. virt_to_phys (page_addr s r) x s' =
         (case mapped_page (heap_map brk0 (map (page_addr s) js)) x of Some pa \<Rightarrow> Some (Some (in_page pa x)) | None \<Rightarrow> virt_to_phys (page_addr s r) x s))"
proof -
  let ?P = "\<lambda>k (ps, s'). \<exists>js t'. ps = pgs @ map (page_addr s) js \<and> length js = k \<and> grown s t js s' t'
    \<and> (\<forall>x. virt_to_phys (page_addr s r) x s' =
         (case mapped_page (heap_map brk0 (map (page_addr s) js)) x of Some pa \<Rightarrow> Some (Some (in_page pa x)) | None \<Rightarrow> virt_to_phys (page_addr s r) x s))"
  have "\<exists>q. for_each (grow_page (page_addr s r) brk0) [0..<n] (pgs, s) = Some q \<and> ?P n q"
  proof (rule for_each_upt_invariant)
    show "?P 0 (pgs, s)" using grown_refl [OF ok(1)] by (auto simp: heap_map_def)
    fix k q assume k: "k < n" and q: "?P k q"
    obtain ps s1 where qe: "q = (ps, s1)" by (cases q)
    obtain js t1 where j: "ps = pgs @ map (page_addr s) js" "length js = k" "grown s t js s1 t1"
      "\<forall>x. virt_to_phys (page_addr s r) x s1 =
         (case mapped_page (heap_map brk0 (map (page_addr s) js)) x of Some pa \<Rightarrow> Some (Some (in_page pa x)) | None \<Rightarrow> virt_to_phys (page_addr s r) x s)"
      using q qe by auto
    note d = grownD [OF j(3)]
    have m: "3 \<le> card (free_pages s1)" using mem d(12) j(2) k by simp
    have u: "unat (of_nat k :: usize) = k" "unat (of_nat (4096 * k) :: usize) = 4096 * k" by (rule unat_disp, use k top in linarith)+
    have "push_bit 12 (of_nat k :: usize) = of_nat (4096 * k)" by (simp add: push_bit_eq_mult mult.commute)
    then have va: "uadd brk0 (push_bit 12 (of_nat k)) = Some (brk0 + of_nat (4096 * k))" using u k top by (simp add: uadd_def)
    obtain j' s2 t2 where st: "grow_page (page_addr s1 r) brk0 k (ps, s1) = Some (ps @ [page_addr s1 j'], s2)" "grown s1 t1 [j'] s2 t2"
      "\<And>x. virt_to_phys (page_addr s1 r) x s2 = (if vpns x = vpns (brk0 + of_nat (4096 * k)) then Some (Some (in_page (page_addr s1 j') x)) else virt_to_phys (page_addr s1 r) x s1)"
      using grow_page_spec [OF d(2) _ m va] d(3) ok(2) by metis
    have "virt_to_phys (page_addr s r) x s2 =
        (case mapped_page (heap_map brk0 (map (page_addr s) (js @ [j']))) x of Some pa \<Rightarrow> Some (Some (in_page pa x)) | None \<Rightarrow> virt_to_phys (page_addr s r) x s)" for x
      using st(3) [of x] j(2,4) by (simp add: d(13) heap_map_snoc mapped_page_append)
    then have "?P (Suc k) (ps @ [page_addr s1 j'], s2)"
      using j(1,2) grown_trans [OF j(3) st(2)] d(13) by (auto intro!: exI [of _ "js @ [j']"])
    then show "\<exists>q'. grow_page (page_addr s r) brk0 k q = Some q' \<and> ?P (Suc k) q'" using st(1) d(13) qe by auto
  qed simp
  then show ?thesis by auto
qed

section \<open>The system call\<close>

lemma frame_write_keeps:
  assumes ok: "tree_ok s t" "t Root = Some r" and jf: "(jf, l) \<in> blocks s - table_blocks t" and f: "f = page_addr s jf"
  shows "page_inv (set_reg rg f v s)" "blocks (set_reg rg f v s) = blocks s" "tree_ok (set_reg rg f v s) t"
    "\<And>k. k < num_pages s \<Longrightarrow> k \<noteq> jf \<Longrightarrow> page_bytes (set_reg rg f v s) k = page_bytes s k"
    "virt_to_phys (page_addr s r) x (set_reg rg f v s) = virt_to_phys (page_addr s r) x s"
proof -
  note inv = tree_okD(1) [OF ok(1)]
  have geo: "page_geometry s" using inv by (simp add: page_inv_def)
  have j: "jf < num_pages s" "0 < l" using pages.live_nonempty [of jf l s] jf by auto
  have g: "gp rg < 512" using gp_less [of rg] by simp
  have e: "set_reg rg f v s = put_slot jf (gp rg) v s" by (simp add: set_reg_def put_slot_def f frame_slots)
  show i: "page_inv (set_reg rg f v s)" "blocks (set_reg rg f v s) = blocks s" unfolding e using put_slot_pages [OF inv j(1) g] by simp_all
  show pb: "page_bytes (set_reg rg f v s) k = page_bytes s k" if "k < num_pages s" "k \<noteq> jf" for k
    unfolding e by (rule page_bytes_put_slot [OF geo j(1) g that])
  have tab: "(k, 1) \<in> blocks (set_reg rg f v s) \<and> page_bytes (set_reg rg f v s) k = page_bytes s k" if "t q = Some k" for q k
  proof -
    have k: "(k, 1) \<in> blocks s" "(k, 1) \<in> table_blocks t" using tree_okD(4) [OF ok(1) that] that by (auto simp: table_blocks_def)
    then have "k \<noteq> jf" using pages.live_apart [of k 1 s jf l] jf j(2) by auto
    then show ?thesis using pb i(2) k(1) pages.live_nonempty [OF k(1)] by simp
  qed
  have ad: "page_addr (set_reg rg f v s) = page_addr s" by (simp add: e)
  show "tree_ok (set_reg rg f v s) t" by (rule virt_to_phys_cong(1) [OF ok i(1) ad]) (rule tab)
  show "virt_to_phys (page_addr s r) x (set_reg rg f v s) = virt_to_phys (page_addr s r) x s"
    by (rule virt_to_phys_cong(2) [OF ok i(1) ad]) (rule tab)
qed

lemma put_proc_keeps [simp]:
  "page_inv (put_proc i p s) = page_inv s" "blocks (put_proc i p s) = blocks s" "page_bytes (put_proc i p s) = page_bytes s"
  "page_addr (put_proc i p s) = page_addr s" "num_pages (put_proc i p s) = num_pages s" "tree_ok (put_proc i p s) t = tree_ok s t"
  "virt_to_phys root x (put_proc i p s) = virt_to_phys root x s" "ALLOC_START (put_proc i p s) = ALLOC_START s"
  by (simp_all add: put_proc_def virt_to_phys_def)

text \<open>The process after the call, and what the call leaves.\<close>

definition new_heap :: "usize \<Rightarrow> usize list \<Rightarrow> Process \<Rightarrow> Process" where
  "new_heap addr as p = p\<lparr>pdata := (pdata p)\<lparr>pages := pages (pdata p) @ as\<rparr>, brk := addr\<rparr>"

definition heap_pages :: "usize \<Rightarrow> Process \<Rightarrow> nat" where
  "heap_pages addr p = (unat addr + 4096 - unat (brk p)) div 4096"

lemma sys_brk_grows:
  assumes c: "caller f s = Some (i, p)" and on: "mmu_on f s" and a: "a = reg_of A0 f s" "brk p < a" "unat a + 4096 < 2 ^ 64"
    and ow: "owns s p t bs" and f: "frame p = f" and mem: "3 * heap_pages a p \<le> card (free_pages s)"
  obtains js s1 t1 where "sys_brk f s = Some (set_reg A0 f a (put_proc i (new_heap a (map (page_addr s) js) p) s1))"
    "grown s t js s1 t1" "length js = heap_pages a p"
    "\<forall>x. virt_to_phys (mmu_table p) x s1 =
       (case mapped_page (heap_map (brk p) (map (page_addr s) js)) x of Some pa \<Rightarrow> Some (Some (in_page pa x)) | None \<Rightarrow> virt_to_phys (mmu_table p) x s)"
proof -
  obtain r where r: "tree_ok s t" "t Root = Some r" "mmu_table p = page_addr s r" using ow unfolding owns_def by blast
  have lt: "unat (brk p) < unat a" using a(2) by (simp add: word_less_nat_alt)
  have room: "uadd a PAGE_SIZE = Some (a + 4096)" "unat (a + 4096) = unat a + 4096"
    using a(3) unat_add_no_wrap [of a 4096] by (simp_all add: uadd_def PAGE_SIZE_def)
  have ra: "usub (a + 4096) (brk p) = Some (a + 4096 - brk p)" "unat (a + 4096 - brk p) = unat a + 4096 - unat (brk p)"
    using room(2) lt unat_sub [of "brk p" "a + 4096"] by (simp_all add: usub_def word_le_nat_alt)
  have n: "unat ((a + 4096 - brk p) div PAGE_SIZE) = heap_pages a p" by (simp add: unat_div ra(2) PAGE_SIZE_def heap_pages_def)
  have "4096 * heap_pages a p \<le> unat a + 4096 - unat (brk p)" by (simp add: heap_pages_def)
  then have top: "unat (brk p) + 4096 * heap_pages a p < 2 ^ 64" using a(3) lt by simp
  have tb: "table_of p = Some (page_addr s r)"
    using r(3) page_addr_nonzero [OF tree_okD(2) [OF r(1)] tree_okD(5) [OF r(1,2)]] by (simp add: table_of_def null_mut_def)
  obtain js s1 t1 where g: "for_each (grow_page (page_addr s r) (brk p)) [0..<heap_pages a p] (pages (pdata p), s) = Some (pages (pdata p) @ map (page_addr s) js, s1)"
    "length js = heap_pages a p" "grown s t js s1 t1"
    "\<forall>x. virt_to_phys (page_addr s r) x s1 =
       (case mapped_page (heap_map (brk p) (map (page_addr s) js)) x of Some pa \<Rightarrow> Some (Some (in_page pa x)) | None \<Rightarrow> virt_to_phys (page_addr s r) x s)"
    using grow_loop [OF r(1,2) mem top] by blast
  have sb: "sys_brk f s = Some (set_reg A0 f a (put_proc i (new_heap a (map (page_addr s) js) p) s1))"
    using c on a(1,2) room(1) ra(1) n tb g(1) by (simp add: sys_brk_def new_heap_def Let_def)
  show ?thesis by (rule that [OF sb g(3,2)]) (unfold r(3), rule g(4))
qed

text \<open>The final state: the frame is written, nothing else changes.\<close>

lemma sys_brk_final:
  fixes a :: usize and i :: nat and q :: Process
  assumes ow: "owns s p t bs" and f: "frame p = f" and g: "grown s t js s1 t1"
  defines "s' \<equiv> set_reg A0 f a (put_proc i q s1)"
  shows "page_inv s'" "blocks s' = blocks s1" "tree_ok s' t1" "virt_to_phys (mmu_table p) x s' = virt_to_phys (mmu_table p) x s1"
    "\<And>k b l. (b, l) \<in> blocks s1 \<Longrightarrow> (b, l) \<noteq> bs ! 1 \<Longrightarrow> b \<le> k \<Longrightarrow> k < b + l \<Longrightarrow> page_bytes s' k = page_bytes s1 k"
    "page_addr s' = page_addr s" "ALLOC_START s' = ALLOC_START s" "num_pages s' = num_pages s"
proof -
  note d = grownD [OF g]
  obtain r where r: "t Root = Some r" "mmu_table p = page_addr s r" using ow unfolding owns_def by blast
  obtain jf lf where j: "bs ! 1 = (jf, lf)" "frame p = page_addr s jf" "(jf, lf) \<in> set bs"
    using ow unfolding owns_def by (auto split: if_splits)
  have "set bs \<subseteq> blocks s" "set bs \<inter> table_blocks t = {}" using ow by (simp_all add: owns_def)
  then have jb: "(jf, lf) \<in> blocks s1 - table_blocks t1" using j(3) d(4,9) by blast
  have ok: "tree_ok (put_proc i q s1) t1" "t1 Root = Some r" using d(2,3) r(1) by simp_all
  have fa: "f = page_addr (put_proc i q s1) jf" using f j(2) d(13) by simp
  note w = frame_write_keeps [where rg = A0 and v = a, OF ok _ fa, of lf]
  show inv: "page_inv s'" "tree_ok s' t1" unfolding s'_def using w(1,3) jb by simp_all
  show "blocks s' = blocks s1" unfolding s'_def using w(2) jb by simp
  show "virt_to_phys (mmu_table p) x s' = virt_to_phys (mmu_table p) x s1" unfolding s'_def using w(5) [of x] jb r(2) d(13) by simp
  show "page_bytes s' k = page_bytes s1 k" if "(b, l) \<in> blocks s1" "(b, l) \<noteq> bs ! 1" "b \<le> k" "k < b + l" for k b l
  proof -
    have "k \<noteq> jf" using pages.live_apart [of b l s1 jf lf] pages.live_nonempty [of jf lf s1] jb that j(1) by auto
    then show ?thesis unfolding s'_def using w(4) [of k] jb pages.live_nonempty [OF that(1)] that(4) by simp
  qed
  show "page_addr s' = page_addr s" "ALLOC_START s' = ALLOC_START s" "num_pages s' = num_pages s"
    using d(13-15) by (simp_all add: s'_def set_reg_def)
qed

section \<open>The processes stay isolated\<close>

lemma isolated_replace:
  assumes i: "isolated s ws" and k: "k < length ws" and s': "page_inv s'" "PROCESS_LIST s' = Some ((map fst ws)[k := fst w])"
    and w: "holds s' w" "held w \<subseteq> held (ws ! k) \<union> N" "N \<inter> blocks s = {}"
    and o: "\<And>v. v \<in> set ws \<Longrightarrow> apart v (ws ! k) \<Longrightarrow> holds s' v"
  shows "isolated s' (ws[k := w])"
proof -
  have srt: "sorted_wrt apart ws" using i by (simp add: isolated_def)
  have ak: "apart (ws ! j) (ws ! k)" if "j < length ws" "j \<noteq> k" for j
    using srt that k by (metis apart_sym nat_neq_iff sorted_wrt_nth_less)
  have new: "apart (ws ! j) w" if "j < length ws" "j \<noteq> k" for j
  proof -
    have "held (ws ! j) \<subseteq> blocks s" using i that by (intro held_blocks) (simp add: isolated_def)
    then show ?thesis using ak [OF that] w(2,3) unfolding apart_def by blast
  qed
  have "sorted_wrt apart (ws[k := w])"
    unfolding sorted_wrt_iff_nth_less
  proof (intro allI impI)
    fix a b assume ab: "a < b" "b < length (ws[k := w])"
    have "apart w (ws ! b)" if "a = k" using new [of b] ab that apart_sym [of w] by simp
    then show "apart (ws[k := w] ! a) (ws[k := w] ! b)"
      using new [of a] ab sorted_wrt_nth_less [OF srt ab(1)] k by (cases "a = k"; cases "b = k") simp_all
  qed
  moreover have "holds s' v" if "v \<in> set (ws[k := w])" for v
  proof -
    obtain j where j: "j < length ws" "v = ws[k := w] ! j" using \<open>v \<in> set (ws[k := w])\<close> by (auto simp: in_set_conv_nth)
    show ?thesis using j w(1) o [of "ws ! j"] ak [of j] by (cases "j = k") auto
  qed
  ultimately show ?thesis using s' by (simp add: isolated_def map_update)
qed

lemma owns_more_pages:
  assumes ow: "owns s p t bs" and s': "tree_ok s' t1" "t1 Root = t Root" "page_addr s' = page_addr s"
    and b: "set bs \<subseteq> blocks s'" "page_blocks js \<subseteq> blocks s'" "distinct js" "page_blocks js \<inter> set bs = {}" "(page_blocks js \<union> set bs) \<inter> table_blocks t1 = {}"
  obtains bs' where "owns s' (new_heap a (map (page_addr s) js) p) t1 bs'" "set bs' = set bs \<union> page_blocks js"
    "set (user_blocks bs') = set (user_blocks bs) \<union> page_blocks js"
proof -
  let ?new = "map (\<lambda>j. (j, 1 :: nat)) js"
  have nw: "set ?new = page_blocks js" "distinct ?new" "map (page_addr s \<circ> fst) ?new = map (page_addr s) js"
    using b(3) by (auto simp: page_blocks_def distinct_map inj_on_def)
  obtain r ks kf ls lf qs where o: "t Root = Some r" "mmu_table p = page_addr s r" "distinct bs" "stack p = page_addr s ks" "frame p = page_addr s kf"
      "pages (pdata p) = map (page_addr s \<circ> fst) qs"
    and pr: "if program p = null_mut then bs = (ks, ls) # (kf, lf) # qs
             else \<exists>jp lp. program p = page_addr s jp \<and> bs = (ks, ls) # (kf, lf) # qs @ [(jp, lp)]"
    using ow unfolding owns_def by blast
  define rest where "rest = (if program p = null_mut then [] else drop (2 + length qs) bs)"
  have bl: "bs = (ks, ls) # (kf, lf) # qs @ rest" using pr by (auto simp: rest_def split: if_splits)
  let ?bs = "(ks, ls) # (kf, lf) # (qs @ ?new) @ rest"
  have st: "set ?bs = set bs \<union> page_blocks js" "set (user_blocks ?bs) = set (user_blocks bs) \<union> page_blocks js"
    using nw(1) bl by (auto simp: user_blocks_def)
  have ds: "distinct ?bs" using o(3) nw b(4) unfolding bl by auto
  have pr': "if program p = null_mut then ?bs = (ks, ls) # (kf, lf) # (qs @ ?new)
      else \<exists>jp lp. program p = page_addr s jp \<and> ?bs = (ks, ls) # (kf, lf) # (qs @ ?new) @ [(jp, lp)]"
    using pr by (auto simp: rest_def split: if_splits)
  have pg: "pages (pdata (new_heap a (map (page_addr s) js) p)) = map (page_addr s \<circ> fst) (qs @ ?new)"
    using o(6) nw(3) by (simp add: new_heap_def)
  have fl: "mmu_table (new_heap a (map (page_addr s) js) p) = mmu_table p" "stack (new_heap a (map (page_addr s) js) p) = stack p"
    "frame (new_heap a (map (page_addr s) js) p) = frame p" "program (new_heap a (map (page_addr s) js) p) = program p" by (simp_all add: new_heap_def)
  have "owns s' (new_heap a (map (page_addr s) js) p) t1 ?bs"
    unfolding owns_def s'(3) fl pg
  proof (intro conjI)
    show "\<exists>r. t1 Root = Some r \<and> mmu_table p = page_addr s r" using o(1,2) s'(2) by auto
    show "set ?bs \<subseteq> blocks s'" "set ?bs \<inter> table_blocks t1 = {}" unfolding st(1) using b(1,2,5) by blast+
    show "\<exists>js' jf ls lf qs'. stack p = page_addr s js' \<and> frame p = page_addr s jf \<and> map (page_addr s \<circ> fst) (qs @ ?new) = map (page_addr s \<circ> fst) qs'
      \<and> (if program p = null_mut then ?bs = (js', ls) # (jf, lf) # qs'
          else \<exists>jp lp. program p = page_addr s jp \<and> ?bs = (js', ls) # (jf, lf) # qs' @ [(jp, lp)])"
      by (intro exI [of _ ks] exI [of _ kf] exI [of _ ls] exI [of _ lf] exI [of _ "qs @ ?new"] conjI o(4,5) refl pr')
  qed (rule s'(1), rule ds)
  then show ?thesis using that st by blast
qed

lemma mapped_page_head: "vpns x = vpns v \<Longrightarrow> \<exists>pa. mapped_page ((v, p, b) # ms) x = Some pa"
  by (cases "mapped_page ms x") auto

lemma heap_map_mem: "mapped_page (heap_map brk0 (map (page_addr s) js)) x = Some pa \<Longrightarrow> \<exists>j \<in> set js. pa = page_addr s j"
  using mapped_page_mem by (fastforce simp: heap_map_def)

lemma in_page_of_page:
  assumes geo: "page_geometry s" and m: "machine_ok s" and j: "j < num_pages s"
  shows "in_block s (j, 1) (in_page (page_addr s j) x)" "in_page (page_addr s j) x = page_addr s j + of_nat (unat x mod 4096)"
proof -
  have u: "unat (page_addr s j) = unat (ALLOC_START s) + 4096 * j" by (rule page_addr_checked(3) [OF geo j])
  have t: "unat (ALLOC_START s) + 4096 * num_pages s < 2 ^ 56" using m by (simp add: machine_ok_def)
  show "in_block s (j, 1) (in_page (page_addr s j) x)" by (rule in_page_block [OF geo _ t, of j 1 _ 0]) (use j u in simp_all)
  have "4096 * j + 4096 \<le> 4096 * num_pages s" using j by simp
  then have lim: "unat (page_addr s j) + 4096 < 2 ^ 56" using u t by simp
  have "4096 dvd unat (page_addr s j)" using u geo by (simp add: page_geometry_def)
  then have "4096 * (unat (page_addr s j) div 4096) = unat (page_addr s j)" by simp
  then have "unat (in_page (page_addr s j) x) = unat (page_addr s j) + unat x mod 4096" using unat_in_page [of "page_addr s j" x] lim by simp
  moreover have "unat (page_addr s j + of_nat (unat x mod 4096)) = unat (page_addr s j) + unat x mod 4096"
  proof -
    have "unat x mod 4096 < 4096" by simp
    then show ?thesis using lim by (intro unat_add_of_nat) simp
  qed
  ultimately show "in_page (page_addr s j) x = page_addr s j + of_nat (unat x mod 4096)" by (simp add: word_unat_eq_iff)
qed

section \<open>An example\<close>

text \<open>
  A process with an empty page table, its break in the middle of a page, that asks for eight bytes more.
\<close>

definition heap_process :: Process where
  "heap_process = faulting_process\<lparr>brk := 0x20000008\<rparr>"

definition example_heap :: trap_st where
  "example_heap = put_slot 1 10 0x20000010 (put_slot 1 64 (push_bit 60 8) (example_fault\<lparr>PROCESS_LIST := Some [heap_process]\<rparr>))"

lemma example_brk_heap_pages:
  "page_inv example_heap" "blocks example_heap = {(0, 1), (1, 1), (2, 1)}" "page_bytes example_heap 2 = replicate 4096 0"
  "page_addr example_heap = page_addr example_fault" "num_pages example_heap = 64" "machine_ok example_heap" "60 \<le> card (free_pages example_heap)"
proof -
  note f = example_fault_pages
  have n: "num_pages example_fault = 64" by (simp add: num_pages_eq example_fault_def)
  have geo: "page_geometry example_fault" using f(1) by (simp add: page_inv_def)
  show "num_pages example_heap = 64" by (simp add: example_heap_def n)
  show "page_inv example_heap" "page_addr example_heap = page_addr example_fault"
    using f(1) n by (simp_all add: example_heap_def put_slot_pages)
  show bl: "blocks example_heap = {(0, 1), (1, 1), (2, 1)}" using f(1,2) n by (simp add: example_heap_def put_slot_pages)
  have "page_geometry (example_fault\<lparr>PROCESS_LIST := Some [heap_process]\<rparr>)" using geo by (simp add: page_geometry_def)
  then show "page_bytes example_heap 2 = replicate 4096 0" using f(3) n by (simp add: example_heap_def page_bytes_put_slot)
  have "ALLOC_START example_heap = 0x11000" by (simp add: example_heap_def put_slot_def example_fault_def)
  then show "machine_ok example_heap" using \<open>num_pages example_heap = 64\<close> by (simp add: machine_ok_def)
  have "{3..<63} \<subseteq> free_pages example_heap"
  proof
    fix i :: nat assume "i \<in> {3..<63}"
    then have "3 \<le> i" "i + 1 < num_pages example_heap" using \<open>num_pages example_heap = 64\<close> by simp_all
    then show "i \<in> free_pages example_heap" unfolding free_pages_def bl by auto
  qed
  then have "card {3..<63 :: nat} \<le> card (free_pages example_heap)" by (intro card_mono) simp_all
  then show "60 \<le> card (free_pages example_heap)" by simp
qed

lemma example_heap_call:
  "PROCESS_LIST example_heap = Some [heap_process]" "frame heap_process = 0x12000" "brk heap_process = 0x20000008"
  "reg_of A0 0x12000 example_heap = 0x20000010" "mmu_on 0x12000 example_heap" "caller 0x12000 example_heap = Some (0, heap_process)"
  "heap_pages 0x20000010 heap_process = 1" "holds example_heap (heap_process, \<lambda>p. if p = Root then Some 2 else None, [(0, 1), (1, 1)])"
proof -
  note f = example_fault_pages and e = example_brk_heap_pages
  have geo: "page_geometry example_heap" "page_geometry (example_fault\<lparr>PROCESS_LIST := Some [heap_process]\<rparr>)"
    using e(1) f(1) by (simp_all add: page_inv_def page_geometry_def)
  have n: "num_pages example_fault = 64" by (simp add: num_pages_eq example_fault_def)
  have pa: "page_addr example_heap 1 = 0x12000" by (simp add: e(4) f(4))
  show pl: "PROCESS_LIST example_heap = Some [heap_process]" by (simp add: example_heap_def put_slot_def)
  show fr: "frame heap_process = 0x12000" "brk heap_process = 0x20000008" by (simp_all add: heap_process_def faulting_process_def)
  have sl: "slot example_heap 1 10 = 0x20000010" "slot example_heap 1 64 = push_bit 60 8" "slot example_heap 1 68 = slot example_fault 1 68"
    using geo(2) n by (simp_all add: example_heap_def slot_put_slot)
  have "load64 (memory example_fault) 0x12220 = 1"
    by (simp add: load64_def load_bytes_def upt_rec example_fault_def)
  then have pd: "slot example_heap 1 68 = 1" unfolding sl(3) by (simp add: slot_def slot_addr_def f(4))
  show "reg_of A0 0x12000 example_heap = 0x20000010" using sl(1) frame_slots(4) [of example_heap 1 A0] pa by (simp add: reg_of_def slot_def)
  show "mmu_on 0x12000 example_heap" using sl(2) frame_satp_slot [of example_heap 1] pa by (simp add: mmu_on_def slot_def)
  have fp: "frame_pid_of (memory example_heap) heap_process = 1" using frame_pid_slot [of heap_process example_heap 1] fr(1) pa pd by simp
  have "pid_of 0x12000 example_heap = 1" using pd frame_slots(2) [of example_heap 1] pa by (simp add: pid_of_def slot_def)
  then show "caller 0x12000 example_heap = Some (0, heap_process)"
    using fp pl by (simp add: caller_def get_by_pid_def find_index_def proc_at_def)
  show "heap_pages 0x20000010 heap_process = 1" by (simp add: heap_pages_def fr)
  have o: "owns example_heap heap_process (\<lambda>p. if p = Root then Some 2 else None) [(0, 1), (1, 1)]"
    using empty_tree_ok [of example_heap 2] e(1-3)
    by (auto simp: owns_def heap_process_def faulting_process_def example_process_def ProcessData_new_def null_mut_def e(4) f(4) intro: exI [of _ 0] exI [of _ 1])
  have "mmu_table heap_process = page_addr example_heap 2" by (simp add: heap_process_def faulting_process_def e(4) f(4))
  then show "holds example_heap (heap_process, \<lambda>p. if p = Root then Some 2 else None, [(0, 1), (1, 1)])"
    using o empty_tree_confined [of example_heap 2 heap_process] e(1-3) by simp
qed

section \<open>Properties\<close>

text \<open>
  C12: \<^verbatim>\<open>brk\<close> extends the heap by zeroed pages. When a process with the MMU on moves its break up and there is memory for the pages and for the
  tables, the call returns the new break, the new pages are appended to the pages of the process, they were
  free before and are zero, and they are mapped one after the other from the old break on; every other address translates as before.
\<close>
theorem brk_maps_zeroed_pages:
  assumes "caller f s = Some (i, p)" and "mmu_on f s" and "a = reg_of A0 f s" and "brk p < a" and "unat a + 4096 < 2 ^ 64"
    and "owns s p t bs" and "frame p = f" and "3 * heap_pages a p \<le> card (free_pages s)" and "frame_ok f"
  shows "\<exists>s' js. sys_brk f s = Some s' \<and> length js = heap_pages a p \<and> distinct js \<and> reg_of A0 f s' = a
    \<and> PROCESS_LIST s' = map_option (\<lambda>pl. pl[i := new_heap a (map (page_addr s) js) p]) (PROCESS_LIST s)
    \<and> page_blocks js \<inter> blocks s = {} \<and> page_blocks js \<subseteq> blocks s' \<and> (\<forall>j \<in> set js. page_bytes s' j = replicate 4096 0)
    \<and> (\<forall>x. virt_to_phys (mmu_table p) x s' = (case mapped_page (heap_map (brk p) (map (page_addr s) js)) x of
          Some pa \<Rightarrow> Some (Some (in_page pa x)) | None \<Rightarrow> virt_to_phys (mmu_table p) x s))"
proof -
  obtain js s1 t1 where g: "sys_brk f s = Some (set_reg A0 f a (put_proc i (new_heap a (map (page_addr s) js) p) s1))"
    "grown s t js s1 t1" "length js = heap_pages a p"
    "\<forall>x. virt_to_phys (mmu_table p) x s1 =
       (case mapped_page (heap_map (brk p) (map (page_addr s) js)) x of Some pa \<Rightarrow> Some (Some (in_page pa x)) | None \<Rightarrow> virt_to_phys (mmu_table p) x s)"
    by (rule sys_brk_grows [OF assms(1-8)])
  let ?s = "set_reg A0 f a (put_proc i (new_heap a (map (page_addr s) js) p) s1)"
  note d = grownD [OF g(2)] and w = sys_brk_final [OF assms(6,7) g(2), where a = a and i = i and q = "new_heap a (map (page_addr s) js) p"]
  have fr: "bs ! 1 \<in> blocks s" using assms(6) by (auto simp: owns_def split: if_splits)
  have z: "page_bytes ?s j = replicate 4096 0" if "j \<in> set js" for j
  proof -
    have "(j, 1) \<in> page_blocks js" using that page_blocks_mem by blast
    then have "(j, 1) \<in> blocks s1" "(j, 1) \<noteq> bs ! 1" using d(4,7) fr by auto
    then show ?thesis using w(5) [of j 1 j] d(11) [OF that] by simp
  qed
  obtain m where m: "s1 = s\<lparr>memory := m\<rparr>" using d(1) by blast
  show ?thesis
  proof (intro exI conjI)
    show "PROCESS_LIST ?s = map_option (\<lambda>pl. pl[i := new_heap a (map (page_addr s) js) p]) (PROCESS_LIST s)"
      by (simp add: set_reg_def put_proc_def m)
    show "page_blocks js \<subseteq> blocks ?s" using w(2) d(4) by blast
    show "\<forall>x. virt_to_phys (mmu_table p) x ?s = (case mapped_page (heap_map (brk p) (map (page_addr s) js)) x of
        Some pa \<Rightarrow> Some (Some (in_page pa x)) | None \<Rightarrow> virt_to_phys (mmu_table p) x s)"
      using w(4) g(4) by simp
    show "\<forall>j \<in> set js. page_bytes ?s j = replicate 4096 0" using z by blast
    show "reg_of A0 f ?s = a" by (simp add: reg_of_set_reg [OF assms(9)])
  qed (rule g(1), rule g(3), rule d(6), rule d(7))
qed

theorem brk_maps_zeroed_pages_witness:
  "\<exists>s' js. sys_brk 0x12000 example_heap = Some s' \<and> length js = 1 \<and> reg_of A0 0x12000 s' = 0x20000010
     \<and> (\<forall>j \<in> set js. page_bytes s' j = replicate 4096 0)"
proof -
  note e = example_heap_call
  have o: "owns example_heap heap_process (\<lambda>p. if p = Root then Some 2 else None) [(0, 1), (1, 1)]" using e(8) by simp
  show ?thesis
    using brk_maps_zeroed_pages [OF e(6,5) e(4) [symmetric] _ _ o e(2)] e(3,7) example_brk_heap_pages(7) by (auto simp: frame_ok_def)
qed

text \<open>
  C37: \<^verbatim>\<open>brk\<close> replaces the page in which the old break lies. The first page is mapped at the page of the old break even when the break
  is in the middle of a page that is in use: after the call every byte of that page reads as zero, those below the break included.
\<close>
theorem brk_clears_page_of_break:
  assumes "caller f s = Some (i, p)" and "mmu_on f s" and "a = reg_of A0 f s" and "brk p < a" and "unat a + 4096 < 2 ^ 64"
    and "owns s p t bs" and "frame p = f" and "3 * heap_pages a p \<le> card (free_pages s)" and "machine_ok s" and "vpns x = vpns (brk p)"
  shows "\<exists>s' b. sys_brk f s = Some s' \<and> virt_to_phys (mmu_table p) x s' = Some (Some b) \<and> memory s' b = 0"
proof -
  obtain js s1 t1 where g: "sys_brk f s = Some (set_reg A0 f a (put_proc i (new_heap a (map (page_addr s) js) p) s1))"
    "grown s t js s1 t1" "length js = heap_pages a p"
    "\<forall>x. virt_to_phys (mmu_table p) x s1 =
       (case mapped_page (heap_map (brk p) (map (page_addr s) js)) x of Some pa \<Rightarrow> Some (Some (in_page pa x)) | None \<Rightarrow> virt_to_phys (mmu_table p) x s)"
    by (rule sys_brk_grows [OF assms(1-8)])
  let ?s = "set_reg A0 f a (put_proc i (new_heap a (map (page_addr s) js) p) s1)"
  note d = grownD [OF g(2)] and w = sys_brk_final [OF assms(6,7) g(2), where a = a and i = i and q = "new_heap a (map (page_addr s) js) p"]
  have "unat (brk p) \<le> unat a" using assms(4) by (simp add: word_less_nat_alt)
  then have "4096 \<le> unat a + 4096 - unat (brk p)" by simp
  then have "1 \<le> heap_pages a p" unfolding heap_pages_def by (simp add: less_eq_div_iff_mult_less_eq)
  then obtain j0 js' where js: "js = j0 # js'" using g(3) by (cases js) auto
  have "heap_map (brk p) (map (page_addr s) js) = (brk p, page_addr s j0, EntryBits_val UserReadWrite) # tl (heap_map (brk p) (map (page_addr s) js))"
    unfolding js heap_map_def by (simp add: upt_conv_Cons del: upt_Suc)
  then obtain pa where pa: "mapped_page (heap_map (brk p) (map (page_addr s) js)) x = Some pa"
    using mapped_page_head [OF assms(10)] by metis
  obtain j where j: "j \<in> set js" "pa = page_addr s j" using heap_map_mem [OF pa] by blast
  have jb: "(j, 1) \<in> blocks s1" "(j, 1) \<notin> blocks s" using j(1) d(4,7) page_blocks_mem by blast+
  have fr: "bs ! 1 \<in> blocks s" using assms(6) by (auto simp: owns_def split: if_splits)
  then have "(j, 1) \<noteq> bs ! 1" using jb(2) by metis
  then have z: "page_bytes ?s j = replicate 4096 0" using w(5) [of j 1 j] jb d(11) [OF j(1)] by simp
  have jn: "j < num_pages s" using pages.live_nonempty [OF jb(1)] d(14) by simp
  have geo: "page_geometry s" using assms(6) unfolding owns_def by (blast dest: tree_okD(2))
  have "memory ?s (in_page pa x) = page_bytes ?s j ! (unat x mod 4096)"
    unfolding j(2) in_page_of_page(2) [OF geo assms(9) jn] by (simp add: page_bytes_def w(6))
  then have "memory ?s (in_page pa x) = 0" using z by simp
  moreover have "virt_to_phys (mmu_table p) x ?s = Some (Some (in_page pa x))" using w(4) [of x] spec [OF g(4), of x] pa by simp
  ultimately show ?thesis using g(1) by blast
qed

theorem brk_clears_page_of_break_witness:
  "\<exists>s' b. sys_brk 0x12000 example_heap = Some s' \<and> virt_to_phys (mmu_table heap_process) 0x20000004 s' = Some (Some b) \<and> memory s' b = 0"
proof -
  note e = example_heap_call
  have o: "owns example_heap heap_process (\<lambda>p. if p = Root then Some 2 else None) [(0, 1), (1, 1)]" using e(8) by simp
  have "vpns (0x20000004 :: usize) = vpns (brk heap_process)" by (simp add: e(3) vpns_digits)
  from brk_clears_page_of_break [OF e(6,5) e(4) [symmetric] _ _ o e(2) _ example_brk_heap_pages(6) this]
  show ?thesis using e(3,7) example_brk_heap_pages(7) by simp
qed

text \<open>
  C19: \<^verbatim>\<open>brk\<close> keeps the processes isolated. In a state in which every process owns its own blocks and reaches only its own
  stack, heap and program through its page table, the call of one of them leads to such a state again:
  the caller holds the new pages and tables in addition, which nobody held before.
\<close>
theorem brk_keeps_isolation:
  assumes "isolated s ws" and "machine_ok s" and "caller f s = Some (i, p)" and "mmu_on f s" and "a = reg_of A0 f s" and "brk p < a"
    and "unat a + 4096 < 2 ^ 64" and "frame p = f" and "3 * heap_pages a p \<le> card (free_pages s)"
  shows "\<exists>s' w. sys_brk f s = Some s' \<and> isolated s' (ws[i := w]) \<and> brk (fst w) = a
    \<and> (held w - held (ws ! i)) \<inter> blocks s = {}"
proof -
  have pl: "PROCESS_LIST s = Some (map fst ws)" using assms(1) by (simp add: isolated_def)
  obtain pl' where c: "PROCESS_LIST s = Some pl'" "i < length pl'" "p = pl' ! i" by (rule callerD [OF assms(3)])
  have "pl' = map fst ws" using c(1) pl by simp
  then have i: "i < length ws" "fst (ws ! i) = p" using c(2,3) by simp_all
  obtain t bs where wi: "ws ! i = (p, t, bs)" using i(2) by (cases "ws ! i") auto
  have h: "holds s (ws ! i)" using assms(1) i(1) by (simp add: isolated_def)
  have ow: "owns s p t bs" using h wi by simp
  obtain js s1 t1 where g: "sys_brk f s = Some (set_reg A0 f a (put_proc i (new_heap a (map (page_addr s) js) p) s1))"
    "grown s t js s1 t1" "length js = heap_pages a p"
    "\<forall>x. virt_to_phys (mmu_table p) x s1 =
       (case mapped_page (heap_map (brk p) (map (page_addr s) js)) x of Some pa \<Rightarrow> Some (Some (in_page pa x)) | None \<Rightarrow> virt_to_phys (mmu_table p) x s)"
    by (rule sys_brk_grows [OF assms(3-7) ow assms(8,9)])
  let ?p = "new_heap a (map (page_addr s) js) p" let ?s = "set_reg A0 f a (put_proc i ?p s1)"
  note d = grownD [OF g(2)] and w = sys_brk_final [OF ow assms(8) g(2), where a = a and i = i and q = ?p]
  have sub: "set bs \<subseteq> blocks s" "set bs \<inter> table_blocks t = {}" using ow by (simp_all add: owns_def)
  obtain bs' where o: "owns ?s ?p t1 bs'" "set bs' = set bs \<union> page_blocks js" "set (user_blocks bs') = set (user_blocks bs) \<union> page_blocks js"
  proof (rule owns_more_pages [OF ow w(3) d(3) w(6), of js a])
    show "set bs \<subseteq> blocks ?s" "page_blocks js \<subseteq> blocks ?s" using w(2) d(4) sub(1) by auto
    show "distinct js" by (rule d(6))
    show "page_blocks js \<inter> set bs = {}" using d(7) sub(1) by blast
    show "(page_blocks js \<union> set bs) \<inter> table_blocks t1 = {}" using d(8,9) sub by blast
  qed
  have geo: "page_geometry s" using ow unfolding owns_def by (blast dest: tree_okD(2))
  have ib: "in_block ?s = in_block s" by (intro ext) (simp add: in_block_def w(7))
  have cf: "confined ?s ?p (user_blocks bs')"
    unfolding confined_def
  proof (intro allI impI)
    fix x b assume "virt_to_phys (mmu_table ?p) x ?s = Some (Some b)"
    then have v: "(case mapped_page (heap_map (brk p) (map (page_addr s) js)) x of Some pa \<Rightarrow> Some (Some (in_page pa x)) | None \<Rightarrow> virt_to_phys (mmu_table p) x s) = Some (Some b)"
      using w(4) [of x] spec [OF g(4), of x] by (simp add: new_heap_def)
    show "\<exists>c \<in> set (user_blocks bs'). in_block ?s c b"
    proof (cases "mapped_page (heap_map (brk p) (map (page_addr s) js)) x")
      case None
      then have "virt_to_phys (mmu_table (fst (ws ! i))) x s = Some (Some b)" using v i(2) by simp
      from holds_confined [OF h this] show ?thesis unfolding ib o(3) wi by auto
    next
      case (Some pa)
      then obtain j where j: "j \<in> set js" "pa = page_addr s j" using heap_map_mem by blast
      have "(j, 1) \<in> blocks s1" using j(1) d(4) page_blocks_mem by blast
      then have "j < num_pages s" using pages.live_nonempty [of j 1 s1] d(14) by simp
      then have "in_block s (j, 1) b" using in_page_of_page(1) [OF geo assms(2), of j x] v Some j(2) by simp
      then show ?thesis unfolding ib o(3) using j(1) page_blocks_mem by blast
    qed
  qed
  let ?w = "(?p, t1, bs')" let ?N = "page_blocks js \<union> (table_blocks t1 - table_blocks t)"
  have hw: "holds ?s ?w" using o(1) cf by simp
  have new: "held ?w \<subseteq> held (ws ! i) \<union> ?N" "?N \<inter> blocks s = {}" using o(2) wi d(7,9) by auto
  have "isolated ?s (ws[i := ?w])"
  proof (rule isolated_replace [OF assms(1) i(1) w(1) _ hw new])
    show "PROCESS_LIST ?s = Some ((map fst ws)[i := fst ?w])" using pl d(1) by (auto simp: set_reg_def put_proc_def)
    fix v assume v: "v \<in> set ws" "apart v (ws ! i)"
    have hv: "holds s v" using assms(1) v(1) by (simp add: isolated_def)
    show "holds ?s v"
    proof (rule holds_cong [OF hv w(1,6,7)])
      show "held v \<subseteq> blocks ?s" using held_blocks [OF hv] w(2) d(4) by blast
      fix k assume k: "(k, 1) \<in> table_blocks (fst (snd v))"
      have kb: "(k, 1) \<in> held v" "(k, 1) \<in> blocks s" using table_held [OF k] held_blocks [OF hv] by auto
      have fr: "bs ! 1 \<in> set bs" using ow by (auto simp: owns_def split: if_splits)
      have "(k, 1) \<notin> set bs" "(k, 1) \<notin> table_blocks t" using kb(1) v(2) wi by (auto simp: apart_def)
      then have nf: "(k, 1) \<noteq> bs ! 1" and nt: "(k, 1) \<in> blocks s - table_blocks t" using fr kb(2) by (metis, blast)
      have "(k, 1) \<in> blocks s1" using kb(2) d(4) by blast
      from w(5) [OF this nf] have "page_bytes ?s k = page_bytes s1 k" by simp
      then show "page_bytes ?s k = page_bytes s k" using d(10) [OF nt] by simp
    qed
  qed
  moreover have "held ?w - held (ws ! i) \<subseteq> ?N" using new(1) by blast
  ultimately show ?thesis using g(1) new(2) by (intro exI [of _ ?s] exI [of _ ?w]) (auto simp: new_heap_def)
qed

theorem brk_keeps_isolation_witness:
  "\<exists>s' w. sys_brk 0x12000 example_heap = Some s' \<and> isolated s' [w] \<and> brk (fst w) = 0x20000010"
proof -
  note e = example_heap_call
  have "isolated example_heap [(heap_process, \<lambda>p. if p = Root then Some 2 else None, [(0, 1), (1, 1)])]"
    using e(1,8) example_brk_heap_pages(1) by (simp add: isolated_def)
  from brk_keeps_isolation [OF this example_brk_heap_pages(6) e(6,5) e(4) [symmetric] _ _ e(2)]
  show ?thesis using e(3,7) example_brk_heap_pages(7) by auto
qed

end
