(* ===== verification/Hart.thy ===== *)
theory Hart
  imports Cpu
begin

text \<open>
  A hart and the assembly code of the kernel. \<^verbatim>\<open>cpu.rs\<close> reads and writes the control and status registers with
  inline assembly; \<^verbatim>\<open>asm/trap.S\<close> saves the registers of the interrupted program into its trap frame, calls
  \<^verbatim>\<open>m_trap\<close> and restores them, or switches to another frame; \<^verbatim>\<open>asm/boot.S\<close> brings the first hart into
  \<^verbatim>\<open>kinit\<close>. The routines are lists of instructions, written as the assembly files have them with the macros unrolled; the
  machine is the part of RISC-V that they use. The lemmas say what a routine leaves in the frame and in the registers.
\<close>

section \<open>The machine\<close>

datatype FRegisters =
  Ft0 | Ft1 | Ft2 | Ft3 | Ft4 | Ft5 | Ft6 | Ft7 | Fs0 | Fs1
  | Fa0 | Fa1 | Fa2 | Fa3 | Fa4 | Fa5 | Fa6 | Fa7 | Fs2 | Fs3
  | Fs4 | Fs5 | Fs6 | Fs7 | Fs8 | Fs9 | Fs10 | Fs11 | Ft8 | Ft9
  | Ft10 | Ft11

fun FRegisters_val :: "FRegisters \<Rightarrow> nat" where
  "FRegisters_val Ft0 = 0" | "FRegisters_val Ft1 = 1" | "FRegisters_val Ft2 = 2" | "FRegisters_val Ft3 = 3"
| "FRegisters_val Ft4 = 4" | "FRegisters_val Ft5 = 5" | "FRegisters_val Ft6 = 6" | "FRegisters_val Ft7 = 7"
| "FRegisters_val Fs0 = 8" | "FRegisters_val Fs1 = 9" | "FRegisters_val Fa0 = 10" | "FRegisters_val Fa1 = 11"
| "FRegisters_val Fa2 = 12" | "FRegisters_val Fa3 = 13" | "FRegisters_val Fa4 = 14" | "FRegisters_val Fa5 = 15"
| "FRegisters_val Fa6 = 16" | "FRegisters_val Fa7 = 17" | "FRegisters_val Fs2 = 18" | "FRegisters_val Fs3 = 19"
| "FRegisters_val Fs4 = 20" | "FRegisters_val Fs5 = 21" | "FRegisters_val Fs6 = 22" | "FRegisters_val Fs7 = 23"
| "FRegisters_val Fs8 = 24" | "FRegisters_val Fs9 = 25" | "FRegisters_val Fs10 = 26" | "FRegisters_val Fs11 = 27"
| "FRegisters_val Ft8 = 28" | "FRegisters_val Ft9 = 29" | "FRegisters_val Ft10 = 30" | "FRegisters_val Ft11 = 31"

datatype csreg =
  Mhartid | Mie | Mstatus | Stvec | Mscratch | Sscratch | Mepc | Sepc | Satp | Mtvec | Mtval | Mcause

text \<open>
  The integer and floating point registers are numbered. The translation cache holds page-table entries under an address space
  identifier and a virtual page number.
\<close>

record hart =
  xr :: "nat \<Rightarrow> usize"
  fr :: "nat \<Rightarrow> u64"
  csr :: "csreg \<Rightarrow> usize"
  hpc :: usize
  hmode :: CpuMode
  htlb :: "u16 \<times> usize \<rightharpoonup> u64"
  hmem :: mem

definition rx :: "nat \<Rightarrow> hart \<Rightarrow> usize" where
  "rx i h = (if i = 0 then 0 else xr h i)"

definition wx :: "nat \<Rightarrow> usize \<Rightarrow> hart \<Rightarrow> hart" where
  "wx i v h = (if i = 0 then h else h\<lparr>xr := (xr h)(i := v)\<rparr>)"

definition wcsr :: "csreg \<Rightarrow> usize \<Rightarrow> hart \<Rightarrow> hart" where
  "wcsr c v h = h\<lparr>csr := (csr h)(c := v)\<rparr>"

section \<open>Control and status registers\<close>

definition mhartid_read :: "hart \<Rightarrow> usize" where "mhartid_read h = csr h Mhartid"
definition mie_read :: "hart \<Rightarrow> usize" where "mie_read h = csr h Mie"
definition mie_write :: "usize \<Rightarrow> hart \<Rightarrow> hart" where "mie_write v h = wcsr Mie v h"
definition mstatus_write :: "usize \<Rightarrow> hart \<Rightarrow> hart" where "mstatus_write v h = wcsr Mstatus v h"
definition mstatus_read :: "hart \<Rightarrow> usize" where "mstatus_read h = csr h Mstatus"
definition stvec_write :: "usize \<Rightarrow> hart \<Rightarrow> hart" where "stvec_write v h = wcsr Stvec v h"
definition stvec_read :: "hart \<Rightarrow> usize" where "stvec_read h = csr h Stvec"
definition mscratch_write :: "usize \<Rightarrow> hart \<Rightarrow> hart" where "mscratch_write v h = wcsr Mscratch v h"
definition mscratch_read :: "hart \<Rightarrow> usize" where "mscratch_read h = csr h Mscratch"
definition mscratch_swap :: "usize \<Rightarrow> hart \<Rightarrow> usize \<times> hart" where
  "mscratch_swap to h = (csr h Mscratch, wcsr Mscratch to h)"
definition sscratch_write :: "usize \<Rightarrow> hart \<Rightarrow> hart" where "sscratch_write v h = wcsr Sscratch v h"
definition sscratch_read :: "hart \<Rightarrow> usize" where "sscratch_read h = csr h Sscratch"
definition sscratch_swap :: "usize \<Rightarrow> hart \<Rightarrow> usize \<times> hart" where
  "sscratch_swap to h = (csr h Sscratch, wcsr Sscratch to h)"
definition mepc_write :: "usize \<Rightarrow> hart \<Rightarrow> hart" where "mepc_write v h = wcsr Mepc v h"
definition mepc_read :: "hart \<Rightarrow> usize" where "mepc_read h = csr h Mepc"
definition sepc_write :: "usize \<Rightarrow> hart \<Rightarrow> hart" where "sepc_write v h = wcsr Sepc v h"
definition sepc_read :: "hart \<Rightarrow> usize" where "sepc_read h = csr h Sepc"
definition satp_write :: "usize \<Rightarrow> hart \<Rightarrow> hart" where "satp_write v h = wcsr Satp v h"
definition satp_read :: "hart \<Rightarrow> usize" where "satp_read h = csr h Satp"

text \<open>
  \<^verbatim>\<open>sfence.vma\<close> with two registers drops the translation of one address in one address space; with \<^verbatim>\<open>zero\<close>
  as the first operand it drops every translation of the address space.
\<close>

definition satp_fence :: "usize \<Rightarrow> usize \<Rightarrow> hart \<Rightarrow> hart" where
  "satp_fence vaddr asid h = h\<lparr>htlb := (htlb h)((ucast asid, drop_bit 12 vaddr) := None)\<rparr>"

definition satp_fence_asid :: "usize \<Rightarrow> hart \<Rightarrow> hart" where
  "satp_fence_asid asid h = h\<lparr>htlb := (\<lambda>(a, v). if a = ucast asid then None else htlb h (a, v))\<rparr>"

section \<open>Instructions\<close>

datatype instr =
  Csrrw nat csreg nat | Csrr nat csreg | Csrw csreg nat
  | Sd nat usize nat | Ld nat usize nat | Fsd nat usize nat | Fld nat usize nat
  | Mv nat nat | Li nat usize | Slli nat nat nat | Srli nat nat nat | Andi nat nat usize | Or nat nat nat
  | Mul nat nat nat | Sub nat nat nat | Bne nat nat nat | Mret

text \<open>
  \<^verbatim>\<open>mstatus\<close>: bit 3 enables interrupts in machine mode and bit 7 is its value before the trap, bits 11 and 12 are the
  mode before the trap, bits 13 and 14 the state of the floating point unit: 0 off, in which its instructions trap, 3 dirty.
\<close>

definition put_bit :: "nat \<Rightarrow> bool \<Rightarrow> usize \<Rightarrow> usize" where
  "put_bit n b ms = (if b then set_bit n ms else unset_bit n ms)"

definition FS_off :: "usize \<Rightarrow> bool" where "FS_off ms \<longleftrightarrow> \<not> bit ms 13 \<and> \<not> bit ms 14"
definition FS_dirty :: "usize \<Rightarrow> bool" where "FS_dirty ms \<longleftrightarrow> bit ms 13 \<and> bit ms 14"

definition MPP :: "usize \<Rightarrow> CpuMode option" where
  "MPP ms = (if bit ms 12 then if bit ms 11 then Some Machine else None
             else if bit ms 11 then Some Supervisor else Some User)"

definition fp_dirty :: "hart \<Rightarrow> hart" where
  "fp_dirty h = wcsr Mstatus (put_bit 14 True (put_bit 13 True (csr h Mstatus))) h"

definition mret :: "hart \<Rightarrow> hart option" where
  "mret h = do {
     let ms = csr h Mstatus;
     md \<leftarrow> MPP ms;
     let ms = put_bit 12 False (put_bit 11 False (put_bit 7 True (put_bit 3 (bit ms 7) ms)));
     Some ((wcsr Mstatus ms h)\<lparr>hmode := md, hpc := csr h Mepc\<rparr>)
   }"

text \<open>Taking a trap into machine mode.\<close>

definition trap_status :: "CpuMode \<Rightarrow> usize \<Rightarrow> usize" where
  "trap_status md ms = put_bit 12 (bit (CpuMode_val md) 1) (put_bit 11 (bit (CpuMode_val md) 0)
     (put_bit 3 False (put_bit 7 (bit ms 3) ms)))"

definition take_trap :: "usize \<Rightarrow> usize \<Rightarrow> hart \<Rightarrow> hart" where
  "take_trap cause tval h =
     (wcsr Mstatus (trap_status (hmode h) (csr h Mstatus)) (wcsr Mtval tval (wcsr Mcause cause (wcsr Mepc (hpc h) h))))
       \<lparr>hmode := Machine, hpc := csr h Mtvec\<rparr>"

fun step1 :: "instr \<Rightarrow> hart \<Rightarrow> hart option" where
  "step1 (Csrrw rd c rs) h = Some (wx rd (csr h c) (wcsr c (rx rs h) h))"
| "step1 (Csrr rd c) h = Some (wx rd (csr h c) h)"
| "step1 (Csrw c rs) h = Some (wcsr c (rx rs h) h)"
| "step1 (Sd rs off b) h = Some (h\<lparr>hmem := store64 (hmem h) (rx b h + off) (rx rs h)\<rparr>)"
| "step1 (Ld rd off b) h = Some (wx rd (load64 (hmem h) (rx b h + off)) h)"
| "step1 (Fsd rs off b) h = (if FS_off (csr h Mstatus) then None else Some (h\<lparr>hmem := store64 (hmem h) (rx b h + off) (fr h rs)\<rparr>))"
| "step1 (Fld rd off b) h = (if FS_off (csr h Mstatus) then None
     else Some (fp_dirty (h\<lparr>fr := (fr h)(rd := load64 (hmem h) (rx b h + off))\<rparr>)))"
| "step1 (Mv rd rs) h = Some (wx rd (rx rs h) h)"
| "step1 (Li rd v) h = Some (wx rd v h)"
| "step1 (Slli rd rs k) h = Some (wx rd (push_bit k (rx rs h)) h)"
| "step1 (Srli rd rs k) h = Some (wx rd (drop_bit k (rx rs h)) h)"
| "step1 (Andi rd rs v) h = Some (wx rd (rx rs h AND v) h)"
| "step1 (Or rd rs rs') h = Some (wx rd (rx rs h OR rx rs' h) h)"
| "step1 (Mul rd rs rs') h = Some (wx rd (rx rs h * rx rs' h) h)"
| "step1 (Sub rd rs rs') h = Some (wx rd (rx rs h - rx rs' h) h)"
| "step1 (Bne rs rs' k) h = Some h"
| "step1 Mret h = mret h"

text \<open>A routine; a branch that is taken skips the given number of instructions.\<close>

fun exec :: "instr list \<Rightarrow> hart \<Rightarrow> hart option" where
  "exec [] h = Some h"
| "exec (i # is) h = (case i of
     Bne rs rs' k \<Rightarrow> if rx rs h \<noteq> rx rs' h then exec (drop k is) h else exec is h
   | _ \<Rightarrow> step1 i h \<bind> exec is)"

section \<open>trap.S\<close>

definition save_gp :: "nat \<Rightarrow> nat \<Rightarrow> instr" where "save_gp basereg i = Sd i (of_nat (i * 8)) basereg"
definition load_gp :: "nat \<Rightarrow> nat \<Rightarrow> instr" where "load_gp basereg i = Ld i (of_nat (i * 8)) basereg"
definition save_fp :: "nat \<Rightarrow> nat \<Rightarrow> instr" where "save_fp basereg i = Fsd i (of_nat ((32 + i) * 8)) basereg"
definition load_fp :: "nat \<Rightarrow> nat \<Rightarrow> instr" where "load_fp basereg i = Fld i (of_nat ((32 + i) * 8)) basereg"

text \<open>
  \<^verbatim>\<open>m_trap_vector\<close> up to the call of \<^verbatim>\<open>m_trap\<close>, given the address of the variable \<^verbatim>\<open>KERNEL_STACK_END\<close>,
  and from the return of the call.
\<close>

definition m_trap_vector :: "usize \<Rightarrow> instr list" where
  "m_trap_vector kernel_stack_end =
     [Csrrw (gp T6) Mscratch (gp T6)]
     @ map (save_gp (gp T6)) [0..<31]
     @ [Mv (gp T5) (gp T6),
        Csrr (gp T6) Mscratch,
        save_gp (gp T5) 31,
        Csrw Mscratch (gp T5),
        Csrr (gp T1) Mstatus,
        Srli (gp T0) (gp T1) 13,
        Andi (gp T0) (gp T0) 3,
        Li (gp T3) 3,
        Bne (gp T0) (gp T3) 32]
     @ map (save_fp (gp T5)) [0..<32]
     @ [Csrr (gp A0) Mepc,
        Sd (gp A0) 520 (gp T5),
        Csrr (gp A1) Mtval,
        Csrr (gp A2) Mcause,
        Csrr (gp A3) Mhartid,
        Csrr (gp A4) Mstatus,
        Csrr (gp A5) Mscratch,
        Li (gp T0) kernel_stack_end,
        Ld (gp Sp) 0 (gp T0)]"

definition m_trap_return :: "instr list" where
  "m_trap_return =
     [Csrw Mepc (gp A0),
      Csrr (gp T6) Mscratch,
      Csrr (gp T1) Mstatus,
      Srli (gp T0) (gp T1) 13,
      Andi (gp T0) (gp T0) 3,
      Li (gp T3) 3,
      Bne (gp T0) (gp T3) 32]
     @ map (load_fp (gp T6)) [0..<32]
     @ map (load_gp (gp T6)) [1..<32]
     @ [Mret]"

definition switch_to_user :: "usize \<Rightarrow> instr list" where
  "switch_to_user vector =
     [Csrw Mscratch (gp A0),
      Ld (gp A1) 520 (gp A0),
      Ld (gp A2) 512 (gp A0),
      Ld (gp A3) 552 (gp A0),
      Li (gp T0) (push_bit 7 1 OR push_bit 5 1 OR push_bit 13 1),
      Slli (gp A3) (gp A3) 11,
      Or (gp T0) (gp T0) (gp A3),
      Csrw Mstatus (gp T0),
      Csrw Mepc (gp A1),
      Csrw Satp (gp A2),
      Li (gp T1) 0xaaa,
      Csrw Mie (gp T1),
      Li (gp T2) vector,
      Csrw Mtvec (gp T2),
      Mv (gp T6) (gp A0)]
     @ map (load_fp (gp T6)) [0..<32]
     @ map (load_gp (gp T6)) [1..<32]
     @ [Mret]"

text \<open>\<^verbatim>\<open>make_syscall\<close> up to its \<^verbatim>\<open>ecall\<close>.\<close>

definition make_syscall :: "instr list" where
  "make_syscall =
     [Mv (gp A7) (gp A0), Mv (gp A0) (gp A1), Mv (gp A1) (gp A2), Mv (gp A2) (gp A3),
      Mv (gp A3) (gp A4), Mv (gp A4) (gp A5), Mv (gp A5) (gp A6)]"

section \<open>boot.S\<close>

text \<open>The symbols of the linker script and the addresses of the labels.\<close>

record boot_symbols =
  global_pointer :: usize
  bss_start :: usize
  bss_end :: usize
  stack_end :: usize
  kinit_addr :: usize
  kinit_hart_addr :: usize
  vector_addr :: usize
  after_kinit :: usize
  park_loop :: usize

text \<open>The loop that clears the BSS section stores whole words and tests behind each of them.\<close>

partial_function (option) clear_bss :: "usize \<Rightarrow> usize \<Rightarrow> mem \<Rightarrow> mem option" where
  "clear_bss a0 a1 m =
     (let m = store64 m a0 0;
          a0 = a0 + 8
      in if a0 < a1 then clear_bss a0 a1 m else Some m)"

definition boot_hart0 :: "boot_symbols \<Rightarrow> instr list" where
  "boot_hart0 L =
     [Li (gp Sp) (stack_end L),
      Li (gp T0) (push_bit 11 3 OR push_bit 13 1),
      Csrw Mstatus (gp T0),
      Csrw Mie (gp Zero),
      Li (gp T1) (kinit_addr L),
      Csrw Mepc (gp T1),
      Li (gp Ra) (after_kinit L),
      Mret]"

definition boot_parked :: "boot_symbols \<Rightarrow> instr list" where
  "boot_parked L =
     [Li (gp Sp) (stack_end L),
      Li (gp T0) 0x10000,
      Csrr (gp A0) Mhartid,
      Mul (gp T0) (gp T0) (gp A0),
      Sub (gp Sp) (gp Sp) (gp T0),
      Li (gp T0) (push_bit 11 3 OR push_bit 7 1 OR push_bit 13 1),
      Csrw Mstatus (gp T0),
      Li (gp T3) (push_bit 3 1),
      Csrw Mie (gp T3),
      Li (gp T1) (kinit_hart_addr L),
      Csrw Mepc (gp T1),
      Li (gp T2) (vector_addr L),
      Csrw Mtvec (gp T2),
      Li (gp Ra) (park_loop L),
      Mret]"

definition boot_start :: "boot_symbols \<Rightarrow> hart \<Rightarrow> hart option" where
  "boot_start L h = do {
     h \<leftarrow> exec [Li (gp Gp) (global_pointer L), Csrw Satp (gp Zero), Csrr (gp T0) Mhartid] h;
     if rx (gp T0) h \<noteq> 0 then exec (boot_parked L) h
     else do {
       m \<leftarrow> (if bss_start L \<ge> bss_end L then Some (hmem h) else clear_bss (bss_start L) (bss_end L) (hmem h));
       exec (boot_hart0 L) (h\<lparr>hmem := m\<rparr>)
     }
   }"

section \<open>Slots of a trap frame\<close>

text \<open>A frame is 70 words: the 32 integer registers, the 32 floating point registers, and six fields.\<close>

definition frame_slot :: "usize \<Rightarrow> nat \<Rightarrow> usize" where "frame_slot f k = f + of_nat (k * 8)"

text \<open>The numbers and the values of the registers that \<^verbatim>\<open>dump_registers\<close> prints.\<close>

definition dump_registers :: "mem \<Rightarrow> usize \<Rightarrow> (nat \<times> usize) list" where
  "dump_registers m f = map (\<lambda>i. (i, load64 m (frame_slot f i))) [1..<32]"

lemma frame_field_slots:
  "frame_reg f r = frame_slot f (gp r)" "frame_satp f = frame_slot f 64" "frame_pc f = frame_slot f 65" "frame_pid f = frame_slot f 68" "frame_mode f = frame_slot f 69"
  by (simp_all add: frame_slot_def frame_reg_def frame_satp_def frame_pc_def frame_pid_def frame_mode_def mult.commute)

lemma unat_frame_slot: "frame_ok f \<Longrightarrow> k < 70 \<Longrightarrow> unat (frame_slot f k) = unat f + 8 * k"
  by (simp add: frame_slot_def frame_ok_def unat_add_of_nat mult.commute del: of_nat_mult)

lemma load_frame_slot:
  assumes "frame_ok f" "i < 70" "j < 70"
  shows "load64 (store64 m (frame_slot f i) v) (frame_slot f j) = (if i = j then v else load64 m (frame_slot f j))"
proof (cases "i = j")
  case False
  then have "disjoint_regions (frame_slot f i) 8 (frame_slot f j) 8"
    using assms by (auto simp: disjoint_regions_def unat_frame_slot frame_ok_def)
  then show ?thesis using False by (simp add: load_store64_disjoint)
qed simp

lemma store_frame_slot_outside:
  assumes "frame_ok f" "i < 70" "\<not> in_region f 560 x"
  shows "store64 m (frame_slot f i) v x = m x"
proof (rule store64_outside)
  show "\<not> in_region (frame_slot f i) 8 x"
    using assms by (auto simp: in_region_iff unat_frame_slot frame_ok_def)
qed

lemma store_slots_load:
  assumes "frame_ok f" "c + n \<le> 70" "j < 70"
  shows "load64 (fold (\<lambda>i m. store64 m (frame_slot f (c + i)) (v i)) [0..<n] m) (frame_slot f j)
       = (if c \<le> j \<and> j < c + n then v (j - c) else load64 m (frame_slot f j))"
  using assms(2) by (induction n) (auto simp: load_frame_slot [OF assms(1) _ assms(3)])

lemma store_slots_outside:
  assumes "frame_ok f" "c + n \<le> 70" "\<not> in_region f 560 x"
  shows "fold (\<lambda>i m. store64 m (frame_slot f (c + i)) (v i)) [0..<n] m x = m x"
  using assms(2) by (induction n) (simp_all add: store_frame_slot_outside [OF assms(1) _ assms(3)])

section \<open>Running the loops of the routines\<close>

lemma rx_0 [simp]: "rx 0 h = 0"
  by (simp add: rx_def)

lemma rx_update [simp]:
  "rx i (h\<lparr>hmem := m\<rparr>) = rx i h" "rx i (h\<lparr>fr := g\<rparr>) = rx i h" "rx i (wcsr c v h) = rx i h"
  "rx i (fp_dirty h) = rx i h" "rx i (h\<lparr>hmode := md\<rparr>) = rx i h" "rx i (h\<lparr>hpc := a\<rparr>) = rx i h"
  "rx i (wx j v h) = (if i = j \<and> i \<noteq> 0 then v else rx i h)"
  by (simp_all add: rx_def wx_def wcsr_def fp_dirty_def)

lemma wx_fields [simp]:
  "hmem (wx i v h) = hmem h" "fr (wx i v h) = fr h" "csr (wx i v h) = csr h" "hpc (wx i v h) = hpc h"
  "hmode (wx i v h) = hmode h" "htlb (wx i v h) = htlb h"
  by (simp_all add: wx_def)

lemma wcsr_fields [simp]:
  "hmem (wcsr c v h) = hmem h" "fr (wcsr c v h) = fr h" "csr (wcsr c v h) = (csr h)(c := v)" "hpc (wcsr c v h) = hpc h"
  "hmode (wcsr c v h) = hmode h" "htlb (wcsr c v h) = htlb h" "xr (wcsr c v h) = xr h"
  by (simp_all add: wcsr_def)

lemma fp_dirty_fields [simp]:
  "hmem (fp_dirty h) = hmem h" "fr (fp_dirty h) = fr h" "csr (fp_dirty h) = (csr h)(Mstatus := put_bit 14 True (put_bit 13 True (csr h Mstatus)))"
  "hpc (fp_dirty h) = hpc h" "hmode (fp_dirty h) = hmode h" "htlb (fp_dirty h) = htlb h" "xr (fp_dirty h) = xr h"
  by (simp_all add: fp_dirty_def)

lemma bit_put_bit [simp]: "bit (put_bit n b ms) k \<longleftrightarrow> (if k = n then b \<and> k < 64 else bit ms k)"
  by (auto simp: put_bit_def bit_simps dest: bit_imp_le_length)

lemma put_bit_put_bit [simp]: "put_bit 14 True (put_bit 13 True (put_bit 14 True (put_bit 13 True ms))) = put_bit 14 True (put_bit 13 True ms)"
  by (rule bit_word_eqI) simp

lemma fp_dirty_twice [simp]: "fp_dirty (fp_dirty h) = fp_dirty h"
  by (simp add: fp_dirty_def wcsr_def)

lemma fp_dirty_fr [simp]: "fp_dirty ((fp_dirty h)\<lparr>fr := g\<rparr>) = fp_dirty (h\<lparr>fr := g\<rparr>)"
  by (simp add: fp_dirty_def wcsr_def)

lemma exec_save_gp:
  "exec (map (save_gp b) is @ js) h = exec js (h\<lparr>hmem := fold (\<lambda>i m. store64 m (frame_slot (rx b h) i) (rx i h)) is (hmem h)\<rparr>)"
  by (induction "is" arbitrary: h) (simp_all add: save_gp_def frame_slot_def)

lemma exec_save_fp:
  "\<not> FS_off (csr h Mstatus) \<Longrightarrow> exec (map (save_fp b) is @ js) h
     = exec js (h\<lparr>hmem := fold (\<lambda>i m. store64 m (frame_slot (rx b h) (32 + i)) (fr h i)) is (hmem h)\<rparr>)"
  by (induction "is" arbitrary: h) (simp_all add: save_fp_def frame_slot_def)

lemma exec_load_gp:
  "b \<notin> set is \<Longrightarrow> 0 \<notin> set is \<Longrightarrow> exec (map (load_gp b) is @ js) h
     = exec js (h\<lparr>xr := \<lambda>i. if i \<in> set is then load64 (hmem h) (frame_slot (rx b h) i) else xr h i\<rparr>)"
proof (induction "is" arbitrary: h)
  case (Cons i "is")
  have "exec (map (load_gp b) (i # is) @ js) h = exec (map (load_gp b) is @ js) (wx i (load64 (hmem h) (frame_slot (rx b h) i)) h)"
    by (simp add: load_gp_def frame_slot_def)
  also have "\<dots> = exec js (h\<lparr>xr := \<lambda>k. if k \<in> set is then load64 (hmem h) (frame_slot (rx b h) k) else ((xr h)(i := load64 (hmem h) (frame_slot (rx b h) i))) k\<rparr>)"
    using Cons by (simp add: wx_def rx_def cong: if_cong)
  also have "(\<lambda>k. if k \<in> set is then load64 (hmem h) (frame_slot (rx b h) k) else ((xr h)(i := load64 (hmem h) (frame_slot (rx b h) i))) k)
     = (\<lambda>k. if k \<in> set (i # is) then load64 (hmem h) (frame_slot (rx b h) k) else xr h k)"
    by auto
  finally show ?case .
qed simp

lemma exec_load_fp_dirty:
  "exec (map (load_fp b) is @ js) (fp_dirty h)
     = exec js (fp_dirty (h\<lparr>fr := \<lambda>i. if i \<in> set is then load64 (hmem h) (frame_slot (rx b h) (32 + i)) else fr h i\<rparr>))"
proof (induction "is" arbitrary: h)
  case (Cons i "is")
  let ?h = "h\<lparr>fr := (fr h)(i := load64 (hmem h) (frame_slot (rx b h) (32 + i)))\<rparr>"
  have "exec (map (load_fp b) (i # is) @ js) (fp_dirty h) = exec (map (load_fp b) is @ js) (fp_dirty ?h)"
    by (simp add: load_fp_def frame_slot_def FS_off_def)
  also have "\<dots> = exec js (fp_dirty (h\<lparr>fr := \<lambda>k. if k \<in> set is then load64 (hmem h) (frame_slot (rx b h) (32 + k)) else fr ?h k\<rparr>))"
    unfolding Cons by (simp cong: if_cong)
  also have "(\<lambda>k. if k \<in> set is then load64 (hmem h) (frame_slot (rx b h) (32 + k)) else fr ?h k)
     = (\<lambda>k. if k \<in> set (i # is) then load64 (hmem h) (frame_slot (rx b h) (32 + k)) else fr h k)"
    by auto
  finally show ?case .
qed simp

lemma exec_load_fp:
  assumes "\<not> FS_off (csr h Mstatus)"
  shows "exec (map (load_fp b) (i # is) @ js) h
     = exec js (fp_dirty (h\<lparr>fr := \<lambda>k. if k \<in> set (i # is) then load64 (hmem h) (frame_slot (rx b h) (32 + k)) else fr h k\<rparr>))"
proof -
  have "exec (map (load_fp b) (i # is) @ js) h
      = exec (map (load_fp b) is @ js) (fp_dirty (h\<lparr>fr := (fr h)(i := load64 (hmem h) (frame_slot (rx b h) (32 + i)))\<rparr>))"
    using assms by (simp add: load_fp_def frame_slot_def)
  also have "\<dots> = exec js (fp_dirty (h\<lparr>fr := \<lambda>k. if k \<in> set is then load64 (hmem h) (frame_slot (rx b h) (32 + k))
      else ((fr h)(i := load64 (hmem h) (frame_slot (rx b h) (32 + i)))) k\<rparr>))"
    unfolding exec_load_fp_dirty by (simp cong: if_cong)
  also have "(\<lambda>k. if k \<in> set is then load64 (hmem h) (frame_slot (rx b h) (32 + k)) else ((fr h)(i := load64 (hmem h) (frame_slot (rx b h) (32 + i)))) k)
     = (\<lambda>k. if k \<in> set (i # is) then load64 (hmem h) (frame_slot (rx b h) (32 + k)) else fr h k)"
    by auto
  finally show ?thesis .
qed

section \<open>What the routines do\<close>

lemma FS_field: "drop_bit 13 (ms :: usize) AND 3 = 3 \<longleftrightarrow> FS_dirty ms"
proof -
  have three: "(3 :: usize) = mask 2" by (simp add: mask_eq_exp_minus_1)
  show ?thesis
  proof
    assume "drop_bit 13 ms AND 3 = 3"
    then have "bit (drop_bit 13 ms AND mask 2) 0" "bit (drop_bit 13 ms AND mask 2) 1" by (simp_all add: three bit_mask_iff)
    then show "FS_dirty ms" by (simp add: FS_dirty_def bit_simps)
  next
    assume "FS_dirty ms"
    then show "drop_bit 13 ms AND 3 = 3"
      unfolding three by (intro bit_word_eqI) (auto simp: FS_dirty_def bit_simps less_2_cases_iff)
  qed
qed

lemma trap_status_FS [simp]: "FS_dirty (trap_status md ms) \<longleftrightarrow> FS_dirty ms" "FS_off (trap_status md ms) \<longleftrightarrow> FS_off ms"
  by (simp_all add: FS_dirty_def FS_off_def trap_status_def)

lemma FS_dirty_on: "FS_dirty ms \<Longrightarrow> \<not> FS_off ms"
  by (simp add: FS_dirty_def FS_off_def)

text \<open>The registers and the program counter are in the frame, the other fields and the rest of memory are untouched.\<close>

definition saved :: "hart \<Rightarrow> usize \<Rightarrow> mem \<Rightarrow> bool" where
  "saved h f m \<longleftrightarrow> (\<forall>i < 32. load64 m (frame_slot f i) = rx i h) \<and> (\<forall>i < 32. load64 m (frame_slot f (32 + i)) = fr h i)
     \<and> load64 m (frame_slot f 65) = hpc h
     \<and> (\<forall>i \<in> {64, 66, 67, 68, 69}. load64 m (frame_slot f i) = load64 (hmem h) (frame_slot f i))
     \<and> (\<forall>x. \<not> in_region f 560 x \<longrightarrow> m x = hmem h x)"

lemma m_trap_vector_saves:
  assumes fits: "frame_ok f" and f: "csr h Mscratch = f" and fs: "FS_dirty (csr h Mstatus)"
  obtains h' where "exec (m_trap_vector k) (take_trap c v h) = Some h'" "saved h f (hmem h')"
    "csr h' = csr (take_trap c v h)" "hmode h' = Machine" "htlb h' = htlb h"
    "rx (gp A0) h' = hpc h" "rx (gp A1) h' = v" "rx (gp A2) h' = c" "rx (gp A3) h' = csr h Mhartid" "rx (gp A5) h' = f"
    "rx (gp Sp) h' = load64 (hmem h') k"
proof -
  define m1 where "m1 = fold (\<lambda>i m. store64 m (frame_slot f (0 + i)) (rx i h)) [0..<31] (hmem h)"
  define m2 where "m2 = store64 m1 (frame_slot f 31) (rx 31 h)"
  define m3 where "m3 = fold (\<lambda>i m. store64 m (frame_slot f (32 + i)) (fr h i)) [0..<32] m2"
  define m4 where "m4 = store64 m3 (frame_slot f 65) (hpc h)"
  let ?h0 = "wx 31 f (wcsr Mscratch (rx 31 h) (take_trap c v h))"
  have r: "rx i (take_trap c v h) = rx i h" for i by (simp add: take_trap_def rx_def)
  have ld: "load64 m4 (frame_slot f j) = (if j = 65 then hpc h else if 32 \<le> j \<and> j < 64 then fr h (j - 32) else if j < 32 then rx j h
      else load64 (hmem h) (frame_slot f j))" if "j < 70" for j
  proof -
    have "load64 m4 (frame_slot f j) = (if j = 65 then hpc h else load64 m3 (frame_slot f j))"
      using fits that by (simp add: m4_def load_frame_slot)
    moreover have "load64 m3 (frame_slot f j) = (if 32 \<le> j \<and> j < 64 then fr h (j - 32) else load64 m2 (frame_slot f j))"
      unfolding m3_def using store_slots_load [OF fits _ that, of 32 32] by simp
    moreover have "load64 m2 (frame_slot f j) = (if j = 31 then rx 31 h else load64 m1 (frame_slot f j))"
      using fits that by (simp add: m2_def load_frame_slot)
    moreover have "load64 m1 (frame_slot f j) = (if j < 31 then rx j h else load64 (hmem h) (frame_slot f j))"
      unfolding m1_def using store_slots_load [OF fits _ that, of 0 31] by simp
    ultimately show ?thesis by auto
  qed
  have out: "m4 x = hmem h x" if "\<not> in_region f 560 x" for x
  proof -
    have "m4 x = m3 x" "m2 x = m1 x" using fits that by (simp_all add: m4_def m2_def store_frame_slot_outside)
    moreover have "m3 x = m2 x" "m1 x = hmem h x"
      unfolding m3_def m1_def using store_slots_outside [OF fits _ that, of 0 31] store_slots_outside [OF fits _ that, of 32 32] by simp_all
    ultimately show ?thesis by simp
  qed
  have m1: "fold (\<lambda>i m. store64 m (frame_slot f i) (rx i ?h0)) [0..<31] (hmem h) = m1"
    unfolding m1_def by (rule fold_cong) (simp_all add: r)
  have fin: "f + 248 = frame_slot f 31" "f + 520 = frame_slot f 65" "store64 m1 (frame_slot f 31) (rx 31 h) = m2"
      "fold (\<lambda>i m. store64 m (frame_slot f (32 + i)) (fr h i)) [0..<32] m2 = m3" "store64 m3 (frame_slot f 65) (hpc h) = m4"
    by (simp_all add: frame_slot_def m2_def m3_def m4_def)
  have ex: "\<exists>h'. exec (m_trap_vector k) (take_trap c v h) = Some h' \<and> hmem h' = m4 \<and> csr h' = csr (take_trap c v h)
     \<and> hmode h' = Machine \<and> htlb h' = htlb h \<and> rx (gp A0) h' = hpc h \<and> rx (gp A1) h' = v \<and> rx (gp A2) h' = c
     \<and> rx (gp A3) h' = csr h Mhartid \<and> rx (gp A5) h' = f \<and> rx (gp Sp) h' = load64 (hmem h') k"
    using f fs m1
    by (simp add: m_trap_vector_def exec_save_gp exec_save_fp r FS_field FS_dirty_on take_trap_def)
       (auto simp: save_gp_def exec_save_fp FS_field FS_dirty_on fin)
  then obtain h' where "exec (m_trap_vector k) (take_trap c v h) = Some h'" "hmem h' = m4" "csr h' = csr (take_trap c v h)"
    "hmode h' = Machine" "htlb h' = htlb h" "rx (gp A0) h' = hpc h" "rx (gp A1) h' = v" "rx (gp A2) h' = c"
    "rx (gp A3) h' = csr h Mhartid" "rx (gp A5) h' = f" "rx (gp Sp) h' = load64 (hmem h') k" by blast
  moreover have "saved h f m4" using ld out by (simp add: saved_def)
  ultimately show thesis using that [of h'] by simp
qed

text \<open>The hart has the registers of a frame.\<close>

definition loaded_regs :: "mem \<Rightarrow> usize \<Rightarrow> hart \<Rightarrow> bool" where
  "loaded_regs m f h \<longleftrightarrow> (\<forall>i. 0 < i \<and> i < 32 \<longrightarrow> rx i h = load64 m (frame_slot f i)) \<and> (\<forall>i < 32. fr h i = load64 m (frame_slot f (32 + i)))"

lemma restore_tail:
  assumes "\<not> FS_off (csr h Mstatus)" "MPP (csr h Mstatus) = Some md" "rx 31 h = f"
  obtains h' where "exec (map (load_fp 31) [0..<32] @ map (load_gp 31) [1..<32] @ [Mret]) h = Some h'"
    "loaded_regs (hmem h) f h'" "hmem h' = hmem h" "hpc h' = csr h Mepc" "hmode h' = md" "htlb h' = htlb h"
    "\<And>c. c \<noteq> Mstatus \<Longrightarrow> csr h' c = csr h c" "FS_dirty (csr h' Mstatus)" "bit (csr h' Mstatus) 3 = bit (csr h Mstatus) 7"
proof -
  have u: "[0..<32] = 0 # [1..<32]" "[1..<32] = [1..<31] @ [31]" by (simp_all add: upt_conv_Cons upt_Suc_append [of 1 31, simplified])
  let ?h1 = "fp_dirty (h\<lparr>fr := \<lambda>k. if k \<in> set (0 # [1..<32]) then load64 (hmem h) (frame_slot f (32 + k)) else fr h k\<rparr>)"
  let ?h2 = "?h1\<lparr>xr := \<lambda>i. if i \<in> set [1..<31] then load64 (hmem h) (frame_slot f i) else xr ?h1 i\<rparr>"
  have "exec (map (load_fp 31) [0..<32] @ map (load_gp 31) [1..<32] @ [Mret]) h = exec (map (load_gp 31) [1..<32] @ [Mret]) ?h1"
    unfolding u(1) exec_load_fp [OF assms(1)] assms(3) ..
  also have "\<dots> = exec (map (load_gp 31) [31] @ [Mret]) ?h2"
    unfolding u(2) map_append append_assoc by (subst exec_load_gp) (simp_all add: assms(3) cong: if_cong)
  also have "\<dots> = mret (wx 31 (load64 (hmem h) (frame_slot f 31)) ?h2)"
    using assms(3) by (simp add: load_gp_def frame_slot_def rx_def split: bind_splits)
  finally have e: "exec (map (load_fp 31) [0..<32] @ map (load_gp 31) [1..<32] @ [Mret]) h = mret (wx 31 (load64 (hmem h) (frame_slot f 31)) ?h2)" .
  have "MPP (put_bit 14 True (put_bit 13 True (csr h Mstatus))) = Some md" using assms(2) by (simp add: MPP_def split: if_splits)
  then obtain h' where h': "mret (wx 31 (load64 (hmem h) (frame_slot f 31)) ?h2) = Some h'" "hmem h' = hmem h" "hpc h' = csr h Mepc" "hmode h' = md"
    "htlb h' = htlb h" "csr h' = (csr h)(Mstatus := csr h' Mstatus)" "FS_dirty (csr h' Mstatus)" "bit (csr h' Mstatus) 3 = bit (csr h Mstatus) 7"
    "xr h' = (xr ?h2)(31 := load64 (hmem h) (frame_slot f 31))" "fr h' = fr ?h2"
    by (auto simp: mret_def wx_def FS_dirty_def)
  have "loaded_regs (hmem h) f h'"
    unfolding loaded_regs_def rx_def h'(9,10) by (auto simp: less_Suc_eq_le)
  moreover have "csr h' c = csr h c" if "c \<noteq> Mstatus" for c
    using arg_cong [OF h'(6), of "\<lambda>g. g c"] that by simp
  ultimately show thesis using e h' that [of h'] by simp
qed

text \<open>Returning from a trap, and switching to a frame.\<close>

lemma m_trap_return_restores:
  assumes "csr h Mscratch = f" "FS_dirty (csr h Mstatus)" "MPP (csr h Mstatus) = Some md"
  obtains h' where "exec m_trap_return h = Some h'" "loaded_regs (hmem h) f h'" "hmem h' = hmem h" "hpc h' = rx (gp A0) h"
    "hmode h' = md" "htlb h' = htlb h" "\<And>c. c \<noteq> Mstatus \<Longrightarrow> c \<noteq> Mepc \<Longrightarrow> csr h' c = csr h c"
    "FS_dirty (csr h' Mstatus)" "bit (csr h' Mstatus) 3 = bit (csr h Mstatus) 7"
proof -
  let ?h = "wx 28 3 (wx 5 3 (wx 6 (csr h Mstatus) (wx 31 f (wcsr Mepc (rx (gp A0) h) h))))"
  let ?e = "exec (map (load_fp 31) [0..<32] @ map (load_gp 31) [1..<32] @ [Mret]) ?h"
  have w: "wx 5 3 (wx 5 v h) = wx 5 3 h" for v h by (simp add: wx_def)
  have "exec m_trap_return h = ?e"
    using assms(1,2) FS_field [of "csr h Mstatus"] by (simp add: m_trap_return_def w)
  moreover obtain h' where "?e = Some h'"
    "loaded_regs (hmem ?h) f h'" "hmem h' = hmem ?h" "hpc h' = csr ?h Mepc" "hmode h' = md" "htlb h' = htlb ?h"
    "\<And>c. c \<noteq> Mstatus \<Longrightarrow> csr h' c = csr ?h c" "FS_dirty (csr h' Mstatus)" "bit (csr h' Mstatus) 3 = bit (csr ?h Mstatus) 7"
    by (rule restore_tail [of ?h md f]) (use assms in \<open>simp_all add: FS_dirty_on\<close>)
  ultimately show thesis using that [of h'] by simp
qed

lemma bit_switch_status:
  "bit (0x20a0 OR push_bit 11 (CpuMode_val md) :: usize) 3 \<longleftrightarrow> False" "bit (0x20a0 OR push_bit 11 (CpuMode_val md) :: usize) 7"
  "\<not> FS_off (0x20a0 OR push_bit 11 (CpuMode_val md))" "MPP (0x20a0 OR push_bit 11 (CpuMode_val md)) = Some md"
  by (cases md; simp add: FS_off_def MPP_def bit_simps bit_numeral_rec)+

lemma switch_to_user_restores:
  assumes "rx (gp A0) h = f" "load64 (hmem h) (frame_mode f) = CpuMode_val md"
  obtains h' where "exec (switch_to_user vec) h = Some h'" "loaded_regs (hmem h) f h'" "hmem h' = hmem h"
    "hpc h' = load64 (hmem h) (frame_pc f)" "hmode h' = md" "htlb h' = htlb h" "csr h' Satp = load64 (hmem h) (frame_satp f)"
    "csr h' Mscratch = f" "csr h' Mtvec = vec" "csr h' Mie = 0xaaa" "csr h' Mhartid = csr h Mhartid"
    "FS_dirty (csr h' Mstatus)" "bit (csr h' Mstatus) 3"
proof -
  let ?v = "0x20a0 OR push_bit 11 (CpuMode_val md) :: usize"
  define g where "g = wx 31 f (wcsr Mtvec vec (wx 7 vec (wcsr Mie 0xaaa (wx 6 0xaaa (wcsr Satp (load64 (hmem h) (frame_satp f))
     (wcsr Mepc (load64 (hmem h) (frame_pc f)) (wcsr Mstatus ?v (wx 5 ?v (wx 13 (push_bit 11 (CpuMode_val md)) (wx 5 0x20a0
     (wx 13 (CpuMode_val md) (wx 12 (load64 (hmem h) (frame_satp f)) (wx 11 (load64 (hmem h) (frame_pc f)) (wcsr Mscratch f h))))))))))))))"
  let ?e = "exec (map (load_fp 31) [0..<32] @ map (load_gp 31) [1..<32] @ [Mret]) g"
  have "exec (switch_to_user vec) h = ?e"
    using assms by (simp add: switch_to_user_def g_def frame_satp_def frame_pc_def frame_mode_def)
  moreover obtain h' where "?e = Some h'"
    "loaded_regs (hmem g) f h'" "hmem h' = hmem g" "hpc h' = csr g Mepc" "hmode h' = md" "htlb h' = htlb g"
    "\<And>c. c \<noteq> Mstatus \<Longrightarrow> csr h' c = csr g c" "FS_dirty (csr h' Mstatus)" "bit (csr h' Mstatus) 3 = bit (csr g Mstatus) 7"
    by (rule restore_tail [of g md f]) (simp_all add: g_def bit_switch_status)
  ultimately show thesis using that [of h'] by (simp add: g_def bit_switch_status)
qed

section \<open>Boot\<close>

text \<open>The words that the loop writes: the section, rounded up to a multiple of 8 bytes.\<close>

lemma clear_bss_returns:
  assumes "n = (unat e - unat a + 7) div 8" "a < e" "unat e + 8 < 2 ^ 64"
  shows "clear_bss a e m = Some (store_bytes m a (replicate (8 * n) 0))"
  using assms
proof (induction n arbitrary: a m)
  case 0
  then show ?case by (simp add: word_less_nat_alt)
next
  case (Suc n)
  have ae: "unat a < unat e" using Suc.prems by (simp add: word_less_nat_alt)
  have a8: "unat (a + 8) = unat a + 8" using ae Suc.prems(3) unat_add_no_wrap [of a 8] by simp
  have z: "store64 m a 0 = store_bytes m a (replicate 8 0)"
    unfolding store64_def by (simp add: eval_nat_numeral)
  have n: "n < 2 ^ 61" using Suc.prems(1,3) unat_lt_2p64 [of e] by simp
  show ?case
  proof (cases "a + 8 < e")
    case True
    then have "unat a + 8 < unat e" using a8 by (simp add: word_less_nat_alt)
    then have "n = (unat e - unat (a + 8) + 7) div 8" using Suc.prems(1) a8 by simp
    then have "clear_bss (a + 8) e (store64 m a 0) = Some (store_bytes (store64 m a 0) (a + 8) (replicate (8 * n) 0))"
      using True Suc.prems(3) by (intro Suc.IH) simp_all
    also have "store_bytes (store64 m a 0) (a + 8) (replicate (8 * n) 0) = store_bytes m a (replicate 8 0 @ replicate (8 * n) 0)"
      unfolding z using n by (subst store_bytes_append [symmetric]) simp_all
    finally show ?thesis using True by (subst clear_bss.simps) (simp add: Let_def replicate_add [symmetric])
  next
    case False
    then have "n = 0" using Suc.prems(1) ae a8 by (simp add: word_less_nat_alt)
    then show ?thesis using False z by (subst clear_bss.simps) (simp add: Let_def)
  qed
qed

section \<open>Properties\<close>

text \<open>
  C25: boot. The first hart clears the BSS section, and nothing but the rest of its last word, and enters \<^verbatim>\<open>kinit\<close> in machine
  mode without translation, with interrupts off and the stack pointer at the end of the kernel stack. Every other hart
  enters \<^verbatim>\<open>kinit_hart\<close> with a stack of its own below, the trap vector installed and only software interrupts
  enabled, and leaves memory alone.
\<close>
theorem boot_enters_kernel:
  assumes "bss_start L < bss_end L" and "unat (bss_end L) + 8 < 2 ^ 64" and "len = unat (bss_end L) - unat (bss_start L)"
  shows "\<exists>h'. boot_start L h = Some h' \<and> hmode h' = Machine \<and> csr h' Satp = 0 \<and> rx (gp Gp) h' = global_pointer L
     \<and> (csr h Mhartid = 0 \<longrightarrow> hpc h' = kinit_addr L \<and> \<not> bit (csr h' Mstatus) 3 \<and> csr h' Mie = 0 \<and> rx (gp Sp) h' = stack_end L
          \<and> (\<forall>x. in_region (bss_start L) len x \<longrightarrow> hmem h' x = 0) \<and> (\<forall>x. \<not> in_region (bss_start L) (len + 7) x \<longrightarrow> hmem h' x = hmem h x))
     \<and> (csr h Mhartid \<noteq> 0 \<longrightarrow> hpc h' = kinit_hart_addr L \<and> bit (csr h' Mstatus) 3 \<and> csr h' Mie = 8 \<and> csr h' Mtvec = vector_addr L
          \<and> rx (gp Sp) h' = stack_end L - 0x10000 * csr h Mhartid \<and> hmem h' = hmem h)"
proof (cases "csr h Mhartid = 0")
  case False
  have "MPP (0x3880 :: usize) = Some Machine" "bit (0x3880 :: usize) 7" by (simp_all add: MPP_def bit_numeral_rec)
  then show ?thesis using False by (simp add: boot_start_def boot_parked_def mret_def)
next
  case True
  define n where "n = (len + 7) div 8"
  define m where "m = store_bytes (hmem h) (bss_start L) (replicate (8 * n) 0)"
  have c: "clear_bss (bss_start L) (bss_end L) (hmem h) = Some m"
    unfolding m_def by (rule clear_bss_returns) (use assms in \<open>simp_all add: n_def\<close>)
  have n: "len \<le> 8 * n" "8 * n \<le> len + 7" unfolding n_def by linarith+
  have z: "m x = 0" if "in_region (bss_start L) len x" for x
    using that n(1) by (simp add: m_def store_bytes_def in_region_def)
  have o: "m x = hmem h x" if "\<not> in_region (bss_start L) (len + 7) x" for x
    using that n(2) by (simp add: m_def store_bytes_def in_region_def)
  have "MPP (0x3800 :: usize) = Some Machine" "\<not> bit (0x3800 :: usize) 7" by (simp_all add: MPP_def bit_numeral_rec)
  then show ?thesis using True assms(1) c z o by (simp add: linorder_not_le [symmetric] boot_start_def boot_hart0_def mret_def)
qed

theorem boot_enters_kernel_witness:
  "\<forall>m. \<exists>h'. boot_start \<lparr>global_pointer = 0x80001800, bss_start = 0x80003000, bss_end = 0x80003005, stack_end = 0x80083008, kinit_addr = 0x80000400,
        kinit_hart_addr = 0x80000500, vector_addr = 0x80000100, after_kinit = 0x80000060, park_loop = 0x800000c0\<rparr>
      \<lparr>xr = \<lambda>_. 0, fr = \<lambda>_. 0, csr = \<lambda>_. 0, hpc = 0x80000000, hmode = Machine, htlb = Map.empty, hmem = m\<rparr> = Some h'
    \<and> hpc h' = 0x80000400 \<and> hmem h' 0x80003004 = 0 \<and> hmem h' 0x8000300c = m 0x8000300c \<and> rx (gp Sp) h' = 0x80083008"
proof
  fix m
  let ?L = "\<lparr>global_pointer = 0x80001800, bss_start = 0x80003000, bss_end = 0x80003005, stack_end = 0x80083008, kinit_addr = 0x80000400,
        kinit_hart_addr = 0x80000500, vector_addr = 0x80000100, after_kinit = 0x80000060, park_loop = 0x800000c0\<rparr>"
  let ?h = "\<lparr>xr = \<lambda>_. 0, fr = \<lambda>_. 0, csr = \<lambda>_. 0, hpc = 0x80000000, hmode = Machine, htlb = Map.empty, hmem = m\<rparr>"
  have "in_region 0x80003000 5 0x80003004" "\<not> in_region 0x80003000 12 0x8000300c" by (simp_all add: in_region_def)
  then show "\<exists>h'. boot_start ?L ?h = Some h' \<and> hpc h' = 0x80000400 \<and> hmem h' 0x80003004 = 0 \<and> hmem h' 0x8000300c = m 0x8000300c
      \<and> rx (gp Sp) h' = 0x80083008"
    using boot_enters_kernel [of ?L 5 ?h] by fastforce
qed

end
