(* ===== verification/Context_Switch.thy ===== *)
theory Context_Switch
  imports Hart Trap
begin

text \<open>
  The path of a trap through assembly and Rust: \<^verbatim>\<open>asm/trap.S\<close> saves the registers, \<^verbatim>\<open>m_trap\<close> runs, and the
  assembly returns to the interrupted program or switches to another one; and the way into it that kernel processes take, the
  wrappers of \<^verbatim>\<open>syscall.rs\<close> around \<^verbatim>\<open>make_syscall\<close>.
\<close>

section \<open>Traps\<close>

text \<open>
  The addresses that the linker gives to \<^verbatim>\<open>m_trap_vector\<close>, the variable \<^verbatim>\<open>KERNEL_STACK_END\<close> and the
  \<^verbatim>\<open>ecall\<close> of \<^verbatim>\<open>make_syscall\<close>.
\<close>

record symbols =
  sym_vector :: usize
  sym_stack_end :: usize
  sym_ecall :: usize

definition rust_switch_to_user :: "symbols \<Rightarrow> usize \<Rightarrow> hart \<Rightarrow> hart option" where
  "rust_switch_to_user A f h = exec (switch_to_user (sym_vector A)) (wx (gp A0) f h)"

text \<open>
  A trap from beginning to end. The compiled code of \<^verbatim>\<open>m_trap\<close> may leave anything in the registers but its result; \<open>R\<close> and
  \<open>F\<close> are what it leaves.
\<close>

definition finish_trap :: "symbols \<Rightarrow> trap_result \<Rightarrow> hart \<Rightarrow> hart option" where
  "finish_trap A r h = (case r of
     ReturnTo pc' \<Rightarrow> exec m_trap_return (wx (gp A0) pc' h)
   | SwitchTo f \<Rightarrow> rust_switch_to_user A f h)"

definition handle_trap ::
    "hardware \<Rightarrow> image \<Rightarrow> symbols \<Rightarrow> (nat \<Rightarrow> usize) \<Rightarrow> (nat \<Rightarrow> u64) \<Rightarrow> usize \<Rightarrow> usize \<Rightarrow> hart \<times> 'a trap_st_scheme
      \<Rightarrow> (hart \<times> 'a trap_st_scheme) option" where
  "handle_trap H I A R F cause tval = (\<lambda>(h, s). do {
     h \<leftarrow> exec (m_trap_vector (sym_stack_end A)) (take_trap cause tval h);
     (r, s) \<leftarrow> m_trap H I (rx (gp A0) h) (rx (gp A2) h) (rx (gp A5) h) (s\<lparr>memory := hmem h\<rparr>);
     h \<leftarrow> finish_trap A r (h\<lparr>xr := R, fr := F, hmem := memory s\<rparr>);
     Some (h, s)
   })"

section \<open>System calls of kernel processes\<close>

text \<open>The registers at the \<^verbatim>\<open>ecall\<close>; when the process goes on, the result of the call is in \<^verbatim>\<open>A0\<close>.\<close>

definition do_make_syscall ::
    "symbols \<Rightarrow> usize \<Rightarrow> usize \<Rightarrow> usize \<Rightarrow> usize \<Rightarrow> usize \<Rightarrow> usize \<Rightarrow> usize \<Rightarrow> hart \<Rightarrow> hart option" where
  "do_make_syscall A sysno arg0 arg1 arg2 arg3 arg4 arg5 h = do {
     let h = wx (gp A0) sysno h;
     let h = wx (gp A1) arg0 h;
     let h = wx (gp A2) arg1 h;
     let h = wx (gp A3) arg2 h;
     let h = wx (gp A4) arg3 h;
     let h = wx (gp A5) arg4 h;
     let h = wx (gp A6) arg5 h;
     h \<leftarrow> exec make_syscall h;
     Some (h\<lparr>hpc := sym_ecall A\<rparr>)
   }"

definition syscall_yield :: "symbols \<Rightarrow> hart \<Rightarrow> hart option" where
  "syscall_yield A h = do_make_syscall A 1 0 0 0 0 0 0 h"

definition syscall_exit :: "symbols \<Rightarrow> hart \<Rightarrow> hart option" where
  "syscall_exit A h = do_make_syscall A 93 0 0 0 0 0 0 h"

definition syscall_execv :: "symbols \<Rightarrow> usize \<Rightarrow> usize \<Rightarrow> hart \<Rightarrow> hart option" where
  "syscall_execv A path argv h = do_make_syscall A 11 path argv 0 0 0 0 h"

definition syscall_fs_read :: "symbols \<Rightarrow> usize \<Rightarrow> u32 \<Rightarrow> usize \<Rightarrow> u32 \<Rightarrow> u32 \<Rightarrow> hart \<Rightarrow> hart option" where
  "syscall_fs_read A bdev inode buffer sz offset h = do_make_syscall A 63 bdev (ucast inode) buffer (ucast sz) (ucast offset) 0 h"

definition syscall_block_read :: "symbols \<Rightarrow> usize \<Rightarrow> usize \<Rightarrow> u32 \<Rightarrow> u32 \<Rightarrow> hart \<Rightarrow> hart option" where
  "syscall_block_read A bdev buffer sz offset h = do_make_syscall A 180 bdev buffer (ucast sz) (ucast offset) 0 0 h"

definition syscall_sleep :: "symbols \<Rightarrow> usize \<Rightarrow> hart \<Rightarrow> hart option" where
  "syscall_sleep A duration h = do_make_syscall A 10 duration 0 0 0 0 0 h"

definition syscall_get_pid :: "symbols \<Rightarrow> hart \<Rightarrow> hart option" where
  "syscall_get_pid A h = do_make_syscall A 172 0 0 0 0 0 0 h"

definition syscall_fs_write :: "symbols \<Rightarrow> usize \<Rightarrow> u32 \<Rightarrow> usize \<Rightarrow> u32 \<Rightarrow> u32 \<Rightarrow> hart \<Rightarrow> hart option" where
  "syscall_fs_write A bdev inode buffer sz offset h = do_make_syscall A 65 bdev (ucast inode) buffer (ucast sz) (ucast offset) 0 h"

definition syscall_block_write :: "symbols \<Rightarrow> usize \<Rightarrow> usize \<Rightarrow> u32 \<Rightarrow> u32 \<Rightarrow> hart \<Rightarrow> hart option" where
  "syscall_block_write A bdev buffer sz offset h = do_make_syscall A 181 bdev buffer (ucast sz) (ucast offset) 0 0 h"

text \<open>
  The two functions of \<^verbatim>\<open>process.rs\<close> that only make a call: a round of the loop of \<^verbatim>\<open>init_process\<close>, and \<^verbatim>\<open>ra_delete_proc\<close>, to which
  every kernel process returns.
\<close>

definition init_process_round :: "symbols \<Rightarrow> hart \<Rightarrow> hart option" where
  "init_process_round A h = syscall_yield A h"

definition return_to_exit :: "symbols \<Rightarrow> hart \<Rightarrow> hart option" where
  "return_to_exit A h = syscall_exit A h"

text \<open>The cause of an \<^verbatim>\<open>ecall\<close> tells the mode it comes from.\<close>

definition ecall_cause :: "CpuMode \<Rightarrow> usize" where
  "ecall_cause md = 8 + CpuMode_val md"

section \<open>A hart that runs a process\<close>

text \<open>
  The hart runs the process of a frame: \<^verbatim>\<open>mscratch\<close> points to the frame, the trap vector is installed, the floating point
  unit counts as dirty, so that its registers are saved, and the address space and the mode are those of the frame.
\<close>

definition runs :: "symbols \<Rightarrow> usize \<Rightarrow> hart \<Rightarrow> bool" where
  "runs A f h \<longleftrightarrow> frame_ok f \<and> csr h Mscratch = f \<and> csr h Mtvec = sym_vector A \<and> FS_dirty (csr h Mstatus)
     \<and> csr h Satp = load64 (hmem h) (frame_satp f) \<and> load64 (hmem h) (frame_mode f) = CpuMode_val (hmode h)"

text \<open>The hart is where the frame says: registers, program counter, address space and mode.\<close>

definition resumed :: "symbols \<Rightarrow> usize \<Rightarrow> hart \<Rightarrow> bool" where
  "resumed A f h \<longleftrightarrow> runs A f h \<and> loaded_regs (hmem h) f h \<and> hpc h = load64 (hmem h) (frame_pc f) \<and> bit (csr h Mstatus) 3"

text \<open>Two harts on which a program cannot tell the difference.\<close>

definition same_context :: "hart \<Rightarrow> hart \<Rightarrow> bool" where
  "same_context h h' \<longleftrightarrow> (\<forall>i < 32. rx i h' = rx i h) \<and> (\<forall>i < 32. fr h' i = fr h i) \<and> hpc h' = hpc h \<and> hmode h' = hmode h
     \<and> csr h' Satp = csr h Satp"

lemma switch_resumes:
  assumes "frame_ok f" "load64 (hmem h) (frame_mode f) = CpuMode_val md"
  obtains h' where "rust_switch_to_user A f h = Some h'" "resumed A f h'" "hmem h' = hmem h" "hmode h' = md"
    "csr h' Mhartid = csr h Mhartid"
proof -
  have "load64 (hmem (wx (gp A0) f h)) (frame_mode f) = CpuMode_val md" "rx (gp A0) (wx (gp A0) f h) = f" using assms(2) by simp_all
  from switch_to_user_restores [OF this(2,1), of "sym_vector A"] obtain h' where
    "exec (switch_to_user (sym_vector A)) (wx (gp A0) f h) = Some h'" "loaded_regs (hmem h) f h'" "hmem h' = hmem h"
    "hpc h' = load64 (hmem h) (frame_pc f)" "hmode h' = md" "csr h' Satp = load64 (hmem h) (frame_satp f)"
    "csr h' Mscratch = f" "csr h' Mtvec = sym_vector A" "csr h' Mhartid = csr h Mhartid" "FS_dirty (csr h' Mstatus)" "bit (csr h' Mstatus) 3"
    by (metis wx_fields(1,3))
  then show thesis using assms that [of h'] by (simp add: rust_switch_to_user_def resumed_def runs_def)
qed

text \<open>A frame that still holds what was saved gives back the context.\<close>

lemma saved_resumed:
  assumes "runs A f h" "saved h f m" "resumed A f h'" "\<And>i. i < 70 \<Longrightarrow> load64 (hmem h') (frame_slot f i) = load64 m (frame_slot f i)"
  shows "same_context h h'"
proof -
  have r: "rx i h' = rx i h" "fr h' i = fr h i" if "i < 32" for i
    using that assms(2-4) by (cases "i = 0"; simp add: saved_def resumed_def loaded_regs_def rx_def)+
  have "hpc h' = hpc h" using assms(2-4) by (simp add: saved_def resumed_def frame_field_slots)
  moreover have "csr h' Satp = csr h Satp" "CpuMode_val (hmode h') = CpuMode_val (hmode h)"
    using assms by (simp_all add: saved_def resumed_def runs_def frame_field_slots)
  moreover have "CpuMode_val a = CpuMode_val b \<longleftrightarrow> a = b" for a b by (cases a; cases b) simp_all
  ultimately show ?thesis using r by (simp add: same_context_def)
qed

lemma frame_slot_cong:
  assumes "frame_ok f" "\<And>x. in_region f 560 x \<Longrightarrow> m' x = m x" "i < 70"
  shows "load64 m' (frame_slot f i) = load64 m (frame_slot f i)"
proof (rule load64_cong)
  fix x assume x: "in_region (frame_slot f i) 8 x"
  have "in_region f 560 x"
    using x assms(1,3) unat_frame_slot [OF assms(1,3)] by (auto simp: in_region_iff frame_ok_def)
  then show "m' x = m x" by (rule assms(2))
qed

lemma frame_slot_disjoint:
  assumes "disjoint_regions f 560 g 560" "\<And>x. \<not> in_region f 560 x \<Longrightarrow> m' x = m x" "i < 70"
  shows "load64 m' (frame_slot g i) = load64 m (frame_slot g i)"
proof (rule frame_slot_cong [OF _ _ assms(3)])
  show "frame_ok g" using assms(1) by (simp add: disjoint_regions_def frame_ok_def)
  show "m' x = m x" if "in_region g 560 x" for x
    using disjoint_regionsD [OF disjoint_regions_sym [OF assms(1)] that] by (rule assms(2))
qed

lemma MPP_trap_status [simp]: "MPP (trap_status md ms) = Some md"
  by (cases md) (simp_all add: MPP_def trap_status_def bit_numeral_rec)

text \<open>A trap saves the context, runs \<^verbatim>\<open>m_trap\<close> and ends as it says.\<close>

lemma handle_trap_saves:
  assumes "runs A f h"
  obtains m h1 where "saved h f m" "csr h1 = csr (take_trap c v h)"
    "handle_trap H I A R F c v (h, s) = m_trap H I (hpc h) c f (s\<lparr>memory := m\<rparr>)
       \<bind> (\<lambda>(r, s'). finish_trap A r (h1\<lparr>xr := R, fr := F, hmem := memory s'\<rparr>) \<bind> (\<lambda>h'. Some (h', s')))"
proof -
  have r: "frame_ok f" "csr h Mscratch = f" "FS_dirty (csr h Mstatus)" using assms by (simp_all add: runs_def)
  obtain h1 where "exec (m_trap_vector (sym_stack_end A)) (take_trap c v h) = Some h1" "saved h f (hmem h1)" "csr h1 = csr (take_trap c v h)"
    "rx (gp A0) h1 = hpc h" "rx (gp A2) h1 = c" "rx (gp A5) h1 = f"
    by (rule m_trap_vector_saves [OF r])
  then show thesis using that [of "hmem h1" h1] by (simp add: handle_trap_def)
qed

lemma finish_switch:
  assumes "frame_ok f" "load64 (hmem h) (frame_mode f) = CpuMode_val md"
  obtains h' where "finish_trap A (SwitchTo f) h = Some h'" "resumed A f h'" "hmem h' = hmem h" "hmode h' = md"
  using switch_resumes [OF assms, of A] that by (metis finish_trap_def trap_result.simps(6))

lemma finish_return:
  assumes "runs A f h" "saved h f m" "csr g = csr (take_trap c v h)" "hmem g = m"
  obtains h' where "finish_trap A (ReturnTo (hpc h)) g = Some h'" "same_context h h'" "runs A f h'" "hmem h' = m"
proof -
  have f: "frame_ok f" "csr h Mscratch = f" "csr h Mtvec = sym_vector A" "FS_dirty (csr h Mstatus)" "csr h Satp = load64 (hmem h) (frame_satp f)"
    "load64 (hmem h) (frame_mode f) = CpuMode_val (hmode h)" using assms(1) by (simp_all add: runs_def)
  let ?g = "wx (gp A0) (hpc h) g"
  have "csr ?g Mscratch = f" "FS_dirty (csr ?g Mstatus)" "MPP (csr ?g Mstatus) = Some (hmode h)"
    using f assms(3) by (simp_all add: take_trap_def)
  from m_trap_return_restores [OF this] obtain h' where h': "exec m_trap_return ?g = Some h'" "loaded_regs (hmem ?g) f h'" "hmem h' = hmem ?g"
    "hpc h' = rx (gp A0) ?g" "hmode h' = hmode h" "\<And>c. c \<noteq> Mstatus \<Longrightarrow> c \<noteq> Mepc \<Longrightarrow> csr h' c = csr ?g c" "FS_dirty (csr h' Mstatus)"
    by metis
  have k: "csr h' Satp = csr h Satp" "csr h' Mscratch = f" "csr h' Mtvec = sym_vector A" "hpc h' = hpc h" "hmem h' = m"
    using h' f assms(3,4) by (simp_all add: take_trap_def)
  have "rx i h' = rx i h" "fr h' i = fr h i" if "i < 32" for i
    using that h'(2,3) k(5) assms(2) by (cases "i = 0"; simp add: loaded_regs_def saved_def rx_def)+
  then have "same_context h h'" using k h'(5) by (simp add: same_context_def)
  moreover have "runs A f h'" using f k h'(5,7) assms(2) by (simp add: runs_def saved_def frame_field_slots)
  ultimately show thesis using that [of h'] h'(1) k(5) by (simp add: finish_trap_def)
qed

text \<open>The frame of the next process keeps its fields while the context of the interrupted one is saved.\<close>

lemma saved_other:
  assumes "saved h f m" "disjoint_regions f 560 g 560" "i < 70"
  shows "load64 m (frame_slot g i) = load64 (hmem h) (frame_slot g i)"
  by (rule frame_slot_disjoint [OF assms(2) _ assms(3)]) (use assms(1) in \<open>simp add: saved_def\<close>)

lemma saved_mode:
  assumes "saved h f m" "g = f \<or> disjoint_regions f 560 g 560"
  shows "load64 m (frame_mode g) = load64 (hmem h) (frame_mode g)"
  using assms saved_other [OF assms(1), of g 69] by (auto simp: saved_def frame_field_slots)

text \<open>Switching to a frame that still holds what was saved continues the process.\<close>

lemma saved_switch:
  assumes "runs A f h" "saved h f m" "\<And>x. in_region f 560 x \<Longrightarrow> hmem g x = m x"
  shows "\<exists>h'. rust_switch_to_user A f g = Some h' \<and> same_context h h' \<and> runs A f h' \<and> hmem h' = hmem g"
proof -
  have r: "frame_ok f" "load64 (hmem h) (frame_mode f) = CpuMode_val (hmode h)" using assms(1) by (simp_all add: runs_def)
  have s: "load64 (hmem g) (frame_slot f i) = load64 m (frame_slot f i)" if "i < 70" for i
    by (rule frame_slot_cong [OF r(1) assms(3) that])
  have "load64 (hmem g) (frame_mode f) = CpuMode_val (hmode h)"
    using s [of 69] assms(2) r(2) by (simp add: saved_def frame_field_slots)
  then obtain h' where h': "rust_switch_to_user A f g = Some h'" "resumed A f h'" "hmem h' = hmem g"
    by (rule switch_resumes [OF r(1)])
  then show ?thesis using saved_resumed [OF assms(1,2) h'(2)] s by (auto simp: resumed_def)
qed

section \<open>Properties\<close>

text \<open>
  C8: a process that is preempted does not notice. Whatever trap interrupts a process, the trap vector stores its context
  in its frame; however long other processes run in between, as long as nobody writes to the frame,
  \<^verbatim>\<open>switch_to_user\<close> continues the process with the same integer and floating point registers, program counter, address
  space and mode, with the trap vector installed again.
\<close>
theorem context_switch_roundtrip:
  assumes "runs A f h"
  shows "\<exists>h1. exec (m_trap_vector k) (take_trap c v h) = Some h1
     \<and> (\<forall>g. (\<forall>x. in_region f 560 x \<longrightarrow> hmem g x = hmem h1 x) \<longrightarrow>
          (\<exists>h'. rust_switch_to_user A f g = Some h' \<and> same_context h h' \<and> runs A f h' \<and> hmem h' = hmem g))"
proof -
  have r: "frame_ok f" "csr h Mscratch = f" "FS_dirty (csr h Mstatus)" using assms by (simp_all add: runs_def)
  obtain h1 where h1: "exec (m_trap_vector k) (take_trap c v h) = Some h1" "saved h f (hmem h1)"
    by (rule m_trap_vector_saves [OF r])
  have "\<exists>h'. rust_switch_to_user A f g = Some h' \<and> same_context h h' \<and> runs A f h' \<and> hmem h' = hmem g"
    if "\<And>x. in_region f 560 x \<Longrightarrow> hmem g x = hmem h1 x" for g
    using saved_switch [OF assms h1(2)] that by blast
  then show ?thesis using h1(1) by blast
qed

text \<open>A hart in user mode with the frame at \<open>f\<close>, its registers numbered and the memory empty.\<close>

definition example_symbols :: symbols where
  "example_symbols = \<lparr>sym_vector = 0x80000100, sym_stack_end = 0x80002000, sym_ecall = 0x80000200\<rparr>"

definition example_hart :: "usize \<Rightarrow> hart" where
  "example_hart f = \<lparr>xr = of_nat, fr = \<lambda>i. of_nat (100 + i),
     csr = (\<lambda>_. 0)(Mscratch := f, Mtvec := 0x80000100, Mstatus := 0x6000), hpc = 0x20000000, hmode = User, htlb = Map.empty,
     hmem = \<lambda>_. 0\<rparr>"

lemma load64_zero: "load64 (\<lambda>_. 0) a = 0"
  by (simp add: load64_def load_bytes_def map_replicate_const le_word_zeros)

lemma example_hart_runs: "frame_ok f \<Longrightarrow> runs example_symbols f (example_hart f)"
  by (simp add: runs_def example_hart_def example_symbols_def FS_dirty_def bit_numeral_rec load64_zero)

theorem context_switch_roundtrip_witness:
  "\<exists>h1 h'. exec (m_trap_vector 0x80002000) (take_trap 0x8000000000000007 0 (example_hart 0x1000)) = Some h1
     \<and> rust_switch_to_user example_symbols 0x1000 (h1\<lparr>xr := \<lambda>_. 0, fr := \<lambda>_. 0, hmem := (hmem h1)(0x3000 := 7)\<rparr>) = Some h'
     \<and> rx 31 h' = 31 \<and> fr h' 5 = 105 \<and> hpc h' = 0x20000000 \<and> hmode h' = User"
proof -
  have ok: "runs example_symbols 0x1000 (example_hart 0x1000)" by (rule example_hart_runs) (simp add: frame_ok_def)
  obtain h1 where h1: "exec (m_trap_vector 0x80002000) (take_trap 0x8000000000000007 0 (example_hart 0x1000)) = Some h1"
    "\<And>g. (\<forall>x. in_region 0x1000 560 x \<longrightarrow> hmem g x = hmem h1 x) \<Longrightarrow>
        \<exists>h'. rust_switch_to_user example_symbols 0x1000 g = Some h' \<and> same_context (example_hart 0x1000) h'"
    using context_switch_roundtrip [OF ok, of "0x80002000" "0x8000000000000007" 0] by blast
  let ?g = "h1\<lparr>xr := \<lambda>_. 0, fr := \<lambda>_. 0, hmem := (hmem h1)(0x3000 := 7)\<rparr>"
  have "\<forall>x. in_region 0x1000 560 x \<longrightarrow> hmem ?g x = hmem h1 x" by (auto simp: in_region_iff)
  from h1(2) [OF this] obtain h' where "rust_switch_to_user example_symbols 0x1000 ?g = Some h'" and c: "same_context (example_hart 0x1000) h'" by blast
  moreover have "rx 31 h' = rx 31 (example_hart 0x1000)" "fr h' 5 = fr (example_hart 0x1000) 5" "hpc h' = hpc (example_hart 0x1000)"
    "hmode h' = hmode (example_hart 0x1000)" using c by (simp_all add: same_context_def)
  ultimately show ?thesis using h1(1) by (auto simp: example_hart_def rx_def)
qed

text \<open>
  C7: the timer interrupt switches contexts. A hart that runs a process takes a timer interrupt while the mutex
  of the process list is free: afterwards the context of the interrupted process is in its frame, and the hart runs the next process in
  round-robin order with the registers, program counter, address space and mode of that frame and with interrupts
  enabled. With the mutex held, the interrupted process goes on with the context it had. Whatever the compiled handler leaves in the
  registers does not matter.
\<close>
theorem timer_switches_context:
  assumes "runs A f h" and "PROCESS_LIST s = Some (p # ps)" and "ps @ [p] = xs @ q # ys"
    and "\<forall>x \<in> set xs. \<not> can_run (hw_mtime H) x" and "can_run (hw_mtime H) q"
    and "frame q \<noteq> 0" and "frame_ok (frame q)" and "frame q = f \<or> disjoint_regions f 560 (frame q) 560"
    and "load64 (hmem h) (frame_mode (frame q)) = CpuMode_val md"
  shows "(mstate (PROCESS_LIST_MUTEX s) = 0 \<longrightarrow> (\<exists>h'. handle_trap H I A R F 0x8000000000000007 v (h, s)
       = Some (h', s\<lparr>memory := hmem h', PROCESS_LIST := Some (awake q # ys @ xs), PROCESS_LIST_MUTEX := Mutex_new, MTIMECMP := hw_mtime H + 20000\<rparr>)
       \<and> saved h f (hmem h') \<and> resumed A (frame q) h' \<and> hmode h' = md))
    \<and> (mstate (PROCESS_LIST_MUTEX s) = 1 \<longrightarrow> (\<exists>h'. handle_trap H I A R F 0x8000000000000007 v (h, s)
       = Some (h', s\<lparr>memory := hmem h', MTIMECMP := hw_mtime H + 20000\<rparr>) \<and> same_context h h' \<and> runs A f h'))"
proof -
  obtain m h1 where m: "saved h f m" "csr h1 = csr (take_trap 0x8000000000000007 v h)"
    "handle_trap H I A R F 0x8000000000000007 v (h, s) = m_trap H I (hpc h) 0x8000000000000007 f (s\<lparr>memory := m\<rparr>)
       \<bind> (\<lambda>(r, s'). finish_trap A r (h1\<lparr>xr := R, fr := F, hmem := memory s'\<rparr>) \<bind> (\<lambda>h'. Some (h', s')))"
    by (rule handle_trap_saves [OF assms(1)])
  have "PROCESS_LIST (s\<lparr>memory := m\<rparr>) = Some (p # ps)" using assms(2) by simp
  note t = timer_preempts [OF this assms(3-6), of I "hpc h" f]
  let ?g = "h1\<lparr>xr := R, fr := F, hmem := m\<rparr>"
  have "load64 (hmem ?g) (frame_mode (frame q)) = CpuMode_val md" using saved_mode [OF m(1) assms(8)] assms(9) by simp
  then obtain h' where h': "finish_trap A (SwitchTo (frame q)) ?g = Some h'" "resumed A (frame q) h'" "hmem h' = m" "hmode h' = md"
    by (rule finish_switch [OF assms(7), where A = A]) simp
  have "csr ?g = csr (take_trap 0x8000000000000007 v h)" "hmem ?g = m" using m(2) by simp_all
  then obtain h'' where h'': "finish_trap A (ReturnTo (hpc h)) ?g = Some h''" "same_context h h''" "runs A f h''" "hmem h'' = m"
    by (rule finish_return [OF assms(1) m(1)])
  show ?thesis using t m(1,3) h' h'' by simp
qed

theorem timer_switches_context_witness:
  "\<forall>I R F. \<exists>h' s'. handle_trap example_hardware I example_symbols R F 0x8000000000000007 0
     (example_hart 0x1000, example_trap\<lparr>PROCESS_LIST := Some [example_process 1 Running 0, example_process 2 Waiting 0, example_process 3 Sleeping 40],
        PROCESS_LIST_MUTEX := Mutex_new\<rparr>) = Some (h', s')
     \<and> csr h' Mscratch = 0x3000 \<and> rx 5 h' = 0 \<and> load64 (hmem h') 0x1028 = 5 \<and> load64 (hmem h') (frame_pc 0x1000) = 0x20000000
     \<and> PROCESS_LIST s' = Some [example_process 3 Running 40, example_process 1 Running 0, example_process 2 Waiting 0]"
proof (intro allI)
  fix I R F
  let ?p1 = "example_process 1 Running 0" and ?p2 = "example_process 2 Waiting 0" and ?p3 = "example_process 3 Sleeping 40"
  let ?s = "example_trap\<lparr>PROCESS_LIST := Some [?p1, ?p2, ?p3], PROCESS_LIST_MUTEX := Mutex_new\<rparr>" and ?h = "example_hart 0x1000"
  have ok: "runs example_symbols 0x1000 ?h" by (rule example_hart_runs) (simp add: frame_ok_def)
  have f: "frame ?p3 = 0x3000" "awake ?p3 = example_process 3 Running 40" "\<not> can_run 50 ?p2" "can_run 50 ?p3" "hw_mtime example_hardware = 50"
    by (simp_all add: example_process_def awake_def can_run_def example_hardware_def)
  have mode: "load64 (hmem ?h) (frame_mode (frame ?p3)) = CpuMode_val User" by (simp add: example_hart_def load64_zero)
  have "\<exists>h'. handle_trap example_hardware I example_symbols R F 0x8000000000000007 0 (?h, ?s)
      = Some (h', ?s\<lparr>memory := hmem h', PROCESS_LIST := Some (awake ?p3 # [?p1] @ [?p2]), PROCESS_LIST_MUTEX := Mutex_new,
          MTIMECMP := hw_mtime example_hardware + 20000\<rparr>)
      \<and> saved ?h 0x1000 (hmem h') \<and> resumed example_symbols (frame ?p3) h' \<and> hmode h' = User"
    using timer_switches_context [OF ok, of ?s ?p1 "[?p2, ?p3]" "[?p2]" ?p3 "[?p1]" example_hardware User I R F 0] mode
    by (simp add: f Mutex_new_def frame_ok_def disjoint_regions_def)
  then obtain h' where h': "handle_trap example_hardware I example_symbols R F 0x8000000000000007 0 (?h, ?s)
      = Some (h', ?s\<lparr>memory := hmem h', PROCESS_LIST := Some [example_process 3 Running 40, ?p1, ?p2], PROCESS_LIST_MUTEX := Mutex_new,
          MTIMECMP := 20050\<rparr>)" "saved ?h 0x1000 (hmem h')" "resumed example_symbols 0x3000 h'"
    by (auto simp: f)
  have "load64 (hmem h') (frame_slot 0x1000 5) = 5" "load64 (hmem h') (frame_slot 0x1000 65) = 0x20000000"
    using h'(2) by (simp_all add: saved_def example_hart_def rx_def)
  moreover have "load64 (hmem h') (frame_slot 0x3000 5) = load64 (hmem ?h) (frame_slot 0x3000 5)"
    by (rule saved_other [OF h'(2)]) (simp_all add: disjoint_regions_def)
  then have "rx 5 h' = 0" "csr h' Mscratch = 0x3000" using h'(3)
    by (simp_all add: resumed_def loaded_regs_def runs_def example_hart_def load64_zero)
  ultimately show "\<exists>h' s'. handle_trap example_hardware I example_symbols R F 0x8000000000000007 0 (?h, ?s) = Some (h', s')
     \<and> csr h' Mscratch = 0x3000 \<and> rx 5 h' = 0 \<and> load64 (hmem h') 0x1028 = 5 \<and> load64 (hmem h') (frame_pc 0x1000) = 0x20000000
     \<and> PROCESS_LIST s' = Some [example_process 3 Running 40, ?p1, ?p2]"
    using h'(1) by (simp add: frame_slot_def frame_pc_def)
qed

text \<open>The registers at the \<^verbatim>\<open>ecall\<close> of a wrapper.\<close>

lemma do_make_syscall_regs:
  "\<exists>h1. do_make_syscall A n a0 a1 a2 a3 a4 a5 h = Some h1 \<and> rx (gp A7) h1 = n \<and> rx (gp A0) h1 = a0 \<and> rx (gp A1) h1 = a1
    \<and> rx (gp A2) h1 = a2 \<and> rx (gp A3) h1 = a3 \<and> rx (gp A4) h1 = a4 \<and> rx (gp A5) h1 = a5 \<and> hpc h1 = sym_ecall A
    \<and> (\<forall>i. i \<notin> {10..17} \<longrightarrow> rx i h1 = rx i h) \<and> fr h1 = fr h \<and> csr h1 = csr h \<and> hmem h1 = hmem h \<and> hmode h1 = hmode h"
  by (auto simp: do_make_syscall_def make_syscall_def)

lemma syscall_get_pid_regs:
  "\<exists>h1. syscall_get_pid A h = Some h1 \<and> rx (gp A7) h1 = 172 \<and> (\<forall>i \<in> {10..16}. rx i h1 = 0) \<and> (\<forall>i. i \<notin> {10..17} \<longrightarrow> rx i h1 = rx i h)
    \<and> hpc h1 = sym_ecall A \<and> fr h1 = fr h \<and> csr h1 = csr h \<and> hmem h1 = hmem h \<and> hmode h1 = hmode h"
proof -
  have "{10..16} = {10, 11, 12, 13, 14, 15, 16 :: nat}" by auto
  then show ?thesis by (simp add: syscall_get_pid_def do_make_syscall_def make_syscall_def)
qed

text \<open>
  The caller of \<^verbatim>\<open>syscall_get_pid\<close> behind its \<^verbatim>\<open>ecall\<close>. The wrapper has used the registers \<^verbatim>\<open>A0\<close> to \<^verbatim>\<open>A7\<close> (numbers 10 to 17) for the call: \<^verbatim>\<open>A0\<close>
  holds the result, \<^verbatim>\<open>A1\<close> to \<^verbatim>\<open>A6\<close> the arguments 0, \<^verbatim>\<open>A7\<close> the number of the call. Everything else is as before the call.
\<close>

definition get_pid_returned :: "symbols \<Rightarrow> usize \<Rightarrow> hart \<Rightarrow> hart \<Rightarrow> bool" where
  "get_pid_returned A v h h' \<longleftrightarrow> rx (gp A0) h' = v \<and> (\<forall>i \<in> {11..16}. rx i h' = 0) \<and> rx (gp A7) h' = 172
     \<and> (\<forall>i < 32. i \<notin> {10..17} \<longrightarrow> rx i h' = rx i h) \<and> (\<forall>i < 32. fr h' i = fr h i)
     \<and> hpc h' = sym_ecall A + 4 \<and> hmode h' = hmode h \<and> csr h' Satp = csr h Satp"

text \<open>A system call writes its result and the address behind the call into the frame: the frame then holds the context at the return.\<close>

lemma saved_return:
  assumes "frame_ok f" "saved h f m"
  shows "saved (wx (gp A0) v (h\<lparr>hpc := a\<rparr>)) f (store64 (store64 m (frame_pc f) a) (frame_reg f A0) v)"
  using assms by (auto simp: saved_def frame_field_slots load_frame_slot store_frame_slot_outside)

text \<open>
  C9: a system call from the wrapper to its result. A process calls \<^verbatim>\<open>syscall_get_pid\<close>: the assembly puts the number and the
  arguments into the registers of the calling convention, the trap saves them, the kernel reads them from the frame, and then runs the
  process that is next. Whenever the caller is switched to again, at once or later, with its frame as the call has left it, it is back
  behind the \<^verbatim>\<open>ecall\<close> in its mode and address space, with its pid in \<^verbatim>\<open>A0\<close>, zeros in \<^verbatim>\<open>A1\<close> to \<^verbatim>\<open>A6\<close> and 172 in \<^verbatim>\<open>A7\<close>, which the wrapper has
  overwritten for the call, and with all other integer registers and all floating point registers as before the call.
\<close>
theorem get_pid_returns_to_caller:
  assumes "runs A f h" and "unat (sym_ecall A) + 4 < 2 ^ 64" and "mstate (PROCESS_LIST_MUTEX s) = 0"
    and "PROCESS_LIST s = Some (p # ps)" and "ps @ [p] = xs @ q # ys"
    and "\<forall>x \<in> set xs. \<not> can_run (hw_mtime H) x" and "can_run (hw_mtime H) q"
    and "frame_ok (frame q)" and "frame q = f \<or> disjoint_regions f 560 (frame q) 560"
    and "load64 (hmem h) (frame_mode (frame q)) = CpuMode_val md"
  shows "\<exists>h1 h'. syscall_get_pid A h = Some h1
    \<and> handle_trap H I A R F (ecall_cause (hmode h1)) 0 (h1, s)
      = Some (h', s\<lparr>memory := hmem h', PROCESS_LIST := Some (awake q # ys @ xs), PROCESS_LIST_MUTEX := Mutex_new, MTIMECMP := hw_mtime H + 20000\<rparr>)
    \<and> resumed A (frame q) h'
    \<and> (frame q = f \<longrightarrow> get_pid_returned A (load64 (hmem h) (frame_pid f)) h h')
    \<and> (\<forall>g. (\<forall>x. in_region f 560 x \<longrightarrow> hmem g x = hmem h' x) \<longrightarrow>
         (\<exists>h2. rust_switch_to_user A f g = Some h2 \<and> get_pid_returned A (load64 (hmem h) (frame_pid f)) h h2 \<and> runs A f h2 \<and> hmem h2 = hmem g))"
proof -
  obtain h1 where h1: "syscall_get_pid A h = Some h1" "rx (gp A7) h1 = 172" "hpc h1 = sym_ecall A" "\<forall>i. i \<notin> {10..17} \<longrightarrow> rx i h1 = rx i h"
    "fr h1 = fr h" "csr h1 = csr h" "hmem h1 = hmem h" "hmode h1 = hmode h" "\<forall>i \<in> {10..16}. rx i h1 = 0"
    using syscall_get_pid_regs [of A h] by blast
  let ?c = "ecall_cause (hmode h1)" and ?pid = "load64 (hmem h) (frame_pid f)"
  have ok: "frame_ok f" and r1: "runs A f h1" using assms(1) h1 by (simp_all add: runs_def)
  obtain m g where m: "saved h1 f m" "handle_trap H I A R F ?c 0 (h1, s) = m_trap H I (hpc h1) ?c f (s\<lparr>memory := m\<rparr>)
       \<bind> (\<lambda>(r, s'). finish_trap A r (g\<lparr>xr := R, fr := F, hmem := memory s'\<rparr>) \<bind> (\<lambda>h'. Some (h', s')))"
    by (rule handle_trap_saves [OF r1])
  define m2 where "m2 = store64 (store64 m (frame_pc f) (sym_ecall A + 4)) (frame_reg f A0) ?pid"
  have a7: "load64 m (frame_reg f A7) = 172" using m(1) h1(2) by (simp add: saved_def frame_field_slots)
  have pid: "load64 (store64 m (frame_pc f) (sym_ecall A + 4)) (frame_pid f) = ?pid"
    using m(1) ok h1(7) by (simp add: saved_def frame_field_slots load_frame_slot)
  have "do_syscall H I (hpc h1) f (s\<lparr>memory := m\<rparr>) = Some (s\<lparr>memory := m2\<rparr>)"
    using a7 pid assms(2) by (simp add: do_syscall_def reg_of_def set_reg_def uadd_def h1(3) m2_def)
  moreover have "schedule (hw_mtime H) (s\<lparr>memory := m2\<rparr>)
      = Some (frame q, s\<lparr>memory := m2, PROCESS_LIST := Some (awake q # ys @ xs), PROCESS_LIST_MUTEX := Mutex_new\<rparr>)"
    using assms(3,4) by (intro schedule_free [OF _ _ procfindloop_returns [OF assms(5-7)]]) simp_all
  ultimately have t: "m_trap H I (hpc h1) ?c f (s\<lparr>memory := m\<rparr>) = Some (SwitchTo (frame q),
      s\<lparr>memory := m2, PROCESS_LIST := Some (awake q # ys @ xs), PROCESS_LIST_MUTEX := Mutex_new, MTIMECMP := hw_mtime H + 20000\<rparr>)"
    by (cases "hmode h1") (simp_all add: m_trap_def ecall_cause_def reschedule_def next_switch)
  define hc where "hc = wx (gp A0) ?pid (h1\<lparr>hpc := sym_ecall A + 4\<rparr>)"
  have sv: "saved hc f m2" unfolding hc_def m2_def by (rule saved_return [OF ok m(1)])
  have rc: "runs A f hc" using r1 by (simp add: hc_def runs_def)
  have ret: "get_pid_returned A ?pid h k" if "same_context hc k" for k
    using that h1 by (auto simp: same_context_def get_pid_returned_def hc_def)
  let ?g = "g\<lparr>xr := R, fr := F, hmem := m2\<rparr>"
  have "load64 m2 (frame_mode (frame q)) = load64 m (frame_mode (frame q))"
    using assms(9)
  proof
    assume "frame q = f"
    then show ?thesis using ok by (simp add: m2_def frame_field_slots load_frame_slot)
  next
    assume d: "disjoint_regions f 560 (frame q) 560"
    show ?thesis unfolding frame_field_slots
      by (rule frame_slot_disjoint [OF d]) (simp_all add: m2_def frame_field_slots store_frame_slot_outside [OF ok])
  qed
  then have "load64 (hmem ?g) (frame_mode (frame q)) = CpuMode_val md" using saved_mode [OF m(1) assms(9)] assms(10) h1(7) by simp
  then obtain h' where h': "finish_trap A (SwitchTo (frame q)) ?g = Some h'" "resumed A (frame q) h'" "hmem h' = m2"
    by (rule finish_switch [OF assms(8), where A = A]) simp
  have "get_pid_returned A ?pid h h'" if "frame q = f"
    using ret saved_resumed [OF rc sv] h'(2,3) that by simp
  moreover have "\<exists>h2. rust_switch_to_user A f k = Some h2 \<and> get_pid_returned A ?pid h h2 \<and> runs A f h2 \<and> hmem h2 = hmem k"
    if "\<forall>x. in_region f 560 x \<longrightarrow> hmem k x = hmem h' x" for k
    using saved_switch [OF rc sv, of k] ret that h'(3) by blast
  ultimately show ?thesis using h1(1) m(2) t h' by simp
qed


theorem get_pid_returns_to_caller_witness:
  "\<forall>I R F. \<exists>h1 h' s'. syscall_get_pid example_symbols ((example_hart 0x1000)\<lparr>hmem := (\<lambda>_. 0)(0x1220 := 1)\<rparr>) = Some h1
     \<and> handle_trap example_hardware I example_symbols R F (ecall_cause (hmode h1)) 0
         (h1, example_trap\<lparr>PROCESS_LIST := Some [example_process 1 Running 0], PROCESS_LIST_MUTEX := Mutex_new\<rparr>) = Some (h', s')
     \<and> rx (gp A0) h' = 1 \<and> rx (gp A7) h' = 172 \<and> rx (gp S2) h' = 18 \<and> hpc h' = 0x80000204"
proof (intro allI)
  fix I R F
  let ?p = "example_process 1 Running 0" and ?h = "(example_hart 0x1000)\<lparr>hmem := (\<lambda>_. 0)(0x1220 := 1)\<rparr>"
  let ?s = "example_trap\<lparr>PROCESS_LIST := Some [?p], PROCESS_LIST_MUTEX := Mutex_new\<rparr>"
  have f: "frame ?p = 0x1000" "can_run (hw_mtime example_hardware) ?p" "sym_ecall example_symbols = 0x80000200"
    by (simp_all add: example_process_def can_run_def example_symbols_def)
  have l: "load64 (hmem ?h) (frame_mode 0x1000) = 0" "load64 (hmem ?h) (frame_satp 0x1000) = 0" "load64 (hmem ?h) (frame_pid 0x1000) = 1"
    by (simp_all add: load64_def load_bytes_def upt_rec frame_mode_def frame_satp_def frame_pid_def)
  have ok: "runs example_symbols 0x1000 ?h"
    using l by (simp add: runs_def example_hart_def example_symbols_def FS_dirty_def bit_numeral_rec frame_ok_def)
  have "rx (gp S2) ?h = 18" by (simp add: example_hart_def rx_def)
  then show "\<exists>h1 h' s'. syscall_get_pid example_symbols ?h = Some h1
     \<and> handle_trap example_hardware I example_symbols R F (ecall_cause (hmode h1)) 0 (h1, ?s) = Some (h', s')
     \<and> rx (gp A0) h' = 1 \<and> rx (gp A7) h' = 172 \<and> rx (gp S2) h' = 18 \<and> hpc h' = 0x80000204"
    using get_pid_returns_to_caller [OF ok, of ?s ?p "[]" "[]" ?p "[]" example_hardware User I R F] f l
    by (fastforce simp: Mutex_new_def frame_ok_def get_pid_returned_def)
qed

end
