(* ===== verification/Process_Start.thy ===== *)
theory Process_Start
  imports Context_Switch Isolation
begin

text \<open>
  How a process starts: the loader or \<^verbatim>\<open>add_kernel_process\<close> has written its frame, and the first
  \<^verbatim>\<open>switch_to_user\<close> loads that frame into the hart.
\<close>

section \<open>Frames in pages\<close>

lemma frame_ok_page:
  assumes "page_inv s" "j < num_pages s"
  shows "frame_ok (page_addr s j)"
proof -
  have "4096 * j + 4096 \<le> 4096 * num_pages s" using assms(2) by linarith
  then show ?thesis
    using page_addr_checked(3) [of s j] assms by (simp add: frame_ok_def page_inv_def page_geometry_def)
qed

lemma slot_frame: "slot s j k = load64 (memory s) (frame_slot (page_addr s j) k)"
  by (simp add: slot_def slot_addr_def frame_slot_def mult.commute)

lemma resumed_reg: "resumed A f h \<Longrightarrow> 0 < gp r \<Longrightarrow> rx (gp r) h = load64 (hmem h) (frame_slot f (gp r))"
  using gp_less [of r] by (simp add: resumed_def loaded_regs_def)

section \<open>Kernel processes\<close>

text \<open>
  A kernel process starts in machine mode at its function, with the stack pointer behind its stack and the address of the routine
  that deletes it as the return address.
\<close>

lemma kernel_process_starts:
  assumes "page_inv s" and "35 \<le> num_pages s" and "PROCESS_LIST s = Some pl"
    and "new_process s = Some (p, s0)" and "frame p \<noteq> null_mut" and "stack p \<noteq> null_mut" and "mmu_table p \<noteq> null_mut"
  shows "\<exists>s'. add_kernel_process ra fn s = Some (NEXT_PID s, s') \<and> PROCESS_LIST s' = Some (pl @ [p])
    \<and> (\<forall>h. hmem h = memory s' \<longrightarrow> (\<exists>h'. rust_switch_to_user A (frame p) h = Some h' \<and> runs A (frame p) h' \<and> hpc h' = fn
         \<and> hmode h' = Machine \<and> rx (gp Ra) h' = ra \<and> rx (gp Sp) h' = stack p + 35 * 4096))"
proof -
  obtain s' jf js jt where s': "add_kernel_process ra fn s = Some (NEXT_PID s, s')" "PROCESS_LIST s' = Some (pl @ [p])"
    "p_pid p = NEXT_PID s" "pstate p = Running" "NEXT_PID s' = NEXT_PID s + 1"
    "frame p = page_addr s jf" "stack p = page_addr s js" "mmu_table p = page_addr s jt"
    "frame_ready s' jf fn ra (page_addr s js + 0x23000) (NEXT_PID s)"
    "page_inv s'" "blocks s' = {(jf, 1), (js, 35), (jt, 1)} \<union> blocks s" "{(jf, 1), (js, 35), (jt, 1)} \<inter> blocks s = {}"
    "\<forall>i l k. (i, l) \<in> blocks s \<longrightarrow> i \<le> k \<longrightarrow> k < i + l \<longrightarrow> page_bytes s' k = page_bytes s k"
    "distinct [(jf, 1 :: nat), (js, 35), (jt, 1)]" "page_bytes s' jt = replicate 4096 0" "page_addr s' = page_addr s"
    "pdata p = ProcessData_new" "program p = null_mut"
    by (rule add_kernel_process_facts [OF assms])
  have "(jf, 1) \<in> blocks s'" unfolding s'(11) by simp
  then have "jf < num_pages s'" by (simp add: blocks_def run_at_def)
  then have ok: "frame_ok (frame p)" using frame_ok_page [OF s'(10)] s'(6,16) by simp
  have r: "load64 (memory s') (frame_slot (frame p) 65) = fn" "load64 (memory s') (frame_slot (frame p) 1) = ra"
    "load64 (memory s') (frame_slot (frame p) 2) = stack p + 0x23000" "load64 (memory s') (frame_slot (frame p) 69) = CpuMode_val Machine"
    using s'(6,7,9,16) by (simp_all add: frame_ready_def slot_frame)
  have "\<exists>h'. rust_switch_to_user A (frame p) h = Some h' \<and> runs A (frame p) h' \<and> hpc h' = fn
      \<and> hmode h' = Machine \<and> rx (gp Ra) h' = ra \<and> rx (gp Sp) h' = stack p + 35 * 4096" if h: "hmem h = memory s'" for h
  proof -
    have "load64 (hmem h) (frame_mode (frame p)) = CpuMode_val Machine" using r(4) h by (simp add: frame_field_slots)
    then obtain h' where h': "rust_switch_to_user A (frame p) h = Some h'" "resumed A (frame p) h'" "hmem h' = hmem h" "hmode h' = Machine"
      by (rule switch_resumes [OF ok])
    then show ?thesis
      using resumed_reg [OF h'(2), of Ra] resumed_reg [OF h'(2), of Sp] r h by (simp add: resumed_def frame_field_slots)
  qed
  then show ?thesis using s'(1,2) by blast
qed

section \<open>Programs\<close>

lemma loaded_switch:
  assumes l: "loaded s ef n p s' t (jf, js, jp)" and h: "hmem h = memory s'"
  obtains h' where "rust_switch_to_user A (frame p) h = Some h'" "resumed A (frame p) h'" "hmem h' = hmem h" "hmode h' = User"
    "hpc h' = eh_entry_addr (ef_header ef)" "rx (gp Sp) h' = STACK_ADDR + 34 * 4096"
    "csr h' Satp = build_satp Sv39 (ucast (p_pid p)) (mmu_table p)"
proof -
  note d = loadedD [OF l]
  have "jf < num_pages s'" using d(15) by (simp add: blocks_def run_at_def)
  then have ok: "frame_ok (frame p)" using frame_ok_page [OF d(12)] d(3,13) by simp
  have r: "load64 (hmem h) (frame_slot (frame p) 65) = eh_entry_addr (ef_header ef)"
    "load64 (hmem h) (frame_slot (frame p) 2) = STACK_ADDR + 34 * 4096" "load64 (hmem h) (frame_slot (frame p) 69) = CpuMode_val User"
    "load64 (hmem h) (frame_slot (frame p) 64) = build_satp Sv39 (ucast (p_pid p)) (mmu_table p)"
    using d(3,4,13) h by (simp_all add: user_frame_def slot_frame)
  have "load64 (hmem h) (frame_mode (frame p)) = CpuMode_val User" using r(3) by (simp add: frame_field_slots)
  then obtain h' where h': "rust_switch_to_user A (frame p) h = Some h'" "resumed A (frame p) h'" "hmem h' = hmem h" "hmode h' = User"
    by (rule switch_resumes [OF ok])
  show thesis
    by (rule that [OF h']) (use resumed_reg [OF h'(2), of Sp] r h'(2,3) in \<open>simp_all add: resumed_def runs_def frame_field_slots\<close>)
qed

section \<open>Contexts and isolation\<close>

text \<open>A process of the list stores a byte at an address that its page table maps.\<close>

definition user_store :: "'a proc_st_scheme \<Rightarrow> 'a proc_st_scheme \<Rightarrow> bool" where
  "user_store s s' \<longleftrightarrow> (\<exists>pl p va a v. PROCESS_LIST s = Some pl \<and> p \<in> set pl \<and> virt_to_phys (mmu_table p) va s = Some (Some a)
     \<and> s' = s\<lparr>memory := store_bytes (memory s) a [v]\<rparr>)"

lemma user_stores_keep_frame:
  assumes "user_store\<^sup>*\<^sup>* s s'" and "isolated s ws" and w: "w \<in> set ws"
  shows "isolated s' ws \<and> (\<forall>x. in_region (frame (fst w)) 560 x \<longrightarrow> memory s' x = memory s x)"
  using assms(1)
proof (induction rule: rtranclp_induct)
  case (step s1 s2)
  then obtain pl p va a v where u: "PROCESS_LIST s1 = Some pl" "p \<in> set pl" "virt_to_phys (mmu_table p) va s1 = Some (Some a)"
    "s2 = s1\<lparr>memory := store_bytes (memory s1) a [v]\<rparr>" by (auto simp: user_store_def)
  have i: "isolated s1 ws" using step.IH by blast
  obtain y where y: "y \<in> set ws" "p = fst y" using u(1,2) i by (auto simp: isolated_def)
  have "\<not> in_region (frame (fst w)) 4096 a" using frame_out_of_reach [OF i y(1) w] u(3) y(2) by blast
  then have "memory s2 x = memory s1 x" if "in_region (frame (fst w)) 560 x" for x
    using that unfolding u(4) store_bytes_single by (auto simp: in_region_def)
  then show ?case using isolated_store [OF i y(1)] u(3,4) y(2) step.IH by auto
qed (use assms(2) in simp)

lemma isolated_saved:
  assumes i: "isolated s ws" and w: "w \<in> set ws" and m: "\<And>x. \<not> in_region (frame (fst w)) 560 x \<Longrightarrow> m x = memory s x"
  shows "isolated (s\<lparr>memory := m\<rparr>) ws"
proof -
  obtain p t bs where pw: "w = (p, t, bs)" by (cases w)
  obtain jf lf where f: "(jf, lf) \<in> set bs" "frame p = page_addr s jf" "0 < lf"
    using frame_block [OF i w [unfolded pw]] by blast
  let ?xs = "load_bytes m (frame p) 560"
  have "store_bytes (memory s) (frame p) ?xs = m"
  proof
    fix x show "store_bytes (memory s) (frame p) ?xs x = m x"
      using m [of x] pw by (auto simp: store_bytes_def in_region_def)
  qed
  moreover have "0 + length ?xs \<le> 4096 * lf" using f(3) by simp
  ultimately show ?thesis using isolated_block_write [OF i w [unfolded pw] f(1), of 0 ?xs] f(2) by simp
qed

section \<open>Properties\<close>

text \<open>
  C11: a loaded program starts as its file says. Once the loader has returned, the first switch to the new process leaves the hart in user mode at
  the entry point of the file, with the stack pointer in the last page of the stack, under Sv39 translation with the root table of the
  process and its pid as the address space number, and with the trap vector installed and interrupts enabled.
\<close>
theorem loaded_program_starts:
  assumes "can_load E fl s ef n"
  shows "\<exists>p s'. load_proc E fl s = Some (Inr p, s')
    \<and> (\<forall>h. hmem h = memory s' \<longrightarrow> (\<exists>h'. rust_switch_to_user A (frame p) h = Some h' \<and> runs A (frame p) h'
         \<and> hpc h' = eh_entry_addr (ef_header ef) \<and> hmode h' = User \<and> rx (gp Sp) h' = STACK_ADDR + 34 * 4096
         \<and> csr h' Satp = build_satp Sv39 (ucast (p_pid p)) (mmu_table p) \<and> csr h' Mtvec = sym_vector A \<and> bit (csr h' Mstatus) 3))"
proof -
  obtain p s' t jf js jp where l: "load_proc E fl s = Some (Inr p, s')" "loaded s ef (unat n) p s' t (jf, js, jp)"
    by (rule can_load_loaded [OF assms])
  have "\<exists>h'. rust_switch_to_user A (frame p) h = Some h' \<and> runs A (frame p) h'
         \<and> hpc h' = eh_entry_addr (ef_header ef) \<and> hmode h' = User \<and> rx (gp Sp) h' = STACK_ADDR + 34 * 4096
         \<and> csr h' Satp = build_satp Sv39 (ucast (p_pid p)) (mmu_table p) \<and> csr h' Mtvec = sym_vector A \<and> bit (csr h' Mstatus) 3"
    if h: "hmem h = memory s'" for h
  proof -
    obtain h' where "rust_switch_to_user A (frame p) h = Some h'" "resumed A (frame p) h'" "hmem h' = hmem h" "hmode h' = User"
      "hpc h' = eh_entry_addr (ef_header ef)" "rx (gp Sp) h' = STACK_ADDR + 34 * 4096"
      "csr h' Satp = build_satp Sv39 (ucast (p_pid p)) (mmu_table p)"
      by (rule loaded_switch [OF l(2) h])
    then show ?thesis by (simp add: resumed_def runs_def)
  qed
  then show ?thesis using l(1) by blast
qed

theorem loaded_program_starts_witness:
  "\<forall>E. \<exists>p s' h'. load_proc E example_elf example_user = Some (Inr p, s')
     \<and> rust_switch_to_user example_symbols (frame p) ((example_hart 0)\<lparr>hmem := memory s'\<rparr>) = Some h'
     \<and> hpc h' = 0x20000078 \<and> hmode h' = User"
proof
  fix E :: "'d env"
  obtain ef q where e: "ef_header ef = ElfHeader_of (take 64 example_elf)" "can_load E example_elf example_user ef 2"
    by (rule example_elf_loads) (simp_all add: example_elf_facts)
  obtain p s' where p: "load_proc E example_elf example_user = Some (Inr p, s')"
    "\<And>h. hmem h = memory s' \<Longrightarrow> \<exists>h'. rust_switch_to_user example_symbols (frame p) h = Some h' \<and> hpc h' = eh_entry_addr (ef_header ef) \<and> hmode h' = User"
    using loaded_program_starts [OF e(2), of example_symbols] by blast
  have "hmem ((example_hart 0)\<lparr>hmem := memory s'\<rparr>) = memory s'" by simp
  from p(2) [OF this] show "\<exists>p s' h'. load_proc E example_elf example_user = Some (Inr p, s')
     \<and> rust_switch_to_user example_symbols (frame p) ((example_hart 0)\<lparr>hmem := memory s'\<rparr>) = Some h' \<and> hpc h' = 0x20000078 \<and> hmode h' = User"
    using p(1) e(1) example_elf_facts(7) by fastforce
qed

text \<open>
  C2: the context of a process is safe from the others. When the processes are isolated, a process is interrupted, and then any processes, the
  interrupted one included, store anything at any addresses that their page tables map, for as long as one likes, the
  interrupted process continues with exactly the registers, program counter, mode and address space it had.
\<close>
theorem context_survives_user_code:
  assumes "isolated s ws" and "w \<in> set ws" and "f = frame (fst w)" and "runs A f h" and "memory s = hmem h"
  shows "\<exists>h1. exec (m_trap_vector k) (take_trap c v h) = Some h1
    \<and> (\<forall>s' g. user_store\<^sup>*\<^sup>* (s\<lparr>memory := hmem h1\<rparr>) s' \<longrightarrow> hmem g = memory s' \<longrightarrow>
         (\<exists>h'. rust_switch_to_user A f g = Some h' \<and> same_context h h' \<and> runs A f h'))"
proof -
  have r: "frame_ok f" "csr h Mscratch = f" "FS_dirty (csr h Mstatus)" using assms(4) by (simp_all add: runs_def)
  obtain h1 where h1: "exec (m_trap_vector k) (take_trap c v h) = Some h1" "saved h f (hmem h1)"
    by (rule m_trap_vector_saves [OF r])
  have i: "isolated (s\<lparr>memory := hmem h1\<rparr>) ws"
    using h1(2) assms(3,5) by (intro isolated_saved [OF assms(1,2)]) (simp add: saved_def)
  have "\<exists>h'. rust_switch_to_user A f g = Some h' \<and> same_context h h' \<and> runs A f h'"
    if u: "user_store\<^sup>*\<^sup>* (s\<lparr>memory := hmem h1\<rparr>) s'" and g: "hmem g = memory s'" for s' g
  proof -
    have "in_region f 560 x \<Longrightarrow> hmem g x = hmem h1 x" for x
      using user_stores_keep_frame [OF u i assms(2)] assms(3) g by simp
    then show ?thesis using saved_switch [OF assms(4) h1(2)] by blast
  qed
  then show ?thesis using h1(1) by blast
qed

theorem context_survives_user_code_witness:
  "\<forall>E. \<exists>p s h h1 h'. load_proc E example_elf example_user = Some (Inr p, s) \<and> hmode h = User \<and> hpc h = 0x20000078
     \<and> exec (m_trap_vector 0x80002000) (take_trap 8 0 h) = Some h1
     \<and> rust_switch_to_user example_symbols (frame p) h1 = Some h' \<and> same_context h h'"
proof
  fix E :: "'d env"
  note b = example_user_basic
  obtain ef q where e: "ef_programs ef = [q]" "pr_header q = header_at example_elf 64 0" "ef_header ef = ElfHeader_of (take 64 example_elf)"
    "can_load E example_elf example_user ef 2" by (rule example_elf_loads) (simp_all add: example_elf_facts)
  obtain p s t jf js jp where l: "load_proc E example_elf example_user = Some (Inr p, s)" "loaded example_user ef (unat (2 :: usize)) p s t (jf, js, jp)"
    by (rule can_load_loaded [OF e(4)])
  let ?s = "s\<lparr>PROCESS_LIST := Some [p]\<rparr>"
  have "\<forall>q \<in> set (ef_programs ef). segment_inside (unat (2 :: usize)) q" by (simp add: e(1,2) segment_inside_def example_elf_facts)
  then have "proc_step E example_user (s\<lparr>PROCESS_LIST := Some ([] @ [p])\<rparr>)" by (rule proc_step.load [OF e(4) _ b(7) l(1)])
  then have r: "(proc_step E)\<^sup>*\<^sup>* example_user ?s" by simp
  have m: "machine_ok example_user" by (simp add: machine_ok_def b)
  have "isolated example_user []" using b(1,7) by (simp add: isolated_def)
  then obtain ws where i: "isolated ?s ws" using isolated_reachable [OF r _ m] by blast
  then obtain w where w: "w \<in> set ws" "fst w = p" by (auto simp: isolated_def)
  have "hmem ((example_hart 0)\<lparr>hmem := memory s\<rparr>) = memory s" by simp
  from loaded_switch [OF l(2) this, of example_symbols] obtain h where h: "resumed example_symbols (frame p) h" "hmem h = memory s" "hmode h = User"
    "hpc h = 0x20000078" using e(3) example_elf_facts(7) by (metis hart.select_convs(7) hart.surjective hart.update_convs(7))
  have ru: "runs example_symbols (frame p) h" using h(1) by (simp add: resumed_def)
  obtain h1 where h1: "exec (m_trap_vector 0x80002000) (take_trap 8 0 h) = Some h1"
    "\<And>s' g. user_store\<^sup>*\<^sup>* (?s\<lparr>memory := hmem h1\<rparr>) s' \<Longrightarrow> hmem g = memory s' \<Longrightarrow>
       \<exists>h'. rust_switch_to_user example_symbols (frame p) g = Some h' \<and> same_context h h' \<and> runs example_symbols (frame p) h'"
    using context_survives_user_code [OF i w(1) _ ru, of "0x80002000" 8 0] w(2) h(2) by auto
  have "\<exists>h'. rust_switch_to_user example_symbols (frame p) h1 = Some h' \<and> same_context h h' \<and> runs example_symbols (frame p) h'"
    by (rule h1(2) [OF rtranclp.rtrancl_refl]) simp
  then show "\<exists>p s h h1 h'. load_proc E example_elf example_user = Some (Inr p, s) \<and> hmode h = User \<and> hpc h = 0x20000078
     \<and> exec (m_trap_vector 0x80002000) (take_trap 8 0 h) = Some h1
     \<and> rust_switch_to_user example_symbols (frame p) h1 = Some h' \<and> same_context h h'"
    using l(1) h(3,4) h1(1) by blast
qed

end
