(* ===== verification/Boot.thy ===== *)
theory Boot
  imports Process_Start
begin

text \<open>
  \<^verbatim>\<open>kinit\<close> from beginning to end: the initialisation of the allocators and the first two processes, on a machine
  without VirtIO devices, up to the switch to the test program.
\<close>

section \<open>Memory from the bottom\<close>

lemma blocks_kmem_fields [simp]: "blocks (s\<lparr>KMEM_ALLOC := k\<rparr>) = blocks s" "blocks (s\<lparr>KMEM_PAGE_TABLE := pt\<rparr>) = blocks s"
  by (simp_all add: blocks_def run_at_def flag_at_def num_pages_def)

lemma pages_boot_fields [simp]:
  "page_inv (s\<lparr>UART := u\<rparr>) = page_inv s" "page_inv (s\<lparr>MMIO := l\<rparr>) = page_inv s" "page_inv (s\<lparr>GPU_DEVICES := g\<rparr>) = page_inv s"
  "page_inv (s\<lparr>IN_BUFFER := q\<rparr>) = page_inv s" "page_inv (s\<lparr>OUT_BUFFER := q\<rparr>) = page_inv s" "page_inv (s\<lparr>MTIMECMP := t\<rparr>) = page_inv s"
  "blocks (s\<lparr>UART := u\<rparr>) = blocks s" "blocks (s\<lparr>MMIO := l\<rparr>) = blocks s" "blocks (s\<lparr>GPU_DEVICES := g\<rparr>) = blocks s"
  "blocks (s\<lparr>IN_BUFFER := q\<rparr>) = blocks s" "blocks (s\<lparr>OUT_BUFFER := q\<rparr>) = blocks s" "blocks (s\<lparr>MTIMECMP := t\<rparr>) = blocks s"
  "num_pages (s\<lparr>UART := u\<rparr>) = num_pages s" "num_pages (s\<lparr>MMIO := l\<rparr>) = num_pages s" "num_pages (s\<lparr>GPU_DEVICES := g\<rparr>) = num_pages s"
  "num_pages (s\<lparr>IN_BUFFER := q\<rparr>) = num_pages s" "num_pages (s\<lparr>OUT_BUFFER := q\<rparr>) = num_pages s" "num_pages (s\<lparr>MTIMECMP := t\<rparr>) = num_pages s"
  "page_addr (s\<lparr>MMIO := l\<rparr>) = page_addr s" "page_addr (s\<lparr>GPU_DEVICES := g\<rparr>) = page_addr s" "page_addr (s\<lparr>MTIMECMP := t\<rparr>) = page_addr s"
  "page_addr (s\<lparr>IN_BUFFER := q\<rparr>) = page_addr s" "page_addr (s\<lparr>OUT_BUFFER := q\<rparr>) = page_addr s"
  "page_bytes (s\<lparr>MMIO := l\<rparr>) = page_bytes s" "page_bytes (s\<lparr>GPU_DEVICES := g\<rparr>) = page_bytes s" "page_bytes (s\<lparr>MTIMECMP := t\<rparr>) = page_bytes s"
  "page_bytes (s\<lparr>IN_BUFFER := q\<rparr>) = page_bytes s" "page_bytes (s\<lparr>OUT_BUFFER := q\<rparr>) = page_bytes s"
  by (simp_all add: page_inv_def table_ok_def flag_at_def page_geometry_def num_pages_def page_addr_def blocks_def run_at_def page_bytes_def fun_eq_iff)







section \<open>What later allocations keep\<close>









section \<open>The heap and the first processes\<close>



section \<open>Devices\<close>










section \<open>From the start of kinit to the processes\<close>





section \<open>Properties\<close>




end
