(* ===== verification/Alloc_Tables.thy ===== *)
theory Alloc_Tables
  imports Kmem_Heap
begin

text \<open>
  The two routines that print the state of the allocators, \<^verbatim>\<open>page.rs\<close>: \<^verbatim>\<open>print_page_allocations\<close> and
  \<^verbatim>\<open>kmem.rs\<close>: \<^verbatim>\<open>print_table\<close>. What they print is the list of values of their lines; the layout of a line is left out.
\<close>

section \<open>The table of pages\<close>

text \<open>The inner loop follows a block to the page that is marked as its last and counts the pages.\<close>

partial_function (option) last_page :: "mem \<Rightarrow> usize \<Rightarrow> usize \<Rightarrow> (usize \<times> usize) option" where
  "last_page m beg num = do {
     num \<leftarrow> uadd num 1;
     if is_last (page_at m beg) then Some (beg, num) else last_page m (beg + 1) num
   }"

text \<open>The address of the page of a descriptor.\<close>

definition desc_page :: "'a page_st_scheme \<Rightarrow> usize \<Rightarrow> usize option" where
  "desc_page s d = do {
     i \<leftarrow> usub d (HEAP_START s);
     o' \<leftarrow> umul i PAGE_SIZE;
     uadd (ALLOC_START s) o'
   }"

text \<open>A line: the first and the last address of the block and the number of its pages.\<close>

definition page_line :: "'a page_st_scheme \<Rightarrow> usize \<Rightarrow> usize \<Rightarrow> (usize \<times> usize \<times> usize) option" where
  "page_line s start en = do {
     memaddr \<leftarrow> desc_page s start;
     e \<leftarrow> desc_page s en;
     e \<leftarrow> uadd e PAGE_SIZE;
     e \<leftarrow> usub e 1;
     n \<leftarrow> usub en start;
     n \<leftarrow> uadd n 1;
     Some (memaddr, e, n)
   }"

partial_function (option) page_lines ::
    "'a page_st_scheme \<Rightarrow> usize \<Rightarrow> usize \<Rightarrow> usize \<Rightarrow> (usize \<times> usize \<times> usize) list \<Rightarrow> ((usize \<times> usize \<times> usize) list \<times> usize) option" where
  "page_lines s en beg num out =
     (if beg < en then
        if is_taken (page_at (memory s) beg) then do {
          r \<leftarrow> last_page (memory s) beg num;
          l \<leftarrow> page_line s beg (fst r);
          page_lines s en (fst r + 1) (snd r) (out @ [l])
        }
        else page_lines s en (beg + 1) num out
      else Some (out, num))"

text \<open>The lines, and the numbers of pages reported as allocated and as free.\<close>

definition print_page_allocations ::
    "'a page_st_scheme \<Rightarrow> ((usize \<times> usize \<times> usize) list \<times> usize \<times> usize) option" where
  "print_page_allocations s = do {
     d \<leftarrow> usub (ALLOC_START s) (HEAP_START s);
     h \<leftarrow> usub (HEAP_SIZE s) d;
     let n = h div PAGE_SIZE;
     b \<leftarrow> umul n PAGE_SIZE;
     _ \<leftarrow> uadd (ALLOC_START s) b;
     (out, num) \<leftarrow> page_lines s (HEAP_START s + n) (HEAP_START s) 0 [];
     _ \<leftarrow> umul num PAGE_SIZE;
     free \<leftarrow> usub n num;
     _ \<leftarrow> umul free PAGE_SIZE;
     Some (out, num, free)
   }"

section \<open>The table of chunks\<close>

text \<open>A line: the address of the header, the size and whether the chunk is taken.\<close>

partial_function (option) chunk_lines ::
    "mem \<Rightarrow> usize \<Rightarrow> usize \<Rightarrow> (usize \<times> usize \<times> bool) list \<Rightarrow> (usize \<times> usize \<times> bool) list option" where
  "chunk_lines m tail head out =
     (if head < tail
      then chunk_lines m tail (head + al_get_size (alist_at m head))
             (out @ [(head, al_get_size (alist_at m head), al_is_taken (alist_at m head))])
      else Some out)"

definition print_table :: "'a kmem_st_scheme \<Rightarrow> (usize \<times> usize \<times> bool) list option" where
  "print_table s = do {
     len \<leftarrow> umul (KMEM_ALLOC s) PAGE_SIZE;
     chunk_lines (memory s) (KMEM_HEAD s + len) (KMEM_HEAD s) []
   }"

section \<open>Lines and blocks\<close>

definition block_line :: "'a page_st_scheme \<Rightarrow> nat \<times> nat \<Rightarrow> usize \<times> usize \<times> usize" where
  "block_line s = (\<lambda>(i, l). (page_addr s i, page_addr s i + of_nat (4096 * l) - 1, of_nat l))"

lemma desc_page_eq:
  assumes "page_geometry s" "i < num_pages s"
  shows "desc_page s (HEAP_START s + of_nat i) = Some (page_addr s i)"
proof -
  note c = page_addr_checked [OF assms]
  have "unat (HEAP_START s + of_nat i) = unat (HEAP_START s) + i"
    using page_geometry_heap [OF assms(1)] assms(2) by (intro unat_add_of_nat) simp
  then have "usub (HEAP_START s + of_nat i) (HEAP_START s) = Some (of_nat i)"
    by (simp add: usub_def word_le_nat_alt)
  moreover have "umul (of_nat i) PAGE_SIZE = Some (of_nat (4096 * i))"
    using c(1) umul_commute [of PAGE_SIZE] by simp
  ultimately show ?thesis using c(2) by (simp add: desc_page_def del: of_nat_mult)
qed

lemma page_line_eq:
  assumes geo: "page_geometry s" and l: "0 < l" "i + l \<le> num_pages s"
  shows "page_line s (HEAP_START s + of_nat i) (HEAP_START s + of_nat (i + l - 1)) = Some (block_line s (i, l))"
proof -
  let ?e = "i + l - 1"
  have e: "?e < num_pages s" "i < num_pages s" using l by auto
  have ue: "unat (page_addr s ?e) = unat (ALLOC_START s) + 4096 * ?e" by (rule page_addr_checked(3) [OF geo e(1)])
  have "4096 * ?e + 4096 = 4096 * (i + l)" using l(1) by (cases l) simp_all
  moreover have "unat (ALLOC_START s) + 4096 * (i + l) \<le> unat (ALLOC_START s) + 4096 * num_pages s" using l(2) by simp
  ultimately have b: "unat (page_addr s ?e) + 4096 < 2 ^ 64" using ue geo by (simp add: page_geometry_def)
  then have u1: "uadd (page_addr s ?e) PAGE_SIZE = Some (page_addr s ?e + PAGE_SIZE)" "unat (page_addr s ?e + PAGE_SIZE) = unat (page_addr s ?e) + 4096"
    using unat_add_no_wrap [of "page_addr s ?e" PAGE_SIZE] by (simp_all add: uadd_def)
  then have u2: "usub (page_addr s ?e + PAGE_SIZE) 1 = Some (page_addr s ?e + PAGE_SIZE - 1)" by (simp add: usub_def word_le_nat_alt)
  have "page_addr s ?e + PAGE_SIZE = ALLOC_START s + of_nat (4096 * ?e + 4096)" by (simp add: page_addr_def PAGE_SIZE_def)
  also have "4096 * ?e + 4096 = 4096 * i + 4096 * l" using l(1) by (cases l) simp_all
  finally have eq: "page_addr s ?e + PAGE_SIZE = page_addr s i + of_nat (4096 * l)" by (simp add: page_addr_def)
  have uh: "unat (HEAP_START s + of_nat k) = unat (HEAP_START s) + k" if "k < num_pages s" for k
    using page_geometry_heap [OF geo] that by (intro unat_add_of_nat) simp
  have "(of_nat ?e :: usize) - of_nat i = of_nat (l - 1)" using l(1) by (simp add: of_nat_diff)
  then have u3: "usub (HEAP_START s + of_nat ?e) (HEAP_START s + of_nat i) = Some (of_nat (l - 1))"
    using uh [OF e(1)] uh [OF e(2)] l(1) by (simp add: usub_def word_le_nat_alt)
  have "unat (of_nat (l - 1) :: usize) = l - 1"
    using e page_geometry_heap [OF geo] l by (intro unat_of_nat_small) simp
  then have u4: "uadd (of_nat (l - 1) :: usize) 1 = Some (of_nat l)"
    using l page_geometry_heap [OF geo] by (simp add: uadd_def of_nat_diff)
  show ?thesis
    unfolding page_line_def desc_page_eq [OF geo e(2)] desc_page_eq [OF geo e(1)] bind.bind_lunit u1(1) u2 u3 u4 block_line_def using eq by simp
qed

lemma last_page_run:
  assumes "run_at s i l" "unat num + l < 2 ^ 64"
  shows "last_page (memory s) (HEAP_START s + of_nat i) num = Some (HEAP_START s + of_nat (i + l - 1), num + of_nat l)"
  using assms
proof (induction l arbitrary: i num)
  case (Suc l)
  have u: "uadd num 1 = Some (num + 1)" "unat (num + 1) = unat num + 1"
    using Suc.prems(2) unat_add_no_wrap [of num 1] by (simp_all add: uadd_def)
  show ?case
  proof (cases "l = 0")
    case True
    then have "flag_at s i = 3" using Suc.prems(1) by (simp add: run_at_def)
    then show ?thesis using True u by (subst last_page.simps) (simp add: flag_at_def bit_numeral_rec)
  next
    case False
    then have one: "flag_at s i = 1" and r: "run_at s (Suc i) l" using Suc.prems(1) by (auto simp: run_at_def)
    have "last_page (memory s) (HEAP_START s + of_nat (Suc i)) (num + 1) = Some (HEAP_START s + of_nat (Suc i + l - 1), num + 1 + of_nat l)"
      using Suc.prems(2) u(2) by (intro Suc.IH [OF r]) simp
    moreover have "\<not> bit (1 :: u8) 1" by simp
    ultimately show ?thesis using one u False by (subst last_page.simps) (simp add: flag_at_def add.assoc add.commute [of 1])
  qed
qed (simp add: run_at_def)

text \<open>
  The blocks below page \<open>n\<close>, in order. The loop stands on the first page of a block or on a free page.
\<close>

definition block_list :: "'a page_st_scheme \<Rightarrow> nat \<Rightarrow> nat \<Rightarrow> (nat \<times> nat) list \<Rightarrow> bool" where
  "block_list s i n bl \<longleftrightarrow> set bl = {b \<in> blocks s. i \<le> fst b \<and> fst b < n} \<and> sorted_wrt (\<lambda>a b. fst a + snd a \<le> fst b) bl"

lemma block_list_free:
  assumes "flag_at s i = 0" "block_list s (Suc i) n bl"
  shows "block_list s i n bl"
proof -
  have "fst b \<noteq> i" if "b \<in> blocks s" for b
  proof
    assume "fst b = i"
    then show False using that assms(1) by (cases "snd b = 1") (auto simp: blocks_def run_at_def)
  qed
  then have "{b \<in> blocks s. i \<le> fst b \<and> fst b < n} = {b \<in> blocks s. Suc i \<le> fst b \<and> fst b < n}"
    by (auto simp: less_eq_Suc_le [symmetric] le_less)
  then show ?thesis using assms(2) by (simp add: block_list_def)
qed

lemma block_list_block:
  assumes "(i, l) \<in> blocks s" "i < n" "block_list s (i + l) n bl"
  shows "block_list s i n ((i, l) # bl)"
proof -
  have "b = (i, l) \<or> i + l \<le> fst b" if "b \<in> blocks s" "i \<le> fst b" for b
    using that blocks_disjoint [OF assms(1), of "fst b" "snd b"] by (cases b) (auto simp: blocks_def run_at_def)
  then have "{b \<in> blocks s. i \<le> fst b \<and> fst b < n} = insert (i, l) {b \<in> blocks s. i + l \<le> fst b \<and> fst b < n}"
    using assms(1,2) by auto
  then show ?thesis using assms(3) by (auto simp: block_list_def)
qed

lemma page_lines_blocks:
  assumes inv: "page_inv s" and n: "n \<le> num_pages s" and fit: "\<forall>(j, l) \<in> blocks s. j < n \<longrightarrow> j + l \<le> n"
    and i: "i \<le> n" "i = 0 \<or> flag_at s (i - 1) \<noteq> 1" and num: "unat num + (n - i) < 2 ^ 64"
  shows "\<exists>bl. page_lines s (HEAP_START s + of_nat n) (HEAP_START s + of_nat i) num out
      = Some (out @ map (block_line s) bl, num + of_nat (sum_list (map snd bl))) \<and> block_list s i n bl \<and> sum_list (map snd bl) \<le> n - i"
  using i num
proof (induction "n - i" arbitrary: i num out rule: less_induct)
  case less
  have geo: "page_geometry s" and tab: "table_ok s" using inv by (simp_all add: page_inv_def)
  have uh: "unat (HEAP_START s + of_nat k) = unat (HEAP_START s) + k" if "k \<le> num_pages s" for k
    using page_geometry_heap [OF geo] that by (intro unat_add_of_nat) simp
  have lt: "HEAP_START s + of_nat i < HEAP_START s + of_nat n \<longleftrightarrow> i < n"
    using uh [OF n] uh [of i] less.prems(1) n by (simp add: word_less_nat_alt)
  show ?case
  proof (cases "i < n")
    case False
    then have "block_list s i n []" using less.prems(1) by (auto simp: block_list_def)
    then show ?thesis using False lt by (intro exI [of _ "[]"]) (subst page_lines.simps, simp)
  next
    case True
    then have ip: "i < num_pages s" using n by simp
    show ?thesis
    proof (cases "flag_at s i = 0")
      case zero: True
      have "\<exists>bl. page_lines s (HEAP_START s + of_nat n) (HEAP_START s + of_nat (Suc i)) num out
          = Some (out @ map (block_line s) bl, num + of_nat (sum_list (map snd bl))) \<and> block_list s (Suc i) n bl \<and> sum_list (map snd bl) \<le> n - Suc i"
        using True zero less.prems by (intro less.hyps) auto
      then show ?thesis using True lt zero block_list_free [OF zero]
        by (subst page_lines.simps) (force simp: flag_at_def add.assoc add.commute [of 1])
    next
      case taken: False
      obtain e where e: "i \<le> e" "e < num_pages s" "flag_at s e = 3" "\<forall>k. i \<le> k \<and> k < e \<longrightarrow> flag_at s k = 1"
        using run_end [OF tab ip taken] by blast
      define l where "l = Suc e - i"
      have l: "run_at s i l" "0 < l" "i + l \<le> num_pages s" "i + l - 1 = e" using e by (auto simp: run_at_def l_def)
      have blk: "(i, l) \<in> blocks s" using l(1) less.prems(2) by (auto simp: blocks_def)
      then have il: "i + l \<le> n" using fit True by auto
      have small: "l < 2 ^ 64" using l(3) page_geometry_heap [OF geo] by simp
      have un: "unat (num + of_nat l) = unat num + l" using less.prems(3) il by (intro unat_add_of_nat) simp
      have "\<exists>bl. page_lines s (HEAP_START s + of_nat n) (HEAP_START s + of_nat (i + l)) (num + of_nat l) (out @ [block_line s (i, l)])
          = Some ((out @ [block_line s (i, l)]) @ map (block_line s) bl, num + of_nat l + of_nat (sum_list (map snd bl)))
            \<and> block_list s (i + l) n bl \<and> sum_list (map snd bl) \<le> n - (i + l)"
        using il l(2,4) e(3) less.prems(3) un True by (intro less.hyps) auto
      then obtain bl where bl: "page_lines s (HEAP_START s + of_nat n) (HEAP_START s + of_nat (i + l)) (num + of_nat l) (out @ [block_line s (i, l)])
          = Some ((out @ [block_line s (i, l)]) @ map (block_line s) bl, num + of_nat l + of_nat (sum_list (map snd bl)))"
        "block_list s (i + l) n bl" "sum_list (map snd bl) \<le> n - (i + l)" by blast
      have lp: "last_page (memory s) (HEAP_START s + of_nat i) num = Some (HEAP_START s + of_nat (i + l - 1), num + of_nat l)"
        using less.prems(3) il by (intro last_page_run [OF l(1)]) simp
      have tk: "is_taken (page_at (memory s) (HEAP_START s + of_nat i))" using taken_flag [OF tab ip] taken by (simp add: flag_at_def)
      have nx: "HEAP_START s + of_nat (i + l - 1) + 1 = HEAP_START s + of_nat (i + l)" using l(2) by (cases l) simp_all
      have "page_lines s (HEAP_START s + of_nat n) (HEAP_START s + of_nat i) num out
          = page_lines s (HEAP_START s + of_nat n) (HEAP_START s + of_nat (i + l)) (num + of_nat l) (out @ [block_line s (i, l)])"
        by (subst page_lines.simps) (simp only: lt True tk if_True lp page_line_eq [OF geo l(2,3)] bind.bind_lunit fst_conv snd_conv nx)
      then show ?thesis using bl il block_list_block [OF blk True bl(2)]
        by (intro exI [of _ "(i, l) # bl"]) (simp add: add.assoc)
    qed
  qed
qed

section \<open>Lines and chunks\<close>

fun chunk_table :: "usize \<Rightarrow> chunk list \<Rightarrow> (usize \<times> usize \<times> bool) list" where
  "chunk_table a [] = []"
| "chunk_table a ((z, t) # cs) = (a, of_nat z, t) # chunk_table (a + of_nat z) cs"

lemma chunk_lines_table: "chunks_at m a cs t \<Longrightarrow> chunk_lines m t a out = Some (out @ chunk_table a cs)"
proof (induction cs arbitrary: a out)
  case Nil
  then show ?case by (subst chunk_lines.simps) simp
next
  case (Cons c cs)
  obtain z k where c: "c = (z, k)" by (cases c)
  note d = chunks_at_ConsD [OF Cons.prems [unfolded c]]
  have "chunks_at m (a + of_nat z) cs t" "al_is_taken (alist_at m a) = k" using Cons.prems c by auto
  then show ?case using d(1,2) c by (subst chunk_lines.simps) (simp add: Cons.IH)
qed

text \<open>\<^verbatim>\<open>print_table\<close> prints the list of chunks of the heap.\<close>

lemma print_table_chunks:
  assumes "kmem_chunks s cs" shows "print_table s = Some (chunk_table (KMEM_HEAD s) cs)"
proof -
  have "chunks_at (memory s) (KMEM_HEAD s) cs (KMEM_HEAD s + of_nat (heap_len s))" using assms by (simp add: kmem_chunks_def)
  then show ?thesis by (simp add: print_table_def kmem_tail(1) [OF assms] chunk_lines_table)
qed

section \<open>The printed table\<close>

text \<open>
  The table of page allocations is the set of blocks in use. Where no block reaches past the pages that lie inside the heap,
  \<^verbatim>\<open>print_page_allocations\<close> returns: it prints one line for every block, in order, with the first and the last address and
  the number of pages, and reports as allocated the number of pages of these blocks and as free the other pages of the
  heap.
\<close>
lemma page_table_printed:
  assumes "page_inv s" and "unat (ALLOC_START s) - unat (HEAP_START s) \<le> unat (HEAP_SIZE s)"
    and "n = (unat (HEAP_SIZE s) - (unat (ALLOC_START s) - unat (HEAP_START s))) div 4096"
    and "\<forall>(j, l) \<in> blocks s. j + l \<le> n"
  shows "\<exists>bl. print_page_allocations s
      = Some (map (block_line s) bl, of_nat (sum_list (map snd bl)), of_nat (n - sum_list (map snd bl)))
    \<and> set bl = blocks s \<and> sorted_wrt (\<lambda>a b. fst a + snd a \<le> fst b) bl \<and> sum_list (map snd bl) \<le> n"
proof -
  have geo: "page_geometry s" using assms(1) by (simp add: page_inv_def)
  have ah: "unat (HEAP_START s) \<le> unat (ALLOC_START s)" using geo by (simp add: page_geometry_def)
  have np: "n \<le> num_pages s" unfolding assms(3) num_pages_eq by (intro div_le_mono) simp
  have small: "unat (HEAP_START s) + n < 2 ^ 64" "unat (ALLOC_START s) + 4096 * n < 2 ^ 64"
    using np page_geometry_heap [OF geo] geo by (auto simp: page_geometry_def)
  have bnd: "4096 * k < 2 ^ 64" "k < 2 ^ 64" if "k \<le> n" for k using that small by linarith+
  have d: "usub (ALLOC_START s) (HEAP_START s) = Some (ALLOC_START s - HEAP_START s)"
    "unat (ALLOC_START s - HEAP_START s) = unat (ALLOC_START s) - unat (HEAP_START s)"
    using ah by (simp_all add: usub_def word_le_nat_alt unat_sub)
  have h: "usub (HEAP_SIZE s) (ALLOC_START s - HEAP_START s) = Some (HEAP_SIZE s - (ALLOC_START s - HEAP_START s))"
    "unat (HEAP_SIZE s - (ALLOC_START s - HEAP_START s)) = unat (HEAP_SIZE s) - unat (ALLOC_START s - HEAP_START s)"
    using assms(2) d(2) by (simp_all add: usub_def word_le_nat_alt unat_sub)
  have nn: "(HEAP_SIZE s - (ALLOC_START s - HEAP_START s)) div PAGE_SIZE = of_nat n"
    by (rule of_nat_of_unat) (simp add: unat_div h(2) d(2) assms(3))
  have mul: "umul (of_nat k) PAGE_SIZE = Some (of_nat (4096 * k))" "unat (of_nat k :: usize) = k" if "k \<le> n" for k
  proof -
    show "unat (of_nat k :: usize) = k" using bnd [OF that] by (intro unat_of_nat_small) simp
    then show "umul (of_nat k) PAGE_SIZE = Some (of_nat (4096 * k))"
      using bnd(1) [OF that] by (simp add: umul_def) (simp add: PAGE_SIZE_def mult.commute)
  qed
  have al: "uadd (ALLOC_START s) (of_nat (4096 * n)) = Some (ALLOC_START s + of_nat (4096 * n))"
    using small(2) unat_of_nat_small [of "4096 * n", where 'l = 64] by (simp add: uadd_def del: of_nat_mult)
  have "\<exists>bl. page_lines s (HEAP_START s + of_nat n) (HEAP_START s + of_nat 0) 0 []
      = Some ([] @ map (block_line s) bl, 0 + of_nat (sum_list (map snd bl))) \<and> block_list s 0 n bl \<and> sum_list (map snd bl) \<le> n - 0"
    using assms(4) small by (intro page_lines_blocks [OF assms(1) np]) auto
  then obtain bl where bl: "page_lines s (HEAP_START s + of_nat n) (HEAP_START s) 0 [] = Some (map (block_line s) bl, of_nat (sum_list (map snd bl)))"
    "block_list s 0 n bl" "sum_list (map snd bl) \<le> n" by auto
  let ?N = "sum_list (map snd bl)"
  have "usub (of_nat n) (of_nat ?N) = Some (of_nat (n - ?N) :: usize)"
    using mul(2) [of n] mul(2) [OF bl(3)] bl(3) by (simp add: usub_def word_le_nat_alt of_nat_diff)
  then have "print_page_allocations s = Some (map (block_line s) bl, of_nat ?N, of_nat (n - ?N))"
    unfolding print_page_allocations_def d(1) bind.bind_lunit h(1) Let_def nn mul(1) [OF order.refl] al bl(1)
    using mul(1) [OF bl(3)] mul(1) [of "n - ?N"] by simp
  moreover have "set bl = blocks s"
    using bl(2) assms(4) by (fastforce simp: block_list_def blocks_def run_at_def)
  ultimately show ?thesis using bl(2,3) by (auto simp: block_list_def)
qed

end
