(* ===== verification/Fs_Io.thy ===== *)
theory Fs_Io
  imports Fs
begin

text \<open>
  Byte access to the disk: the contract of the block device, the contract that \<^verbatim>\<open>syc_read\<close> and
  \<^verbatim>\<open>syc_write\<close> provide on top of it, and the relation of \<^verbatim>\<open>memcpy\<close> on buffers to \<^verbatim>\<open>memcpy\<close> on memory.
\<close>

section \<open>Buffers in memory\<close>

text \<open>A copy between two buffers is what \<^verbatim>\<open>memcpy\<close> does to the memory that holds them.\<close>

lemma buf_memcpy_memory:
  assumes dis: "disjoint_regions (dest + of_nat doff) (unat n) (src + of_nat soff) (unat n)"
    and dst: "unat dest + length db < 2 ^ 64" "load_bytes m dest (length db) = db"
    and src: "load_bytes m src (length sb) = sb"
    and fit: "doff + unat n \<le> length db" "soff + unat n \<le> length sb"
  shows "buf_memcpy (unat n) db doff sb soff = Some (load_bytes (memcpy m (dest + of_nat doff) (src + of_nat soff) n) dest (length db))"
proof -
  let ?k = "memcpy_len (unat n)"
  have k: "?k \<le> unat n" by (rule memcpy_len_le)
  have sb: "load_bytes m (src + of_nat soff) ?k = take ?k (drop soff sb)"
  proof (rule nth_equalityI)
    fix i assume "i < length (load_bytes m (src + of_nat soff) ?k)"
    then have i: "i < ?k" by simp
    then have "sb ! (soff + i) = m (src + of_nat (soff + i))"
      using src fit k by (metis add_less_cancel_left less_le_trans nth_load_bytes order.trans add_le_cancel_left)
    then show "load_bytes m (src + of_nat soff) ?k ! i = take ?k (drop soff sb) ! i"
      using i fit k by (simp add: add.assoc)
  qed (use fit k in simp)
  have "load_bytes (store_bytes m (dest + of_nat doff) (take ?k (drop soff sb))) dest (length db)
      = splice doff (take ?k (drop soff sb)) db"
  proof (rule nth_equalityI)
    fix i assume "i < length (load_bytes (store_bytes m (dest + of_nat doff) (take ?k (drop soff sb))) dest (length db))"
    then have i: "i < length db" by simp
    have len: "length (take ?k (drop soff sb)) = ?k" using fit k by simp
    have ud: "unat (dest + of_nat doff) = unat dest + doff" using dst(1) fit by (intro unat_add_of_nat) simp
    have ui: "unat (dest + of_nat i) = unat dest + i" using dst(1) i by (intro unat_add_of_nat) simp
    have r: "in_region (dest + of_nat doff) ?k (dest + of_nat i) \<longleftrightarrow> doff \<le> i \<and> i < doff + ?k"
      using ud ui dst(1) fit k by (subst in_region_iff) auto
    have s: "unat (dest + of_nat i - (dest + of_nat doff)) = i - doff" if "doff \<le> i"
      using unat_sub [of "dest + of_nat doff" "dest + of_nat i"] ud ui that by (simp add: word_le_nat_alt)
    have old: "m (dest + of_nat i) = db ! i" using dst(2) i by (metis nth_load_bytes)
    have "store_bytes m (dest + of_nat doff) (take ?k (drop soff sb)) (dest + of_nat i)
        = (if doff \<le> i \<and> i < doff + ?k then take ?k (drop soff sb) ! (i - doff) else db ! i)"
      unfolding store_bytes_def len r using s old by simp
    then show "load_bytes (store_bytes m (dest + of_nat doff) (take ?k (drop soff sb))) dest (length db) ! i
        = splice doff (take ?k (drop soff sb)) db ! i"
      using i fit k by (simp add: nth_splice)
  qed (use fit k in simp)
  then show ?thesis
    using fit k unfolding memcpy_eq [OF dis] sb buf_memcpy_def by simp
qed

section \<open>The contract of the block device\<close>

text \<open>
  What the file system needs of the two system calls for device \<open>bdev\<close>: a transfer of whole
  512-byte sectors inside of the disk succeeds and moves exactly these bytes. The disk
  holds whole file system blocks.
\<close>

definition device_ok :: "'d env \<Rightarrow> usize \<Rightarrow> ('d \<Rightarrow> u8 list) \<Rightarrow> bool" where
  "device_ok E bdev disk \<longleftrightarrow>
     (\<forall>d sz off. 512 dvd unat sz \<longrightarrow> 512 dvd unat off \<longrightarrow> unat off + unat sz \<le> length (disk d) \<longrightarrow>
        syscall_block_read E bdev sz off d = (0, take (unat sz) (drop (unat off) (disk d))))
     \<and> (\<forall>d bs off. 512 dvd length bs \<longrightarrow> 512 dvd unat off \<longrightarrow> unat off + length bs \<le> length (disk d) \<longrightarrow>
        (\<exists>d'. syscall_block_write E bdev bs off d = (0, d') \<and> disk d' = splice (unat off) bs (disk d)))
     \<and> (\<forall>d. 1024 dvd length (disk d))"

lemma block_range_eq:
  assumes b: "0 < unat b" and no: "unat off + unat sz + unat b < 2 ^ 32"
  obtains st actual pos where "block_range b sz off = Some (st, actual)" "umul st b = Some pos"
    "unat b dvd unat actual" "unat b dvd unat pos"
    "unat pos + unat (off mod b) = unat off" "unat off + unat sz \<le> unat pos + unat actual"
    "\<forall>L. unat b dvd L \<longrightarrow> unat off + unat sz \<le> L \<longrightarrow> unat pos + unat actual \<le> L"
proof -
  let ?b = "unat b" and ?o = "unat off" and ?s = "unat sz"
  define e where "e = (?o + ?s + ?b - 1) div ?b"
  have lo: "?o div ?b * ?b + ?o mod ?b = ?o" by (rule div_mult_mod_eq)
  have se: "?o div ?b \<le> e" unfolding e_def using b by (intro div_le_mono) simp
  have eb: "?o + ?s \<le> e * ?b" "e * ?b \<le> ?o + ?s + ?b - 1"
  proof -
    have "e * ?b + (?o + ?s + ?b - 1) mod ?b = ?o + ?s + ?b - 1" unfolding e_def by (rule div_mult_mod_eq)
    moreover have "(?o + ?s + ?b - 1) mod ?b < ?b" using b by simp
    ultimately show "?o + ?s \<le> e * ?b" "e * ?b \<le> ?o + ?s + ?b - 1" using b by linarith+
  qed
  have u: "unat (off + sz) = ?o + ?s" "unat (off + sz + b) = ?o + ?s + ?b"
    using no unat_add_no_wrap [of off sz] unat_add_no_wrap [of "off + sz" b] by simp_all
  have ge1: "1 \<le> off + sz + b" using u b by (simp add: word_le_nat_alt)
  have ud: "unat ((off + sz + b - 1) div b) = e" using unat_sub [OF ge1] u by (simp add: unat_div e_def)
  have us: "unat (off div b) = ?o div ?b" by (simp add: unat_div)
  have le: "off div b \<le> (off + sz + b - 1) div b" using ud us se by (simp add: word_le_nat_alt)
  define n where "n = (off + sz + b - 1) div b - off div b"
  have un: "unat n = e - ?o div ?b" using unat_sub [OF le] ud us by (simp add: n_def)
  have "unat n * ?b \<le> e * ?b" using un by simp
  then have nb: "unat n * ?b < 2 ^ 32" using eb(2) no by linarith
  have nb2: "?o div ?b * ?b < 2 ^ 32" using no lo by linarith
  have "block_range b sz off = Some (off div b, n * b)"
    using no u ge1 le nb unfolding block_range_def by (simp add: uadd_def usub_def umul_def n_def Let_def)
  moreover have "umul (off div b) b = Some (off div b * b)" using nb2 us by (simp add: umul_def)
  moreover have up: "unat (off div b * b) = ?o div ?b * ?b" "unat (n * b) = (e - ?o div ?b) * ?b"
    using unat_mult_no_wrap [of "off div b" b] unat_mult_no_wrap [of n b] nb nb2 us un by simp_all
  moreover have sum: "?o div ?b * ?b + (e - ?o div ?b) * ?b = e * ?b" using se by (simp flip: add_mult_distrib)
  moreover have "e * ?b \<le> L" if dvL: "?b dvd L" and leL: "?o + ?s \<le> L" for L
  proof -
    obtain q where q: "L = ?b * q" using dvL unfolding dvd_def by blast
    have "e * ?b < (q + 1) * ?b" using eb(2) leL b q by (simp add: algebra_simps)
    then have "e < q + 1" by (rule mult_less_cancel2 [THEN iffD1, THEN conjunct2])
    then show ?thesis using q by (simp add: mult.commute)
  qed
  ultimately show ?thesis
    using that [of "off div b" "n * b" "off div b * b"] eb lo by (simp add: e_def unat_mod)
qed

lemma syc_read_bytes:
  assumes ok: "device_ok E bdev disk" and no: "unat off + unat sz + 512 < 2 ^ 32"
    and fit: "unat off + unat sz \<le> length (disk d)" and buf: "unat sz \<le> length buf"
  shows "syc_read E bdev buf sz off d = Some (0, splice 0 (take (unat sz) (drop (unat off) (disk d))) buf)"
proof -
  have b: "0 < unat (512 :: u32)" "unat off + unat sz + unat (512 :: u32) < 2 ^ 32" using no by simp_all
  obtain st actual pos where r: "block_range 512 sz off = Some (st, actual)" "umul st 512 = Some pos"
    and d': "unat (512 :: u32) dvd unat actual" "unat (512 :: u32) dvd unat pos" and p: "unat pos + unat (off mod 512) = unat off"
      "unat off + unat sz \<le> unat pos + unat actual"
    and L': "\<forall>L. unat (512 :: u32) dvd L \<longrightarrow> unat off + unat sz \<le> L \<longrightarrow> unat pos + unat actual \<le> L"
    by (rule block_range_eq [OF b])
  have d: "512 dvd unat actual" "512 dvd unat pos" and L: "\<And>L. 512 dvd L \<Longrightarrow> unat off + unat sz \<le> L \<Longrightarrow> unat pos + unat actual \<le> L"
    using d' L' by simp_all
  have "1024 dvd length (disk d)" using ok by (simp add: device_ok_def)
  then have "512 dvd length (disk d)" by (rule dvd_trans [rotated]) simp
  then have in_disk: "unat pos + unat actual \<le> length (disk d)" using L fit by blast
  then have rd: "syscall_block_read E bdev actual pos d = (0, take (unat actual) (drop (unat pos) (disk d)))"
    using ok d by (simp add: device_ok_def)
  let ?t = "take (unat actual) (drop (unat pos) (disk d))"
  have "length ?t = unat actual" using in_disk by simp
  then have "splice 0 (take (unat actual) ?t) (replicate (unat actual) 0) = ?t" by (simp add: splice_def)
  moreover have "take (unat sz) (drop (unat (off mod 512)) ?t) = take (unat sz) (drop (unat off) (disk d))"
    using p by (simp add: drop_take min_def add.commute)
  ultimately show ?thesis using r rd buf by (simp add: syc_read_def)
qed


lemma length_Buffer_new: "8 dvd n \<Longrightarrow> length (Buffer_new E n) = n"
  by (auto simp: Buffer_new_def elim!: dvdE)

lemma take_splice_block:
  assumes "io + length xs \<le> n" "pos + n \<le> length bs"
  shows "splice pos (splice io xs (take n (drop pos bs))) bs = splice (pos + io) xs bs"
  using assms by (intro nth_equalityI) (auto simp: nth_splice)

lemma syc_write_bytes:
  assumes ok: "device_ok E bdev disk" and no: "unat off + unat sz + 2048 < 2 ^ 32"
    and fit: "unat off + unat sz \<le> length (disk d)" and buf: "memcpy_len (unat sz) \<le> length buf"
  shows "\<exists>d'. syc_write E bdev buf sz off d = Some (0, d') \<and> disk d' = splice (unat off) (take (memcpy_len (unat sz)) buf) (disk d)"
proof -
  have bs: "unat BLOCK_SIZE = 1024" by (simp add: BLOCK_SIZE_def)
  have b: "0 < unat BLOCK_SIZE" "unat off + unat sz + unat BLOCK_SIZE < 2 ^ 32" using no bs by simp_all
  obtain st actual pos where r: "block_range BLOCK_SIZE sz off = Some (st, actual)" "umul st BLOCK_SIZE = Some pos"
    and d: "unat BLOCK_SIZE dvd unat actual" "unat BLOCK_SIZE dvd unat pos"
    and p: "unat pos + unat (off mod BLOCK_SIZE) = unat off" "unat off + unat sz \<le> unat pos + unat actual"
    and L: "\<forall>L. unat BLOCK_SIZE dvd L \<longrightarrow> unat off + unat sz \<le> L \<longrightarrow> unat pos + unat actual \<le> L"
    by (rule block_range_eq [OF b])
  define io where "io = unat (off mod BLOCK_SIZE)"
  have dv: "1024 dvd unat actual" "1024 dvd unat pos" "1024 dvd length (disk d)"
    using d bs ok by (simp_all add: device_ok_def)
  then have d5: "512 dvd unat actual" "512 dvd unat pos" by (auto intro: dvd_trans [of 512 1024])
  have d8: "8 dvd unat actual" using d5(1) by (rule dvd_trans [rotated]) simp
  have in_disk: "unat pos + unat actual \<le> length (disk d)" using L dv(3) fit bs by simp
  have small: "unat pos + unat actual + 512 < 2 ^ 32"
  proof -
    have "n \<le> (n + 1023) div 1024 * 1024" for n :: nat
      using div_mult_mod_eq [of "n + 1023" 1024] mod_less_divisor [of 1024 "n + 1023"] by linarith
    then have "unat pos + unat actual \<le> (unat off + unat sz + 1023) div 1024 * 1024" using L bs by simp
    also have "\<dots> \<le> unat off + unat sz + 1023" by simp
    finally show ?thesis using no by simp
  qed
  let ?t = "take (unat actual) (drop (unat pos) (disk d))"
  have lt: "length ?t = unat actual" using in_disk by simp
  have rd: "syc_read E bdev (Buffer_new E (unat actual)) actual pos d = Some (0, ?t)"
    using syc_read_bytes [OF ok small in_disk, of "Buffer_new E (unat actual)"] lt by (simp add: length_Buffer_new d8 splice_def)
  have k: "memcpy_len (unat sz) \<le> unat sz" by (rule memcpy_len_le)
  have fit2: "io + unat sz \<le> unat actual" using p by (simp add: io_def)
  have mc: "buf_memcpy (unat sz) ?t io buf 0 = Some (splice io (take (memcpy_len (unat sz)) buf) ?t)"
    using fit2 k lt buf by (simp add: buf_memcpy_def)
  let ?x = "splice io (take (memcpy_len (unat sz)) buf) ?t"
  have lx: "length ?x = unat actual" using fit2 k lt buf by simp
  obtain d' where w: "syscall_block_write E bdev ?x pos d = (0, d')" and di: "disk d' = splice (unat pos) ?x (disk d)"
    using ok d5 lx in_disk unfolding device_ok_def by metis
  have "syc_write E bdev buf sz off d = Some (0, d')"
    using r rd fit2 mc w lx by (simp add: syc_write_def io_def)
  moreover have "disk d' = splice (unat off) (take (memcpy_len (unat sz)) buf) (disk d)"
    using di take_splice_block [of io "take (memcpy_len (unat sz)) buf" "unat actual" "unat pos" "disk d"] fit2 k in_disk p(1) buf
    by (simp add: io_def)
  ultimately show ?thesis by blast
qed

section \<open>The contract of a byte store\<close>

text \<open>
  Byte-granular access to a disk image, as the rest of the file system uses it. \<open>len n\<close> is the number
  of bytes that a write request for \<open>n\<close> bytes really stores.
\<close>

locale byte_store =
  fixes good :: bool
    and image :: "'d \<Rightarrow> u8 list"
    and len :: "nat \<Rightarrow> nat"
    and rd :: "u8 list \<Rightarrow> u32 \<Rightarrow> u32 \<Rightarrow> 'd \<Rightarrow> (u8 \<times> u8 list) option"
    and wr :: "u8 list \<Rightarrow> u32 \<Rightarrow> u32 \<Rightarrow> 'd \<Rightarrow> (u8 \<times> 'd) option"
  assumes rd_bytes: "good \<Longrightarrow> unat off + unat sz + 2048 < 2 ^ 32 \<Longrightarrow> unat off + unat sz \<le> length (image d) \<Longrightarrow>
      unat sz \<le> length buf \<Longrightarrow> rd buf sz off d = Some (0, splice 0 (take (unat sz) (drop (unat off) (image d))) buf)"
    and wr_bytes: "good \<Longrightarrow> unat off + unat sz + 2048 < 2 ^ 32 \<Longrightarrow> unat off + unat sz \<le> length (image d) \<Longrightarrow>
      unat sz \<le> length buf \<Longrightarrow> \<exists>d'. wr buf sz off d = Some (0, d') \<and> image d' = splice (unat off) (take (len (unat sz)) buf) (image d)"
    and len_le: "len n \<le> n"
begin

text \<open>What was written is read back, as far as the write stores it, and the disk keeps its size.\<close>

lemma write_read:
  assumes "good" "unat off + unat sz + 2048 < 2 ^ 32" "unat off + unat sz \<le> length (image d)" "unat sz \<le> length buf"
    and "len (unat sz) = unat sz" and "unat sz \<le> length out"
  shows "\<exists>d'. wr buf sz off d = Some (0, d') \<and> rd out sz off d' = Some (0, splice 0 (take (unat sz) buf) out)"
proof -
  obtain d' where w: "wr buf sz off d = Some (0, d')" and i: "image d' = splice (unat off) (take (unat sz) buf) (image d)"
    using wr_bytes [OF assms(1-4)] assms(5) by auto
  have "length (image d') = length (image d)" using i assms(3,4) by simp
  then have "rd out sz off d' = Some (0, splice 0 (take (unat sz) (drop (unat off) (image d'))) out)"
    using assms by (intro rd_bytes) simp_all
  moreover have "take (unat sz) (drop (unat off) (image d')) = take (unat sz) buf"
    using i assms(3,4) take_drop_splice [of "unat off" "take (unat sz) buf" "image d"] by simp
  ultimately show ?thesis using w by simp
qed

text \<open>A write leaves every disjoint range alone.\<close>

lemma write_elsewhere:
  assumes "good" "unat off + unat sz + 2048 < 2 ^ 32" "unat off + unat sz \<le> length (image d)" "unat sz \<le> length buf"
    and "a + n \<le> unat off \<or> unat off + unat sz \<le> a" and "a + n \<le> length (image d)"
  shows "\<exists>d'. wr buf sz off d = Some (0, d') \<and> take n (drop a (image d')) = take n (drop a (image d))"
proof -
  obtain d' where w: "wr buf sz off d = Some (0, d')" and i: "image d' = splice (unat off) (take (len (unat sz)) buf) (image d)"
    using wr_bytes [OF assms(1-4)] by auto
  have l: "len (unat sz) \<le> unat sz" by (rule len_le)
  have "take n (drop a (image d')) = take n (drop a (image d))"
    using i assms(3-6) l by (intro nth_equalityI) (auto simp: nth_splice)
  with w show ?thesis by blast
qed

end

interpretation io: byte_store "device_ok E bdev disk" disk memcpy_len "syc_read E bdev" "syc_write E bdev" for E bdev disk
proof (unfold_locales, goal_cases)
  case (1 off sz d buf)
  then show ?case by (intro syc_read_bytes) simp_all
next
  case (2 off sz d buf)
  then show ?case using memcpy_len_le [of "unat sz"] by (intro syc_write_bytes) simp_all
next
  case (3 n)
  show ?case by (rule memcpy_len_le)
qed

end
