(* ===== verification/Fs_Walk.thy ===== *)
theory Fs_Walk
  imports Fs_Io
begin

text \<open>
  What \<^verbatim>\<open>MinixFileSystem::read\<close> and \<^verbatim>\<open>write\<close> do with the zones of a file. The contents of a file are
  defined from its zone list, and a contract for loops over zones (the locale
  \<open>zone_walk\<close>) reduces the nested pointer loops of both functions to one step per zone.
\<close>

section \<open>The zones of a file\<close>

definition block_at :: "u8 list \<Rightarrow> u32 \<Rightarrow> u8 list" where
  "block_at bs z = take 1024 (drop (1024 * unat z) bs)"

definition in_disk :: "u8 list \<Rightarrow> u32 \<Rightarrow> bool" where
  "in_disk bs z \<longleftrightarrow> 1024 * unat z + 1024 \<le> length bs"

text \<open>The pointers of a pointer block that are used, in order.\<close>

definition zone_ptrs :: "u8 list \<Rightarrow> u32 \<Rightarrow> u32 list" where
  "zone_ptrs bs z = filter (\<lambda>p. p \<noteq> 0) (map (zone_ptr (block_at bs z)) [0..<NUM_IPTRS])"

definition direct_zones :: "Inode \<Rightarrow> u32 list" where
  "direct_zones ino = filter (\<lambda>z. z \<noteq> 0) (map ((!) (i_zones ino)) [0..<7])"

definition indirect_zones :: "u8 list \<Rightarrow> Inode \<Rightarrow> u32 list" where
  "indirect_zones bs ino = (if i_zones ino ! 7 = 0 then [] else zone_ptrs bs (i_zones ino ! 7))"

definition iindirect_zones :: "u8 list \<Rightarrow> Inode \<Rightarrow> u32 list" where
  "iindirect_zones bs ino =
     (if i_zones ino ! 8 = 0 then [] else concat (map (zone_ptrs bs) (zone_ptrs bs (i_zones ino ! 8))))"

definition iiindirect_zones :: "u8 list \<Rightarrow> Inode \<Rightarrow> u32 list" where
  "iiindirect_zones bs ino =
     (if i_zones ino ! 9 = 0 then []
      else concat (map (\<lambda>p. concat (map (zone_ptrs bs) (zone_ptrs bs p))) (zone_ptrs bs (i_zones ino ! 9))))"

definition file_zones :: "u8 list \<Rightarrow> Inode \<Rightarrow> u32 list" where
  "file_zones bs ino = direct_zones ino @ indirect_zones bs ino @ iindirect_zones bs ino @ iiindirect_zones bs ino"

definition blocks_of :: "u8 list \<Rightarrow> u32 list \<Rightarrow> u8 list" where
  "blocks_of bs zs = concat (map (block_at bs) zs)"

definition file_bytes :: "u8 list \<Rightarrow> Inode \<Rightarrow> u8 list" where
  "file_bytes bs ino = blocks_of bs (file_zones bs ino)"

text \<open>The pointer blocks of a file.\<close>

definition pointer_zones :: "u8 list \<Rightarrow> Inode \<Rightarrow> u32 list" where
  "pointer_zones bs ino =
     (if i_zones ino ! 7 = 0 then [] else [i_zones ino ! 7])
     @ (if i_zones ino ! 8 = 0 then [] else i_zones ino ! 8 # zone_ptrs bs (i_zones ino ! 8))
     @ (if i_zones ino ! 9 = 0 then []
        else i_zones ino ! 9 # concat (map (\<lambda>p. p # zone_ptrs bs p) (zone_ptrs bs (i_zones ino ! 9))))"

text \<open>All blocks that a walk over the file touches are on the disk.\<close>

definition zones_ok :: "u8 list \<Rightarrow> Inode \<Rightarrow> bool" where
  "zones_ok bs ino \<longleftrightarrow> list_all (in_disk bs) (pointer_zones bs ino) \<and> list_all (in_disk bs) (file_zones bs ino)"

lemma length_block_at [simp]: "in_disk bs z \<Longrightarrow> length (block_at bs z) = 1024"
  by (simp add: block_at_def in_disk_def)

lemma blocks_of_simps [simp]:
  "blocks_of bs [] = []" "blocks_of bs (z # zs) = block_at bs z @ blocks_of bs zs"
  "blocks_of bs (xs @ ys) = blocks_of bs xs @ blocks_of bs ys"
  by (simp_all add: blocks_of_def)

lemma length_blocks_of: "list_all (in_disk bs) zs \<Longrightarrow> length (blocks_of bs zs) = 1024 * length zs"
  by (induction zs) simp_all

lemma length_zone_ptrs: "length (zone_ptrs bs z) \<le> 256"
  unfolding zone_ptrs_def by (rule order_trans [OF length_filter_le]) (simp add: NUM_IPTRS_def BLOCK_SIZE_def)

lemma length_concat_le: "(\<And>x. x \<in> set xs \<Longrightarrow> length (f x) \<le> k) \<Longrightarrow> length (concat (map f xs)) \<le> k * length xs"
  by (induction xs) (auto intro: add_mono)

text \<open>A file has fewer zones than a \<^verbatim>\<open>u32\<close> counts.\<close>

lemma length_file_zones: "length (file_zones bs ino) < 2 ^ 25"
proof -
  have two: "length (concat (map (zone_ptrs bs) (zone_ptrs bs p))) \<le> 65536" for p
  proof -
    have "length (concat (map (zone_ptrs bs) (zone_ptrs bs p))) \<le> 256 * length (zone_ptrs bs p)"
      by (rule length_concat_le) (rule length_zone_ptrs)
    also have "\<dots> \<le> 256 * 256" by (rule mult_le_mono2) (rule length_zone_ptrs)
    finally show ?thesis by simp
  qed
  have "length (concat (map (\<lambda>p. concat (map (zone_ptrs bs) (zone_ptrs bs p))) (zone_ptrs bs q))) \<le> 16777216" for q
  proof -
    have "length (concat (map (\<lambda>p. concat (map (zone_ptrs bs) (zone_ptrs bs p))) (zone_ptrs bs q))) \<le> 65536 * length (zone_ptrs bs q)"
      by (rule length_concat_le) (rule two)
    also have "\<dots> \<le> 65536 * 256" by (rule mult_le_mono2) (rule length_zone_ptrs)
    finally show ?thesis by simp
  qed
  then have "length (iiindirect_zones bs ino) \<le> 16777216" by (simp add: iiindirect_zones_def)
  moreover have "length (iindirect_zones bs ino) \<le> 65536" using two by (simp add: iindirect_zones_def)
  moreover have "length (indirect_zones bs ino) \<le> 256" using length_zone_ptrs by (simp add: indirect_zones_def)
  moreover have "length (direct_zones ino) \<le> 7"
    unfolding direct_zones_def by (rule order_trans [OF length_filter_le]) simp
  ultimately show ?thesis by (simp add: file_zones_def)
qed

section \<open>Loops over zones\<close>

text \<open>
  \<open>walks run fin keep f zs\<close>: started in a state that has run over some zones, the program \<open>f\<close> runs over
  the zones \<open>zs\<close> as well, or it returns early in a final state; it does not panic. What
  \<open>keep\<close> says of the pointer buffers stays true.
\<close>

definition walks :: "(u32 list \<Rightarrow> 's \<Rightarrow> bool) \<Rightarrow> (u32 list \<Rightarrow> 's \<Rightarrow> bool) \<Rightarrow> ('s \<Rightarrow> bool) \<Rightarrow> ('s \<Rightarrow> (bool \<times> 's) option) \<Rightarrow> u32 list \<Rightarrow> bool" where
  "walks run fin keep f zs \<longleftrightarrow>
     (\<forall>ws s. run ws s \<longrightarrow> keep s \<longrightarrow> length ws + length zs < 2 ^ 32 \<longrightarrow>
        (\<exists>e s'. f s = Some (e, s') \<and> (if e then fin (ws @ zs) s' else run (ws @ zs) s' \<and> keep s')))"

locale zone_walk =
  fixes run fin :: "u32 list \<Rightarrow> 's \<Rightarrow> bool"
  assumes fin_mono: "fin ws s \<Longrightarrow> fin (ws @ zs) s"
begin

lemma walksD:
  assumes "walks run fin keep f zs" "run ws s" "keep s" "length ws + length zs < 2 ^ 32"
  obtains s' where "f s = Some (True, s')" "fin (ws @ zs) s'"
  | s' where "f s = Some (False, s')" "run (ws @ zs) s'" "keep s'"
proof -
  obtain e s' where "f s = Some (e, s')" "if e then fin (ws @ zs) s' else run (ws @ zs) s' \<and> keep s'"
    using assms unfolding walks_def by blast
  then show thesis using that by (cases e) auto
qed

lemma walks_cong: "walks run fin keep f zs \<Longrightarrow> (\<And>s. keep s \<Longrightarrow> g s = f s) \<Longrightarrow> walks run fin keep g zs"
  unfolding walks_def by fastforce

lemma walks_nothing: "walks run fin keep (\<lambda>s. Some (False, s)) []"
  by (auto simp: walks_def)

lemma walks_or_return:
  assumes f: "walks run fin keep f xs" and g: "walks run fin keep g ys"
  shows "walks run fin keep (\<lambda>s. or_return (f s) g) (xs @ ys)"
  unfolding walks_def
proof (intro allI impI)
  fix ws s
  assume r: "run ws s" and k: "keep s" and l: "length ws + length (xs @ ys) < 2 ^ 32"
  have l1: "length ws + length xs < 2 ^ 32" and l2: "length (ws @ xs) + length ys < 2 ^ 32" using l by simp_all
  show "\<exists>e s'. or_return (f s) g = Some (e, s') \<and>
      (if e then fin (ws @ xs @ ys) s' else run (ws @ xs @ ys) s' \<and> keep s')"
  proof (rule walksD [OF f r k l1])
    fix s1 assume "f s = Some (True, s1)" "fin (ws @ xs) s1"
    then show ?thesis using fin_mono [of "ws @ xs" s1 ys] by (auto simp: or_return_def)
  next
    fix s1 assume f1: "f s = Some (False, s1)" and r1: "run (ws @ xs) s1" and k1: "keep s1"
    show ?thesis by (rule walksD [OF g r1 k1 l2]) (auto simp: or_return_def f1)
  qed
qed

text \<open>A pointer loop, whose pointers do not change while it runs, walks what its body walks for each of them.\<close>

lemma walks_ptr_loop:
  assumes get: "\<And>s i. keep s \<Longrightarrow> i \<in> set is \<Longrightarrow> get s i = p i"
    and body: "\<And>i. i \<in> set is \<Longrightarrow> p i \<noteq> 0 \<Longrightarrow> walks run fin keep (f (p i)) (g (p i))"
  shows "walks run fin keep (ptr_loop get f is) (concat (map g (filter (\<lambda>z. z \<noteq> 0) (map p is))))"
  using assms
proof (induction "is")
  case Nil
  then show ?case by (auto simp: walks_def)
next
  case (Cons i "is")
  have IH: "walks run fin keep (ptr_loop get f is) (concat (map g (filter (\<lambda>z. z \<noteq> 0) (map p is))))"
    using Cons by simp
  have get: "keep s \<Longrightarrow> get s i = p i" for s using Cons.prems(1) by simp
  show ?case
  proof (cases "p i = 0")
    case True
    have "walks run fin keep (ptr_loop get f (i # is)) (concat (map g (filter (\<lambda>z. z \<noteq> 0) (map p is))))"
      using IH by (rule walks_cong) (use get True in simp)
    then show ?thesis using True by (simp del: ptr_loop.simps)
  next
    case False
    have "walks run fin keep (f (p i)) (g (p i))" using Cons.prems(2) False by simp
    note walks_or_return [OF this IH]
    then have "walks run fin keep (ptr_loop get f (i # is)) (g (p i) @ concat (map g (filter (\<lambda>z. z \<noteq> 0) (map p is))))"
      by (rule walks_cong) (use get False in \<open>simp add: or_return_def\<close>)
    then show ?thesis using False by (simp del: ptr_loop.simps)
  qed
qed

lemma walks_ptr_loop1:
  assumes get: "\<And>s i. keep s \<Longrightarrow> i \<in> set is \<Longrightarrow> get s i = p i"
    and body: "\<And>i. i \<in> set is \<Longrightarrow> p i \<noteq> 0 \<Longrightarrow> walks run fin keep (f (p i)) [p i]"
  shows "walks run fin keep (ptr_loop get f is) (filter (\<lambda>z. z \<noteq> 0) (map p is))"
  using walks_ptr_loop [of keep "is" get p f "\<lambda>z. [z]"] assms by simp

text \<open>Loading a pointer block first.\<close>

lemma walks_after:
  assumes f: "walks run fin keep' f zs"
    and load: "\<And>ws s. run ws s \<Longrightarrow> keep s \<Longrightarrow> ld s = f (upd s) \<and> run ws (upd s) \<and> keep' (upd s)"
    and keep: "\<And>s. keep' s \<Longrightarrow> keep s"
  shows "walks run fin keep ld zs"
  unfolding walks_def
proof (intro allI impI)
  fix ws s
  assume "run ws s" "keep s" and l: "length ws + length zs < 2 ^ 32"
  then have "ld s = f (upd s)" "run ws (upd s)" "keep' (upd s)" using load by blast+
  then show "\<exists>e s'. ld s = Some (e, s') \<and> (if e then fin (ws @ zs) s' else run (ws @ zs) s' \<and> keep s')"
    using walksD [OF f _ _ l, of "upd s"] keep by metis
qed

end

section \<open>Reading a file\<close>

text \<open>
  The state of \<^verbatim>\<open>read\<close> after the zones \<open>ws\<close>: the bytes from the offset on have been copied, and more are
  wanted (unless nothing has been copied yet); and its state when it returns early.
\<close>

definition read_pos :: "u32 \<Rightarrow> nat \<Rightarrow> nat" where
  "read_pos offset k = (if k \<le> unat (offset div BLOCK_SIZE) then unat (offset mod BLOCK_SIZE) else 0)"

definition read_run :: "u8 list \<Rightarrow> u32 \<Rightarrow> u32 \<Rightarrow> u8 list \<Rightarrow> u32 list \<Rightarrow> read_st \<Rightarrow> bool" where
  "read_run bs n offset dst ws st \<longleftrightarrow>
     (let c = drop (unat offset) (blocks_of bs ws) in
      list_all (in_disk bs) ws \<and> unat (r_seen st) = length ws \<and> unat (r_off st) = read_pos offset (length ws)
      \<and> unat (r_read st) = length c \<and> unat (r_left st) + length c = unat n \<and> (c = [] \<or> length c < unat n)
      \<and> r_dst st = splice 0 c dst
      \<and> length (r_block st) = 1024 \<and> length (r_ind st) = 1024 \<and> length (r_iind st) = 1024 \<and> length (r_iiind st) = 1024)"

definition read_fin :: "u8 list \<Rightarrow> u32 \<Rightarrow> u32 \<Rightarrow> u8 list \<Rightarrow> u32 list \<Rightarrow> read_st \<Rightarrow> bool" where
  "read_fin bs n offset dst ws st \<longleftrightarrow>
     (let c = drop (unat offset) (blocks_of bs ws) in
      unat n \<le> length c \<and> r_read st = n \<and> r_dst st = splice 0 (take (unat n) c) dst)"

interpretation rw: zone_walk "read_run bs n offset dst" "read_fin bs n offset dst" for bs n offset dst
  by unfold_locales (auto simp: read_fin_def Let_def)

lemma unat_BLOCK_SIZE [simp]: "unat BLOCK_SIZE = 1024"
  by (simp add: BLOCK_SIZE_def)

lemma unat_offset_split: "unat offset = 1024 * unat (offset div BLOCK_SIZE) + unat (offset mod BLOCK_SIZE)"
  "unat (offset mod BLOCK_SIZE) < 1024" for offset :: u32
  by (simp_all add: unat_div unat_mod)

lemma zone_product: "in_disk bs z \<Longrightarrow> length bs < 2 ^ 32 \<Longrightarrow> umul z BLOCK_SIZE = Some (z * BLOCK_SIZE) \<and> unat (z * BLOCK_SIZE) = 1024 * unat z"
proof -
  assume "in_disk bs z" "length bs < 2 ^ 32"
  then have l: "unat z * unat BLOCK_SIZE < 2 ^ 32" by (simp add: in_disk_def)
  then show ?thesis using unat_mult_no_wrap [of z BLOCK_SIZE] by (simp add: umul_def)
qed

lemma read_block:
  assumes ok: "device_ok E bdev disk" and len: "length (disk d) + 2048 < 2 ^ 32"
    and z: "in_disk (disk d) z" and b: "length b = 1024"
  shows "syc_read E bdev b BLOCK_SIZE (z * BLOCK_SIZE) d = Some (0, block_at (disk d) z)"
proof -
  have u: "unat (z * BLOCK_SIZE) = 1024 * unat z" using zone_product [OF z] len by simp
  have "syc_read E bdev b BLOCK_SIZE (z * BLOCK_SIZE) d = Some (0, splice 0 (take 1024 (drop (1024 * unat z) (disk d))) b)"
    using syc_read_bytes [OF ok, of "z * BLOCK_SIZE" BLOCK_SIZE d b] u len z b by (simp add: in_disk_def)
  then show ?thesis using z b by (simp add: splice_def block_at_def in_disk_def)
qed

text \<open>How a zone extends the bytes that are available from the offset on.\<close>

lemma drop_blocks_snoc:
  assumes ws: "list_all (in_disk bs) ws" and z: "in_disk bs z" and k: "unat (offset div BLOCK_SIZE) \<le> length ws"
  shows "drop (unat offset) (blocks_of bs (ws @ [z]))
    = drop (unat offset) (blocks_of bs ws) @ drop (read_pos offset (length ws)) (block_at bs z)"
proof (cases "length ws = unat (offset div BLOCK_SIZE)")
  case True
  then show ?thesis
    using unat_offset_split [of offset] length_blocks_of [OF ws] by (simp add: read_pos_def)
next
  case False
  then have "unat offset \<le> length (blocks_of bs ws)"
    using k unat_offset_split [of offset] length_blocks_of [OF ws] by simp
  then show ?thesis using False k by (simp add: read_pos_def)
qed

lemma drop_blocks_before:
  assumes "list_all (in_disk bs) ws" "length ws \<le> unat (offset div BLOCK_SIZE)"
  shows "drop (unat offset) (blocks_of bs ws) = []"
  using assms unat_offset_split(1) [of offset] length_blocks_of [OF assms(1)] by simp


text \<open>One zone. The contract needs that every copy of \<^verbatim>\<open>memcpy\<close> is complete: sizes and offsets are multiples of 8.\<close>

lemma read_zone_skip:
  assumes r: "read_run bs n offset dst ws st" and z: "in_disk bs z" and l: "length ws + 1 < 2 ^ 32"
    and k: "\<not> offset div BLOCK_SIZE \<le> r_seen st"
  shows "read_zone E bdev d (offset div BLOCK_SIZE) z st = Some (False, st\<lparr>r_seen := r_seen st + 1\<rparr>)
    \<and> read_run bs n offset dst (ws @ [z]) (st\<lparr>r_seen := r_seen st + 1\<rparr>)"
proof -
  have seen: "unat (r_seen st) = length ws" and ws: "list_all (in_disk bs) ws" using r by (simp_all add: read_run_def Let_def)
  have lt: "length ws < unat (offset div BLOCK_SIZE)" using k seen by (simp add: word_le_nat_alt)
  have a: "uadd (r_seen st) 1 = Some (r_seen st + 1)" "unat (r_seen st + 1) = length ws + 1"
    using l seen unat_add_no_wrap [of "r_seen st" 1] by (simp_all add: uadd_def)
  have "list_all (in_disk bs) (ws @ [z])" using ws z by simp
  then have d: "drop (unat offset) (blocks_of bs (ws @ [z])) = []" by (rule drop_blocks_before) (use lt in simp)
  have d0: "drop (unat offset) (blocks_of bs ws) = []" by (rule drop_blocks_before [OF ws]) (use lt in simp)
  have "read_run bs n offset dst (ws @ [z]) (st\<lparr>r_seen := r_seen st + 1\<rparr>)"
    using r d d0 lt a(2) z unfolding read_run_def Let_def by (simp add: read_pos_def)
  then show ?thesis using k a(1) by (simp add: read_zone_def or_return_def)
qed

lemma read_zone_copy:
  assumes ok: "device_ok E bdev disk" and len: "length (disk d) + 2048 < 2 ^ 32"
    and al: "8 dvd unat n" "8 dvd unat offset" and dst: "unat n \<le> length dst"
    and r: "read_run (disk d) n offset dst ws st" and z: "in_disk (disk d) z" and l: "length ws + 1 < 2 ^ 32"
    and k: "offset div BLOCK_SIZE \<le> r_seen st"
  shows "\<exists>e st'. read_zone E bdev d (offset div BLOCK_SIZE) z st = Some (e, st')
    \<and> (if e then read_fin (disk d) n offset dst (ws @ [z]) st'
       else read_run (disk d) n offset dst (ws @ [z]) st' \<and> r_ind st' = r_ind st \<and> r_iind st' = r_iind st \<and> r_iiind st' = r_iiind st)"
proof -
  define c where "c = drop (unat offset) (blocks_of (disk d) ws)"
  define off where "off = unat (r_off st)"
  define b where "b = block_at (disk d) z"
  have ws: "list_all (in_disk (disk d)) ws" and seen: "unat (r_seen st) = length ws" and off: "off = read_pos offset (length ws)"
    and rd: "unat (r_read st) = length c" and left: "unat (r_left st) + length c = unat n" and ne: "c = [] \<or> length c < unat n"
    and rdst: "r_dst st = splice 0 c dst"
    and bl: "length (r_block st) = 1024" "length (r_ind st) = 1024" "length (r_iind st) = 1024" "length (r_iiind st) = 1024"
    using r by (simp_all add: read_run_def Let_def c_def off_def)
  have lb: "length b = 1024" using z by (simp add: b_def)
  have k': "unat (offset div BLOCK_SIZE) \<le> length ws" using k seen by (simp add: word_le_nat_alt)
  have off_lt: "off < 1024" using unat_offset_split(2) [of offset] by (simp add: off read_pos_def)
  have al_off: "8 dvd off"
  proof -
    have "8 dvd 1024 * unat (offset div BLOCK_SIZE)" by simp
    then have "8 dvd unat (offset mod BLOCK_SIZE)" using al(2) unat_offset_split(1) [of offset] by (simp add: dvd_add_right_iff)
    then show ?thesis by (simp add: off read_pos_def)
  qed
  have al_c: "8 dvd length c"
    using al(2) length_blocks_of [OF ws] by (simp add: c_def dvd_diff_nat)
  have snoc: "drop (unat offset) (blocks_of (disk d) (ws @ [z])) = c @ drop off b"
    using drop_blocks_snoc [OF ws z k'] by (simp add: c_def off b_def)
  define room where "room = BLOCK_SIZE - r_off st"
  have room: "usub BLOCK_SIZE (r_off st) = Some room" "unat room = 1024 - off"
    using off_lt unat_sub [of "r_off st" BLOCK_SIZE] by (simp_all add: room_def usub_def word_le_nat_alt off_def)
  define m where "m = (if room > r_left st then r_left st else room)"
  have m: "unat m = min (1024 - off) (unat n - length c)"
    using room(2) left by (auto simp: m_def word_less_nat_alt)
  have "8 dvd unat m" unfolding m using al(1) al_off al_c by (auto simp: min_def intro: dvd_diff_nat)
  then have ml: "memcpy_len (unat m) = unat m" by (intro memcpy_len_whole) simp
  define piece where "piece = take (unat m) (drop off b)"
  have lp: "length piece = unat m" using m lb by (simp add: piece_def)
  have cm: "length c + unat m \<le> unat n" using m left by simp
  have cpy: "buf_memcpy (unat m) (r_dst st) (unat (r_read st)) b off = Some (splice 0 (c @ piece) dst)"
  proof -
    have "length c + unat m \<le> length dst" "off + unat m \<le> length b" using cm dst m lb off_lt by simp_all
    moreover have "length (splice 0 c dst) = length dst" using cm dst by simp
    moreover have "splice (length c) piece (splice 0 c dst) = splice 0 (c @ piece) dst"
      using splice_splice_adjacent [of 0 c piece dst] lp cm dst by simp
    ultimately show ?thesis unfolding buf_memcpy_def ml rd rdst by (simp add: piece_def)
  qed
  have rd': "uadd (r_read st) m = Some (r_read st + m)" "unat (r_read st + m) = length (c @ piece)"
  proof -
    have s: "unat (r_read st) + unat m < 2 ^ 32" using cm rd unat_lt_2p32 [of n] by simp
    show "uadd (r_read st) m = Some (r_read st + m)" using s by (simp add: uadd_def)
    show "unat (r_read st + m) = length (c @ piece)" using unat_add_no_wrap [of "r_read st" m] s rd lp by simp
  qed
  have lf': "usub (r_left st) m = Some (r_left st - m)" "unat (r_left st - m) = unat n - length (c @ piece)"
  proof -
    have "m \<le> r_left st" using m left by (simp add: word_le_nat_alt)
    then show "usub (r_left st) m = Some (r_left st - m)" "unat (r_left st - m) = unat n - length (c @ piece)"
      using unat_sub [of m "r_left st"] left lp by (simp_all add: usub_def)
  qed
  have zo: "umul z BLOCK_SIZE = Some (z * BLOCK_SIZE)" using zone_product [OF z] len by simp
  have rb: "syc_read E bdev (r_block st) BLOCK_SIZE (z * BLOCK_SIZE) d = Some (0, b)"
    unfolding b_def by (rule read_block [OF ok len z bl(1)])
  let ?st = "st\<lparr>r_block := b, r_dst := splice 0 (c @ piece) dst, r_off := 0, r_read := r_read st + m, r_left := r_left st - m\<rparr>"
  have step: "read_zone E bdev d (offset div BLOCK_SIZE) z st =
      or_return (Some (r_left st - m = 0, ?st)) (\<lambda>st. do { seen \<leftarrow> uadd (r_seen st) 1; Some (False, st\<lparr>r_seen := seen\<rparr>) })"
    using k zo rb room(1) cpy rd'(1) lf'(1) unfolding read_zone_def m_def [symmetric]
    by (simp add: off_def [symmetric] m_def [symmetric] Let_def)
  show ?thesis
  proof (cases "r_left st - m = 0")
    case True
    then have dn: "length c + unat m = unat n" using lf'(2) lp cm by (simp add: unat_eq_0)
    then have "take (unat n) (c @ drop off b) = c @ piece" by (simp add: piece_def flip: dn)
    moreover have "unat n \<le> length (c @ drop off b)" using dn m lb by simp
    moreover have "r_read st + m = n" using rd'(2) dn lp by (intro word_unat_eq_iff [THEN iffD2]) simp
    ultimately have "read_fin (disk d) n offset dst (ws @ [z]) ?st" unfolding read_fin_def snoc by simp
    then show ?thesis using step True by (auto simp: or_return_def)
  next
    case False
    then have "unat (r_left st - m) \<noteq> 0" using unat_eq_0 by blast
    then have less: "length c + unat m < unat n" using lf'(2) lp by simp
    then have "unat m = 1024 - off" using m by (auto simp: min_def split: if_splits)
    then have piece: "piece = drop off b" using lb by (simp add: piece_def)
    have a: "uadd (r_seen st) 1 = Some (r_seen st + 1)" "unat (r_seen st + 1) = length ws + 1"
      using l seen unat_add_no_wrap [of "r_seen st" 1] by (simp_all add: uadd_def)
    have "read_run (disk d) n offset dst (ws @ [z]) (?st\<lparr>r_seen := r_seen st + 1\<rparr>)"
      unfolding read_run_def snoc Let_def
      using ws z a(2) k' rd'(2) lf'(2) less lp bl lb piece by (simp add: read_pos_def)
    then show ?thesis using step False a(1) by (auto simp: or_return_def)
  qed
qed


text \<open>Every step of \<^verbatim>\<open>read\<close> leaves the buffers of pointers alone.\<close>

definition ptr_pred :: "(read_st \<Rightarrow> bool) \<Rightarrow> bool" where
  "ptr_pred K \<longleftrightarrow> (\<forall>s s'. r_ind s' = r_ind s \<longrightarrow> r_iind s' = r_iind s \<longrightarrow> r_iiind s' = r_iiind s \<longrightarrow> K s \<longrightarrow> K s')"

lemma walks_read_zone:
  assumes ok: "device_ok E bdev disk" "length (disk d) + 2048 < 2 ^ 32" "8 dvd unat n" "8 dvd unat offset" "unat n \<le> length dst"
    and z: "in_disk (disk d) z" and K: "ptr_pred K"
  shows "walks (read_run (disk d) n offset dst) (read_fin (disk d) n offset dst) K (read_zone E bdev d (offset div BLOCK_SIZE) z) [z]"
  unfolding walks_def
proof (intro allI impI)
  fix ws st
  assume r: "read_run (disk d) n offset dst ws st" and k: "K st" and "length ws + length [z] < 2 ^ 32"
  then have l: "length ws + 1 < 2 ^ 32" by simp
  show "\<exists>e st'. read_zone E bdev d (offset div BLOCK_SIZE) z st = Some (e, st')
    \<and> (if e then read_fin (disk d) n offset dst (ws @ [z]) st' else read_run (disk d) n offset dst (ws @ [z]) st' \<and> K st')"
  proof (cases "offset div BLOCK_SIZE \<le> r_seen st")
    case True
    obtain e st' where "read_zone E bdev d (offset div BLOCK_SIZE) z st = Some (e, st')"
      "if e then read_fin (disk d) n offset dst (ws @ [z]) st'
       else read_run (disk d) n offset dst (ws @ [z]) st' \<and> r_ind st' = r_ind st \<and> r_iind st' = r_iind st \<and> r_iiind st' = r_iiind st"
      using read_zone_copy [where disk = disk, OF ok r z l True] by blast
    then show ?thesis using K k unfolding ptr_pred_def by (cases e) auto
  next
    case False
    have "K (st\<lparr>r_seen := r_seen st + 1\<rparr>)" using K k unfolding ptr_pred_def by simp
    then show ?thesis using read_zone_skip [OF r z l False, of E bdev d] by auto
  qed
qed

text \<open>Loading a block of pointers.\<close>

lemma load_ptrs:
  assumes "device_ok E bdev disk" "length (disk d) + 2048 < 2 ^ 32" "in_disk (disk d) z" "length b = 1024"
  shows "do { pos \<leftarrow> umul BLOCK_SIZE z; (_, b) \<leftarrow> syc_read E bdev b BLOCK_SIZE pos d; f b } = f (block_at (disk d) z)"
  using zone_product [OF assms(3)] read_block [OF assms] assms(2) by (simp add: umul_commute [of BLOCK_SIZE])


section \<open>The four parts of read\<close>

text \<open>The hypotheses that the parts of \<^verbatim>\<open>read\<close> share, for an inode whose zones are on the disk.\<close>

definition read_ok :: "'d env \<Rightarrow> usize \<Rightarrow> ('d \<Rightarrow> u8 list) \<Rightarrow> 'd \<Rightarrow> u32 \<Rightarrow> u32 \<Rightarrow> u8 list \<Rightarrow> bool" where
  "read_ok E bdev disk d n offset dst \<longleftrightarrow> device_ok E bdev disk \<and> length (disk d) + 2048 < 2 ^ 32
     \<and> 8 dvd unat n \<and> 8 dvd unat offset \<and> unat n \<le> length dst"

lemma walks_zone:
  assumes "read_ok E bdev disk d n offset dst" "in_disk (disk d) z" "ptr_pred K"
  shows "walks (read_run (disk d) n offset dst) (read_fin (disk d) n offset dst) K (read_zone E bdev d (offset div BLOCK_SIZE) z) [z]"
  by (rule walks_read_zone [where disk = disk]) (use assms in \<open>simp_all add: read_ok_def\<close>)

lemma read_run_buffers:
  assumes "read_run bs n offset dst ws st"
  shows "length (r_ind st) = 1024" "length (r_iind st) = 1024" "length (r_iiind st) = 1024"
    and "length b = 1024 \<Longrightarrow> read_run bs n offset dst ws (st\<lparr>r_ind := b\<rparr>)"
    and "length b = 1024 \<Longrightarrow> read_run bs n offset dst ws (st\<lparr>r_iind := b\<rparr>)"
    and "length b = 1024 \<Longrightarrow> read_run bs n offset dst ws (st\<lparr>r_iiind := b\<rparr>)"
  using assms by (simp_all add: read_run_def Let_def)

lemma read_direct_walks:
  assumes "read_ok E bdev disk d n offset dst" "list_all (in_disk (disk d)) (direct_zones ino)"
  shows "walks (read_run (disk d) n offset dst) (read_fin (disk d) n offset dst) (\<lambda>_. True)
    (read_direct E bdev d (offset div BLOCK_SIZE) ino) (direct_zones ino)"
proof -
  have "walks (read_run (disk d) n offset dst) (read_fin (disk d) n offset dst) (\<lambda>_. True)
      (read_zone E bdev d (offset div BLOCK_SIZE) (i_zones ino ! i)) [i_zones ino ! i]"
    if "i \<in> set [0..<7]" "i_zones ino ! i \<noteq> 0" for i
    using that assms(2) by (intro walks_zone [OF assms(1)]) (auto simp: direct_zones_def list_all_iff ptr_pred_def)
  then show ?thesis
    using rw.walks_ptr_loop1 [of "\<lambda>_. True" "[0..<7]" "\<lambda>_ i. i_zones ino ! i" "\<lambda>i. i_zones ino ! i"]
    unfolding read_direct_def direct_zones_def by simp
qed

text \<open>
  The innermost loop, over a loaded block of pointers. \<open>buf\<close> selects the buffer the block is in, and
  \<open>K\<close> keeps the enclosing loops' buffers.
\<close>

lemma ptr_block_walks:
  assumes "read_ok E bdev disk d n offset dst" "list_all (in_disk (disk d)) (zone_ptrs (disk d) z)"
    and K: "ptr_pred K" "\<And>s. K s \<Longrightarrow> buf s = block_at (disk d) z"
  shows "walks (read_run (disk d) n offset dst) (read_fin (disk d) n offset dst) K
    (ptr_loop (\<lambda>s i. zone_ptr (buf s) i) (read_zone E bdev d (offset div BLOCK_SIZE)) [0..<NUM_IPTRS]) (zone_ptrs (disk d) z)"
  unfolding zone_ptrs_def
proof (rule rw.walks_ptr_loop1)
  fix i assume "i \<in> set [0..<NUM_IPTRS]" "zone_ptr (block_at (disk d) z) i \<noteq> 0"
  then show "walks (read_run (disk d) n offset dst) (read_fin (disk d) n offset dst) K
      (read_zone E bdev d (offset div BLOCK_SIZE) (zone_ptr (block_at (disk d) z) i)) [zone_ptr (block_at (disk d) z) i]"
    using assms(2) by (intro walks_zone [OF assms(1) _ K(1)]) (auto simp: list_all_iff zone_ptrs_def)
qed (use K(2) in simp)

lemma walks_ptrs:
  assumes K: "\<And>s. K s \<Longrightarrow> buf s = block_at bs z"
    and body: "\<And>p. p \<in> set (zone_ptrs bs z) \<Longrightarrow> walks (read_run bs n offset dst) (read_fin bs n offset dst) K (f p) (g p)"
  shows "walks (read_run bs n offset dst) (read_fin bs n offset dst) K
    (ptr_loop (\<lambda>s. zone_ptr (buf s)) f [0..<NUM_IPTRS]) (concat (map g (zone_ptrs bs z)))"
  unfolding zone_ptrs_def
proof (rule rw.walks_ptr_loop)
  fix i assume "i \<in> set [0..<NUM_IPTRS]" "zone_ptr (block_at bs z) i \<noteq> 0"
  then show "walks (read_run bs n offset dst) (read_fin bs n offset dst) K (f (zone_ptr (block_at bs z) i)) (g (zone_ptr (block_at bs z) i))"
    by (intro body) (simp add: zone_ptrs_def)
qed (use K in simp)

text \<open>A block of pointers is loaded into the buffer \<open>buf\<close> before the loop over it.\<close>

lemma load_block_walks:
  assumes ok: "read_ok E bdev disk d n offset dst" and z: "in_disk (disk d) z"
    and f: "walks (read_run (disk d) n offset dst) (read_fin (disk d) n offset dst) (\<lambda>s. K s \<and> buf s = block_at (disk d) z) f zs"
    and buf: "\<And>ws s. read_run (disk d) n offset dst ws s \<Longrightarrow> length (buf s) = 1024"
    and upd: "\<And>ws s b. read_run (disk d) n offset dst ws s \<Longrightarrow> length b = 1024 \<Longrightarrow> read_run (disk d) n offset dst ws (upd b s)"
    and K: "\<And>s b. K s \<Longrightarrow> K (upd b s) \<and> buf (upd b s) = b"
  shows "walks (read_run (disk d) n offset dst) (read_fin (disk d) n offset dst) K
    (\<lambda>s. do { pos \<leftarrow> umul BLOCK_SIZE z; (_, b) \<leftarrow> syc_read E bdev (buf s) BLOCK_SIZE pos d; f (upd b s) }) zs"
proof (rule rw.walks_after [OF f, where upd = "upd (block_at (disk d) z)"])
  have dv: "device_ok E bdev disk" "length (disk d) + 2048 < 2 ^ 32" using ok by (simp_all add: read_ok_def)
  fix ws s assume r: "read_run (disk d) n offset dst ws s" and k: "K s"
  show "do { pos \<leftarrow> umul BLOCK_SIZE z; (_, b) \<leftarrow> syc_read E bdev (buf s) BLOCK_SIZE pos d; f (upd b s) } = f (upd (block_at (disk d) z) s)
    \<and> read_run (disk d) n offset dst ws (upd (block_at (disk d) z) s)
    \<and> K (upd (block_at (disk d) z) s) \<and> buf (upd (block_at (disk d) z) s) = block_at (disk d) z"
    using load_ptrs [OF dv z buf [OF r], of "\<lambda>b. f (upd b s)"] upd [OF r] K [OF k] z by simp
qed simp

text \<open>A part of \<^verbatim>\<open>read\<close> that a zone of 0 switches off.\<close>

lemma optional_walks:
  assumes "z \<noteq> 0 \<Longrightarrow> walks (read_run bs n offset dst) (read_fin bs n offset dst) K f zs" "z = 0 \<Longrightarrow> zs = []"
  shows "walks (read_run bs n offset dst) (read_fin bs n offset dst) K (\<lambda>s. if z \<noteq> 0 then f s else Some (False, s)) zs"
  using assms rw.walks_nothing by (cases "z = 0") simp_all

lemma read_indirect_walks:
  assumes ok: "read_ok E bdev disk d n offset dst" and zs: "zones_ok (disk d) ino"
  shows "walks (read_run (disk d) n offset dst) (read_fin (disk d) n offset dst) (\<lambda>_. True)
    (read_indirect E bdev d (offset div BLOCK_SIZE) ino) (indirect_zones (disk d) ino)"
  unfolding read_indirect_def
proof (rule optional_walks)
  assume nz: "i_zones ino ! 7 \<noteq> 0"
  then have "in_disk (disk d) (i_zones ino ! 7)" "list_all (in_disk (disk d)) (zone_ptrs (disk d) (i_zones ino ! 7))"
    using zs by (simp_all add: zones_ok_def pointer_zones_def file_zones_def indirect_zones_def)
  then show "walks (read_run (disk d) n offset dst) (read_fin (disk d) n offset dst) (\<lambda>_. True)
     (\<lambda>st. do {
        pos \<leftarrow> umul BLOCK_SIZE (i_zones ino ! 7);
        (_, b) \<leftarrow> syc_read E bdev (r_ind st) BLOCK_SIZE pos d;
        ptr_loop (\<lambda>s. zone_ptr (r_ind s)) (read_zone E bdev d (offset div BLOCK_SIZE)) [0..<NUM_IPTRS] (st\<lparr>r_ind := b\<rparr>)
      }) (indirect_zones (disk d) ino)"
    unfolding indirect_zones_def using nz
    by (simp only: if_False) (intro load_block_walks [OF ok] ptr_block_walks [OF ok], auto simp: ptr_pred_def read_run_buffers)
qed (simp add: indirect_zones_def)


lemma read_iindirect_walks:
  assumes ok: "read_ok E bdev disk d n offset dst" and zs: "zones_ok (disk d) ino"
  shows "walks (read_run (disk d) n offset dst) (read_fin (disk d) n offset dst) (\<lambda>_. True)
    (read_iindirect E bdev d (offset div BLOCK_SIZE) ino) (iindirect_zones (disk d) ino)"
  unfolding read_iindirect_def
proof (rule optional_walks)
  let ?z = "i_zones ino ! 8"
  let ?R = "read_run (disk d) n offset dst" and ?F = "read_fin (disk d) n offset dst"
  assume nz: "?z \<noteq> 0"
  then have z: "in_disk (disk d) ?z" "list_all (in_disk (disk d)) (zone_ptrs (disk d) ?z)"
      "list_all (in_disk (disk d)) (concat (map (zone_ptrs (disk d)) (zone_ptrs (disk d) ?z)))"
    using zs by (simp_all add: zones_ok_def pointer_zones_def file_zones_def iindirect_zones_def)
  let ?body = "\<lambda>p st. do {
      pos \<leftarrow> umul BLOCK_SIZE p;
      (_, b) \<leftarrow> syc_read E bdev (r_iind st) BLOCK_SIZE pos d;
      ptr_loop (\<lambda>s. zone_ptr (r_iind s)) (read_zone E bdev d (offset div BLOCK_SIZE)) [0..<NUM_IPTRS] (st\<lparr>r_iind := b\<rparr>)
    }"
  have body: "walks ?R ?F (\<lambda>s. True \<and> r_ind s = block_at (disk d) ?z) (?body p) (zone_ptrs (disk d) p)" if "p \<in> set (zone_ptrs (disk d) ?z)" for p
  proof (rule load_block_walks [OF ok])
    show "in_disk (disk d) p" using that z(2) by (simp add: list_all_iff)
    show "walks ?R ?F (\<lambda>s. (True \<and> r_ind s = block_at (disk d) ?z) \<and> r_iind s = block_at (disk d) p)
        (ptr_loop (\<lambda>s. zone_ptr (r_iind s)) (read_zone E bdev d (offset div BLOCK_SIZE)) [0..<NUM_IPTRS]) (zone_ptrs (disk d) p)"
      using that z(3) by (intro ptr_block_walks [OF ok]) (auto simp: ptr_pred_def list_all_iff)
  qed (auto simp: read_run_buffers)
  have "walks ?R ?F (\<lambda>s. True \<and> r_ind s = block_at (disk d) ?z) (ptr_loop (\<lambda>s. zone_ptr (r_ind s)) ?body [0..<NUM_IPTRS])
      (concat (map (zone_ptrs (disk d)) (zone_ptrs (disk d) ?z)))"
    by (rule walks_ptrs [OF _ body]) simp
  then show "walks ?R ?F (\<lambda>_. True) (\<lambda>st. do {
        pos \<leftarrow> umul BLOCK_SIZE ?z;
        (_, b) \<leftarrow> syc_read E bdev (r_ind st) BLOCK_SIZE pos d;
        ptr_loop (\<lambda>s. zone_ptr (r_ind s)) ?body [0..<NUM_IPTRS] (st\<lparr>r_ind := b\<rparr>)
      }) (iindirect_zones (disk d) ino)"
    unfolding iindirect_zones_def using nz
    by (simp only: if_False) (rule load_block_walks [OF ok z(1)], auto simp: read_run_buffers)
qed (simp add: iindirect_zones_def)

lemma read_iiindirect_walks:
  assumes ok: "read_ok E bdev disk d n offset dst" and zs: "zones_ok (disk d) ino"
  shows "walks (read_run (disk d) n offset dst) (read_fin (disk d) n offset dst) (\<lambda>_. True)
    (read_iiindirect E bdev d (offset div BLOCK_SIZE) ino) (iiindirect_zones (disk d) ino)"
  unfolding read_iiindirect_def
proof (rule optional_walks)
  let ?z = "i_zones ino ! 9"
  let ?R = "read_run (disk d) n offset dst" and ?F = "read_fin (disk d) n offset dst"
  let ?K = "\<lambda>s. True \<and> r_ind s = block_at (disk d) ?z"
  assume nz: "?z \<noteq> 0"
  then have z: "in_disk (disk d) ?z" "\<forall>p \<in> set (zone_ptrs (disk d) ?z). in_disk (disk d) p \<and> list_all (in_disk (disk d)) (zone_ptrs (disk d) p)
      \<and> list_all (in_disk (disk d)) (concat (map (zone_ptrs (disk d)) (zone_ptrs (disk d) p)))"
    using zs by (auto simp: zones_ok_def pointer_zones_def file_zones_def iiindirect_zones_def list_all_iff)
  let ?inner = "\<lambda>q st. do {
      pos \<leftarrow> umul BLOCK_SIZE q;
      (_, b) \<leftarrow> syc_read E bdev (r_iiind st) BLOCK_SIZE pos d;
      ptr_loop (\<lambda>s. zone_ptr (r_iiind s)) (read_zone E bdev d (offset div BLOCK_SIZE)) [0..<NUM_IPTRS] (st\<lparr>r_iiind := b\<rparr>)
    }"
  let ?body = "\<lambda>p st. do {
      pos \<leftarrow> umul BLOCK_SIZE p;
      (_, b) \<leftarrow> syc_read E bdev (r_iind st) BLOCK_SIZE pos d;
      ptr_loop (\<lambda>s. zone_ptr (r_iind s)) ?inner [0..<NUM_IPTRS] (st\<lparr>r_iind := b\<rparr>)
    }"
  have inner: "walks ?R ?F (\<lambda>s. ?K s \<and> r_iind s = block_at (disk d) p) (?inner q) (zone_ptrs (disk d) q)"
    if "p \<in> set (zone_ptrs (disk d) ?z)" "q \<in> set (zone_ptrs (disk d) p)" for p q
  proof (rule load_block_walks [OF ok])
    show "in_disk (disk d) q" using that z(2) by (auto simp: list_all_iff)
    show "walks ?R ?F (\<lambda>s. (?K s \<and> r_iind s = block_at (disk d) p) \<and> r_iiind s = block_at (disk d) q)
        (ptr_loop (\<lambda>s. zone_ptr (r_iiind s)) (read_zone E bdev d (offset div BLOCK_SIZE)) [0..<NUM_IPTRS]) (zone_ptrs (disk d) q)"
      using that z(2) by (intro ptr_block_walks [OF ok]) (auto simp: ptr_pred_def list_all_iff)
  qed (auto simp: read_run_buffers)
  have body: "walks ?R ?F ?K (?body p) (concat (map (zone_ptrs (disk d)) (zone_ptrs (disk d) p)))" if p: "p \<in> set (zone_ptrs (disk d) ?z)" for p
  proof (rule load_block_walks [OF ok])
    show "in_disk (disk d) p" using p z(2) by blast
    show "walks ?R ?F (\<lambda>s. ?K s \<and> r_iind s = block_at (disk d) p) (ptr_loop (\<lambda>s. zone_ptr (r_iind s)) ?inner [0..<NUM_IPTRS])
        (concat (map (zone_ptrs (disk d)) (zone_ptrs (disk d) p)))"
      by (rule walks_ptrs [OF _ inner [OF p]]) simp
  qed (auto simp: read_run_buffers)
  have "walks ?R ?F ?K (ptr_loop (\<lambda>s. zone_ptr (r_ind s)) ?body [0..<NUM_IPTRS])
      (concat (map (\<lambda>p. concat (map (zone_ptrs (disk d)) (zone_ptrs (disk d) p))) (zone_ptrs (disk d) ?z)))"
    by (rule walks_ptrs [OF _ body]) simp
  then show "walks ?R ?F (\<lambda>_. True) (\<lambda>st. do {
        pos \<leftarrow> umul BLOCK_SIZE ?z;
        (_, b) \<leftarrow> syc_read E bdev (r_ind st) BLOCK_SIZE pos d;
        ptr_loop (\<lambda>s. zone_ptr (r_ind s)) ?body [0..<NUM_IPTRS] (st\<lparr>r_ind := b\<rparr>)
      }) (iiindirect_zones (disk d) ino)"
    unfolding iiindirect_zones_def using nz
    by (simp only: if_False) (rule load_block_walks [OF ok z(1)], auto simp: read_run_buffers)
qed (simp add: iiindirect_zones_def)


section \<open>The whole of read\<close>

lemma fs_read_bytes:
  assumes ok: "device_ok E bdev disk" "length (disk d) + 2048 < 2 ^ 32" and zs: "zones_ok (disk d) ino"
    and n: "n = min sz (i_size ino)" "8 dvd unat n" "8 dvd unat offset" "unat n \<le> length buffer"
  defines "out \<equiv> take (unat n) (drop (unat offset) (file_bytes (disk d) ino))"
  shows "fs_read E bdev ino buffer sz offset d = Some (of_nat (length out), splice 0 out buffer)"
proof -
  let ?ob = "offset div BLOCK_SIZE" and ?b = "Buffer_new E (unat BLOCK_SIZE)"
  let ?R = "read_run (disk d) n offset buffer" and ?F = "read_fin (disk d) n offset buffer"
  have ok': "read_ok E bdev disk d n offset buffer" using ok n by (simp add: read_ok_def)
  have dz: "list_all (in_disk (disk d)) (direct_zones ino)" using zs by (simp add: zones_ok_def file_zones_def)
  let ?st = "\<lparr>r_seen = 0, r_off = offset mod BLOCK_SIZE, r_left = n, r_read = 0, r_dst = buffer,
     r_block = ?b, r_ind = ?b, r_iind = ?b, r_iiind = ?b\<rparr>"
  let ?all = "\<lambda>st. or_return (or_return (or_return (read_direct E bdev d ?ob ino st) (read_indirect E bdev d ?ob ino))
    (read_iindirect E bdev d ?ob ino)) (read_iiindirect E bdev d ?ob ino)"
  have "walks ?R ?F (\<lambda>_. True) ?all (((direct_zones ino @ indirect_zones (disk d) ino) @ iindirect_zones (disk d) ino) @ iiindirect_zones (disk d) ino)"
    by (intro rw.walks_or_return read_direct_walks [OF ok' dz] read_indirect_walks [OF ok' zs] read_iindirect_walks [OF ok' zs]
        read_iiindirect_walks [OF ok' zs])
  then have w: "walks ?R ?F (\<lambda>_. True) ?all (file_zones (disk d) ino)" by (simp add: file_zones_def)
  have lb: "length ?b = 1024" by (simp add: length_Buffer_new)
  have st: "?R [] ?st" using lb by (simp add: read_run_def read_pos_def Let_def)
  have l: "length [] + length (file_zones (disk d) ino) < 2 ^ 32" using length_file_zones [of "disk d" ino] by simp
  have n_eq: "(if sz > i_size ino then i_size ino else sz) = n" using n(1) by (auto simp: min_def)
  show ?thesis
  proof (rule rw.walksD [OF w st TrueI l])
    fix s' assume e: "?all ?st = Some (True, s')" and f: "?F ([] @ file_zones (disk d) ino) s'"
    then have "r_read s' = n" "r_dst s' = splice 0 out buffer" "length out = unat n"
      by (simp_all add: read_fin_def out_def file_bytes_def Let_def)
    then show ?thesis using e unfolding fs_read_def Let_def n_eq by simp
  next
    fix s' assume e: "?all ?st = Some (False, s')" and f: "?R ([] @ file_zones (disk d) ino) s'"
    then have u: "unat (r_read s') = length out" and "r_dst s' = splice 0 out buffer"
      by (auto simp: read_run_def out_def file_bytes_def Let_def)
    moreover have "r_read s' = of_nat (length out)" by (simp flip: u)
    ultimately show ?thesis using e unfolding fs_read_def Let_def n_eq by simp
  qed
qed


section \<open>A disk in memory\<close>

text \<open>An instance of the contract of the block device: the disk is a list of bytes, of which the whole blocks count.\<close>

definition ram_env :: "u8 list env" where
  "ram_env = \<lparr>syscall_block_read = \<lambda>bdev sz off d. (0, take (unat sz) (drop (unat off) d)),
     syscall_block_write = \<lambda>bdev bs off d. (0, splice (unat off) bs d), uninit = \<lambda>_. 0\<rparr>"

definition ram_disk :: "u8 list \<Rightarrow> u8 list" where
  "ram_disk d = take (1024 * (length d div 1024)) d"

lemma ram_disk_whole [simp]: "1024 dvd length d \<Longrightarrow> ram_disk d = d"
  by (auto simp: ram_disk_def elim!: dvdE)

lemma take_splice:
  "off + length xs \<le> n \<Longrightarrow> n \<le> length bs \<Longrightarrow> take n (splice off xs bs) = splice off xs (take n bs)"
  by (rule nth_equalityI) (auto simp: nth_splice)

lemma ram_device_ok: "device_ok ram_env bdev ram_disk"
  unfolding device_ok_def
proof (intro conjI allI impI)
  fix d :: "u8 list" and sz off :: u32
  assume "unat off + unat sz \<le> length (ram_disk d)"
  then have "unat off + unat sz \<le> 1024 * (length d div 1024)" by (simp add: ram_disk_def)
  then show "syscall_block_read ram_env bdev sz off d = (0, take (unat sz) (drop (unat off) (ram_disk d)))"
    by (simp add: ram_env_def ram_disk_def drop_take min_def)
next
  fix d bs :: "u8 list" and off :: u32
  assume fit: "unat off + length bs \<le> length (ram_disk d)"
  have "length (splice (unat off) bs d) = length d" using fit by (intro length_splice) (simp add: ram_disk_def)
  then have "ram_disk (splice (unat off) bs d) = splice (unat off) bs (ram_disk d)"
    using fit by (simp add: ram_disk_def take_splice)
  then show "\<exists>d'. syscall_block_write ram_env bdev bs off d = (0, d') \<and> ram_disk d' = splice (unat off) bs (ram_disk d)"
    by (simp add: ram_env_def)
qed (simp add: ram_disk_def)

text \<open>A disk of twelve blocks with some text in block 9 and a pointer to block 10 in block 11.\<close>

definition example_disk :: "u8 list" where
  "example_disk = replicate 9216 0 @ ([72, 101, 108, 108, 111, 32, 77, 105, 110, 105, 120, 33, 33, 33, 33, 33] @ replicate 1008 7)
     @ replicate 1024 42 @ (to_le 4 (10 :: u32) @ replicate 1020 0)"

definition example_file :: Inode where
  "example_file = \<lparr>i_mode = 0x81a4, i_nlinks = 1, i_uid = 0, i_gid = 0, i_size = 2048, i_atime = 0, i_mtime = 0, i_ctime = 0,
     i_zones = [9, 0, 0, 0, 0, 0, 0, 11, 0, 0]\<rparr>"

lemma example_disk_length [simp]: "length example_disk = 12288"
  by (simp add: example_disk_def)

lemma example_blocks:
  "block_at example_disk 9 = [72, 101, 108, 108, 111, 32, 77, 105, 110, 105, 120, 33, 33, 33, 33, 33] @ replicate 1008 7"
  "block_at example_disk 10 = replicate 1024 42"
  "block_at example_disk 11 = to_le 4 (10 :: u32) @ replicate 1020 0"
  by (simp_all add: block_at_def example_disk_def)

lemma example_pointers: "zone_ptrs example_disk 11 = [10]"
proof -
  have "zone_ptr (block_at example_disk 11) i = 0" if "0 < i" "i < 256" for i
  proof -
    have "take 4 (drop (4 * i) (to_le 4 (10 :: u32) @ replicate 1020 (0 :: u8))) = replicate 4 0"
      using that by (simp add: min_def)
    then show ?thesis unfolding zone_ptr_def field_def example_blocks(3) by (simp add: le_word_zeros)
  qed
  moreover have "zone_ptr (block_at example_disk 11) 0 = 10"
    unfolding zone_ptr_def example_blocks(3) by (simp add: field_head)
  ultimately have "map (zone_ptr (block_at example_disk 11)) [0..<256] = 10 # replicate 255 0"
    by (intro nth_equalityI) (auto simp: nth_Cons split: nat.splits)
  then show ?thesis by (simp add: zone_ptrs_def NUM_IPTRS_def BLOCK_SIZE_def)
qed

lemma example_file_zones: "file_zones example_disk example_file = [9, 10]" "zones_ok example_disk example_file"
  "length (file_bytes example_disk example_file) = 2048"
proof -
  have f: "file_zones example_disk example_file = [9, 10]"
    by (simp add: file_zones_def direct_zones_def indirect_zones_def iindirect_zones_def iiindirect_zones_def example_file_def
        example_pointers upt_rec)
  then show "file_zones example_disk example_file = [9, 10]" .
  then show "length (file_bytes example_disk example_file) = 2048" by (simp add: file_bytes_def example_blocks)
  show "zones_ok example_disk example_file"
    unfolding zones_ok_def f by (simp add: pointer_zones_def example_file_def in_disk_def)
qed


section \<open>Properties\<close>

text \<open>
  Byte-granular disk access. On a device that meets its contract, \<^verbatim>\<open>syc_write\<close> of \<open>sz\<close> bytes (fewer
  than 8, or a multiple of 8) at any byte offset of the disk succeeds; \<^verbatim>\<open>syc_read\<close> then gives
  exactly these bytes back, and every range of the disk that does not meet the written one is as
  before.
\<close>
lemma syc_write_read_back:
  assumes "device_ok E bdev disk" and "unat off + unat sz + 2048 < 2 ^ 32" and "unat off + unat sz \<le> length (disk d)"
    and "unat sz \<le> length buf" and "unat sz < 8 \<or> 8 dvd unat sz" and "unat sz \<le> length out"
  shows "\<exists>d'. syc_write E bdev buf sz off d = Some (0, d')
    \<and> syc_read E bdev out sz off d' = Some (0, splice 0 (take (unat sz) buf) out)
    \<and> (\<forall>a n. a + n \<le> unat off \<or> unat off + unat sz \<le> a \<longrightarrow> a + n \<le> length (disk d) \<longrightarrow>
         take n (drop a (disk d')) = take n (drop a (disk d)))"
proof -
  have len: "memcpy_len (unat sz) = unat sz" using assms(5) by (rule memcpy_len_whole)
  obtain d' where "syc_write E bdev buf sz off d = Some (0, d')"
      "syc_read E bdev out sz off d' = Some (0, splice 0 (take (unat sz) buf) out)"
    using io.write_read [OF assms(1-4) len assms(6)] by blast
  then show ?thesis using io.write_elsewhere [OF assms(1-4)] by fastforce
qed

text \<open>
  C13: \<^verbatim>\<open>MinixFileSystem::read\<close> refines reading from the file as one byte string. The nested loops over
  direct, singly, doubly and triply indirect zones return, without a panic, exactly the bytes
  from \<open>offset\<close> on of the concatenation of the file's zones, at most as many as the buffer and the
  size in the inode allow, and store them at the start of the buffer; the rest of the buffer is
  unchanged. (Sizes and offsets are multiples of 8, the zones are on the disk.)
\<close>
theorem read_refines_file:
  assumes "device_ok E bdev disk" and "length (disk d) + 2048 < 2 ^ 32" and "zones_ok (disk d) ino"
    and "8 dvd unat (min sz (i_size ino))" and "8 dvd unat offset" and "unat (min sz (i_size ino)) \<le> length buffer"
  shows "let out = take (unat (min sz (i_size ino))) (drop (unat offset) (file_bytes (disk d) ino))
    in fs_read E bdev ino buffer sz offset d = Some (of_nat (length out), splice 0 out buffer)"
  using fs_read_bytes [OF assms(1-3) refl assms(4-6)] by (simp add: Let_def)

theorem read_refines_file_witness:
  "fs_read ram_env 8 example_file (replicate 2048 0) 16 8 example_disk
    = Some (16, splice 0 ([110, 105, 120, 33, 33, 33, 33, 33] @ replicate 8 7) (replicate 2048 0))"
proof -
  have "min 16 (i_size example_file) = 16" by (simp add: example_file_def min_def)
  moreover have "take 16 (drop 8 (file_bytes example_disk example_file)) = [110, 105, 120, 33, 33, 33, 33, 33] @ replicate 8 7"
    by (simp add: file_bytes_def example_file_zones example_blocks)
  ultimately show ?thesis
    using read_refines_file [where disk = ram_disk and d = example_disk and ino = example_file and sz = 16 and offset = 8
        and buffer = "replicate 2048 0" and bdev = 8, OF ram_device_ok] example_file_zones(2)
    by (simp add: Let_def)
qed

end
