(* ===== verification/Fs_Write.thy ===== *)
theory Fs_Write
  imports Fs_Walk
begin

text \<open>
  What \<^verbatim>\<open>MinixFileSystem::write\<close> does for a request that fits into one zone of a file without doubly and
  triply indirect zones, and reading back what was written.
\<close>

section \<open>Walking to the zone\<close>

definition write_run :: "('d \<Rightarrow> u8 list) \<Rightarrow> 'd \<Rightarrow> u32 \<Rightarrow> u32 \<Rightarrow> u32 list \<Rightarrow> 'd write_st \<Rightarrow> bool" where
  "write_run disk d sz offset ws st \<longleftrightarrow>
     length ws \<le> unat (offset div BLOCK_SIZE) \<and> unat (w_seen st) = length ws \<and> w_off st = offset mod BLOCK_SIZE
     \<and> w_left st = sz \<and> w_written st = 0 \<and> w_dev st = d
     \<and> length (w_ind st) = 1024 \<and> length (w_iind st) = 1024 \<and> length (w_iiind st) = 1024"

definition write_fin :: "('d \<Rightarrow> u8 list) \<Rightarrow> 'd \<Rightarrow> u8 list \<Rightarrow> u32 \<Rightarrow> u32 \<Rightarrow> u32 list \<Rightarrow> 'd write_st \<Rightarrow> bool" where
  "write_fin disk d buf sz offset ws st \<longleftrightarrow>
     unat (offset div BLOCK_SIZE) < length ws \<and> w_written st = sz
     \<and> disk (w_dev st) = splice (1024 * unat (ws ! unat (offset div BLOCK_SIZE))) (take (memcpy_len (unat sz)) buf) (disk d)"

interpretation ww: zone_walk "write_run disk d sz offset" "write_fin disk d buf sz offset" for disk d buf sz offset
  by unfold_locales (auto simp: write_fin_def nth_append)

text \<open>The request: it fits into the rest of one zone, and the buffer holds the bytes.\<close>

definition write_ok :: "'d env \<Rightarrow> usize \<Rightarrow> ('d \<Rightarrow> u8 list) \<Rightarrow> 'd \<Rightarrow> u8 list \<Rightarrow> u32 \<Rightarrow> u32 \<Rightarrow> bool" where
  "write_ok E bdev disk d buf sz offset \<longleftrightarrow> device_ok E bdev disk \<and> length (disk d) + 2048 < 2 ^ 32
     \<and> unat sz + unat (offset mod BLOCK_SIZE) \<le> 1024 \<and> unat sz \<le> length buf"

lemma write_zone_here:
  assumes ok: "write_ok E bdev disk d buf sz offset" and z: "in_disk (disk d) z"
    and r: "write_run disk d sz offset ws st" and k: "offset div BLOCK_SIZE \<le> w_seen st"
  shows "\<exists>st'. write_zone E bdev buf sz (offset div BLOCK_SIZE) z st = Some (True, st') \<and> write_fin disk d buf sz offset (ws @ [z]) st'"
proof -
  have r': "length ws = unat (offset div BLOCK_SIZE)" "w_off st = offset mod BLOCK_SIZE" "w_left st = sz" "w_written st = 0" "w_dev st = d"
    using r k by (auto simp: write_run_def word_le_nat_alt)
  have fit: "unat sz + unat (offset mod BLOCK_SIZE) \<le> 1024" and lb: "unat sz \<le> length buf"
    and dv: "device_ok E bdev disk" "length (disk d) + 2048 < 2 ^ 32" using ok by (simp_all add: write_ok_def)
  have zo: "umul z BLOCK_SIZE = Some (z * BLOCK_SIZE)" "unat (z * BLOCK_SIZE) = 1024 * unat z" using zone_product [OF z] dv by simp_all
  have "1024 * unat z + unat sz \<le> length (disk d)" using z fit by (simp add: in_disk_def)
  then obtain d' where w: "syc_write E bdev buf sz (z * BLOCK_SIZE) d = Some (0, d')"
      and d': "disk d' = splice (1024 * unat z) (take (memcpy_len (unat sz)) buf) (disk d)"
    using syc_write_bytes [OF dv(1), of "z * BLOCK_SIZE" sz d buf] zo(2) dv(2) lb memcpy_len_le [of "unat sz"] by auto
  define room where "room = BLOCK_SIZE - offset mod BLOCK_SIZE"
  have room: "usub BLOCK_SIZE (offset mod BLOCK_SIZE) = Some room" "unat room = 1024 - unat (offset mod BLOCK_SIZE)"
    using unat_offset_split(2) [of offset] unat_sub [of "offset mod BLOCK_SIZE" BLOCK_SIZE]
    by (simp_all add: room_def usub_def word_le_nat_alt)
  have m: "(if sz < room then sz else room) = sz"
    using fit room(2) by (auto simp: word_less_nat_alt word_unat_eq_iff)
  let ?st = "st\<lparr>w_dev := d', w_off := 0, w_written := sz, w_left := 0\<rparr>"
  have "write_zone E bdev buf sz (offset div BLOCK_SIZE) z st = Some (True, ?st)"
  proof -
    have "uadd 0 sz = Some sz" "usub sz sz = Some 0" using unat_lt_2p32 [of sz] by (simp_all add: uadd_def usub_def)
    then show ?thesis using k zo(1) w room(1) unfolding write_zone_def r' by (simp add: m or_return_def Let_def)
  qed
  moreover have "write_fin disk d buf sz offset (ws @ [z]) ?st" using r'(1) d' by (simp add: write_fin_def nth_append)
  ultimately show ?thesis by blast
qed

definition wptr_pred :: "('d write_st \<Rightarrow> bool) \<Rightarrow> bool" where
  "wptr_pred K \<longleftrightarrow> (\<forall>s s'. w_ind s' = w_ind s \<longrightarrow> w_iind s' = w_iind s \<longrightarrow> w_iiind s' = w_iiind s \<longrightarrow> K s \<longrightarrow> K s')"

lemma walks_write_zone:
  assumes ok: "write_ok E bdev disk d buf sz offset" and z: "in_disk (disk d) z" and K: "wptr_pred K"
  shows "walks (write_run disk d sz offset) (write_fin disk d buf sz offset) K (write_zone E bdev buf sz (offset div BLOCK_SIZE) z) [z]"
  unfolding walks_def
proof (intro allI impI)
  fix ws st
  assume r: "write_run disk d sz offset ws st" and k: "K st" and l: "length ws + length [z] < 2 ^ 32"
  show "\<exists>e st'. write_zone E bdev buf sz (offset div BLOCK_SIZE) z st = Some (e, st')
    \<and> (if e then write_fin disk d buf sz offset (ws @ [z]) st' else write_run disk d sz offset (ws @ [z]) st' \<and> K st')"
  proof (cases "offset div BLOCK_SIZE \<le> w_seen st")
    case True
    then show ?thesis using write_zone_here [OF ok z r] by auto
  next
    case False
    let ?st = "st\<lparr>w_seen := w_seen st + 1\<rparr>"
    have seen: "unat (w_seen st) = length ws" using r by (simp add: write_run_def)
    then have a: "uadd (w_seen st) 1 = Some (w_seen st + 1)" "unat (w_seen st + 1) = length ws + 1"
      using l unat_add_no_wrap [of "w_seen st" 1] by (simp_all add: uadd_def)
    have "write_run disk d sz offset (ws @ [z]) ?st" using r a(2) False seen by (simp add: write_run_def word_le_nat_alt)
    moreover have "K ?st" using K k unfolding wptr_pred_def by simp
    ultimately show ?thesis using False a(1) by (auto simp: write_zone_def or_return_def)
  qed
qed

section \<open>The whole of write\<close>

lemma write_direct_walks:
  assumes ok: "write_ok E bdev disk d buf sz offset" and zs: "zones_ok (disk d) ino"
  shows "walks (write_run disk d sz offset) (write_fin disk d buf sz offset) (\<lambda>_. True)
    (write_direct E bdev buf sz (offset div BLOCK_SIZE) ino) (direct_zones ino)"
proof -
  have "walks (write_run disk d sz offset) (write_fin disk d buf sz offset) (\<lambda>_. True)
      (write_zone E bdev buf sz (offset div BLOCK_SIZE) (i_zones ino ! i)) [i_zones ino ! i]"
    if "i \<in> set [0..<7]" "i_zones ino ! i \<noteq> 0" for i
    using that zs by (intro walks_write_zone [OF ok]) (auto simp: zones_ok_def file_zones_def direct_zones_def list_all_iff wptr_pred_def)
  then show ?thesis
    unfolding write_direct_def direct_zones_def by (intro ww.walks_ptr_loop1) simp_all
qed

lemma write_indirect_walks:
  assumes ok: "write_ok E bdev disk d buf sz offset" and zs: "zones_ok (disk d) ino"
  shows "walks (write_run disk d sz offset) (write_fin disk d buf sz offset) (\<lambda>_. True)
    (write_indirect E bdev buf sz (offset div BLOCK_SIZE) ino) (indirect_zones (disk d) ino)"
proof (cases "i_zones ino ! 7 = 0")
  case True
  then have "write_indirect E bdev buf sz (offset div BLOCK_SIZE) ino = (\<lambda>s. Some (False, s))" by (simp add: write_indirect_def fun_eq_iff)
  then show ?thesis using True ww.walks_nothing by (simp add: indirect_zones_def)
next
  case False
  let ?z = "i_zones ino ! 7" and ?f = "write_zone E bdev buf sz (offset div BLOCK_SIZE)"
  have z: "in_disk (disk d) ?z" "list_all (in_disk (disk d)) (zone_ptrs (disk d) ?z)"
    using zs False by (simp_all add: zones_ok_def pointer_zones_def file_zones_def indirect_zones_def)
  have dv: "device_ok E bdev disk" "length (disk d) + 2048 < 2 ^ 32" using ok by (simp_all add: write_ok_def)
  have loop: "walks (write_run disk d sz offset) (write_fin disk d buf sz offset) (\<lambda>s. w_ind s = block_at (disk d) ?z)
      (ptr_loop (\<lambda>s i. zone_ptr (w_ind s) i) ?f [0..<NUM_IPTRS]) (zone_ptrs (disk d) ?z)"
    unfolding zone_ptrs_def
  proof (rule ww.walks_ptr_loop1)
    fix i assume "i \<in> set [0..<NUM_IPTRS]" "zone_ptr (block_at (disk d) ?z) i \<noteq> 0"
    then show "walks (write_run disk d sz offset) (write_fin disk d buf sz offset) (\<lambda>s. w_ind s = block_at (disk d) ?z)
        (?f (zone_ptr (block_at (disk d) ?z) i)) [zone_ptr (block_at (disk d) ?z) i]"
      using z(2) by (intro walks_write_zone [OF ok]) (auto simp: list_all_iff zone_ptrs_def wptr_pred_def)
  qed simp
  have "walks (write_run disk d sz offset) (write_fin disk d buf sz offset) (\<lambda>_. True)
      (write_indirect E bdev buf sz (offset div BLOCK_SIZE) ino) (zone_ptrs (disk d) ?z)"
  proof (rule ww.walks_after [OF loop, where upd = "\<lambda>s. s\<lparr>w_ind := block_at (disk d) ?z\<rparr>"])
    fix ws s assume r: "write_run disk d sz offset ws s"
    then have "length (w_ind s) = 1024" "w_dev s = d" by (simp_all add: write_run_def)
    then show "write_indirect E bdev buf sz (offset div BLOCK_SIZE) ino s
        = ptr_loop (\<lambda>s i. zone_ptr (w_ind s) i) ?f [0..<NUM_IPTRS] (s\<lparr>w_ind := block_at (disk d) ?z\<rparr>)
      \<and> write_run disk d sz offset ws (s\<lparr>w_ind := block_at (disk d) ?z\<rparr>)
      \<and> w_ind (s\<lparr>w_ind := block_at (disk d) ?z\<rparr>) = block_at (disk d) ?z"
      unfolding write_indirect_def using False load_ptrs [OF dv z(1), of "w_ind s"] r z(1) by (simp add: write_run_def)
  qed simp
  then show ?thesis using False by (simp add: indirect_zones_def)
qed

text \<open>
  A request that fits into one zone: it writes the whole of the data to the \<^emph>\<open>start\<close> of the zone that
  holds the offset, or nothing when the file has no such zone.
\<close>

lemma fs_write_zone:
  assumes ok: "write_ok E bdev disk d buf sz offset" and zs: "zones_ok (disk d) ino" and small: "i_zones ino ! 8 = 0" "i_zones ino ! 9 = 0"
  defines "k \<equiv> unat (offset div BLOCK_SIZE)"
  shows "if k < length (file_zones (disk d) ino)
    then \<exists>d'. fs_write E bdev ino buf sz offset d = Some (sz, ino, d')
      \<and> disk d' = splice (1024 * unat (file_zones (disk d) ino ! k)) (take (memcpy_len (unat sz)) buf) (disk d)
    else fs_write E bdev ino buf sz offset d = Some (0, ino\<lparr>i_size := 0\<rparr>, d)"
proof -
  let ?ob = "offset div BLOCK_SIZE" and ?b = "Buffer_new E (unat BLOCK_SIZE)"
  let ?st = "\<lparr>w_seen = 0, w_off = offset mod BLOCK_SIZE, w_left = sz, w_written = 0, w_dev = d, w_ind = ?b, w_iind = ?b, w_iiind = ?b\<rparr>"
  let ?all = "\<lambda>st. or_return (or_return (or_return (write_direct E bdev buf sz ?ob ino st) (write_indirect E bdev buf sz ?ob ino))
    (write_iindirect E bdev buf sz ?ob ino)) (write_iiindirect E bdev buf sz ?ob ino)"
  have rest: "walks (write_run disk d sz offset) (write_fin disk d buf sz offset) (\<lambda>_. True) (write_iindirect E bdev buf sz ?ob ino) []"
    "walks (write_run disk d sz offset) (write_fin disk d buf sz offset) (\<lambda>_. True) (write_iiindirect E bdev buf sz ?ob ino) []"
    by (rule ww.walks_cong [OF ww.walks_nothing], simp add: write_iindirect_def write_iiindirect_def small)+
  note w2 = ww.walks_or_return [OF write_direct_walks [OF ok zs] write_indirect_walks [OF ok zs]]
  note w4 = ww.walks_or_return [OF ww.walks_or_return [OF w2 rest(1)] rest(2)]
  have w: "walks (write_run disk d sz offset) (write_fin disk d buf sz offset) (\<lambda>_. True) ?all (file_zones (disk d) ino)"
    using w4 small by (simp add: file_zones_def iindirect_zones_def iiindirect_zones_def)
  have st: "write_run disk d sz offset [] ?st" by (simp add: write_run_def length_Buffer_new)
  have l: "length [] + length (file_zones (disk d) ino) < 2 ^ 32" using length_file_zones [of "disk d" ino] by simp
  show ?thesis
  proof (rule ww.walksD [OF w st TrueI l])
    fix s' assume e: "?all ?st = Some (True, s')" and f: "write_fin disk d buf sz offset ([] @ file_zones (disk d) ino) s'"
    then show ?thesis by (auto simp: write_fin_def fs_write_def Let_def k_def)
  next
    fix s' assume e: "?all ?st = Some (False, s')" and f: "write_run disk d sz offset ([] @ file_zones (disk d) ino) s'"
    then show ?thesis by (simp add: write_run_def fs_write_def Let_def k_def)
  qed
qed


section \<open>Reading back\<close>

lemma drop_blocks_of: "list_all (in_disk bs) zs \<Longrightarrow> drop (1024 * k) (blocks_of bs zs) = blocks_of bs (drop k zs)"
proof (induction zs arbitrary: k)
  case (Cons z zs)
  then show ?case by (cases k) (simp_all add: drop_append)
qed simp

lemma block_at_splice_other:
  assumes "z' \<noteq> z" "length xs \<le> 1024" "in_disk bs z" "in_disk bs z'"
  shows "block_at (splice (1024 * unat z) xs bs) z' = block_at bs z'"
proof -
  have "unat z' \<noteq> unat z" using assms(1) by (simp add: word_unat_eq_iff)
  then have "unat z' + 1 \<le> unat z \<or> unat z + 1 \<le> unat z'" by linarith
  then have "1024 * unat z' + 1024 \<le> 1024 * unat z \<or> 1024 * unat z + 1024 \<le> 1024 * unat z'" by linarith
  then show ?thesis
    using assms unfolding block_at_def in_disk_def by (intro nth_equalityI) (auto simp: nth_splice)
qed

lemma file_zones_splice:
  assumes "zones_ok bs ino" "i_zones ino ! 8 = 0" "i_zones ino ! 9 = 0" "z \<noteq> i_zones ino ! 7" "length xs \<le> 1024" "in_disk bs z"
  shows "file_zones (splice (1024 * unat z) xs bs) ino = file_zones bs ino" "zones_ok (splice (1024 * unat z) xs bs) ino"
proof -
  have "indirect_zones (splice (1024 * unat z) xs bs) ino = indirect_zones bs ino"
    using assms block_at_splice_other [of "i_zones ino ! 7" z xs bs]
    by (auto simp: indirect_zones_def zone_ptrs_def zones_ok_def pointer_zones_def)
  then show f: "file_zones (splice (1024 * unat z) xs bs) ino = file_zones bs ino"
    using assms(2,3) by (simp add: file_zones_def iindirect_zones_def iiindirect_zones_def)
  have "in_disk (splice (1024 * unat z) xs bs) = in_disk bs"
    using assms(5,6) by (simp add: in_disk_def fun_eq_iff)
  then show "zones_ok (splice (1024 * unat z) xs bs) ino"
    using assms(1-3) unfolding zones_ok_def f by (simp add: pointer_zones_def)
qed

section \<open>Properties\<close>

text \<open>
  \<^verbatim>\<open>MinixFileSystem::write\<close> of at most the rest of one block (file without doubly and triply indirect
  zones). If the file has a zone for the block of the offset, all of the data goes to the \<^emph>\<open>start\<close> of
  this zone, whatever the offset inside of the block is, no other block of the disk
  changes, and the inode keeps its size; if it has none, nothing is written, 0 is
  returned and the size in the inode becomes 0: a file never grows.
\<close>
lemma write_one_zone:
  assumes "device_ok E bdev disk" and "length (disk d) + 2048 < 2 ^ 32" and "zones_ok (disk d) ino"
    and "i_zones ino ! 8 = 0" and "i_zones ino ! 9 = 0"
    and "unat sz + unat (offset mod BLOCK_SIZE) \<le> 1024" and "unat sz \<le> length buf"
  shows "let zs = file_zones (disk d) ino; k = unat (offset div BLOCK_SIZE) in
    if k < length zs
    then \<exists>d'. fs_write E bdev ino buf sz offset d = Some (sz, ino, d')
      \<and> disk d' = splice (1024 * unat (zs ! k)) (take (memcpy_len (unat sz)) buf) (disk d)
      \<and> (\<forall>z. z \<noteq> zs ! k \<longrightarrow> in_disk (disk d) z \<longrightarrow> block_at (disk d') z = block_at (disk d) z)
    else fs_write E bdev ino buf sz offset d = Some (0, ino\<lparr>i_size := 0\<rparr>, d)"
proof -
  have ok: "write_ok E bdev disk d buf sz offset" using assms by (simp add: write_ok_def)
  have l: "length (take (memcpy_len (unat sz)) buf) \<le> 1024" using assms(6) memcpy_len_le [of "unat sz"] by simp
  have zin: "k < length (file_zones (disk d) ino) \<Longrightarrow> in_disk (disk d) (file_zones (disk d) ino ! k)" for k
    using assms(3) by (simp add: zones_ok_def list_all_length)
  show ?thesis
    using fs_write_zone [OF ok assms(3-5)] block_at_splice_other [OF _ l zin] unfolding Let_def by (auto split: if_splits)
qed

text \<open>
  The round trip for a block of a file. What \<^verbatim>\<open>write\<close> puts into a file at the start of one of its blocks (at most one
  block, a multiple of 8 bytes, within the size of the file, and the block is not the file's own
  pointer block) is what \<^verbatim>\<open>read\<close> at the same offset returns.
\<close>
lemma write_read_roundtrip:
  assumes "device_ok E bdev disk" and "length (disk d) + 2048 < 2 ^ 32" and "zones_ok (disk d) ino"
    and "i_zones ino ! 8 = 0" and "i_zones ino ! 9 = 0" and "offset = of_nat (1024 * k)" and "1024 * k < 2 ^ 32"
    and "k < length (file_zones (disk d) ino)" and "file_zones (disk d) ino ! k \<noteq> i_zones ino ! 7"
    and "unat sz \<le> 1024" and "8 dvd unat sz" and "sz \<le> i_size ino" and "unat sz \<le> length buf" and "unat sz \<le> length out"
  shows "\<exists>d'. fs_write E bdev ino buf sz offset d = Some (sz, ino, d')
    \<and> fs_read E bdev ino out sz offset d' = Some (sz, splice 0 (take (unat sz) buf) out)"
proof -
  have o: "unat offset = 1024 * k" unfolding assms(6) using assms(7) by (intro unat_of_nat_small) simp
  have om: "unat (offset mod BLOCK_SIZE) = 0" "unat (offset div BLOCK_SIZE) = k" using o by (simp_all add: unat_mod unat_div)
  let ?z = "file_zones (disk d) ino ! k"
  have len: "memcpy_len (unat sz) = unat sz" using assms(11) by (simp add: memcpy_len_whole)
  have ok: "write_ok E bdev disk d buf sz offset" using assms om by (simp add: write_ok_def)
  obtain d' where w: "fs_write E bdev ino buf sz offset d = Some (sz, ino, d')" and d': "disk d' = splice (1024 * unat ?z) (take (unat sz) buf) (disk d)"
    using fs_write_zone [OF ok assms(3-5)] om(2) assms(8) len by auto
  have zin: "in_disk (disk d) ?z" using assms(3,8) by (simp add: zones_ok_def list_all_length)
  have lt: "length (take (unat sz) buf) \<le> 1024" using assms(10) by simp
  have fz: "file_zones (disk d') ino = file_zones (disk d) ino" and zok: "zones_ok (disk d') ino"
    using file_zones_splice [OF assms(3-5,9) lt zin] d' by simp_all
  have ld: "length (disk d') = length (disk d)" using d' zin assms(10,13) by (simp add: in_disk_def)
  have n: "sz = min sz (i_size ino)" using assms(12) by (simp add: min_def)
  have o8: "8 dvd unat offset" using o by simp
  have "drop (unat offset) (file_bytes (disk d') ino) = block_at (disk d') ?z @ blocks_of (disk d') (drop (Suc k) (file_zones (disk d) ino))"
    using drop_blocks_of [of "disk d'" "file_zones (disk d) ino" k] zok assms(8)
    by (simp add: file_bytes_def fz o zones_ok_def flip: Cons_nth_drop_Suc)
  moreover have "take (unat sz) (block_at (disk d') ?z) = take (unat sz) buf"
  proof -
    have "length (take (unat sz) buf) = unat sz" using assms(13) by simp
    then show ?thesis
      using take_drop_splice [of "1024 * unat ?z" "take (unat sz) buf" "disk d"] d' zin assms(10)
      by (simp add: block_at_def in_disk_def min_def)
  qed
  moreover have "length (block_at (disk d') ?z) = 1024" using zin ld by (simp add: in_disk_def block_at_def)
  ultimately have out: "take (unat sz) (drop (unat offset) (file_bytes (disk d') ino)) = take (unat sz) buf" using assms(10) by simp
  have "fs_read E bdev ino out sz offset d' = Some (sz, splice 0 (take (unat sz) buf) out)"
    using fs_read_bytes [OF assms(1) _ zok n assms(11) o8 assms(14)] assms(2,13) ld out by simp
  with w show ?thesis by blast
qed

text \<open>
  \<^verbatim>\<open>read\<close> loses the end of a file. For a file of one block and \<open>n\<close> bytes, 8 or more and not a multiple of
  8, it reports \<open>n\<close> bytes but stores only the first \<open>8 * (n div 8)\<close> of them: \<^verbatim>\<open>memcpy\<close> does not copy the
  remainder, and the buffer keeps its old bytes there.
\<close>
lemma read_drops_tail:
  assumes "device_ok E bdev disk" and "length (disk d) + 2048 < 2 ^ 32"
    and "i_zones ino = z # replicate 9 0" and "z \<noteq> 0" and "in_disk (disk d) z"
    and "unat (i_size ino) = n" and "8 \<le> n" and "n < 1024" and "length buffer = n"
  shows "fs_read E bdev ino buffer (i_size ino) 0 d
    = Some (i_size ino, take (8 * (n div 8)) (file_bytes (disk d) ino) @ drop (8 * (n div 8)) buffer)"
proof -
  have dz: "direct_zones ino = [z]" using assms(3,4) by (simp add: direct_zones_def upt_rec)
  have fb: "file_bytes (disk d) ino = block_at (disk d) z"
    using assms(3) dz by (simp add: file_bytes_def file_zones_def indirect_zones_def iindirect_zones_def iiindirect_zones_def)
  let ?m = "8 * (n div 8)" and ?b = "block_at (disk d) z" and ?n = "i_size ino"
  have m: "memcpy_len n = ?m" "?m \<le> n" using assms(7) by (simp_all add: memcpy_len_def)
  have lb: "length ?b = 1024" using assms(5) by simp
  have rb: "syc_read E bdev (Buffer_new E 1024) BLOCK_SIZE (z * BLOCK_SIZE) d = Some (0, ?b)"
    by (rule read_block [OF assms(1,2,5)]) (simp add: length_Buffer_new)
  have zo: "umul z BLOCK_SIZE = Some (z * BLOCK_SIZE)" using zone_product [OF assms(5)] assms(2) by simp
  have room: "usub BLOCK_SIZE 0 = Some BLOCK_SIZE" "?n < BLOCK_SIZE"
    using assms(6,8) by (simp_all add: usub_def word_less_nat_alt)
  have cpy: "buf_memcpy n buffer 0 ?b 0 = Some (take ?m ?b @ drop ?m buffer)"
    using m assms(8,9) lb by (simp add: buf_memcpy_def splice_def)
  have arith: "uadd 0 ?n = Some ?n" "usub ?n ?n = Some 0" using unat_lt_2p32 [of ?n] by (simp_all add: uadd_def usub_def)
  have step: "read_zone E bdev d 0 z \<lparr>r_seen = 0, r_off = 0, r_left = ?n, r_read = 0, r_dst = buffer,
      r_block = Buffer_new E 1024, r_ind = i, r_iind = j, r_iiind = l\<rparr>
    = Some (True, \<lparr>r_seen = 0, r_off = 0, r_left = 0, r_read = ?n, r_dst = take ?m ?b @ drop ?m buffer,
      r_block = ?b, r_ind = i, r_iind = j, r_iiind = l\<rparr>)" for i j l
    by (simp add: read_zone_def or_return_def Let_def rb zo room cpy arith assms(6))
  have "[0..<7] = 0 # [1..<7 :: nat]" by (simp add: upt_rec)
  then show ?thesis
    unfolding fs_read_def fb read_direct_def or_return_def using step assms(3,4) by (simp add: Let_def or_return_def)
qed

end
