(* ===== verification/Fs_Cache.thy ===== *)
theory Fs_Cache
  imports Fs_Walk
begin

text \<open>
  Inodes by number, the inode cache, and the allocation of inodes: where \<^verbatim>\<open>get_inode\<close> finds an inode, which
  inodes \<^verbatim>\<open>cache_at\<close> collects, which number \<^verbatim>\<open>find_free_inode\<close> returns, and what these mean for \<^verbatim>\<open>create\<close>.
\<close>

section \<open>Inodes by number\<close>

definition disk_super :: "u8 list \<Rightarrow> SuperBlock" where
  "disk_super bs = superblock_of (take 512 (drop 1024 bs))"

text \<open>Number of the byte at which the inode table starts: after the boot block, the super block and the bitmaps.\<close>

definition inode_table :: "u8 list \<Rightarrow> nat" where
  "inode_table bs = 1024 * (2 + unat (sb_imap_blocks (disk_super bs)) + unat (sb_zmap_blocks (disk_super bs)))"

definition disk_inode :: "u8 list \<Rightarrow> u32 \<Rightarrow> Inode" where
  "disk_inode bs n = inode_of (take 64 (drop (inode_table bs + 64 * (unat n - 1)) bs))"

text \<open>The block of the inode is on the disk.\<close>

definition inode_on_disk :: "u8 list \<Rightarrow> u32 \<Rightarrow> bool" where
  "inode_on_disk bs n \<longleftrightarrow> inode_table bs + 1024 * ((unat n - 1) div 16) + 1024 \<le> length bs"

lemma field_append1: "off + n \<le> length xs \<Longrightarrow> field (xs @ ys) off n = field xs off n"
  by (simp add: field_def)

lemma superblock_append: "32 \<le> length xs \<Longrightarrow> superblock_of (xs @ ys) = superblock_of xs"
  by (simp add: superblock_of_def field_append1)

lemma inode_sizes: "(ucast BLOCK_SIZE :: usize) = 1024" "(ucast BLOCK_SIZE div of_nat INODE_SIZE :: usize) = 16"
  by (simp_all add: BLOCK_SIZE_def INODE_SIZE_def)

lemma unat_ucast_widen: "unat (ucast (x :: u32) :: usize) = unat x" "unat (ucast (y :: u16) :: usize) = unat y"
proof -
  have "unat x < 2 ^ 64" "unat y < 2 ^ 64"
    using unat_lt_2p32 [of x] unsigned_less [of y, where 'a = nat] by simp_all
  then show "unat (ucast (x :: u32) :: usize) = unat x" "unat (ucast (y :: u16) :: usize) = unat y"
    by (simp_all add: unsigned_ucast_eq take_bit_nat_eq_self)
qed

lemma get_inode_offset_parts:
  fixes im zm :: u16 and num :: u32
  assumes "2 + unat im + unat zm < 2 ^ 16" and "0 < unat num"
  shows "\<exists>maps1 maps base idx rel off. uadd 2 im = Some maps1 \<and> uadd maps1 zm = Some maps
    \<and> umul (ucast maps :: usize) 1024 = Some base \<and> usub (ucast num :: usize) 1 = Some idx
    \<and> umul (idx div 16) 1024 = Some rel \<and> uadd base rel = Some off
    \<and> unat off = 1024 * (2 + unat im + unat zm) + 1024 * ((unat num - 1) div 16) \<and> unat (idx mod 16) = (unat num - 1) mod 16"
proof -
  have m1: "uadd 2 im = Some (2 + im)" "unat (2 + im) = 2 + unat im"
    using assms(1) unat_add_no_wrap [of 2 im] by (simp_all add: uadd_def)
  have m2: "uadd (2 + im) zm = Some (2 + im + zm)" "unat (2 + im + zm) = 2 + unat im + unat zm"
    using assms(1) m1(2) unat_add_no_wrap [of "2 + im" zm] by (simp_all add: uadd_def)
  let ?maps = "ucast (2 + im + zm) :: usize" and ?idx = "(ucast num :: usize) - 1"
  have um: "unat ?maps = 2 + unat im + unat zm" using m2(2) by (simp only: unat_ucast_widen)
  have un: "unat (ucast num :: usize) = unat num" by (simp only: unat_ucast_widen)
  have i: "usub (ucast num :: usize) 1 = Some ?idx" "unat ?idx = unat num - 1"
    using assms(2) un unat_sub [of 1 "ucast num :: usize"] by (simp_all add: usub_def word_le_nat_alt)
  have b: "umul ?maps 1024 = Some (?maps * 1024)" "unat (?maps * 1024) = 1024 * (2 + unat im + unat zm)"
    using um assms(1) unat_mult_no_wrap [of ?maps 1024] by (simp_all add: umul_def)
  have q: "unat (?idx div 16) = (unat num - 1) div 16" using i(2) by (simp add: unat_div)
  have small: "(unat num - 1) div 16 \<le> 2 ^ 32" using unat_lt_2p32 [of num] by (intro order_trans [OF div_le_dividend]) simp
  have r: "umul (?idx div 16) 1024 = Some (?idx div 16 * 1024)" "unat (?idx div 16 * 1024) = 1024 * ((unat num - 1) div 16)"
    using q small unat_mult_no_wrap [of "?idx div 16" 1024] by (simp_all add: umul_def)
  have "unat (?maps * 1024) + unat (?idx div 16 * 1024) < 2 ^ 64" using b(2) r(2) small assms(1) by simp
  then have o: "uadd (?maps * 1024) (?idx div 16 * 1024) = Some (?maps * 1024 + ?idx div 16 * 1024)"
      "unat (?maps * 1024 + ?idx div 16 * 1024) = 1024 * (2 + unat im + unat zm) + 1024 * ((unat num - 1) div 16)"
    using unat_add_no_wrap [of "?maps * 1024" "?idx div 16 * 1024"] b(2) r(2) by (simp_all add: uadd_def)
  show ?thesis
    using m1(1) m2(1) b(1) i r(1) o by (intro exI [of _ "2 + im"] exI [of _ "2 + im + zm"] exI) (auto simp: unat_mod)
qed

lemma get_inode_disk:
  assumes ok: "device_ok E bdev disk" "length (disk d) + 2048 < 2 ^ 32" and m: "sb_magic (disk_super (disk d)) = MAGIC"
    and maps: "2 + unat (sb_imap_blocks (disk_super (disk d))) + unat (sb_zmap_blocks (disk_super (disk d))) < 2 ^ 16"
    and n: "0 < unat num" "inode_on_disk (disk d) num"
  shows "get_inode E bdev num d = Some (Some (disk_inode (disk d) num))"
proof -
  let ?b = "Buffer_new E 1024" and ?s = "take 512 (drop 1024 (disk d))"
  have lb: "length ?b = 1024" by (simp add: length_Buffer_new)
  have tab: "inode_table (disk d) \<ge> 2048" by (simp add: inode_table_def)
  have len: "1536 \<le> length (disk d)" using n(2) tab by (simp add: inode_on_disk_def)
  have ls: "length ?s = 512" using len by simp
  have r1: "syc_read E bdev ?b 512 1024 d = Some (0, ?s @ drop 512 ?b)"
    using syc_read_bytes [OF ok(1), of 1024 512 d ?b] len ok(2) lb ls by (simp add: splice_def)
  have sb: "superblock_of (?s @ drop 512 ?b) = disk_super (disk d)"
    using len by (simp add: superblock_append disk_super_def)
  define t where "t = ?s @ drop 512 ?b"
  have lt: "length t = 1024" using len lb by (simp add: t_def)
  let ?im = "sb_imap_blocks (disk_super (disk d))" and ?zm = "sb_zmap_blocks (disk_super (disk d))"
  obtain maps1 maps base idx rel off where p: "uadd 2 ?im = Some maps1" "uadd maps1 ?zm = Some maps"
      "umul (ucast maps :: usize) 1024 = Some base" "usub (ucast num :: usize) 1 = Some idx"
      "umul (idx div 16) 1024 = Some rel" "uadd base rel = Some off"
    and off: "unat off = 1024 * (2 + unat ?im + unat ?zm) + 1024 * ((unat num - 1) div 16)" and idx: "unat (idx mod 16) = (unat num - 1) mod 16"
    using get_inode_offset_parts [OF maps n(1)] by blast
  have off_lt: "unat off + 1024 \<le> length (disk d)" using n(2) off by (simp add: inode_on_disk_def inode_table_def)
  have uo: "unat (ucast off :: u32) = unat off"
    using off_lt ok(2) by (simp add: unsigned_ucast_eq take_bit_nat_eq_self)
  have "syc_read E bdev t 1024 (ucast off) d = Some (0, splice 0 (take (unat (1024 :: u32)) (drop (unat (ucast off :: u32)) (disk d))) t)"
    by (rule syc_read_bytes [OF ok(1)]) (use uo off_lt ok(2) lt in simp_all)
  then have r2: "syc_read E bdev t 1024 (ucast off) d = Some (0, take 1024 (drop (unat off) (disk d)))"
  proof -
    have "length (take 1024 (drop (unat off) (disk d))) = 1024" using off_lt by simp
    then show ?thesis using \<open>syc_read E bdev t 1024 (ucast off) d = _\<close> uo lt by (simp add: splice_def)
  qed
  have pos: "unat off + 64 * ((unat num - 1) mod 16) = inode_table (disk d) + 64 * (unat num - 1)"
  proof -
    have "1024 * (m div 16) + 64 * (m mod 16) = 64 * m" for m :: nat using div_mult_mod_eq [of m 16] by linarith
    then show ?thesis using off by (simp add: inode_table_def)
  qed
  have "(unat num - 1) mod 16 < 16" by simp
  then have "64 + 64 * ((unat num - 1) mod 16) \<le> 1024" by linarith
  then have "take 64 (drop (64 * ((unat num - 1) mod 16)) (take 1024 (drop (unat off) (disk d)))) = take 64 (drop (inode_table (disk d) + 64 * (unat num - 1)) (disk d))"
    using pos by (simp add: drop_take min_def add.commute)
  then show ?thesis
    using r1 sb m p r2 idx unfolding get_inode_def inode_sizes t_def by (simp add: disk_inode_def INODE_SIZE_def)
qed


section \<open>The inode cache\<close>

text \<open>The cache holds files only.\<close>

definition files_only :: "inode_cache \<Rightarrow> bool" where
  "files_only btm \<longleftrightarrow> (\<forall>p i. btm p = Some i \<longrightarrow> i_mode i AND S_IFDIR = 0)"

lemma for_each_mono:
  assumes "for_each f xs s = Some s'" "\<And>x s s'. x \<in> set xs \<Longrightarrow> f x s = Some s' \<Longrightarrow> g x s = Some s'"
  shows "for_each g xs s = Some s'"
  using assms by (induction xs arbitrary: s) (auto split: Option.bind_splits)

lemma files_only_insert: "files_only btm \<Longrightarrow> i_mode i AND S_IFDIR = 0 \<Longrightarrow> files_only (btm(p \<mapsto> i))"
  by (auto simp: files_only_def)

text \<open>One directory entry, with the recursive call as a parameter.\<close>

definition cache_entry :: "(inode_cache \<Rightarrow> rust_string \<Rightarrow> u32 \<Rightarrow> inode_cache option) \<Rightarrow> 'd env \<Rightarrow> rust_string \<Rightarrow> u32 \<Rightarrow> usize \<Rightarrow> 'd \<Rightarrow> u8 list \<Rightarrow> nat \<Rightarrow> inode_cache \<Rightarrow> inode_cache option" where
  "cache_entry rec E cwd inode_num bdev d buf i btm = do {
     e \<leftarrow> dirent_at buf i;
     if d_inode e = 0 then Some btm
     else do {
       d_ino \<leftarrow> get_inode E bdev (d_inode e) d;
       d_ino \<leftarrow> d_ino;
       let new_cwd = child_path cwd inode_num e;
       if i_mode d_ino AND S_IFDIR \<noteq> 0 then rec btm new_cwd (d_inode e)
       else Some (btm(new_cwd \<mapsto> d_ino))
     }
   }"

lemma cache_at_Suc:
  "cache_at (Suc depth) E btm cwd inode_num bdev d = do {
     ino \<leftarrow> get_inode E bdev inode_num d;
     ino \<leftarrow> ino;
     buf \<leftarrow> dir_buffer E ino;
     (sz, buf) \<leftarrow> fs_read E bdev ino buf BLOCK_SIZE 0 d;
     for_each (cache_entry (\<lambda>btm p n. cache_at depth E btm p n bdev d) E cwd inode_num bdev d buf) [2..<unat sz div DIRENT_SIZE] btm
   }"
  by (simp add: cache_entry_def [abs_def] Let_def)

declare cache_at.simps(2) [simp del]

lemma cache_entry_cases:
  assumes "cache_entry rec E cwd inode_num bdev d buf i btm = Some btm'"
  shows "btm' = btm \<or> (\<exists>p n. rec btm p n = Some btm') \<or> (\<exists>p ino. btm' = btm(p \<mapsto> ino) \<and> i_mode ino AND S_IFDIR = 0)"
  using assms by (auto simp: cache_entry_def Let_def split: Option.bind_splits if_splits)

lemma cache_entry_mono:
  assumes "cache_entry rec E cwd inode_num bdev d buf i btm = Some btm'" "\<And>b p n b'. rec b p n = Some b' \<Longrightarrow> rec' b p n = Some b'"
  shows "cache_entry rec' E cwd inode_num bdev d buf i btm = Some btm'"
  using assms by (auto simp: cache_entry_def Let_def split: Option.bind_splits if_splits)

lemma cache_at_files_only:
  assumes "cache_at depth E btm cwd inode_num bdev d = Some btm'" "files_only btm"
  shows "files_only btm'"
  using assms
proof (induction depth arbitrary: btm cwd inode_num btm')
  case (Suc depth)
  obtain buf k where loop: "for_each (cache_entry (\<lambda>btm p n. cache_at depth E btm p n bdev d) E cwd inode_num bdev d buf) [2..<k] btm = Some btm'"
    using Suc.prems(1) unfolding cache_at_Suc by (auto split: Option.bind_splits)
  show ?case
  proof (rule for_each_keeps [where P = files_only, OF loop Suc.prems(2)])
    fix i b b' assume b: "files_only b" and e: "cache_entry (\<lambda>btm p n. cache_at depth E btm p n bdev d) E cwd inode_num bdev d buf i b = Some b'"
    show "files_only b'" using cache_entry_cases [OF e] Suc.IH b files_only_insert by blast
  qed
qed simp

text \<open>The bound on the depth of the recursion does not influence the result.\<close>

lemma cache_at_deeper:
  assumes "cache_at depth E btm cwd inode_num bdev d = Some btm'" "depth \<le> depth'"
  shows "cache_at depth' E btm cwd inode_num bdev d = Some btm'"
  using assms
proof (induction depth arbitrary: btm cwd inode_num btm' depth')
  case (Suc depth)
  obtain k where k: "depth' = Suc k" "depth \<le> k" using Suc.prems(2) by (cases depth') auto
  have rec: "cache_at depth E b p n bdev d = Some b' \<Longrightarrow> cache_at k E b p n bdev d = Some b'" for b p n b'
    using Suc.IH k(2) by blast
  note entry = cache_entry_mono [where rec = "\<lambda>b p n. cache_at depth E b p n bdev d" and rec' = "\<lambda>b p n. cache_at k E b p n bdev d", OF _ rec]
  obtain ino buf sz buf' where g: "get_inode E bdev inode_num d = Some (Some ino)" "dir_buffer E ino = Some buf"
      "fs_read E bdev ino buf BLOCK_SIZE 0 d = Some (sz, buf')"
    and loop: "for_each (cache_entry (\<lambda>b p n. cache_at depth E b p n bdev d) E cwd inode_num bdev d buf') [2..<unat sz div DIRENT_SIZE] btm = Some btm'"
    using Suc.prems(1) unfolding cache_at_Suc by (auto split: Option.bind_splits)
  have "for_each (cache_entry (\<lambda>b p n. cache_at k E b p n bdev d) E cwd inode_num bdev d buf') [2..<unat sz div DIRENT_SIZE] btm = Some btm'"
    by (rule for_each_mono [OF loop]) (rule entry)
  then show ?case unfolding k(1) cache_at_Suc by (simp add: g)
qed simp


text \<open>
  Directories without a cycle: every directory of the set \<open>S\<close> can be read, and the directories among its
  entries are in \<open>S\<close> and have a smaller rank.
\<close>

definition dir_ranked :: "'d env \<Rightarrow> usize \<Rightarrow> 'd \<Rightarrow> u32 set \<Rightarrow> (u32 \<Rightarrow> nat) \<Rightarrow> bool" where
  "dir_ranked E bdev d S rank \<longleftrightarrow>
     (\<forall>n \<in> S. \<exists>ino buf sz buf'. get_inode E bdev n d = Some (Some ino) \<and> dir_buffer E ino = Some buf
        \<and> fs_read E bdev ino buf BLOCK_SIZE 0 d = Some (sz, buf')
        \<and> (\<forall>i \<in> {2..<unat sz div DIRENT_SIZE}. \<exists>e. dirent_at buf' i = Some e \<and> (d_inode e \<noteq> 0 \<longrightarrow>
             (\<exists>di. get_inode E bdev (d_inode e) d = Some (Some di)
                \<and> (i_mode di AND S_IFDIR \<noteq> 0 \<longrightarrow> d_inode e \<in> S \<and> rank (d_inode e) < rank n)))))"

lemma for_each_total: "(\<And>x s. x \<in> set xs \<Longrightarrow> \<exists>s'. f x s = Some s') \<Longrightarrow> \<exists>s'. for_each f xs s = Some s'"
proof (induction xs arbitrary: s)
  case (Cons x xs)
  obtain s1 where "f x s = Some s1" using Cons.prems by fastforce
  then show ?case using Cons.IH [of s1] Cons.prems by simp
qed simp

lemma cache_at_returns:
  assumes "dir_ranked E bdev d S rank" "n \<in> S" "rank n < depth"
  shows "\<exists>btm'. cache_at depth E btm cwd n bdev d = Some btm'"
  using assms(2,3)
proof (induction depth arbitrary: btm cwd n)
  case (Suc depth)
  obtain ino buf sz buf' where g: "get_inode E bdev n d = Some (Some ino)" "dir_buffer E ino = Some buf"
      "fs_read E bdev ino buf BLOCK_SIZE 0 d = Some (sz, buf')"
    and e: "\<forall>i \<in> {2..<unat sz div DIRENT_SIZE}. \<exists>e. dirent_at buf' i = Some e \<and> (d_inode e \<noteq> 0 \<longrightarrow>
      (\<exists>di. get_inode E bdev (d_inode e) d = Some (Some di) \<and> (i_mode di AND S_IFDIR \<noteq> 0 \<longrightarrow> d_inode e \<in> S \<and> rank (d_inode e) < rank n)))"
    using assms(1) Suc.prems(1) unfolding dir_ranked_def by blast
  have "\<exists>b'. cache_entry (\<lambda>b p n. cache_at depth E b p n bdev d) E cwd n bdev d buf' i b = Some b'"
    if it: "i \<in> set [2..<unat sz div DIRENT_SIZE]" for i b
  proof -
    obtain de where de: "dirent_at buf' i = Some de" and en: "d_inode de \<noteq> 0 \<longrightarrow>
      (\<exists>di. get_inode E bdev (d_inode de) d = Some (Some di) \<and> (i_mode di AND S_IFDIR \<noteq> 0 \<longrightarrow> d_inode de \<in> S \<and> rank (d_inode de) < rank n))"
      using bspec [OF e, of i] it by auto
    show ?thesis
    proof (cases "d_inode de = 0")
      case True
      then show ?thesis by (simp add: cache_entry_def de)
    next
      case False
      then obtain di where di: "get_inode E bdev (d_inode de) d = Some (Some di)"
        and r: "i_mode di AND S_IFDIR \<noteq> 0 \<longrightarrow> d_inode de \<in> S \<and> rank (d_inode de) < rank n" using en by blast
      have "\<exists>b'. cache_at depth E b p (d_inode de) bdev d = Some b'" if "i_mode di AND S_IFDIR \<noteq> 0" for p
        using Suc.IH [of "d_inode de"] r that Suc.prems(2) by simp
      then show ?thesis using False by (simp add: cache_entry_def de di Let_def)
    qed
  qed
  then have "\<exists>b'. for_each (cache_entry (\<lambda>b p n. cache_at depth E b p n bdev d) E cwd n bdev d buf') [2..<unat sz div DIRENT_SIZE] btm = Some b'"
    by (rule for_each_total)
  then show ?case unfolding cache_at_Suc by (simp add: g)
qed simp

section \<open>Creating a file\<close>

lemma refresh_eq: "refresh depth E bdev s = Some s' \<Longrightarrow>
  \<exists>btm i. cache_at depth E Map.empty [47] 1 bdev (dev s) = Some btm \<and> cache_slot bdev s = Some i
    \<and> s' = s\<lparr>MFS_INODE_CACHE := (MFS_INODE_CACHE s)[i := Some btm]\<rparr>"
  by (auto simp: refresh_def split: Option.bind_splits)

lemma cache_slot_index: "cache_slot bdev s = Some i \<Longrightarrow> i < length (MFS_INODE_CACHE s) \<and> i = unat (bdev - 1)"
  by (auto simp: cache_slot_def usub_def assert_that_def split: Option.bind_splits if_splits)

lemma cache_slot_same_length:
  "length (MFS_INODE_CACHE s') = length (MFS_INODE_CACHE s) \<Longrightarrow> cache_slot bdev s' = cache_slot bdev s"
  by (simp add: cache_slot_def)

lemma create_new_file_miss:
  "btm cwd = None \<Longrightarrow> create_new_file E btm cwd filename bdev d = Some (btm', d') \<Longrightarrow> btm' = btm \<and> d' = d"
  by (auto simp: create_new_file_def split: Option.bind_splits)

section \<open>Searching the inode map\<close>

lemma free_bit_full [simp]: "free_bit 255 = None"
  by (simp add: free_bit_def upt_rec)

lemma scan_imap_first:
  assumes "\<forall>j < i. buf ! j = 255" and "free_bit (buf ! i) = Some b" and "i < n"
  shows "scan_imap buf [0..<n] = Some (ucast (of_nat i * ucast BLOCK_SIZE + of_nat b :: usize))"
proof -
  have "scan_imap buf [k..<n] = Some (ucast (of_nat i * ucast BLOCK_SIZE + of_nat b :: usize))" if "k \<le> i" for k
    using that
  proof (induction "i - k" arbitrary: k)
    case 0
    then show ?case using assms by (simp add: upt_conv_Cons)
  next
    case (Suc m)
    then have "k < i" by simp
    then show ?case using Suc.hyps(1) [of "Suc k"] Suc.hyps(2) assms by (simp add: upt_conv_Cons)
  qed
  then show ?thesis by simp
qed


lemma find_free_inode_eq:
  assumes ok: "device_ok E bdev disk" "length (disk d) + 2048 < 2 ^ 32" and len: "3072 \<le> length (disk d)"
    and im: "0 < unat (sb_imap_blocks (disk_super (disk d)))"
    and full: "\<forall>j < i. disk d ! (2048 + j) = 255" and fr: "free_bit (disk d ! (2048 + i)) = Some b" and i: "i < 1024"
  shows "find_free_inode E bdev d = Some (Some (of_nat (1024 * i + b)))"
proof -
  let ?b = "Buffer_new E 1024"
  have lb: "length ?b = 1024" by (simp add: length_Buffer_new)
  define sb where "sb = take 1024 (drop 1024 (disk d))"
  define mp where "mp = take 1024 (drop 2048 (disk d))"
  have l: "length sb = 1024" "length mp = 1024" using len by (simp_all add: sb_def mp_def)
  have r1: "syc_read E bdev ?b 1024 1024 d = Some (0, sb)"
    using syc_read_bytes [OF ok(1), of 1024 1024 d ?b] len ok(2) lb l by (simp add: splice_def sb_def [symmetric])
  have r2: "syc_read E bdev sb 1024 2048 d = Some (0, mp)"
    using syc_read_bytes [OF ok(1), of 2048 1024 d sb] len ok(2) l by (simp add: splice_def mp_def [symmetric])
  have "take 512 sb = take 512 (drop 1024 (disk d))" by (simp add: sb_def)
  then have "sb = take 512 (drop 1024 (disk d)) @ drop 512 sb" by (metis append_take_drop_id)
  then have "superblock_of sb = disk_super (disk d)"
    using superblock_append [of "take 512 (drop 1024 (disk d))" "drop 512 sb"] len by (simp add: disk_super_def)
  then have blocks: "[0..<unat (sb_imap_blocks (superblock_of sb))] = 0 # [1..<unat (sb_imap_blocks (superblock_of sb))]"
    using im by (simp add: upt_conv_Cons)
  have "scan_imap mp [0..<1024] = Some (ucast (of_nat i * ucast BLOCK_SIZE + of_nat b :: usize))"
    using full fr i len by (intro scan_imap_first) (simp_all add: mp_def)
  moreover have "(ucast (of_nat i * ucast BLOCK_SIZE + of_nat b :: usize) :: u32) = of_nat (1024 * i + b)"
  proof -
    have e: "of_nat i * ucast BLOCK_SIZE + of_nat b = (of_nat (1024 * i + b) :: usize)" by (simp add: inode_sizes mult.commute)
    have "b < 8" using fr by (auto simp: free_bit_def find_Some_iff)
    then have "unat (of_nat (1024 * i + b) :: usize) = 1024 * i + b" using i by (intro unat_of_nat_small) simp
    then have "ucast (of_nat (1024 * i + b) :: usize) = (of_nat (1024 * i + b) :: u32)" by (metis of_nat_unat)
    then show ?thesis unfolding e .
  qed
  moreover have "syc_read E bdev sb BLOCK_SIZE (ucast ((2 + of_nat 0) * ucast BLOCK_SIZE :: usize)) d = Some (0, mp)"
    using r2 by (simp add: BLOCK_SIZE_def)
  ultimately show ?thesis
    unfolding find_free_inode_def using r1 blocks by (simp add: Let_def)
qed

section \<open>A small file system\<close>

text \<open>
  Six blocks: boot block, super block, one block of each bitmap, the inode table with the root
  directory as inode 1, and the root directory, which holds the two standard entries only. The first byte of
  the inode map is full, and in the second one the lowest bit is taken.
\<close>

definition root_inode :: Inode where
  "root_inode = \<lparr>i_mode = 0x41ed, i_nlinks = 2, i_uid = 0, i_gid = 0, i_size = 128, i_atime = 0, i_mtime = 0, i_ctime = 0,
     i_zones = [5, 0, 0, 0, 0, 0, 0, 0, 0, 0]\<rparr>"

definition mini_super :: "u8 list" where
  "mini_super = to_le 4 (64 :: u32) @ [0, 0] @ to_le 2 (1 :: u16) @ to_le 2 (1 :: u16) @ replicate 14 0 @ to_le 2 MAGIC @ replicate 998 0"

text \<open>A disk with the given inode table and directory block.\<close>

definition mini_image :: "u8 list \<Rightarrow> u8 list \<Rightarrow> u8 list" where
  "mini_image tab dir = replicate 1024 0 @ mini_super @ ([255, 1] @ replicate 1022 0) @ replicate 1024 0 @ tab @ dir"

definition mini_disk :: "u8 list" where
  "mini_disk = mini_image (inode_bytes root_inode @ replicate 960 0)
     ((to_le 4 (1 :: u32) @ [46] @ replicate 59 0) @ (to_le 4 (1 :: u32) @ [46, 46] @ replicate 58 0) @ replicate 896 0)"

lemma mini_super_length [simp]: "length mini_super = 1024"
  by (simp add: mini_super_def)

lemma mini_image_facts:
  "length (mini_image tab dir) = 4096 + length tab + length dir" "sb_magic (disk_super (mini_image tab dir)) = MAGIC"
  "sb_imap_blocks (disk_super (mini_image tab dir)) = 1" "sb_zmap_blocks (disk_super (mini_image tab dir)) = 1"
  "inode_table (mini_image tab dir) = 4096" "drop 4096 (mini_image tab dir) = tab @ dir"
proof -
  show "length (mini_image tab dir) = 4096 + length tab + length dir" "drop 4096 (mini_image tab dir) = tab @ dir" by (simp_all add: mini_image_def)
  have "take 512 (drop 1024 (mini_image tab dir)) = take 512 mini_super" by (simp add: mini_image_def)
  then have d: "disk_super (mini_image tab dir) = superblock_of mini_super"
    using superblock_append [of "take 512 mini_super" "drop 512 mini_super"] by (simp add: disk_super_def)
  show "sb_magic (disk_super (mini_image tab dir)) = MAGIC" and s: "sb_imap_blocks (disk_super (mini_image tab dir)) = 1" "sb_zmap_blocks (disk_super (mini_image tab dir)) = 1"
    unfolding d superblock_of_def mini_super_def by (simp_all add: field_def)
  show "inode_table (mini_image tab dir) = 4096" by (simp add: inode_table_def s)
qed

lemma mini_lengths [simp]: "length mini_disk = 6144" "length (inode_bytes root_inode) = 64"
proof -
  show r: "length (inode_bytes root_inode) = 64"
    using length_inode_bytes [of root_inode] by (simp add: root_inode_def INODE_SIZE_def)
  then show "length mini_disk = 6144" by (simp add: mini_disk_def mini_image_facts)
qed

lemma mini_disk_super: "sb_magic (disk_super mini_disk) = MAGIC" "sb_imap_blocks (disk_super mini_disk) = 1"
  "sb_zmap_blocks (disk_super mini_disk) = 1" and mini_table: "inode_table mini_disk = 4096"
  by (simp_all add: mini_disk_def mini_image_facts)

lemma mini_root: "disk_inode mini_disk 1 = root_inode"
proof -
  have "disk_inode mini_disk 1 = inode_of (inode_bytes root_inode)" unfolding disk_inode_def mini_table by (simp add: mini_disk_def mini_image_facts)
  then show ?thesis using inode_of_bytes [of root_inode "[]"] by (simp add: root_inode_def)
qed

lemma mini_get_inode: "get_inode ram_env bdev 1 mini_disk = Some (Some root_inode)"
  using get_inode_disk [OF ram_device_ok, of mini_disk 1 bdev] mini_disk_super mini_root
  by (simp add: inode_on_disk_def mini_table)

lemma mini_read_root:
  "\<exists>buf. dir_buffer ram_env root_inode = Some (replicate 128 0)
     \<and> fs_read ram_env bdev root_inode (replicate 128 0) BLOCK_SIZE 0 mini_disk = Some (128, buf)"
proof -
  have fz: "file_zones mini_disk root_inode = [5]"
    by (simp add: file_zones_def direct_zones_def indirect_zones_def iindirect_zones_def iiindirect_zones_def root_inode_def upt_rec)
  then have "length (file_bytes mini_disk root_inode) = 1024" by (simp add: file_bytes_def in_disk_def)
  moreover have "zones_ok mini_disk root_inode" unfolding zones_ok_def fz by (simp add: pointer_zones_def root_inode_def in_disk_def)
  moreover have "dir_buffer ram_env root_inode = Some (replicate 128 0)"
    by (simp add: dir_buffer_def root_inode_def uadd_def usub_def BLOCK_SIZE_def Buffer_new_def ram_env_def map_replicate_const)
  moreover have "(128 :: u32) = min BLOCK_SIZE (i_size root_inode)" by (simp add: root_inode_def BLOCK_SIZE_def min_def)
  ultimately show ?thesis
    using fs_read_bytes [OF ram_device_ok, of mini_disk root_inode 128 BLOCK_SIZE 0 "replicate 128 0" bdev] by simp
qed

lemma mini_cache: "cache_at (Suc k) ram_env Map.empty [47] 1 bdev mini_disk = Some Map.empty"
proof -
  obtain buf where b: "dir_buffer ram_env root_inode = Some (replicate 128 0)"
    and r: "fs_read ram_env bdev root_inode (replicate 128 0) BLOCK_SIZE 0 mini_disk = Some (128, buf)"
    using mini_read_root by blast
  show ?thesis unfolding cache_at_Suc mini_get_inode by (simp add: b r DIRENT_SIZE_def)
qed

section \<open>Properties\<close>

text \<open>
  \<^verbatim>\<open>get_inode\<close> finds inodes by number. On a disk with the Minix magic number the inode number \<open>n\<close> is
  the record of 64 bytes with index \<open>n - 1\<close> of the table that follows the boot block, the super block
  and the two bitmaps; without the magic number the result is \<^verbatim>\<open>None\<close>.
\<close>
lemma get_inode_reads_table:
  assumes "device_ok E bdev disk" and "length (disk d) + 2048 < 2 ^ 32"
    and "2 + unat (sb_imap_blocks (disk_super (disk d))) + unat (sb_zmap_blocks (disk_super (disk d))) < 2 ^ 16"
    and "0 < unat num" and "inode_on_disk (disk d) num"
  shows "get_inode E bdev num d =
    Some (if sb_magic (disk_super (disk d)) = MAGIC
          then Some (inode_of (take 64 (drop (inode_table (disk d) + 64 * (unat num - 1)) (disk d)))) else None)"
proof (cases "sb_magic (disk_super (disk d)) = MAGIC")
  case True
  then show ?thesis using get_inode_disk [OF assms(1,2) True assms(3-5)] by (simp add: disk_inode_def)
next
  case False
  let ?b = "Buffer_new E 1024" and ?s = "take 512 (drop 1024 (disk d))"
  have len: "1536 \<le> length (disk d)" using assms(5) by (simp add: inode_on_disk_def inode_table_def)
  then have "length ?s = 512" "length ?b = 1024" by (simp_all add: length_Buffer_new)
  then have "syc_read E bdev ?b 512 1024 d = Some (0, ?s @ drop 512 ?b)"
    using syc_read_bytes [OF assms(1), of 1024 512 d ?b] len assms(2) by (simp add: splice_def)
  moreover have "superblock_of (?s @ drop 512 ?b) = disk_super (disk d)"
    using len by (simp add: superblock_append disk_super_def)
  ultimately show ?thesis using False by (simp add: get_inode_def)
qed

text \<open>
  C39: \<^verbatim>\<open>cache_at\<close> and \<^verbatim>\<open>refresh\<close> put regular files into the cache and never a directory, so \<^verbatim>\<open>create\<close> has no
  parent to work with: after a \<^verbatim>\<open>refresh\<close>, a \<^verbatim>\<open>create\<close> whose directory is a directory of the disk (or is
  not cached at all) leaves the disk as it is and reports no error.
\<close>
theorem create_ignores_directories:
  assumes "refresh depth E bdev s = Some s1" and "cache_slot bdev s1 = Some i"
    and "\<forall>c ino. MFS_INODE_CACHE s1 ! i = Some c \<longrightarrow> c cwd = Some ino \<longrightarrow> i_mode ino AND S_IFDIR \<noteq> 0"
    and "fs_create depth' E bdev cwd filename s1 = Some s2"
  shows "dev s2 = dev s1 \<and> (\<exists>c. MFS_INODE_CACHE s1 ! i = Some c \<and> files_only c \<and> c cwd = None)"
proof -
  obtain btm where c: "cache_at depth E Map.empty [47] 1 bdev (dev s) = Some btm" and s1: "s1 = s\<lparr>MFS_INODE_CACHE := (MFS_INODE_CACHE s)[i := Some btm]\<rparr>"
    and i: "i < length (MFS_INODE_CACHE s)"
    using refresh_eq [OF assms(1)] assms(2) cache_slot_index by (fastforce simp: cache_slot_def)
  have slot: "MFS_INODE_CACHE s1 ! i = Some btm" using s1 i by simp
  have "files_only Map.empty" by (simp add: files_only_def)
  then have f: "files_only btm" by (rule cache_at_files_only [OF c])
  then have none: "btm cwd = None" using assms(3) slot by (auto simp: files_only_def)
  obtain btm' d' s3 where n: "create_new_file E btm cwd filename bdev (dev s1) = Some (btm', d')"
    and s3: "s3 = s1\<lparr>dev := d', MFS_INODE_CACHE := (MFS_INODE_CACHE s1)[i := Some btm']\<rparr>" and r: "refresh depth' E bdev s3 = Some s2"
    using assms(4) unfolding fs_create_def assms(2) using slot by (auto split: Option.bind_splits)
  have "dev s2 = dev s3" using refresh_eq [OF r] by auto
  moreover have "d' = dev s1" using create_new_file_miss [OF none n] by simp
  ultimately show ?thesis using s3 slot f none by simp
qed

theorem create_ignores_directories_witness:
  "\<exists>s1 s2. refresh 1 ram_env 8 \<lparr>dev = mini_disk, MFS_INODE_CACHE = replicate 8 None\<rparr> = Some s1
     \<and> fs_create 1 ram_env 8 [47] [97] s1 = Some s2 \<and> dev s2 = mini_disk"
proof -
  let ?s = "\<lparr>dev = mini_disk, MFS_INODE_CACHE = replicate 8 None\<rparr>"
  let ?s1 = "\<lparr>dev = mini_disk, MFS_INODE_CACHE = (replicate 8 None)[7 := Some Map.empty]\<rparr>"
  have c: "cache_at (Suc 0) ram_env Map.empty [47] 1 8 mini_disk = Some Map.empty" by (rule mini_cache)
  have slot: "cache_slot 8 ?s = Some 7" "cache_slot 8 ?s1 = Some 7" by (simp_all add: cache_slot_def usub_def)
  have r: "refresh 1 ram_env 8 ?s = Some ?s1" by (simp add: refresh_def c slot)
  have f: "find_free_inode ram_env 8 mini_disk = Some (Some (of_nat (1024 * 1 + 1)))"
  proof -
    have "\<forall>j < 1. mini_disk ! (2048 + j) = 255" "free_bit (mini_disk ! (2048 + 1)) = Some 1"
      by (simp_all add: mini_disk_def mini_image_def nth_append free_bit_def upt_rec)
    then show ?thesis
      using find_free_inode_eq [where disk = ram_disk and d = mini_disk and i = 1 and b = 1 and bdev = 8, OF ram_device_ok] mini_disk_super
      by simp
  qed
  have r2: "refresh 1 ram_env 8 ?s1 = Some ?s1" by (simp add: refresh_def c slot)
  have cr: "fs_create 1 ram_env 8 [47] [97] ?s1 = Some ?s1"
    using f r2 by (simp add: fs_create_def slot create_new_file_def list_update_id)
  show ?thesis using r cr create_ignores_directories [OF r slot(2) _ cr] by auto
qed

text \<open>
  \<^verbatim>\<open>find_free_inode\<close> returns a wrong number. When the first free bit of the (first block of the) inode
  map is bit \<open>b\<close> of byte \<open>i\<close>, which is the bit of inode \<open>8 * i + b\<close>, the result is \<open>1024 * i + b\<close>; it is the
  number of the free bit only for the first byte of the map.
\<close>
lemma find_free_inode_number:
  assumes "device_ok E bdev disk" and "length (disk d) + 2048 < 2 ^ 32" and "3072 \<le> length (disk d)"
    and "0 < unat (sb_imap_blocks (disk_super (disk d)))"
    and "\<forall>j < i. disk d ! (2048 + j) = 255" and "free_bit (disk d ! (2048 + i)) = Some b" and "i < 1024"
  shows "find_free_inode E bdev d = Some (Some (of_nat (1024 * i + b)))
    \<and> (find_free_inode E bdev d = Some (Some (of_nat (8 * i + b))) \<longleftrightarrow> i = 0)"
proof -
  have "b < 8" using assms(6) by (auto simp: free_bit_def find_Some_iff)
  then have "unat (of_nat (1024 * i + b) :: u32) = 1024 * i + b" "unat (of_nat (8 * i + b) :: u32) = 8 * i + b"
    using assms(7) by (intro unat_of_nat_small, simp)+
  then have "(of_nat (1024 * i + b) :: u32) = of_nat (8 * i + b) \<longleftrightarrow> i = 0" by (auto simp del: of_nat_add of_nat_mult)
  then show ?thesis using find_free_inode_eq [OF assms] by (simp del: of_nat_add of_nat_mult)
qed

text \<open>
  C35: the recursive \<^verbatim>\<open>cache_at\<close> terminates when the directories of the disk have no cycle: if they can be read
  and there is a rank that decreases from a directory to its subdirectories, one and the same cache is
  the result for every bound on the depth above the rank of the start.
\<close>
theorem cache_at_terminates:
  assumes "dir_ranked E bdev d S rank" and "n \<in> S"
  shows "\<exists>btm'. \<forall>depth > rank n. cache_at depth E btm cwd n bdev d = Some btm'"
proof -
  obtain btm' where "cache_at (Suc (rank n)) E btm cwd n bdev d = Some btm'"
    using cache_at_returns [OF assms] by blast
  then show ?thesis using cache_at_deeper Suc_leI by metis
qed

theorem cache_at_terminates_witness:
  "\<exists>btm'. \<forall>depth > (0 :: nat). cache_at depth ram_env Map.empty [47] 1 8 mini_disk = Some btm'"
proof -
  obtain buf where "dir_buffer ram_env root_inode = Some (replicate 128 0)"
      "fs_read ram_env 8 root_inode (replicate 128 0) BLOCK_SIZE 0 mini_disk = Some (128, buf)"
    using mini_read_root by blast
  then have "dir_ranked ram_env 8 mini_disk {1} (\<lambda>_. 0)"
    by (simp add: dir_ranked_def mini_get_inode DIRENT_SIZE_def)
  then show ?thesis by (rule cache_at_terminates) simp
qed

end
