(* ===== verification/Fs_Tree.thy ===== *)
theory Fs_Tree
  imports Fs_Cache
begin

text \<open>
  The inode cache as a relation: \<^verbatim>\<open>cache_at\<close> walks the directories in a recursion with an accumulator; \<open>file_at\<close> is the
  relation of paths to inodes that this recursion computes, still in terms of the operations that it calls. \<open>Fs_Image\<close> compares it with the image of the disk.
\<close>

section \<open>The files of a tree\<close>

text \<open>An entry in use of the directory with inode number \<open>n\<close>, the two standard entries apart.\<close>

definition dir_entry :: "'d env \<Rightarrow> usize \<Rightarrow> 'd \<Rightarrow> u32 \<Rightarrow> DirEntry \<Rightarrow> bool" where
  "dir_entry E bdev d n e \<longleftrightarrow> (\<exists>ino buf sz buf' i. get_inode E bdev n d = Some (Some ino) \<and> dir_buffer E ino = Some buf
     \<and> fs_read E bdev ino buf BLOCK_SIZE 0 d = Some (sz, buf') \<and> i \<in> set [2..<unat sz div DIRENT_SIZE]
     \<and> dirent_at buf' i = Some e \<and> d_inode e \<noteq> 0)"

text \<open>\<open>file_at E bdev d cwd n p ino\<close>: below the directory \<open>n\<close>, whose path is \<open>cwd\<close>, the file \<open>ino\<close> has the path \<open>p\<close>.\<close>

inductive file_at :: "'d env \<Rightarrow> usize \<Rightarrow> 'd \<Rightarrow> rust_string \<Rightarrow> u32 \<Rightarrow> rust_string \<Rightarrow> Inode \<Rightarrow> bool" for E bdev d where
  here: "\<lbrakk>dir_entry E bdev d n e; get_inode E bdev (d_inode e) d = Some (Some ino); i_mode ino AND S_IFDIR = 0\<rbrakk> \<Longrightarrow>
     file_at E bdev d cwd n (child_path cwd n e) ino"
| below: "\<lbrakk>dir_entry E bdev d n e; get_inode E bdev (d_inode e) d = Some (Some di); i_mode di AND S_IFDIR \<noteq> 0;
     file_at E bdev d (child_path cwd n e) (d_inode e) p ino\<rbrakk> \<Longrightarrow> file_at E bdev d cwd n p ino"

inductive_cases file_atE: "file_at E bdev d cwd n p ino"

section \<open>The cache holds the files of the tree\<close>

lemma cache_at_loop:
  assumes "cache_at (Suc depth) E btm cwd n bdev d = Some btm'"
  obtains ino buf sz buf' where "get_inode E bdev n d = Some (Some ino)" "dir_buffer E ino = Some buf" "fs_read E bdev ino buf BLOCK_SIZE 0 d = Some (sz, buf')"
    "for_each (cache_entry (\<lambda>b p k. cache_at depth E b p k bdev d) E cwd n bdev d buf') [2..<unat sz div DIRENT_SIZE] btm = Some btm'"
  using assms unfolding cache_at_Suc by (auto split: Option.bind_splits)

lemma cache_entryE:
  assumes "cache_entry rec E cwd n bdev d buf i b = Some b'"
  obtains e where "dirent_at buf i = Some e" "d_inode e = 0" "b' = b"
  | e di where "dirent_at buf i = Some e" "d_inode e \<noteq> 0" "get_inode E bdev (d_inode e) d = Some (Some di)" "i_mode di AND S_IFDIR \<noteq> 0"
      "rec b (child_path cwd n e) (d_inode e) = Some b'"
  | e di where "dirent_at buf i = Some e" "d_inode e \<noteq> 0" "get_inode E bdev (d_inode e) d = Some (Some di)" "i_mode di AND S_IFDIR = 0"
      "b' = b(child_path cwd n e \<mapsto> di)"
  using assms by (auto simp: cache_entry_def Let_def split: Option.bind_splits if_splits)

lemma cache_at_sound:
  assumes "cache_at depth E btm cwd n bdev d = Some btm'" and "btm' p = Some ino"
  shows "btm p = Some ino \<or> file_at E bdev d cwd n p ino"
  using assms
proof (induction depth arbitrary: btm cwd n btm' p ino)
  case (Suc depth)
  obtain ino0 buf sz buf' where g: "get_inode E bdev n d = Some (Some ino0)" "dir_buffer E ino0 = Some buf" "fs_read E bdev ino0 buf BLOCK_SIZE 0 d = Some (sz, buf')"
    and loop: "for_each (cache_entry (\<lambda>b p k. cache_at depth E b p k bdev d) E cwd n bdev d buf') [2..<unat sz div DIRENT_SIZE] btm = Some btm'"
    by (rule cache_at_loop [OF Suc.prems(1)])
  let ?P = "\<lambda>b. \<forall>p ino. b p = Some ino \<longrightarrow> btm p = Some ino \<or> file_at E bdev d cwd n p ino"
  have "?P btm'"
  proof (rule for_each_keeps [OF loop])
    fix i b b' assume i: "i \<in> set [2..<unat sz div DIRENT_SIZE]" and b: "?P b"
      and e: "cache_entry (\<lambda>b p k. cache_at depth E b p k bdev d) E cwd n bdev d buf' i b = Some b'"
    have de: "dir_entry E bdev d n e" if "dirent_at buf' i = Some e" "d_inode e \<noteq> 0" for e
      using g i that unfolding dir_entry_def by blast
    from e show "?P b'"
    proof (cases rule: cache_entryE)
      case (2 e di)
      show ?thesis
      proof (intro allI impI)
        fix p ino assume "b' p = Some ino"
        then have "b p = Some ino \<or> file_at E bdev d (child_path cwd n e) (d_inode e) p ino" by (rule Suc.IH [OF 2(5)])
        then show "btm p = Some ino \<or> file_at E bdev d cwd n p ino" using b file_at.below [OF de [OF 2(1,2)] 2(3,4)] by blast
      qed
    next
      case (3 e di)
      then show ?thesis using b file_at.here [OF de [OF 3(1,2)] 3(3,4), of cwd] by auto
    qed (use b in simp)
  qed simp
  then show ?case using Suc.prems(2) by blast
qed simp

lemma cache_entry_keeps:
  assumes "cache_entry rec E cwd n bdev d buf i b = Some b'" and "\<And>b p k b'. rec b p k = Some b' \<Longrightarrow> dom b \<subseteq> dom b'"
  shows "dom b \<subseteq> dom b'"
  using assms(1)
proof (cases rule: cache_entryE)
  case (2 e di)
  then show ?thesis by (intro assms(2))
qed auto

lemma cache_at_keeps:
  assumes "cache_at depth E btm cwd n bdev d = Some btm'" shows "dom btm \<subseteq> dom btm'"
  using assms
proof (induction depth arbitrary: btm cwd n btm')
  case (Suc depth)
  obtain buf k where loop: "for_each (cache_entry (\<lambda>b p k. cache_at depth E b p k bdev d) E cwd n bdev d buf) [2..<k] btm = Some btm'"
    by (rule cache_at_loop [OF Suc.prems])
  show ?case
  proof (rule for_each_keeps [OF loop])
    fix i b b' assume b: "dom btm \<subseteq> dom b" and e: "cache_entry (\<lambda>b p k. cache_at depth E b p k bdev d) E cwd n bdev d buf i b = Some b'"
    show "dom btm \<subseteq> dom b'" using b cache_entry_keeps [OF e Suc.IH] by (rule subset_trans)
  qed simp
qed simp

text \<open>A loop over a list passes through each element.\<close>

lemma for_each_passes:
  assumes "for_each f xs s = Some s'" and "x \<in> set xs"
  shows "\<exists>s1 s2 ys. f x s1 = Some s2 \<and> for_each f ys s2 = Some s'"
proof -
  obtain as bs where xs: "xs = as @ x # bs" using split_list [OF assms(2)] by blast
  have "\<exists>s1 s2. f x s1 = Some s2 \<and> for_each f bs s2 = Some s'" using assms(1) unfolding xs
    by (induction as arbitrary: s) (auto split: bind_splits)
  then show ?thesis by blast
qed

lemma cache_at_entry:
  assumes "dir_entry E bdev d n e" and "cache_at depth E btm cwd n bdev d = Some btm'"
  obtains k buf i b b' where "depth = Suc k" "dirent_at buf i = Some e" "d_inode e \<noteq> 0"
    "cache_entry (\<lambda>b p m. cache_at k E b p m bdev d) E cwd n bdev d buf i b = Some b'" "dom b' \<subseteq> dom btm'"
proof -
  obtain k where k: "depth = Suc k" using assms(2) by (cases depth) auto
  let ?f = "\<lambda>buf. cache_entry (\<lambda>b p m. cache_at k E b p m bdev d) E cwd n bdev d buf"
  obtain ino buf sz buf' where g: "get_inode E bdev n d = Some (Some ino)" "dir_buffer E ino = Some buf" "fs_read E bdev ino buf BLOCK_SIZE 0 d = Some (sz, buf')"
    and loop: "for_each (?f buf') [2..<unat sz div DIRENT_SIZE] btm = Some btm'"
    by (rule cache_at_loop [OF assms(2) [unfolded k]])
  obtain i where i: "i \<in> set [2..<unat sz div DIRENT_SIZE]" "dirent_at buf' i = Some e" "d_inode e \<noteq> 0"
    using assms(1) g unfolding dir_entry_def by auto
  obtain b b' ys where b: "?f buf' i b = Some b'" "for_each (?f buf') ys b' = Some btm'" using for_each_passes [OF loop i(1)] by blast
  have "dom b' \<subseteq> dom btm'"
  proof (rule for_each_keeps [OF b(2)])
    fix y s s' assume s: "dom b' \<subseteq> dom s" and e: "?f buf' y s = Some s'"
    show "dom b' \<subseteq> dom s'" using s cache_entry_keeps [OF e cache_at_keeps] by (rule subset_trans)
  qed simp
  then show ?thesis using that k i(2,3) b(1) by blast
qed

lemma cache_at_complete:
  assumes "file_at E bdev d cwd n p ino" and "cache_at depth E btm cwd n bdev d = Some btm'"
  shows "p \<in> dom btm'"
  using assms
proof (induction arbitrary: depth btm btm' rule: file_at.induct)
  case (here n e ino cwd)
  obtain k buf i b b' where e: "dirent_at buf i = Some e" "d_inode e \<noteq> 0"
    "cache_entry (\<lambda>b p m. cache_at k E b p m bdev d) E cwd n bdev d buf i b = Some b'" "dom b' \<subseteq> dom btm'"
    by (rule cache_at_entry [OF here(1,4)])
  have "b' = b(child_path cwd n e \<mapsto> ino)" using e(1-3) here(2,3) by (simp add: cache_entry_def)
  then show ?case using e(4) by auto
next
  case (below n e di cwd p ino)
  obtain k buf i b b' where e: "dirent_at buf i = Some e" "d_inode e \<noteq> 0"
    "cache_entry (\<lambda>b p m. cache_at k E b p m bdev d) E cwd n bdev d buf i b = Some b'" "dom b' \<subseteq> dom btm'"
    by (rule cache_at_entry [OF below(1,6)])
  have "cache_at k E b (child_path cwd n e) (d_inode e) bdev d = Some b'" using e(1-3) below(2,3) by (simp add: cache_entry_def)
  then show ?case using below.IH e(4) by blast
qed

section \<open>What open finds\<close>

text \<open>When the paths are unambiguous, \<^verbatim>\<open>open\<close> finds after \<^verbatim>\<open>refresh\<close> exactly the files of the relation.\<close>

lemma refresh_open_files:
  assumes "refresh depth E bdev s = Some s'"
    and "\<forall>p i j. file_at E bdev (dev s) [47] 1 p i \<longrightarrow> file_at E bdev (dev s) [47] 1 p j \<longrightarrow> i = j"
  shows "(\<forall>ino. fs_open bdev path s' = Some (Inr ino) \<longleftrightarrow> file_at E bdev (dev s) [47] 1 path ino)
    \<and> (fs_open bdev path s' = Some (Inl FileNotFound) \<longleftrightarrow> (\<nexists>ino. file_at E bdev (dev s) [47] 1 path ino))"
proof -
  obtain btm i where r: "cache_at depth E Map.empty [47] 1 bdev (dev s) = Some btm" "cache_slot bdev s = Some i"
    "s' = s\<lparr>MFS_INODE_CACHE := (MFS_INODE_CACHE s)[i := Some btm]\<rparr>"
    using assms(1) by (auto simp: refresh_def split: Option.bind_splits)
  have i: "i < length (MFS_INODE_CACHE s)" using cache_slot_index [OF r(2)] by blast
  have "cache_slot bdev s' = Some i" using r(2,3) by (auto simp: cache_slot_def assert_that_def split: Option.bind_splits if_splits)
  then have o: "fs_open bdev path s' = Some (case btm path of Some ino \<Rightarrow> Inr ino | None \<Rightarrow> Inl FileNotFound)"
    using r(3) i by (simp add: fs_open_def)
  have "btm path = Some ino \<longleftrightarrow> file_at E bdev (dev s) [47] 1 path ino" for ino
  proof
    assume "btm path = Some ino"
    then show "file_at E bdev (dev s) [47] 1 path ino" using cache_at_sound [OF r(1)] by fastforce
  next
    assume f: "file_at E bdev (dev s) [47] 1 path ino"
    then obtain j where j: "btm path = Some j" using cache_at_complete [OF f r(1)] by blast
    then have "file_at E bdev (dev s) [47] 1 path j" using cache_at_sound [OF r(1) j] by simp
    then show "btm path = Some ino" using assms(2) f j by blast
  qed
  then show ?thesis unfolding o by (cases "btm path") auto
qed

section \<open>A directory with a file\<close>

text \<open>The directory holds one file, \<^verbatim>\<open>a\<close>, with inode 2.\<close>

definition tree_file :: Inode where
  "tree_file = \<lparr>i_mode = 0x81a4, i_nlinks = 1, i_uid = 0, i_gid = 0, i_size = 0, i_atime = 0, i_mtime = 0, i_ctime = 0,
     i_zones = [0, 0, 0, 0, 0, 0, 0, 0, 0, 0]\<rparr>"

definition tree_dir :: "u8 list" where
  "tree_dir = (to_le 4 (1 :: u32) @ [46] @ replicate 59 0) @ (to_le 4 (1 :: u32) @ [46, 46] @ replicate 58 0)
     @ (to_le 4 (2 :: u32) @ [97] @ replicate 59 0) @ replicate 832 0"

lemma tree_dir_length: "length tree_dir = 1024"
  by (simp add: tree_dir_def)

lemma tree_dirent: "dirent_at (take 192 tree_dir) 2 = Some \<lparr>d_inode = 2, d_name = 97 # replicate 59 0\<rparr>"
proof -
  have "take 64 (drop 128 (take 192 tree_dir)) = to_le 4 (2 :: u32) @ [97] @ replicate 59 0" by (simp add: tree_dir_def)
  then show ?thesis by (simp add: dirent_at_def DIRENT_SIZE_def tree_dir_length dirent_of_def field_def)
qed

lemma tree_path: "child_path [47] 1 \<lparr>d_inode = 2, d_name = 97 # replicate 59 0\<rparr> = [47, 97]"
  by (simp add: child_path_def dirent_name_def push_char_def)

end
