(* ===== verification/Fs_Update.thy ===== *)
theory Fs_Update
  imports Fs_Write Fs_Tree
begin

text \<open>
  What a change of a file leaves alone: files of the tree by inode number (\<open>file_no\<close>), disks with the same directories
  (\<open>same_tree\<close>), and the two changes that rewriting a file makes, to a data zone and to the size field of its inode.
\<close>

section \<open>Files by number\<close>

text \<open>\<open>file_no E bdev d cwd n p k\<close>: below the directory \<open>n\<close>, whose path is \<open>cwd\<close>, the file with inode number \<open>k\<close> has the path \<open>p\<close>.\<close>

inductive file_no :: "'d env \<Rightarrow> usize \<Rightarrow> 'd \<Rightarrow> rust_string \<Rightarrow> u32 \<Rightarrow> rust_string \<Rightarrow> u32 \<Rightarrow> bool" for E bdev d where
  here: "\<lbrakk>dir_entry E bdev d n e; get_inode E bdev (d_inode e) d = Some (Some ino); i_mode ino AND S_IFDIR = 0\<rbrakk> \<Longrightarrow>
     file_no E bdev d cwd n (child_path cwd n e) (d_inode e)"
| below: "\<lbrakk>dir_entry E bdev d n e; get_inode E bdev (d_inode e) d = Some (Some di); i_mode di AND S_IFDIR \<noteq> 0;
     file_no E bdev d (child_path cwd n e) (d_inode e) p k\<rbrakk> \<Longrightarrow> file_no E bdev d cwd n p k"

lemma file_at_no: "file_at E bdev d cwd n p ino \<longleftrightarrow> (\<exists>k. file_no E bdev d cwd n p k \<and> get_inode E bdev k d = Some (Some ino))"
proof
  assume "file_at E bdev d cwd n p ino"
  then show "\<exists>k. file_no E bdev d cwd n p k \<and> get_inode E bdev k d = Some (Some ino)"
    by (induction rule: file_at.induct) (blast intro: file_no.here file_no.below)+
next
  assume "\<exists>k. file_no E bdev d cwd n p k \<and> get_inode E bdev k d = Some (Some ino)"
  then obtain k where "file_no E bdev d cwd n p k" "get_inode E bdev k d = Some (Some ino)" by blast
  then show "file_at E bdev d cwd n p ino"
    by (induction rule: file_no.induct) (auto intro: file_at.here file_at.below)
qed

text \<open>
  The disks \<open>d\<close> and \<open>d'\<close> have the same directories in the set \<open>S\<close>, and their entries stay directories or files.
\<close>

definition same_tree :: "'d env \<Rightarrow> usize \<Rightarrow> 'd \<Rightarrow> 'd \<Rightarrow> u32 set \<Rightarrow> bool" where
  "same_tree E bdev d d' S \<longleftrightarrow> (\<forall>n \<in> S. get_inode E bdev n d' = get_inode E bdev n d
     \<and> (\<forall>ino buf. get_inode E bdev n d = Some (Some ino) \<longrightarrow> dir_buffer E ino = Some buf \<longrightarrow>
          fs_read E bdev ino buf BLOCK_SIZE 0 d' = fs_read E bdev ino buf BLOCK_SIZE 0 d)
     \<and> (\<forall>e. dir_entry E bdev d n e \<longrightarrow> (\<exists>i i'. get_inode E bdev (d_inode e) d = Some (Some i)
          \<and> get_inode E bdev (d_inode e) d' = Some (Some i') \<and> i_mode i' = i_mode i)))"

lemma same_tree_entry: "same_tree E bdev d d' S \<Longrightarrow> n \<in> S \<Longrightarrow> dir_entry E bdev d' n e \<longleftrightarrow> dir_entry E bdev d n e"
  unfolding same_tree_def dir_entry_def by (metis (no_types, lifting))

lemma same_tree_sym: "same_tree E bdev d d' S \<Longrightarrow> same_tree E bdev d' d S"
  using same_tree_entry [of E bdev d d' S] unfolding same_tree_def by (metis (no_types, lifting))

lemma same_tree_mode:
  assumes "same_tree E bdev d d' S" "n \<in> S" "dir_entry E bdev d n e" "get_inode E bdev (d_inode e) d = Some (Some i)"
  obtains i' where "get_inode E bdev (d_inode e) d' = Some (Some i')" "i_mode i' = i_mode i"
  using assms unfolding same_tree_def by fastforce

text \<open>The directories of a ranked set lead to directories of the set only.\<close>

lemma dir_ranked_entry:
  assumes "dir_ranked E bdev d S rank" "n \<in> S" "dir_entry E bdev d n e"
  obtains i where "get_inode E bdev (d_inode e) d = Some (Some i)"
    "i_mode i AND S_IFDIR \<noteq> 0 \<longrightarrow> d_inode e \<in> S \<and> rank (d_inode e) < rank n"
proof -
  from assms(1,2) obtain ino buf sz buf' where g: "get_inode E bdev n d = Some (Some ino)" "dir_buffer E ino = Some buf"
      "fs_read E bdev ino buf BLOCK_SIZE 0 d = Some (sz, buf')"
    and all: "\<forall>i \<in> {2..<unat sz div DIRENT_SIZE}. \<exists>e. dirent_at buf' i = Some e \<and> (d_inode e \<noteq> 0 \<longrightarrow>
      (\<exists>di. get_inode E bdev (d_inode e) d = Some (Some di) \<and> (i_mode di AND S_IFDIR \<noteq> 0 \<longrightarrow> d_inode e \<in> S \<and> rank (d_inode e) < rank n)))"
    unfolding dir_ranked_def by blast
  obtain i where i: "i \<in> {2..<unat sz div DIRENT_SIZE}" "dirent_at buf' i = Some e" "d_inode e \<noteq> 0"
    using assms(3) g unfolding dir_entry_def by auto
  show thesis using bspec [OF all i(1)] i(2,3) that by auto
qed

lemma same_tree_ranked:
  assumes "same_tree E bdev d d' S" "dir_ranked E bdev d S rank"
  shows "dir_ranked E bdev d' S rank"
  unfolding dir_ranked_def
proof
  fix n assume n: "n \<in> S"
  obtain ino buf sz buf' where g: "get_inode E bdev n d = Some (Some ino)" "dir_buffer E ino = Some buf"
      "fs_read E bdev ino buf BLOCK_SIZE 0 d = Some (sz, buf')"
    and all: "\<forall>i \<in> {2..<unat sz div DIRENT_SIZE}. \<exists>e. dirent_at buf' i = Some e \<and> (d_inode e \<noteq> 0 \<longrightarrow>
      (\<exists>di. get_inode E bdev (d_inode e) d = Some (Some di) \<and> (i_mode di AND S_IFDIR \<noteq> 0 \<longrightarrow> d_inode e \<in> S \<and> rank (d_inode e) < rank n)))"
    using assms(2) n unfolding dir_ranked_def by blast
  have g': "get_inode E bdev n d' = Some (Some ino)" "fs_read E bdev ino buf BLOCK_SIZE 0 d' = Some (sz, buf')"
    using assms(1) n g unfolding same_tree_def by simp_all
  have "\<exists>e. dirent_at buf' i = Some e \<and> (d_inode e \<noteq> 0 \<longrightarrow>
      (\<exists>di. get_inode E bdev (d_inode e) d' = Some (Some di) \<and> (i_mode di AND S_IFDIR \<noteq> 0 \<longrightarrow> d_inode e \<in> S \<and> rank (d_inode e) < rank n)))"
    if i: "i \<in> {2..<unat sz div DIRENT_SIZE}" for i
  proof -
    obtain e where e: "dirent_at buf' i = Some e" using bspec [OF all i] by blast
    show ?thesis
    proof (cases "d_inode e = 0")
      case False
      then have de: "dir_entry E bdev d n e" using g i e unfolding dir_entry_def by auto
      obtain di where di: "get_inode E bdev (d_inode e) d = Some (Some di)"
        "i_mode di AND S_IFDIR \<noteq> 0 \<longrightarrow> d_inode e \<in> S \<and> rank (d_inode e) < rank n"
        by (rule dir_ranked_entry [OF assms(2) n de])
      obtain di' where "get_inode E bdev (d_inode e) d' = Some (Some di')" "i_mode di' = i_mode di"
        by (rule same_tree_mode [OF assms(1) n de di(1)])
      then show ?thesis using e di(2) by auto
    qed (use e in simp)
  qed
  then show "\<exists>ino buf sz buf'. get_inode E bdev n d' = Some (Some ino) \<and> dir_buffer E ino = Some buf
        \<and> fs_read E bdev ino buf BLOCK_SIZE 0 d' = Some (sz, buf')
        \<and> (\<forall>i \<in> {2..<unat sz div DIRENT_SIZE}. \<exists>e. dirent_at buf' i = Some e \<and> (d_inode e \<noteq> 0 \<longrightarrow>
             (\<exists>di. get_inode E bdev (d_inode e) d' = Some (Some di)
                \<and> (i_mode di AND S_IFDIR \<noteq> 0 \<longrightarrow> d_inode e \<in> S \<and> rank (d_inode e) < rank n))))"
    using g' g(2) by blast
qed

lemma same_tree_file_no:
  assumes "same_tree E bdev d d' S" "dir_ranked E bdev d S rank" "n \<in> S" "file_no E bdev d cwd n p k"
  shows "file_no E bdev d' cwd n p k"
  using assms(4,3)
proof (induction rule: file_no.induct)
  case (here n e ino cwd)
  obtain i' where i': "get_inode E bdev (d_inode e) d' = Some (Some i')" "i_mode i' = i_mode ino"
    by (rule same_tree_mode [OF assms(1) here(4,1,2)])
  have "i_mode i' AND S_IFDIR = 0" using i'(2) here(3) by simp
  then show ?case using file_no.here [OF _ i'(1)] same_tree_entry [OF assms(1) here(4)] here(1) by blast
next
  case (below n e di cwd p k)
  obtain i' where i': "get_inode E bdev (d_inode e) d' = Some (Some i')" "i_mode i' = i_mode di"
    by (rule same_tree_mode [OF assms(1) below(6,1,2)])
  have "i_mode i' AND S_IFDIR \<noteq> 0" using i'(2) below(3) by simp
  moreover have "d_inode e \<in> S" using dir_ranked_entry [OF assms(2) below(6,1)] below(2,3) by (metis option.inject)
  ultimately show ?case using file_no.below [OF _ i'(1)] same_tree_entry [OF assms(1) below(6)] below(1,5) by blast
qed

section \<open>Changes of the image\<close>

lemma splice_elsewhere:
  "off + length xs \<le> length bs \<Longrightarrow> a + k \<le> off \<or> off + length xs \<le> a \<Longrightarrow> a + k \<le> length bs \<Longrightarrow>
   take k (drop a (splice off xs bs)) = take k (drop a bs)"
  by (intro nth_equalityI) (auto simp: nth_splice)

lemma splice_inside:
  "a \<le> off \<Longrightarrow> off + length xs \<le> a + k \<Longrightarrow> a + k \<le> length bs \<Longrightarrow>
   take k (drop a (splice off xs bs)) = splice (off - a) xs (take k (drop a bs))"
  by (intro nth_equalityI) (auto simp: nth_splice add.commute)

text \<open>Behind the super block, a change keeps the layout.\<close>

lemma disk_super_splice:
  assumes "1536 \<le> off" "off + length xs \<le> length bs"
  shows "disk_super (splice off xs bs) = disk_super bs" "inode_table (splice off xs bs) = inode_table bs"
proof -
  have "take 512 (drop 1024 (splice off xs bs)) = take 512 (drop 1024 bs)" using assms by (intro splice_elsewhere) simp_all
  then show "disk_super (splice off xs bs) = disk_super bs" by (simp add: disk_super_def)
  then show "inode_table (splice off xs bs) = inode_table bs" by (simp add: inode_table_def)
qed

text \<open>The record of an inode in the table.\<close>

definition inode_pos :: "u8 list \<Rightarrow> u32 \<Rightarrow> nat" where
  "inode_pos bs n = inode_table bs + 64 * (unat n - 1)"

lemma disk_inode_splice:
  assumes "1536 \<le> off" "off + length xs \<le> length bs" "inode_pos bs n + 64 \<le> length bs"
    and "inode_pos bs n + 64 \<le> off \<or> off + length xs \<le> inode_pos bs n"
  shows "disk_inode (splice off xs bs) n = disk_inode bs n"
  using splice_elsewhere [OF assms(2,4,3)] unfolding disk_inode_def disk_super_splice(2) [OF assms(1,2)] by (simp add: inode_pos_def)

lemma field_splice_other:
  "off + length xs \<le> length bs \<Longrightarrow> a + k \<le> off \<or> off + length xs \<le> a \<Longrightarrow> a + k \<le> length bs \<Longrightarrow>
   field (splice off xs bs) a k = field bs a k"
  by (simp add: field_def splice_elsewhere)

lemma inode_of_size:
  assumes "length bs = 64"
  shows "inode_of (splice 8 (to_le 4 v) bs) = (inode_of bs)\<lparr>i_size := v\<rparr>"
proof -
  have "field (splice 8 (to_le 4 v) bs) 8 4 = v"
    using take_drop_splice [of 8 "to_le 4 v" bs] assms by (simp add: field_def)
  then show ?thesis using assms by (simp add: inode_of_def field_splice_other)
qed

lemma disk_inode_size:
  assumes "inode_pos bs n + 64 \<le> length bs" "0 < unat n"
  shows "disk_inode (splice (inode_pos bs n + 8) (to_le 4 v) bs) n = (disk_inode bs n)\<lparr>i_size := v\<rparr>"
proof -
  let ?b = "splice (inode_pos bs n + 8) (to_le 4 v) bs"
  have "1536 \<le> inode_pos bs n + 8" by (simp add: inode_pos_def inode_table_def)
  then have t: "inode_table ?b = inode_table bs" using assms(1) by (intro disk_super_splice) simp_all
  have "take 64 (drop (inode_pos bs n) ?b) = splice 8 (to_le 4 v) (take 64 (drop (inode_pos bs n) bs))"
    using splice_inside [of "inode_pos bs n" "inode_pos bs n + 8" "to_le 4 v" 64 bs] assms(1) by simp
  then show ?thesis using assms(1) unfolding disk_inode_def t inode_pos_def [of bs n, symmetric] by (simp add: inode_of_size)
qed

text \<open>A file whose pointer blocks and data blocks are unchanged is unchanged.\<close>

lemma zone_ptrs_cong: "block_at bs' z = block_at bs z \<Longrightarrow> zone_ptrs bs' z = zone_ptrs bs z"
  by (simp add: zone_ptrs_def)

lemma file_zones_cong:
  assumes "\<forall>z \<in> set (pointer_zones bs ino). block_at bs' z = block_at bs z"
  shows "file_zones bs' ino = file_zones bs ino" "pointer_zones bs' ino = pointer_zones bs ino"
proof -
  have p: "zone_ptrs bs' z = zone_ptrs bs z" if "z \<in> set (pointer_zones bs ino)" for z using assms that by (blast intro: zone_ptrs_cong)
  have 1: "indirect_zones bs' ino = indirect_zones bs ino" using p by (simp add: indirect_zones_def pointer_zones_def)
  have 2: "zone_ptrs bs' (i_zones ino ! 8) = zone_ptrs bs (i_zones ino ! 8)" if "i_zones ino ! 8 \<noteq> 0" using p that by (simp add: pointer_zones_def)
  have 3: "zone_ptrs bs' (i_zones ino ! 9) = zone_ptrs bs (i_zones ino ! 9)" if "i_zones ino ! 9 \<noteq> 0" using p that by (simp add: pointer_zones_def)
  have 4: "zone_ptrs bs' z = zone_ptrs bs z" if "i_zones ino ! 8 \<noteq> 0" "z \<in> set (zone_ptrs bs (i_zones ino ! 8))" for z
    using p that by (simp add: pointer_zones_def)
  have 5: "zone_ptrs bs' z = zone_ptrs bs z" "\<forall>y \<in> set (zone_ptrs bs z). zone_ptrs bs' y = zone_ptrs bs y"
    if "i_zones ino ! 9 \<noteq> 0" "z \<in> set (zone_ptrs bs (i_zones ino ! 9))" for z
    using p that by (auto simp: pointer_zones_def)
  have "iindirect_zones bs' ino = iindirect_zones bs ino"
    unfolding iindirect_zones_def using 2 4 by (simp cong: map_cong)
  moreover have "iiindirect_zones bs' ino = iiindirect_zones bs ino"
  proof (cases "i_zones ino ! 9 = 0")
    case False
    have "concat (map (zone_ptrs bs') (zone_ptrs bs' z)) = concat (map (zone_ptrs bs) (zone_ptrs bs z))"
      if "z \<in> set (zone_ptrs bs (i_zones ino ! 9))" for z
      using 5 [OF False that] by (metis map_eq_conv)
    then show ?thesis unfolding iiindirect_zones_def 3 [OF False] by (simp cong: map_cong)
  qed (simp add: iiindirect_zones_def)
  ultimately show "file_zones bs' ino = file_zones bs ino" by (simp add: file_zones_def 1)
  have "map (\<lambda>p. p # zone_ptrs bs' p) (zone_ptrs bs' (i_zones ino ! 9)) = map (\<lambda>p. p # zone_ptrs bs p) (zone_ptrs bs (i_zones ino ! 9))"
    if "i_zones ino ! 9 \<noteq> 0" using 3 [OF that] 5(1) [OF that] by simp
  then show "pointer_zones bs' ino = pointer_zones bs ino" using 2 unfolding pointer_zones_def by simp
qed

lemma file_bytes_cong:
  assumes "\<forall>z \<in> set (pointer_zones bs ino) \<union> set (file_zones bs ino). block_at bs' z = block_at bs z" and "length bs' = length bs"
  shows "file_bytes bs' ino = file_bytes bs ino" "zones_ok bs' ino = zones_ok bs ino"
proof -
  have f: "file_zones bs' ino = file_zones bs ino" "pointer_zones bs' ino = pointer_zones bs ino"
    using file_zones_cong [of bs ino bs'] assms(1) by auto
  show "file_bytes bs' ino = file_bytes bs ino"
    unfolding file_bytes_def blocks_of_def f using assms(1) by (auto intro!: arg_cong [of _ _ concat] map_cong)
  have "in_disk bs' = in_disk bs" using assms(2) by (simp add: in_disk_def fun_eq_iff)
  then show "zones_ok bs' ino = zones_ok bs ino" unfolding zones_ok_def f by simp
qed

lemma unat_split_mask: "unat (w :: 'l::len word) = unat (w AND NOT m) + unat (w AND m)"
proof -
  have "(w AND NOT m) AND (w AND m) = 0" "(w AND NOT m) OR (w AND m) = w" by (rule bit_word_eqI; auto simp: bit_simps)+
  then have "unat (w AND NOT m) AND unat (w AND m) = 0" "unat (w AND NOT m) OR unat (w AND m) = unat w"
    by (metis unsigned_and_eq unsigned_0) (metis \<open>(w AND NOT m) OR (w AND m) = w\<close> unsigned_or_eq)
  then show ?thesis by (metis disjunctive_add_eq_or)
qed

text \<open>The buffer for a directory is long enough for a size of whole words.\<close>

lemma length_dir_buffer:
  assumes "dir_buffer E ino = Some buf" and "8 dvd unat (i_size ino)"
  shows "unat (i_size ino) \<le> length buf"
proof -
  let ?w = "i_size ino + BLOCK_SIZE - 1"
  have no: "unat (i_size ino) + 1024 < 2 ^ 32" and b: "buf = Buffer_new E (unat (?w AND NOT BLOCK_SIZE))"
    using assms(1) by (auto simp: dir_buffer_def checked_simps split: Option.bind_splits)
  have "unat (i_size ino + BLOCK_SIZE) = unat (i_size ino) + 1024" using no unat_add_no_wrap [of "i_size ino" BLOCK_SIZE] by simp
  then have w: "unat ?w = unat (i_size ino) + 1023" using unat_sub [of 1 "i_size ino + BLOCK_SIZE"] by (simp add: word_le_nat_alt)
  have "?w AND BLOCK_SIZE \<le> BLOCK_SIZE" by (rule word_and_le1)
  then have "unat (?w AND BLOCK_SIZE) \<le> 1024" by (simp add: word_le_nat_alt)
  moreover have "unat ?w = unat (?w AND NOT BLOCK_SIZE) + unat (?w AND BLOCK_SIZE)"
    by (rule unat_split_mask)
  ultimately have "unat (i_size ino) \<le> unat (?w AND NOT BLOCK_SIZE) + 1" using w by linarith
  then show ?thesis using assms(2) unfolding b Buffer_new_def by (auto elim!: dvdE)
qed

section \<open>Rewriting a file\<close>

text \<open>
  The zones of the data area lie behind the inode table; the inode numbers of the file system are those of the table.
\<close>

definition data_zone :: "u8 list \<Rightarrow> u32 \<Rightarrow> bool" where
  "data_zone bs z \<longleftrightarrow> in_disk bs z \<and> inode_table bs + 64 * unat (sb_ninodes (disk_super bs)) \<le> 1024 * unat z"

definition inode_no :: "u8 list \<Rightarrow> u32 \<Rightarrow> bool" where
  "inode_no bs n \<longleftrightarrow> 0 < unat n \<and> unat n \<le> unat (sb_ninodes (disk_super bs))"

text \<open>A directory that can be read and that does not use the zone \<open>z\<close>.\<close>

definition dir_apart :: "u8 list \<Rightarrow> u32 \<Rightarrow> Inode \<Rightarrow> bool" where
  "dir_apart bs z i \<longleftrightarrow> zones_ok bs i \<and> 8 dvd unat (i_size i)
     \<and> (\<forall>w \<in> set (pointer_zones bs i) \<union> set (file_zones bs i). data_zone bs w \<and> w \<noteq> z)"

text \<open>
  The directories of the disk: they are the inodes of \<open>S\<close>, the root among them, they form a tree, and none of them uses the zone \<open>z\<close>.
\<close>

definition dirs_ok :: "'d env \<Rightarrow> usize \<Rightarrow> ('d \<Rightarrow> u8 list) \<Rightarrow> 'd \<Rightarrow> u32 set \<Rightarrow> (u32 \<Rightarrow> nat) \<Rightarrow> u32 \<Rightarrow> bool" where
  "dirs_ok E bdev disk d S rank z \<longleftrightarrow> 1 \<in> S \<and> dir_ranked E bdev d S rank
     \<and> (\<forall>n \<in> S. inode_no (disk d) n \<and> dir_apart (disk d) z (disk_inode (disk d) n)
          \<and> (\<forall>e. dir_entry E bdev d n e \<longrightarrow> inode_no (disk d) (d_inode e)))"

definition minix_disk :: "'d env \<Rightarrow> usize \<Rightarrow> ('d \<Rightarrow> u8 list) \<Rightarrow> 'd \<Rightarrow> bool" where
  "minix_disk E bdev disk d \<longleftrightarrow> device_ok E bdev disk \<and> length (disk d) + 2048 < 2 ^ 32
     \<and> sb_magic (disk_super (disk d)) = MAGIC
     \<and> 2 + unat (sb_imap_blocks (disk_super (disk d))) + unat (sb_zmap_blocks (disk_super (disk d))) < 2 ^ 16"

lemma inode_pos_end:
  assumes "inode_no bs n" "data_zone bs z"
  shows "inode_pos bs n + 64 \<le> 1024 * unat z" "1024 * unat z + 1024 \<le> length bs" "2048 \<le> inode_pos bs n" "inode_on_disk bs n"
proof -
  have n: "64 * (unat n - 1) + 64 \<le> 64 * unat (sb_ninodes (disk_super bs))" using assms(1) unfolding inode_no_def by linarith
  then show e: "inode_pos bs n + 64 \<le> 1024 * unat z" using assms(2) by (simp add: inode_pos_def data_zone_def)
  show l: "1024 * unat z + 1024 \<le> length bs" using assms(2) by (simp add: data_zone_def in_disk_def)
  show "2048 \<le> inode_pos bs n" by (simp add: inode_pos_def inode_table_def)
  let ?t = "2 + unat (sb_imap_blocks (disk_super bs)) + unat (sb_zmap_blocks (disk_super bs))" and ?q = "(unat n - 1) div 16"
  have "1024 * ?q \<le> 64 * (unat n - 1)" using div_times_less_eq_dividend [of "unat n - 1" 16] by linarith
  then have "1024 * (?t + ?q) < 1024 * unat z" using e by (simp add: inode_pos_def inode_table_def)
  then show "inode_on_disk bs n" using l by (simp add: inode_on_disk_def inode_table_def)
qed

lemma minix_get_inode:
  assumes "minix_disk E bdev disk d" "inode_no (disk d) n" "data_zone (disk d) z"
  shows "get_inode E bdev n d = Some (Some (disk_inode (disk d) n))"
  using assms(1,2) inode_pos_end(4) [OF assms(2,3)] by (intro get_inode_disk) (simp_all add: minix_disk_def inode_no_def)

text \<open>New contents for the zone \<open>z\<close> and a new size for the inode \<open>n\<close>.\<close>

definition rewritten :: "u32 \<Rightarrow> u8 list \<Rightarrow> u32 \<Rightarrow> u32 \<Rightarrow> u8 list \<Rightarrow> u8 list" where
  "rewritten z xs n v bs = splice (inode_pos bs n + 8) (to_le 4 v) (splice (1024 * unat z) xs bs)"

lemma rewritten_layout:
  assumes "inode_no bs n" "data_zone bs z" "length xs \<le> 1024"
  shows "length (rewritten z xs n v bs) = length bs" "disk_super (rewritten z xs n v bs) = disk_super bs"
    "inode_table (rewritten z xs n v bs) = inode_table bs" "inode_pos (splice (1024 * unat z) xs bs) = inode_pos bs"
proof -
  note b = inode_pos_end [OF assms(1,2)]
  have s: "disk_super (splice (1024 * unat z) xs bs) = disk_super bs" "inode_table (splice (1024 * unat z) xs bs) = inode_table bs"
    using b assms(3) by (intro disk_super_splice; simp)+
  then show "inode_pos (splice (1024 * unat z) xs bs) = inode_pos bs" by (simp add: inode_pos_def fun_eq_iff)
  show "length (rewritten z xs n v bs) = length bs" using b assms(3) by (simp add: rewritten_def)
  show "disk_super (rewritten z xs n v bs) = disk_super bs" "inode_table (rewritten z xs n v bs) = inode_table bs"
    using disk_super_splice [of "inode_pos bs n + 8" "to_le 4 v" "splice (1024 * unat z) xs bs"] b assms(3) s by (simp_all add: rewritten_def)
qed

lemma rewritten_inode:
  assumes "inode_no bs n" "inode_no bs m" "data_zone bs z" "length xs \<le> 1024"
  shows "disk_inode (rewritten z xs n v bs) m = (if m = n then (disk_inode bs n)\<lparr>i_size := v\<rparr> else disk_inode bs m)"
proof -
  let ?b = "splice (1024 * unat z) xs bs"
  note b = inode_pos_end [OF assms(1,3)] and c = inode_pos_end [OF assms(2,3)] and p = rewritten_layout(4) [OF assms(1,3,4)]
  have l: "length ?b = length bs" using b assms(4) by simp
  have i: "disk_inode ?b m = disk_inode bs m" using b c assms(4) by (intro disk_inode_splice) simp_all
  show ?thesis
  proof (cases "m = n")
    case True
    have "disk_inode (splice (inode_pos ?b n + 8) (to_le 4 v) ?b) n = (disk_inode ?b n)\<lparr>i_size := v\<rparr>"
      using b l p assms(1) by (intro disk_inode_size) (simp_all add: inode_no_def)
    then show ?thesis using True i p by (simp add: rewritten_def)
  next
    case False
    then have "unat m \<noteq> unat n" by (simp add: word_unat_eq_iff)
    then have "unat m < unat n \<or> unat n < unat m" by linarith
    then have "inode_pos bs m + 64 \<le> inode_pos bs n \<or> inode_pos bs n + 64 \<le> inode_pos bs m"
      using assms(1,2) by (auto simp: inode_pos_def inode_no_def)
    then have "disk_inode (rewritten z xs n v bs) m = disk_inode ?b m"
      unfolding rewritten_def using b c l p by (intro disk_inode_splice) auto
    then show ?thesis using False i by simp
  qed
qed

lemma rewritten_block:
  assumes "inode_no bs n" "data_zone bs z" "length xs \<le> 1024" "data_zone bs w"
  shows "block_at (rewritten z xs n v bs) w = (if w = z then block_at (splice (1024 * unat z) xs bs) z else block_at bs w)"
proof -
  let ?b = "splice (1024 * unat z) xs bs"
  note b = inode_pos_end [OF assms(1,2)] and c = inode_pos_end [OF assms(1,4)]
  have "block_at (rewritten z xs n v bs) w = block_at ?b w"
    unfolding rewritten_def block_at_def using b c assms(3) by (intro splice_elsewhere) simp_all
  moreover have "block_at ?b w = block_at bs w" if "w \<noteq> z"
    using that assms by (intro block_at_splice_other) (simp_all add: data_zone_def)
  ultimately show ?thesis by simp
qed

lemma dir_apart_read:
  assumes "minix_disk E bdev disk d" "minix_disk E bdev disk d'" "disk d' = rewritten z xs n v (disk d)" "inode_no (disk d) n" "data_zone (disk d) z"
    "length xs \<le> 1024" "dir_apart (disk d) z i" "dir_buffer E i = Some buf"
  shows "fs_read E bdev i buf BLOCK_SIZE 0 d' = fs_read E bdev i buf BLOCK_SIZE 0 d"
proof -
  have "\<forall>w \<in> set (pointer_zones (disk d) i) \<union> set (file_zones (disk d) i). block_at (disk d') w = block_at (disk d) w"
    using assms(7) rewritten_block [OF assms(4-6)] by (auto simp: assms(3) dir_apart_def)
  then have f: "file_bytes (disk d') i = file_bytes (disk d) i" "zones_ok (disk d') i"
    using file_bytes_cong [of "disk d" i "disk d'"] rewritten_layout(1) [OF assms(4-6)] assms(3,7) by (simp_all add: dir_apart_def)
  let ?n = "min BLOCK_SIZE (i_size i)"
  have n: "8 dvd unat ?n" using assms(7) by (simp add: min_def dir_apart_def)
  have "unat ?n \<le> unat (i_size i)" by (simp add: min_def word_le_nat_alt)
  also have "\<dots> \<le> length buf" using length_dir_buffer [OF assms(8)] assms(7) by (simp add: dir_apart_def)
  finally have l: "unat ?n \<le> length buf" .
  show ?thesis
    using fs_read_bytes [of E bdev disk d i ?n BLOCK_SIZE 0 buf] fs_read_bytes [of E bdev disk d' i ?n BLOCK_SIZE 0 buf]
      assms(1,2,7) f n l by (simp add: minix_disk_def dir_apart_def)
qed

lemma rewritten_same_tree:
  assumes "minix_disk E bdev disk d" "minix_disk E bdev disk d'" "disk d' = rewritten z xs n v (disk d)" "inode_no (disk d) n" "data_zone (disk d) z"
    "length xs \<le> 1024" "dirs_ok E bdev disk d S rank z" "n \<notin> S"
  shows "same_tree E bdev d d' S"
  unfolding same_tree_def
proof (intro ballI conjI allI impI)
  note rw = rewritten_layout(1-3) [OF assms(4-6), of v, folded assms(3)]
  have z': "data_zone (disk d') z" "inode_no (disk d') = inode_no (disk d)"
    using assms(5) rw(1-3) by (simp_all add: data_zone_def in_disk_def inode_no_def fun_eq_iff)
  have g: "get_inode E bdev k d' = Some (Some (if k = n then (disk_inode (disk d) n)\<lparr>i_size := v\<rparr> else disk_inode (disk d) k))"
    if "inode_no (disk d) k" for k
    using minix_get_inode [OF assms(2) _ z'(1)] z'(2) that rewritten_inode [OF assms(4) that assms(5,6)] by (simp add: assms(3))
  fix m assume m: "m \<in> S"
  then have ok: "inode_no (disk d) m" "dir_apart (disk d) z (disk_inode (disk d) m)" and e: "\<And>e. dir_entry E bdev d m e \<Longrightarrow> inode_no (disk d) (d_inode e)"
    using assms(7) by (simp_all add: dirs_ok_def)
  have gm: "get_inode E bdev m d = Some (Some (disk_inode (disk d) m))" by (rule minix_get_inode [OF assms(1) ok(1) assms(5)])
  show "get_inode E bdev m d' = get_inode E bdev m d" using g [OF ok(1)] gm m assms(8) by auto
  show "fs_read E bdev ino buf BLOCK_SIZE 0 d' = fs_read E bdev ino buf BLOCK_SIZE 0 d"
    if "get_inode E bdev m d = Some (Some ino)" "dir_buffer E ino = Some buf" for ino buf
    using dir_apart_read [OF assms(1-6)] ok(2) that gm by simp
  show "\<exists>i i'. get_inode E bdev (d_inode x) d = Some (Some i) \<and> get_inode E bdev (d_inode x) d' = Some (Some i') \<and> i_mode i' = i_mode i"
    if "dir_entry E bdev d m x" for x
    using g [OF e [OF that]] minix_get_inode [OF assms(1) e [OF that] assms(5)] by simp
qed

section \<open>Opening and reading afterwards\<close>

lemma refresh_open_no:
  assumes "refresh depth E bdev s = Some s'" "file_no E bdev (dev s) [47] 1 p k" "\<And>k'. file_no E bdev (dev s) [47] 1 p k' \<Longrightarrow> k' = k"
    "get_inode E bdev k (dev s) = Some (Some ino)"
  shows "fs_open bdev p s' = Some (Inr ino)"
proof -
  obtain btm i where r: "cache_at depth E Map.empty [47] 1 bdev (dev s) = Some btm" "cache_slot bdev s = Some i"
    "s' = s\<lparr>MFS_INODE_CACHE := (MFS_INODE_CACHE s)[i := Some btm]\<rparr>"
    using assms(1) by (auto simp: refresh_def split: Option.bind_splits)
  have i: "i < length (MFS_INODE_CACHE s)" "cache_slot bdev s' = Some i"
    using cache_slot_index [OF r(2)] r(2,3) by (auto simp: cache_slot_def assert_that_def split: Option.bind_splits if_splits)
  have "file_at E bdev (dev s) [47] 1 p ino" using assms(2,4) by (auto simp: file_at_no)
  then obtain j where j: "btm p = Some j" using cache_at_complete [OF _ r(1)] by blast
  then have "file_at E bdev (dev s) [47] 1 p j" using cache_at_sound [OF r(1) j] by simp
  then have "j = ino" using assms(3,4) by (auto simp: file_at_no)
  then show ?thesis using j i r(3) by (simp add: fs_open_def)
qed

lemma file_no_inode_no:
  assumes "dirs_ok E bdev disk d S rank z" "file_no E bdev d cwd m p k" "m \<in> S"
  shows "inode_no (disk d) k"
  using assms(2,3)
proof (induction rule: file_no.induct)
  case (here n e ino cwd)
  then show ?case using assms(1) by (auto simp: dirs_ok_def)
next
  case (below n e di cwd p k)
  have "dir_ranked E bdev d S rank" using assms(1) by (simp add: dirs_ok_def)
  then have "d_inode e \<in> S" using dir_ranked_entry [OF _ below(6,1)] below(2,3) by (metis option.inject)
  then show ?case by (rule below.IH)
qed

lemma zones_of_size: "file_zones bs (ino\<lparr>i_size := v\<rparr>) = file_zones bs ino" "pointer_zones bs (ino\<lparr>i_size := v\<rparr>) = pointer_zones bs ino"
  by (simp_all add: file_zones_def direct_zones_def indirect_zones_def iindirect_zones_def iiindirect_zones_def pointer_zones_def)

text \<open>A file with zones of the data area whose first zone is rewritten.\<close>

lemma rewritten_file:
  assumes "inode_no bs n" "data_zone bs z" "length xs \<le> 1024" "file_zones bs ino = z # zs" "z \<notin> set (pointer_zones bs ino)"
    "\<forall>w \<in> set (pointer_zones bs ino) \<union> set (file_zones bs ino). data_zone bs w"
  shows "zones_ok (rewritten z xs n v bs) (ino\<lparr>i_size := v\<rparr>)" "take (length xs) (file_bytes (rewritten z xs n v bs) (ino\<lparr>i_size := v\<rparr>)) = xs"
proof -
  let ?b = "rewritten z xs n v bs" and ?i = "ino\<lparr>i_size := v\<rparr>"
  have "\<forall>w \<in> set (pointer_zones bs ino). block_at ?b w = block_at bs w"
    using rewritten_block [OF assms(1-3)] assms(5,6) by fastforce
  note f = file_zones_cong [OF this]
  have i: "file_zones ?b ?i = z # zs" "pointer_zones ?b ?i = pointer_zones bs ino"
    using f assms(4) by (simp_all add: zones_of_size)
  have l: "in_disk ?b = in_disk bs" using rewritten_layout(1) [OF assms(1-3)] by (simp add: in_disk_def fun_eq_iff)
  show "zones_ok ?b ?i" unfolding zones_ok_def i l using assms(4,6) by (auto simp: list_all_iff data_zone_def)
  have d: "1024 * unat z + 1024 \<le> length bs" using assms(2) by (simp add: data_zone_def in_disk_def)
  have "block_at ?b z = take 1024 (drop (1024 * unat z) (splice (1024 * unat z) xs bs))"
    using rewritten_block [OF assms(1-3,2), of v] by (simp add: block_at_def)
  then have b: "take (length xs) (block_at ?b z) = xs"
    using take_drop_splice [of "1024 * unat z" xs bs] d assms(3) by (simp add: min_def)
  have "length (block_at ?b z) = 1024" using assms(2) l by (simp add: data_zone_def)
  then show "take (length xs) (file_bytes ?b ?i) = xs" using b assms(3) by (simp add: file_bytes_def i)
qed

lemma cache_at_finite:
  assumes "cache_at depth E btm cwd n bdev d = Some btm'" "finite (dom btm)" shows "finite (dom btm')"
  using assms
proof (induction depth arbitrary: btm cwd n btm')
  case (Suc depth)
  obtain buf k where loop: "for_each (cache_entry (\<lambda>b p k. cache_at depth E b p k bdev d) E cwd n bdev d buf) [2..<k] btm = Some btm'"
    by (rule cache_at_loop [OF Suc.prems(1)])
  show ?case
  proof (rule for_each_keeps [where P = "\<lambda>b. finite (dom b)", OF loop Suc.prems(2)])
    fix i b b' assume b: "finite (dom b)" and e: "cache_entry (\<lambda>b p k. cache_at depth E b p k bdev d) E cwd n bdev d buf i b = Some b'"
    show "finite (dom b')" using cache_entry_cases [OF e] Suc.IH b by fastforce
  qed
qed simp

end
