(* ===== verification/Buffers.thy ===== *)
theory Buffers
  imports Kmem_Heap Cpu
begin

text \<open>
  \<^verbatim>\<open>buffer.rs\<close>: byte buffers on the kernel heap that free themselves. The file system model works on the contents of its buffers;
  here a buffer is the pointer and the length that the code has, on the heap of \<^verbatim>\<open>kmem.rs\<close>.
\<close>

section \<open>Operations\<close>

record kbuffer =
  kb_buffer :: usize
  kb_len :: usize

definition KBuffer_new :: "usize \<Rightarrow> 'a kmem_st_scheme \<Rightarrow> (kbuffer \<times> 'a kmem_st_scheme) option" where
  "KBuffer_new sz s = do {
     (p, s) \<leftarrow> kmalloc sz s;
     Some (\<lparr>kb_buffer = p, kb_len = sz\<rparr>, s)
   }"

definition KBuffer_get_mut :: "kbuffer \<Rightarrow> usize" where "KBuffer_get_mut b = kb_buffer b"
definition KBuffer_get :: "kbuffer \<Rightarrow> usize" where "KBuffer_get b = kb_buffer b"
definition KBuffer_len :: "kbuffer \<Rightarrow> usize" where "KBuffer_len b = kb_len b"

definition KBuffer_default :: "'a kmem_st_scheme \<Rightarrow> (kbuffer \<times> 'a kmem_st_scheme) option" where
  "KBuffer_default s = KBuffer_new 1024 s"

text \<open>\<^verbatim>\<open>as_ref\<close> is \<^verbatim>\<open>None\<close> for a null pointer only; there is no check against the length.\<close>

definition KBuffer_index :: "kbuffer \<Rightarrow> usize \<Rightarrow> 'a kmem_st_scheme \<Rightarrow> u8 option" where
  "KBuffer_index b idx s = (let p = KBuffer_get b + idx in if p = null_mut then None else Some (memory s p))"

definition KBuffer_index_mut :: "kbuffer \<Rightarrow> usize \<Rightarrow> u8 \<Rightarrow> 'a kmem_st_scheme \<Rightarrow> 'a kmem_st_scheme option" where
  "KBuffer_index_mut b idx v s =
     (let p = KBuffer_get_mut b + idx in if p = null_mut then None else Some (s\<lparr>memory := (memory s)(p := v)\<rparr>))"

definition KBuffer_clone :: "kbuffer \<Rightarrow> 'a kmem_st_scheme \<Rightarrow> (kbuffer \<times> 'a kmem_st_scheme) option" where
  "KBuffer_clone b s = do {
     (p, s) \<leftarrow> kmalloc (KBuffer_len b) s;
     let new = \<lparr>kb_buffer = p, kb_len = KBuffer_len b\<rparr>;
     Some (new, s\<lparr>memory := memcpy (memory s) (KBuffer_get_mut new) (KBuffer_get b) (KBuffer_len b)\<rparr>)
   }"

definition KBuffer_drop :: "kbuffer \<Rightarrow> 'a kmem_st_scheme \<Rightarrow> (kbuffer \<times> 'a kmem_st_scheme) option" where
  "KBuffer_drop b s =
     (if kb_buffer b \<noteq> null_mut then do {
        s \<leftarrow> kfree (kb_buffer b) s;
        Some (b\<lparr>kb_buffer := null_mut\<rparr>, s)
      } else Some (b, s))"

section \<open>Buffers in use\<close>

text \<open>A buffer owns a payload of the heap that is large enough; its contents are the first bytes of it.\<close>

definition buffer_ok :: "kbuffer \<Rightarrow> 'a kmem_st_scheme \<Rightarrow> bool" where
  "buffer_ok b s \<longleftrightarrow> (\<exists>k \<ge> unat (kb_len b). (kb_buffer b, k) \<in> payloads s)"

definition buffer_bytes :: "kbuffer \<Rightarrow> 'a kmem_st_scheme \<Rightarrow> u8 list" where
  "buffer_bytes b s = load_bytes (memory s) (kb_buffer b) (unat (kb_len b))"

lemma payload_bounds:
  assumes "kmem_inv s" "(p, k) \<in> payloads s"
  shows "unat p + k < 2 ^ 64" "p \<noteq> 0"
proof -
  obtain cs off z where c: "kmem_chunks s cs" "(off, z) \<in> taken_chunks 0 cs" "p = KMEM_HEAD s + of_nat (off + 8)" "k = z - 8"
    using assms payloads_eq by (fastforce simp: kmem_inv_def)
  note pl = taken_chunk_place [OF c(1,2)]
  have "unat (KMEM_HEAD s) + heap_len s < 2 ^ 64" "0 < unat (KMEM_HEAD s)"
    using c(1) by (auto simp: kmem_chunks_def word_less_nat_alt)
  then show "unat p + k < 2 ^ 64" "p \<noteq> 0"
    using pl(1,4,5) c(3,4) by (auto simp del: of_nat_add simp: unat_eq_0 [symmetric])
qed

text \<open>Writing inside one payload keeps the heap and all other payloads.\<close>

lemma write_payload:
  assumes inv: "kmem_inv s" and p: "(p, k) \<in> payloads s" and bs: "length bs \<le> k"
  shows "kmem_inv (s\<lparr>memory := store_bytes (memory s) p bs\<rparr>)" (is "kmem_inv ?s")
    and "payloads (s\<lparr>memory := store_bytes (memory s) p bs\<rparr>) = payloads s"
    and "(q, l) \<in> payloads s \<Longrightarrow> (q, l) \<noteq> (p, k) \<Longrightarrow> payload_bytes (s\<lparr>memory := store_bytes (memory s) p bs\<rparr>) q l = payload_bytes s q l"
proof -
  obtain cs off z where c: "kmem_chunks s cs" "(off, z) \<in> taken_chunks 0 cs" "p = KMEM_HEAD s + of_nat (off + 8)" "k = z - 8"
    using inv p payloads_eq by (fastforce simp: kmem_inv_def)
  have "store_bytes (memory s) p bs x = memory s x" if "\<not> in_region p k x" for x
    using that bs by (simp add: store_bytes_def in_region_def)
  then have ch: "kmem_chunks ?s cs" using c by (intro payload_write [OF c(1,2)]) (simp del: of_nat_add)
  then show "kmem_inv ?s" by (auto simp: kmem_inv_def)
  show "payloads ?s = payloads s" using payloads_eq [OF ch] payloads_eq [OF c(1)] by simp
  assume q: "(q, l) \<in> payloads s" "(q, l) \<noteq> (p, k)"
  then have "disjoint_regions p k q l" using heap.live_apart [OF inv p q(1)] by auto
  then have "disjoint_regions p (length bs) q l" by (rule disjoint_regions_mono) (use bs in simp_all)
  then show "payload_bytes ?s q l = payload_bytes s q l" by (simp add: payload_bytes_def load_store_bytes_disjoint)
qed

lemma buffer_bytes_keep:
  assumes "(kb_buffer b, k) \<in> payloads s" "unat (kb_len b) \<le> k" "payload_bytes s' (kb_buffer b) k = payload_bytes s (kb_buffer b) k"
  shows "buffer_bytes b s' = buffer_bytes b s"
  using arg_cong [OF assms(3), of "take (unat (kb_len b))"] assms(2) by (simp add: buffer_bytes_def payload_bytes_def take_load_bytes)

lemma memcpy_len_take: "take (memcpy_len n) (load_bytes m a n) = load_bytes m a (memcpy_len n)"
  by (rule take_load_bytes) (rule memcpy_len_le)

text \<open>What \<^verbatim>\<open>clone\<close> does when there is memory.\<close>

lemma clone_copies:
  assumes inv: "kmem_inv s" and b: "(kb_buffer b, k) \<in> payloads s" "unat (kb_len b) \<le> k" and len: "unat (kb_len b) + 15 < 2 ^ 64"
    and ml: "kmalloc (kb_len b) s = Some (p, s1)" and p: "p \<noteq> 0"
  obtains s' j where "KBuffer_clone b s = Some (\<lparr>kb_buffer = p, kb_len = kb_len b\<rparr>, s')" "kmem_inv s'" "unat (kb_len b) \<le> j"
    "payloads s' = insert (p, j) (payloads s)" "(p, j) \<notin> payloads s"
    "\<And>q l. (q, l) \<in> payloads s \<Longrightarrow> payload_bytes s' q l = payload_bytes s q l"
    "load_bytes (memory s') p (memcpy_len (unat (kb_len b))) = take (memcpy_len (unat (kb_len b))) (buffer_bytes b s)"
proof -
  let ?n = "unat (kb_len b)"
  have "kmem_inv s1 \<and> (\<exists>j \<ge> ?n. payloads s1 = insert (p, j) (payloads s) \<and> (p, j) \<notin> payloads s)
      \<and> (\<forall>(q, l) \<in> payloads s. payload_bytes s1 q l = payload_bytes s q l)"
    by (rule heap.malloc_block [OF inv len ml p])
  then obtain j where s1: "kmem_inv s1" "?n \<le> j" "payloads s1 = insert (p, j) (payloads s)" "(p, j) \<notin> payloads s"
    "\<And>q l. (q, l) \<in> payloads s \<Longrightarrow> payload_bytes s1 q l = payload_bytes s q l" by blast
  have pj: "(p, j) \<in> payloads s1" using s1(3) by simp
  have d: "disjoint_regions p j (kb_buffer b) k" using heap.live_apart [OF s1(1) pj, of "kb_buffer b" k] s1(3,4) b(1) by auto
  let ?bs = "load_bytes (memory s1) (kb_buffer b) (memcpy_len ?n)"
  let ?s = "s1\<lparr>memory := store_bytes (memory s1) p ?bs\<rparr>"
  have l: "length ?bs \<le> j" using s1(2) memcpy_len_le [of ?n] by simp
  have "memcpy (memory s1) p (kb_buffer b) (kb_len b) = store_bytes (memory s1) p ?bs"
    by (rule memcpy_eq [OF disjoint_regions_mono [OF d s1(2) b(2)]])
  then have e: "KBuffer_clone b s = Some (\<lparr>kb_buffer = p, kb_len = kb_len b\<rparr>, ?s)"
    using ml by (simp add: KBuffer_clone_def KBuffer_len_def KBuffer_get_def KBuffer_get_mut_def)
  note w = write_payload [OF s1(1) pj l]
  have old: "payload_bytes ?s q l' = payload_bytes s q l'" if q: "(q, l') \<in> payloads s" for q l'
  proof -
    have "(q, l') \<in> payloads s1" "(q, l') \<noteq> (p, j)" using q s1(3,4) by auto
    then show ?thesis using w(3) s1(5) [OF q] by simp
  qed
  have "load_bytes (memory ?s) p (memcpy_len ?n) = ?bs"
    using load_store_bytes [of ?bs "memory s1" p] memcpy_len_le [of ?n] unat_lt_2p64 [of "kb_len b"] by simp
  moreover have "buffer_bytes b s1 = buffer_bytes b s" by (rule buffer_bytes_keep [OF b s1(5) [OF b(1)]])
  then have "?bs = take (memcpy_len ?n) (buffer_bytes b s)" unfolding buffer_bytes_def memcpy_len_take [symmetric] by simp
  ultimately show thesis using that [OF e w(1) s1(2) _ s1(4) old] w(2) s1(3) by simp
qed

section \<open>Properties\<close>

text \<open>
  C34: cloning a buffer, and dropping the clone. When the heap has room, the clone is a buffer of its own, apart from every allocation, and
  every allocation keeps its bytes; its bytes are those of the original as far as \<^verbatim>\<open>memcpy\<close> copies, that is all of
  them if the length is a multiple of 8 or less than 8, and otherwise all but the last \<open>length mod 8\<close>. Dropping the clone frees
  exactly it, and the original is as before.
\<close>
theorem buffer_clone_drop:
  assumes "kmem_inv s" and "buffer_ok b s" and "unat (kb_len b) + 15 < 2 ^ 64"
    and "kmalloc (kb_len b) s = Some (p, s1)" and "p \<noteq> null_mut"
  shows "\<exists>c s2 s3 n. KBuffer_clone b s = Some (c, s2) \<and> kmem_inv s2 \<and> buffer_ok c s2 \<and> buffer_ok b s2 \<and> kb_len c = kb_len b
     \<and> disjoint_regions (kb_buffer c) (unat (kb_len c)) (kb_buffer b) (unat (kb_len b))
     \<and> n = (if unat (kb_len b) < 8 then unat (kb_len b) else unat (kb_len b) - unat (kb_len b) mod 8)
     \<and> take n (buffer_bytes c s2) = take n (buffer_bytes b s) \<and> buffer_bytes b s2 = buffer_bytes b s
     \<and> KBuffer_drop c s2 = Some (c\<lparr>kb_buffer := null_mut\<rparr>, s3) \<and> kmem_inv s3 \<and> payloads s3 = payloads s
     \<and> (\<forall>(q, l) \<in> payloads s. payload_bytes s3 q l = payload_bytes s q l) \<and> buffer_bytes b s3 = buffer_bytes b s"
proof -
  let ?l = "unat (kb_len b)" and ?c = "\<lparr>kb_buffer = p, kb_len = kb_len b\<rparr>"
  obtain k where k: "(kb_buffer b, k) \<in> payloads s" "?l \<le> k" using assms(2) by (auto simp: buffer_ok_def)
  have p: "p \<noteq> 0" using assms(5) by (simp add: null_mut_def)
  obtain s2 j where s2: "KBuffer_clone b s = Some (?c, s2)" "kmem_inv s2" "?l \<le> j" "payloads s2 = insert (p, j) (payloads s)" "(p, j) \<notin> payloads s"
    "\<And>q l. (q, l) \<in> payloads s \<Longrightarrow> payload_bytes s2 q l = payload_bytes s q l"
    "load_bytes (memory s2) p (memcpy_len ?l) = take (memcpy_len ?l) (buffer_bytes b s)"
    using clone_copies [OF assms(1) k assms(3,4) p] by blast
  obtain s3 where s3: "kfree p s2 = Some s3" "kmem_inv s3" "payloads s3 = payloads s"
    "\<forall>(q, l) \<in> payloads s. payload_bytes s3 q l = payload_bytes s2 q l"
    using heap.free_block [OF s2(2), of p j] s2(4,5) by auto
  have "disjoint_regions p j (kb_buffer b) k" using heap.live_apart [OF s2(2), of p j "kb_buffer b" k] s2(4,5) k(1) by auto
  then have "disjoint_regions p ?l (kb_buffer b) ?l" by (rule disjoint_regions_mono [OF _ s2(3) k(2)])
  moreover have n: "memcpy_len ?l = (if ?l < 8 then ?l else ?l - ?l mod 8)"
    by (simp add: memcpy_len_def minus_mod_eq_mult_div)
  moreover have "take (memcpy_len ?l) (buffer_bytes ?c s2) = take (memcpy_len ?l) (buffer_bytes b s)"
    using s2(7) by (simp add: buffer_bytes_def memcpy_len_take)
  moreover have "buffer_bytes b s2 = buffer_bytes b s" by (rule buffer_bytes_keep [OF k s2(6) [OF k(1)]])
  moreover have "buffer_bytes b s3 = buffer_bytes b s" by (rule buffer_bytes_keep [OF k]) (use s3(4) s2(6) k(1) in auto)
  moreover have "KBuffer_drop ?c s2 = Some (?c\<lparr>kb_buffer := null_mut\<rparr>, s3)" using s3(1) assms(5) by (simp add: KBuffer_drop_def)
  moreover have "buffer_ok ?c s2" "buffer_ok b s2" using s2(3,4) k by (auto simp: buffer_ok_def)
  ultimately show ?thesis using s2(1,2,6) s3(2-4) by (intro exI [of _ ?c] exI [of _ s2] exI [of _ s3] exI [of _ "memcpy_len ?l"]) auto
qed

theorem buffer_clone_drop_witness:
  "\<exists>s c s2. kmalloc 100 example_kmem = Some (0x1008, s) \<and> KBuffer_clone \<lparr>kb_buffer = 0x1008, kb_len = 100\<rparr> s = Some (c, s2)
     \<and> kb_buffer c \<noteq> 0x1008 \<and> take 96 (buffer_bytes c s2) = take 96 (buffer_bytes \<lparr>kb_buffer = 0x1008, kb_len = 100\<rparr> s)"
proof -
  let ?b = "\<lparr>kb_buffer = 0x1008, kb_len = 100\<rparr>"
  obtain m where a: "kmalloc 100 example_kmem = Some (0x1008, example_kmem\<lparr>memory := m\<rparr>)"
    "kmem_chunks (example_kmem\<lparr>memory := m\<rparr>) [(112, True), (3984, False)]"
    using example_kmem_malloc by blast
  let ?s = "example_kmem\<lparr>memory := m\<rparr>"
  have "KMEM_HEAD example_kmem + of_nat (0 + 8) = 0x1008" by (simp add: example_kmem_def)
  then have ok: "buffer_ok ?b ?s" using payloads_eq [OF a(2)] by (simp add: buffer_ok_def)
  have inv: "kmem_inv ?s" using a(2) by (auto simp: kmem_inv_def)
  have len: "unat (kb_len ?b) + 15 < 2 ^ 64" by simp
  have "first_fit (chunk_need (unat (100 :: usize))) [(112, True), (3984, False)] \<noteq> None" by (simp add: chunk_need_def)
  then obtain p s1 where p: "kmalloc (kb_len ?b) ?s = Some (p, s1)" "p \<noteq> null_mut"
    using kmalloc_total [OF a(2), of 100] by (fastforce simp: null_mut_def)
  from buffer_clone_drop [OF inv ok len p] obtain c s2 where "KBuffer_clone ?b ?s = Some (c, s2)"
    "disjoint_regions (kb_buffer c) (unat (kb_len c)) (kb_buffer ?b) (unat (kb_len ?b))" "kb_len c = kb_len ?b"
    "take 96 (buffer_bytes c s2) = take 96 (buffer_bytes ?b ?s)" by auto
  then show ?thesis using a(1) by (auto simp: disjoint_regions_def)
qed

text \<open>
  Without memory the clone is null, and the copy goes to address 0: neither \<^verbatim>\<open>new\<close> nor \<^verbatim>\<open>clone\<close> checks what
  \<^verbatim>\<open>kmalloc\<close> returns.
\<close>

lemma clone_without_memory:
  assumes "kmem_chunks s cs" and "first_fit (chunk_need (unat (kb_len b))) cs = None" and "buffer_ok b s"
    and "unat (kb_len b) + 15 < 2 ^ 64" and "unat (kb_len b) \<le> unat (kb_buffer b)"
  shows "KBuffer_clone b s = Some (\<lparr>kb_buffer = null_mut, kb_len = kb_len b\<rparr>,
    s\<lparr>memory := store_bytes (memory s) 0 (take (memcpy_len (unat (kb_len b))) (buffer_bytes b s))\<rparr>)"
proof -
  obtain k where k: "(kb_buffer b, k) \<in> payloads s" "unat (kb_len b) \<le> k" using assms(3) by (auto simp: buffer_ok_def)
  have "kmem_inv s" using assms(1) by (auto simp: kmem_inv_def)
  then have "unat (kb_buffer b) + unat (kb_len b) < 2 ^ 64" using payload_bounds(1) [OF _ k(1)] k(2) by simp
  then have "disjoint_regions 0 (unat (kb_len b)) (kb_buffer b) (unat (kb_len b))"
    using assms(5) by (simp add: disjoint_regions_def)
  moreover have "kmalloc (kb_len b) s = Some (0, s)" using kmalloc_total(2) [OF assms(1,4)] assms(2) by simp
  ultimately show ?thesis
    by (simp add: KBuffer_clone_def KBuffer_len_def KBuffer_get_def KBuffer_get_mut_def memcpy_eq null_mut_def buffer_bytes_def memcpy_len_take)
qed

text \<open>Indexing reads and writes the contents, and just as well the bytes behind them.\<close>

lemma buffer_index:
  assumes "kmem_inv s" "buffer_ok b s" "i < unat (kb_len b)"
  shows "KBuffer_index b (of_nat i) s = Some (buffer_bytes b s ! i)"
    and "\<exists>s'. KBuffer_index_mut b (of_nat i) v s = Some s' \<and> kmem_inv s' \<and> payloads s' = payloads s \<and> buffer_bytes b s' = (buffer_bytes b s)[i := v]"
proof -
  obtain k where k: "(kb_buffer b, k) \<in> payloads s" "unat (kb_len b) \<le> k" using assms(2) by (auto simp: buffer_ok_def)
  note pb = payload_bounds [OF assms(1) k(1)]
  let ?p = "kb_buffer b + of_nat i" and ?bs = "(load_bytes (memory s) (kb_buffer b) (unat (kb_len b)))[i := v]"
  have "unat ?p = unat (kb_buffer b) + i" using pb(1) k(2) assms(3) by (intro unat_add_of_nat) linarith
  then have nn: "?p \<noteq> null_mut" using pb(2) unat_eq_0 [of "kb_buffer b"] by (auto simp: null_mut_def)
  then show "KBuffer_index b (of_nat i) s = Some (buffer_bytes b s ! i)"
    using assms(3) by (simp add: KBuffer_index_def KBuffer_get_def buffer_bytes_def)
  have eq: "(memory s)(?p := v) = store_bytes (memory s) (kb_buffer b) ?bs"
  proof
    fix x
    have u: "unat (of_nat i :: usize) = i"
      using assms(3) unat_lt_2p64 [of "kb_len b"] by (intro unat_of_nat_small) simp
    have "x = ?p \<longleftrightarrow> x - kb_buffer b = of_nat i" by (metis add.commute diff_add_cancel add_diff_cancel_left')
    also have "\<dots> \<longleftrightarrow> unat (x - kb_buffer b) = i" unfolding word_unat_eq_iff u ..
    finally show "((memory s)(?p := v)) x = store_bytes (memory s) (kb_buffer b) ?bs x"
      using assms(3) by (auto simp: store_bytes_def in_region_def nth_list_update)
  qed
  have l: "length ?bs \<le> k" using k(2) by simp
  note w = write_payload [OF assms(1) k(1) l]
  have "buffer_bytes b (s\<lparr>memory := store_bytes (memory s) (kb_buffer b) ?bs\<rparr>) = (buffer_bytes b s)[i := v]"
    using load_store_bytes [of ?bs "memory s" "kb_buffer b"] unat_lt_2p64 [of "kb_len b"] by (simp add: buffer_bytes_def)
  then show "\<exists>s'. KBuffer_index_mut b (of_nat i) v s = Some s' \<and> kmem_inv s' \<and> payloads s' = payloads s \<and> buffer_bytes b s' = (buffer_bytes b s)[i := v]"
    using nn w(1,2) eq by (simp add: KBuffer_index_mut_def KBuffer_get_mut_def)
qed

end
