(* ===== verification/Test_Program.thy ===== *)
theory Test_Program
  imports Fs_Update Buffers Block "HOL-Library.List_Lexorder"
begin

text \<open>
  \<^verbatim>\<open>test.rs\<close>, the kernel process that exercises the file system and the block driver, and the two routines of \<^verbatim>\<open>fs.rs\<close> that it
  prints with. What is printed is modelled by its values. The file system works on its disk, the block driver on the memory
  of the kernel; a byte vector that only carries a string into the file system is the list of its bytes.
\<close>

section \<open>Printing\<close>

definition show_fs_info :: "'d env \<Rightarrow> usize \<Rightarrow> 'd \<Rightarrow> SuperBlock option option" where
  "show_fs_info E bdev d = do {
     let buffer = Buffer_new E 1024;
     (_, buffer) \<leftarrow> syc_read E bdev buffer 512 1024 d;
     let super_block = superblock_of buffer;
     Some (if sb_magic super_block = MAGIC then Some super_block else None)
   }"

text \<open>The cache is a \<^verbatim>\<open>BTreeMap\<close>: it is traversed in the order of the paths.\<close>

definition show_all_file_paths :: "usize \<Rightarrow> 'd fs_st \<Rightarrow> rust_string list option" where
  "show_all_file_paths bdev s = do {
     i \<leftarrow> cache_slot bdev s;
     Some (case MFS_INODE_CACHE s ! i of None \<Rightarrow> [] | Some cache \<Rightarrow> sorted_list_of_set (dom cache))
   }"

definition ascii :: "string \<Rightarrow> rust_string" where "ascii = map of_char"

definition print_divider :: "string \<Rightarrow> rust_string option" where
  "print_divider s = do {
     let string_length = (of_nat (length s) :: usize);
     l \<leftarrow> usub 40 string_length;
     l \<leftarrow> usub l 6;
     let padding_length = l div 2;
     let left_padding = replicate (unat padding_length) 32;
     r \<leftarrow> uadd padding_length (if string_length mod 2 = 0 then 0 else 1);
     let right_padding = replicate (unat r) 32;
     Some (ascii ''-----------------------<'' @ left_padding @ [32] @ ascii s @ [32] @ right_padding
       @ ascii ''>-----------------------'')
   }"

section \<open>Tests of the file system\<close>

definition unwrap :: "'e + 'a \<Rightarrow> 'a option" where
  "unwrap r = (case r of Inl _ \<Rightarrow> None | Inr x \<Rightarrow> Some x)"

text \<open>The system call \<^verbatim>\<open>read\<close> of a kernel process, which waits until another process has read the file.\<close>

definition test_read_file_with_inode :: "'d env \<Rightarrow> u32 \<Rightarrow> 'd \<Rightarrow> u8 list option" where
  "test_read_file_with_inode E inode_num d = do {
     _ \<leftarrow> print_divider ''Reading from file'';
     let buffer = Buffer_new E (unat BLOCK_SIZE);
     inode \<leftarrow> get_inode E 8 inode_num d;
     inode \<leftarrow> inode;
     (bytes_read, buffer) \<leftarrow> fs_read E 8 inode buffer BLOCK_SIZE 0 d;
     assert_that (unat bytes_read \<le> length buffer);
     Some (take (unat bytes_read) buffer)
   }"

definition test_find_free_inode :: "'d env \<Rightarrow> 'd \<Rightarrow> u32 option" where
  "test_find_free_inode E d = do {
     _ \<leftarrow> print_divider ''Finding next free inode'';
     num \<leftarrow> find_free_inode E 8 d;
     num
   }"

text \<open>The size of the file, the number of bytes read, and these bytes.\<close>

definition test_open_file :: "'d env \<Rightarrow> rust_string \<Rightarrow> 'd fs_st \<Rightarrow> (u32 \<times> u32 \<times> u8 list) option" where
  "test_open_file E path s = do {
     _ \<leftarrow> print_divider ''Open and read file'';
     let buffer = Buffer_new E (unat BLOCK_SIZE);
     r \<leftarrow> fs_open 8 path s;
     inode \<leftarrow> unwrap r;
     (read_size, buffer) \<leftarrow> fs_read E 8 inode buffer BLOCK_SIZE 0 (dev s);
     assert_that (unat read_size \<le> length buffer);
     Some (i_size inode, read_size, take (unat read_size) buffer)
   }"

text \<open>The new size goes straight to the place that \<^verbatim>\<open>get_inode_offset\<close> computes.\<close>

definition test_write_file :: "nat \<Rightarrow> 'd env \<Rightarrow> rust_string \<Rightarrow> u8 list \<Rightarrow> u32 \<Rightarrow> 'd fs_st \<Rightarrow> (u32 \<times> 'd fs_st) option" where
  "test_write_file depth E file_path content inode_num s = do {
     _ \<leftarrow> print_divider ''Writing to file'';
     r \<leftarrow> fs_open 8 file_path s;
     inode \<leftarrow> unwrap r;
     let len = of_nat (length content);
     (bytes_write, inode, d) \<leftarrow> fs_write E 8 inode content len 0 (dev s);
     offset \<leftarrow> get_inode_offset (ucast inode_num);
     (_, d) \<leftarrow> syc_write E 8 (to_le 4 len) 4 (ucast offset) d;
     s \<leftarrow> refresh depth E 8 (s\<lparr>dev := d\<rparr>);
     Some (bytes_write, s)
   }"

definition test_delete_file :: "nat \<Rightarrow> 'd env \<Rightarrow> rust_string \<Rightarrow> u32 \<Rightarrow> 'd fs_st \<Rightarrow> 'd fs_st option" where
  "test_delete_file depth E file_path inode_num s = do {
     _ \<leftarrow> print_divider ''Delete file'';
     fs_delete depth E 8 file_path (ucast inode_num) s
   }"

definition test_create_file :: "nat \<Rightarrow> 'd env \<Rightarrow> rust_string \<Rightarrow> rust_string \<Rightarrow> 'd fs_st \<Rightarrow> 'd fs_st option" where
  "test_create_file depth E dir filename s = do {
     _ \<leftarrow> print_divider ''Create file'';
     fs_create depth E 8 dir filename s
   }"

definition show_inode_stat :: "Inode \<Rightarrow> Stat" where
  "show_inode_stat inode = fs_stat inode"

definition test_func :: "'d env \<Rightarrow> 'd \<Rightarrow> (usize \<times> usize \<times> 'd) option" where
  "test_func E d = do {
     a \<leftarrow> get_imap_offset 2;
     b \<leftarrow> get_inode_offset 2;
     (_, d) \<leftarrow> syc_write E 8 (ascii ''ok'') 2 0xae010 d;
     Some (a, b, d)
   }"

section \<open>Tests of the block driver\<close>

text \<open>The request is not waited for: the bytes are printed, and the buffer is dropped, as soon as the request is in the queue.\<close>

definition test_block_driver :: "'a block_st_scheme \<Rightarrow> (u8 list \<times> 'a block_st_scheme) option" where
  "test_block_driver s = do {
     _ \<leftarrow> print_divider ''Testing block driver'';
     (buffer, s) \<leftarrow> KBuffer_new (ucast BLOCK_SIZE) s;
     (_, s) \<leftarrow> block_read 8 (KBuffer_get_mut buffer) (ucast (KBuffer_len buffer)) 0x400 s;
     let out = load_bytes (memory s) (KBuffer_get_mut buffer) 48;
     (_, s) \<leftarrow> KBuffer_drop buffer s;
     Some (out, s)
   }"

text \<open>The byte vector is freed by hand, and again when it goes out of scope.\<close>

definition test_write_block :: "'a block_st_scheme \<Rightarrow> (u8 list \<times> 'a block_st_scheme) option" where
  "test_write_block s = do {
     _ \<leftarrow> print_divider ''Write to block'';
     let test_string = ascii ''Hello, block!.................'';
     (buffer, s) \<leftarrow> OsGlobalAlloc_alloc (of_nat (length test_string)) s;
     assert_that (buffer \<noteq> null_mut);
     let s = s\<lparr>memory := store_bytes (memory s) buffer test_string\<rparr>;
     (_, s) \<leftarrow> block_write 8 buffer 512 0xadc00 s;
     s \<leftarrow> kfree buffer s;
     (read_buffer, s) \<leftarrow> KBuffer_new (ucast BLOCK_SIZE) s;
     (_, s) \<leftarrow> block_read 8 (KBuffer_get_mut read_buffer) (ucast (KBuffer_len read_buffer)) 0xadc00 s;
     let out = load_bytes (memory s) (KBuffer_get_mut read_buffer) (length test_string);
     (_, s) \<leftarrow> KBuffer_drop read_buffer s;
     s \<leftarrow> OsGlobalAlloc_dealloc buffer s;
     Some (out, s)
   }"

section \<open>The whole program\<close>

datatype report =
    Super_Info "SuperBlock option"
  | Paths "rust_string list"
  | Bytes "u8 list"
  | File_Report rust_string "u32 \<times> u32 \<times> u8 list"
  | Written u32

definition test :: "nat \<Rightarrow> 'd env \<Rightarrow> 'd fs_st \<times> 'a block_st_scheme \<Rightarrow> (report list \<times> 'd fs_st \<times> 'a block_st_scheme) option" where
  "test depth E = (\<lambda>(s, k). do {
     s \<leftarrow> fs_init depth E 8 s;
     info \<leftarrow> show_fs_info E 8 (dev s);
     s \<leftarrow> test_create_file depth E (ascii ''/'') (ascii ''hello.txt'') s;
     paths \<leftarrow> show_all_file_paths 8 s;
     (raw, k) \<leftarrow> test_block_driver k;
     five \<leftarrow> test_read_file_with_inode E 5 (dev s);
     hello \<leftarrow> test_open_file E (ascii ''/hello.txt'') s;
     other \<leftarrow> test_open_file E (ascii ''/my_folder/file_3.txt'') s;
     (n, s) \<leftarrow> test_write_file depth E (ascii ''/hello.txt'') (ascii ''Can you fry eggs on mount Everest?......'') 2 s;
     hello' \<leftarrow> test_open_file E (ascii ''/hello.txt'') s;
     s \<leftarrow> test_delete_file depth E (ascii ''/file.txt'') 3 s;
     paths' \<leftarrow> show_all_file_paths 8 s;
     Some ([Super_Info info, Paths paths, Bytes raw, Bytes five, File_Report (ascii ''/hello.txt'') hello,
            File_Report (ascii ''/my_folder/file_3.txt'') other, Written n, File_Report (ascii ''/hello.txt'') hello', Paths paths'], s, k)
   })"

section \<open>Listing and dividers\<close>

text \<open>A title of up to 34 characters does not panic, and every line has the same length.\<close>

lemma print_divider_returns:
  assumes "length s \<le> 34"
  shows "\<exists>line. print_divider s = Some line \<and> length line = 84"
proof -
  have u: "unat (of_nat (length s) :: usize) = length s" using assms by (intro unat_of_nat_small) simp
  have a: "usub 40 (of_nat (length s) :: usize) = Some (40 - of_nat (length s))" "unat (40 - of_nat (length s) :: usize) = 40 - length s"
    using assms u unat_sub [of "of_nat (length s)" "40 :: usize"] by (simp_all add: usub_def word_le_nat_alt)
  let ?l = "(40 - of_nat (length s) :: usize) - 6"
  have b: "usub (40 - of_nat (length s) :: usize) 6 = Some ?l" "unat ?l = 34 - length s"
    using assms a(2) unat_sub [of "6 :: usize" "40 - of_nat (length s)"] by (simp_all add: usub_def word_le_nat_alt)
  let ?odd = "if (of_nat (length s) :: usize) mod 2 = 0 then 0 else 1 :: usize"
  have p: "unat (?l div 2) = (34 - length s) div 2" using b(2) by (simp add: unat_div)
  have o: "unat ?odd = length s mod 2"
  proof -
    have "unat ((of_nat (length s) :: usize) mod 2) = length s mod 2" using u by (simp add: unat_mod)
    moreover have "length s mod 2 = 0 \<or> length s mod 2 = 1" by auto
    ultimately show ?thesis by (auto simp: word_unat_eq_iff)
  qed
  have r: "uadd (?l div 2) ?odd = Some (?l div 2 + ?odd)" "unat (?l div 2 + ?odd) = (34 - length s) div 2 + length s mod 2"
    using p o unat_add_no_wrap [of "?l div 2" ?odd] by (simp_all add: uadd_def)
  have "(34 - length s) div 2 + (34 - length s) div 2 + length s mod 2 + length s = 34" using assms by presburger
  then show ?thesis using a(1) b(1) p r by (simp add: print_divider_def ascii_def)
qed

text \<open>After \<^verbatim>\<open>refresh\<close> the listing has the paths of all files of the tree, in order and without repetition.\<close>

lemma listing_of_tree:
  assumes "refresh depth E bdev s = Some s'"
  shows "\<exists>ps. show_all_file_paths bdev s' = Some ps \<and> sorted ps \<and> distinct ps \<and> set ps = {p. \<exists>k. file_no E bdev (dev s) [47] 1 p k}"
proof -
  obtain btm i where r: "cache_at depth E Map.empty [47] 1 bdev (dev s) = Some btm" "cache_slot bdev s = Some i"
    "s' = s\<lparr>MFS_INODE_CACHE := (MFS_INODE_CACHE s)[i := Some btm]\<rparr>"
    using assms by (auto simp: refresh_def split: Option.bind_splits)
  have i: "i < length (MFS_INODE_CACHE s)" "cache_slot bdev s' = Some i"
    using cache_slot_index [OF r(2)] r(2,3) by (auto simp: cache_slot_def assert_that_def split: Option.bind_splits if_splits)
  have fin: "finite (dom btm)" using cache_at_finite [OF r(1)] by simp
  have inode: "\<exists>ino. get_inode E bdev k (dev s) = Some (Some ino)" if "file_no E bdev (dev s) c n p k" for c n p k
    using that by (induction rule: file_no.induct) auto
  have "p \<in> dom btm \<longleftrightarrow> (\<exists>k. file_no E bdev (dev s) [47] 1 p k)" for p
  proof
    assume "p \<in> dom btm"
    then show "\<exists>k. file_no E bdev (dev s) [47] 1 p k" using cache_at_sound [OF r(1)] by (fastforce simp: file_at_no)
  next
    assume "\<exists>k. file_no E bdev (dev s) [47] 1 p k"
    then obtain k ino where "file_no E bdev (dev s) [47] 1 p k" "get_inode E bdev k (dev s) = Some (Some ino)" using inode by blast
    then have "file_at E bdev (dev s) [47] 1 p ino" by (auto simp: file_at_no)
    then show "p \<in> dom btm" by (rule cache_at_complete [OF _ r(1)])
  qed
  then have "dom btm = {p. \<exists>k. file_no E bdev (dev s) [47] 1 p k}" by blast
  moreover have "show_all_file_paths bdev s' = Some (sorted_list_of_set (dom btm))" using i r(3) by (simp add: show_all_file_paths_def)
  ultimately show ?thesis using fin by simp
qed

section \<open>Writing a file\<close>

text \<open>With the inode table at block 8, the offset is that of the size field of the inode.\<close>

lemma get_inode_offset_size:
  assumes "inode_table bs = 0x2000" "2 \<le> unat n"
  shows "\<exists>off. get_inode_offset (ucast n) = Some off \<and> unat off = inode_pos bs n + 8"
proof -
  let ?n = "ucast (n :: u32) :: usize"
  have u: "unat ?n = unat n" by (simp only: unat_ucast_widen)
  have i: "usub ?n 2 = Some (?n - 2)" "unat (?n - 2) = unat n - 2"
    using assms(2) u unat_sub [of 2 ?n] by (simp_all add: usub_def word_le_nat_alt)
  have s: "unat n < 2 ^ 32" by (rule unat_lt_2p32)
  have r: "umul (?n - 2) 0x40 = Some ((?n - 2) * 0x40)" "unat ((?n - 2) * 0x40) = 64 * (unat n - 2)"
    using i s unat_mult_no_wrap [of "?n - 2" 64] by (simp_all add: umul_def)
  have "uadd 0x2048 ((?n - 2) * 0x40) = Some (0x2048 + (?n - 2) * 0x40)" "unat (0x2048 + (?n - 2) * 0x40) = 0x2048 + 64 * (unat n - 2)"
    using r s unat_add_no_wrap [of 8264 "(?n - 2) * 64"] by (simp_all add: uadd_def)
  moreover have "0x2048 + 64 * (unat n - 2) = inode_pos bs n + 8" using assms by (simp add: inode_pos_def)
  ultimately show ?thesis using i(1) r(1) by (simp add: get_inode_offset_def)
qed

lemma write_first_zone:
  assumes "minix_disk E bdev disk d" "file_zones (disk d) ino = z # zs" "i_zones ino ! 8 = 0" "i_zones ino ! 9 = 0"
    "\<forall>w \<in> set (pointer_zones (disk d) ino) \<union> set (file_zones (disk d) ino). data_zone (disk d) w"
    "8 dvd length content" "length content \<le> 1024" "len = of_nat (length content)"
  obtains d' where "fs_write E bdev ino content len 0 d = Some (len, ino, d')" "disk d' = splice (1024 * unat z) content (disk d)"
proof -
  have u: "unat len = length content" unfolding assms(8) using assms(7) by (intro unat_of_nat_small) simp
  have "write_ok E bdev disk d content len 0" using assms(1,7) u by (simp add: write_ok_def minix_disk_def)
  moreover have "zones_ok (disk d) ino" using assms(5) by (auto simp: zones_ok_def list_all_iff data_zone_def)
  moreover have "memcpy_len (length content) = length content" using assms(6) by (simp add: memcpy_len_whole)
  ultimately show thesis using fs_write_zone [of E bdev disk d content len 0 ino] assms(2-4) u that by auto
qed

lemma minix_rewritten:
  assumes "minix_disk E bdev disk d" "disk d' = rewritten z xs n v (disk d)" "inode_no (disk d) n" "data_zone (disk d) z" "length xs \<le> 1024"
  shows "minix_disk E bdev disk d'" "inode_no (disk d') = inode_no (disk d)" "data_zone (disk d') = data_zone (disk d)"
  using assms(1) rewritten_layout(1-3) [OF assms(3-5), of v, folded assms(2)]
  by (simp_all add: minix_disk_def inode_no_def data_zone_def in_disk_def fun_eq_iff)

lemma size_stored:
  assumes "minix_disk E bdev disk d0" "inode_table (disk d0) = 0x2000" "inode_no (disk d0) n" "2 \<le> unat n" "data_zone (disk d0) z"
    "length xs \<le> 1024" "disk d = splice (1024 * unat z) xs (disk d0)"
  obtains off d' where "get_inode_offset (ucast n) = Some off" "syc_write E bdev (to_le 4 v) 4 (ucast off) d = Some (0, d')"
    "disk d' = rewritten z xs n v (disk d0)"
proof -
  obtain off where off: "get_inode_offset (ucast n) = Some off" "unat off = inode_pos (disk d0) n + 8"
    using get_inode_offset_size [OF assms(2,4)] by blast
  note b = inode_pos_end [OF assms(3,5)]
  have s: "length (disk d0) + 2048 < 2 ^ 32" "device_ok E bdev disk" using assms(1) by (simp_all add: minix_disk_def)
  have uo: "unat (ucast off :: u32) = unat off" using off(2) b s(1) by (simp add: unsigned_ucast_eq take_bit_nat_eq_self)
  have l: "length (disk d) = length (disk d0)" using assms(6,7) b by simp
  have m: "memcpy_len 4 = 4" by (simp add: memcpy_len_def)
  have "\<exists>d'. syc_write E bdev (to_le 4 v) 4 (ucast off) d = Some (0, d')
      \<and> disk d' = splice (unat (ucast off :: u32)) (take (memcpy_len (unat (4 :: u32))) (to_le 4 v)) (disk d)"
    using uo off(2) b l s m by (intro syc_write_bytes) simp_all
  then show thesis using that off assms(7) uo m by (auto simp: rewritten_def)
qed

lemma open_read:
  assumes "minix_disk E 8 disk (dev s)" "fs_open 8 path s = Some (Inr ino)" "zones_ok (disk (dev s)) ino" "i_size ino = len"
    "8 dvd unat len" "unat len \<le> 1024" "take (unat len) (file_bytes (disk (dev s)) ino) = xs" "length xs = unat len"
  shows "test_open_file E path s = Some (len, len, xs)"
proof -
  let ?b = "Buffer_new E (unat BLOCK_SIZE)"
  have b: "length ?b = 1024" by (simp add: length_Buffer_new)
  have "len \<le> BLOCK_SIZE" using assms(6) by (simp add: word_le_nat_alt)
  then have "len = min BLOCK_SIZE (i_size ino)" using assms(4) by (simp add: min_absorb2)
  then have "fs_read E 8 ino ?b BLOCK_SIZE 0 (dev s) = Some (of_nat (length xs), splice 0 xs ?b)"
    using fs_read_bytes [of E 8 disk "dev s" ino len BLOCK_SIZE 0 ?b] assms b by (simp add: minix_disk_def)
  moreover have "take (unat len) (splice 0 xs ?b) = xs" using take_drop_splice [of 0 xs ?b] assms(6,8) b by simp
  moreover have "length (splice 0 xs ?b) = 1024" using assms(6,8) b by simp
  moreover obtain line where "print_divider ''Open and read file'' = Some line" using print_divider_returns [of "''Open and read file''"] by auto
  ultimately show ?thesis using assms(2,4,6,8) by (simp add: test_open_file_def unwrap_def)
qed

text \<open>After the change the cache can be built again, and it has the same paths with the same numbers.\<close>

lemma rewritten_open:
  assumes "minix_disk E bdev disk (dev s)" "dirs_ok E bdev disk (dev s) S rank z" "rank 1 < depth" "inode_no (disk (dev s)) n" "n \<notin> S"
    "data_zone (disk (dev s)) z" "length xs \<le> 1024" "disk d' = rewritten z xs n v (disk (dev s))" "fs_open bdev path s = Some r"
  obtains s' where "refresh depth E bdev (s\<lparr>dev := d'\<rparr>) = Some s'" "dev s' = d'"
    "\<forall>p k. (\<forall>k'. file_no E bdev (dev s) [47] 1 p k' \<longleftrightarrow> k' = k) \<longrightarrow>
       fs_open bdev p s' = Some (Inr (if k = n then (disk_inode (disk (dev s)) n)\<lparr>i_size := v\<rparr> else disk_inode (disk (dev s)) k))"
proof -
  have S: "1 \<in> S" "dir_ranked E bdev (dev s) S rank" using assms(2) by (simp_all add: dirs_ok_def)
  note mx = minix_rewritten [OF assms(1,8,4,6,7)]
  have tree: "same_tree E bdev (dev s) d' S" by (rule rewritten_same_tree [OF assms(1) mx(1) assms(8,4,6,7,2,5)])
  have ranked: "dir_ranked E bdev d' S rank" by (rule same_tree_ranked [OF tree S(2)])
  have files: "file_no E bdev d' [47] 1 p k \<longleftrightarrow> file_no E bdev (dev s) [47] 1 p k" for p k
    using same_tree_file_no [OF tree S(2,1)] same_tree_file_no [OF same_tree_sym [OF tree] ranked S(1)] by blast
  obtain i where "cache_slot bdev s = Some i" using assms(9) by (auto simp: fs_open_def split: Option.bind_splits)
  then have "cache_slot bdev (s\<lparr>dev := d'\<rparr>) = Some i" by (simp add: cache_slot_def)
  then obtain s' where s': "refresh depth E bdev (s\<lparr>dev := d'\<rparr>) = Some s'" "dev s' = d'"
    using cache_at_returns [OF ranked S(1) assms(3), of Map.empty "[47]"] by (auto simp: refresh_def)
  let ?i = "\<lambda>k. if k = n then (disk_inode (disk (dev s)) n)\<lparr>i_size := v\<rparr> else disk_inode (disk (dev s)) k"
  have inode: "get_inode E bdev k d' = Some (Some (?i k))" if "inode_no (disk (dev s)) k" for k
    using minix_get_inode [OF mx(1)] mx(2,3) that assms(6,8) rewritten_inode [OF assms(4) that assms(6,7)] by simp
  have "fs_open bdev p s' = Some (Inr (?i k))" if k: "\<forall>k'. file_no E bdev (dev s) [47] 1 p k' \<longleftrightarrow> k' = k" for p k
  proof (rule refresh_open_no [OF s'(1)])
    show "file_no E bdev (dev (s\<lparr>dev := d'\<rparr>)) [47] 1 p k" using k files by simp
    show "k' = k" if "file_no E bdev (dev (s\<lparr>dev := d'\<rparr>)) [47] 1 p k'" for k' using that k files by simp
    have "file_no E bdev (dev s) [47] 1 p k" using k by blast
    then show "get_inode E bdev k (dev (s\<lparr>dev := d'\<rparr>)) = Some (Some (?i k))"
      using inode [OF file_no_inode_no [OF assms(2) _ S(1)]] by simp
  qed
  then show thesis using that s' by blast
qed

section \<open>Properties\<close>

text \<open>
  C15: a file of the test program is rewritten and read back. On a disk whose inode table starts at block 8, with a tree of
  directories that do not share a zone with the file, writing at most one block of whole words to the file at \<open>path\<close> and storing the
  new size reports all bytes as written; then \<^verbatim>\<open>open\<close> finds the file with the new size and \<^verbatim>\<open>read\<close> returns exactly
  the new contents. The disk changes in the zone and in the size field of the inode only, and every other file is found as before.
\<close>
theorem written_file_read_back:
  assumes "minix_disk E 8 disk (dev s)" and "inode_table (disk (dev s)) = 0x2000" and "dirs_ok E 8 disk (dev s) S rank z" and "rank 1 < depth"
    and "\<forall>k. file_no E 8 (dev s) [47] 1 path k \<longleftrightarrow> k = n" and "n \<notin> S"
    and "fs_open 8 path s = Some (Inr ino)" and "ino = disk_inode (disk (dev s)) n"
    and "file_zones (disk (dev s)) ino = z # zs" and "z \<notin> set (pointer_zones (disk (dev s)) ino)" and "i_zones ino ! 8 = 0" and "i_zones ino ! 9 = 0"
    and "\<forall>w \<in> set (pointer_zones (disk (dev s)) ino) \<union> set (file_zones (disk (dev s)) ino). data_zone (disk (dev s)) w"
    and "8 dvd length content" and "length content \<le> 1024" and "len = of_nat (length content)"
  shows "\<exists>s'. test_write_file depth E path content n s = Some (len, s')
    \<and> test_open_file E path s' = Some (len, len, content)
    \<and> disk (dev s') = splice (0x2000 + 64 * (unat n - 1) + 8) (to_le 4 len) (splice (1024 * unat z) content (disk (dev s)))
    \<and> (\<forall>p k. k \<noteq> n \<longrightarrow> (\<forall>k'. file_no E 8 (dev s) [47] 1 p k' \<longleftrightarrow> k' = k) \<longrightarrow> fs_open 8 p s' = Some (Inr (disk_inode (disk (dev s)) k)))"
proof -
  have S: "1 \<in> S" "dir_ranked E 8 (dev s) S rank" using assms(3) by (simp_all add: dirs_ok_def)
  have n: "inode_no (disk (dev s)) n" using file_no_inode_no [OF assms(3) _ S(1)] assms(5) by blast
  have "n \<noteq> 1" "n \<noteq> 0" using S(1) assms(6) n by (auto simp: inode_no_def)
  then have "unat n \<noteq> 1" "unat n \<noteq> 0" by (simp_all add: word_unat_eq_iff)
  then have n2: "2 \<le> unat n" by linarith
  have z: "data_zone (disk (dev s)) z" using assms(9,13) by simp
  have u: "unat len = length content" unfolding assms(16) using assms(15) by (intro unat_of_nat_small) simp
  obtain d where d: "fs_write E 8 ino content len 0 (dev s) = Some (len, ino, d)" "disk d = splice (1024 * unat z) content (disk (dev s))"
    by (rule write_first_zone [OF assms(1,9,11-16)])
  obtain off d' where d': "get_inode_offset (ucast n) = Some off" "syc_write E 8 (to_le 4 len) 4 (ucast off) d = Some (0, d')"
    "disk d' = rewritten z content n len (disk (dev s))"
    by (rule size_stored [OF assms(1,2) n n2 z assms(15) d(2)])
  have mx: "minix_disk E 8 disk d'" by (rule minix_rewritten [OF assms(1) d'(3) n z assms(15)])
  obtain s' where s': "refresh depth E 8 (s\<lparr>dev := d'\<rparr>) = Some s'" "dev s' = d'"
    and all: "\<forall>p k. (\<forall>k'. file_no E 8 (dev s) [47] 1 p k' \<longleftrightarrow> k' = k) \<longrightarrow>
      fs_open 8 p s' = Some (Inr (if k = n then (disk_inode (disk (dev s)) n)\<lparr>i_size := len\<rparr> else disk_inode (disk (dev s)) k))"
    by (rule rewritten_open [OF assms(1,3,4) n assms(6) z assms(15) d'(3) assms(7)])
  note op = all [THEN spec, THEN spec, THEN mp]
  obtain line where "print_divider ''Writing to file'' = Some line" using print_divider_returns [of "''Writing to file''"] by auto
  then have w: "test_write_file depth E path content n s = Some (len, s')"
    using assms(7,16) d(1) d'(1,2) s'(1) by (simp add: test_write_file_def unwrap_def)
  have "fs_open 8 path s' = Some (Inr (ino\<lparr>i_size := len\<rparr>))" using op [OF assms(5)] assms(8) by simp
  then have "test_open_file E path s' = Some (len, len, content)"
    using rewritten_file [OF n z assms(15,9,10,13), of len] mx s'(2) d'(3) u assms(14,15)
    by (intro open_read [of E disk]) simp_all
  moreover have "disk (dev s') = splice (0x2000 + 64 * (unat n - 1) + 8) (to_le 4 len) (splice (1024 * unat z) content (disk (dev s)))"
    using s'(2) d'(3) assms(2) by (simp add: rewritten_def inode_pos_def)
  moreover have "fs_open 8 p s' = Some (Inr (disk_inode (disk (dev s)) k))" if "k \<noteq> n" "\<forall>k'. file_no E 8 (dev s) [47] 1 p k' \<longleftrightarrow> k' = k" for p k
    using op [OF that(2)] that(1) by simp
  ultimately show ?thesis using w by blast
qed

text \<open>A disk with the inode table at block 8 and one file, \<^verbatim>\<open>/a\<close>, with inode 2 and zone 10.\<close>

definition upd_super :: "u8 list" where
  "upd_super = to_le 4 (16 :: u32) @ [0, 0] @ to_le 2 (2 :: u16) @ to_le 2 (4 :: u16) @ replicate 14 0 @ to_le 2 MAGIC @ replicate 998 0"

definition upd_root :: Inode where "upd_root = root_inode\<lparr>i_size := 192, i_zones := [9, 0, 0, 0, 0, 0, 0, 0, 0, 0]\<rparr>"
definition upd_file :: Inode where "upd_file = tree_file\<lparr>i_size := 8, i_zones := [10, 0, 0, 0, 0, 0, 0, 0, 0, 0]\<rparr>"

definition upd_disk :: "u8 list" where
  "upd_disk = (replicate 1024 0 @ upd_super @ replicate 6144 0) @ (inode_bytes upd_root @ inode_bytes upd_file @ replicate 896 0) @ tree_dir @ replicate 1024 7"

lemma upd_lengths: "length upd_super = 1024" "length (inode_bytes upd_root) = 64" "length (inode_bytes upd_file) = 64" "length upd_disk = 11264"
proof -
  show s: "length upd_super = 1024" by (simp add: upd_super_def)
  show i: "length (inode_bytes upd_root) = 64" "length (inode_bytes upd_file) = 64"
    using length_inode_bytes [of upd_root] length_inode_bytes [of upd_file]
    by (simp_all add: upd_root_def root_inode_def upd_file_def tree_file_def INODE_SIZE_def)
  show "length upd_disk = 11264" using s i tree_dir_length by (simp add: upd_disk_def)
qed

lemma upd_layout:
  "sb_magic (disk_super upd_disk) = MAGIC" "sb_imap_blocks (disk_super upd_disk) = 2" "sb_zmap_blocks (disk_super upd_disk) = 4"
  "sb_ninodes (disk_super upd_disk) = 16" "inode_table upd_disk = 0x2000"
proof -
  have "take 512 (drop 1024 upd_disk) = take 512 upd_super" using upd_lengths(1) by (simp add: upd_disk_def)
  then have d: "disk_super upd_disk = superblock_of upd_super"
    using superblock_append [of "take 512 upd_super" "drop 512 upd_super"] upd_lengths(1) by (simp add: disk_super_def)
  show "sb_magic (disk_super upd_disk) = MAGIC" and s: "sb_imap_blocks (disk_super upd_disk) = 2" "sb_zmap_blocks (disk_super upd_disk) = 4"
    and "sb_ninodes (disk_super upd_disk) = 16"
    unfolding d superblock_of_def upd_super_def by (simp_all add: field_def)
  show "inode_table upd_disk = 0x2000" by (simp add: inode_table_def s)
qed

lemma upd_inodes: "disk_inode upd_disk 1 = upd_root" "disk_inode upd_disk 2 = upd_file"
proof -
  have t: "drop 8192 upd_disk = inode_bytes upd_root @ inode_bytes upd_file @ replicate 896 0 @ tree_dir @ replicate 1024 7"
    using upd_lengths(1) by (simp add: upd_disk_def)
  have "drop 8256 upd_disk = drop 64 (drop 8192 upd_disk)" by simp
  then have "disk_inode upd_disk 1 = inode_of (inode_bytes upd_root)" "disk_inode upd_disk 2 = inode_of (inode_bytes upd_file)"
    unfolding disk_inode_def upd_layout(5) using t upd_lengths(2,3) by simp_all
  then show "disk_inode upd_disk 1 = upd_root" "disk_inode upd_disk 2 = upd_file"
    using inode_of_bytes [of upd_root "[]"] inode_of_bytes [of upd_file "[]"]
    by (simp_all add: upd_root_def root_inode_def upd_file_def tree_file_def)
qed

lemma upd_minix: "minix_disk ram_env bdev ram_disk upd_disk" "ram_disk upd_disk = upd_disk"
proof -
  show r: "ram_disk upd_disk = upd_disk" by (rule ram_disk_whole) (simp add: upd_lengths)
  show "minix_disk ram_env bdev ram_disk upd_disk" using ram_device_ok by (simp add: minix_disk_def r upd_layout upd_lengths)
qed

lemma upd_numbers: "inode_no upd_disk 1" "inode_no upd_disk 2" "data_zone upd_disk 9" "data_zone upd_disk 10"
  by (simp_all add: inode_no_def data_zone_def in_disk_def upd_layout upd_lengths)

lemma upd_get_inode: "get_inode ram_env bdev 1 upd_disk = Some (Some upd_root)" "get_inode ram_env bdev 2 upd_disk = Some (Some upd_file)"
  using minix_get_inode [OF upd_minix(1), of 1 10] minix_get_inode [OF upd_minix(1), of 2 10] upd_numbers upd_inodes by (simp_all add: upd_minix(2))

lemma upd_zones:
  "file_zones upd_disk upd_root = [9]" "pointer_zones upd_disk upd_root = []" "file_zones upd_disk upd_file = [10]" "pointer_zones upd_disk upd_file = []"
  by (simp_all add: file_zones_def direct_zones_def indirect_zones_def iindirect_zones_def iiindirect_zones_def pointer_zones_def
      upd_root_def root_inode_def upd_file_def tree_file_def upt_rec)

lemma upd_root_apart: "dir_apart upd_disk 10 upd_root"
proof -
  have "i_size upd_root = 192" by (simp add: upd_root_def)
  then show ?thesis using upd_numbers(3) unfolding dir_apart_def zones_ok_def upd_zones by (simp add: data_zone_def)
qed

lemma upd_read_root:
  "dir_buffer ram_env upd_root = Some (replicate 192 0)"
  "fs_read ram_env bdev upd_root (replicate 192 0) BLOCK_SIZE 0 upd_disk = Some (192, take 192 tree_dir)"
proof -
  show "dir_buffer ram_env upd_root = Some (replicate 192 0)"
    by (simp add: dir_buffer_def upd_root_def root_inode_def uadd_def usub_def BLOCK_SIZE_def Buffer_new_def ram_env_def map_replicate_const)
  have "drop 9216 upd_disk = tree_dir @ replicate 1024 7" using upd_lengths(1-3) by (simp add: upd_disk_def)
  then have fb: "file_bytes upd_disk upd_root = tree_dir" using tree_dir_length by (simp add: file_bytes_def upd_zones block_at_def)
  have n: "(192 :: u32) = min BLOCK_SIZE (i_size upd_root)" by (simp add: upd_root_def BLOCK_SIZE_def min_def)
  have "zones_ok upd_disk upd_root" using upd_root_apart by (simp add: dir_apart_def)
  then show "fs_read ram_env bdev upd_root (replicate 192 0) BLOCK_SIZE 0 upd_disk = Some (192, take 192 tree_dir)"
    using fs_read_bytes [OF ram_device_ok, of upd_disk upd_root 192 BLOCK_SIZE 0 "replicate 192 0" bdev] fb n tree_dir_length
    by (simp add: upd_minix(2) upd_lengths Fs_Data.splice_def)
qed

lemma upd_entry: "dir_entry ram_env bdev upd_disk 1 e \<longleftrightarrow> e = \<lparr>d_inode = 2, d_name = 97 # replicate 59 0\<rparr>"
proof -
  have "i \<in> set [2..<3] \<longleftrightarrow> i = (2 :: nat)" for i by auto
  then show ?thesis by (auto simp: dir_entry_def upd_get_inode upd_read_root DIRENT_SIZE_def tree_dirent simp del: set_upt)
qed

lemma upd_file_mode: "i_mode upd_file AND S_IFDIR = 0"
  by (simp add: upd_file_def tree_file_def S_IFDIR_def)

lemma upd_file_no: "file_no ram_env bdev upd_disk [47] 1 p k \<longleftrightarrow> p = [47, 97] \<and> k = 2"
proof
  assume "file_no ram_env bdev upd_disk [47] 1 p k"
  then show "p = [47, 97] \<and> k = 2"
    by (cases rule: file_no.cases) (use upd_file_mode in \<open>simp_all add: upd_entry upd_get_inode tree_path\<close>)
next
  assume "p = [47, 97] \<and> k = 2"
  then show "file_no ram_env bdev upd_disk [47] 1 p k"
    using file_no.here [of ram_env bdev upd_disk 1 "\<lparr>d_inode = 2, d_name = 97 # replicate 59 0\<rparr>" upd_file "[47]"] upd_file_mode
    by (simp add: upd_entry upd_get_inode tree_path)
qed

lemma upd_dirs_ok: "dirs_ok ram_env bdev ram_disk upd_disk {1} (\<lambda>_. 0) 10"
proof -
  have "{2..<3} = {2 :: nat}" by auto
  then have "dir_ranked ram_env bdev upd_disk {1} (\<lambda>_. 0)"
    by (simp add: dir_ranked_def upd_get_inode upd_read_root DIRENT_SIZE_def tree_dirent upd_file_mode)
  then show ?thesis by (simp add: dirs_ok_def upd_minix(2) upd_numbers upd_inodes upd_root_apart upd_entry)
qed

theorem written_file_read_back_witness:
  "\<exists>s'. test_write_file 1 ram_env [47, 97] (replicate 16 5) 2
       \<lparr>dev = upd_disk, MFS_INODE_CACHE = replicate 7 None @ [Some [[47, 97] \<mapsto> upd_file]]\<rparr> = Some (16, s')
     \<and> test_open_file ram_env [47, 97] s' = Some (16, 16, replicate 16 5)"
proof -
  let ?s = "\<lparr>dev = upd_disk, MFS_INODE_CACHE = replicate 7 None @ [Some [[47, 97] \<mapsto> upd_file]]\<rparr>"
  have "fs_open 8 [47, 97] ?s = Some (Inr upd_file)" by (simp add: fs_open_def cache_slot_def usub_def nth_append)
  then show ?thesis
    using written_file_read_back [of ram_env ram_disk ?s "{1}" "\<lambda>_. 0" 10 1 "[47, 97]" 2 upd_file "[]" "replicate 16 5" 16]
      upd_minix upd_layout(5) upd_dirs_ok upd_file_no upd_inodes(2) upd_zones(3,4) upd_numbers(4)
    by (auto simp: upd_file_def)
qed

end
