(* ===== verification/Fs_Image.thy ===== *)
theory Fs_Image
  imports Fs_Update
begin

text \<open>
  The files of a disk image, and the inode cache against them. The reference is read off the bytes of the image: the entries of a directory are the
  records of 64 bytes of its contents, a path is a list of names, and a file is found by following the names from the root
  directory. None of the operations of \<^verbatim>\<open>fs.rs\<close> occurs in it.
\<close>

section \<open>The files of an image\<close>

definition entry_name :: "DirEntry \<Rightarrow> u8 list" where
  "entry_name e = takeWhile (\<lambda>b. b \<noteq> 0) (d_name e)"

text \<open>The type of a file is in the upper four bits of its mode.\<close>

definition is_directory :: "Inode \<Rightarrow> bool" where
  "is_directory i \<longleftrightarrow> i_mode i AND 0xf000 = 0x4000"

text \<open>Record \<open>k\<close> of the directory with inode number \<open>n\<close>, when it is in use.\<close>

definition disk_record :: "u8 list \<Rightarrow> u32 \<Rightarrow> nat \<Rightarrow> DirEntry \<Rightarrow> bool" where
  "disk_record bs n k e \<longleftrightarrow> 64 * (k + 1) \<le> unat (i_size (disk_inode bs n))
     \<and> e = dirent_of (take 64 (drop (64 * k) (file_bytes bs (disk_inode bs n)))) \<and> d_inode e \<noteq> 0"

text \<open>The entries for the directory itself and for its parent are no part of the tree.\<close>

definition dot_name :: "u8 list \<Rightarrow> bool" where
  "dot_name xs \<longleftrightarrow> xs = [46] \<or> xs = [46, 46]"

definition disk_entry :: "u8 list \<Rightarrow> u32 \<Rightarrow> nat \<Rightarrow> DirEntry \<Rightarrow> bool" where
  "disk_entry bs n k e \<longleftrightarrow> disk_record bs n k e \<and> \<not> dot_name (entry_name e)"

text \<open>
  \<open>disk_file K bs n names ino\<close>: the names lead from the directory \<open>n\<close> to the file with the inode \<open>ino\<close>, through entries with an index
  in \<open>K\<close> only. With \<open>UNIV\<close> for \<open>K\<close> these are all files below \<open>n\<close>.
\<close>

inductive disk_file :: "nat set \<Rightarrow> u8 list \<Rightarrow> u32 \<Rightarrow> u8 list list \<Rightarrow> Inode \<Rightarrow> bool" for K bs where
  here: "\<lbrakk>disk_entry bs n k e; k \<in> K; \<not> is_directory (disk_inode bs (d_inode e))\<rbrakk> \<Longrightarrow>
     disk_file K bs n [entry_name e] (disk_inode bs (d_inode e))"
| below: "\<lbrakk>disk_entry bs n k e; k \<in> K; is_directory (disk_inode bs (d_inode e)); disk_file K bs (d_inode e) names ino\<rbrakk> \<Longrightarrow>
     disk_file K bs n (entry_name e # names) ino"

text \<open>Each name with a slash before it.\<close>

definition path_string :: "u8 list list \<Rightarrow> rust_string" where
  "path_string names = concat (map (\<lambda>x. 47 # x) names)"

lemma path_string_simps [simp]: "path_string [] = []" "path_string (x # xs) = 47 # x @ path_string xs"
  by (simp_all add: path_string_def)

text \<open>
  A well-formed directory: its records are within its contents, which consist of whole records; the first two are those for the directory
  itself and its parent; names are ASCII without a slash, and no two entries have the same name.
\<close>

definition disk_dir :: "u8 list \<Rightarrow> u32 \<Rightarrow> bool" where
  "disk_dir bs n \<longleftrightarrow> 0 < unat n \<and> inode_on_disk bs n \<and> zones_ok bs (disk_inode bs n)
     \<and> 64 dvd unat (i_size (disk_inode bs n)) \<and> unat (i_size (disk_inode bs n)) + 1024 < 2 ^ 32
     \<and> unat (i_size (disk_inode bs n)) \<le> length (file_bytes bs (disk_inode bs n))
     \<and> (\<forall>k e. disk_record bs n k e \<longrightarrow> (dot_name (entry_name e) \<longleftrightarrow> k < 2))
     \<and> (\<forall>k e. disk_entry bs n k e \<longrightarrow> (\<forall>b \<in> set (entry_name e). b < 128 \<and> b \<noteq> 47))
     \<and> (\<forall>k e l f. disk_entry bs n k e \<longrightarrow> disk_entry bs n l f \<longrightarrow> entry_name e = entry_name f \<longrightarrow> k = l)"

text \<open>
  The directories of \<open>S\<close> form a tree: their entries are inodes of the disk, neither block devices nor sockets (whose modes share a bit with those
  of directories), and the directories among them are in \<open>S\<close> with a smaller rank.
\<close>

definition disk_tree :: "u8 list \<Rightarrow> u32 set \<Rightarrow> (u32 \<Rightarrow> nat) \<Rightarrow> bool" where
  "disk_tree bs S rank \<longleftrightarrow> 1 \<in> S \<and> (\<forall>n \<in> S. disk_dir bs n \<and> (\<forall>k e. disk_entry bs n k e \<longrightarrow>
     inode_on_disk bs (d_inode e) \<and> (i_mode (disk_inode bs (d_inode e)) AND 0x4000 \<noteq> 0 \<longrightarrow> is_directory (disk_inode bs (d_inode e)))
     \<and> (is_directory (disk_inode bs (d_inode e)) \<longrightarrow> d_inode e \<in> S \<and> rank (d_inode e) < rank n)))"

lemma disk_dir_dots: "disk_dir bs n \<Longrightarrow> disk_record bs n k e \<Longrightarrow> dot_name (entry_name e) \<longleftrightarrow> k < 2"
  unfolding disk_dir_def by (elim conjE allE [of _ k]) simp

lemma disk_dir_names: "disk_dir bs n \<Longrightarrow> disk_entry bs n k e \<Longrightarrow> b \<in> set (entry_name e) \<Longrightarrow> b < 128 \<and> b \<noteq> 47"
  unfolding disk_dir_def by (elim conjE) metis

lemma disk_dir_index:
  "disk_dir bs n \<Longrightarrow> disk_entry bs n k e \<Longrightarrow> disk_entry bs n l f \<Longrightarrow> entry_name e = entry_name f \<Longrightarrow> k = l"
  unfolding disk_dir_def by (elim conjE) metis

lemma disk_dir_unique:
  "disk_dir bs n \<Longrightarrow> disk_entry bs n k e \<Longrightarrow> disk_entry bs n l f \<Longrightarrow> entry_name e = entry_name f \<Longrightarrow> e = f"
  using disk_dir_index [of bs n k e l f] by (metis disk_entry_def disk_record_def)

lemma disk_treeD:
  assumes "disk_tree bs S rank" "n \<in> S" "disk_entry bs n k e"
  shows "disk_dir bs n" "0 < unat (d_inode e)" "inode_on_disk bs (d_inode e)"
    "i_mode (disk_inode bs (d_inode e)) AND S_IFDIR \<noteq> 0 \<longleftrightarrow> is_directory (disk_inode bs (d_inode e))"
    "is_directory (disk_inode bs (d_inode e)) \<Longrightarrow> d_inode e \<in> S \<and> rank (d_inode e) < rank n"
proof -
  show "disk_dir bs n" "inode_on_disk bs (d_inode e)" "is_directory (disk_inode bs (d_inode e)) \<Longrightarrow> d_inode e \<in> S \<and> rank (d_inode e) < rank n"
    using assms unfolding disk_tree_def by meson+
  have "d_inode e \<noteq> 0" using assms(3) unfolding disk_entry_def disk_record_def by blast
  then show "0 < unat (d_inode e)" by (simp add: unat_gt_0)
  have "i_mode (disk_inode bs (d_inode e)) AND 0x4000 \<noteq> 0 \<Longrightarrow> is_directory (disk_inode bs (d_inode e))"
    using assms unfolding disk_tree_def by meson
  moreover have "m AND 0xf000 = 0x4000 \<Longrightarrow> m AND 0x4000 \<noteq> 0" for m :: u16
  proof
    assume a: "m AND 0xf000 = 0x4000" "m AND 0x4000 = 0"
    have "(m AND 0xf000) AND 0x4000 = m AND 0x4000" by (simp add: and.assoc)
    then show False using a by simp
  qed
  ultimately show "i_mode (disk_inode bs (d_inode e)) AND S_IFDIR \<noteq> 0 \<longleftrightarrow> is_directory (disk_inode bs (d_inode e))"
    unfolding is_directory_def S_IFDIR_def by blast
qed

section \<open>Names and paths\<close>

definition ascii_bytes :: "u8 list \<Rightarrow> bool" where
  "ascii_bytes xs \<longleftrightarrow> (\<forall>b \<in> set xs. b < 128)"

lemma push_chars: "ascii_bytes xs \<Longrightarrow> fold push_char xs acc = acc @ xs"
  by (induction xs arbitrary: acc) (simp_all add: ascii_bytes_def push_char_def)

text \<open>The path of an entry: the root directory alone has a path that ends in a slash.\<close>

definition dir_prefix :: "rust_string \<Rightarrow> u32 \<Rightarrow> rust_string" where
  "dir_prefix cwd n = (if n = 1 then [] else cwd)"

lemma child_path_ascii:
  assumes "n = 1 \<longrightarrow> cwd = [47]" "ascii_bytes cwd" "ascii_bytes (entry_name e)"
  shows "child_path cwd n e = dir_prefix cwd n @ 47 # entry_name e"
proof -
  have "dirent_name e = entry_name e" by (simp add: dirent_name_def entry_name_def)
  moreover have "fold push_char cwd [] = cwd" using push_chars [OF assms(2)] by simp
  ultimately show ?thesis using assms(1) push_chars [OF assms(3)] by (simp add: child_path_def dir_prefix_def push_char_def Let_def)
qed

lemma path_string_head: "path_string xs = [] \<or> (\<exists>r. path_string xs = 47 # r)"
  by (cases xs) simp_all

lemma path_string_inj:
  assumes "path_string xs = path_string ys" "\<forall>x \<in> set xs \<union> set ys. 47 \<notin> set x"
  shows "xs = ys"
  using assms
proof (induction xs arbitrary: ys)
  case Nil
  then show ?case by (cases ys) simp_all
next
  case (Cons x xs)
  then obtain y zs where ys: "ys = y # zs" by (cases ys) simp_all
  have e: "x @ path_string xs = y @ path_string zs" and n: "47 \<notin> set x" "47 \<notin> set y" using Cons.prems ys by simp_all
  have tw: "takeWhile (\<lambda>b. b \<noteq> 47) (z @ path_string ws) = z" if "47 \<notin> set z" for z ws
  proof -
    have "takeWhile (\<lambda>b. b \<noteq> 47) (path_string ws) = []" using path_string_head [of ws] by auto
    then show ?thesis using that by (subst takeWhile_append2) auto
  qed
  have "x = y" using tw [OF n(1), of xs] tw [OF n(2), of zs] e by simp
  then show ?case using Cons.IH [of zs] Cons.prems(2) e ys by simp
qed

section \<open>Directories that the code reads\<close>

text \<open>Reading a well-formed directory gives its first block.\<close>

lemma disk_dir_read:
  assumes "minix_disk E bdev disk d" "disk_dir (disk d) n"
  obtains buf m buf' where "get_inode E bdev n d = Some (Some (disk_inode (disk d) n))" "dir_buffer E (disk_inode (disk d) n) = Some buf"
    "fs_read E bdev (disk_inode (disk d) n) buf BLOCK_SIZE 0 d = Some (m, buf')" "unat m = min 1024 (unat (i_size (disk_inode (disk d) n)))"
    "\<forall>k. 64 * (k + 1) \<le> unat m \<longrightarrow> dirent_at buf' k = Some (dirent_of (take 64 (drop (64 * k) (file_bytes (disk d) (disk_inode (disk d) n)))))"
proof -
  let ?i = "disk_inode (disk d) n" and ?bs = "file_bytes (disk d) (disk_inode (disk d) n)"
  have w: "0 < unat n" "inode_on_disk (disk d) n" "zones_ok (disk d) ?i" "64 dvd unat (i_size ?i)" "unat (i_size ?i) + 1024 < 2 ^ 32"
    "unat (i_size ?i) \<le> length ?bs" using assms(2) unfolding disk_dir_def by blast+
  have mx: "device_ok E bdev disk" "length (disk d) + 2048 < 2 ^ 32" using assms(1) by (simp_all add: minix_disk_def)
  have g: "get_inode E bdev n d = Some (Some ?i)" using assms(1) w(1,2) by (intro get_inode_disk) (simp_all add: minix_disk_def)
  have u: "unat (i_size ?i + BLOCK_SIZE) = unat (i_size ?i) + 1024" using w(5) unat_add_no_wrap [of "i_size ?i" BLOCK_SIZE] by simp
  then have "uadd (i_size ?i) BLOCK_SIZE = Some (i_size ?i + BLOCK_SIZE)" "usub (i_size ?i + BLOCK_SIZE) 1 = Some (i_size ?i + BLOCK_SIZE - 1)"
    using w(5) by (simp_all add: uadd_def usub_def word_le_nat_alt)
  then obtain buf where b: "dir_buffer E ?i = Some buf" by (simp add: dir_buffer_def)
  have "8 dvd unat (i_size ?i)" using w(4) by (rule dvd_trans [rotated]) simp
  then have lb: "unat (i_size ?i) \<le> length buf" by (rule length_dir_buffer [OF b])
  let ?m = "min BLOCK_SIZE (i_size ?i)"
  have m: "unat ?m = min 1024 (unat (i_size ?i))" by (simp add: min_def word_le_nat_alt)
  have m8: "8 dvd unat ?m" using \<open>8 dvd unat (i_size ?i)\<close> by (simp add: m min_def)
  define out where "out = take (unat ?m) ?bs"
  have lo: "length out = unat ?m" using w(6) m by (simp add: out_def)
  have r: "fs_read E bdev ?i buf BLOCK_SIZE 0 d = Some (?m, splice 0 out buf)"
  proof -
    have l: "unat ?m \<le> length buf" using m lb by simp
    have z: "8 dvd unat (0 :: u32)" "drop (unat (0 :: u32)) ?bs = ?bs" by simp_all
    have "of_nat (unat x) = x" for x :: u32 by simp
    then have "of_nat (length out) = ?m" unfolding lo .
    then show ?thesis using fs_read_bytes [OF mx w(3) refl m8 z(1) l] unfolding z(2) out_def [symmetric] by simp
  qed
  have "dirent_at (splice 0 out buf) k = Some (dirent_of (take 64 (drop (64 * k) ?bs)))" if "64 * (k + 1) \<le> unat ?m" for k
  proof -
    have "unat ?m \<le> length buf" using m lb by simp
    then have "take 64 (drop (64 * k) (splice 0 out buf)) = take 64 (drop (64 * k) out)"
      using that lo by (simp add: Fs_Data.splice_def)
    also have "\<dots> = take 64 (drop (64 * k) ?bs)" using that by (simp add: out_def drop_take min_def)
    finally show ?thesis using that lo \<open>unat ?m \<le> length buf\<close> by (simp add: dirent_at_def DIRENT_SIZE_def)
  qed
  then show thesis using that [OF g b r m] by blast
qed

lemma disk_dir_entry:
  assumes "minix_disk E bdev disk d" "disk_dir (disk d) n"
  shows "dir_entry E bdev d n e \<longleftrightarrow> (\<exists>k < 16. disk_entry (disk d) n k e)"
proof -
  obtain buf m buf' where r: "get_inode E bdev n d = Some (Some (disk_inode (disk d) n))" "dir_buffer E (disk_inode (disk d) n) = Some buf"
    "fs_read E bdev (disk_inode (disk d) n) buf BLOCK_SIZE 0 d = Some (m, buf')" "unat m = min 1024 (unat (i_size (disk_inode (disk d) n)))"
    "\<forall>k. 64 * (k + 1) \<le> unat m \<longrightarrow> dirent_at buf' k = Some (dirent_of (take 64 (drop (64 * k) (file_bytes (disk d) (disk_inode (disk d) n)))))"
    by (rule disk_dir_read [OF assms])
  have dot: "dot_name (entry_name e) \<longleftrightarrow> k < 2" if "disk_record (disk d) n k e" for k by (rule disk_dir_dots [OF assms(2) that])
  have k: "k < unat m div DIRENT_SIZE \<longleftrightarrow> k < 16 \<and> 64 * (k + 1) \<le> unat (i_size (disk_inode (disk d) n))" for k
    unfolding r(4) DIRENT_SIZE_def Suc_le_eq [symmetric] by (simp add: less_eq_div_iff_mult_less_eq) arith
  have k': "64 * (k + 1) \<le> unat m" if "k < unat m div DIRENT_SIZE" for k using that k [of k] r(4) by auto
  have de: "dir_entry E bdev d n e \<longleftrightarrow> (\<exists>k. 2 \<le> k \<and> k < unat m div DIRENT_SIZE \<and> dirent_at buf' k = Some e \<and> d_inode e \<noteq> 0)"
    using r(1-3) unfolding dir_entry_def by auto
  have rec: "k < unat m div DIRENT_SIZE \<and> dirent_at buf' k = Some e \<and> d_inode e \<noteq> 0 \<longleftrightarrow> k < 16 \<and> disk_record (disk d) n k e" for k
  proof (cases "k < unat m div DIRENT_SIZE")
    case True
    then show ?thesis using k [of k] k' [OF True] r(5) by (auto simp: disk_record_def)
  next
    case False
    then show ?thesis using k [of k] by (auto simp: disk_record_def)
  qed
  show ?thesis
  proof
    assume "dir_entry E bdev d n e"
    then obtain k where "2 \<le> k" "k < 16" "disk_record (disk d) n k e" using de rec by blast
    then show "\<exists>k < 16. disk_entry (disk d) n k e" using dot [of k] by (auto simp: disk_entry_def)
  next
    assume "\<exists>k < 16. disk_entry (disk d) n k e"
    then obtain k where "k < 16" "disk_record (disk d) n k e" "2 \<le> k" using dot by (auto simp: disk_entry_def not_less)
    then show "dir_entry E bdev d n e" using de rec by blast
  qed
qed

section \<open>The cache and the image\<close>

lemma disk_tree_inode:
  assumes "minix_disk E bdev disk d" "disk_tree (disk d) S rank" "n \<in> S" "disk_entry (disk d) n k e"
  shows "get_inode E bdev (d_inode e) d = Some (Some (disk_inode (disk d) (d_inode e)))"
  using assms(1) disk_treeD(2,3) [OF assms(2-4)] by (intro get_inode_disk) (simp_all add: minix_disk_def)

lemma disk_tree_entry:
  "minix_disk E bdev disk d \<Longrightarrow> disk_tree (disk d) S rank \<Longrightarrow> n \<in> S \<Longrightarrow> dir_entry E bdev d n e \<longleftrightarrow> (\<exists>k < 16. disk_entry (disk d) n k e)"
  by (rule disk_dir_entry) (simp_all add: disk_tree_def)

text \<open>The tree of the image is one that \<^verbatim>\<open>cache_at\<close> can walk.\<close>

lemma disk_tree_ranked:
  assumes "minix_disk E bdev disk d" "disk_tree (disk d) S rank"
  shows "dir_ranked E bdev d S rank"
  unfolding dir_ranked_def
proof
  fix n assume n: "n \<in> S"
  have dd: "disk_dir (disk d) n" using assms(2) n by (simp add: disk_tree_def)
  obtain buf m buf' where r: "get_inode E bdev n d = Some (Some (disk_inode (disk d) n))" "dir_buffer E (disk_inode (disk d) n) = Some buf"
    "fs_read E bdev (disk_inode (disk d) n) buf BLOCK_SIZE 0 d = Some (m, buf')" "unat m = min 1024 (unat (i_size (disk_inode (disk d) n)))"
    "\<forall>k. 64 * (k + 1) \<le> unat m \<longrightarrow> dirent_at buf' k = Some (dirent_of (take 64 (drop (64 * k) (file_bytes (disk d) (disk_inode (disk d) n)))))"
    by (rule disk_dir_read [OF assms(1) dd])
  have "\<exists>e. dirent_at buf' k = Some e \<and> (d_inode e \<noteq> 0 \<longrightarrow> (\<exists>di. get_inode E bdev (d_inode e) d = Some (Some di)
      \<and> (i_mode di AND S_IFDIR \<noteq> 0 \<longrightarrow> d_inode e \<in> S \<and> rank (d_inode e) < rank n)))" if k: "k \<in> {2..<unat m div DIRENT_SIZE}" for k
  proof -
    have "Suc k \<le> unat m div 64" using k by (simp add: DIRENT_SIZE_def)
    then have "64 * (k + 1) \<le> unat m" by (simp add: less_eq_div_iff_mult_less_eq)
    then have e: "dirent_at buf' k = Some (dirent_of (take 64 (drop (64 * k) (file_bytes (disk d) (disk_inode (disk d) n)))))" using r(5) by blast
    moreover have "dir_entry E bdev d n e" if "dirent_at buf' k = Some e" "d_inode e \<noteq> 0" for e
      using r(1-3) k that unfolding dir_entry_def by auto
    ultimately show ?thesis
      using disk_tree_entry [OF assms n] disk_tree_inode [OF assms n] disk_treeD(4,5) [OF assms(2) n] by (metis (no_types, lifting))
  qed
  then show "\<exists>ino buf sz buf'. get_inode E bdev n d = Some (Some ino) \<and> dir_buffer E ino = Some buf
        \<and> fs_read E bdev ino buf BLOCK_SIZE 0 d = Some (sz, buf')
        \<and> (\<forall>i \<in> {2..<unat sz div DIRENT_SIZE}. \<exists>e. dirent_at buf' i = Some e \<and> (d_inode e \<noteq> 0 \<longrightarrow>
             (\<exists>di. get_inode E bdev (d_inode e) d = Some (Some di)
                \<and> (i_mode di AND S_IFDIR \<noteq> 0 \<longrightarrow> d_inode e \<in> S \<and> rank (d_inode e) < rank n))))"
    using r(1-3) by blast
qed

text \<open>A directory with its path, as the walk from the root reaches it.\<close>

definition walk_dir :: "u32 set \<Rightarrow> (u32 \<Rightarrow> nat) \<Rightarrow> rust_string \<Rightarrow> u32 \<Rightarrow> bool" where
  "walk_dir S rank cwd n \<longleftrightarrow> n \<in> S \<and> ascii_bytes cwd \<and> (if n = 1 then cwd = [47] else rank n < rank 1)"

lemma walk_dir_child:
  assumes "disk_tree bs S rank" "walk_dir S rank cwd n" "disk_entry bs n k e"
  shows "child_path cwd n e = dir_prefix cwd n @ 47 # entry_name e"
    and "is_directory (disk_inode bs (d_inode e)) \<Longrightarrow> walk_dir S rank (child_path cwd n e) (d_inode e) \<and> dir_prefix (child_path cwd n e) (d_inode e) = child_path cwd n e"
proof -
  have n: "n \<in> S" "ascii_bytes cwd" "n = 1 \<longrightarrow> cwd = [47]" "n \<noteq> 1 \<longrightarrow> rank n < rank 1" using assms(2) by (simp_all add: walk_dir_def split: if_splits)
  note t = disk_treeD [OF assms(1) n(1) assms(3)]
  have a: "ascii_bytes (entry_name e)" using disk_dir_names [OF t(1) assms(3)] by (auto simp: ascii_bytes_def)
  show c: "child_path cwd n e = dir_prefix cwd n @ 47 # entry_name e" by (rule child_path_ascii [OF n(3,2) a])
  assume d: "is_directory (disk_inode bs (d_inode e))"
  then have r: "d_inode e \<in> S" "rank (d_inode e) < rank n" using t(5) by blast+
  have "rank (d_inode e) < rank 1" using r(2) n(4) by (cases "n = 1") auto
  then have "d_inode e \<noteq> 1" by auto
  moreover have "ascii_bytes (child_path cwd n e)" using n(2) a unfolding c by (auto simp: ascii_bytes_def dir_prefix_def)
  ultimately show "walk_dir S rank (child_path cwd n e) (d_inode e) \<and> dir_prefix (child_path cwd n e) (d_inode e) = child_path cwd n e"
    using r(1) \<open>rank (d_inode e) < rank 1\<close> by (simp add: walk_dir_def dir_prefix_def)
qed

lemma file_at_disk_file:
  assumes mx: "minix_disk E bdev disk d" and tr: "disk_tree (disk d) S rank"
    and "file_at E bdev d cwd n p ino" "walk_dir S rank cwd n"
  shows "\<exists>names. p = dir_prefix cwd n @ path_string names \<and> disk_file {..<16} (disk d) n names ino"
  using assms(3,4)
proof (induction rule: file_at.induct)
  case (here n e ino cwd)
  have n: "n \<in> S" using here(4) by (simp add: walk_dir_def)
  obtain k where k: "k < 16" "disk_entry (disk d) n k e" using here(1) disk_tree_entry [OF mx tr n] by blast
  have i: "ino = disk_inode (disk d) (d_inode e)" using disk_tree_inode [OF mx tr n k(2)] here(2) by simp
  have "disk_file {..<16} (disk d) n [entry_name e] ino"
    unfolding i by (rule disk_file.here [OF k(2)]) (use k(1) here(3) i disk_treeD(4) [OF tr n k(2)] in auto)
  then show ?case using walk_dir_child(1) [OF tr here(4) k(2)] by (intro exI [of _ "[entry_name e]"]) simp
next
  case (below n e di cwd p ino)
  have n: "n \<in> S" using below(6) by (simp add: walk_dir_def)
  obtain k where k: "k < 16" "disk_entry (disk d) n k e" using below(1) disk_tree_entry [OF mx tr n] by blast
  have i: "di = disk_inode (disk d) (d_inode e)" using disk_tree_inode [OF mx tr n k(2)] below(2) by simp
  have dir: "is_directory (disk_inode (disk d) (d_inode e))" using below(3) i disk_treeD(4) [OF tr n k(2)] by simp
  note c = walk_dir_child [OF tr below(6) k(2)]
  obtain names where names: "p = dir_prefix (child_path cwd n e) (d_inode e) @ path_string names" "disk_file {..<16} (disk d) (d_inode e) names ino"
    using below.IH c(2) [OF dir] by blast
  have "disk_file {..<16} (disk d) n (entry_name e # names) ino" by (rule disk_file.below [OF k(2) _ dir names(2)]) (use k(1) in simp)
  then show ?case using names(1) c by (intro exI [of _ "entry_name e # names"]) (simp add: dir)
qed

lemma disk_file_file_at:
  assumes mx: "minix_disk E bdev disk d" and tr: "disk_tree (disk d) S rank"
    and "disk_file {..<16} (disk d) n names ino" "walk_dir S rank cwd n"
  shows "file_at E bdev d cwd n (dir_prefix cwd n @ path_string names) ino"
  using assms(3,4)
proof (induction arbitrary: cwd rule: disk_file.induct)
  case (here n k e)
  have n: "n \<in> S" using here(4) by (simp add: walk_dir_def)
  have "dir_entry E bdev d n e" using here(1,2) disk_tree_entry [OF mx tr n] by auto
  then have "file_at E bdev d cwd n (child_path cwd n e) (disk_inode (disk d) (d_inode e))"
    by (rule file_at.here [OF _ disk_tree_inode [OF mx tr n here(1)]]) (use here(3) disk_treeD(4) [OF tr n here(1)] in blast)
  then show ?case using walk_dir_child(1) [OF tr here(4,1)] by simp
next
  case (below n k e names ino)
  have n: "n \<in> S" using below(6) by (simp add: walk_dir_def)
  note c = walk_dir_child [OF tr below(6,1)]
  have "dir_entry E bdev d n e" using below(1,2) disk_tree_entry [OF mx tr n] by auto
  moreover have "i_mode (disk_inode (disk d) (d_inode e)) AND S_IFDIR \<noteq> 0" using below(3) disk_treeD(4) [OF tr n below(1)] by blast
  moreover have "file_at E bdev d (child_path cwd n e) (d_inode e) (child_path cwd n e @ path_string names) ino"
    using below.IH [of "child_path cwd n e"] c(2) [OF below(3)] by simp
  ultimately have "file_at E bdev d cwd n (child_path cwd n e @ path_string names) ino"
    using file_at.below [OF _ disk_tree_inode [OF mx tr n below(1)]] by blast
  then show ?case using c(1) by simp
qed

text \<open>Names lead to one file at most.\<close>

lemma disk_file_names:
  assumes "disk_tree bs S rank" "disk_file K bs n names ino" "n \<in> S"
  shows "names \<noteq> [] \<and> (\<forall>x \<in> set names. 47 \<notin> set x)"
  using assms(2,3)
proof (induction rule: disk_file.induct)
  case (here n k e)
  then show ?case using disk_dir_names [OF disk_treeD(1) [OF assms(1) here(4,1)] here(1)] by auto
next
  case (below n k e names ino)
  then show ?case using disk_dir_names [OF disk_treeD(1) [OF assms(1) below(6,1)] below(1)] disk_treeD(5) [OF assms(1) below(6,1,3)] by auto
qed

lemma disk_file_unique:
  assumes "disk_tree bs S rank" "disk_file K bs n names i" "disk_file K bs n names j" "n \<in> S"
  shows "i = j"
  using assms(2-4)
proof (induction arbitrary: j rule: disk_file.induct)
  case (here n k e)
  note h = here and same = disk_dir_unique [OF disk_treeD(1) [OF assms(1) here(5,1)] here(1)]
  from h(4) show ?case
  proof (cases rule: disk_file.cases)
    case (here l f)
    then show ?thesis using same [of l f] by simp
  next
    case (below l f)
    then show ?thesis using same [of l f] h(3) by simp
  qed
next
  case (below n k e names ino)
  note b = below and same = disk_dir_unique [OF disk_treeD(1) [OF assms(1) below(7,1)] below(1)]
  have S: "d_inode e \<in> S" using disk_treeD(5) [OF assms(1) below(7,1,3)] by blast
  from b(6) show ?case
  proof (cases rule: disk_file.cases)
    case (here l f)
    then show ?thesis using same [of l f] b(3) by simp
  next
    case (below l f)
    then have "f = e" using same [of l f] by simp
    then show ?thesis using below b(5) [OF _ S] by simp
  qed
qed

text \<open>In directories of one block all entries are among the first 16.\<close>

lemma disk_file_one_block:
  assumes "disk_tree bs S rank" "\<forall>n \<in> S. unat (i_size (disk_inode bs n)) \<le> 1024" "n \<in> S"
  shows "disk_file {..<16} bs n names ino \<longleftrightarrow> disk_file UNIV bs n names ino"
proof
  assume "disk_file {..<16} bs n names ino"
  then show "disk_file UNIV bs n names ino" by (induction rule: disk_file.induct) (auto intro: disk_file.intros)
next
  assume "disk_file UNIV bs n names ino"
  then show "disk_file {..<16} bs n names ino" using assms(3)
  proof (induction rule: disk_file.induct)
    case (here n k e)
    then have "k < 16" using assms(2) by (force simp: disk_entry_def disk_record_def)
    then show ?case using here by (auto intro: disk_file.here)
  next
    case (below n k e names ino)
    then have "k < 16" using assms(2) by (force simp: disk_entry_def disk_record_def)
    then show ?case using below disk_treeD(5) [OF assms(1) below(6,1,3)] by (auto intro: disk_file.below)
  qed
qed

text \<open>After \<^verbatim>\<open>refresh\<close>, \<^verbatim>\<open>open\<close> finds the files that the first 16 entries of each directory lead to.\<close>

lemma refresh_first_entries:
  assumes mx: "minix_disk E bdev disk (dev s)" and tr: "disk_tree (disk (dev s)) S rank" and "rank 1 < depth"
    and "0 < unat bdev" "unat bdev \<le> length (MFS_INODE_CACHE s)"
  obtains s' where "refresh depth E bdev s = Some s'" "dev s' = dev s"
    "\<forall>path ino. fs_open bdev path s' = Some (Inr ino) \<longleftrightarrow> (\<exists>names. path = path_string names \<and> disk_file {..<16} (disk (dev s)) 1 names ino)"
    "\<forall>path. fs_open bdev path s' = Some (Inl FileNotFound) \<longleftrightarrow> (\<nexists>names ino. path = path_string names \<and> disk_file {..<16} (disk (dev s)) 1 names ino)"
proof -
  have one: "1 \<in> S" "walk_dir S rank [47] 1" using tr by (simp_all add: disk_tree_def walk_dir_def ascii_bytes_def)
  have "1 \<le> bdev" "unat (bdev - 1) < length (MFS_INODE_CACHE s)" using assms(4,5) unat_sub [of 1 bdev] by (simp_all add: word_le_nat_alt)
  then have sl: "cache_slot bdev s = Some (unat (bdev - 1))" by (simp add: cache_slot_def usub_def)
  obtain btm where "cache_at depth E Map.empty [47] 1 bdev (dev s) = Some btm"
    using cache_at_returns [OF disk_tree_ranked [OF mx tr] one(1) assms(3)] by blast
  then obtain s' where s': "refresh depth E bdev s = Some s'" "dev s' = dev s" using sl by (auto simp: refresh_def)
  have f: "file_at E bdev (dev s) [47] 1 p ino \<longleftrightarrow> (\<exists>names. p = path_string names \<and> disk_file {..<16} (disk (dev s)) 1 names ino)" for p ino
    using file_at_disk_file [OF mx tr _ one(2)] disk_file_file_at [OF mx tr _ one(2)] by (fastforce simp: dir_prefix_def)
  have "i = j" if fs: "file_at E bdev (dev s) [47] 1 p i" "file_at E bdev (dev s) [47] 1 p j" for p i j
  proof -
    obtain xs ys where xs: "p = path_string xs" "disk_file {..<16} (disk (dev s)) 1 xs i" and ys: "p = path_string ys" "disk_file {..<16} (disk (dev s)) 1 ys j"
      using fs f by blast
    have "xs = ys"
      using disk_file_names [OF tr xs(2) one(1)] disk_file_names [OF tr ys(2) one(1)] xs(1) ys(1) by (intro path_string_inj) auto
    then show ?thesis using disk_file_unique [OF tr xs(2) _ one(1)] ys(2) by blast
  qed
  then have u: "\<forall>p i j. file_at E bdev (dev s) [47] 1 p i \<longrightarrow> file_at E bdev (dev s) [47] 1 p j \<longrightarrow> i = j" by blast
  note o = refresh_open_files [OF s'(1) u, unfolded f]
  show thesis using that [OF s'] o by blast
qed

text \<open>A directory with more than one block: the files from the 17th entry on are never found, since \<^verbatim>\<open>cache_at\<close> reads one block.\<close>

lemma late_entry_not_found:
  assumes "minix_disk E bdev disk (dev s)" "disk_tree (disk (dev s)) S rank" "rank 1 < depth" "0 < unat bdev" "unat bdev \<le> length (MFS_INODE_CACHE s)"
    and e: "disk_entry (disk (dev s)) 1 k e" "16 \<le> k" "\<not> is_directory (disk_inode (disk (dev s)) (d_inode e))"
  shows "\<exists>s'. refresh depth E bdev s = Some s' \<and> disk_file UNIV (disk (dev s)) 1 [entry_name e] (disk_inode (disk (dev s)) (d_inode e))
    \<and> fs_open bdev (path_string [entry_name e]) s' = Some (Inl FileNotFound)"
proof -
  obtain s' where s': "refresh depth E bdev s = Some s'" "dev s' = dev s"
    "\<forall>path ino. fs_open bdev path s' = Some (Inr ino) \<longleftrightarrow> (\<exists>names. path = path_string names \<and> disk_file {..<16} (disk (dev s)) 1 names ino)"
    "\<forall>path. fs_open bdev path s' = Some (Inl FileNotFound) \<longleftrightarrow> (\<nexists>names ino. path = path_string names \<and> disk_file {..<16} (disk (dev s)) 1 names ino)"
    by (rule refresh_first_entries [OF assms(1-5)])
  have one: "1 \<in> S" using assms(2) by (simp add: disk_tree_def)
  note dd = disk_treeD(1) [OF assms(2) one e(1)]
  have u: "disk_file UNIV (disk (dev s)) 1 [entry_name e] (disk_inode (disk (dev s)) (d_inode e))" using e(1,3) by (auto intro: disk_file.here)
  have "\<not> disk_file {..<16} (disk (dev s)) 1 names ino" if "path_string [entry_name e] = path_string names" for names ino
  proof
    assume f: "disk_file {..<16} (disk (dev s)) 1 names ino"
    have n: "[entry_name e] = names"
      using that disk_file_names [OF assms(2) f one] disk_file_names [OF assms(2) u one] by (intro path_string_inj) auto
    from f show False by (cases rule: disk_file.cases) (use n disk_dir_index [OF dd e(1)] e(2) in force)+
  qed
  then show ?thesis using s'(1,4) u by blast
qed

section \<open>A disk with a subdirectory\<close>

text \<open>The root directory holds the file \<^verbatim>\<open>a\<close> with inode 2 and the directory \<^verbatim>\<open>d\<close> with inode 3, which holds the file \<^verbatim>\<open>b\<close> with inode 4.\<close>

definition img_record :: "u32 \<Rightarrow> u8 list \<Rightarrow> u8 list" where
  "img_record n name = to_le 4 n @ name @ replicate (60 - length name) 0"

definition img_root :: Inode where "img_root = root_inode\<lparr>i_size := 256\<rparr>"
definition img_sub :: Inode where "img_sub = root_inode\<lparr>i_size := 192, i_zones := [6, 0, 0, 0, 0, 0, 0, 0, 0, 0]\<rparr>"
definition img_leaf :: Inode where "img_leaf = tree_file\<lparr>i_uid := 5\<rparr>"

definition img_root_dir :: "u8 list" where
  "img_root_dir = img_record 1 [46] @ img_record 1 [46, 46] @ img_record 2 [97] @ img_record 3 [100] @ replicate 768 0"

definition img_sub_dir :: "u8 list" where
  "img_sub_dir = img_record 3 [46] @ img_record 1 [46, 46] @ img_record 4 [98] @ replicate 832 0"

definition img_table :: "u8 list" where
  "img_table = inode_bytes img_root @ inode_bytes tree_file @ inode_bytes img_sub @ inode_bytes img_leaf @ replicate 768 0"

definition img_disk :: "u8 list" where
  "img_disk = mini_image img_table (img_root_dir @ img_sub_dir)"

lemma img_lengths:
  "length (inode_bytes img_root) = 64" "length (inode_bytes tree_file) = 64" "length (inode_bytes img_sub) = 64" "length (inode_bytes img_leaf) = 64"
  "length img_root_dir = 1024" "length img_sub_dir = 1024" "length img_table = 1024" "length img_disk = 7168"
proof -
  show i: "length (inode_bytes img_root) = 64" "length (inode_bytes tree_file) = 64" "length (inode_bytes img_sub) = 64" "length (inode_bytes img_leaf) = 64"
    using length_inode_bytes [of img_root] length_inode_bytes [of tree_file] length_inode_bytes [of img_sub] length_inode_bytes [of img_leaf]
    by (simp_all add: img_root_def root_inode_def tree_file_def img_sub_def img_leaf_def INODE_SIZE_def)
  show d: "length img_root_dir = 1024" "length img_sub_dir = 1024" by (simp_all add: img_root_dir_def img_sub_dir_def img_record_def)
  show t: "length img_table = 1024" using i by (simp add: img_table_def)
  show "length img_disk = 7168" using d t by (simp add: img_disk_def mini_image_facts)
qed

lemma img_inodes:
  "disk_inode img_disk 1 = img_root" "disk_inode img_disk 2 = tree_file" "disk_inode img_disk 3 = img_sub" "disk_inode img_disk 4 = img_leaf"
proof -
  have t: "inode_table img_disk = 4096" "drop 4096 img_disk = img_table @ img_root_dir @ img_sub_dir" by (simp_all add: img_disk_def mini_image_facts)
  have "drop (4096 + k) img_disk = drop k img_table @ drop (k - 1024) (img_root_dir @ img_sub_dir)" for k
    unfolding add.commute [of 4096] drop_drop [symmetric] t(2) by (simp add: img_lengths)
  from this [of 64] this [of 128] this [of 192] this [of 0]
  have "disk_inode img_disk 1 = inode_of (inode_bytes img_root)" "disk_inode img_disk 2 = inode_of (inode_bytes tree_file)"
    "disk_inode img_disk 3 = inode_of (inode_bytes img_sub)" "disk_inode img_disk 4 = inode_of (inode_bytes img_leaf)"
    unfolding disk_inode_def t(1) by (simp_all add: img_lengths img_table_def)
  then show "disk_inode img_disk 1 = img_root" "disk_inode img_disk 2 = tree_file" "disk_inode img_disk 3 = img_sub" "disk_inode img_disk 4 = img_leaf"
    using inode_of_bytes [of img_root "[]"] inode_of_bytes [of tree_file "[]"] inode_of_bytes [of img_sub "[]"] inode_of_bytes [of img_leaf "[]"]
    by (simp_all add: img_root_def root_inode_def tree_file_def img_sub_def img_leaf_def)
qed

lemma img_contents:
  "file_bytes img_disk img_root = img_root_dir" "file_bytes img_disk img_sub = img_sub_dir" "zones_ok img_disk img_root" "zones_ok img_disk img_sub"
proof -
  have z: "file_zones img_disk img_root = [5]" "file_zones img_disk img_sub = [6]"
    by (simp_all add: file_zones_def direct_zones_def indirect_zones_def iindirect_zones_def iiindirect_zones_def img_root_def img_sub_def root_inode_def upt_rec)
  show "zones_ok img_disk img_root" "zones_ok img_disk img_sub"
    unfolding zones_ok_def z by (simp_all add: pointer_zones_def img_root_def img_sub_def root_inode_def in_disk_def img_lengths)
  have t: "drop 4096 img_disk = img_table @ img_root_dir @ img_sub_dir" by (simp add: img_disk_def mini_image_facts)
  have "drop 5120 img_disk = drop 1024 (drop 4096 img_disk)" "drop 6144 img_disk = drop 2048 (drop 4096 img_disk)" by simp_all
  then have "drop 5120 img_disk = img_root_dir @ img_sub_dir" "drop 6144 img_disk = img_sub_dir" unfolding t by (simp_all add: img_lengths)
  then show "file_bytes img_disk img_root = img_root_dir" "file_bytes img_disk img_sub = img_sub_dir"
    by (simp_all add: file_bytes_def z block_at_def img_lengths)
qed

lemma img_records:
  "disk_record img_disk 1 k e \<longleftrightarrow> (k, e) \<in> {(0, \<lparr>d_inode = 1, d_name = 46 # replicate 59 0\<rparr>), (1, \<lparr>d_inode = 1, d_name = 46 # 46 # replicate 58 0\<rparr>),
     (2, \<lparr>d_inode = 2, d_name = 97 # replicate 59 0\<rparr>), (3, \<lparr>d_inode = 3, d_name = 100 # replicate 59 0\<rparr>)}"
  "disk_record img_disk 3 k e \<longleftrightarrow> (k, e) \<in> {(0, \<lparr>d_inode = 3, d_name = 46 # replicate 59 0\<rparr>), (1, \<lparr>d_inode = 1, d_name = 46 # 46 # replicate 58 0\<rparr>),
     (2, \<lparr>d_inode = 4, d_name = 98 # replicate 59 0\<rparr>)}"
proof -
  have s: "unat (i_size img_root) = 256" "unat (i_size img_sub) = 192" by (simp_all add: img_root_def img_sub_def)
  have k: "64 * (k + 1) \<le> 256 \<longleftrightarrow> k = 0 \<or> k = 1 \<or> k = 2 \<or> k = 3" "64 * (k + 1) \<le> 192 \<longleftrightarrow> k = 0 \<or> k = 1 \<or> k = 2" for k :: nat by auto
  show "disk_record img_disk 1 k e \<longleftrightarrow> (k, e) \<in> {(0, \<lparr>d_inode = 1, d_name = 46 # replicate 59 0\<rparr>), (1, \<lparr>d_inode = 1, d_name = 46 # 46 # replicate 58 0\<rparr>),
     (2, \<lparr>d_inode = 2, d_name = 97 # replicate 59 0\<rparr>), (3, \<lparr>d_inode = 3, d_name = 100 # replicate 59 0\<rparr>)}"
    unfolding disk_record_def img_inodes img_contents s k by (auto simp: img_root_dir_def img_record_def dirent_of_def field_def)
  show "disk_record img_disk 3 k e \<longleftrightarrow> (k, e) \<in> {(0, \<lparr>d_inode = 3, d_name = 46 # replicate 59 0\<rparr>), (1, \<lparr>d_inode = 1, d_name = 46 # 46 # replicate 58 0\<rparr>),
     (2, \<lparr>d_inode = 4, d_name = 98 # replicate 59 0\<rparr>)}"
    unfolding disk_record_def img_inodes img_contents s k by (auto simp: img_sub_dir_def img_record_def dirent_of_def field_def)
qed

lemma img_entries:
  "disk_entry img_disk 1 k e \<longleftrightarrow> (k, e) \<in> {(2, \<lparr>d_inode = 2, d_name = 97 # replicate 59 0\<rparr>), (3, \<lparr>d_inode = 3, d_name = 100 # replicate 59 0\<rparr>)}"
  "disk_entry img_disk 3 k e \<longleftrightarrow> k = 2 \<and> e = \<lparr>d_inode = 4, d_name = 98 # replicate 59 0\<rparr>"
  unfolding disk_entry_def img_records by (auto simp: entry_name_def dot_name_def)

lemma img_types: "is_directory img_sub" "\<not> is_directory tree_file" "\<not> is_directory img_leaf"
  "i_mode tree_file AND 0x4000 = 0" "i_mode img_leaf AND 0x4000 = 0"
  by (simp_all add: is_directory_def img_sub_def root_inode_def tree_file_def img_leaf_def)

lemma img_minix: "minix_disk ram_env bdev ram_disk img_disk" "ram_disk img_disk = img_disk"
proof -
  show r: "ram_disk img_disk = img_disk" by (rule ram_disk_whole) (simp add: img_lengths)
  show "minix_disk ram_env bdev ram_disk img_disk"
    using ram_device_ok by (simp add: minix_disk_def r img_lengths) (simp add: img_disk_def mini_image_facts)
qed

lemma img_dirs: "disk_dir img_disk 1" "disk_dir img_disk 3"
proof -
  have t: "inode_table img_disk = 4096" by (simp add: img_disk_def mini_image_facts)
  have s: "unat (i_size img_root) = 256" "unat (i_size img_sub) = 192" by (simp_all add: img_root_def img_sub_def)
  show "disk_dir img_disk 1" unfolding disk_dir_def img_inodes img_contents s img_records img_entries
    by (auto simp: inode_on_disk_def t img_lengths entry_name_def dot_name_def img_contents(3))
  show "disk_dir img_disk 3" unfolding disk_dir_def img_inodes img_contents s img_records img_entries
    by (auto simp: inode_on_disk_def t img_lengths entry_name_def dot_name_def img_contents(4))
qed

lemma img_tree: "disk_tree img_disk {1, 3} (\<lambda>n. if n = 1 then 1 else 0)"
proof -
  have t: "inode_table img_disk = 4096" by (simp add: img_disk_def mini_image_facts)
  show ?thesis unfolding disk_tree_def using img_dirs
    by (auto simp: img_entries img_inodes img_types inode_on_disk_def t img_lengths)
qed

lemma img_sub_files: "disk_file {..<16} img_disk 3 names ino \<longleftrightarrow> names = [[98]] \<and> ino = img_leaf"
proof
  assume "disk_file {..<16} img_disk 3 names ino"
  then show "names = [[98]] \<and> ino = img_leaf"
    by (cases rule: disk_file.cases) (auto simp: img_entries img_inodes img_types entry_name_def)
next
  assume "names = [[98]] \<and> ino = img_leaf"
  then show "disk_file {..<16} img_disk 3 names ino"
    using disk_file.here [of img_disk 3 2 "\<lparr>d_inode = 4, d_name = 98 # replicate 59 0\<rparr>" "{..<16}"]
    by (simp add: img_entries img_inodes img_types entry_name_def)
qed

lemma img_files: "disk_file {..<16} img_disk 1 names ino \<longleftrightarrow> names = [[97]] \<and> ino = tree_file \<or> names = [[100], [98]] \<and> ino = img_leaf"
proof
  assume "disk_file {..<16} img_disk 1 names ino"
  then show "names = [[97]] \<and> ino = tree_file \<or> names = [[100], [98]] \<and> ino = img_leaf"
    by (cases rule: disk_file.cases) (auto simp: img_entries img_inodes img_types entry_name_def img_sub_files)
next
  assume "names = [[97]] \<and> ino = tree_file \<or> names = [[100], [98]] \<and> ino = img_leaf"
  then show "disk_file {..<16} img_disk 1 names ino"
    using disk_file.here [of img_disk 1 2 "\<lparr>d_inode = 2, d_name = 97 # replicate 59 0\<rparr>" "{..<16}"]
      disk_file.below [of img_disk 1 3 "\<lparr>d_inode = 3, d_name = 100 # replicate 59 0\<rparr>" "{..<16}" "[[98]]" img_leaf]
    by (auto simp: img_entries img_inodes img_types entry_name_def img_sub_files)
qed

section \<open>Properties\<close>

text \<open>
  C14: after \<^verbatim>\<open>refresh\<close>, \<^verbatim>\<open>open\<close> finds the files of the disk. The image is that of a Minix file system (\<open>minix_disk\<close>) whose directories are well formed, with ASCII
  names that are unique in their directory (\<open>disk_dir\<close>), and form a tree that is less deep than the bound on the recursion, without block devices and
  sockets (\<open>disk_tree\<close>). Then \<^verbatim>\<open>refresh\<close> returns, and for every path \<^verbatim>\<open>open\<close> returns the inode on the disk to which the names of the path lead
  from the root directory through the first 16 entries of each directory, and \<^verbatim>\<open>FileNotFound\<close> when they lead to no file. When every directory
  fits into one block of 1024 bytes, these are all files of the disk; entries behind the first block are not found.
\<close>
theorem refresh_opens_disk_files:
  assumes "minix_disk E bdev disk (dev s)" and "disk_tree (disk (dev s)) S rank" and "rank 1 < depth"
    and "0 < unat bdev" and "unat bdev \<le> length (MFS_INODE_CACHE s)"
  shows "\<exists>s'. refresh depth E bdev s = Some s' \<and> dev s' = dev s
    \<and> (\<forall>path ino. fs_open bdev path s' = Some (Inr ino) \<longleftrightarrow>
         (\<exists>names. path = concat (map (\<lambda>x. 47 # x) names) \<and> disk_file {..<16} (disk (dev s)) 1 names ino))
    \<and> (\<forall>path. fs_open bdev path s' = Some (Inl FileNotFound) \<longleftrightarrow>
         (\<nexists>names ino. path = concat (map (\<lambda>x. 47 # x) names) \<and> disk_file {..<16} (disk (dev s)) 1 names ino))
    \<and> ((\<forall>n \<in> S. unat (i_size (disk_inode (disk (dev s)) n)) \<le> 1024) \<longrightarrow>
         (\<forall>names ino. disk_file {..<16} (disk (dev s)) 1 names ino \<longleftrightarrow> disk_file UNIV (disk (dev s)) 1 names ino))"
proof -
  obtain s' where s': "refresh depth E bdev s = Some s'" "dev s' = dev s"
    "\<forall>path ino. fs_open bdev path s' = Some (Inr ino) \<longleftrightarrow> (\<exists>names. path = path_string names \<and> disk_file {..<16} (disk (dev s)) 1 names ino)"
    "\<forall>path. fs_open bdev path s' = Some (Inl FileNotFound) \<longleftrightarrow> (\<nexists>names ino. path = path_string names \<and> disk_file {..<16} (disk (dev s)) 1 names ino)"
    by (rule refresh_first_entries [OF assms])
  have "1 \<in> S" using assms(2) by (simp add: disk_tree_def)
  then have "(\<forall>n \<in> S. unat (i_size (disk_inode (disk (dev s)) n)) \<le> 1024) \<longrightarrow>
      (\<forall>names ino. disk_file {..<16} (disk (dev s)) 1 names ino \<longleftrightarrow> disk_file UNIV (disk (dev s)) 1 names ino)"
    using disk_file_one_block [OF assms(2)] by blast
  then show ?thesis by (intro exI [of _ s'] conjI s'(1,2) s'(3,4) [unfolded path_string_def])
qed

theorem refresh_opens_disk_files_witness:
  "\<exists>s1. refresh 2 ram_env 8 \<lparr>dev = img_disk, MFS_INODE_CACHE = replicate 8 None\<rparr> = Some s1
     \<and> fs_open 8 [47, 97] s1 = Some (Inr tree_file) \<and> fs_open 8 [47, 100, 47, 98] s1 = Some (Inr img_leaf)
     \<and> fs_open 8 [47, 100] s1 = Some (Inl FileNotFound)
     \<and> disk_file UNIV img_disk 1 [[100], [98]] img_leaf"
proof -
  let ?s = "\<lparr>dev = img_disk, MFS_INODE_CACHE = replicate 8 None\<rparr>"
  have sz: "\<forall>n \<in> {1, 3}. unat (i_size (disk_inode img_disk n)) \<le> 1024" by (simp add: img_inodes) (simp add: img_root_def img_sub_def)
  have d: "ram_disk (dev ?s) = img_disk" by (simp add: img_minix)
  have "(\<lambda>n. if n = 1 then 1 else 0) 1 < (2 :: nat)" "0 < unat (8 :: usize)" "unat (8 :: usize) \<le> length (MFS_INODE_CACHE ?s)" by simp_all
  from refresh_opens_disk_files [of ram_env 8 ram_disk ?s, unfolded d, OF _ img_tree this] img_minix(1)
  obtain s1 where s1: "refresh 2 ram_env 8 ?s = Some s1"
    "\<forall>path ino. fs_open 8 path s1 = Some (Inr ino) \<longleftrightarrow> (\<exists>names. path = concat (map (\<lambda>x. 47 # x) names) \<and> disk_file {..<16} img_disk 1 names ino)"
    "\<forall>path. fs_open 8 path s1 = Some (Inl FileNotFound) \<longleftrightarrow> (\<nexists>names ino. path = concat (map (\<lambda>x. 47 # x) names) \<and> disk_file {..<16} img_disk 1 names ino)"
    "\<forall>names ino. disk_file {..<16} img_disk 1 names ino \<longleftrightarrow> disk_file UNIV img_disk 1 names ino"
    using sz by auto
  have "fs_open 8 [47, 97] s1 = Some (Inr tree_file)" using s1(2) by (auto simp: img_files intro!: exI [of _ "[[97]]"])
  moreover have "fs_open 8 [47, 100, 47, 98] s1 = Some (Inr img_leaf)" using s1(2) by (auto simp: img_files intro!: exI [of _ "[[100], [98]]"])
  moreover have "fs_open 8 [47, 100] s1 = Some (Inl FileNotFound)" using s1(3) img_files by auto
  moreover have "disk_file UNIV img_disk 1 [[100], [98]] img_leaf" using s1(4) img_files by blast
  ultimately show ?thesis using s1(1) by blast
qed

end
