(* ===== verification/Spec2Isabelle.thy ===== *)
theory Spec2Isabelle
  imports Lock User_Heap Boot Alloc_Tables Test_Program Fs_Image
begin

text \<open>
  Verification of the minimum-fs kernel, a RISC-V operating system in Rust with a Minix 3 file system
  (\<^verbatim>\<open>src/risc_v/src\<close>).

  \<^bold>\<open>The program.\<close> The kernel boots in \<^verbatim>\<open>main.rs\<close>: it initialises the serial port, the page allocator, the heap and the
  process list, probes the VirtIO bus, and switches to the first process. From then on it runs only in traps
  (\<^verbatim>\<open>trap.rs\<close>): timer interrupts go to the scheduler, external interrupts through the interrupt controller to a
  device driver, faults delete the process, environment calls are system calls. A system call that needs the disk starts a
  kernel process, which calls the file system; the file system asks the block driver, the caller waits, and the
  completion interrupt of the device wakes it.

  \<^bold>\<open>Theories and sources.\<close>
  \<^item> \<open>Prelude\<close>: words with the checked arithmetic of Rust, little-endian bytes, the byte memory with its regions,
    and \<open>for_each\<close>, a loop whose body may panic. The collections \<open>checked_simps\<close> and \<open>region_simps\<close> carry the arithmetic and the
    disjointness arguments of the components.
  \<^item> \<open>Cpu\<close> (\<^verbatim>\<open>cpu.rs\<close>): registers, the trap frame, \<^verbatim>\<open>build_satp\<close>, and \<^verbatim>\<open>memcpy\<close> with what it really copies.
  \<^item> \<open>Page_Alloc\<close> and \<open>Mmu\<close> (\<^verbatim>\<open>page.rs\<close>): the descriptor table with \<^verbatim>\<open>alloc\<close>, \<^verbatim>\<open>zalloc\<close>, \<^verbatim>\<open>dealloc\<close>; Sv39 page tables with
    \<^verbatim>\<open>map\<close>, \<^verbatim>\<open>unmap\<close>, \<^verbatim>\<open>virt_to_phys\<close>.
  \<^item> \<open>Kmem\<close> and \<open>Kmem_Heap\<close> (\<^verbatim>\<open>kmem.rs\<close>): the heap as a chain of headers in memory, and its refinement to a list of chunks.
  \<^item> \<open>Buffers\<close> (\<^verbatim>\<open>buffer.rs\<close>): the buffers of the file system as allocations of the heap. \<open>Alloc_Tables\<close>: the routines that print the state of
    both allocators.
  \<^item> \<open>Hart\<close> (\<^verbatim>\<open>asm/trap.S\<close>, \<^verbatim>\<open>asm/boot.S\<close>, control registers of \<^verbatim>\<open>cpu.rs\<close>): a hart with its registers and its mode, the instructions
    that the assembly files use, and these files as lists of instructions.
  \<^item> \<open>Address_Space\<close>: sequences of calls of \<^verbatim>\<open>map\<close>, the address space as the last mapping of each page, the words that the MMU reads.
  \<^item> \<open>Lock\<close> (\<^verbatim>\<open>lock.rs\<close>), \<open>Process\<close> (\<^verbatim>\<open>process.rs\<close>), \<open>Sched\<close> (\<^verbatim>\<open>sched.rs\<close>), \<open>Console\<close> (\<^verbatim>\<open>console.rs\<close>), \<open>Elf\<close> (\<^verbatim>\<open>elf.rs\<close>).
  \<^item> \<open>Elf_Load\<close>, \<open>Isolation\<close>, \<open>User_Heap\<close>: proofs on the address space of a loaded program, on the processes of a running machine as
    steps (\<open>proc_step\<close>), and on the heap of a process (\<^verbatim>\<open>brk\<close>).
  \<^item> \<open>Fs_Data\<close>, \<open>Fs\<close> (\<^verbatim>\<open>fs.rs\<close>, \<^verbatim>\<open>buffer.rs\<close>): the structures on the disk, and the operations. \<open>Fs_Io\<close>, \<open>Fs_Walk\<close>,
    \<open>Fs_Write\<close>, \<open>Fs_Cache\<close>, \<open>Fs_Tree\<close>: the proofs on block access, on the walk over direct and indirect zones, on writing, on
    inodes and the cache, and on the cache as a relation. \<open>Fs_Update\<close>: what rewriting a file changes and what it leaves alone. \<open>Fs_Image\<close>: the files of a disk
    image, read off its bytes, against which the cache is proved.
  \<^item> \<open>Test_Program\<close> (\<^verbatim>\<open>test.rs\<close>): the kernel process that exercises the file system and the block driver.
  \<^item> \<open>Virtio\<close>, \<open>Virtio_Bus\<close> (\<^verbatim>\<open>virtio.rs\<close>, \<^verbatim>\<open>rng.rs\<close>), \<open>Block\<close> and \<open>Block_Pending\<close> (\<^verbatim>\<open>block.rs\<close>), \<open>Input\<close> (\<^verbatim>\<open>input.rs\<close>), \<open>Gpu\<close>
    (\<^verbatim>\<open>gpu.rs\<close>): queues and drivers.
  \<^item> \<open>Plic\<close> (\<^verbatim>\<open>plic.rs\<close>, \<^verbatim>\<open>uart.rs\<close>), \<open>Syscall\<close> (\<^verbatim>\<open>syscall.rs\<close>), \<open>Trap\<close> (\<^verbatim>\<open>trap.rs\<close>, \<^verbatim>\<open>main.rs\<close>).
  \<^item> \<open>Context_Switch\<close>: a trap from the interrupted instruction through \<^verbatim>\<open>m_trap_vector\<close>, \<^verbatim>\<open>m_trap\<close> and \<^verbatim>\<open>switch_to_user\<close> to the next one, and the
    wrappers with which kernel processes make system calls. \<open>Process_Start\<close>: the first instruction of a new process, and saved contexts in
    isolated memory. \<open>Boot\<close>: \<^verbatim>\<open>kinit\<close> as a whole.

  \<^bold>\<open>State.\<close> Raw pointers are addresses in one byte memory, so that what lies behind a pointer is read and written there:
  page descriptors, page tables, heap headers, trap frames, VirtIO queues, requests, frame buffer. The static variables of
  the modules are the fields of a chain of records, each of which extends the one before:
  \<open>page_st\<close> (memory and page allocator), \<open>kmem_st\<close>, \<open>proc_st\<close> (process list, its mutex, next pid), \<open>console_st\<close>, \<open>virtio_st\<close> (with the log of
  writes to device registers), \<open>block_st\<close>, \<open>input_st\<close>, \<open>gpu_st\<close>, \<open>bus_st\<close>, \<open>plic_st\<close> (with the log of the serial port), \<open>kernel_st\<close> (inode
  caches), \<open>trap_st\<close> (timer). An operation is a function on the schemes of its record, so that it applies to all later
  states. The file system works on a device of its own type (\<open>fs_st\<close>).

  \<^bold>\<open>Conventions.\<close> An operation that can panic, that can loop for ever or that can access memory outside a buffer returns
  an option, and \<open>None\<close> is all of these; \<open>Result\<close> is a sum. Integers have their width; checked operations
  (\<open>uadd\<close>, \<open>usub\<close>, \<open>umul\<close>) panic on overflow as a debug build does, \<^verbatim>\<open>wrapping_add\<close> and pointer arithmetic wrap. A loop that need
  not end is a partial function to option (\<open>kmalloc_loop\<close>, \<open>coalesce_loop\<close>, \<open>spin_lock\<close>, \<open>procfindloop\<close>, \<open>event_loop\<close>,
  \<open>block_pending_loop\<close>, \<open>gpu_pending_loop\<close>, \<open>status_loop\<close>, \<open>c_string\<close>, \<open>clear_bss\<close>, \<open>last_page\<close>, \<open>page_lines\<close>, \<open>chunk_lines\<close>); that it returns is part of the theorems. The recursion of \<open>cache_at\<close> over directories
  has a fuel, which \<open>cache_at_terminates\<close> shows to be enough for a tree of that depth.

  \<^bold>\<open>Parameters.\<close> What is not in the sources is an argument: the contents of device registers (\<open>device_regs\<close>, \<open>uart_regs\<close>,
  functions of the log of writes), the clock (\<open>hardware\<close>; it does not advance inside a trap), addresses of functions and the layout of Rust structures that the
  compiler and the linker choose (\<open>image\<close>, \<open>gpu_layout\<close>, \<open>layout\<close>, \<open>symbols\<close>, \<open>boot_symbols\<close>), the registers that the compiled code of \<^verbatim>\<open>m_trap\<close>
  leaves behind, the block device behind the file system and
  the contents of uninitialised buffers (\<open>env\<close>).

  \<^bold>\<open>Interfaces.\<close> \<open>page_provider\<close> (what the page allocator promises to the heap, the page tables and the processes; interpreted on
  \<open>zalloc\<close> and \<open>dealloc\<close>), \<open>byte_heap\<close> (the heap; on \<open>kmalloc\<close> and \<open>kfree\<close>), \<open>bounded_fifo\<close> (both console queues), \<open>byte_store\<close> (the disk behind \<open>syc_read\<close>
  and \<open>syc_write\<close>), \<open>zone_walk\<close> (the walk over the zones of a file, on the bodies of reading and of writing).

  \<^bold>\<open>What is shown.\<close>
  \<^item> Memory: the page allocator and the heap are first fit, hand out memory that is disjoint from everything in
    use and zeroed where promised, and free exactly what they are given; the table that is printed lists the blocks; a buffer is copied and freed; \<^verbatim>\<open>map\<close> and \<^verbatim>\<open>unmap\<close> change exactly the translation asked for.
  \<^item> Processes: creation and deletion leak no page; the scheduler is round robin and returns when somebody can run; the
    mutex excludes; a fault removes the process with all its pages; the timer preempts.
  \<^item> Address spaces: the loader builds the tables, the image, the stack and the frame of a program, which finds its bytes at
    their addresses; \<^verbatim>\<open>brk\<close> adds zeroed pages; in every state that creating, loading, scheduling and deleting processes, allocations and stores
    of the processes lead to, the processes own disjoint pages and reach only their own (\<open>isolated\<close>, by induction over the steps). Isolation needs
    that creation and loading succeed, that every segment of a loaded file ends before the end of the program block (\<open>segment_inside\<close>; the loader
    does not check it) and that physical addresses lie below \<open>2 ^ 56\<close> (\<open>machine_ok\<close>).
  \<^item> Files: \<^verbatim>\<open>read\<close> delivers the slice of the contents of the file through all levels of indirection; what \<^verbatim>\<open>write\<close> stores
    in a zone is read back, also after the size in the inode is replaced and the cache is built again, and all other files stay; inodes are found in the table; caching a tree ends, and then
    \<^verbatim>\<open>open\<close> finds exactly the files of the image (\<open>disk_file\<close>) that the first 16 entries of each directory lead to, which are all when directories have one block;
    names are ASCII.
  \<^item> Devices: a block request, a graphics command and an input buffer are put into the queue as the device expects them; input events are delivered in order, and which buffers are offered
    again is stated with their addresses; the
    completion interrupt runs from the controller through the bus and the driver to the waiting process.
  \<^item> Contexts: a trap saves all registers into the frame of the process and a switch restores them, so that a program cannot tell
    that it was interrupted (\<open>same_context\<close>), not even after other processes ran; the timer interrupt, from the instruction it hits to the first
    instruction of the next process; a new process starts at its entry point with its stack and address space; \<^verbatim>\<open>get_pid\<close> from
    the wrapper through the \<^verbatim>\<open>ecall\<close> and back; the boot code clears the BSS section and enters \<^verbatim>\<open>kinit\<close>, and \<^verbatim>\<open>kinit\<close> (with an
    empty VirtIO bus, \<open>bus_empty\<close>) ends with a switch to the test program in a state in which both allocators are ready, the processes are isolated and ready to
    run, and the registers of the serial port and of the interrupt controller have been written as they should.
  \<^item> System calls: \<^verbatim>\<open>open\<close> and \<^verbatim>\<open>close\<close>, \<^verbatim>\<open>write\<close> to the console, block access. Executables: the segments that the loader finds.
  \<^item> Defects of the code, as theorems on the model: memory granted past the end of the heap, the table at address 0 after a failed
    allocation in \<^verbatim>\<open>map\<close>, the tail that \<^verbatim>\<open>memcpy\<close> drops, the number that \<^verbatim>\<open>find_free_inode\<close> computes, \<^verbatim>\<open>create\<close> without effect, the event buffer that
    the device overruns, the caller that waits for ever after a failed block request, the scheduler that spins, the copy of a buffer without memory, the pid
    handed out twice, the page that the loader forgets, the page that it maps behind the program, the page of the heap that \<^verbatim>\<open>brk\<close> clears,
    the files behind the first block of a directory, which are never found.

  \<^bold>\<open>Not modelled.\<close> \<^verbatim>\<open>assembly.rs\<close> includes the assembly files and \<^verbatim>\<open>asm/mem.S\<close> names symbols of the linker; both hold no code. Of printing
  routines the values are modelled, the layout of the lines is not; the panic handler, which ends a run, and structures that no
  code uses are left out. The memory has no
  translation buffer: \<^verbatim>\<open>sfence\<close> has no effect. One hart runs; concurrency is in \<open>Lock\<close> only, as interleaved steps of callers of a mutex.

  \<^bold>\<open>Plan.\<close> \<^verbatim>\<open>kinit\<close> with devices on the bus; several completed requests in one interrupt; the frame buffer that a
  process maps, as a step of isolation; the end of a kernel process through \<^verbatim>\<open>ra_delete_proc\<close>.
\<close>

end
